(* ===== verification/ZPrelude.thy ===== *)
theory ZPrelude
  imports Main "HOL-Library.Word"
begin

section \<open>Prelude: fixed-width types, failures and generic lemmas\<close>

text \<open>
  Names for the C types of zsim (\<open>uint64_t\<close>, \<open>uint32_t\<close>, \<open>uint8_t\<close>, \<open>Address\<close>), the
  result type of an operation that may stop the simulator (an \<open>assert\<close> or a \<open>panic\<close> of
  log.h), and the facts on lists, function updates and words that several components share.

  Array indices (line ids, child ids, core ids, way numbers) are natural numbers: the code
  never lets one wrap around, because every such index is bounded by the length of an
  allocated array. Counters, timestamps, cycles, re-reference values and addresses keep
  their width, because their wrap-around and truncation are observable.
\<close>

unbundle bit_operations_syntax

type_synonym u8 = "8 word"
type_synonym u16 = "16 word"
type_synonym u32 = "32 word"
type_synonym u64 = "64 word"
type_synonym address = u64

subsection \<open>Failures\<close>

text \<open>
  \<open>AssertFail\<close> and \<open>Panic\<close> are the two ways in which the code stops itself. \<open>NoReturn\<close> is a
  call that never returns: a loop that does not end, or the acquisition of a lock that the
  same thread of control already holds. \<open>OutOfFuel\<close> marks a recursion deeper than the bound
  given to a model function.
\<close>

datatype failure = AssertFail | Panic | NoReturn | OutOfFuel | OutOfBounds

type_synonym 'a res = "failure + 'a"

definition rbind :: "'a res \<Rightarrow> ('a \<Rightarrow> 'b res) \<Rightarrow> 'b res" where
  "rbind m f = (case m of Inl e \<Rightarrow> Inl e | Inr x \<Rightarrow> f x)"

definition assert_then :: "bool \<Rightarrow> 'a res \<Rightarrow> 'a res" where
  "assert_then b k = (if b then k else Inl AssertFail)"

lemma rbind_simps [simp]:
  "rbind (Inl e) f = Inl e"
  "rbind (Inr x) f = f x"
  by (simp_all add: rbind_def)

lemma assert_then_simps [simp]:
  "assert_then True k = k"
  "assert_then False k = Inl AssertFail"
  by (simp_all add: assert_then_def)

lemma rbind_eq_Inr_iff: "rbind m f = Inr y \<longleftrightarrow> (\<exists>x. m = Inr x \<and> f x = Inr y)"
  by (cases m) simp_all

lemma assert_then_eq_Inr_iff: "assert_then b k = Inr y \<longleftrightarrow> b \<and> k = Inr y"
  by (simp add: assert_then_def)

text \<open>A loop over a list whose body may fail.\<close>

fun rfold :: "('a \<Rightarrow> 's \<Rightarrow> 's res) \<Rightarrow> 'a list \<Rightarrow> 's \<Rightarrow> 's res" where
  "rfold f [] s = Inr s"
| "rfold f (x # xs) s = rbind (f x s) (rfold f xs)"

lemma rfold_append: "rfold f (xs @ ys) s = rbind (rfold f xs s) (rfold f ys)"
  by (induction xs arbitrary: s) (auto simp: rbind_def split: sum.split)

lemma rfold_invariant:
  assumes "rfold f xs s = Inr s'" and "P s" and "\<And>x s s'. x \<in> set xs \<Longrightarrow> P s \<Longrightarrow> f x s = Inr s' \<Longrightarrow> P s'"
  shows "P s'"
  using assms
proof (induction xs arbitrary: s)
  case (Cons x xs)
  from Cons.prems(1) obtain s1 where s1: "f x s = Inr s1" "rfold f xs s1 = Inr s'" by (auto simp: rbind_eq_Inr_iff)
  have "P s1" by (rule Cons.prems(3) [OF _ Cons.prems(2) s1(1)]) simp
  then show ?case
    by (rule Cons.IH [OF s1(2)]) (rule Cons.prems(3), auto)
qed simp

named_theorems res_simps \<open>inversion of results that did not fail\<close>

declare rbind_eq_Inr_iff [res_simps]
declare assert_then_eq_Inr_iff [res_simps]

subsection \<open>Compiler built-ins\<close>

text \<open>
  \<open>__builtin_ctz\<close> and \<open>__builtin_clz\<close> count the zero bits below the lowest and above the
  highest set bit (undefined in C for 0, where the count here is the width).
\<close>

definition builtin_ctz :: "'a::len word \<Rightarrow> nat" where
  "builtin_ctz w = length (takeWhile (\<lambda>n. \<not> bit w n) [0..<LENGTH('a)])"

definition builtin_clz :: "'a::len word \<Rightarrow> nat" where
  "builtin_clz w = length (takeWhile (\<lambda>n. \<not> bit w n) (rev [0..<LENGTH('a)]))"

lemma takeWhile_upt_length:
  assumes "k < n" and "\<not> P k" and "\<And>i. i < k \<Longrightarrow> P i"
  shows "length (takeWhile P [0..<n]) = k"
proof -
  have split: "[0..<n] = [0..<k] @ k # [Suc k..<n]"
    using assms(1) upt_add_eq_append [of 0 k "n - k"] by (simp add: upt_conv_Cons)
  show ?thesis
    unfolding split using assms(2,3) by (subst takeWhile_append2) auto
qed

lemma word_exists_bit: "w \<noteq> 0 \<Longrightarrow> \<exists>n < LENGTH('a). bit (w :: 'a::len word) n"
  by (metis bit_eq_iff bit_0_eq bot_apply bot_bool_def bit_imp_le_length)

lemma builtin_ctz_bit:
  assumes "w \<noteq> 0"
  shows "bit w (builtin_ctz w) \<and> builtin_ctz (w :: 'a::len word) < LENGTH('a)
    \<and> (\<forall>i < builtin_ctz w. \<not> bit w i)"
proof -
  define k where "k = (LEAST n. bit w n)"
  from word_exists_bit [OF assms] obtain n where n: "bit w n" "n < LENGTH('a)" by blast
  have k: "bit w k" unfolding k_def using n(1) by (rule LeastI)
  have le: "k \<le> n" unfolding k_def using n(1) by (rule Least_le)
  have below: "\<not> bit w i" if "i < k" for i
    using that not_less_Least unfolding k_def by blast
  have "builtin_ctz w = k"
    unfolding builtin_ctz_def by (rule takeWhile_upt_length) (use k below le n in auto)
  with k below le n show ?thesis by auto
qed

lemma unat_pow2 [simp]: "k < LENGTH('a) \<Longrightarrow> unat (2 ^ k :: 'a::len word) = 2 ^ k"
  using unat_of_nat [of "2 ^ k", where 'a = 'a] by simp

lemma unat_less_exp: "unat (w :: 'a::len word) < 2 ^ LENGTH('a)"
  by (rule unsigned_less)

lemma unat_plus_one: "w + 1 \<noteq> 0 \<Longrightarrow> unat (w + 1 :: 'a::len word) = Suc (unat w)"
  using unatSuc [of w] by (simp add: add.commute)

lemma word_add_1_le: "a < (b :: 'a::len word) \<Longrightarrow> a + 1 \<le> b"
  by (metis add.commute inc_le)

lemma word_less_plus_1_nz: "a < (b :: 'a::len word) \<Longrightarrow> a + 1 \<noteq> 0"
  by (metis eq_neg_iff_add_eq_0 leD word_n1_ge)

lemma unat_ucast_u32_u64 [simp]: "unat (ucast (s :: u32) :: u64) = unat s"
proof -
  have "unat s < 2 ^ 64" using unat_less_exp [of s] by simp
  then show ?thesis by (simp add: unsigned_ucast_eq take_bit_nat_eq_self)
qed

lemma ucast_u32_u64_le_iff [simp]:
  "(ucast (a :: u32) :: u64) \<le> ucast (b :: u32) \<longleftrightarrow> a \<le> b"
  by (simp add: word_le_nat_alt)

lemma ucast_u32_u64_less_iff [simp]:
  "(ucast (a :: u32) :: u64) < ucast (b :: u32) \<longleftrightarrow> a < b"
  by (simp add: word_less_nat_alt)

subsection \<open>Lists and updates\<close>

lemma foldl_fun_upd_notin:
  "x \<notin> set xs \<Longrightarrow> foldl (\<lambda>a i. a(i := g a i)) f xs x = f x"
  by (induction xs arbitrary: f) auto

text \<open>A search loop that stops at the first element without \<open>P\<close>.\<close>

lemma takeWhile_first:
  assumes "x \<in> set xs" and "\<not> P x"
  shows "length (takeWhile P xs) < length xs" and "\<not> P (xs ! length (takeWhile P xs))"
    and "i < length (takeWhile P xs) \<Longrightarrow> P (xs ! i)"
proof -
  show lt: "length (takeWhile P xs) < length xs"
    using assms by (induction xs) auto
  show "\<not> P (xs ! length (takeWhile P xs))" by (rule nth_length_takeWhile [OF lt])
  show "i < length (takeWhile P xs) \<Longrightarrow> P (xs ! i)"
    by (metis nth_mem set_takeWhileD takeWhile_nth)
qed

lemma option_ext: "(\<And>i. x = Some i \<longleftrightarrow> y = Some i) \<Longrightarrow> x = y"
  by (cases x; cases y) auto

lemma find_upt_Some:
  "List.find P [a..<b] = Some i \<Longrightarrow> a \<le> i \<and> i < b \<and> P i \<and> (\<forall>j. a \<le> j \<longrightarrow> j < i \<longrightarrow> \<not> P j)"
proof (induction "b - a" arbitrary: a)
  case (Suc n)
  then have "[a..<b] = a # [Suc a..<b]" by (simp add: upt_conv_Cons)
  with Suc show ?case
    by (cases "P a") (auto dest!: Suc.hyps(1) [rotated] simp: Suc_le_eq nat_less_le)
qed simp

lemma find_upt_None: "List.find P [a..<b] = None \<longleftrightarrow> (\<forall>i. a \<le> i \<longrightarrow> i < b \<longrightarrow> \<not> P i)"
  by (auto simp: find_None_iff)

end
