(* ===== verification/MemTypes.thy ===== *)
theory MemTypes
  imports ZPrelude
begin

section \<open>Types of the memory hierarchy\<close>

text \<open>
  memory_hierarchy.h and memory_hierarchy.cpp (access, invalidation and MESI types, the
  request records, the flag operations and the name tables). A pointer \<open>MESIState*\<close> of a
  request is the pair of the cache that owns the state array and the line id in it.
\<close>

datatype access_type = GETS | GETX | PUTS | PUTX

datatype inv_type = INV | INVX | FWD

datatype mesi = I | S | E | M

type_synonym state_ref = "nat \<times> nat"

text \<open>
  The locks that a request can hand over: the lock of the bottom or top controller of a
  cache and the lock of the filter array of a core's cache.
\<close>

datatype lock_id = BccLock nat | TccLock nat | FilterLock nat

record mem_req =
  lineAddr :: address
  r_type :: access_type
  childId :: nat
  state_ptr :: state_ref
  cycle :: u64
  childLock :: "lock_id option"
  initialState :: mesi
  srcId :: u32
  flags :: u32
  pc :: address

record inv_req =
  i_lineAddr :: address
  i_type :: inv_type
  i_cycle :: u64
  i_srcId :: u32

definition IsGet :: "access_type \<Rightarrow> bool" where
  "IsGet t \<longleftrightarrow> t = GETS \<or> t = GETX"

definition IsPut :: "access_type \<Rightarrow> bool" where
  "IsPut t \<longleftrightarrow> t = PUTS \<or> t = PUTX"

lemma IsPut_not_IsGet: "IsPut t \<longleftrightarrow> \<not> IsGet t"
  by (cases t) (simp_all add: IsGet_def IsPut_def)

subsection \<open>Names\<close>

text \<open>
  The name functions index static tables after asserting that the enum value is within the
  table. The table of \<open>InvTypeName\<close> has two entries although the enum has three values.
\<close>

fun access_code :: "access_type \<Rightarrow> nat" where
  "access_code GETS = 0"
| "access_code GETX = 1"
| "access_code PUTS = 2"
| "access_code PUTX = 3"

fun inv_code :: "inv_type \<Rightarrow> nat" where
  "inv_code INV = 0"
| "inv_code INVX = 1"
| "inv_code FWD = 2"

fun mesi_code :: "mesi \<Rightarrow> nat" where
  "mesi_code I = 0"
| "mesi_code S = 1"
| "mesi_code E = 2"
| "mesi_code M = 3"

definition accessTypeNames :: "string list" where
  "accessTypeNames = [''GETS'', ''GETX'', ''PUTS'', ''PUTX'']"

definition invTypeNames :: "string list" where
  "invTypeNames = [''INV'', ''INVX'']"

definition mesiStateNames :: "string list" where
  "mesiStateNames = [''I'', ''S'', ''E'', ''M'']"

definition AccessTypeName :: "access_type \<Rightarrow> string res" where
  "AccessTypeName t = assert_then (access_code t < length accessTypeNames)
     (Inr (accessTypeNames ! access_code t))"

definition InvTypeName :: "inv_type \<Rightarrow> string res" where
  "InvTypeName t = assert_then (inv_code t < length invTypeNames)
     (Inr (invTypeNames ! inv_code t))"

definition MESIStateName :: "mesi \<Rightarrow> string res" where
  "MESIStateName t = assert_then (mesi_code t < length mesiStateNames)
     (Inr (mesiStateNames ! mesi_code t))"

lemma name_tables:
  "(\<exists>n. AccessTypeName a = Inr n) \<and> (\<exists>n. MESIStateName m = Inr n)
   \<and> (InvTypeName i = Inl AssertFail \<longleftrightarrow> i = FWD)"
  by (cases a; cases m; cases i)
    (simp_all add: AccessTypeName_def MESIStateName_def InvTypeName_def accessTypeNames_def
      mesiStateNames_def invTypeNames_def)

subsection \<open>Request flags\<close>

datatype flag = IFETCH | NOEXCL | NONINCLWB | PUTX_KEEPEXCL | PREFETCH

fun flag_mask :: "flag \<Rightarrow> u32" where
  "flag_mask IFETCH = push_bit 1 1"
| "flag_mask NOEXCL = push_bit 2 1"
| "flag_mask NONINCLWB = push_bit 3 1"
| "flag_mask PUTX_KEEPEXCL = push_bit 4 1"
| "flag_mask PREFETCH = push_bit 5 1"

definition req_set :: "mem_req \<Rightarrow> flag \<Rightarrow> mem_req" where
  "req_set r f = r\<lparr>flags := flags r OR flag_mask f\<rparr>"

definition req_is :: "mem_req \<Rightarrow> flag \<Rightarrow> bool" where
  "req_is r f \<longleftrightarrow> flags r AND flag_mask f \<noteq> 0"

definition flag_in :: "u32 \<Rightarrow> flag \<Rightarrow> bool" where
  "flag_in fl f \<longleftrightarrow> fl AND flag_mask f \<noteq> 0"

definition clear_flag :: "u32 \<Rightarrow> flag \<Rightarrow> u32" where
  "clear_flag fl f = fl AND NOT (flag_mask f)"

fun flag_bit :: "flag \<Rightarrow> nat" where
  "flag_bit IFETCH = 1"
| "flag_bit NOEXCL = 2"
| "flag_bit NONINCLWB = 3"
| "flag_bit PUTX_KEEPEXCL = 4"
| "flag_bit PREFETCH = 5"

lemma flag_mask_bit: "flag_mask f = push_bit (flag_bit f) 1"
  by (cases f) simp_all

lemma flag_bit_inject [simp]: "flag_bit f = flag_bit g \<longleftrightarrow> f = g"
  by (cases f; cases g) simp_all

lemma flag_bit_lt [simp]: "flag_bit f < 32"
  by (cases f) simp_all

lemma and_flag_mask: "fl AND flag_mask f \<noteq> 0 \<longleftrightarrow> bit (fl :: u32) (flag_bit f)"
proof -
  have "fl AND flag_mask f = (if bit fl (flag_bit f) then push_bit (flag_bit f) 1 else 0)"
    by (rule bit_word_eqI) (auto simp: flag_mask_bit bit_simps)
  moreover have "push_bit (flag_bit f) (1 :: u32) \<noteq> 0"
    by (cases f) simp_all
  ultimately show ?thesis by simp
qed

lemma flag_in_iff: "flag_in fl f \<longleftrightarrow> bit fl (flag_bit f)"
  by (simp add: flag_in_def and_flag_mask)

lemma req_is_flag_in: "req_is r f = flag_in (flags r) f"
  by (simp add: req_is_def flag_in_def)

lemma flag_in_or: "flag_in (fl OR flag_mask g) f \<longleftrightarrow> f = g \<or> flag_in fl f"
  by (auto simp: flag_in_iff flag_mask_bit bit_simps)

lemma flag_in_clear: "flag_in (clear_flag fl g) f \<longleftrightarrow> f \<noteq> g \<and> flag_in fl f"
  by (auto simp: flag_in_iff clear_flag_def flag_mask_bit bit_simps)

lemma flag_in_zero [simp]: "\<not> flag_in 0 f"
  by (simp add: flag_in_def)

lemma req_is_set: "req_is (req_set r g) f \<longleftrightarrow> f = g \<or> req_is r f"
  by (simp add: req_is_flag_in req_set_def flag_in_or)

end
