(* ===== verification/ReplIface.thy ===== *)
theory ReplIface
  imports MemTypes
begin

section \<open>The replacement policy interface\<close>

text \<open>
  class \<open>ReplPolicy\<close> of repl_policies.h. A cache array uses a policy in two ways: \<open>update\<close>
  on a hit, and the sequence \<open>rankCands\<close> (choose a victim), \<open>replaced\<close>, \<open>update\<close> on a miss.
  Hits on other lines may come between \<open>rankCands\<close> and \<open>replaced\<close>.

  The locale states what an array relies on: a state predicate \<open>ready\<close> between misses, a
  predicate \<open>pending c\<close> after victim \<open>c\<close> was chosen, and the laws that connect them. The
  victim is always one of the candidates. \<open>rank\<close> returns \<open>None\<close> where the code stops in an
  assertion or does not return.
\<close>

record cc_view =
  numSharers :: "nat \<Rightarrow> u32"
  isValid :: "nat \<Rightarrow> bool"

text \<open>\<open>(uint32_t)-1\<close>, the initial value of the victim in the ranking loops.\<close>

definition no_cand :: nat where
  "no_cand = 2 ^ 32 - 1"

locale repl_policy =
  fixes update :: "nat \<Rightarrow> mem_req \<Rightarrow> 's \<Rightarrow> 's"
    and replaced :: "nat \<Rightarrow> 's \<Rightarrow> 's"
    and rank :: "cc_view \<Rightarrow> mem_req \<Rightarrow> nat list \<Rightarrow> 's \<Rightarrow> (nat \<times> 's) option"
    and ready :: "'s \<Rightarrow> bool"
    and pending :: "nat \<Rightarrow> 's \<Rightarrow> bool"
    and lines :: "'s \<Rightarrow> nat"
    and cands_ok :: "nat list \<Rightarrow> 's \<Rightarrow> bool"
  assumes update_ready: "ready s \<Longrightarrow> lid < lines s \<Longrightarrow> ready (update lid r s)"
    and update_pending: "pending c s \<Longrightarrow> lid < lines s \<Longrightarrow> pending c (update lid r s)"
    and update_lines: "lines (update lid r s) = lines s"
    and replaced_lines: "lines (replaced lid s) = lines s"
    and insert_ready: "pending c s \<Longrightarrow> ready (update c r (replaced c s))"
    and rank_pending: "ready s \<Longrightarrow> cands_ok cands s \<Longrightarrow>
      \<exists>c s'. rank cc r cands s = Some (c, s') \<and> c \<in> set cands \<and> pending c s' \<and> lines s' = lines s"
    and cands_ok_update: "cands_ok cands (update lid r s) = cands_ok cands s"
    and cands_ok_replaced: "cands_ok cands (replaced lid s) = cands_ok cands s"
    and cands_ok_rank: "rank cc r cs s = Some (c, s') \<Longrightarrow> cands_ok cands s' = cands_ok cands s"
begin

lemma rank_some:
  assumes "ready s" and "cands_ok cands s"
  obtains c s' where "rank cc r cands s = Some (c, s')" "c \<in> set cands" "pending c s'"
    "lines s' = lines s" "\<And>cs. cands_ok cs s' = cands_ok cs s"
  using rank_pending [OF assms, of cc r] cands_ok_rank that by metis

lemma rank_someD:
  assumes "rank cc r cands s = Some (c, s')" and "ready s" and "cands_ok cands s"
  shows "c \<in> set cands" and "pending c s'" and "lines s' = lines s"
  using rank_pending [OF assms(2,3), of cc r] assms(1) by auto

lemma insert_lines: "lines (update c r (replaced c s)) = lines s"
  by (simp add: update_lines replaced_lines)

lemma miss_cycle:
  assumes "ready s" and "cands_ok cands s" and "rank cc r cands s = Some (c, s')"
  shows "ready (update c r' (replaced c s'))"
  by (rule insert_ready) (rule rank_someD(2) [OF assms(3,1,2)])

end

end
