(* ===== verification/HierState.thy ===== *)
theory HierState
  imports ReplIface
begin

section \<open>State of the memory hierarchy\<close>

text \<open>
  The objects of the hierarchy call each other through virtual methods: a cache calls
  \<open>access\<close> of its parents and \<open>invalidate\<close> of its children. Their state lives in one store:
  the controllers and the array of every cache, the state of the memories, and the set of
  locks that are held. A \<open>MESIState*\<close> is a reference (cache, line) into this store.

  \<open>'a\<close> is the state of a cache array together with its replacement policy, \<open>'m\<close> the state of
  the memory controllers.
\<close>

datatype mem_object = CacheObj nat | MemObj nat

record entry =
  e_numSharers :: u32
  sharers :: "nat \<Rightarrow> bool"
  exclusive :: bool

record bcc_prof =
  profGETSHit :: u64
  profGETSMiss :: u64
  profGETXHit :: u64
  profGETXMissIM :: u64
  profGETXMissSM :: u64
  profPUTS :: u64
  profPUTX :: u64
  profINV :: u64
  profINVX :: u64
  profFWD :: u64
  profGETNextLevelLat :: u64
  profGETNetLat :: u64

record 'a cache =
  b_array :: "nat \<Rightarrow> mesi"
  t_array :: "nat \<Rightarrow> entry"
  prof :: bcc_prof
  arr :: 'a

record ('a, 'm) hier =
  caches :: "nat \<Rightarrow> 'a cache"
  mems :: 'm
  held :: "lock_id \<Rightarrow> bool"

text \<open>The configuration of a cache, fixed after \<open>init\<close>.\<close>

record cache_cfg =
  selfId :: nat
  parents :: "mem_object list"
  parentRTTs :: "u32 list"
  children :: "nat list"
  childrenRTTs :: "u32 list"
  nonInclusiveHack :: bool
  terminal :: bool
  accLat :: u32
  invLat :: u32

text \<open>
  The virtual methods of \<open>CacheArray\<close>. A line id of -1 is \<open>None\<close>; the request pointer of
  \<open>lookup\<close> may be null. \<open>preinsert\<close> gives the line id and the address of the line to write
  back.
\<close>

record 'a array_ops =
  a_lookup :: "address \<Rightarrow> mem_req option \<Rightarrow> bool \<Rightarrow> 'a \<Rightarrow> (nat option \<times> 'a) res"
  a_preinsert :: "cc_view \<Rightarrow> address \<Rightarrow> mem_req \<Rightarrow> 'a \<Rightarrow> (nat \<times> address \<times> 'a) res"
  a_postinsert :: "address \<Rightarrow> mem_req \<Rightarrow> nat \<Rightarrow> 'a \<Rightarrow> 'a res"

type_synonym ('a, 'm) access_fun =
  "mem_object \<Rightarrow> mem_req \<Rightarrow> ('a, 'm) hier \<Rightarrow> (u64 \<times> ('a, 'm) hier) res"

text \<open>
  \<open>invalidate\<close> takes the current value of \<open>*req.writeback\<close> and gives its value afterwards.
\<close>

type_synonym ('a, 'm) inval_fun =
  "nat \<Rightarrow> inv_req \<Rightarrow> bool \<Rightarrow> ('a, 'm) hier \<Rightarrow> (u64 \<times> bool \<times> ('a, 'm) hier) res"

subsection \<open>Access to the store\<close>

definition get_state :: "('a, 'm) hier \<Rightarrow> state_ref \<Rightarrow> mesi" where
  "get_state h r = b_array (caches h (fst r)) (snd r)"

definition upd_cache :: "nat \<Rightarrow> ('a cache \<Rightarrow> 'a cache) \<Rightarrow> ('a, 'm) hier \<Rightarrow> ('a, 'm) hier" where
  "upd_cache c f h = h\<lparr>caches := (caches h)(c := f (caches h c))\<rparr>"

definition set_state :: "state_ref \<Rightarrow> mesi \<Rightarrow> ('a, 'm) hier \<Rightarrow> ('a, 'm) hier" where
  "set_state r s h = upd_cache (fst r) (\<lambda>k. k\<lparr>b_array := (b_array k)(snd r := s)\<rparr>) h"

definition get_entry :: "('a, 'm) hier \<Rightarrow> nat \<Rightarrow> nat \<Rightarrow> entry" where
  "get_entry h c l = t_array (caches h c) l"

definition set_entry :: "nat \<Rightarrow> nat \<Rightarrow> entry \<Rightarrow> ('a, 'm) hier \<Rightarrow> ('a, 'm) hier" where
  "set_entry c l e h = upd_cache c (\<lambda>k. k\<lparr>t_array := (t_array k)(l := e)\<rparr>) h"

definition upd_prof :: "nat \<Rightarrow> (bcc_prof \<Rightarrow> bcc_prof) \<Rightarrow> ('a, 'm) hier \<Rightarrow> ('a, 'm) hier" where
  "upd_prof c f h = upd_cache c (\<lambda>k. k\<lparr>prof := f (prof k)\<rparr>) h"

definition set_arr :: "nat \<Rightarrow> 'a \<Rightarrow> ('a, 'm) hier \<Rightarrow> ('a, 'm) hier" where
  "set_arr c a h = upd_cache c (\<lambda>k. k\<lparr>arr := a\<rparr>) h"

definition get_arr :: "('a, 'm) hier \<Rightarrow> nat \<Rightarrow> 'a" where
  "get_arr h c = arr (caches h c)"

named_theorems hier_simps \<open>reading the store after a write\<close>

lemma get_state_simps [hier_simps]:
  "get_state (set_state r s h) r' = (if r' = r then s else get_state h r')"
  "get_state (set_entry c l e h) r' = get_state h r'"
  "get_state (upd_prof c f h) r' = get_state h r'"
  "get_state (set_arr c a h) r' = get_state h r'"
  "get_state (h\<lparr>held := k\<rparr>) r' = get_state h r'"
  "get_state (h\<lparr>mems := m\<rparr>) r' = get_state h r'"
  by (auto simp: get_state_def set_state_def set_entry_def upd_prof_def set_arr_def upd_cache_def
      prod_eq_iff)

lemma get_entry_simps [hier_simps]:
  "get_entry (set_state r s h) c l = get_entry h c l"
  "get_entry (set_entry c' l' e h) c l = (if c = c' \<and> l = l' then e else get_entry h c l)"
  "get_entry (upd_prof c' f h) c l = get_entry h c l"
  "get_entry (set_arr c' a h) c l = get_entry h c l"
  "get_entry (h\<lparr>held := k\<rparr>) c l = get_entry h c l"
  "get_entry (h\<lparr>mems := m\<rparr>) c l = get_entry h c l"
  by (auto simp: get_entry_def set_state_def set_entry_def upd_prof_def set_arr_def upd_cache_def)

lemma get_arr_simps [hier_simps]:
  "get_arr (set_state r s h) c = get_arr h c"
  "get_arr (set_entry c' l' e h) c = get_arr h c"
  "get_arr (upd_prof c' f h) c = get_arr h c"
  "get_arr (set_arr c' a h) c = (if c = c' then a else get_arr h c)"
  "get_arr (h\<lparr>held := k\<rparr>) c = get_arr h c"
  "get_arr (h\<lparr>mems := m\<rparr>) c = get_arr h c"
  by (auto simp: get_arr_def set_state_def set_entry_def upd_prof_def set_arr_def upd_cache_def)

lemma held_simps [hier_simps]:
  "held (set_state r s h) = held h"
  "held (set_entry c' l' e h) = held h"
  "held (upd_prof c' f h) = held h"
  "held (set_arr c' a h) = held h"
  by (simp_all add: set_state_def set_entry_def upd_prof_def set_arr_def upd_cache_def)

lemma mems_simps [hier_simps]:
  "mems (set_state r s h) = mems h"
  "mems (set_entry c' l' e h) = mems h"
  "mems (upd_prof c' f h) = mems h"
  "mems (set_arr c' a h) = mems h"
  by (simp_all add: set_state_def set_entry_def upd_prof_def set_arr_def upd_cache_def)

lemma caches_other [hier_simps]:
  "fst r \<noteq> x \<Longrightarrow> caches (set_state r s h) x = caches h x"
  "c \<noteq> x \<Longrightarrow> caches (set_entry c l e h) x = caches h x"
  "c \<noteq> x \<Longrightarrow> caches (upd_prof c f h) x = caches h x"
  "c \<noteq> x \<Longrightarrow> caches (set_arr c a h) x = caches h x"
  by (simp_all add: set_state_def set_entry_def upd_prof_def set_arr_def upd_cache_def)

subsection \<open>Locks\<close>

text \<open>
  Accesses are run one at a time: a lock that is found taken is held by the caller itself,
  and \<open>futex_lock\<close> would wait for ever.
\<close>

definition lock_acquire :: "lock_id \<Rightarrow> ('a, 'm) hier \<Rightarrow> ('a, 'm) hier res" where
  "lock_acquire k h = (if held h k then Inl NoReturn else Inr (h\<lparr>held := (held h)(k := True)\<rparr>))"

definition lock_release :: "lock_id \<Rightarrow> ('a, 'm) hier \<Rightarrow> ('a, 'm) hier" where
  "lock_release k h = h\<lparr>held := (held h)(k := False)\<rparr>"

definition release_child :: "lock_id option \<Rightarrow> ('a, 'm) hier \<Rightarrow> ('a, 'm) hier" where
  "release_child k h = (case k of None \<Rightarrow> h | Some k \<Rightarrow> lock_release k h)"

definition acquire_child :: "lock_id option \<Rightarrow> ('a, 'm) hier \<Rightarrow> ('a, 'm) hier res" where
  "acquire_child k h = (case k of None \<Rightarrow> Inr h | Some k \<Rightarrow> lock_acquire k h)"

subsection \<open>Directory entries\<close>

definition entry_clear :: entry where
  "entry_clear = \<lparr>e_numSharers = 0, sharers = (\<lambda>_. False), exclusive = False\<rparr>"

definition isEmpty :: "entry \<Rightarrow> bool" where
  "isEmpty e \<longleftrightarrow> e_numSharers e = 0"

definition entry_isExclusive :: "entry \<Rightarrow> bool" where
  "entry_isExclusive e \<longleftrightarrow> e_numSharers e = 1 \<and> exclusive e"

definition add_sharer :: "nat \<Rightarrow> entry \<Rightarrow> entry" where
  "add_sharer c e = e\<lparr>sharers := (sharers e)(c := True), e_numSharers := e_numSharers e + 1\<rparr>"

definition drop_sharer :: "nat \<Rightarrow> entry \<Rightarrow> entry" where
  "drop_sharer c e = e\<lparr>sharers := (sharers e)(c := False), e_numSharers := e_numSharers e - 1\<rparr>"

end
