(* ===== verification/ArrayIface.thy ===== *)
theory ArrayIface
  imports HierState
begin

section \<open>The cache array interface\<close>

text \<open>
  class \<open>CacheArray\<close> of cache_arrays.h: what a cache relies on when it uses an array. \<open>find\<close>
  is the line that holds an address and \<open>tag\<close> the address held by a line. \<open>ready\<close> holds
  between misses; \<open>pending a l\<close> holds after \<open>preinsert\<close> chose line \<open>l\<close> for the address \<open>a\<close>
  and until \<open>postinsert\<close>, with lookups allowed in between (invalidations look addresses up).
  \<open>addr_ok\<close> are the addresses the array accepts.

  An insertion is found at once, keeps every other line where it was, and makes no address
  appear that was not there.
\<close>

record 'r repl_ops =
  rp_update :: "nat \<Rightarrow> mem_req \<Rightarrow> 'r \<Rightarrow> 'r"
  rp_replaced :: "nat \<Rightarrow> 'r \<Rightarrow> 'r"
  rp_rank :: "cc_view \<Rightarrow> mem_req \<Rightarrow> nat list \<Rightarrow> 'r \<Rightarrow> (nat \<times> 'r) option"

text \<open>A hash family: \<open>hash(id, val)\<close> of class \<open>HashFamily\<close>.\<close>

type_synonym hash_family = "nat \<Rightarrow> u64 \<Rightarrow> u64"

locale cache_array =
  fixes ops :: "'s array_ops"
    and find :: "address \<Rightarrow> 's \<Rightarrow> nat option"
    and tag :: "'s \<Rightarrow> nat \<Rightarrow> address"
    and nlines :: "'s \<Rightarrow> nat"
    and ready :: "'s \<Rightarrow> bool"
    and pending :: "address \<Rightarrow> nat \<Rightarrow> 's \<Rightarrow> bool"
    and addr_ok :: "address \<Rightarrow> bool"
  assumes find_tag: "find a s = Some l \<Longrightarrow> ready s \<or> pending b k s \<Longrightarrow> tag s l = a"
    and find_nlines: "find a s = Some l \<Longrightarrow> ready s \<or> pending b k s \<Longrightarrow> l < nlines s"
    and lookup_ready: "ready s \<Longrightarrow> addr_ok a \<Longrightarrow>
      \<exists>s'. a_lookup ops a r (u \<and> r \<noteq> None) s = Inr (find a s, s') \<and> ready s' \<and> tag s' = tag s
        \<and> (\<forall>b. find b s' = find b s) \<and> nlines s' = nlines s"
    and lookup_pending: "pending c l s \<Longrightarrow> addr_ok a \<Longrightarrow>
      \<exists>s'. a_lookup ops a r (u \<and> r \<noteq> None) s = Inr (find a s, s') \<and> pending c l s' \<and> tag s' = tag s
        \<and> (\<forall>b. find b s' = find b s) \<and> nlines s' = nlines s"
    and preinsert: "ready s \<Longrightarrow> addr_ok a \<Longrightarrow> find a s = None \<Longrightarrow>
      \<exists>l s'. a_preinsert ops cc a req s = Inr (l, tag s l, s') \<and> pending a l s' \<and> l < nlines s
        \<and> tag s' = tag s \<and> (\<forall>b. find b s' = find b s) \<and> nlines s' = nlines s"
    and postinsert: "pending a l s \<Longrightarrow> addr_ok a \<Longrightarrow> find a s = None \<Longrightarrow>
      \<exists>s'. a_postinsert ops a req l s = Inr s' \<and> ready s' \<and> find a s' = Some l
        \<and> tag s' = (tag s)(l := a) \<and> nlines s' = nlines s
        \<and> (\<forall>b i. addr_ok b \<longrightarrow> b \<noteq> a \<longrightarrow> find b s = Some i \<longrightarrow> i \<noteq> l \<longrightarrow> find b s' = Some i)
        \<and> (\<forall>b. addr_ok b \<longrightarrow> b \<noteq> a \<longrightarrow> find b s = None \<longrightarrow> find b s' = None)"
begin

lemma find_inj: "find a s = Some l \<Longrightarrow> find b s = Some l \<Longrightarrow> ready s \<Longrightarrow> a = b"
  using find_tag by metis

text \<open>After an insertion the victim's line answers to the new address only.\<close>

lemma postinsert_victim:
  assumes "pending a l s" and "addr_ok a" and "find a s = None"
    and "a_postinsert ops a req l s = Inr s'" and "find b s' = Some l"
  shows "b = a"
  using postinsert [OF assms(1-3), of req] assms(4,5) find_inj by fastforce

lemma miss_then_hit:
  assumes "ready s" and "addr_ok a" and "find a s = None"
  obtains l s1 s2 where "a_preinsert ops cc a req s = Inr (l, tag s l, s1)"
    and "a_postinsert ops a req l s1 = Inr s2" and "ready s2" and "find a s2 = Some l"
    and "tag s2 = (tag s)(l := a)" and "nlines s2 = nlines s"
    and "\<And>b i. addr_ok b \<Longrightarrow> b \<noteq> a \<Longrightarrow> find b s = Some i \<Longrightarrow> i \<noteq> l \<Longrightarrow> find b s2 = Some i"
proof -
  from preinsert [OF assms] obtain l s1 where
    pre: "a_preinsert ops cc a req s = Inr (l, tag s l, s1)" "pending a l s1" "tag s1 = tag s"
      "\<forall>b. find b s1 = find b s" "nlines s1 = nlines s" by blast
  have "find a s1 = None" using pre(4) assms(3) by simp
  from postinsert [OF pre(2) assms(2) this, of req] obtain s2 where
    post: "a_postinsert ops a req l s1 = Inr s2" "ready s2" "find a s2 = Some l"
      "tag s2 = (tag s1)(l := a)" "nlines s2 = nlines s1"
      "\<forall>b i. addr_ok b \<longrightarrow> b \<noteq> a \<longrightarrow> find b s1 = Some i \<longrightarrow> i \<noteq> l \<longrightarrow> find b s2 = Some i"
    by blast
  show thesis
    by (rule that [OF pre(1) post(1-3)]) (use post(4-6) pre(3-5) in auto)
qed

end

end
