(* ===== verification/Bithacks.thy ===== *)
theory Bithacks
  imports ZPrelude
begin

section \<open>Bit hacks\<close>

text \<open>
  bithacks.h: the integer logarithm and the power-of-two test, on words of any width, with
  the variadic \<open>maxN\<close> and \<open>minN\<close> folds. \<open>MAX\<close> and \<open>MIN\<close> are \<open>max\<close> and \<open>min\<close> on words.
\<close>

definition ilog2 :: "'a::len word \<Rightarrow> nat" where
  "ilog2 val = (if val \<noteq> 0 then LENGTH('a) - 1 - builtin_clz val else 0)"

definition isPow2 :: "'a::len word \<Rightarrow> bool" where
  "isPow2 val \<longleftrightarrow> val \<noteq> 0 \<and> \<not> (val AND (val - 1) \<noteq> 0)"

fun maxN :: "'a::linorder \<Rightarrow> 'a list \<Rightarrow> 'a" where
  "maxN a [] = a"
| "maxN a (b # c) = maxN (if a > b then a else b) c"

fun minN :: "'a::linorder \<Rightarrow> 'a list \<Rightarrow> 'a" where
  "minN a [] = a"
| "minN a (b # c) = minN (if a < b then a else b) c"

subsection \<open>The highest set bit\<close>

lemma builtin_clz_eq:
  assumes "k < LENGTH('a)" and "bit w k" and "\<And>i. k < i \<Longrightarrow> \<not> bit (w :: 'a::len word) i"
  shows "builtin_clz w = LENGTH('a) - 1 - k"
proof -
  have split: "rev [0..<LENGTH('a)] = rev [Suc k..<LENGTH('a)] @ k # rev [0..<k]"
    using assms(1) upt_add_eq_append [of 0 k "LENGTH('a) - k"] by (simp add: upt_conv_Cons)
  show ?thesis
    unfolding builtin_clz_def split using assms(2,3) by (subst takeWhile_append2) auto
qed

lemma word_highest_bit:
  assumes "w \<noteq> 0"
  obtains k where "k < LENGTH('a)" "bit w k" "\<And>i. k < i \<Longrightarrow> \<not> bit (w :: 'a::len word) i"
proof -
  let ?A = "{n. n < LENGTH('a) \<and> bit w n}"
  have fin: "finite ?A" by simp
  from word_exists_bit [OF assms] have ne: "?A \<noteq> {}" by auto
  have "Max ?A \<in> ?A" using fin ne by (rule Max_in)
  moreover have "\<not> bit w i" if "Max ?A < i" for i
    using that Max_ge [OF fin, of i] bit_imp_le_length [of w i] by fastforce
  ultimately show thesis using that by blast
qed

lemma highest_bit_bounds:
  assumes "k < LENGTH('a)" and "bit w k" and "\<And>i. k < i \<Longrightarrow> \<not> bit (w :: 'a::len word) i"
  shows "2 ^ k \<le> unat w \<and> unat w < 2 ^ Suc k"
proof -
  have "take_bit (Suc k) w = w"
    using assms(3) by (intro bit_word_eqI) (auto simp: bit_simps, meson not_less_eq)
  then have "take_bit (Suc k) (unat w) = unat w"
    by (metis unsigned_take_bit_eq)
  then have lt: "unat w < 2 ^ Suc k"
    by (metis take_bit_nat_less_exp)
  from assms(2) have "bit (unat w) k"
    by (simp add: bit_unsigned_iff bit_imp_le_length)
  then have "odd (unat w div 2 ^ k)"
    by (simp add: bit_iff_odd)
  then have "unat w div 2 ^ k \<noteq> 0" by (cases "unat w div 2 ^ k = 0") simp_all
  then have "2 ^ k \<le> unat w" using div_less by (meson not_le)
  with lt show ?thesis by simp
qed

text \<open>The logarithm brackets the value between consecutive powers of two.\<close>

lemma ilog2_bounds:
  assumes "val \<noteq> 0"
  shows "2 ^ ilog2 val \<le> unat val \<and> unat val < 2 ^ Suc (ilog2 val)"
proof -
  obtain k where k: "k < LENGTH('a)" "bit val k" "\<And>i. k < i \<Longrightarrow> \<not> bit (val :: 'a word) i"
    using word_highest_bit [OF assms] by blast
  have "ilog2 val = k"
    using assms k(1) by (simp add: ilog2_def builtin_clz_eq [OF k])
  with highest_bit_bounds [OF k] show ?thesis by simp
qed

lemma pow2_and_pred:
  assumes "k < LENGTH('a)"
  shows "(2 ^ k :: 'a::len word) AND (2 ^ k - 1) = 0"
proof -
  have "(2 ^ k :: 'a word) - 1 = mask k"
    by (simp add: mask_eq_exp_minus_1)
  then show ?thesis
    by (intro bit_word_eqI) (auto simp: bit_simps)
qed

lemma isPow2_imp:
  assumes "isPow2 (val :: 'a::len word)"
  shows "\<exists>k < LENGTH('a). val = 2 ^ k"
proof -
  from assms have nz: "val \<noteq> 0" and z: "val AND (val - 1) = 0"
    by (simp_all add: isPow2_def)
  obtain k where k: "k < LENGTH('a)" "bit val k" "\<And>i. k < i \<Longrightarrow> \<not> bit val i"
    using word_highest_bit [OF nz] by blast
  have b: "2 ^ k \<le> unat val" "unat val < 2 ^ Suc k"
    using highest_bit_bounds [OF k] by simp_all
  have pred: "unat (val - 1) = unat val - 1"
    using nz by (simp add: unat_minus_one)
  have "unat val = 2 ^ k"
  proof (rule ccontr)
    assume "unat val \<noteq> 2 ^ k"
    with b pred have "2 ^ k \<le> unat (val - 1)" "unat (val - 1) < 2 ^ Suc k" by auto
    then have "unat (val - 1) div 2 ^ k = 1"
      by (simp add: div_nat_eqI)
    then have "bit (val - 1) k"
      using k(1) by (metis bit_iff_odd bit_unsigned_iff odd_one possible_bit_word)
    with k(2) have "bit (val AND (val - 1)) k" by (simp add: bit_and_iff)
    with z show False by simp
  qed
  then have "unat val = unat (2 ^ k :: 'a word)"
    using k(1) by simp
  then have "val = 2 ^ k" by (simp only: word_unat_eq_iff)
  with k(1) show ?thesis by blast
qed

lemma isPow2_iff: "isPow2 (val :: 'a::len word) \<longleftrightarrow> (\<exists>k < LENGTH('a). val = 2 ^ k)"
  using isPow2_imp by (auto simp: isPow2_def pow2_and_pred)

text \<open>On powers of two the logarithm is exact and masking is the remainder.\<close>

lemma ilog2_pow2: "k < LENGTH('a) \<Longrightarrow> ilog2 (2 ^ k :: 'a::len word) = k"
proof -
  assume k: "k < LENGTH('a)"
  have nz: "(2 ^ k :: 'a word) \<noteq> 0" using k by simp
  let ?l = "ilog2 (2 ^ k :: 'a word)"
  from ilog2_bounds [OF nz] k have "(2::nat) ^ ?l \<le> 2 ^ k" "(2::nat) ^ k < 2 ^ Suc ?l"
    by simp_all
  then have "?l \<le> k" "k < Suc ?l"
    by (simp_all del: power_Suc)
  then show ?thesis by simp
qed

lemma and_pow2_minus_1:
  assumes "k < LENGTH('a)"
  shows "(x :: 'a::len word) AND (2 ^ k - 1) = x mod 2 ^ k"
proof -
  have "(2 ^ k :: 'a word) - 1 = mask k"
    by (simp add: mask_eq_exp_minus_1)
  then show ?thesis
    by (simp add: take_bit_eq_mask [symmetric] take_bit_eq_mod)
qed

lemma unat_and_isPow2:
  assumes "isPow2 (n :: 'a::len word)"
  shows "unat (x AND (n - 1)) = unat x mod unat n"
proof -
  from isPow2_imp [OF assms] obtain k where k: "k < LENGTH('a)" "n = 2 ^ k" by blast
  then show ?thesis by (simp add: and_pow2_minus_1 unat_mod)
qed

lemma maxN_eq: "maxN a xs = Max (set (a # xs))"
proof (induction a xs rule: maxN.induct)
  case (2 a b c)
  have "(if a > b then a else b) = max a b" by (auto simp: max_def)
  with 2 show ?case by (cases "c = []") (simp_all add: max.assoc)
qed simp

lemma minN_eq: "minN a xs = Min (set (a # xs))"
proof (induction a xs rule: minN.induct)
  case (2 a b c)
  have "(if a < b then a else b) = min a b" by (auto simp: min_def)
  with 2 show ?case by (cases "c = []") (simp_all add: min.assoc)
qed simp

end
