(* ===== verification/LruRepl.thy ===== *)
theory LruRepl
  imports ReplIface Bithacks
begin

section \<open>LRU and TreeLRU\<close>

text \<open>
  \<open>LRUReplPolicy\<close> and \<open>TreeLRUReplPolicy\<close> of repl_policies.h. The state is the 64-bit access
  counter and the per-line timestamp of the last access. The score is a 64-bit value but the
  ranking loop stores it in a 32-bit variable, which the model keeps.
\<close>

record lru =
  lru_timestamp :: u64
  lru_array :: "nat \<Rightarrow> u64"
  lru_numLines :: nat

definition lru_init :: "nat \<Rightarrow> lru" where
  "lru_init n = \<lparr>lru_timestamp = 1, lru_array = (\<lambda>_. 0), lru_numLines = n\<rparr>"

definition lru_update :: "nat \<Rightarrow> mem_req \<Rightarrow> lru \<Rightarrow> lru" where
  "lru_update lid req p =
     p\<lparr>lru_array := (lru_array p)(lid := lru_timestamp p), lru_timestamp := lru_timestamp p + 1\<rparr>"

definition lru_replaced :: "nat \<Rightarrow> lru \<Rightarrow> lru" where
  "lru_replaced lid p = p\<lparr>lru_array := (lru_array p)(lid := 0)\<rparr>"

definition lru_score :: "bool \<Rightarrow> cc_view \<Rightarrow> lru \<Rightarrow> nat \<Rightarrow> u64" where
  "lru_score sharersAware cc p lid =
     (if sharersAware then ucast (numSharers cc lid) else 0) * lru_timestamp p
     + lru_array p lid * of_bool (isValid cc lid)"

definition lru_rank_step :: "(nat \<Rightarrow> u64) \<Rightarrow> nat \<times> u64 \<Rightarrow> nat \<Rightarrow> nat \<times> u64" where
  "lru_rank_step score acc ci =
     (let (bestCand, bestScore) = acc; s = (ucast (score ci) :: u32)
      in ((if (ucast s :: u64) < bestScore then ci else bestCand), min (ucast s) bestScore))"

definition lru_rank :: "bool \<Rightarrow> cc_view \<Rightarrow> mem_req \<Rightarrow> nat list \<Rightarrow> lru \<Rightarrow> (nat \<times> lru) option" where
  "lru_rank sharersAware cc req cands p =
     Some (fst (foldl (lru_rank_step (lru_score sharersAware cc p)) (no_cand, - 1) cands), p)"

subsection \<open>The ranking loop finds the first minimum of the truncated scores\<close>

lemma ucast_u32_u64_less: "(ucast (s :: u32) :: u64) < - 1"
proof -
  have "unat s < 2 ^ 32" using unat_less_exp [of s] by simp
  then show ?thesis by (simp add: word_less_nat_alt unsigned_minus_1_eq_mask mask_eq_exp_minus_1)
qed

lemma lru_loop_min:
  assumes "foldl (lru_rank_step sc) (b, v) cands = (b', v')"
  shows "v' \<le> v \<and> (\<forall>d \<in> set cands. v' \<le> ucast (ucast (sc d) :: u32))
    \<and> (b' = b \<and> v' = v \<or> b' \<in> set cands \<and> v' = ucast (ucast (sc b') :: u32) \<and> v' < v)"
  using assms
proof (induction cands arbitrary: b v)
  case (Cons c cs)
  let ?s = "ucast (ucast (sc c) :: u32) :: u64"
  from Cons.prems have
    "foldl (lru_rank_step sc) (if ?s < v then c else b, min ?s v) cs = (b', v')"
    by (simp add: lru_rank_step_def [of sc "(b, v)"] Let_def split del: if_split)
  note IH = Cons.IH [OF this]
  show ?case
  proof (cases "?s < v")
    case True
    then have "min ?s v = ?s" by simp
    with IH True show ?thesis by (auto dest: le_less_trans less_trans)
  next
    case False
    then have "min ?s v = v" by simp
    with IH False show ?thesis by (auto simp: not_less dest: order_trans)
  qed
qed simp

lemma lru_rank_min:
  assumes "cands \<noteq> []"
  obtains c where "lru_rank sa cc req cands p = Some (c, p)" "c \<in> set cands"
    "\<And>d. d \<in> set cands \<Longrightarrow>
       (ucast (lru_score sa cc p c) :: u32) \<le> ucast (lru_score sa cc p d)"
proof -
  let ?sc = "lru_score sa cc p"
  obtain b v where bv: "foldl (lru_rank_step ?sc) (no_cand, - 1) cands = (b, v)"
    by fastforce
  obtain c0 where c0: "c0 \<in> set cands" using assms by (cases cands) auto
  have min: "v \<le> ucast (ucast (?sc d) :: u32)" if "d \<in> set cands" for d
    using lru_loop_min [OF bv] that by blast
  have "v < - 1" using min [OF c0] ucast_u32_u64_less by (rule le_less_trans)
  then have "b \<in> set cands" "v = ucast (ucast (?sc b) :: u32)"
    using lru_loop_min [OF bv] by auto
  with min bv show thesis
    by (intro that [of b]) (auto simp: lru_rank_def)
qed

lemma lru_rank_state: "lru_rank sa cc r cands p = Some (c, p') \<Longrightarrow> p' = p"
  by (simp add: lru_rank_def)

lemma lru_lines [simp]:
  "lru_numLines (lru_update lid r p) = lru_numLines p"
  "lru_numLines (lru_replaced lid p) = lru_numLines p"
  by (simp_all add: lru_update_def lru_replaced_def)

interpretation lru: repl_policy lru_update lru_replaced "lru_rank sa" "\<lambda>_. True"
  "\<lambda>_ _. True" lru_numLines "\<lambda>cands _. cands \<noteq> []"
proof unfold_locales
  fix s :: lru and cands cc r
  assume "cands \<noteq> ([] :: nat list)"
  then show "\<exists>c s'. lru_rank sa cc r cands s = Some (c, s') \<and> c \<in> set cands \<and> True
      \<and> lru_numLines s' = lru_numLines s"
    by (rule lru_rank_min [of cands sa cc r s]) blast
qed simp_all

subsection \<open>The victim is the least recently used line\<close>

text \<open>
  A history lists the accesses of the array, most recent first: a hit calls \<open>update\<close>, a fill
  calls \<open>replaced\<close> and then \<open>update\<close>. \<open>last_use\<close> is the abstract recency of a line: the
  position of its last access, 0 for a line never accessed.
\<close>

datatype array_event = Hit nat | Fill nat

fun event_line :: "array_event \<Rightarrow> nat" where
  "event_line (Hit l) = l"
| "event_line (Fill l) = l"

fun lru_event :: "mem_req \<Rightarrow> array_event \<Rightarrow> lru \<Rightarrow> lru" where
  "lru_event req (Hit l) p = lru_update l req p"
| "lru_event req (Fill l) p = lru_update l req (lru_replaced l p)"

definition lru_history :: "mem_req \<Rightarrow> nat \<Rightarrow> array_event list \<Rightarrow> lru" where
  "lru_history req n past = foldr (lru_event req) past (lru_init n)"

fun last_use :: "array_event list \<Rightarrow> nat \<Rightarrow> nat" where
  "last_use [] l = 0"
| "last_use (e # past) l = (if event_line e = l then Suc (length past) else last_use past l)"

lemma last_use_le: "last_use past l \<le> length past"
  by (induction past) auto

lemma lru_event_fields:
  "lru_array (lru_event req e p) = (lru_array p)(event_line e := lru_timestamp p)"
  "lru_timestamp (lru_event req e p) = lru_timestamp p + 1"
  by (cases e; simp add: lru_update_def lru_replaced_def)+

lemma lru_history_fields:
  "lru_timestamp (lru_history req n past) = of_nat (Suc (length past))"
  "lru_array (lru_history req n past) l = of_nat (last_use past l)"
  by (induction past) (simp_all add: lru_history_def lru_event_fields lru_init_def add.commute)

text \<open>The recency of a line as the policy sees it: an invalid line counts as never used.\<close>

definition effective_use :: "cc_view \<Rightarrow> array_event list \<Rightarrow> nat \<Rightarrow> nat" where
  "effective_use cc past l = (if isValid cc l then last_use past l else 0)"

lemma truncated_score_history:
  assumes "length past < 2 ^ 32"
  shows "unat (ucast (lru_score False cc (lru_history req n past) l) :: u32)
    = effective_use cc past l"
proof -
  have lt: "last_use past l < 2 ^ 32"
    using last_use_le [of past l] assms by simp
  have "lru_score False cc (lru_history req n past) l = of_nat (effective_use cc past l)"
    by (simp add: lru_score_def lru_history_fields effective_use_def)
  moreover have "effective_use cc past l < 2 ^ 32"
    using lt by (simp add: effective_use_def)
  ultimately show ?thesis
    by (simp add: unsigned_ucast_eq unat_of_nat take_bit_nat_eq_self take_bit_eq_mod)
qed



text \<open>
  C8. Past \<open>2 ^ 32\<close> accesses the 32-bit variable \<open>s\<close> of the loop loses the high half of the score:
  a line touched at timestamp \<open>2 ^ 32\<close> compares as never touched, and is evicted before a line
  that was touched long ago.
\<close>

theorem lru_truncated_victim:
  assumes "isValid cc a" and "isValid cc b"
    and "lru_array p a = 2 ^ 32" and "0 < lru_array p b" and "lru_array p b < 2 ^ 32"
  shows "lru_rank False cc req [b, a] p = Some (a, p)"
proof -
  let ?sb = "ucast (lru_array p b) :: u32"
  have "unat (lru_array p b) < 2 ^ 32"
    using assms(5) by (simp add: word_less_nat_alt)
  then have "unat ?sb = unat (lru_array p b)"
    by (simp add: unsigned_ucast_eq take_bit_nat_eq_self)
  then have sb: "?sb \<noteq> 0"
    using assms(4) by (metis unat_eq_zero unat_gt_0 word_neq_0_conv)
  have z: "(ucast (2 ^ 32 :: u64) :: u32) = 0" by simp
  have "(ucast ?sb :: u64) \<noteq> 0"
    using sb by (metis unat_eq_zero unat_ucast_u32_u64)
  then have "(0 :: u64) < ucast ?sb" by (simp add: word_greater_zero_iff)
  then show ?thesis
    using assms(1-3) ucast_u32_u64_less [of ?sb] z
    by (simp add: lru_rank_def lru_rank_step_def lru_score_def Let_def)
qed

theorem lru_truncated_victim_witness:
  "\<forall>req. lru_rank False \<lparr>numSharers = (\<lambda>_. 0), isValid = (\<lambda>_. True)\<rparr> req [1, 0]
      \<lparr>lru_timestamp = 2 ^ 32 + 1, lru_array = (\<lambda>_. 7)(0 := 2 ^ 32), lru_numLines = 2\<rparr>
    = Some (0, \<lparr>lru_timestamp = 2 ^ 32 + 1, lru_array = (\<lambda>_. 7)(0 := 2 ^ 32), lru_numLines = 2\<rparr>)"
  by (intro allI lru_truncated_victim) (simp_all add: word_less_nat_alt)

subsection \<open>TreeLRU\<close>

text \<open>
  \<open>TreeLRUReplPolicy\<close> extends the sharers-aware LRU with a candidate array and a halving
  search over it. It derives from \<open>LRUReplPolicy\<close>, whose \<open>rankCands\<close> it does not override.
\<close>

record treelru = lru +
  candArray :: "nat list"
  numCands :: u32

definition treelru_init :: "nat \<Rightarrow> u32 \<Rightarrow> treelru res" where
  "treelru_init n nc =
     (if nc AND (nc - 1) \<noteq> 0 then Inl Panic
      else Inr \<lparr>lru_timestamp = 1, lru_array = (\<lambda>_. 0), lru_numLines = n,
                candArray = [], numCands = nc\<rparr>)"

definition treelru_recordCandidate :: "nat \<Rightarrow> treelru \<Rightarrow> treelru" where
  "treelru_recordCandidate l p = p\<lparr>candArray := candArray p @ [l]\<rparr>"

definition treelru_replaced :: "nat \<Rightarrow> treelru \<Rightarrow> treelru" where
  "treelru_replaced l p = p\<lparr>candArray := [], lru_array := (lru_array p)(l := 0)\<rparr>"

definition range_max :: "(nat \<Rightarrow> u64) \<Rightarrow> nat list \<Rightarrow> nat \<Rightarrow> nat \<Rightarrow> u64" where
  "range_max ts cs lo hi = foldl (\<lambda>t i. max t (ts (cs ! i))) 0 [lo..<hi]"

function tree_search :: "(nat \<Rightarrow> u64) \<Rightarrow> nat list \<Rightarrow> nat \<Rightarrow> nat \<Rightarrow> nat" where
  "tree_search ts cs start fin =
     (if fin - start > 1 then
        let pivot = start + (fin - start) div 2 in
        if range_max ts cs start pivot > range_max ts cs pivot fin
        then tree_search ts cs pivot fin else tree_search ts cs start pivot
      else start)"
  by pat_completeness auto
termination
  by (relation "measure (\<lambda>(ts, cs, start, fin). fin - start)") auto

declare tree_search.simps [simp del]

definition treelru_getBestCandidate :: "treelru \<Rightarrow> nat res" where
  "treelru_getBestCandidate p =
     assert_then (length (candArray p) = unat (numCands p))
       (Inr (candArray p ! tree_search (lru_array p) (candArray p) 0 (unat (numCands p))))"

definition treelru_rank :: "cc_view \<Rightarrow> mem_req \<Rightarrow> nat list \<Rightarrow> treelru \<Rightarrow> nat" where
  "treelru_rank cc req cands p =
     fst (foldl (lru_rank_step (lru_score True cc (lru.truncate p))) (no_cand, - 1) cands)"

lemma treelru_rank_is_lru:
  "map_option fst (lru_rank True cc req cands (lru.truncate p)) = Some (treelru_rank cc req cands p)"
  by (simp add: treelru_rank_def lru_rank_def)

lemma range_max_ge: "i \<in> {lo..<hi} \<Longrightarrow> ts (cs ! i) \<le> range_max ts cs lo hi"
proof -
  have "v \<le> foldl (\<lambda>t i. max t (ts (cs ! i))) v is \<and>
    (\<forall>i \<in> set is. ts (cs ! i) \<le> foldl (\<lambda>t i. max t (ts (cs ! i))) v is)" for v "is"
    by (induction "is" arbitrary: v) (auto intro: order_trans [OF max.cobounded1]
      order_trans [OF max.cobounded2])
  then show "i \<in> {lo..<hi} \<Longrightarrow> ts (cs ! i) \<le> range_max ts cs lo hi"
    unfolding range_max_def by auto
qed

lemma range_max_attained:
  "lo < hi \<Longrightarrow> \<exists>i \<in> {lo..<hi}. range_max ts cs lo hi = ts (cs ! i)"
proof -
  have "is \<noteq> [] \<Longrightarrow> \<exists>i \<in> set is. foldl (\<lambda>t i. max t (ts (cs ! i))) 0 is = ts (cs ! i)" for "is"
  proof (induction "is" rule: rev_induct)
    case (snoc x xs)
    then show ?case by (cases "xs = []") (auto simp: max_def)
  qed simp
  then show "lo < hi \<Longrightarrow> ?thesis" unfolding range_max_def by (metis atLeastLessThan_upt upt_eq_Nil_conv not_le less_nat_zero_code gr_zeroI)
qed

text \<open>
  The search stays within its range and never picks the only most recent candidate of two or
  more: some other candidate is at least as recent.
\<close>

lemma tree_search_range:
  "start < fin \<Longrightarrow> tree_search ts cs start fin \<in> {start..<fin}"
proof (induction ts cs start fin rule: tree_search.induct)
  case (1 ts cs start fin)
  show ?case
  proof (cases "fin - start > 1")
    case True
    let ?pivot = "start + (fin - start) div 2"
    have "start < ?pivot" "?pivot < fin" using True by auto
    with 1 True show ?thesis
      by (subst tree_search.simps) (fastforce simp: Let_def)
  next
    case False
    with 1 show ?thesis by (subst tree_search.simps) simp
  qed
qed

lemma tree_search_not_mru:
  assumes "1 < fin - start"
  shows "\<exists>j \<in> {start..<fin}. j \<noteq> tree_search ts cs start fin
    \<and> ts (cs ! tree_search ts cs start fin) \<le> ts (cs ! j)"
proof -
  define pivot where "pivot = start + (fin - start) div 2"
  have pv: "start < pivot" "pivot < fin" using assms by (auto simp: pivot_def)
  define r where "r = tree_search ts cs start fin"
  have r: "r = (if range_max ts cs start pivot > range_max ts cs pivot fin
      then tree_search ts cs pivot fin else tree_search ts cs start pivot)"
    using assms unfolding r_def pivot_def by (subst tree_search.simps) (simp add: Let_def)
  show ?thesis
  proof (cases "range_max ts cs start pivot > range_max ts cs pivot fin")
    case True
    obtain j where j: "j \<in> {start..<pivot}" "range_max ts cs start pivot = ts (cs ! j)"
      using range_max_attained [OF pv(1)] by blast
    have "r \<in> {pivot..<fin}" using True r tree_search_range [OF pv(2)] by simp
    with True j range_max_ge [of r pivot fin ts cs] pv show ?thesis
      by (intro bexI [of _ j]) (auto simp: r_def)
  next
    case False
    obtain j where j: "j \<in> {pivot..<fin}" "range_max ts cs pivot fin = ts (cs ! j)"
      using range_max_attained [OF pv(2)] by blast
    have "r \<in> {start..<pivot}" using False r tree_search_range [OF pv(1)] by simp
    with False j range_max_ge [of r start pivot ts cs] pv show ?thesis
      by (intro bexI [of _ j]) (auto simp: r_def)
  qed
qed

end
