(* ===== verification/LegacyRepl.thy ===== *)
theory LegacyRepl
  imports ReplIface
begin

section \<open>The legacy policies: NRU, random and LFU\<close>

text \<open>
  \<open>LegacyReplPolicy\<close> and its subclasses of repl_policies.h. A replacement records the
  candidates one by one and then asks for the best one; \<open>replaced\<close> resets the recording.
\<close>

definition legacy_rank ::
  "(mem_req \<Rightarrow> 's \<Rightarrow> 's) \<Rightarrow> (nat \<Rightarrow> 's \<Rightarrow> 's) \<Rightarrow> ('s \<Rightarrow> nat option) \<Rightarrow> mem_req \<Rightarrow> nat list \<Rightarrow> 's
    \<Rightarrow> (nat \<times> 's) option" where
  "legacy_rank startReplacement recordCandidate getBestCandidate req cands p =
     (let p' = foldl (\<lambda>p ci. recordCandidate ci p) (startReplacement req p) cands
      in map_option (\<lambda>c. (c, p')) (getBestCandidate p'))"

subsection \<open>NRU\<close>

text \<open>
  Two bits per line. \<open>candIdx\<close> is the length of the candidate list: recording a candidate with
  a smaller value restarts the list.
\<close>

record nru =
  nru_array :: "nat \<Rightarrow> u32"
  nru_candArray :: "nat list"
  nru_numLines :: nat
  youngLines :: u32
  candVal :: u32

definition nru_init :: "nat \<Rightarrow> nru" where
  "nru_init n = \<lparr>nru_array = (\<lambda>_. 0), nru_candArray = [], nru_numLines = n, youngLines = 0,
                 candVal = push_bit 20 1\<rparr>"

definition nru_update :: "nat \<Rightarrow> mem_req \<Rightarrow> nru \<Rightarrow> nru" where
  "nru_update l req p =
     (let young = youngLines p + (1 - drop_bit 1 (nru_array p l));
          arr = (nru_array p)(l := nru_array p l OR 2)
      in if unat young \<ge> nru_numLines p div 2
         then p\<lparr>nru_array := (\<lambda>i. if i < nru_numLines p then drop_bit 1 (arr i) else arr i),
                youngLines := 0\<rparr>
         else p\<lparr>nru_array := arr, youngLines := young\<rparr>)"

definition nru_recordCandidate :: "nat \<Rightarrow> nru \<Rightarrow> nru" where
  "nru_recordCandidate l p =
     (let iVal = nru_array p l
      in if iVal < candVal p then p\<lparr>candVal := iVal, nru_candArray := [l]\<rparr>
         else if iVal = candVal p then p\<lparr>nru_candArray := nru_candArray p @ [l]\<rparr>
         else p)"

definition nru_getBestCandidate :: "nru \<Rightarrow> nat option" where
  "nru_getBestCandidate p =
     (if length (nru_candArray p) > 0
      then Some (nru_candArray p ! (unat (youngLines p) mod length (nru_candArray p)))
      else None)"

definition nru_replaced :: "nat \<Rightarrow> nru \<Rightarrow> nru" where
  "nru_replaced l p =
     p\<lparr>candVal := push_bit 20 1, nru_candArray := [], nru_array := (nru_array p)(l := 0)\<rparr>"

definition nru_rank :: "cc_view \<Rightarrow> mem_req \<Rightarrow> nat list \<Rightarrow> nru \<Rightarrow> (nat \<times> nru) option" where
  "nru_rank cc = legacy_rank (\<lambda>_ p. p) nru_recordCandidate nru_getBestCandidate"

text \<open>The two-bit invariant and the recording state between misses.\<close>

definition nru_bits :: "nru \<Rightarrow> bool" where
  "nru_bits p \<longleftrightarrow> (\<forall>l. nru_array p l < 4)"

definition nru_idle :: "nru \<Rightarrow> bool" where
  "nru_idle p \<longleftrightarrow> nru_candArray p = [] \<and> candVal p = push_bit 20 1"

lemma or_2_less_4: "(w :: u32) < 4 \<Longrightarrow> w OR 2 < 4"
proof -
  have four: "(x :: u32) < 4 \<longleftrightarrow> take_bit 2 x = x" for x
    by (simp add: take_bit_eq_self_iff_drop_bit_eq_0 drop_bit_eq_div word_less_nat_alt
        unat_eq_zero [symmetric] unat_div div_eq_0_iff del: unat_eq_zero)
  show "w < 4 \<Longrightarrow> w OR 2 < 4" unfolding four by (simp add: take_bit_or)
qed

lemma drop_bit_1_less: "(w :: u32) < 4 \<Longrightarrow> drop_bit 1 w < 4"
  by (simp add: drop_bit_eq_div word_less_nat_alt unat_div)

lemma nru_bits_update: "nru_bits p \<Longrightarrow> nru_bits (nru_update l req p)"
  by (simp add: nru_bits_def nru_update_def Let_def or_2_less_4 drop_bit_1_less del: One_nat_def)

lemma nru_bits_replaced: "nru_bits p \<Longrightarrow> nru_bits (nru_replaced l p)"
  by (simp add: nru_bits_def nru_replaced_def)

lemma nru_idle_update: "nru_idle (nru_update l req p) = nru_idle p"
  by (simp add: nru_idle_def nru_update_def Let_def)

lemma nru_idle_replaced: "nru_idle (nru_replaced l p)"
  by (simp add: nru_idle_def nru_replaced_def)

lemma nru_lines [simp]:
  "nru_numLines (nru_update l req p) = nru_numLines p"
  "nru_numLines (nru_replaced l p) = nru_numLines p"
  by (simp_all add: nru_update_def nru_replaced_def Let_def)

text \<open>Recording keeps exactly the candidates of minimal value, in order.\<close>

lemma nru_record_array:
  "nru_array (foldl (\<lambda>p ci. nru_recordCandidate ci p) p cs) = nru_array p
   \<and> nru_numLines (foldl (\<lambda>p ci. nru_recordCandidate ci p) p cs) = nru_numLines p
   \<and> youngLines (foldl (\<lambda>p ci. nru_recordCandidate ci p) p cs) = youngLines p"
proof (induction cs arbitrary: p)
  case (Cons c cs)
  then show ?case by (simp add: nru_recordCandidate_def Let_def)
qed simp

lemma nru_record_min:
  assumes "nru_idle p" and "nru_bits p" and "cs \<noteq> []"
  defines "q \<equiv> foldl (\<lambda>p ci. nru_recordCandidate ci p) p cs"
  shows "(\<exists>c \<in> set cs. candVal q = nru_array p c) \<and> (\<forall>c \<in> set cs. candVal q \<le> nru_array p c)
    \<and> nru_candArray q = filter (\<lambda>c. nru_array p c = candVal q) cs"
  unfolding q_def using assms(3)
proof (induction cs rule: rev_induct)
  case (snoc x xs)
  define r where "r = foldl (\<lambda>p ci. nru_recordCandidate ci p) p xs"
  have arr: "nru_array r = nru_array p" by (simp add: r_def nru_record_array)
  have step: "foldl (\<lambda>p ci. nru_recordCandidate ci p) p (xs @ [x]) = nru_recordCandidate x r"
    by (simp add: r_def)
  let ?q = "nru_recordCandidate x r"
  have "(\<exists>c \<in> set (xs @ [x]). candVal ?q = nru_array p c)
    \<and> (\<forall>c \<in> set (xs @ [x]). candVal ?q \<le> nru_array p c)
    \<and> nru_candArray ?q = filter (\<lambda>c. nru_array p c = candVal ?q) (xs @ [x])"
  proof (cases "xs = []")
    case True
    then have [simp]: "r = p" by (simp add: r_def)
    have "nru_array p x < push_bit 20 1"
      using assms(2) by (auto simp: nru_bits_def intro: less_trans)
    with True assms(1) show ?thesis
      by (simp add: nru_recordCandidate_def nru_idle_def Let_def)
  next
    case False
    note IH = snoc.IH [OF False, folded r_def]
    consider "nru_array p x < candVal r" | "nru_array p x = candVal r" | "candVal r < nru_array p x"
      by (rule linorder_cases)
    then show ?thesis
    proof cases
      case 1
      with IH have "filter (\<lambda>c. nru_array p c = nru_array p x) xs = []"
        by (auto simp: filter_empty_conv)
      with 1 IH show ?thesis
        by (auto simp: nru_recordCandidate_def Let_def arr intro: order_trans less_imp_le)
    qed (use IH in \<open>auto simp: nru_recordCandidate_def Let_def arr\<close>)
  qed
  then show ?case unfolding step .
qed simp

lemma nru_rank_youngest:
  assumes "nru_idle p" and "nru_bits p" and "cands \<noteq> []"
  obtains c q where "nru_rank cc req cands p = Some (c, q)" "c \<in> set cands"
    "\<And>d. d \<in> set cands \<Longrightarrow> nru_array p c \<le> nru_array p d"
    "nru_array q = nru_array p" "nru_numLines q = nru_numLines p"
proof -
  define q where "q = foldl (\<lambda>p ci. nru_recordCandidate ci p) p cands"
  note rec = nru_record_min [OF assms, folded q_def]
  have ne: "nru_candArray q \<noteq> []" using rec by (auto simp: filter_empty_conv)
  define c where "c = nru_candArray q ! (unat (youngLines q) mod length (nru_candArray q))"
  have "c \<in> set (nru_candArray q)" unfolding c_def using ne by (intro nth_mem) simp
  then have c: "c \<in> set cands" "nru_array p c = candVal q" using rec by auto
  have "nru_rank cc req cands p = Some (c, q)"
    using ne by (simp add: nru_rank_def legacy_rank_def Let_def nru_getBestCandidate_def c_def q_def
        [symmetric])
  with c rec show thesis
    using that [of c q] nru_record_array [of p cands] by (simp add: q_def [symmetric])
qed

lemma nru_rank_lines:
  "nru_rank cc req cands p = Some (c, q) \<Longrightarrow> nru_array q = nru_array p \<and> nru_numLines q = nru_numLines p"
  using nru_record_array [of p cands]
  by (auto simp: nru_rank_def legacy_rank_def Let_def)

interpretation nru: repl_policy nru_update nru_replaced nru_rank "\<lambda>p. nru_bits p \<and> nru_idle p"
  "\<lambda>_. nru_bits" nru_numLines "\<lambda>cands _. cands \<noteq> []"
proof unfold_locales
  fix s :: nru and cands cc r
  assume "nru_bits s \<and> nru_idle s" and "cands \<noteq> ([] :: nat list)"
  then obtain c q where "nru_rank cc r cands s = Some (c, q)" "c \<in> set cands"
    "nru_array q = nru_array s" "nru_numLines q = nru_numLines s"
    by (elim conjE nru_rank_youngest [of s cands cc r])
  then show "\<exists>c s'. nru_rank cc r cands s = Some (c, s') \<and> c \<in> set cands \<and> nru_bits s'
      \<and> nru_numLines s' = nru_numLines s"
    using \<open>nru_bits s \<and> nru_idle s\<close> by (auto simp: nru_bits_def)
qed (simp_all add: nru_bits_update nru_bits_replaced nru_idle_update nru_idle_replaced)

subsection \<open>LFU\<close>

text \<open>
  Per line the number of accesses and their average timestamp; candidates are compared by
  validity, then by having sharers, then by inverse frequency. \<open>bestCandidate\<close> is \<open>None\<close> where
  the code holds -1.
\<close>

record lfu_info =
  ts :: u64
  acc :: u64

record rank_info =
  lfuInfo :: lfu_info
  rk_sharers :: u32
  rk_valid :: bool

record lfu =
  lfu_timestamp :: u64
  bestCandidate :: "nat option"
  lfu_array :: "nat \<Rightarrow> lfu_info"
  lfu_numLines :: nat
  bestRank :: rank_info

definition rank_reset :: rank_info where
  "rank_reset = \<lparr>lfuInfo = \<lparr>ts = 0, acc = 0\<rparr>, rk_sharers = 0, rk_valid = False\<rparr>"

definition lessThan :: "rank_info \<Rightarrow> rank_info \<Rightarrow> u64 \<Rightarrow> bool" where
  "lessThan own other curTs =
     (if \<not> rk_valid own \<and> rk_valid other then True
      else if rk_valid own = rk_valid other then
        if rk_sharers own = 0 \<and> rk_sharers other > 0 then True
        else if rk_sharers own > 0 \<and> rk_sharers other = 0 then False
        else if acc (lfuInfo own) = 0 then True
        else if acc (lfuInfo other) = 0 then False
        else let ownInvFreq = (curTs - ts (lfuInfo own)) div acc (lfuInfo own);
                 otherInvFreq = (curTs - ts (lfuInfo other)) div acc (lfuInfo other)
             in ownInvFreq > otherInvFreq
      else False)"

definition lfu_init :: "nat \<Rightarrow> lfu" where
  "lfu_init n = \<lparr>lfu_timestamp = 1, bestCandidate = None, lfu_array = (\<lambda>_. \<lparr>ts = 0, acc = 0\<rparr>),
                 lfu_numLines = n, bestRank = rank_reset\<rparr>"

definition lfu_update :: "nat \<Rightarrow> mem_req \<Rightarrow> lfu \<Rightarrow> lfu" where
  "lfu_update l req p =
     (let e = lfu_array p l;
          t = (acc e * ts e + lfu_timestamp p) div (acc e + 1)
      in p\<lparr>lfu_array := (lfu_array p)(l := \<lparr>ts = t, acc = acc e + 1\<rparr>),
           lfu_timestamp := lfu_timestamp p + 1000\<rparr>)"

definition cand_rank :: "cc_view \<Rightarrow> lfu \<Rightarrow> nat \<Rightarrow> rank_info" where
  "cand_rank cc p l = \<lparr>lfuInfo = lfu_array p l, rk_sharers = numSharers cc l, rk_valid = isValid cc l\<rparr>"

definition lfu_recordCandidate :: "cc_view \<Rightarrow> nat \<Rightarrow> lfu \<Rightarrow> lfu" where
  "lfu_recordCandidate cc l p =
     (let candRank = cand_rank cc p l
      in if bestCandidate p = None \<or> lessThan candRank (bestRank p) (lfu_timestamp p)
         then p\<lparr>bestRank := candRank, bestCandidate := Some l\<rparr> else p)"

definition lfu_replaced :: "nat \<Rightarrow> lfu \<Rightarrow> lfu" where
  "lfu_replaced l p =
     p\<lparr>bestCandidate := None, bestRank := rank_reset,
       lfu_array := (lfu_array p)(l := (lfu_array p l)\<lparr>acc := 0\<rparr>)\<rparr>"

definition lfu_rank :: "cc_view \<Rightarrow> mem_req \<Rightarrow> nat list \<Rightarrow> lfu \<Rightarrow> (nat \<times> lfu) option" where
  "lfu_rank cc = legacy_rank (\<lambda>_ p. p) (lfu_recordCandidate cc) bestCandidate"

text \<open>
  The eviction class of a line: invalid lines first, then valid lines without rk_sharers, then
  the rest. The comparison never prefers a higher class, although it is no linear order.
\<close>

definition evict_class :: "rank_info \<Rightarrow> nat" where
  "evict_class r = (if \<not> rk_valid r then 0 else 2) + (if rk_sharers r = 0 then 0 else 1)"

lemma lessThan_class: "lessThan a b t \<Longrightarrow> evict_class a \<le> evict_class b"
  by (auto simp: lessThan_def evict_class_def word_neq_0_conv split: if_splits)

lemma not_lessThan_class: "\<not> lessThan a b t \<Longrightarrow> evict_class b \<le> evict_class a"
  by (auto simp: lessThan_def evict_class_def word_neq_0_conv split: if_splits)

lemma lfu_record_frame:
  "lfu_array (foldl (\<lambda>p ci. lfu_recordCandidate cc ci p) p cs) = lfu_array p
   \<and> lfu_timestamp (foldl (\<lambda>p ci. lfu_recordCandidate cc ci p) p cs) = lfu_timestamp p
   \<and> lfu_numLines (foldl (\<lambda>p ci. lfu_recordCandidate cc ci p) p cs) = lfu_numLines p"
proof (induction cs arbitrary: p)
  case (Cons c cs)
  then show ?case by (simp add: lfu_recordCandidate_def Let_def)
qed simp

lemma lfu_record_best:
  fixes cc :: cc_view
  assumes "bestCandidate p = None" and "cs \<noteq> []"
  defines "q \<equiv> foldl (\<lambda>p ci. lfu_recordCandidate cc ci p) p cs"
  shows "\<exists>c \<in> set cs. bestCandidate q = Some c \<and> bestRank q = cand_rank cc p c
    \<and> (\<forall>d \<in> set cs. evict_class (cand_rank cc p c) \<le> evict_class (cand_rank cc p d))"
  unfolding q_def using assms(2)
proof (induction cs rule: rev_induct)
  case (snoc x xs)
  define r where "r = foldl (\<lambda>p ci. lfu_recordCandidate cc ci p) p xs"
  have arr: "lfu_array r = lfu_array p" by (simp add: r_def lfu_record_frame)
  have cr: "cand_rank cc r l = cand_rank cc p l" for l by (simp add: cand_rank_def arr)
  have step: "foldl (\<lambda>p ci. lfu_recordCandidate cc ci p) p (xs @ [x]) = lfu_recordCandidate cc x r"
    by (simp add: r_def)
  have "\<exists>c \<in> set (xs @ [x]). bestCandidate (lfu_recordCandidate cc x r) = Some c
    \<and> bestRank (lfu_recordCandidate cc x r) = cand_rank cc p c
    \<and> (\<forall>d \<in> set (xs @ [x]). evict_class (cand_rank cc p c) \<le> evict_class (cand_rank cc p d))"
  proof (cases "xs = []")
    case True
    then have "r = p" by (simp add: r_def)
    with True assms(1) show ?thesis by (simp add: lfu_recordCandidate_def Let_def)
  next
    case False
    obtain c where c: "c \<in> set xs" "bestCandidate r = Some c" "bestRank r = cand_rank cc p c"
      and min: "\<forall>d \<in> set xs. evict_class (cand_rank cc p c) \<le> evict_class (cand_rank cc p d)"
      using snoc.IH [OF False, folded r_def] by blast
    show ?thesis
    proof (cases "lessThan (cand_rank cc p x) (cand_rank cc p c) (lfu_timestamp r)")
      case True
      with lessThan_class [OF True] min c show ?thesis
        by (auto simp: lfu_recordCandidate_def Let_def cr intro: order_trans)
    next
      case False
      with not_lessThan_class [OF False] min c show ?thesis
        by (auto simp: lfu_recordCandidate_def Let_def cr)
    qed
  qed
  then show ?case unfolding step .
qed simp

lemma lfu_rank_class:
  assumes "bestCandidate p = None" and "cands \<noteq> []"
  obtains c q where "lfu_rank cc req cands p = Some (c, q)" "c \<in> set cands"
    "\<And>d. d \<in> set cands \<Longrightarrow> evict_class (cand_rank cc p c) \<le> evict_class (cand_rank cc p d)"
    "lfu_array q = lfu_array p" "lfu_numLines q = lfu_numLines p"
  using lfu_record_best [OF assms, of cc] lfu_record_frame [of cc p cands] that
  by (auto simp: lfu_rank_def legacy_rank_def Let_def)

lemma lfu_rank_lines:
  "lfu_rank cc req cands p = Some (c, q) \<Longrightarrow> lfu_numLines q = lfu_numLines p"
  using lfu_record_frame [of cc p cands] by (auto simp: lfu_rank_def legacy_rank_def Let_def)

lemma lfu_frame [simp]:
  "lfu_numLines (lfu_update l req p) = lfu_numLines p"
  "lfu_numLines (lfu_replaced l p) = lfu_numLines p"
  "bestCandidate (lfu_update l req p) = bestCandidate p"
  "bestCandidate (lfu_replaced l p) = None"
  by (simp_all add: lfu_update_def lfu_replaced_def Let_def)

interpretation lfu: repl_policy lfu_update lfu_replaced lfu_rank "\<lambda>p. bestCandidate p = None"
  "\<lambda>_ _. True" lfu_numLines "\<lambda>cands _. cands \<noteq> []"
proof unfold_locales
  fix s :: lfu and cands cc r
  assume "bestCandidate s = None" and "cands \<noteq> ([] :: nat list)"
  then show "\<exists>c s'. lfu_rank cc r cands s = Some (c, s') \<and> c \<in> set cands \<and> True
      \<and> lfu_numLines s' = lfu_numLines s"
    by (rule lfu_rank_class [of s cands cc r]) blast
qed simp_all

text \<open>
  The recorded timestamp is a weighted average of the previous one and the access counter:
  without overflow it lies between the two.
\<close>

lemma lfu_update_average:
  assumes "ts (lfu_array p l) \<le> lfu_timestamp p"
    and "unat (acc (lfu_array p l)) * unat (ts (lfu_array p l)) + unat (lfu_timestamp p) < 2 ^ 64"
    and "acc (lfu_array p l) + 1 \<noteq> 0"
  shows "ts (lfu_array p l) \<le> ts (lfu_array (lfu_update l req p) l)
    \<and> ts (lfu_array (lfu_update l req p) l) \<le> lfu_timestamp p"
proof -
  let ?a = "unat (acc (lfu_array p l))" and ?t = "unat (ts (lfu_array p l))"
    and ?n = "unat (lfu_timestamp p)"
  have tn: "?t \<le> ?n" using assms(1) by (simp add: word_le_nat_alt)
  have suc: "unat (acc (lfu_array p l) + 1) = Suc ?a"
    using assms(3) by (rule unat_plus_one)
  have num: "unat (acc (lfu_array p l) * ts (lfu_array p l) + lfu_timestamp p) = ?a * ?t + ?n"
    using assms(2) by (simp add: unat_word_ariths mod_mult_left_eq mod_add_left_eq)
  have res: "unat (ts (lfu_array (lfu_update l req p) l)) = (?a * ?t + ?n) div Suc ?a"
    by (simp add: lfu_update_def Let_def unat_div num suc)
  have "Suc ?a * ?t \<le> ?a * ?t + ?n" using tn by simp
  then have "?t \<le> (?a * ?t + ?n) div Suc ?a"
    by (metis div_le_mono nonzero_mult_div_cancel_left nat.distinct(1))
  moreover have "(?a * ?t + ?n) div Suc ?a \<le> ?n"
  proof -
    have "?a * ?t + ?n \<le> Suc ?a * ?n" using tn by (simp add: mult_le_mono2)
    then show ?thesis by (metis div_le_mono nonzero_mult_div_cancel_left nat.distinct(1))
  qed
  ultimately show ?thesis by (simp add: word_le_nat_alt res)
qed

end
