(* ===== verification/RripRepl.thy ===== *)
theory RripRepl
  imports ReplIface
begin

section \<open>Re-reference interval prediction: SRRIP and SHiP\<close>

text \<open>
  rrip_repl.h and ship_repl.h. Both policies choose a victim with the same loop: look for the
  first candidate whose re-reference value is the maximum, and while there is none, increment
  the value of every candidate. The loop has no bound in the code; it is a partial function
  here, and its termination is a theorem about the states the policies reach.
\<close>

definition age_all :: "nat list \<Rightarrow> (nat \<Rightarrow> 'a::len word) \<Rightarrow> (nat \<Rightarrow> 'a word)" where
  "age_all cands arr = foldl (\<lambda>a c. a(c := a c + 1)) arr cands"

partial_function (option) age_search ::
    "'a::len word \<Rightarrow> nat list \<Rightarrow> (nat \<Rightarrow> 'a word) \<Rightarrow> (nat \<times> (nat \<Rightarrow> 'a word)) option" where
  "age_search mx cands arr =
     (case find (\<lambda>c. arr c = mx) cands of
        Some c \<Rightarrow> Some (c, arr)
      | None \<Rightarrow> age_search mx cands (age_all cands arr))"

text \<open>
  The reference definition: the victim is the first candidate of maximal value, and every
  candidate ages by the distance of that maximum from the limit.
\<close>

definition max_value :: "nat list \<Rightarrow> (nat \<Rightarrow> 'a::len word) \<Rightarrow> 'a word" where
  "max_value cands arr = Max (arr ` set cands)"

definition age_by :: "'a::len word \<Rightarrow> nat list \<Rightarrow> (nat \<Rightarrow> 'a word) \<Rightarrow> (nat \<Rightarrow> 'a word)" where
  "age_by k cands arr = (\<lambda>l. if l \<in> set cands then arr l + k else arr l)"

definition rrip_victim :: "nat list \<Rightarrow> (nat \<Rightarrow> 'a::len word) \<Rightarrow> nat" where
  "rrip_victim cands arr = the (find (\<lambda>c. arr c = max_value cands arr) cands)"

lemma age_all_distinct: "distinct cands \<Longrightarrow> age_all cands arr = age_by 1 cands arr"
proof (induction cands arbitrary: arr)
  case (Cons c cs)
  then show ?case by (auto simp: age_all_def age_by_def fun_eq_iff)
qed (simp add: age_all_def age_by_def)

lemma max_value_in:
  assumes "cands \<noteq> []"
  shows "\<exists>c \<in> set cands. arr c = max_value cands arr"
proof -
  have "Max (arr ` set cands) \<in> arr ` set cands" by (rule Max_in) (use assms in auto)
  then show ?thesis by (auto simp: max_value_def)
qed

lemma max_value_le:
  "cands \<noteq> [] \<Longrightarrow> (\<And>c. c \<in> set cands \<Longrightarrow> arr c \<le> mx) \<Longrightarrow> max_value cands arr \<le> mx"
  by (simp add: max_value_def)

lemma max_value_ge: "c \<in> set cands \<Longrightarrow> arr c \<le> max_value cands arr"
  by (simp add: max_value_def)

lemma rrip_victim_props:
  assumes "cands \<noteq> []"
  shows "find (\<lambda>c. arr c = max_value cands arr) cands = Some (rrip_victim cands arr)"
    and "rrip_victim cands arr \<in> set cands"
    and "arr (rrip_victim cands arr) = max_value cands arr"
proof -
  obtain c where c: "find (\<lambda>c. arr c = max_value cands arr) cands = Some c"
    using max_value_in [OF assms, of arr] by (cases "find (\<lambda>c. arr c = max_value cands arr) cands")
      (auto simp: find_None_iff)
  then have v: "rrip_victim cands arr = c" by (simp add: rrip_victim_def)
  from c obtain i where "i < length cands" "arr (cands ! i) = max_value cands arr" "c = cands ! i"
    by (auto simp: find_Some_iff)
  with c v show "find (\<lambda>c. arr c = max_value cands arr) cands = Some (rrip_victim cands arr)"
    and "rrip_victim cands arr \<in> set cands"
    and "arr (rrip_victim cands arr) = max_value cands arr"
    by auto
qed

lemma age_by_max:
  assumes "cands \<noteq> []" and "max_value cands arr < mx"
  shows "max_value cands (age_by 1 cands arr) = max_value cands arr + 1"
proof (rule antisym)
  let ?m = "max_value cands arr"
  have le: "arr c + 1 \<le> ?m + 1" if "c \<in> set cands" for c
  proof -
    from max_value_ge [OF that] have cm: "arr c \<le> ?m" .
    then have "arr c < mx" using assms(2) by (rule le_less_trans)
    then show ?thesis
      using cm assms(2) by (simp add: word_le_nat_alt unat_plus_one word_less_plus_1_nz)
  qed
  show "max_value cands (age_by 1 cands arr) \<le> ?m + 1"
    using assms(1) le unfolding max_value_def [of cands "age_by 1 cands arr"]
    by (subst Max_le_iff) (auto simp: age_by_def)
  obtain c where "c \<in> set cands" "arr c = ?m" using max_value_in [OF assms(1), of arr] by blast
  then show "?m + 1 \<le> max_value cands (age_by 1 cands arr)"
    using max_value_ge [of c cands "age_by 1 cands arr"] by (simp add: age_by_def)
qed

lemma age_by_add: "age_by j cands (age_by k cands arr) = age_by (k + j) cands arr"
  by (auto simp: age_by_def add.assoc)

lemma age_by_victim:
  assumes "cands \<noteq> []" and "max_value cands arr < mx"
  shows "rrip_victim cands (age_by 1 cands arr) = rrip_victim cands arr"
proof -
  have "find (\<lambda>c. age_by 1 cands arr c = max_value cands arr + 1) cands
      = find (\<lambda>c. arr c = max_value cands arr) cands"
    by (rule find_cong) (auto simp: age_by_def)
  then show ?thesis by (simp add: rrip_victim_def age_by_max [OF assms])
qed

text \<open>The loop computes the reference definition whenever the values do not exceed the limit.\<close>

lemma age_search_spec:
  assumes "cands \<noteq> []" and "distinct cands" and "max_value cands arr \<le> mx"
  shows "age_search mx cands arr =
    Some (rrip_victim cands arr, age_by (mx - max_value cands arr) cands arr)"
  using assms(3)
proof (induction "unat (mx - max_value cands arr)" arbitrary: arr)
  case 0
  then have eq: "max_value cands arr = mx" by (simp add: unat_eq_zero)
  with rrip_victim_props(1) [OF assms(1), of arr] show ?case
    by (subst age_search.simps) (auto simp: age_by_def fun_eq_iff)
next
  case (Suc n)
  let ?m = "max_value cands arr" and ?arr = "age_by 1 cands arr"
  have lt: "?m < mx" using Suc.hyps(2) Suc.prems by (cases "?m = mx") auto
  have "find (\<lambda>c. arr c = mx) cands = None"
    using lt max_value_ge [of _ cands arr] by (fastforce simp: find_None_iff)
  then have step: "age_search mx cands arr = age_search mx cands ?arr"
    by (subst age_search.simps) (simp add: age_all_distinct [OF assms(2)])
  have m': "max_value cands ?arr = ?m + 1" by (rule age_by_max [OF assms(1) lt])
  have le: "max_value cands ?arr \<le> mx" unfolding m' using lt by (rule word_add_1_le)
  have dist: "mx - max_value cands ?arr = (mx - ?m) - 1" by (simp add: m')
  have "n = unat (mx - max_value cands ?arr)"
    unfolding dist using Suc.hyps(2) by (subst unat_minus_one) auto
  from Suc.hyps(1) [OF this le] step show ?case
    by (simp add: age_by_victim [OF assms(1) lt] age_by_add m')
qed

subsection \<open>SRRIP\<close>

record srrip =
  srrip_numLines :: nat
  rpvmax :: u32
  srrip_array :: "nat \<Rightarrow> u64"

definition srrip_init :: "nat \<Rightarrow> u32 \<Rightarrow> srrip" where
  "srrip_init n mx = \<lparr>srrip_numLines = n, rpvmax = mx,
     srrip_array = (\<lambda>i. if i < n then ucast mx else 0)\<rparr>"

definition srrip_update :: "nat \<Rightarrow> mem_req \<Rightarrow> srrip \<Rightarrow> srrip" where
  "srrip_update l req p =
     (if srrip_array p l = ucast (rpvmax p + 1)
      then p\<lparr>srrip_array := (srrip_array p)(l := srrip_array p l - 2)\<rparr>
      else p\<lparr>srrip_array := (srrip_array p)(l := 0)\<rparr>)"

definition srrip_replaced :: "nat \<Rightarrow> srrip \<Rightarrow> srrip" where
  "srrip_replaced l p = p\<lparr>srrip_array := (srrip_array p)(l := ucast (rpvmax p + 1))\<rparr>"

definition srrip_rank :: "cc_view \<Rightarrow> mem_req \<Rightarrow> nat list \<Rightarrow> srrip \<Rightarrow> (nat \<times> srrip) option" where
  "srrip_rank cc req cands p =
     map_option (\<lambda>(bestCand, arr). (bestCand, p\<lparr>srrip_array := arr\<rparr>))
       (age_search (ucast (rpvmax p)) cands (srrip_array p))"

text \<open>
  The maximum must leave room for the insertion protocol: \<open>replaced\<close> stores \<open>rpvmax + 1\<close> and
  the \<open>update\<close> that follows subtracts 2.
\<close>

definition srrip_inv :: "srrip \<Rightarrow> bool" where
  "srrip_inv p \<longleftrightarrow> 0 < rpvmax p \<and> rpvmax p < - 1 \<and> (\<forall>l. srrip_array p l \<le> ucast (rpvmax p))"

lemma ucast_u32_plus_1:
  assumes "w < - 1"
  shows "(ucast (w + 1 :: u32) :: u64) = ucast w + 1"
proof -
  have "unat (w + 1) = Suc (unat w)"
    using assms by (intro unat_plus_one word_less_plus_1_nz)
  moreover have "unat w < 2 ^ 32" using unat_less_exp [of w] by simp
  ultimately have "unat (ucast (w + 1) :: u64) = unat (ucast w + 1 :: u64)"
    by (simp add: unat_word_ariths)
  then show ?thesis by (simp only: word_unat_eq_iff)
qed

lemma srrip_insert_value:
  assumes "srrip_inv p"
  shows "srrip_array (srrip_update l req (srrip_replaced l p)) =
    (srrip_array p)(l := ucast (rpvmax p) - 1)"
  using assms by (simp add: srrip_update_def srrip_replaced_def srrip_inv_def ucast_u32_plus_1)

lemma srrip_hit_value:
  assumes "srrip_inv p"
  shows "srrip_array (srrip_update l req p) = (srrip_array p)(l := 0)"
proof -
  have "srrip_array p l < ucast (rpvmax p + 1)"
  proof -
    have le: "srrip_array p l \<le> ucast (rpvmax p)" and lt: "rpvmax p < - 1"
      using assms by (auto simp: srrip_inv_def)
    have "rpvmax p < rpvmax p + 1"
      using lt by (metis add.commute word_less_nat_alt unat_plus_one word_less_plus_1_nz lessI)
    then show ?thesis by (intro le_less_trans [OF le]) simp
  qed
  then have "srrip_array p l \<noteq> ucast (rpvmax p + 1)" by (rule less_imp_neq)
  then show ?thesis by (simp add: srrip_update_def)
qed

lemma srrip_rpvmax [simp]:
  "rpvmax (srrip_update l req p) = rpvmax p" "rpvmax (srrip_replaced l p) = rpvmax p"
  "srrip_numLines (srrip_update l req p) = srrip_numLines p"
  "srrip_numLines (srrip_replaced l p) = srrip_numLines p"
  by (simp_all add: srrip_update_def srrip_replaced_def)

lemma srrip_inv_init: "0 < mx \<Longrightarrow> mx < - 1 \<Longrightarrow> srrip_inv (srrip_init n mx)"
  by (simp add: srrip_inv_def srrip_init_def)

lemma srrip_inv_hit: "srrip_inv p \<Longrightarrow> srrip_inv (srrip_update l req p)"
  using srrip_hit_value [of p l req] by (simp add: srrip_inv_def)

lemma srrip_inv_insert:
  assumes "srrip_inv p"
  shows "srrip_inv (srrip_update l req (srrip_replaced l p))"
proof -
  have "(ucast (rpvmax p) :: u64) \<noteq> 0"
    using assms by (metis srrip_inv_def unat_eq_zero unat_ucast_u32_u64 word_neq_0_conv)
  then have "(ucast (rpvmax p) :: u64) - 1 \<le> ucast (rpvmax p)"
    by (simp add: word_le_nat_alt unat_minus_one)
  with srrip_insert_value [OF assms, of l req] assms show ?thesis by (simp add: srrip_inv_def)
qed

text \<open>
  The loop returns; the victim is the first candidate of maximal value, and all candidates
  age so that the victim's value becomes \<open>rpvmax\<close>.
\<close>

lemma srrip_rank_spec:
  assumes "srrip_inv p" and "cands \<noteq> []" and "distinct cands"
  shows "srrip_rank cc req cands p =
    Some (rrip_victim cands (srrip_array p),
          p\<lparr>srrip_array := age_by (ucast (rpvmax p) - max_value cands (srrip_array p)) cands
              (srrip_array p)\<rparr>)"
proof -
  have "max_value cands (srrip_array p) \<le> ucast (rpvmax p)"
    using assms(1) by (intro max_value_le assms(2)) (simp add: srrip_inv_def)
  from age_search_spec [OF assms(2,3) this] show ?thesis by (simp add: srrip_rank_def)
qed

lemma age_by_le:
  assumes "l \<in> set cands" and "max_value cands arr \<le> mx"
  shows "age_by (mx - max_value cands arr) cands arr l \<le> mx"
proof -
  have "arr l \<le> max_value cands arr" using assms(1) by (rule max_value_ge)
  then have "unat (arr l) + unat (mx - max_value cands arr) \<le> unat mx"
    using assms(2) by (simp add: word_le_nat_alt unat_sub)
  then have "unat (arr l + (mx - max_value cands arr)) \<le> unat mx"
    using unat_add_lem [of "arr l" "mx - max_value cands arr"] unat_less_exp [of mx] by linarith
  then show ?thesis using assms(1) by (simp add: age_by_def word_le_nat_alt)
qed

lemma srrip_inv_rank:
  assumes "srrip_inv p" and "cands \<noteq> []" and "distinct cands"
    and "srrip_rank cc req cands p = Some (c, q)"
  shows "srrip_inv q \<and> c \<in> set cands \<and> srrip_numLines q = srrip_numLines p"
proof -
  let ?mx = "ucast (rpvmax p) :: u64"
  have "max_value cands (srrip_array p) \<le> ?mx"
    using assms(1) by (intro max_value_le assms(2)) (simp add: srrip_inv_def)
  then have "age_by (?mx - max_value cands (srrip_array p)) cands (srrip_array p) l \<le> ?mx" for l
    using age_by_le [of l cands] assms(1) by (cases "l \<in> set cands") (auto simp: age_by_def srrip_inv_def)
  with assms rrip_victim_props(2) [OF assms(2)] show ?thesis
    by (auto simp: srrip_rank_spec srrip_inv_def)
qed

interpretation srrip: repl_policy srrip_update srrip_replaced srrip_rank srrip_inv
  "\<lambda>_. srrip_inv" srrip_numLines "\<lambda>cands _. cands \<noteq> [] \<and> distinct cands"
proof unfold_locales
  fix s :: srrip and cands cc r
  assume "srrip_inv s" and "cands \<noteq> ([] :: nat list) \<and> distinct cands"
  then show "\<exists>c s'. srrip_rank cc r cands s = Some (c, s') \<and> c \<in> set cands \<and> srrip_inv s'
      \<and> srrip_numLines s' = srrip_numLines s"
    using srrip_rank_spec [of s cands cc r] srrip_inv_rank [of s cands cc r] by blast
qed (simp_all add: srrip_inv_hit srrip_inv_insert)

end
