(* ===== verification/ShipRepl.thy ===== *)
theory ShipRepl
  imports RripRepl
begin

section \<open>SHiP: signature-based hit prediction\<close>

text \<open>
  ship_repl.h. A table of saturating 8-bit counters (SHCT) is indexed by a hash of the program
  counter; each line keeps its re-reference value, the signature of the access that touched
  it last and a re-reference flag. The hash \<open>std::hash\<close> of \<open>std::to_string(pc)\<close> is a
  parameter \<open>pc_hash\<close> of every definition that uses it.
\<close>

record repl_data =
  is_rereferenced :: bool
  RRPV :: u8
  signature :: u16

record ship =
  SHCT :: "nat \<Rightarrow> u8"
  repl_data :: "nat \<Rightarrow> repl_data"
  ship_lines :: nat

definition RRPV_MIN :: u8 where "RRPV_MIN = 0"
definition RRPV_MID :: u8 where "RRPV_MID = 2"
definition RRPV_MAX :: u8 where "RRPV_MAX = 3"
definition SHCT_SIZE :: nat where "SHCT_SIZE = 16384"
definition SHCT_SAT_COUNTER_MAX :: u8 where "SHCT_SAT_COUNTER_MAX = 255"

definition ship_init :: "nat \<Rightarrow> ship" where
  "ship_init n = \<lparr>SHCT = (\<lambda>_. 0),
     repl_data = (\<lambda>i. if i < n
        then \<lparr>is_rereferenced = False, RRPV = RRPV_MAX, signature = 0\<rparr>
        else \<lparr>is_rereferenced = False, RRPV = 0, signature = 0\<rparr>),
     ship_lines = n\<rparr>"

definition pc_signature :: "(address \<Rightarrow> u64) \<Rightarrow> mem_req \<Rightarrow> u16" where
  "pc_signature pc_hash req = ucast (pc_hash (pc req) AND 0x3FFF)"

definition saturating_increment :: "nat \<Rightarrow> u8 \<Rightarrow> ship \<Rightarrow> ship" where
  "saturating_increment sig sat_counter_max p =
     (if SHCT p sig \<noteq> sat_counter_max then p\<lparr>SHCT := (SHCT p)(sig := SHCT p sig + 1)\<rparr> else p)"

definition saturating_decrement :: "nat \<Rightarrow> ship \<Rightarrow> ship" where
  "saturating_decrement sig p =
     (if SHCT p sig \<noteq> 0 then p\<lparr>SHCT := (SHCT p)(sig := SHCT p sig - 1)\<rparr> else p)"

definition ship_update :: "(address \<Rightarrow> u64) \<Rightarrow> nat \<Rightarrow> mem_req \<Rightarrow> ship \<Rightarrow> ship" where
  "ship_update pc_hash l req p =
     (let sig = pc_signature pc_hash req;
          q = saturating_increment (unat sig) SHCT_SAT_COUNTER_MAX p;
          v = (if RRPV (repl_data q l) = RRPV_MAX then RRPV_MID else RRPV_MIN)
      in q\<lparr>repl_data := (repl_data q)
             (l := \<lparr>is_rereferenced = True, RRPV = v, signature = sig\<rparr>)\<rparr>)"

definition ship_replaced :: "nat \<Rightarrow> ship \<Rightarrow> ship" where
  "ship_replaced l p =
     (let d = repl_data p l;
          v = (if SHCT p (unat (signature d)) = 0 then RRPV_MAX else RRPV_MID)
      in p\<lparr>repl_data := (repl_data p)(l := d\<lparr>RRPV := v, is_rereferenced := False\<rparr>)\<rparr>)"

text \<open>The tail of \<open>rank\<close>, after the loop has chosen the victim and aged the values.\<close>

definition ship_evict ::
  "(address \<Rightarrow> u64) \<Rightarrow> mem_req \<Rightarrow> nat \<Rightarrow> (nat \<Rightarrow> u8) \<Rightarrow> ship \<Rightarrow> ship" where
  "ship_evict pc_hash req best_cand arr p =
     (let q = p\<lparr>repl_data := (\<lambda>l. (repl_data p l)\<lparr>RRPV := arr l\<rparr>)\<rparr>;
          q' = (if \<not> is_rereferenced (repl_data q best_cand)
                then saturating_decrement (unat (signature (repl_data q best_cand))) q else q)
      in q'\<lparr>repl_data := (repl_data q')
           (best_cand := (repl_data q' best_cand)\<lparr>signature := pc_signature pc_hash req\<rparr>)\<rparr>)"

definition ship_rank ::
  "(address \<Rightarrow> u64) \<Rightarrow> cc_view \<Rightarrow> mem_req \<Rightarrow> nat list \<Rightarrow> ship \<Rightarrow> (nat \<times> ship) option" where
  "ship_rank pc_hash cc req cands p =
     map_option (\<lambda>(best_cand, arr). (best_cand, ship_evict pc_hash req best_cand arr p))
       (age_search RRPV_MAX cands (\<lambda>l. RRPV (repl_data p l)))"

subsection \<open>Bounds and termination\<close>

lemma pc_signature_bound: "unat (pc_signature h req) < SHCT_SIZE"
proof -
  have "pc_signature h req = ucast (take_bit 14 (h (pc req)))"
    by (simp add: pc_signature_def take_bit_eq_mask mask_eq_exp_minus_1)
  then have "unat (pc_signature h req) \<le> unat (take_bit 14 (h (pc req)))"
    by (simp add: unsigned_ucast_eq take_bit_nat_less_eq_self)
  also have "\<dots> = take_bit 14 (unat (h (pc req)))" by (simp add: unsigned_take_bit_eq)
  also have "\<dots> < 2 ^ 14" by (rule take_bit_nat_less_exp)
  finally show ?thesis by (simp add: SHCT_SIZE_def)
qed

definition ship_inv :: "ship \<Rightarrow> bool" where
  "ship_inv p \<longleftrightarrow> (\<forall>l. RRPV (repl_data p l) \<le> RRPV_MAX)"

lemma shct_frame [simp]:
  "repl_data (saturating_increment s m p) = repl_data p"
  "repl_data (saturating_decrement s p) = repl_data p"
  "ship_lines (saturating_increment s m p) = ship_lines p"
  "ship_lines (saturating_decrement s p) = ship_lines p"
  by (simp_all add: saturating_increment_def saturating_decrement_def)

lemma ship_lines_frame [simp]:
  "ship_lines (ship_update h l req p) = ship_lines p"
  "ship_lines (ship_replaced l p) = ship_lines p"
  by (simp_all add: ship_update_def ship_replaced_def Let_def)

lemma ship_inv_init: "ship_inv (ship_init n)"
  by (simp add: ship_inv_def ship_init_def)

lemma rrpv_le [simp]: "RRPV_MIN \<le> RRPV_MAX" "RRPV_MID \<le> RRPV_MAX"
  by (simp_all add: RRPV_MIN_def RRPV_MID_def RRPV_MAX_def)

lemma ship_inv_update: "ship_inv p \<Longrightarrow> ship_inv (ship_update h l req p)"
  by (simp add: ship_inv_def ship_update_def Let_def)

lemma ship_inv_replaced: "ship_inv p \<Longrightarrow> ship_inv (ship_replaced l p)"
  by (simp add: ship_inv_def ship_replaced_def Let_def)

lemma ship_evict_fields:
  "RRPV (repl_data (ship_evict h req c arr p) l) = arr l"
  "is_rereferenced (repl_data (ship_evict h req c arr p) l) = is_rereferenced (repl_data p l)"
  "signature (repl_data (ship_evict h req c arr p) l) =
     (if l = c then pc_signature h req else signature (repl_data p l))"
  "ship_lines (ship_evict h req c arr p) = ship_lines p"
  "SHCT (ship_evict h req c arr p) s =
     (if \<not> is_rereferenced (repl_data p c) \<and> s = unat (signature (repl_data p c)) \<and> SHCT p s \<noteq> 0
      then SHCT p s - 1 else SHCT p s)"
  by (auto simp: ship_evict_def Let_def saturating_decrement_def)

lemma ship_rank_spec:
  assumes "ship_inv p" and "cands \<noteq> []" and "distinct cands"
  defines "arr \<equiv> \<lambda>l. RRPV (repl_data p l)"
  shows "ship_rank h cc req cands p = Some (rrip_victim cands arr,
    ship_evict h req (rrip_victim cands arr)
      (age_by (RRPV_MAX - max_value cands arr) cands arr) p)"
proof -
  have "max_value cands arr \<le> RRPV_MAX"
    using assms(1) by (intro max_value_le assms(2)) (simp add: ship_inv_def arr_def)
  from age_search_spec [OF assms(2,3) this] show ?thesis
    by (simp add: ship_rank_def arr_def)
qed

lemma ship_inv_rank:
  assumes "ship_inv p" and "cands \<noteq> []" and "distinct cands"
  shows "\<exists>c q. ship_rank h cc req cands p = Some (c, q) \<and> c \<in> set cands \<and> ship_inv q
    \<and> ship_lines q = ship_lines p"
proof -
  let ?arr = "\<lambda>l. RRPV (repl_data p l)"
  have max: "max_value cands ?arr \<le> RRPV_MAX"
    using assms(1) by (intro max_value_le assms(2)) (simp add: ship_inv_def)
  have "age_by (RRPV_MAX - max_value cands ?arr) cands ?arr l \<le> RRPV_MAX" for l
    using age_by_le [OF _ max, of l] assms(1)
    by (cases "l \<in> set cands") (auto simp: age_by_def ship_inv_def)
  then show ?thesis
    using rrip_victim_props(2) [OF assms(2), of ?arr]
    by (simp add: ship_rank_spec [OF assms] ship_inv_def ship_evict_fields)
qed

interpretation ship: repl_policy "ship_update h" ship_replaced "ship_rank h" ship_inv
  "\<lambda>_. ship_inv" ship_lines "\<lambda>cands _. cands \<noteq> [] \<and> distinct cands"
proof unfold_locales
  fix s :: ship and cands cc r
  assume "ship_inv s" and "cands \<noteq> ([] :: nat list) \<and> distinct cands"
  then show "\<exists>c s'. ship_rank h cc r cands s = Some (c, s') \<and> c \<in> set cands \<and> ship_inv s'
      \<and> ship_lines s' = ship_lines s"
    using ship_inv_rank by blast
qed (simp_all add: ship_inv_update ship_inv_replaced)

subsection \<open>The counters are never trained down\<close>

text \<open>
  The steps of a cache array: a hit updates a line; a miss ranks, replaces and updates the
  victim. \<open>ship_reachable\<close> is every state these steps lead to.
\<close>

inductive ship_step :: "(address \<Rightarrow> u64) \<Rightarrow> ship \<Rightarrow> ship \<Rightarrow> bool" for h where
  hit: "ship_step h p (ship_update h l req p)"
| miss: "ship_rank h cc req cands p = Some (c, q) \<Longrightarrow>
    ship_step h p (ship_update h c req (ship_replaced c q))"

inductive ship_reachable :: "(address \<Rightarrow> u64) \<Rightarrow> nat \<Rightarrow> ship \<Rightarrow> bool" for h n where
  init: "ship_reachable h n (ship_init n)"
| step: "ship_reachable h n p \<Longrightarrow> ship_step h p q \<Longrightarrow> ship_reachable h n q"

text \<open>
  Because \<open>update\<close> follows \<open>replaced\<close> on every insertion, the re-reference flag of an inserted
  line is set at once: a line with a clear flag was never filled and has signature 0.
\<close>

definition ship_flags :: "ship \<Rightarrow> bool" where
  "ship_flags p \<longleftrightarrow> (\<forall>l. is_rereferenced (repl_data p l) \<or> signature (repl_data p l) = 0)"

lemma ship_rank_Some:
  "ship_rank h cc req cands p = Some (c, q) \<Longrightarrow> \<exists>arr. q = ship_evict h req c arr p"
  by (auto simp: ship_rank_def)

lemma shct_increment_le: "SHCT p s \<le> SHCT (saturating_increment sig SHCT_SAT_COUNTER_MAX p) s"
proof -
  have "SHCT p sig \<le> SHCT p sig + 1" if "SHCT p sig \<noteq> 255"
  proof -
    have "(255 :: u8) = - 1" by simp
    with that word_n1_ge [of "SHCT p sig"] have "SHCT p sig < - 1"
      by (metis order.not_eq_order_implies_strict)
    then show ?thesis by (simp add: word_le_nat_alt unat_plus_one word_less_plus_1_nz)
  qed
  then show ?thesis by (simp add: saturating_increment_def SHCT_SAT_COUNTER_MAX_def)
qed

lemma ship_update_fields:
  "is_rereferenced (repl_data (ship_update h l req p) k) = (k = l \<or> is_rereferenced (repl_data p k))"
  "signature (repl_data (ship_update h l req p) k) =
     (if k = l then pc_signature h req else signature (repl_data p k))"
  "SHCT (ship_update h l req p) =
     SHCT (saturating_increment (unat (pc_signature h req)) SHCT_SAT_COUNTER_MAX p)"
  by (simp_all add: ship_update_def Let_def)

lemma ship_replaced_fields:
  "is_rereferenced (repl_data (ship_replaced l p) k) = (k \<noteq> l \<and> is_rereferenced (repl_data p k))"
  "signature (repl_data (ship_replaced l p) k) = signature (repl_data p k)"
  "SHCT (ship_replaced l p) = SHCT p"
  by (simp_all add: ship_replaced_def Let_def)

lemmas ship_fields = ship_evict_fields ship_update_fields ship_replaced_fields

lemma ship_flags_step: "ship_step h p q \<Longrightarrow> ship_flags p \<Longrightarrow> ship_flags q"
  by (induction rule: ship_step.induct)
    (auto simp: ship_flags_def ship_fields dest!: ship_rank_Some)

lemma ship_flags_init: "ship_flags (ship_init n)"
  by (simp add: ship_flags_def ship_init_def)

lemma ship_flags_reachable: "ship_reachable h n p \<Longrightarrow> ship_flags p"
  by (induction rule: ship_reachable.induct) (auto intro: ship_flags_init ship_flags_step)

lemma ship_shct_step:
  assumes "ship_step h p q" and "ship_flags p" and "s \<noteq> 0"
  shows "SHCT p s \<le> SHCT q s"
  using assms
proof (induction rule: ship_step.induct)
  case (hit p l req)
  then show ?case by (simp add: ship_update_fields shct_increment_le)
next
  case (miss cc req cands p c q)
  then obtain arr where q: "q = ship_evict h req c arr p" by (auto dest: ship_rank_Some)
  have "SHCT p s = SHCT q s"
    using miss.prems unfolding q by (auto simp: ship_evict_fields ship_flags_def)
  also have "\<dots> \<le> SHCT (ship_update h c req (ship_replaced c q)) s"
    using shct_increment_le [of "ship_replaced c q" s] by (simp add: ship_update_fields ship_replaced_fields)
  finally show ?case .
qed

text \<open>
  A fill inserts a line at the middle value only when its counter was zero, and at the
  minimum (near-immediate) otherwise; the distant value is never used.
\<close>

lemma ship_fill_value:
  assumes "ship_rank h cc req cands p = Some (c, q)"
  shows "RRPV (repl_data (ship_update h c req (ship_replaced c q)) c)
    = (if SHCT q (unat (pc_signature h req)) = 0 then RRPV_MID else RRPV_MIN)"
proof -
  have "signature (repl_data q c) = pc_signature h req"
    using ship_rank_Some [OF assms] by (auto simp: ship_evict_fields)
  then show ?thesis
    by (simp add: ship_update_def ship_replaced_def Let_def RRPV_MAX_def RRPV_MID_def)
qed

end
