(* ===== verification/SetAssoc.thy ===== *)
theory SetAssoc
  imports ArrayIface LruRepl LegacyRepl ShipRepl
begin

section \<open>The set-associative array\<close>

text \<open>
  class \<open>SetAssocArray\<close> of cache_arrays.h and cache_arrays.cpp. The record holds the fields of
  the object and the state of its replacement policy; the policy's methods and the hash
  family are arguments. The candidates of a replacement are the lines of one set,
  \<open>SetAssocCands(first, first + assoc)\<close>.
\<close>

record 'r set_assoc =
  sa_array :: "nat \<Rightarrow> address"
  sa_rp :: 'r
  sa_numLines :: nat
  sa_numSets :: nat
  sa_assoc :: nat
  sa_setMask :: u32

definition set_assoc_init :: "nat \<Rightarrow> nat \<Rightarrow> 'r \<Rightarrow> 'r set_assoc res" where
  "set_assoc_init nl ways r =
     (let numSets = nl div ways
      in assert_then (isPow2 (of_nat numSets :: u32))
           (Inr \<lparr>sa_array = (\<lambda>_. 0), sa_rp = r, sa_numLines = nl, sa_numSets = numSets,
                 sa_assoc = ways, sa_setMask = of_nat numSets - 1\<rparr>))"

definition sa_first :: "hash_family \<Rightarrow> address \<Rightarrow> 'r set_assoc \<Rightarrow> nat" where
  "sa_first hf a s = unat (hf 0 a AND ucast (sa_setMask s)) * sa_assoc s"

definition SetAssocCands :: "nat \<Rightarrow> nat \<Rightarrow> nat list" where
  "SetAssocCands b e = [b..<e]"

definition sa_cands :: "hash_family \<Rightarrow> address \<Rightarrow> 'r set_assoc \<Rightarrow> nat list" where
  "sa_cands hf a s = SetAssocCands (sa_first hf a s) (sa_first hf a s + sa_assoc s)"

definition sa_find :: "hash_family \<Rightarrow> address \<Rightarrow> 'r set_assoc \<Rightarrow> nat option" where
  "sa_find hf a s = List.find (\<lambda>lid. sa_array s lid = a) (sa_cands hf a s)"

definition sa_lookup :: "'r repl_ops \<Rightarrow> hash_family \<Rightarrow> address \<Rightarrow> mem_req option \<Rightarrow> bool \<Rightarrow>
    'r set_assoc \<Rightarrow> (nat option \<times> 'r set_assoc) res" where
  "sa_lookup rp hf a req updateReplacement s =
     (case sa_find hf a s of
        None \<Rightarrow> Inr (None, s)
      | Some lid \<Rightarrow> Inr (Some lid,
          (case req of
             Some r \<Rightarrow> if updateReplacement then s\<lparr>sa_rp := rp_update rp lid r (sa_rp s)\<rparr> else s
           | None \<Rightarrow> s)))"

definition sa_preinsert :: "'r repl_ops \<Rightarrow> hash_family \<Rightarrow> cc_view \<Rightarrow> address \<Rightarrow> mem_req \<Rightarrow>
    'r set_assoc \<Rightarrow> (nat \<times> address \<times> 'r set_assoc) res" where
  "sa_preinsert rp hf cc a req s =
     (case rp_rank rp cc req (sa_cands hf a s) (sa_rp s) of
        None \<Rightarrow> Inl AssertFail
      | Some (candidate, r) \<Rightarrow> Inr (candidate, sa_array s candidate, s\<lparr>sa_rp := r\<rparr>))"

definition sa_postinsert :: "'r repl_ops \<Rightarrow> address \<Rightarrow> mem_req \<Rightarrow> nat \<Rightarrow> 'r set_assoc \<Rightarrow>
    'r set_assoc res" where
  "sa_postinsert rp a req candidate s =
     Inr (s\<lparr>sa_rp := rp_update rp candidate req (rp_replaced rp candidate (sa_rp s)),
            sa_array := (sa_array s)(candidate := a)\<rparr>)"

definition sa_ops :: "'r repl_ops \<Rightarrow> hash_family \<Rightarrow> 'r set_assoc array_ops" where
  "sa_ops rp hf =
     \<lparr>a_lookup = sa_lookup rp hf, a_preinsert = sa_preinsert rp hf, a_postinsert = sa_postinsert rp\<rparr>"

subsection \<open>Searching a set\<close>

lemma find_in_set: "List.find P xs = Some x \<Longrightarrow> x \<in> set xs \<and> P x"
  by (auto simp: find_Some_iff)

lemma find_tag_upd:
  assumes "\<And>i. i \<noteq> l \<Longrightarrow> g i = f i" and "g l = a"
  shows "b \<noteq> a \<Longrightarrow> List.find (\<lambda>i. f i = b) xs = Some j \<Longrightarrow> j \<noteq> l \<Longrightarrow>
      List.find (\<lambda>i. g i = b) xs = Some j"
    and "b \<noteq> a \<Longrightarrow> List.find (\<lambda>i. f i = b) xs = None \<Longrightarrow> List.find (\<lambda>i. g i = b) xs = None"
    and "List.find (\<lambda>i. f i = a) xs = None \<Longrightarrow> l \<in> set xs \<Longrightarrow>
      List.find (\<lambda>i. g i = a) xs = Some l"
proof (induction xs)
  case (Cons x xs)
  { case 1 then show ?case using Cons.IH(1) assms by (cases "x = l") (auto split: if_splits) }
  { case 2 then show ?case using Cons.IH(2) assms by (cases "x = l") (auto split: if_splits) }
  { case 3 then show ?case using Cons.IH(3) assms by (cases "x = l") (auto split: if_splits) }
qed simp_all

text \<open>The set selected by the hash lies within the array.\<close>

definition sa_geometry :: "'r set_assoc \<Rightarrow> bool" where
  "sa_geometry s \<longleftrightarrow> 0 < sa_assoc s \<and> unat (sa_setMask s) < sa_numSets s
     \<and> sa_numSets s * sa_assoc s \<le> sa_numLines s"

lemma masked_le: "unat (h AND ucast (m :: u32) :: u64) \<le> unat m"
proof -
  have "h AND ucast m \<le> (ucast m :: u64)" by (rule word_and_le1)
  then have "unat (h AND ucast m :: u64) \<le> unat (ucast m :: u64)"
    by (simp only: word_le_nat_alt)
  then show ?thesis by simp
qed

lemma sa_cands_bound:
  assumes "sa_geometry s" and "lid \<in> set (sa_cands hf a s)"
  shows "lid < sa_numLines s"
proof -
  let ?k = "unat (hf 0 a AND ucast (sa_setMask s))"
  have "Suc ?k \<le> sa_numSets s"
    using masked_le [of "hf 0 a" "sa_setMask s"] assms(1) by (simp add: sa_geometry_def)
  then have "Suc ?k * sa_assoc s \<le> sa_numSets s * sa_assoc s" by (rule mult_le_mono1)
  also have "\<dots> \<le> sa_numLines s" using assms(1) by (simp add: sa_geometry_def)
  finally show ?thesis
    using assms(2) by (simp add: sa_cands_def SetAssocCands_def sa_first_def)
qed

lemma set_mask_lt:
  assumes "isPow2 (of_nat n :: u32)" and "n < 2 ^ 32"
  shows "unat (of_nat n - 1 :: u32) < n"
proof -
  have u: "unat (of_nat n :: u32) = n" using assms(2) by (simp add: unat_of_nat take_bit_nat_eq_self)
  from assms(1) have nz: "(of_nat n :: u32) \<noteq> 0" by (simp add: isPow2_def)
  then have "n \<noteq> 0" by (cases "n = 0") simp_all
  moreover have "unat (of_nat n - 1 :: u32) = n - 1" using u nz by (simp add: unat_minus_one)
  ultimately show ?thesis by simp
qed

lemma set_assoc_init_geometry:
  assumes "set_assoc_init nl ways r = Inr s" and "0 < ways" and "nl < 2 ^ 32"
  shows "sa_geometry s"
proof -
  from assms(1) have pow: "isPow2 (of_nat (nl div ways) :: u32)"
    and s: "s = \<lparr>sa_array = (\<lambda>_. 0), sa_rp = r, sa_numLines = nl, sa_numSets = nl div ways,
                 sa_assoc = ways, sa_setMask = of_nat (nl div ways) - 1\<rparr>"
    by (auto simp: set_assoc_init_def Let_def res_simps)
  have "nl div ways < 2 ^ 32" by (rule le_less_trans [OF div_le_dividend assms(3)])
  then show ?thesis using set_mask_lt [OF pow] assms(2) by (simp add: sa_geometry_def s)
qed

subsection \<open>The array contract, for any replacement policy\<close>

text \<open>
  Between misses the geometry is right, every line has an entry in the replacement policy and
  the policy accepts the candidates of every set.
\<close>

definition sa_wf :: "('r \<Rightarrow> nat) \<Rightarrow> (nat list \<Rightarrow> 'r \<Rightarrow> bool) \<Rightarrow> hash_family \<Rightarrow> 'r set_assoc \<Rightarrow> bool"
  where
  "sa_wf lines cands_ok hf s \<longleftrightarrow> sa_geometry s \<and> sa_numLines s \<le> lines (sa_rp s)
     \<and> (\<forall>a. cands_ok (sa_cands hf a s) (sa_rp s))"

lemma sa_cands_upd [simp]:
  "sa_cands hf a (s\<lparr>sa_rp := r\<rparr>) = sa_cands hf a s"
  "sa_cands hf a (s\<lparr>sa_array := f\<rparr>) = sa_cands hf a s"
  "sa_geometry (s\<lparr>sa_rp := r\<rparr>) = sa_geometry s"
  "sa_geometry (s\<lparr>sa_array := f\<rparr>) = sa_geometry s"
  "sa_find hf a (s\<lparr>sa_rp := r\<rparr>) = sa_find hf a s"
  by (simp_all add: sa_cands_def sa_first_def sa_geometry_def sa_find_def)

locale set_assoc_array = repl_policy +
  fixes hf :: hash_family
begin

abbreviation "methods \<equiv> \<lparr>rp_update = update, rp_replaced = replaced, rp_rank = rank\<rparr>"

abbreviation "well \<equiv> sa_wf lines cands_ok hf"

lemma well_rp:
  "well s \<Longrightarrow> lines r = lines (sa_rp s) \<Longrightarrow> (\<And>cs. cands_ok cs r = cands_ok cs (sa_rp s)) \<Longrightarrow>
     well (s\<lparr>sa_rp := r\<rparr>)"
  by (simp add: sa_wf_def)

lemma find_line: "well s \<Longrightarrow> sa_find hf a s = Some lid \<Longrightarrow> lid < lines (sa_rp s) \<and> lid < sa_numLines s"
  using sa_cands_bound by (fastforce simp: sa_wf_def sa_find_def dest!: find_in_set)

sublocale arr: cache_array "sa_ops methods hf" "sa_find hf" sa_array sa_numLines
  "\<lambda>s. well s \<and> ready (sa_rp s)"
  "\<lambda>a l s. well s \<and> pending l (sa_rp s) \<and> l \<in> set (sa_cands hf a s)"
  "\<lambda>_. True"
proof unfold_locales
  fix a s l b k
  assume "sa_find hf a s = Some l"
    and "well s \<and> ready (sa_rp s) \<or> well s \<and> pending k (sa_rp s) \<and> k \<in> set (sa_cands hf b s)"
  then show "sa_array s l = a" by (auto simp: sa_find_def dest: find_in_set)
next
  fix a s l b k
  assume "sa_find hf a s = Some l"
    and "well s \<and> ready (sa_rp s) \<or> well s \<and> pending k (sa_rp s) \<and> k \<in> set (sa_cands hf b s)"
  then show "l < sa_numLines s" using find_line by blast
next
  fix s a r u
  assume "well s \<and> ready (sa_rp s)"
  then show "\<exists>s'. a_lookup (sa_ops methods hf) a r (u \<and> r \<noteq> None) s = Inr (sa_find hf a s, s')
      \<and> (well s' \<and> ready (sa_rp s')) \<and> sa_array s' = sa_array s
      \<and> (\<forall>b. sa_find hf b s' = sa_find hf b s) \<and> sa_numLines s' = sa_numLines s"
    using find_line [of s a]
    by (auto simp: sa_ops_def sa_lookup_def update_lines cands_ok_update
        intro!: well_rp update_ready split: option.split)
next
  fix c l s a r u
  assume "well s \<and> pending l (sa_rp s) \<and> l \<in> set (sa_cands hf c s)"
  then show "\<exists>s'. a_lookup (sa_ops methods hf) a r (u \<and> r \<noteq> None) s = Inr (sa_find hf a s, s')
      \<and> (well s' \<and> pending l (sa_rp s') \<and> l \<in> set (sa_cands hf c s')) \<and> sa_array s' = sa_array s
      \<and> (\<forall>b. sa_find hf b s' = sa_find hf b s) \<and> sa_numLines s' = sa_numLines s"
    using find_line [of s a]
    by (auto simp: sa_ops_def sa_lookup_def update_lines cands_ok_update
        intro!: well_rp update_pending split: option.split)
next
  fix s a cc req
  assume s: "well s \<and> ready (sa_rp s)" and "sa_find hf a s = None"
  have ok: "cands_ok (sa_cands hf a s) (sa_rp s)" using s by (simp add: sa_wf_def)
  from s ok obtain c r where r: "rank cc req (sa_cands hf a s) (sa_rp s) = Some (c, r)"
    "c \<in> set (sa_cands hf a s)" "pending c r" "lines r = lines (sa_rp s)"
    "\<And>cs. cands_ok cs r = cands_ok cs (sa_rp s)"
    using rank_some by blast
  have "c < sa_numLines s" using s r(2) by (auto simp: sa_wf_def intro: sa_cands_bound)
  with s r show "\<exists>l s'. a_preinsert (sa_ops methods hf) cc a req s = Inr (l, sa_array s l, s')
      \<and> (well s' \<and> pending l (sa_rp s') \<and> l \<in> set (sa_cands hf a s')) \<and> l < sa_numLines s
      \<and> sa_array s' = sa_array s \<and> (\<forall>b. sa_find hf b s' = sa_find hf b s)
      \<and> sa_numLines s' = sa_numLines s"
    by (simp add: sa_ops_def sa_preinsert_def well_rp)
next
  fix a l s req
  assume s: "well s \<and> pending l (sa_rp s) \<and> l \<in> set (sa_cands hf a s)"
    and none: "sa_find hf a s = None"
  let ?r = "update l req (replaced l (sa_rp s))"
  let ?s = "s\<lparr>sa_rp := ?r, sa_array := (sa_array s)(l := a)\<rparr>"
  have well: "well ?s"
    using s by (simp add: sa_wf_def insert_lines cands_ok_update cands_ok_replaced)
  have find: "sa_find hf a ?s = Some l"
    using s none unfolding sa_find_def by (simp only: sa_cands_upd) (rule find_tag_upd(3); simp)
  have some: "sa_find hf b ?s = Some i" if "b \<noteq> a" "sa_find hf b s = Some i" "i \<noteq> l" for b i
    using that unfolding sa_find_def by (simp only: sa_cands_upd) (rule find_tag_upd(1); simp)
  have none: "sa_find hf b ?s = None" if "b \<noteq> a" "sa_find hf b s = None" for b
    using that unfolding sa_find_def by (simp only: sa_cands_upd) (rule find_tag_upd(2) [where l = l and a = a and f = "sa_array s"]; simp)
  show "\<exists>s'. a_postinsert (sa_ops methods hf) a req l s = Inr s' \<and> (well s' \<and> ready (sa_rp s'))
      \<and> sa_find hf a s' = Some l \<and> sa_array s' = (sa_array s)(l := a)
      \<and> sa_numLines s' = sa_numLines s
      \<and> (\<forall>b i. True \<longrightarrow> b \<noteq> a \<longrightarrow> sa_find hf b s = Some i \<longrightarrow> i \<noteq> l \<longrightarrow> sa_find hf b s' = Some i)
      \<and> (\<forall>b. True \<longrightarrow> b \<noteq> a \<longrightarrow> sa_find hf b s = None \<longrightarrow> sa_find hf b s' = None)"
    by (rule exI [of _ ?s])
      (use s well find some none in \<open>auto simp: sa_ops_def sa_postinsert_def insert_ready\<close>)
qed

end

subsection \<open>Arrays with the policies of the simulator\<close>

abbreviation lru_ops :: "bool \<Rightarrow> lru repl_ops" where
  "lru_ops sa \<equiv> \<lparr>rp_update = lru_update, rp_replaced = lru_replaced, rp_rank = lru_rank sa\<rparr>"

abbreviation srrip_ops :: "srrip repl_ops" where
  "srrip_ops \<equiv> \<lparr>rp_update = srrip_update, rp_replaced = srrip_replaced, rp_rank = srrip_rank\<rparr>"

interpretation sa_lru: set_assoc_array lru_update lru_replaced "lru_rank sa" "\<lambda>_. True"
  "\<lambda>_ _. True" lru_numLines "\<lambda>cands _. cands \<noteq> []" hf for sa hf ..

interpretation sa_nru: set_assoc_array nru_update nru_replaced nru_rank
  "\<lambda>p. nru_bits p \<and> nru_idle p" "\<lambda>_. nru_bits" nru_numLines "\<lambda>cands _. cands \<noteq> []" hf for hf ..

interpretation sa_lfu: set_assoc_array lfu_update lfu_replaced lfu_rank "\<lambda>p. bestCandidate p = None"
  "\<lambda>_ _. True" lfu_numLines "\<lambda>cands _. cands \<noteq> []" hf for hf ..

interpretation sa_srrip: set_assoc_array srrip_update srrip_replaced srrip_rank srrip_inv
  "\<lambda>_. srrip_inv" srrip_numLines "\<lambda>cands _. cands \<noteq> [] \<and> distinct cands" hf for hf ..

interpretation sa_ship: set_assoc_array "ship_update h" ship_replaced "ship_rank h" ship_inv
  "\<lambda>_. ship_inv" ship_lines "\<lambda>cands _. cands \<noteq> [] \<and> distinct cands" hf for h hf ..

text \<open>A fresh array is well formed when the policy accepts any set.\<close>

lemma set_assoc_init_wf:
  assumes "set_assoc_init nl ways r = Inr s" and "0 < ways" and "nl < 2 ^ 32" and "nl \<le> lines r"
    and "\<And>b. cands_ok [b..<b + ways] r"
  shows "sa_wf lines cands_ok hf s"
proof -
  have "sa_numLines s = nl" "sa_rp s = r" "sa_assoc s = ways"
    using assms(1) by (auto simp: set_assoc_init_def Let_def res_simps)
  then show ?thesis
    using set_assoc_init_geometry [OF assms(1-3)] assms(4,5)
    by (simp add: sa_wf_def sa_cands_def SetAssocCands_def)
qed

subsection \<open>Properties\<close>

text \<open>
  C6. A miss in a set-associative array with SRRIP replacement: the policy returns a victim of
  the selected set, the inserted address is found afterwards at the victim's line, every other
  resident address stays at its line, and no other address appears.
\<close>

theorem set_assoc_srrip_miss:
  assumes "sa_wf srrip_numLines (\<lambda>cands _. cands \<noteq> [] \<and> distinct cands) hf s"
    and "srrip_inv (sa_rp s)" and "sa_find hf a s = None"
  shows "\<exists>l s1 s2. sa_preinsert srrip_ops hf cc a req s = Inr (l, sa_array s l, s1)
    \<and> sa_postinsert srrip_ops a req l s1 = Inr s2
    \<and> l \<in> set (sa_cands hf a s) \<and> sa_find hf a s2 = Some l
    \<and> (\<forall>b i. b \<noteq> a \<longrightarrow> i \<noteq> l \<longrightarrow> sa_find hf b s = Some i \<longrightarrow> sa_find hf b s2 = Some i)
    \<and> (\<forall>b. b \<noteq> a \<longrightarrow> sa_find hf b s = None \<longrightarrow> sa_find hf b s2 = None)
    \<and> srrip_inv (sa_rp s2)"
proof -
  from sa_srrip.arr.preinsert [of hf s a cc req] assms obtain l s1 where
    pre: "sa_preinsert srrip_ops hf cc a req s = Inr (l, sa_array s l, s1)"
      "sa_wf srrip_numLines (\<lambda>cands _. cands \<noteq> [] \<and> distinct cands) hf s1" "srrip_inv (sa_rp s1)"
      "l \<in> set (sa_cands hf a s1)" "\<forall>b. sa_find hf b s1 = sa_find hf b s"
    by (auto simp: sa_ops_def)
  have cands: "sa_cands hf a s1 = sa_cands hf a s"
    using pre(1) by (auto simp: sa_preinsert_def split: option.splits)
  from sa_srrip.arr.postinsert [of hf s1 l a req] pre assms(3) obtain s2 where
    "sa_postinsert srrip_ops a req l s1 = Inr s2" "srrip_inv (sa_rp s2)" "sa_find hf a s2 = Some l"
    "\<forall>b i. b \<noteq> a \<longrightarrow> sa_find hf b s1 = Some i \<longrightarrow> i \<noteq> l \<longrightarrow> sa_find hf b s2 = Some i"
    "\<forall>b. b \<noteq> a \<longrightarrow> sa_find hf b s1 = None \<longrightarrow> sa_find hf b s2 = None"
    by (auto simp: sa_ops_def)
  with pre cands show ?thesis by (intro exI [of _ l] exI [of _ s1] exI [of _ s2]) simp
qed

theorem set_assoc_srrip_miss_witness:
  "\<forall>cc req. \<exists>s l s1 s2. set_assoc_init 8 2 (srrip_init 8 3) = Inr s
    \<and> sa_preinsert srrip_ops (\<lambda>_ v. v) cc 5 req s = Inr (l, sa_array s l, s1)
    \<and> sa_postinsert srrip_ops 5 req l s1 = Inr s2 \<and> sa_find (\<lambda>_ v. v) 5 s2 = Some l"
  (is "\<forall>cc req. ?P cc req")
proof (intro allI)
  fix cc req
  let ?hf = "\<lambda>_ v. v :: u64"
  obtain s where s: "set_assoc_init 8 2 (srrip_init 8 3) = Inr s"
    by (simp add: set_assoc_init_def Let_def isPow2_def)
  have rp: "sa_rp s = srrip_init 8 3" and arr: "sa_array s l = 0" for l
    using s by (auto simp: set_assoc_init_def Let_def res_simps)
  have wf: "sa_wf srrip_numLines (\<lambda>cands _. cands \<noteq> [] \<and> distinct cands) ?hf s"
    by (rule set_assoc_init_wf [OF s]) (simp_all add: srrip_init_def)
  have inv: "srrip_inv (sa_rp s)" unfolding rp by (rule srrip_inv_init) simp_all
  have none: "sa_find ?hf 5 s = None" by (simp add: sa_find_def find_None_iff arr)
  show "?P cc req" using set_assoc_srrip_miss [OF wf inv none, of cc req] s by blast
qed

end
