(* ===== verification/ZCache.thy ===== *)
theory ZCache
  imports SetAssoc
begin

section \<open>The zcache array\<close>

text \<open>
  class \<open>ZArray\<close> of cache_arrays.h and cache_arrays.cpp. A line id is found through
  \<open>lookupArray\<close>, which maps a physical position to the line id stored there; the position of
  way \<open>w\<close> of an address is given by hash function \<open>w\<close>. A replacement walks the positions to
  which the candidates could move, breadth first, and then moves lines along the path from
  the victim to a seed. \<open>swapArray\<close> holds the entries below \<open>swapArrayLen\<close>.
\<close>

record zwalk_info =
  z_pos :: nat
  z_lineId :: nat
  z_parentIdx :: "nat option"

record 'r zarray =
  za_array :: "nat \<Rightarrow> address"
  lookupArray :: "nat \<Rightarrow> nat"
  za_rp :: 'r
  za_numLines :: nat
  za_numSets :: nat
  za_ways :: nat
  za_cands :: nat
  za_setMask :: u32
  swapArray :: "nat list"
  lastCandIdx :: nat
  statSwaps :: u64

definition zarray_init :: "nat \<Rightarrow> nat \<Rightarrow> nat \<Rightarrow> 'r \<Rightarrow> 'r zarray res" where
  "zarray_init nl ways candidates r =
     assert_then (1 < ways) (assert_then (ways \<le> candidates) (assert_then (nl mod ways = 0)
       (let numSets = nl div ways
        in assert_then (isPow2 (of_nat numSets :: u32))
          (Inr \<lparr>za_array = (\<lambda>_. 0), lookupArray = (\<lambda>i. i), za_rp = r, za_numLines = nl,
                za_numSets = numSets, za_ways = ways, za_cands = candidates,
                za_setMask = of_nat numSets - 1, swapArray = [], lastCandIdx = 0, statSwaps = 0\<rparr>))))"

definition z_position :: "hash_family \<Rightarrow> 'r zarray \<Rightarrow> nat \<Rightarrow> address \<Rightarrow> nat" where
  "z_position hf s w a = w * za_numSets s + unat (hf w a AND ucast (za_setMask s))"

definition z_find :: "hash_family \<Rightarrow> address \<Rightarrow> 'r zarray \<Rightarrow> nat option" where
  "z_find hf a s = List.find (\<lambda>lid. za_array s lid = a)
     (map (\<lambda>w. lookupArray s (z_position hf s w a)) [0..<za_ways s])"

definition z_lookup :: "'r repl_ops \<Rightarrow> hash_family \<Rightarrow> address \<Rightarrow> mem_req option \<Rightarrow> bool \<Rightarrow>
    'r zarray \<Rightarrow> (nat option \<times> 'r zarray) res" where
  "z_lookup rp hf a req updateReplacement s =
     (if a = 0 then Inl Panic
      else case z_find hf a s of
        None \<Rightarrow> Inr (None, s)
      | Some lid \<Rightarrow> Inr (Some lid,
          (case req of
             Some r \<Rightarrow> if updateReplacement then s\<lparr>za_rp := rp_update rp lid r (za_rp s)\<rparr> else s
           | None \<Rightarrow> s)))"

subsection \<open>The walk\<close>

definition z_seeds :: "hash_family \<Rightarrow> 'r zarray \<Rightarrow> address \<Rightarrow> zwalk_info list" where
  "z_seeds hf s a = map (\<lambda>w. let pos = z_position hf s w a in
     \<lparr>z_pos = pos, z_lineId = lookupArray s pos, z_parentIdx = None\<rparr>) [0..<za_ways s]"

definition z_visit :: "hash_family \<Rightarrow> 'r zarray \<Rightarrow> nat \<Rightarrow> nat \<Rightarrow> zwalk_info list \<times> bool \<Rightarrow> nat \<Rightarrow>
    zwalk_info list \<times> bool" where
  "z_visit hf s fringeStart fringeId st w =
     (let (cs, all_valid) = st;
          pos = z_position hf s w (za_array s fringeId);
          lid = lookupArray s pos
      in (if lid \<noteq> fringeId
          then cs @ [\<lparr>z_pos = pos, z_lineId = lid, z_parentIdx = Some fringeStart\<rparr>] else cs,
          all_valid \<and> za_array s lid \<noteq> 0))"

text \<open>
  The breadth-first expansion. The code reads \<open>candidates[fringeStart]\<close>, which is unwritten
  memory when the fringe is exhausted; the model has no value there.
\<close>

partial_function (option) z_walk :: "hash_family \<Rightarrow> 'r zarray \<Rightarrow> nat \<Rightarrow> zwalk_info list \<Rightarrow> bool \<Rightarrow>
    (zwalk_info list \<times> bool) res option" where
  "z_walk hf s fringeStart cs all_valid =
     (if length cs < za_cands s \<and> all_valid then
        if fringeStart < length cs then
          let fringeId = z_lineId (cs ! fringeStart) in
          if za_array s fringeId = 0 then Some (Inl AssertFail)
          else let (cs1, valid1) = foldl (z_visit hf s fringeStart fringeId) (cs, all_valid)
                                     [0..<za_ways s]
               in z_walk hf s (fringeStart + 1) cs1 valid1
        else None
      else Some (Inr (cs, all_valid)))"

text \<open>
  The path from a candidate to a seed. A parent always has a smaller index than its child
  (\<open>z_walk_inv\<close> below), which the guard states so that the definition ends.
\<close>

function z_path :: "zwalk_info list \<Rightarrow> nat \<Rightarrow> nat list" where
  "z_path cs i = z_pos (cs ! i) #
     (case z_parentIdx (cs ! i) of None \<Rightarrow> [] | Some j \<Rightarrow> if j < i then z_path cs j else [])"
  by pat_completeness auto

termination by (relation "measure snd") auto

declare z_path.simps [simp del]

definition z_preinsert :: "'r repl_ops \<Rightarrow> hash_family \<Rightarrow> cc_view \<Rightarrow> address \<Rightarrow> mem_req \<Rightarrow>
    'r zarray \<Rightarrow> (nat \<times> address \<times> 'r zarray) res" where
  "z_preinsert rp hf cc a req s =
     (let seeds = z_seeds hf s a;
          seeds_valid = list_all (\<lambda>c. za_array s (z_lineId c) \<noteq> 0) seeds
      in case z_walk hf s 0 seeds seeds_valid of
        None \<Rightarrow> Inl NoReturn
      | Some r \<Rightarrow> rbind r (\<lambda>(walk, all_valid).
          assert_then (\<not> all_valid \<or> za_cands s \<le> length walk)
            (let candidates = take (za_cands s) walk
             in case rp_rank rp cc req (map z_lineId candidates) (za_rp s) of
               None \<Rightarrow> Inl AssertFail
             | Some (best, rps) \<Rightarrow>
                 assert_then (best < za_numLines s)
                   (let minIdx = length (takeWhile (\<lambda>c. z_lineId c \<noteq> best) candidates)
                    in assert_then (minIdx < length candidates)
                      (Inr (best, za_array s best,
                         s\<lparr>za_rp := rps, lastCandIdx := minIdx,
                           swapArray := z_path candidates minIdx\<rparr>))))))"

definition z_move :: "nat list \<Rightarrow> (nat \<Rightarrow> nat) \<Rightarrow> nat \<Rightarrow> nat \<Rightarrow> nat" where
  "z_move swaps f i = f(swaps ! i := f (swaps ! (i + 1)))"

definition z_swaps :: "nat list \<Rightarrow> nat \<Rightarrow> (nat \<Rightarrow> nat) \<Rightarrow> nat \<Rightarrow> nat" where
  "z_swaps swaps candidate lk =
     (foldl (z_move swaps) lk [0..<length swaps - 1])
       (swaps ! (length swaps - 1) := candidate)"

definition z_postinsert :: "'r repl_ops \<Rightarrow> address \<Rightarrow> mem_req \<Rightarrow> nat \<Rightarrow> 'r zarray \<Rightarrow>
    'r zarray res" where
  "z_postinsert rp a req candidate s =
     assert_then (swapArray s \<noteq> [] \<and> lookupArray s (swapArray s ! 0) = candidate)
       (Inr (s\<lparr>lookupArray := z_swaps (swapArray s) candidate (lookupArray s),
               za_array := (za_array s)(candidate := a),
               za_rp := rp_update rp candidate req (rp_replaced rp candidate (za_rp s)),
               statSwaps := statSwaps s + of_nat (length (swapArray s) - 1)\<rparr>))"

definition z_ops :: "'r repl_ops \<Rightarrow> hash_family \<Rightarrow> 'r zarray array_ops" where
  "z_ops rp hf =
     \<lparr>a_lookup = z_lookup rp hf, a_preinsert = z_preinsert rp hf, a_postinsert = z_postinsert rp\<rparr>"

subsection \<open>Moving lines along a path\<close>

lemma z_swaps_prefix:
  fixes lk :: "nat \<Rightarrow> nat"
  assumes "distinct ps" and "k < length ps"
  defines "g \<equiv> foldl (z_move ps) lk [0..<k]"
  shows "(\<forall>i < k. g (ps ! i) = lk (ps ! Suc i)) \<and> (\<forall>x. x \<notin> (!) ps ` {..<k} \<longrightarrow> g x = lk x)"
  unfolding g_def using assms(2)
proof (induction k)
  case (Suc k)
  define g where "g = foldl (z_move ps) lk [0..<k]"
  have IH: "\<forall>i<k. g (ps ! i) = lk (ps ! Suc i)" "\<forall>x. x \<notin> (!) ps ` {..<k} \<longrightarrow> g x = lk x"
    using Suc unfolding g_def by simp_all
  have step: "foldl (z_move ps) lk [0..<Suc k]
      = g(ps ! k := g (ps ! Suc k))"
    by (simp add: g_def z_move_def)
  have "ps ! Suc k \<notin> (!) ps ` {..<k}"
    using assms(1) Suc.prems by (auto simp: nth_eq_iff_index_eq)
  then have next': "g (ps ! Suc k) = lk (ps ! Suc k)" using IH(2) by blast
  have ne: "ps ! i \<noteq> ps ! k" if "i < k" for i
    using assms(1) Suc.prems that by (simp add: nth_eq_iff_index_eq)
  show ?case
    unfolding step using IH next' ne by (auto simp: less_Suc_eq lessThan_Suc)
qed simp

lemma z_swaps_eq:
  assumes "distinct ps" and "ps \<noteq> []" and "c = lk (ps ! 0)"
  shows "i < length ps \<Longrightarrow>
      z_swaps ps c lk (ps ! i) = (if i = length ps - 1 then lk (ps ! 0) else lk (ps ! Suc i))"
    and "x \<notin> set ps \<Longrightarrow> z_swaps ps c lk x = lk x"
proof -
  let ?n = "length ps - 1"
  have n: "?n < length ps" using assms(2) by simp
  note pre = z_swaps_prefix [OF assms(1) n, of lk]
  { assume "i < length ps"
    then show "z_swaps ps c lk (ps ! i) = (if i = ?n then lk (ps ! 0) else lk (ps ! Suc i))"
      using pre assms n by (auto simp: z_swaps_def nth_eq_iff_index_eq) }
  { assume x: "x \<notin> set ps"
    then have "x \<notin> (!) ps ` {..<?n}" "x \<noteq> ps ! ?n" using n nth_mem by fastforce+
    then show "z_swaps ps c lk x = lk x" using pre by (simp add: z_swaps_def) }
qed

lemma z_swaps_source:
  assumes "distinct ps" and "ps \<noteq> []" and "c = lk (ps ! 0)"
  obtains y where "y = x \<or> x \<in> set ps \<and> y \<in> set ps" and "z_swaps ps c lk y = lk x"
proof (cases "x \<in> set ps")
  case True
  then obtain i where i: "i < length ps" "x = ps ! i" by (auto simp: in_set_conv_nth)
  show thesis
  proof (cases i)
    case 0
    with i assms(2) show thesis
      using z_swaps_eq(1) [where lk = lk, OF assms, of "length ps - 1"] True
      by (intro that [of "ps ! (length ps - 1)"]) simp_all
  next
    case (Suc j)
    with i have "j < length ps - 1" "j < length ps" by simp_all
    with i Suc show thesis
      using z_swaps_eq(1) [where lk = lk, OF assms, of j] True by (intro that [of "ps ! j"]) simp_all
  qed
next
  case False
  then show thesis using z_swaps_eq(2) [where lk = lk, OF assms] that by blast
qed

lemma z_swaps_bij:
  assumes "distinct ps" and "ps \<noteq> []" and "c = lk (ps ! 0)" and "set ps \<subseteq> {..<n}"
    and "bij_betw lk {..<n} {..<n}"
  shows "bij_betw (z_swaps ps c lk) {..<n} {..<n}"
proof -
  let ?g = "z_swaps ps c lk"
  have sub: "{..<n} \<subseteq> ?g ` {..<n}"
  proof
    fix y assume "y \<in> {..<n}"
    then obtain x where x: "x \<in> {..<n}" "y = lk x" using assms(5) by (auto simp: bij_betw_def)
    obtain z where "z = x \<or> x \<in> set ps \<and> z \<in> set ps" "?g z = lk x"
      by (rule z_swaps_source [where lk = lk, OF assms(1-3)])
    moreover from this x assms(4) have "z \<in> {..<n}" by blast
    ultimately show "y \<in> ?g ` {..<n}" using x(2) by (metis image_eqI)
  qed
  have "card (?g ` {..<n}) \<le> card {..<n}" by (rule card_image_le) simp
  with sub have eq: "?g ` {..<n} = {..<n}" using card_seteq [of "?g ` {..<n}" "{..<n}"] by simp
  moreover have "inj_on ?g {..<n}" by (rule eq_card_imp_inj_on) (simp_all add: eq)
  ultimately show ?thesis by (simp add: bij_betw_def)
qed

subsection \<open>The invariant of the array\<close>

definition z_geometry :: "'r zarray \<Rightarrow> bool" where
  "z_geometry s \<longleftrightarrow> 1 < za_ways s \<and> za_ways s \<le> za_cands s
     \<and> za_numSets s * za_ways s = za_numLines s \<and> unat (za_setMask s) < za_numSets s"

text \<open>
  \<open>lookupArray\<close> is a permutation, every line with an address is stored at a position of that
  address, and no address is stored twice.
\<close>

definition z_placed :: "hash_family \<Rightarrow> 'r zarray \<Rightarrow> bool" where
  "z_placed hf s \<longleftrightarrow> bij_betw (lookupArray s) {..<za_numLines s} {..<za_numLines s}
     \<and> (\<forall>pos < za_numLines s. za_array s (lookupArray s pos) \<noteq> 0 \<longrightarrow>
          (\<exists>w < za_ways s. pos = z_position hf s w (za_array s (lookupArray s pos))))
     \<and> (\<forall>i < za_numLines s. \<forall>j < za_numLines s.
          za_array s i = za_array s j \<longrightarrow> za_array s i \<noteq> 0 \<longrightarrow> i = j)"

lemma z_position_lt:
  assumes "z_geometry s" and "w < za_ways s"
  shows "z_position hf s w a < za_numLines s"
proof -
  have "unat (hf w a AND ucast (za_setMask s)) < za_numSets s"
    using masked_le [of "hf w a" "za_setMask s"] assms(1) by (simp add: z_geometry_def)
  then have "z_position hf s w a < Suc w * za_numSets s" by (simp add: z_position_def)
  also have "\<dots> \<le> za_ways s * za_numSets s" using assms(2) by (intro mult_le_mono1) simp
  finally show ?thesis using assms(1) by (simp add: z_geometry_def mult.commute)
qed

lemma z_position_inj:
  assumes "z_geometry s" and "z_position hf s w a = z_position hf s v b"
  shows "w = v"
proof -
  have lt: "unat (hf u c AND ucast (za_setMask s)) < za_numSets s" for u c
    using masked_le [of "hf u c" "za_setMask s"] assms(1) by (simp add: z_geometry_def)
  have "z_position hf s u c div za_numSets s = u" for u c
    using lt [of u c] by (simp add: z_position_def)
  then show ?thesis using assms(2) by metis
qed

lemma z_find_Some:
  "z_find hf a s = Some l \<Longrightarrow>
     za_array s l = a \<and> (\<exists>w < za_ways s. l = lookupArray s (z_position hf s w a))"
  unfolding z_find_def by (drule find_in_set) auto

lemma lookupArray_lt: "z_placed hf s \<Longrightarrow> p < za_numLines s \<Longrightarrow> lookupArray s p < za_numLines s"
  by (auto simp: z_placed_def bij_betw_def)

lemma z_find_lt:
  assumes "z_geometry s" and "z_placed hf s" and "z_find hf a s = Some l"
  shows "l < za_numLines s"
proof -
  obtain w where "w < za_ways s" "l = lookupArray s (z_position hf s w a)"
    using z_find_Some [OF assms(3)] by blast
  then show ?thesis using lookupArray_lt [OF assms(2) z_position_lt [OF assms(1)]] by simp
qed

lemma z_find_iff:
  assumes "z_geometry s" and "z_placed hf s" and "a \<noteq> 0"
  shows "z_find hf a s = Some l \<longleftrightarrow> l < za_numLines s \<and> za_array s l = a"
proof
  assume "z_find hf a s = Some l"
  then show "l < za_numLines s \<and> za_array s l = a"
    using z_find_lt [OF assms(1,2)] z_find_Some by blast
next
  assume l: "l < za_numLines s \<and> za_array s l = a"
  then have "l \<in> lookupArray s ` {..<za_numLines s}"
    using assms(2) unfolding z_placed_def bij_betw_def by simp
  then obtain pos where pos: "pos < za_numLines s" "lookupArray s pos = l" by auto
  then have "za_array s (lookupArray s pos) \<noteq> 0" using l assms(3) by simp
  with pos(1) obtain w where "w < za_ways s" "pos = z_position hf s w (za_array s (lookupArray s pos))"
    using assms(2) unfolding z_placed_def by blast
  then have "w < za_ways s" "lookupArray s (z_position hf s w a) = l" using pos l by simp_all
  with l have "z_find hf a s \<noteq> None" by (auto simp: z_find_def find_None_iff)
  then obtain k where k: "z_find hf a s = Some k" by blast
  then have "k < za_numLines s" "za_array s k = a"
    using z_find_lt [OF assms(1,2)] z_find_Some by blast+
  then have "k = l" using l assms(2,3) unfolding z_placed_def by metis
  with k show "z_find hf a s = Some l" by simp
qed

text \<open>
  The effect of an insertion: \<open>path\<close> starts at the victim's position, each entry is a position
  of the line stored at the next entry, and the last entry is a position of the new address.
\<close>

definition z_path_ok :: "hash_family \<Rightarrow> 'r zarray \<Rightarrow> address \<Rightarrow> nat list \<Rightarrow> bool" where
  "z_path_ok hf s a ps \<longleftrightarrow> ps \<noteq> [] \<and> distinct ps \<and> set ps \<subseteq> {..<za_numLines s}
     \<and> (\<exists>w < za_ways s. last ps = z_position hf s w a)
     \<and> (\<forall>i. Suc i < length ps \<longrightarrow> (\<exists>w < za_ways s.
          ps ! i = z_position hf s w (za_array s (lookupArray s (ps ! Suc i)))))"

lemma z_insert_placed:
  assumes geo: "z_geometry s" and pl: "z_placed hf s" and path: "z_path_ok hf s a ps"
    and c: "c = lookupArray s (ps ! 0)" and a: "a \<noteq> 0" "\<And>l. l < za_numLines s \<Longrightarrow> za_array s l \<noteq> a"
  defines "t \<equiv> s\<lparr>lookupArray := z_swaps ps c (lookupArray s), za_array := (za_array s)(c := a)\<rparr>"
  shows "z_placed hf t"
proof -
  let ?L = "lookupArray s" and ?K = "z_swaps ps c (lookupArray s)" and ?n = "za_numLines s"
  have ps: "distinct ps" "ps \<noteq> []" "set ps \<subseteq> {..<?n}" using path by (auto simp: z_path_ok_def)
  note eqs = z_swaps_eq [where lk = ?L, OF ps(1,2) c]
  have bij: "bij_betw ?L {..<?n} {..<?n}" using pl by (simp add: z_placed_def)
  have bij': "bij_betw ?K {..<?n} {..<?n}" by (rule z_swaps_bij [OF ps(1,2) c ps(3) bij])
  have pos: "z_position hf t w b = z_position hf s w b" for w b by (simp add: t_def z_position_def)
  have p0: "ps ! 0 < ?n" using ps nth_mem by fastforce
  have Lc: "?L x = c \<longleftrightarrow> x = ps ! 0" if "x < ?n" for x
    using that p0 bij unfolding c by (auto simp: bij_betw_def inj_on_def)
  have "\<exists>w < za_ways s. x = z_position hf s w (za_array t (?K x))"
    if x: "x < ?n" "za_array t (?K x) \<noteq> 0" for x
  proof (cases "x \<in> set ps")
    case True
    then obtain i where i: "i < length ps" "x = ps ! i" by (auto simp: in_set_conv_nth)
    show ?thesis
    proof (cases "i = length ps - 1")
      case True
      then have "?K x = c" using eqs(1) [OF i(1)] i(2) c by simp
      moreover have "x = last ps" using True i ps(2) by (simp add: last_conv_nth)
      ultimately show ?thesis using path by (auto simp: t_def z_path_ok_def)
    next
      case False
      then have si: "Suc i < length ps" using i(1) by simp
      have K: "?K x = ?L (ps ! Suc i)" using eqs(1) [OF i(1)] i(2) False by simp
      have "ps ! Suc i \<noteq> ps ! 0" using ps(1,2) si by (simp add: nth_eq_iff_index_eq)
      moreover have "ps ! Suc i < ?n" using ps(3) si nth_mem by fastforce
      ultimately have "?K x \<noteq> c" using K Lc by simp
      then show ?thesis using path si K i(2) by (simp add: t_def z_path_ok_def)
    qed
  next
    case False
    then have K: "?K x = ?L x" by (rule eqs(2))
    have "x \<noteq> ps ! 0" using False ps(2) by auto
    then have "?L x \<noteq> c" using Lc x(1) by simp
    then show ?thesis using pl x K by (simp add: t_def z_placed_def)
  qed
  moreover have "i = j" if "i < ?n" "j < ?n" "za_array t i = za_array t j" "za_array t i \<noteq> 0" for i j
    using that pl a(2) [of i] a(2) [of j] by (auto simp: t_def z_placed_def split: if_splits)
  ultimately show ?thesis using bij' by (simp add: z_placed_def pos) (simp add: t_def)
qed

subsection \<open>The invariant of the walk\<close>

definition z_parent_rank :: "zwalk_info \<Rightarrow> nat" where
  "z_parent_rank e = (case z_parentIdx e of None \<Rightarrow> 0 | Some j \<Rightarrow> Suc j)"

definition z_entry_ok :: "hash_family \<Rightarrow> 'r zarray \<Rightarrow> address \<Rightarrow> nat \<Rightarrow> zwalk_info list \<Rightarrow> nat \<Rightarrow> bool"
  where
  "z_entry_ok hf s a f cs k \<longleftrightarrow> (case z_parentIdx (cs ! k) of
       None \<Rightarrow> \<exists>w < za_ways s. z_pos (cs ! k) = z_position hf s w a
     | Some j \<Rightarrow> j < f \<and> j < k \<and>
         (\<exists>w < za_ways s. z_pos (cs ! k) = z_position hf s w (za_array s (z_lineId (cs ! j)))))"

text \<open>
  After the first \<open>f\<close> candidates are expanded: every entry is a position with the line stored
  there; an entry is a position of the incoming address or of the line of its parent; entries
  are in the order of their parents; all other positions of an expanded line are entries.
\<close>

definition z_walk_ok :: "hash_family \<Rightarrow> 'r zarray \<Rightarrow> address \<Rightarrow> nat \<Rightarrow> zwalk_info list \<Rightarrow> bool \<Rightarrow> bool"
  where
  "z_walk_ok hf s a f cs valid \<longleftrightarrow>
     f + za_ways s \<le> length cs
     \<and> (valid \<longrightarrow> (\<forall>e \<in> set cs. za_array s (z_lineId e) \<noteq> 0))
     \<and> (\<forall>e \<in> set cs. z_pos e < za_numLines s \<and> z_lineId e = lookupArray s (z_pos e))
     \<and> sorted (map z_parent_rank cs)
     \<and> (\<forall>k < length cs. z_entry_ok hf s a f cs k)
     \<and> (\<forall>i < f. \<forall>w < za_ways s. let p = z_position hf s w (za_array s (z_lineId (cs ! i))) in
          lookupArray s p \<noteq> z_lineId (cs ! i) \<longrightarrow>
          (\<exists>k < length cs. z_pos (cs ! k) = p \<and> z_parentIdx (cs ! k) = Some i))"

definition z_children :: "hash_family \<Rightarrow> 'r zarray \<Rightarrow> nat \<Rightarrow> nat \<Rightarrow> nat list \<Rightarrow> zwalk_info list" where
  "z_children hf s f lid ws =
     map (\<lambda>w. let p = z_position hf s w (za_array s lid)
              in \<lparr>z_pos = p, z_lineId = lookupArray s p, z_parentIdx = Some f\<rparr>)
       (filter (\<lambda>w. lookupArray s (z_position hf s w (za_array s lid)) \<noteq> lid) ws)"

lemma z_visit_fold:
  "foldl (z_visit hf s f lid) (cs, v) ws =
     (cs @ z_children hf s f lid ws,
      v \<and> (\<forall>w \<in> set ws. za_array s (lookupArray s (z_position hf s w (za_array s lid))) \<noteq> 0))"
  by (induction ws arbitrary: cs v) (auto simp: z_visit_def z_children_def Let_def)

lemma z_children_length:
  assumes "z_geometry s" and "z_placed hf s"
  shows "za_ways s \<le> Suc (length (z_children hf s f lid [0..<za_ways s]))"
proof -
  let ?P = "\<lambda>w. lookupArray s (z_position hf s w (za_array s lid)) \<noteq> lid"
  let ?ws = "[0..<za_ways s]"
  have inj: "inj_on (lookupArray s) {..<za_numLines s}" using assms(2) by (simp add: z_placed_def bij_betw_def)
  have eq: "u = v" if "u \<in> set (filter (\<lambda>w. \<not> ?P w) ?ws)" "v \<in> set (filter (\<lambda>w. \<not> ?P w) ?ws)" for u v
  proof -
    have "z_position hf s u (za_array s lid) = z_position hf s v (za_array s lid)"
      using that z_position_lt [OF assms(1)] inj by (auto simp: inj_on_def)
    then show ?thesis by (rule z_position_inj [OF assms(1)])
  qed
  have "length (filter (\<lambda>w. \<not> ?P w) ?ws) = card (set (filter (\<lambda>w. \<not> ?P w) ?ws))"
    by (rule distinct_card [symmetric]) simp
  also have "\<dots> \<le> Suc 0" using eq by (subst card_le_Suc0_iff_eq) (blast intro: finite_set)+
  finally show ?thesis
    using sum_length_filter_compl [of ?P ?ws] by (simp add: z_children_def)
qed

lemma z_children_rank:
  "map z_parent_rank (z_children hf s f lid ws) = replicate (length (z_children hf s f lid ws)) (Suc f)"
  by (simp add: z_children_def z_parent_rank_def Let_def o_def map_replicate_const)

lemma z_walk_ok_seeds:
  assumes "z_geometry s"
  shows "z_walk_ok hf s a 0 (z_seeds hf s a)
    (list_all (\<lambda>c. za_array s (z_lineId c) \<noteq> 0) (z_seeds hf s a))"
  using z_position_lt [OF assms]
  by (auto simp: z_walk_ok_def z_seeds_def Let_def list_all_iff z_parent_rank_def z_entry_ok_def
      sorted_iff_nth_mono)

lemma z_walk_ok_step:
  assumes geo: "z_geometry s" and pl: "z_placed hf s" and ok: "z_walk_ok hf s a f cs True"
  defines "lid \<equiv> z_lineId (cs ! f)"
  shows "z_walk_ok hf s a (Suc f) (cs @ z_children hf s f lid [0..<za_ways s])
    (\<forall>w \<in> set [0..<za_ways s]. za_array s (lookupArray s (z_position hf s w (za_array s lid))) \<noteq> 0)"
proof -
  let ?ch = "z_children hf s f lid [0..<za_ways s]"
  have f: "f < length cs" using ok geo by (simp add: z_walk_ok_def z_geometry_def)
  have len: "Suc f + za_ways s \<le> length (cs @ ?ch)"
    using ok geo z_children_length [OF geo pl, of f lid] by (simp add: z_walk_ok_def z_geometry_def)
  have ch: "e \<in> set ?ch \<Longrightarrow> z_parentIdx e = Some f \<and> z_lineId e = lookupArray s (z_pos e)
      \<and> (\<exists>w < za_ways s. z_pos e = z_position hf s w (za_array s lid))" for e
    by (auto simp: z_children_def Let_def)
  have prank: "z_parent_rank e \<le> f" if e: "e \<in> set cs" for e
  proof -
    obtain k where "k < length cs" "e = cs ! k" using e by (auto simp: in_set_conv_nth)
    moreover from this have "z_entry_ok hf s a f cs k" using ok by (simp add: z_walk_ok_def)
    ultimately show ?thesis
      by (auto simp: z_parent_rank_def z_entry_ok_def split: option.splits)
  qed
  have old: "z_entry_ok hf s a (Suc f) (cs @ ?ch) k" if k: "k < length (cs @ ?ch)" for k
  proof (cases "k < length cs")
    case True
    then have "z_entry_ok hf s a f cs k" using ok by (simp add: z_walk_ok_def)
    then show ?thesis using True by (auto simp: z_entry_ok_def nth_append split: option.splits)
  next
    case False
    then have "(cs @ ?ch) ! k \<in> set ?ch" using k by (simp add: nth_append)
    with ch have "z_parentIdx ((cs @ ?ch) ! k) = Some f"
      "\<exists>w < za_ways s. z_pos ((cs @ ?ch) ! k) = z_position hf s w (za_array s lid)" by blast+
    then show ?thesis using False f by (simp add: z_entry_ok_def lid_def nth_append)
  qed
  have new: "\<exists>k < length (cs @ ?ch). z_pos ((cs @ ?ch) ! k) = p \<and> z_parentIdx ((cs @ ?ch) ! k) = Some i"
    if i: "i < Suc f" "w < za_ways s" "p = z_position hf s w (za_array s (z_lineId ((cs @ ?ch) ! i)))"
      "lookupArray s p \<noteq> z_lineId ((cs @ ?ch) ! i)" for i w p
  proof (cases "i = f")
    case True
    then have "(cs @ ?ch) ! i = cs ! f" using f by (simp add: nth_append)
    then have "\<lparr>z_pos = p, z_lineId = lookupArray s p, z_parentIdx = Some f\<rparr> \<in> set ?ch"
      using i by (auto simp: z_children_def Let_def lid_def)
    then obtain k where "k < length ?ch" "?ch ! k = \<lparr>z_pos = p, z_lineId = lookupArray s p, z_parentIdx = Some f\<rparr>"
      by (auto simp: in_set_conv_nth)
    then show ?thesis using True by (intro exI [of _ "length cs + k"]) simp
  next
    case False
    then have i': "i < f" "(cs @ ?ch) ! i = cs ! i" using i(1) f by (simp_all add: nth_append)
    then obtain k where "k < length cs" "z_pos (cs ! k) = p" "z_parentIdx (cs ! k) = Some i"
      using ok i unfolding z_walk_ok_def Let_def by metis
    then show ?thesis by (intro exI [of _ k]) (simp add: nth_append)
  qed
  have "sorted (map z_parent_rank (cs @ ?ch))"
    using ok prank by (fastforce simp: z_walk_ok_def sorted_append z_children_rank)
  moreover have "\<forall>e \<in> set (cs @ ?ch). z_pos e < za_numLines s \<and> z_lineId e = lookupArray s (z_pos e)"
    using ok ch z_position_lt [OF geo] by (fastforce simp: z_walk_ok_def)
  moreover have "za_array s (z_lineId e) \<noteq> 0"
    if "\<forall>w \<in> set [0..<za_ways s]. za_array s (lookupArray s (z_position hf s w (za_array s lid))) \<noteq> 0"
      "e \<in> set (cs @ ?ch)" for e
    using that ok ch by (fastforce simp: z_walk_ok_def)
  ultimately show ?thesis
    unfolding z_walk_ok_def Let_def using len old new by blast
qed

text \<open>Every round adds a candidate, so the walk ends.\<close>

lemma z_walk_spec:
  assumes "z_geometry s" and "z_placed hf s" and "z_walk_ok hf s a f cs valid"
  shows "\<exists>f' cs' valid'. z_walk hf s f cs valid = Some (Inr (cs', valid'))
    \<and> z_walk_ok hf s a f' cs' valid' \<and> (valid' \<longrightarrow> za_cands s \<le> length cs')"
  using assms(3)
proof (induction "za_cands s - length cs" arbitrary: f cs valid rule: less_induct)
  case less
  show ?case
  proof (cases "length cs < za_cands s \<and> valid")
    case False
    then show ?thesis using less.prems by (subst z_walk.simps) auto
  next
    case True
    let ?lid = "z_lineId (cs ! f)" and ?ws = "[0..<za_ways s]"
    let ?ch = "z_children hf s f ?lid ?ws"
    let ?v = "\<forall>w \<in> set ?ws. za_array s (lookupArray s (z_position hf s w (za_array s ?lid))) \<noteq> 0"
    have f: "f < length cs" using less.prems assms(1) by (simp add: z_walk_ok_def z_geometry_def)
    then have "za_array s ?lid \<noteq> 0"
      using less.prems True nth_mem [of f cs] unfolding z_walk_ok_def by blast
    then have unfold: "z_walk hf s f cs valid = z_walk hf s (Suc f) (cs @ ?ch) ?v"
      using True f by (subst z_walk.simps) (simp add: Let_def z_visit_fold)
    have "0 < length ?ch" (is "0 < ?n")
      using z_children_length [OF assms(1,2), of f ?lid] assms(1) unfolding z_geometry_def by linarith
    moreover have "z_walk_ok hf s a (Suc f) (cs @ ?ch) ?v"
      using less.prems True by (intro z_walk_ok_step [OF assms(1,2)]) simp
    moreover have "za_cands s - length (cs @ ?ch) < za_cands s - length cs"
      using True \<open>0 < ?n\<close> by (simp only: length_append) linarith
    ultimately show ?thesis
      unfolding unfold by (intro less.hyps)
  qed
qed

definition z_first :: "zwalk_info list \<Rightarrow> nat \<Rightarrow> bool" where
  "z_first cs k \<longleftrightarrow> (\<forall>i < k. z_lineId (cs ! i) \<noteq> z_lineId (cs ! k))"

text \<open>
  The reason for the search for the minimum index: when a candidate is the first entry of its
  line, so is its parent, and hence the path visits no position twice.
\<close>

lemma z_parent_first:
  assumes ok: "z_walk_ok hf s a f cs v" and k: "k < length cs" "z_first cs k"
    and j: "z_parentIdx (cs ! k) = Some j"
  shows "j < k \<and> z_first cs j"
proof -
  from ok k(1) have "z_entry_ok hf s a f cs k" by (simp add: z_walk_ok_def)
  with j obtain w where w: "j < f" "j < k" "w < za_ways s"
    "z_pos (cs ! k) = z_position hf s w (za_array s (z_lineId (cs ! j)))"
    by (auto simp: z_entry_ok_def)
  have lid: "z_lineId (cs ! k) = lookupArray s (z_pos (cs ! k))" using ok k(1) by (simp add: z_walk_ok_def)
  have "z_lineId (cs ! i) \<noteq> z_lineId (cs ! j)" if i: "i < j" for i
  proof
    assume same: "z_lineId (cs ! i) = z_lineId (cs ! j)"
    let ?p = "z_position hf s w (za_array s (z_lineId (cs ! i)))"
    have p: "?p = z_pos (cs ! k)" using w(4) same by simp
    have "i < f" using i w(1) by simp
    moreover have "lookupArray s ?p \<noteq> z_lineId (cs ! i)"
      using p lid same k(2) w(2) by (auto simp: z_first_def)
    ultimately obtain k' where k': "k' < length cs" "z_pos (cs ! k') = ?p" "z_parentIdx (cs ! k') = Some i"
      using ok w(3) unfolding z_walk_ok_def Let_def by metis
    have srt: "sorted (map z_parent_rank cs)" using ok by (simp add: z_walk_ok_def)
    have "\<not> k \<le> k'"
    proof
      assume "k \<le> k'"
      with srt k'(1) have "z_parent_rank (cs ! k) \<le> z_parent_rank (cs ! k')"
        by (auto simp: sorted_iff_nth_mono)
      then show False using k'(3) j i by (simp add: z_parent_rank_def)
    qed
    moreover have "z_lineId (cs ! k') = z_lineId (cs ! k)"
      using ok k'(1,2) p lid by (simp add: z_walk_ok_def)
    ultimately show False using k(2) by (simp add: z_first_def)
  qed
  then show ?thesis using w(2) by (simp add: z_first_def)
qed

lemma z_path_take:
  assumes "z_walk_ok hf s a f cs v" and "k < n" and "n \<le> length cs"
  shows "z_path (take n cs) k = z_path cs k"
  using assms(2)
proof (induction k rule: less_induct)
  case (less k)
  show ?case
    by (subst (1 2) z_path.simps) (use less assms(3) in \<open>auto split: option.split\<close>)
qed

lemma z_path_correct:
  assumes ok: "z_walk_ok hf s a f cs v" and "k < length cs" and "z_first cs k"
  shows "z_path_ok hf s a (z_path cs k)
    \<and> set (z_path cs k) \<subseteq> {z_pos (cs ! i) | i. i \<le> k} \<and> hd (z_path cs k) = z_pos (cs ! k)"
  using assms(2,3)
proof (induction k rule: less_induct)
  case (less k)
  have pos: "z_pos (cs ! k) < za_numLines s" using ok less.prems(1) by (simp add: z_walk_ok_def)
  have lid: "z_lineId (cs ! i) = lookupArray s (z_pos (cs ! i))" if "i \<le> k" for i
    using ok less.prems(1) that by (simp add: z_walk_ok_def)
  have entry: "z_entry_ok hf s a f cs k" using ok less.prems(1) by (simp add: z_walk_ok_def)
  show ?case
  proof (cases "z_parentIdx (cs ! k)")
    case None
    then have "z_path cs k = [z_pos (cs ! k)]" by (subst z_path.simps) simp
    then show ?thesis using None entry pos by (auto simp: z_path_ok_def z_entry_ok_def)
  next
    case (Some j)
    with z_parent_first [OF ok less.prems] have j: "j < k" "z_first cs j" by auto
    with less.prems have IH: "z_path_ok hf s a (z_path cs j)"
      "set (z_path cs j) \<subseteq> {z_pos (cs ! i) | i. i \<le> j}" "hd (z_path cs j) = z_pos (cs ! j)"
      using less.IH [of j] by simp_all
    have path: "z_path cs k = z_pos (cs ! k) # z_path cs j"
      by (subst z_path.simps) (simp add: Some j)
    have ne: "z_path cs j \<noteq> []" using IH(1) by (simp add: z_path_ok_def)
    then have first: "z_path cs j ! 0 = z_pos (cs ! j)" using IH(3) by (simp add: hd_conv_nth)
    have fresh: "z_pos (cs ! k) \<notin> set (z_path cs j)"
    proof
      assume "z_pos (cs ! k) \<in> set (z_path cs j)"
      then obtain i where "i \<le> j" "z_pos (cs ! k) = z_pos (cs ! i)" using IH(2) by auto
      then show False using j(1) lid [of i] lid [of k] less.prems(2) by (auto simp: z_first_def)
    qed
    have link: "\<exists>w < za_ways s. z_pos (cs ! k) =
        z_position hf s w (za_array s (lookupArray s (z_path cs j ! 0)))"
      using entry Some lid [of j] j(1) first by (simp add: z_entry_ok_def)
    have "z_path_ok hf s a (z_path cs k)"
      unfolding z_path_ok_def path
      using IH(1) ne fresh pos link by (auto simp: z_path_ok_def nth_Cons split: nat.split)
    moreover have "set (z_path cs k) \<subseteq> {z_pos (cs ! i) | i. i \<le> k}"
      using IH(2) j(1) unfolding path by force
    ultimately show ?thesis by (simp add: path)
  qed
qed

subsection \<open>The array contract, for any replacement policy\<close>

definition z_wf :: "('r \<Rightarrow> nat) \<Rightarrow> (nat list \<Rightarrow> 'r \<Rightarrow> bool) \<Rightarrow> hash_family \<Rightarrow> 'r zarray \<Rightarrow> bool" where
  "z_wf lines cands_ok hf s \<longleftrightarrow> z_geometry s \<and> z_placed hf s \<and> za_numLines s \<le> lines (za_rp s)
     \<and> (\<forall>cs. cs \<noteq> [] \<and> set cs \<subseteq> {..<za_numLines s} \<longrightarrow> cands_ok cs (za_rp s))"

definition z_pending :: "hash_family \<Rightarrow> address \<Rightarrow> nat \<Rightarrow> 'r zarray \<Rightarrow> bool" where
  "z_pending hf a l s \<longleftrightarrow> z_path_ok hf s a (swapArray s) \<and> lookupArray s (swapArray s ! 0) = l"

lemma zarray_upd [simp]:
  "z_position hf (s\<lparr>za_rp := r\<rparr>) w a = z_position hf s w a"
  "z_find hf a (s\<lparr>za_rp := r\<rparr>) = z_find hf a s"
  "z_geometry (s\<lparr>za_rp := r\<rparr>) = z_geometry s"
  "z_placed hf (s\<lparr>za_rp := r\<rparr>) = z_placed hf s"
  "z_path_ok hf (s\<lparr>za_rp := r\<rparr>) a ps = z_path_ok hf s a ps"
  "z_pending hf a l (s\<lparr>za_rp := r\<rparr>) = z_pending hf a l s"
  by (simp_all add: z_position_def z_find_def z_geometry_def z_placed_def z_path_ok_def z_pending_def)

lemma zarray_upd2 [simp]:
  "z_position hf (s\<lparr>lastCandIdx := i\<rparr>) w a = z_position hf s w a"
  "z_position hf (s\<lparr>swapArray := ps\<rparr>) w a = z_position hf s w a"
  "z_find hf a (s\<lparr>lastCandIdx := i\<rparr>) = z_find hf a s"
  "z_find hf a (s\<lparr>swapArray := ps\<rparr>) = z_find hf a s"
  "z_geometry (s\<lparr>lastCandIdx := i\<rparr>) = z_geometry s"
  "z_geometry (s\<lparr>swapArray := ps\<rparr>) = z_geometry s"
  "z_placed hf (s\<lparr>lastCandIdx := i\<rparr>) = z_placed hf s"
  "z_placed hf (s\<lparr>swapArray := ps\<rparr>) = z_placed hf s"
  "z_path_ok hf (s\<lparr>lastCandIdx := i\<rparr>) a qs = z_path_ok hf s a qs"
  "z_path_ok hf (s\<lparr>swapArray := ps\<rparr>) a qs = z_path_ok hf s a qs"
  by (simp_all add: z_position_def z_find_def z_geometry_def z_placed_def z_path_ok_def)

text \<open>What \<open>preinsert\<close> does once the policy ranks one of the candidates.\<close>

lemma z_preinsert_spec:
  assumes geo: "z_geometry s" and pl: "z_placed hf s"
    and rank: "\<And>cs. cs \<noteq> [] \<Longrightarrow> set cs \<subseteq> {..<za_numLines s} \<Longrightarrow>
      \<exists>c r. rp_rank rp cc req cs (za_rp s) = Some (c, r) \<and> c \<in> set cs \<and> Q c r"
  shows "\<exists>c r i ps. z_preinsert rp hf cc a req s
      = Inr (c, za_array s c, s\<lparr>za_rp := r, lastCandIdx := i, swapArray := ps\<rparr>)
    \<and> c < za_numLines s \<and> z_path_ok hf s a ps \<and> lookupArray s (ps ! 0) = c \<and> Q c r"
proof -
  let ?seeds = "z_seeds hf s a"
  let ?v = "list_all (\<lambda>c. za_array s (z_lineId c) \<noteq> 0) ?seeds"
  obtain f cs v where walk: "z_walk hf s 0 ?seeds ?v = Some (Inr (cs, v))"
    "z_walk_ok hf s a f cs v" "v \<longrightarrow> za_cands s \<le> length cs"
    using z_walk_spec [OF geo pl z_walk_ok_seeds [OF geo, of hf a]] by blast
  let ?t = "take (za_cands s) cs"
  have t: "?t \<noteq> []" "set (map z_lineId ?t) \<subseteq> {..<za_numLines s}"
    using walk(2) geo lookupArray_lt [OF pl]
    by (auto simp: z_walk_ok_def z_geometry_def dest!: in_set_takeD)
  with rank [of "map z_lineId ?t"] obtain c r where
    r: "rp_rank rp cc req (map z_lineId ?t) (za_rp s) = Some (c, r)" "c \<in> set (map z_lineId ?t)" "Q c r"
    by auto
  define k where "k = length (takeWhile (\<lambda>e. z_lineId e \<noteq> c) ?t)"
  have k: "k < length ?t" "z_lineId (?t ! k) = c" "\<forall>i < k. z_lineId (?t ! i) \<noteq> c"
    using r(2) takeWhile_first [of _ ?t "\<lambda>e. z_lineId e \<noteq> c"] unfolding k_def by auto
  have klt: "k < length cs" "k < za_cands s" using k(1) by simp_all
  then have first: "z_first cs k" using k by (simp add: z_first_def)
  have path: "z_path ?t k = z_path cs k"
    using z_path_take [OF walk(2), of k "za_cands s"] klt
    by (cases "length cs \<le> za_cands s") simp_all
  have ok: "z_path_ok hf s a (z_path cs k)" "hd (z_path cs k) = z_pos (cs ! k)"
    using z_path_correct [OF walk(2) klt(1) first] by auto
  then have "z_path cs k ! 0 = z_pos (cs ! k)" by (simp add: hd_conv_nth z_path_ok_def)
  moreover have "lookupArray s (z_pos (cs ! k)) = c"
    using walk(2) klt k(2) by (simp add: z_walk_ok_def)
  moreover have "c < za_numLines s" using r(2) t(2) by blast
  ultimately show ?thesis
    using walk r k(1) ok(1) path unfolding z_preinsert_def
    by (intro exI [of _ c] exI [of _ r] exI [of _ k] exI [of _ "z_path cs k"])
      (simp add: Let_def k_def [symmetric])
qed

locale zcache_array = repl_policy +
  fixes hf :: hash_family
begin

abbreviation "methods \<equiv> \<lparr>rp_update = update, rp_replaced = replaced, rp_rank = rank\<rparr>"

abbreviation "well \<equiv> z_wf lines cands_ok hf"

lemma well_rp:
  "well s \<Longrightarrow> lines r = lines (za_rp s) \<Longrightarrow> (\<And>cs. cands_ok cs r = cands_ok cs (za_rp s)) \<Longrightarrow>
     well (s\<lparr>za_rp := r\<rparr>)"
  by (simp add: z_wf_def)

lemma find_line: "well s \<Longrightarrow> z_find hf a s = Some lid \<Longrightarrow> lid < lines (za_rp s) \<and> lid < za_numLines s"
  using z_find_lt by (fastforce simp: z_wf_def)

lemma lookup_law:
  assumes "well s" and "a \<noteq> 0"
    and up: "\<And>lid r. lid < lines (za_rp s) \<Longrightarrow> P (za_rp s) \<Longrightarrow> P (update lid r (za_rp s))" and "P (za_rp s)"
  shows "\<exists>s'. a_lookup (z_ops methods hf) a r (u \<and> r \<noteq> None) s = Inr (z_find hf a s, s')
      \<and> (well s' \<and> P (za_rp s') \<and> (z_pending hf c l s \<longrightarrow> z_pending hf c l s')) \<and> za_array s' = za_array s
      \<and> (\<forall>b. z_find hf b s' = z_find hf b s) \<and> za_numLines s' = za_numLines s"
  using find_line [of s a] assms
  by (auto simp: z_ops_def z_lookup_def update_lines cands_ok_update
      intro!: well_rp up split: option.split)

sublocale arr: cache_array "z_ops methods hf" "z_find hf" za_array za_numLines
  "\<lambda>s. well s \<and> ready (za_rp s)"
  "\<lambda>a l s. well s \<and> pending l (za_rp s) \<and> z_pending hf a l s"
  "\<lambda>a. a \<noteq> 0"
proof unfold_locales
  fix a s l b k
  assume "z_find hf a s = Some l"
    and "well s \<and> ready (za_rp s) \<or> well s \<and> pending k (za_rp s) \<and> z_pending hf b k s"
  then show "za_array s l = a" using z_find_Some by blast
next
  fix a s l b k
  assume "z_find hf a s = Some l"
    and "well s \<and> ready (za_rp s) \<or> well s \<and> pending k (za_rp s) \<and> z_pending hf b k s"
  then show "l < za_numLines s" using find_line by blast
next
  fix s a r u
  assume "well s \<and> ready (za_rp s)" and "a \<noteq> (0 :: address)"
  then show "\<exists>s'. a_lookup (z_ops methods hf) a r (u \<and> r \<noteq> None) s = Inr (z_find hf a s, s')
      \<and> (well s' \<and> ready (za_rp s')) \<and> za_array s' = za_array s
      \<and> (\<forall>b. z_find hf b s' = z_find hf b s) \<and> za_numLines s' = za_numLines s"
    using lookup_law [of s a ready] update_ready by blast
next
  fix c l s a r u
  assume "well s \<and> pending l (za_rp s) \<and> z_pending hf c l s" and "a \<noteq> (0 :: address)"
  then show "\<exists>s'. a_lookup (z_ops methods hf) a r (u \<and> r \<noteq> None) s = Inr (z_find hf a s, s')
      \<and> (well s' \<and> pending l (za_rp s') \<and> z_pending hf c l s') \<and> za_array s' = za_array s
      \<and> (\<forall>b. z_find hf b s' = z_find hf b s) \<and> za_numLines s' = za_numLines s"
    using lookup_law [of s a "pending l"] update_pending by blast
next
  fix s a cc req
  assume s: "well s \<and> ready (za_rp s)" and "a \<noteq> (0 :: address)"
  have rank: "\<exists>c r. rp_rank methods cc req cs (za_rp s) = Some (c, r) \<and> c \<in> set cs
      \<and> (pending c r \<and> lines r = lines (za_rp s) \<and> (\<forall>cs. cands_ok cs r = cands_ok cs (za_rp s)))"
    if "cs \<noteq> []" "set cs \<subseteq> {..<za_numLines s}" for cs
  proof -
    have ok: "cands_ok cs (za_rp s)" using s that by (simp add: z_wf_def)
    from s ok show ?thesis using rank_some [of "za_rp s" cs cc req] by fastforce
  qed
  from s have "z_geometry s" "z_placed hf s" by (simp_all add: z_wf_def)
  from z_preinsert_spec [OF this rank, of a] obtain c r i ps where
    pre: "z_preinsert methods hf cc a req s
      = Inr (c, za_array s c, s\<lparr>za_rp := r, lastCandIdx := i, swapArray := ps\<rparr>)"
      "c < za_numLines s" "z_path_ok hf s a ps" "lookupArray s (ps ! 0) = c" "pending c r"
      "lines r = lines (za_rp s)" "\<And>cs. cands_ok cs r = cands_ok cs (za_rp s)"
    by blast
  then show "\<exists>l s'. a_preinsert (z_ops methods hf) cc a req s = Inr (l, za_array s l, s')
      \<and> (well s' \<and> pending l (za_rp s') \<and> z_pending hf a l s') \<and> l < za_numLines s
      \<and> za_array s' = za_array s \<and> (\<forall>b. z_find hf b s' = z_find hf b s)
      \<and> za_numLines s' = za_numLines s"
    using s by (simp add: z_ops_def z_wf_def z_pending_def)
next
  fix a l s req
  assume s: "well s \<and> pending l (za_rp s) \<and> z_pending hf a l s" and a: "a \<noteq> (0 :: address)"
    and none: "z_find hf a s = None"
  let ?ps = "swapArray s" and ?L = "lookupArray s"
  let ?m = "s\<lparr>lookupArray := z_swaps ?ps l ?L, za_array := (za_array s)(l := a)\<rparr>"
  let ?r = "update l req (replaced l (za_rp s))"
  have geo: "z_geometry s" and pl: "z_placed hf s" using s by (simp_all add: z_wf_def)
  have path: "z_path_ok hf s a ?ps" "l = ?L (?ps ! 0)" using s by (simp_all add: z_pending_def)
  then have ne: "?ps \<noteq> []" by (simp add: z_path_ok_def)
  then have "?ps ! 0 \<in> set ?ps" by simp
  then have "?ps ! 0 < za_numLines s" using path(1) unfolding z_path_ok_def by blast
  then have l: "l < za_numLines s" using lookupArray_lt [OF pl] path(2) by simp
  have absent: "za_array s k \<noteq> a" if "k < za_numLines s" for k
    using that none z_find_iff [OF geo pl a] by auto
  have pl': "z_placed hf ?m" by (rule z_insert_placed [OF geo pl path(1,2) a absent])
  have geo': "z_geometry ?m" using geo by (simp add: z_geometry_def)
  note find' = z_find_iff [OF geo' pl'] and find = z_find_iff [OF geo pl]
  define t where "t = s\<lparr>lookupArray := z_swaps ?ps l ?L, za_array := (za_array s)(l := a), za_rp := ?r,
    statSwaps := statSwaps s + of_nat (length ?ps - 1)\<rparr>"
  have t: "z_geometry t = z_geometry ?m" "z_placed hf t = z_placed hf ?m" "z_find hf b t = z_find hf b ?m" for b
    by (simp_all add: t_def z_geometry_def z_placed_def z_find_def z_position_def)
  have well: "well t"
    using s geo' pl' by (simp add: z_wf_def t) (simp add: t_def insert_lines cands_ok_update cands_ok_replaced)
  have post: "a_postinsert (z_ops methods hf) a req l s = Inr t"
    using ne path(2) by (simp add: z_ops_def z_postinsert_def t_def)
  have new: "z_find hf a t = Some l" using find' [OF a] l by (simp add: t)
  have some: "z_find hf b t = Some i" if "b \<noteq> 0" "b \<noteq> a" "z_find hf b s = Some i" "i \<noteq> l" for b i
    using that find [OF that(1)] find' [OF that(1)] by (simp add: t)
  have none: "z_find hf b t = None" if "b \<noteq> 0" "b \<noteq> a" "z_find hf b s = None" for b
  proof (rule ccontr)
    assume "z_find hf b t \<noteq> None"
    then obtain i where "z_find hf b t = Some i" by blast
    then show False using that find [OF that(1)] find' [OF that(1)] by (auto simp: t split: if_splits)
  qed
  have "ready (za_rp t)" using s by (simp add: t_def insert_ready)
  then show "\<exists>s'. a_postinsert (z_ops methods hf) a req l s = Inr s' \<and> (well s' \<and> ready (za_rp s'))
      \<and> z_find hf a s' = Some l \<and> za_array s' = (za_array s)(l := a)
      \<and> za_numLines s' = za_numLines s
      \<and> (\<forall>b i. b \<noteq> 0 \<longrightarrow> b \<noteq> a \<longrightarrow> z_find hf b s = Some i \<longrightarrow> i \<noteq> l \<longrightarrow> z_find hf b s' = Some i)
      \<and> (\<forall>b. b \<noteq> 0 \<longrightarrow> b \<noteq> a \<longrightarrow> z_find hf b s = None \<longrightarrow> z_find hf b s' = None)"
    using post well new some none by (intro exI [of _ t]) (auto simp: t_def)
qed

end

interpretation z_lru: zcache_array lru_update lru_replaced "lru_rank sa" "\<lambda>_. True"
  "\<lambda>_ _. True" lru_numLines "\<lambda>cands _. cands \<noteq> []" hf for sa hf ..

interpretation z_nru: zcache_array nru_update nru_replaced nru_rank
  "\<lambda>p. nru_bits p \<and> nru_idle p" "\<lambda>_. nru_bits" nru_numLines "\<lambda>cands _. cands \<noteq> []" hf for hf ..

interpretation z_lfu: zcache_array lfu_update lfu_replaced lfu_rank "\<lambda>p. bestCandidate p = None"
  "\<lambda>_ _. True" lfu_numLines "\<lambda>cands _. cands \<noteq> []" hf for hf ..

lemma zarray_init_wf:
  assumes "zarray_init nl ways n r = Inr s" and "nl < 2 ^ 32" and "nl \<le> lines r"
    and "\<And>cs. cs \<noteq> [] \<Longrightarrow> cands_ok cs r"
  shows "z_wf lines cands_ok hf s"
proof -
  from assms(1) have g: "1 < ways" "ways \<le> n" "nl mod ways = 0" "isPow2 (of_nat (nl div ways) :: u32)"
    and s: "s = \<lparr>za_array = (\<lambda>_. 0), lookupArray = (\<lambda>i. i), za_rp = r, za_numLines = nl,
                za_numSets = nl div ways, za_ways = ways, za_cands = n,
                za_setMask = of_nat (nl div ways) - 1, swapArray = [], lastCandIdx = 0, statSwaps = 0\<rparr>"
    by (auto simp: zarray_init_def Let_def res_simps)
  have "nl div ways * ways = nl" using g(3) by (simp add: minus_mod_eq_div_mult [symmetric])
  moreover have "unat (of_nat (nl div ways) - 1 :: u32) < nl div ways"
    by (rule set_mask_lt [OF g(4) le_less_trans [OF div_le_dividend assms(2)]])
  ultimately have "z_geometry s" using g by (simp add: z_geometry_def s)
  moreover have "z_placed hf s" by (simp add: z_placed_def s bij_betw_def)
  ultimately show ?thesis using assms(3,4) by (simp add: z_wf_def s)
qed

subsection \<open>Properties\<close>

text \<open>
  C5. A miss in a zcache with LRU replacement. The walk ends with a victim, the relocation along
  the path makes the new address visible at the victim's line, and every other address is found
  exactly as before: the lines that moved to another way are found at their new position, and
  the evicted address is no longer found.
\<close>

theorem zcache_insert_relocates:
  assumes "z_wf lru_numLines (\<lambda>cands _. cands \<noteq> []) hf s"
    and "a \<noteq> 0" and "z_find hf a s = None"
  shows "\<exists>l s1 s2. z_preinsert (lru_ops sa) hf cc a req s = Inr (l, za_array s l, s1)
    \<and> z_postinsert (lru_ops sa) a req l s1 = Inr s2
    \<and> z_wf lru_numLines (\<lambda>cands _. cands \<noteq> []) hf s2
    \<and> z_find hf a s2 = Some l
    \<and> (\<forall>b. b \<noteq> 0 \<longrightarrow> b \<noteq> a \<longrightarrow>
         z_find hf b s2 = (if z_find hf b s = Some l then None else z_find hf b s))"
proof -
  obtain l s1 s2 where m: "z_preinsert (lru_ops sa) hf cc a req s = Inr (l, za_array s l, s1)"
    "z_postinsert (lru_ops sa) a req l s1 = Inr s2"
    "z_wf lru_numLines (\<lambda>cands _. cands \<noteq> []) hf s2" "z_find hf a s2 = Some l"
    "za_array s2 = (za_array s)(l := a)" "za_numLines s2 = za_numLines s"
    by (rule z_lru.arr.miss_then_hit [of hf s a sa cc req]) (use assms in \<open>auto simp: z_ops_def\<close>)
  have iff: "z_find hf b t = Some i \<longleftrightarrow> i < za_numLines t \<and> za_array t i = b"
    if "z_wf lru_numLines (\<lambda>cands _. cands \<noteq> []) hf t" "b \<noteq> 0" for t b i
    using z_find_iff [of t hf b i] that by (simp add: z_wf_def)
  have "z_find hf b s2 = (if z_find hf b s = Some l then None else z_find hf b s)"
    if b: "b \<noteq> 0" "b \<noteq> a" for b
  proof (rule option_ext)
    fix i
    show "z_find hf b s2 = Some i \<longleftrightarrow>
        (if z_find hf b s = Some l then None else z_find hf b s) = Some i"
    proof (cases "z_find hf b s = Some l")
      case True
      then have "z_find hf b s = Some i \<longleftrightarrow> i = l" by auto
      then show ?thesis using True iff [OF m(3) b(1), of i] iff [OF assms(1) b(1), of i] b(2) m(5,6)
        by auto
    next
      case False
      then show ?thesis using iff [OF m(3) b(1), of i] iff [OF assms(1) b(1), of i] iff [OF assms(1) b(1), of l] b(2) m(5,6)
        by auto
    qed
  qed
  with m show ?thesis by blast
qed

theorem zcache_insert_relocates_witness:
  "\<forall>cc req. \<exists>s l s1 s2. zarray_init 8 2 6 (lru_init 8) = Inr s
    \<and> z_preinsert (lru_ops True) (\<lambda>w v. v + of_nat w) cc 5 req s = Inr (l, za_array s l, s1)
    \<and> z_postinsert (lru_ops True) 5 req l s1 = Inr s2
    \<and> z_find (\<lambda>w v. v + of_nat w) 5 s2 = Some l"
  (is "\<forall>cc req. ?P cc req")
proof (intro allI)
  fix cc req
  let ?hf = "\<lambda>w v. v + of_nat w :: u64"
  obtain s where s: "zarray_init 8 2 6 (lru_init 8) = Inr s"
    by (simp add: zarray_init_def Let_def isPow2_def)
  have wf: "z_wf lru_numLines (\<lambda>cands _. cands \<noteq> []) ?hf s"
    by (rule zarray_init_wf [OF s]) (simp_all add: lru_init_def)
  have "za_array s l = 0" for l
    using s by (auto simp: zarray_init_def Let_def res_simps)
  then have none: "z_find ?hf 5 s = None" by (simp add: z_find_def find_None_iff)
  show "?P cc req" using zcache_insert_relocates [OF wf _ none, of True cc req] s by auto
qed

end
