(* ===== verification/MesiCC.thy ===== *)
theory MesiCC
  imports HierState
begin

section \<open>MESI coherence controllers\<close>

text \<open>
  coherence_ctrls.h and coherence_ctrls.cpp. The virtual calls of the controllers are the
  function arguments \<open>acc\<close> (\<open>MemObject::access\<close>) and \<open>invl\<close> (\<open>BaseCache::invalidate\<close>), which a
  hierarchy ties to its own caches and memories. Names of the code that occur in more than
  one class carry a prefix: \<open>bcc_\<close> for MESIBottomCC, \<open>tcc_\<close> for MESITopCC, \<open>mesi_\<close> for MESICC
  and \<open>term_\<close> for MESITerminalCC.
\<close>

subsection \<open>The bottom controller\<close>

definition parent_hash :: "address \<Rightarrow> u32" where
  "parent_hash a =
     foldl (\<lambda>res i. res XOR ucast ((0xffff :: u64) AND drop_bit (16 * i) a)) 0 [0..<4]"

definition getParentId :: "cache_cfg \<Rightarrow> address \<Rightarrow> nat" where
  "getParentId cfg a = unat (parent_hash a) mod length (parents cfg)"

definition bcc_isValid :: "nat \<Rightarrow> nat \<Rightarrow> ('a, 'm) hier \<Rightarrow> bool" where
  "bcc_isValid c l h \<longleftrightarrow> get_state h (c, l) \<noteq> I"

definition bcc_isExclusive :: "nat \<Rightarrow> nat \<Rightarrow> ('a, 'm) hier \<Rightarrow> bool" where
  "bcc_isExclusive c l h \<longleftrightarrow> get_state h (c, l) = E \<or> get_state h (c, l) = M"

definition bcc_request :: "cache_cfg \<Rightarrow> nat \<Rightarrow> address \<Rightarrow> access_type \<Rightarrow> state_ref \<Rightarrow> u64 \<Rightarrow>
    u32 \<Rightarrow> u32 \<Rightarrow> address \<Rightarrow> ('a, 'm) hier \<Rightarrow> mem_req" where
  "bcc_request cfg c a t r cyc src fl p h =
     \<lparr>lineAddr = a, r_type = t, childId = selfId cfg, state_ptr = r, cycle = cyc,
      childLock = Some (BccLock c), initialState = get_state h r, srcId = src, flags = fl, pc = p\<rparr>"

definition bcc_processEviction :: "('a, 'm) access_fun \<Rightarrow> cache_cfg \<Rightarrow> nat \<Rightarrow> address \<Rightarrow> nat \<Rightarrow>
    bool \<Rightarrow> u64 \<Rightarrow> u32 \<Rightarrow> address \<Rightarrow> ('a, 'm) hier \<Rightarrow> (u64 \<times> ('a, 'm) hier) res" where
  "bcc_processEviction acc cfg c wb l lowerLevelWriteback cyc src p h =
     assert_then (lowerLevelWriteback \<longrightarrow> get_state h (c, l) = M \<or> get_state h (c, l) = E)
       (let h1 = (if lowerLevelWriteback then set_state (c, l) M h else h);
            par = parents cfg ! getParentId cfg wb;
            put = (\<lambda>t. acc par (bcc_request cfg c wb t (c, l) cyc src 0 p h1) h1)
        in rbind (case get_state h1 (c, l) of
               I \<Rightarrow> Inr (cyc, h1)
             | S \<Rightarrow> put PUTS
             | E \<Rightarrow> put PUTS
             | M \<Rightarrow> put PUTX)
           (\<lambda>(resp, h2). assert_then (get_state h2 (c, l) = I) (Inr (resp, h2))))"

text \<open>
  A miss asks the parent. The latency of the next level is truncated to 32 bits, as in the
  code, and the network latency is added in 32 bits.
\<close>

definition bcc_fetch :: "('a, 'm) access_fun \<Rightarrow> cache_cfg \<Rightarrow> nat \<Rightarrow> address \<Rightarrow> nat \<Rightarrow>
    access_type \<Rightarrow> u64 \<Rightarrow> u32 \<Rightarrow> u32 \<Rightarrow> address \<Rightarrow> ('a, 'm) hier \<Rightarrow> (u64 \<times> ('a, 'm) hier) res" where
  "bcc_fetch acc cfg c a l t cyc src fl p h =
     (let parentId = getParentId cfg a
      in rbind (acc (parents cfg ! parentId) (bcc_request cfg c a t (c, l) cyc src fl p h) h)
        (\<lambda>(resp, h1).
          let nextLevelLat = ucast (resp - cyc) :: u32;
              netLat = parentRTTs cfg ! parentId
          in Inr (cyc + ucast (nextLevelLat + netLat),
               upd_prof c (\<lambda>q. q\<lparr>profGETNextLevelLat := profGETNextLevelLat q + ucast nextLevelLat,
                                 profGETNetLat := profGETNetLat q + ucast netLat\<rparr>) h1)))"

definition bcc_processAccess :: "('a, 'm) access_fun \<Rightarrow> cache_cfg \<Rightarrow> nat \<Rightarrow> address \<Rightarrow> nat \<Rightarrow>
    access_type \<Rightarrow> u64 \<Rightarrow> u32 \<Rightarrow> u32 \<Rightarrow> address \<Rightarrow> ('a, 'm) hier \<Rightarrow> (u64 \<times> ('a, 'm) hier) res" where
  "bcc_processAccess acc cfg c a l t cyc src fl p h =
     (let s = get_state h (c, l) in
      rbind (case t of
          PUTS \<Rightarrow> assert_then (s \<noteq> I)
            (Inr (cyc, upd_prof c (\<lambda>q. q\<lparr>profPUTS := profPUTS q + 1\<rparr>) h))
        | PUTX \<Rightarrow> assert_then (s = M \<or> s = E)
            (Inr (cyc, upd_prof c (\<lambda>q. q\<lparr>profPUTX := profPUTX q + 1\<rparr>)
               (if s = E then set_state (c, l) M h else h)))
        | GETS \<Rightarrow> if s = I then
            rbind (bcc_fetch acc cfg c a l GETS cyc src fl p h) (\<lambda>(resp, h1).
              assert_then (get_state h1 (c, l) = S \<or> get_state h1 (c, l) = E)
                (Inr (resp, upd_prof c (\<lambda>q. q\<lparr>profGETSMiss := profGETSMiss q + 1\<rparr>) h1)))
            else Inr (cyc, upd_prof c (\<lambda>q. q\<lparr>profGETSHit := profGETSHit q + 1\<rparr>) h)
        | GETX \<Rightarrow> rbind (if s = I \<or> s = S then
              bcc_fetch acc cfg c a l GETX cyc src fl p
                (upd_prof c (\<lambda>q. if s = I then q\<lparr>profGETXMissIM := profGETXMissIM q + 1\<rparr>
                                 else q\<lparr>profGETXMissSM := profGETXMissSM q + 1\<rparr>) h)
            else Inr (cyc, upd_prof c (\<lambda>q. q\<lparr>profGETXHit := profGETXHit q + 1\<rparr>)
                   (if s = E then set_state (c, l) M h else h)))
            (\<lambda>(resp, h1). assert_then (get_state h1 (c, l) = M) (Inr (resp, h1))))
        (\<lambda>(resp, h1). assert_then (cyc \<le> resp) (Inr (resp, h1))))"

definition bcc_processWritebackOnAccess :: "nat \<Rightarrow> nat \<Rightarrow> ('a, 'm) hier \<Rightarrow> ('a, 'm) hier res" where
  "bcc_processWritebackOnAccess c l h =
     (let s = get_state h (c, l)
      in assert_then (s = M \<or> s = E) (Inr (if s = E then set_state (c, l) M h else h)))"

definition bcc_processInval :: "nat \<Rightarrow> nat \<Rightarrow> inv_type \<Rightarrow> bool \<Rightarrow> ('a, 'm) hier \<Rightarrow>
    (bool \<times> ('a, 'm) hier) res" where
  "bcc_processInval c l t wb h =
     (let s = get_state h (c, l) in
      assert_then (s \<noteq> I)
        (case t of
           INVX \<Rightarrow> assert_then (s = E \<or> s = M)
             (Inr (wb \<or> s = M,
                   upd_prof c (\<lambda>q. q\<lparr>profINVX := profINVX q + 1\<rparr>) (set_state (c, l) S h)))
         | INV \<Rightarrow> Inr (wb \<or> s = M,
                   upd_prof c (\<lambda>q. q\<lparr>profINV := profINV q + 1\<rparr>) (set_state (c, l) I h))
         | FWD \<Rightarrow> assert_then (s = S)
             (Inr (wb, upd_prof c (\<lambda>q. q\<lparr>profFWD := profFWD q + 1\<rparr>) h))))"

definition bcc_processNonInclusiveWriteback :: "('a, 'm) access_fun \<Rightarrow> cache_cfg \<Rightarrow> nat \<Rightarrow>
    address \<Rightarrow> access_type \<Rightarrow> u64 \<Rightarrow> state_ref \<Rightarrow> u32 \<Rightarrow> u32 \<Rightarrow> address \<Rightarrow> ('a, 'm) hier \<Rightarrow>
    (u64 \<times> ('a, 'm) hier) res" where
  "bcc_processNonInclusiveWriteback acc cfg c a t cyc r src fl p h =
     (if \<not> nonInclusiveHack cfg then Inl Panic
      else acc (parents cfg ! getParentId cfg a)
             (bcc_request cfg c a t r cyc src (fl OR flag_mask NONINCLWB) p h) h)"

subsection \<open>The top controller\<close>

text \<open>
  The loop of \<open>sendInvalidates\<close> over the children; the sharer bit of each child is read when
  the loop reaches it. The result holds the latest response, \<open>*reqWriteback\<close>, the number of
  invalidations sent and the store.
\<close>

fun send_loop :: "('a, 'm) inval_fun \<Rightarrow> nat \<Rightarrow> nat \<Rightarrow> inv_req \<Rightarrow> (nat \<times> nat \<times> u32) list \<Rightarrow>
    u64 \<times> bool \<times> u32 \<times> ('a, 'm) hier \<Rightarrow> (u64 \<times> bool \<times> u32 \<times> ('a, 'm) hier) res" where
  "send_loop invl c l req [] st = Inr st"
| "send_loop invl c l req ((i, child, rtt) # cs) (maxCycle, wb, sent, h) =
    (if sharers (get_entry h c l) i then
       rbind (invl child req wb h) (\<lambda>(resp, wb1, h1).
         let resp1 = resp + ucast rtt;
             e = get_entry h1 c l;
             h2 = (if i_type req = INV then set_entry c l (e\<lparr>sharers := (sharers e)(i := False)\<rparr>) h1
                   else h1)
         in send_loop invl c l req cs (max resp1 maxCycle, wb1, sent + 1, h2))
     else send_loop invl c l req cs (maxCycle, wb, sent, h))"

definition child_list :: "cache_cfg \<Rightarrow> (nat \<times> nat \<times> u32) list" where
  "child_list cfg = zip [0..<length (children cfg)] (zip (children cfg) (childrenRTTs cfg))"

definition tcc_sendInvalidates :: "('a, 'm) inval_fun \<Rightarrow> cache_cfg \<Rightarrow> nat \<Rightarrow> address \<Rightarrow> nat \<Rightarrow>
    inv_type \<Rightarrow> bool \<Rightarrow> u64 \<Rightarrow> u32 \<Rightarrow> ('a, 'm) hier \<Rightarrow> (u64 \<times> bool \<times> ('a, 'm) hier) res" where
  "tcc_sendInvalidates invl cfg c a l t wb cyc src h =
     (let e = get_entry h c l in
      if t = INVX \<and> \<not> entry_isExclusive e then Inr (cyc, wb, h)
      else if isEmpty e then Inr (cyc, wb, h)
      else rbind (send_loop invl c l \<lparr>i_lineAddr = a, i_type = t, i_cycle = cyc, i_srcId = src\<rparr>
                    (child_list cfg) (cyc, wb, 0, h))
        (\<lambda>(maxCycle, wb1, sent, h1).
          let e1 = get_entry h1 c l in
          assert_then (sent = e_numSharers e1)
            (if t = INV then Inr (maxCycle, wb1, set_entry c l (e1\<lparr>e_numSharers := 0\<rparr>) h1)
             else assert_then (exclusive e1 \<and> e_numSharers e1 = 1)
               (Inr (maxCycle, wb1, set_entry c l (e1\<lparr>exclusive := False\<rparr>) h1)))))"

definition tcc_processEviction :: "('a, 'm) inval_fun \<Rightarrow> cache_cfg \<Rightarrow> nat \<Rightarrow> address \<Rightarrow> nat \<Rightarrow>
    bool \<Rightarrow> u64 \<Rightarrow> u32 \<Rightarrow> ('a, 'm) hier \<Rightarrow> (u64 \<times> bool \<times> ('a, 'm) hier) res" where
  "tcc_processEviction invl cfg c a l wb cyc src h =
     (if nonInclusiveHack cfg then Inr (cyc, wb, set_entry c l entry_clear h)
      else tcc_sendInvalidates invl cfg c a l INV wb cyc src h)"

text \<open>The case PUTS, which a PUTX without PUTX_KEEPEXCL falls into.\<close>

definition tcc_put :: "nat \<Rightarrow> nat \<Rightarrow> nat \<Rightarrow> state_ref \<Rightarrow> ('a, 'm) hier \<Rightarrow> ('a, 'm) hier res" where
  "tcc_put c l child r h =
     (let e = get_entry h c l
      in assert_then (sharers e child)
           (Inr (set_state r I (set_entry c l (drop_sharer child e) h))))"

definition tcc_processAccess :: "('a, 'm) inval_fun \<Rightarrow> cache_cfg \<Rightarrow> nat \<Rightarrow> address \<Rightarrow> nat \<Rightarrow>
    access_type \<Rightarrow> nat \<Rightarrow> bool \<Rightarrow> state_ref \<Rightarrow> bool \<Rightarrow> u64 \<Rightarrow> u32 \<Rightarrow> u32 \<Rightarrow> ('a, 'm) hier \<Rightarrow>
    (u64 \<times> bool \<times> ('a, 'm) hier) res" where
  "tcc_processAccess invl cfg c a l t child haveExclusive r wb cyc src fl h =
     (let e = get_entry h c l in
      case t of
        PUTX \<Rightarrow> assert_then (entry_isExclusive e)
          (if flag_in fl PUTX_KEEPEXCL then
             assert_then (sharers e child) (assert_then (get_state h r = M)
               (Inr (cyc, wb, set_state r E h)))
           else rbind (tcc_put c l child r h) (\<lambda>h1. Inr (cyc, wb, h1)))
      | PUTS \<Rightarrow> rbind (tcc_put c l child r h) (\<lambda>h1. Inr (cyc, wb, h1))
      | GETS \<Rightarrow>
          if isEmpty e \<and> haveExclusive \<and> \<not> flag_in fl NOEXCL then
            Inr (cyc, wb, set_state r E (set_entry c l
              (e\<lparr>exclusive := True, sharers := (sharers e)(child := True), e_numSharers := 1\<rparr>) h))
          else
            assert_then (\<not> sharers e child)
              (rbind (if entry_isExclusive e then tcc_sendInvalidates invl cfg c a l INVX wb cyc src h
                      else Inr (cyc, wb, h))
                (\<lambda>(resp, wb1, h1). let e1 = get_entry h1 c l in
                   assert_then (\<not> entry_isExclusive e1)
                     (Inr (resp, wb1, set_state r S (set_entry c l
                        ((add_sharer child e1)\<lparr>exclusive := False\<rparr>) h1)))))
      | GETX \<Rightarrow>
          assert_then haveExclusive
            (assert_then (sharers e child \<longrightarrow> \<not> entry_isExclusive e)
              (let h0 = (if sharers e child then set_entry c l (drop_sharer child e) h else h)
               in rbind (tcc_sendInvalidates invl cfg c a l INV wb cyc src h0)
                 (\<lambda>(resp, wb1, h1).
                    let e2 = (add_sharer child (get_entry h1 c l))\<lparr>exclusive := True\<rparr> in
                    assert_then (e_numSharers e2 = 1)
                      (Inr (resp, wb1, set_state r M (set_entry c l e2 h1)))))))"

definition tcc_processInval :: "('a, 'm) inval_fun \<Rightarrow> cache_cfg \<Rightarrow> nat \<Rightarrow> address \<Rightarrow> nat \<Rightarrow>
    inv_type \<Rightarrow> bool \<Rightarrow> u64 \<Rightarrow> u32 \<Rightarrow> ('a, 'm) hier \<Rightarrow> (u64 \<times> bool \<times> ('a, 'm) hier) res" where
  "tcc_processInval invl cfg c a l t wb cyc src h =
     (if t = FWD then assert_then (\<not> nonInclusiveHack cfg) (Inr (cyc, wb, h))
      else tcc_sendInvalidates invl cfg c a l t wb cyc src h)"

subsection \<open>Races\<close>

text \<open>
  \<open>CheckForMESIRace\<close>: whether to skip the access, and its type, which may change.
\<close>

definition CheckForMESIRace :: "access_type \<Rightarrow> mesi \<Rightarrow> mesi \<Rightarrow> (bool \<times> access_type) res" where
  "CheckForMESIRace t s s0 =
     (if s = s0 then Inr (False, t)
      else if t = PUTS \<or> t = PUTX then
        (if s = I then Inr (True, t)
         else assert_then (s = S) (Inr (False, if t = PUTX then PUTS else t)))
      else if t = GETX then assert_then (s0 = S) (assert_then (s = I) (Inr (False, t)))
      else Inl Panic)"

end
