(* ===== verification/CacheCtrl.thy ===== *)
theory CacheCtrl
  imports MesiCC
begin

section \<open>The integrated controllers and the cache\<close>

text \<open>
  The classes MESICC and MESITerminalCC of coherence_ctrls.h and class Cache of cache.h and
  cache.cpp. A cache of the hierarchy is non-terminal (MESICC) or terminal (MESITerminalCC);
  the \<open>cc_\<close> functions are the virtual calls of \<open>CC\<close>.
\<close>

subsection \<open>MESICC\<close>

definition mesi_startAccess :: "nat \<Rightarrow> mem_req \<Rightarrow> ('a, 'm) hier \<Rightarrow>
    (bool \<times> mem_req \<times> ('a, 'm) hier) res" where
  "mesi_startAccess c req h =
     rbind (lock_acquire (TccLock c) (release_child (childLock req) h)) (\<lambda>h1.
     rbind (lock_acquire (BccLock c) h1) (\<lambda>h2.
     rbind (CheckForMESIRace (r_type req) (get_state h2 (state_ptr req)) (initialState req))
       (\<lambda>(skip, t). Inr (skip, req\<lparr>r_type := t\<rparr>, h2))))"

definition mesi_shouldAllocate :: "cache_cfg \<Rightarrow> mem_req \<Rightarrow> bool res" where
  "mesi_shouldAllocate cfg req =
     (if IsGet (r_type req) then Inr True
      else if \<not> nonInclusiveHack cfg then Inl Panic else Inr False)"

definition mesi_processEviction :: "('a, 'm) access_fun \<Rightarrow> ('a, 'm) inval_fun \<Rightarrow> cache_cfg \<Rightarrow>
    nat \<Rightarrow> mem_req \<Rightarrow> address \<Rightarrow> nat \<Rightarrow> u64 \<Rightarrow> ('a, 'm) hier \<Rightarrow> (u64 \<times> ('a, 'm) hier) res" where
  "mesi_processEviction acc invl cfg c trig wb l start h =
     rbind (tcc_processEviction invl cfg c wb l False start (srcId trig) h)
       (\<lambda>(evCycle, lowerWb, h1).
         bcc_processEviction acc cfg c wb l lowerWb evCycle (srcId trig) (pc trig) h1)"

definition mesi_processAccess :: "('a, 'm) access_fun \<Rightarrow> ('a, 'm) inval_fun \<Rightarrow> cache_cfg \<Rightarrow>
    nat \<Rightarrow> mem_req \<Rightarrow> nat option \<Rightarrow> u64 \<Rightarrow> ('a, 'm) hier \<Rightarrow> (u64 \<times> ('a, 'm) hier) res" where
  "mesi_processAccess acc invl cfg c req lid start h =
     (let bypass = assert_then (nonInclusiveHack cfg) (assert_then (IsPut (r_type req))
            (bcc_processNonInclusiveWriteback acc cfg c (lineAddr req) (r_type req) start
               (state_ptr req) (srcId req) (flags req) (pc req) h))
      in case lid of
        None \<Rightarrow> bypass
      | Some l \<Rightarrow>
          if IsPut (r_type req) \<and> \<not> bcc_isValid c l h then bypass
          else let isPrefetch = flag_in (flags req) PREFETCH;
                   fl = clear_flag (flags req) PREFETCH
               in assert_then (isPrefetch \<longrightarrow> r_type req = GETS)
                 (rbind (bcc_processAccess acc cfg c (lineAddr req) l (r_type req) start
                           (srcId req) fl (pc req) h)
                   (\<lambda>(resp, h1).
                     if isPrefetch then Inr (resp, h1)
                     else rbind (tcc_processAccess invl cfg c (lineAddr req) l (r_type req)
                                   (childId req) (bcc_isExclusive c l h1) (state_ptr req) False
                                   resp (srcId req) fl h1)
                       (\<lambda>(resp1, lowerWb, h2).
                         if lowerWb
                         then rbind (bcc_processWritebackOnAccess c l h2) (\<lambda>h3. Inr (resp1, h3))
                         else Inr (resp1, h2)))))"

definition mesi_endAccess :: "nat \<Rightarrow> mem_req \<Rightarrow> ('a, 'm) hier \<Rightarrow> ('a, 'm) hier res" where
  "mesi_endAccess c req h =
     rbind (acquire_child (childLock req) h)
       (\<lambda>h1. Inr (lock_release (TccLock c) (lock_release (BccLock c) h1)))"

definition mesi_processInv :: "('a, 'm) inval_fun \<Rightarrow> cache_cfg \<Rightarrow> nat \<Rightarrow> inv_req \<Rightarrow> bool \<Rightarrow> nat \<Rightarrow>
    u64 \<Rightarrow> ('a, 'm) hier \<Rightarrow> (u64 \<times> bool \<times> ('a, 'm) hier) res" where
  "mesi_processInv invl cfg c req wb l start h =
     rbind (tcc_processInval invl cfg c (i_lineAddr req) l (i_type req) wb start (i_srcId req) h)
       (\<lambda>(resp, wb1, h1).
         rbind (bcc_processInval c l (i_type req) wb1 h1)
           (\<lambda>(wb2, h2). Inr (resp, wb2, lock_release (BccLock c) h2)))"

subsection \<open>MESITerminalCC\<close>

definition term_startAccess :: "nat \<Rightarrow> mem_req \<Rightarrow> ('a, 'm) hier \<Rightarrow>
    (bool \<times> mem_req \<times> ('a, 'm) hier) res" where
  "term_startAccess c req h =
     assert_then (IsGet (r_type req))
       (rbind (lock_acquire (BccLock c) (release_child (childLock req) h)) (\<lambda>h1.
        rbind (CheckForMESIRace (r_type req) (get_state h1 (state_ptr req)) (initialState req))
          (\<lambda>(skip, t). Inr (skip, req\<lparr>r_type := t\<rparr>, h1))))"

definition term_processEviction :: "('a, 'm) access_fun \<Rightarrow> cache_cfg \<Rightarrow> nat \<Rightarrow> mem_req \<Rightarrow>
    address \<Rightarrow> nat \<Rightarrow> u64 \<Rightarrow> ('a, 'm) hier \<Rightarrow> (u64 \<times> ('a, 'm) hier) res" where
  "term_processEviction acc cfg c trig wb l start h =
     bcc_processEviction acc cfg c wb l False start (srcId trig) (pc trig) h"

definition term_processAccess :: "('a, 'm) access_fun \<Rightarrow> cache_cfg \<Rightarrow> nat \<Rightarrow> mem_req \<Rightarrow>
    nat option \<Rightarrow> u64 \<Rightarrow> ('a, 'm) hier \<Rightarrow> (u64 \<times> ('a, 'm) hier) res" where
  "term_processAccess acc cfg c req lid start h =
     (case lid of
        None \<Rightarrow> Inl AssertFail
      | Some l \<Rightarrow> bcc_processAccess acc cfg c (lineAddr req) l (r_type req) start
                   (srcId req) (flags req) (pc req) h)"

definition term_endAccess :: "nat \<Rightarrow> mem_req \<Rightarrow> ('a, 'm) hier \<Rightarrow> ('a, 'm) hier res" where
  "term_endAccess c req h =
     rbind (acquire_child (childLock req) h) (\<lambda>h1. Inr (lock_release (BccLock c) h1))"

definition term_processInv :: "nat \<Rightarrow> inv_req \<Rightarrow> bool \<Rightarrow> nat \<Rightarrow> u64 \<Rightarrow> ('a, 'm) hier \<Rightarrow>
    (u64 \<times> bool \<times> ('a, 'm) hier) res" where
  "term_processInv c req wb l start h =
     rbind (bcc_processInval c l (i_type req) wb h)
       (\<lambda>(wb1, h1). Inr (start, wb1, lock_release (BccLock c) h1))"

subsection \<open>Dispatch\<close>

definition cc_startAccess :: "cache_cfg \<Rightarrow> nat \<Rightarrow> mem_req \<Rightarrow> ('a, 'm) hier \<Rightarrow>
    (bool \<times> mem_req \<times> ('a, 'm) hier) res" where
  "cc_startAccess cfg c = (if terminal cfg then term_startAccess c else mesi_startAccess c)"

definition cc_shouldAllocate :: "cache_cfg \<Rightarrow> mem_req \<Rightarrow> bool res" where
  "cc_shouldAllocate cfg req = (if terminal cfg then Inr True else mesi_shouldAllocate cfg req)"

definition cc_processEviction :: "('a, 'm) access_fun \<Rightarrow> ('a, 'm) inval_fun \<Rightarrow> cache_cfg \<Rightarrow>
    nat \<Rightarrow> mem_req \<Rightarrow> address \<Rightarrow> nat \<Rightarrow> u64 \<Rightarrow> ('a, 'm) hier \<Rightarrow> (u64 \<times> ('a, 'm) hier) res" where
  "cc_processEviction acc invl cfg c =
     (if terminal cfg then term_processEviction acc cfg c
      else mesi_processEviction acc invl cfg c)"

definition cc_processAccess :: "('a, 'm) access_fun \<Rightarrow> ('a, 'm) inval_fun \<Rightarrow> cache_cfg \<Rightarrow>
    nat \<Rightarrow> mem_req \<Rightarrow> nat option \<Rightarrow> u64 \<Rightarrow> ('a, 'm) hier \<Rightarrow> (u64 \<times> ('a, 'm) hier) res" where
  "cc_processAccess acc invl cfg c =
     (if terminal cfg then term_processAccess acc cfg c else mesi_processAccess acc invl cfg c)"

definition cc_endAccess :: "cache_cfg \<Rightarrow> nat \<Rightarrow> mem_req \<Rightarrow> ('a, 'm) hier \<Rightarrow> ('a, 'm) hier res" where
  "cc_endAccess cfg c = (if terminal cfg then term_endAccess c else mesi_endAccess c)"

definition cc_startInv :: "nat \<Rightarrow> ('a, 'm) hier \<Rightarrow> ('a, 'm) hier res" where
  "cc_startInv c h = lock_acquire (BccLock c) h"

definition cc_processInv :: "('a, 'm) inval_fun \<Rightarrow> cache_cfg \<Rightarrow> nat \<Rightarrow> inv_req \<Rightarrow> bool \<Rightarrow> nat \<Rightarrow>
    u64 \<Rightarrow> ('a, 'm) hier \<Rightarrow> (u64 \<times> bool \<times> ('a, 'm) hier) res" where
  "cc_processInv invl cfg c =
     (if terminal cfg then term_processInv c else mesi_processInv invl cfg c)"

definition cc_view_of :: "cache_cfg \<Rightarrow> nat \<Rightarrow> ('a, 'm) hier \<Rightarrow> cc_view" where
  "cc_view_of cfg c h =
     \<lparr>numSharers = (\<lambda>l. if terminal cfg then 0 else e_numSharers (get_entry h c l)),
      isValid = (\<lambda>l. bcc_isValid c l h)\<rparr>"

subsection \<open>Cache\<close>

text \<open>
  \<open>Cache::access\<close> for requests without a timing record (the event recorder of the core is
  null, which is the case outside the weave-phase timing cores).
\<close>

definition cache_insert :: "('a, 'm) access_fun \<Rightarrow> ('a, 'm) inval_fun \<Rightarrow> 'a array_ops \<Rightarrow>
    cache_cfg \<Rightarrow> nat \<Rightarrow> mem_req \<Rightarrow> u64 \<Rightarrow> ('a, 'm) hier \<Rightarrow> (nat \<times> ('a, 'm) hier) res" where
  "cache_insert acc invl ops cfg c req resp h =
     rbind (a_preinsert ops (cc_view_of cfg c h) (lineAddr req) req (get_arr h c)) (\<lambda>(l, wb, a).
     rbind (cc_processEviction acc invl cfg c req wb l resp (set_arr c a h)) (\<lambda>(_, h1).
     rbind (a_postinsert ops (lineAddr req) req l (get_arr h1 c)) (\<lambda>a1.
     Inr (l, set_arr c a1 h1))))"

definition cache_find :: "('a, 'm) access_fun \<Rightarrow> ('a, 'm) inval_fun \<Rightarrow> 'a array_ops \<Rightarrow>
    cache_cfg \<Rightarrow> nat \<Rightarrow> mem_req \<Rightarrow> u64 \<Rightarrow> ('a, 'm) hier \<Rightarrow> (nat option \<times> ('a, 'm) hier) res" where
  "cache_find acc invl ops cfg c req resp h =
     rbind (a_lookup ops (lineAddr req) (Some req) (IsGet (r_type req)) (get_arr h c)) (\<lambda>(lid, a).
     let h1 = set_arr c a h
     in case lid of
          Some l \<Rightarrow> Inr (Some l, h1)
        | None \<Rightarrow> rbind (cc_shouldAllocate cfg req) (\<lambda>alloc.
            if alloc then rbind (cache_insert acc invl ops cfg c req resp h1)
              (\<lambda>(l, h2). Inr (Some l, h2))
            else Inr (None, h1)))"

definition cache_access :: "('a, 'm) access_fun \<Rightarrow> ('a, 'm) inval_fun \<Rightarrow> 'a array_ops \<Rightarrow>
    cache_cfg \<Rightarrow> nat \<Rightarrow> mem_req \<Rightarrow> ('a, 'm) hier \<Rightarrow> (u64 \<times> ('a, 'm) hier) res" where
  "cache_access acc invl ops cfg c req h =
     rbind (cc_startAccess cfg c req h) (\<lambda>(skip, req1, h1).
     rbind (if skip then Inr (cycle req1, h1)
            else let resp = cycle req1 + ucast (accLat cfg)
                 in rbind (cache_find acc invl ops cfg c req1 resp h1)
                   (\<lambda>(lid, h2). cc_processAccess acc invl cfg c req1 lid resp h2))
       (\<lambda>(resp, h3).
     rbind (cc_endAccess cfg c req1 h3) (\<lambda>h4.
     assert_then (cycle req1 \<le> resp) (Inr (resp, h4)))))"

definition cache_invalidate :: "('a, 'm) inval_fun \<Rightarrow> 'a array_ops \<Rightarrow> cache_cfg \<Rightarrow> nat \<Rightarrow>
    inv_req \<Rightarrow> bool \<Rightarrow> ('a, 'm) hier \<Rightarrow> (u64 \<times> bool \<times> ('a, 'm) hier) res" where
  "cache_invalidate invl ops cfg c req wb h =
     rbind (cc_startInv c h) (\<lambda>h1.
     rbind (a_lookup ops (i_lineAddr req) None False (get_arr h1 c)) (\<lambda>(lid, a).
     let h2 = set_arr c a h1
     in case lid of
          None \<Rightarrow> Inl AssertFail
        | Some l \<Rightarrow> cc_processInv invl cfg c req wb l (i_cycle req + ucast (invLat cfg)) h2))"

end
