(* ===== verification/MemCtrls.thy ===== *)
theory MemCtrls
  imports Complex_Main HierState
begin

section \<open>Memory controllers\<close>

text \<open>
  mem_ctrls.h, mem_ctrls.cpp and weave_md1_mem.h. \<open>access\<close> returns the response cycle and the
  value it writes through \<open>req.state\<close>; the hierarchy performs that write. \<open>eventRecorders\<close> are
  null, as for caches, so that the weave controllers record no event.

  Floating point: \<open>fl\<close> is the rounding of an exact result to a \<open>double\<close>, a parameter.
\<close>

text \<open>What every controller answers, by the type of the request.\<close>

definition mem_grant :: "mem_req \<Rightarrow> mesi" where
  "mem_grant req =
     (case r_type req of
        PUTS \<Rightarrow> I
      | PUTX \<Rightarrow> I
      | GETS \<Rightarrow> if req_is req NOEXCL then S else E
      | GETX \<Rightarrow> M)"

subsection \<open>The contract\<close>

text \<open>
  What the caches rely on. \<open>mem_ok\<close> is a condition on the controller that accesses preserve.
  Cycles that are within \<open>2^33\<close> of the largest one are not covered: the simple controller then
  stops in its assertion, because the response cycle wraps around.
\<close>

locale mem_object =
  fixes mem_access :: "nat \<Rightarrow> mem_req \<Rightarrow> 'm \<Rightarrow> (u64 \<times> mesi \<times> 'm) res"
    and mem_ok :: "'m \<Rightarrow> bool"
  assumes mem_answers: "mem_ok m \<Longrightarrow> unat (cycle req) + 2 ^ 33 \<le> 2 ^ 64 \<Longrightarrow>
    \<exists>resp m'. mem_access i req m = Inr (resp, mem_grant req, m') \<and> mem_ok m'"

subsection \<open>Simple memory\<close>

text \<open>The state is the latency of each controller.\<close>

definition simple_mem_access :: "nat \<Rightarrow> mem_req \<Rightarrow> (nat \<Rightarrow> u32) \<Rightarrow> (u64 \<times> mesi \<times> (nat \<Rightarrow> u32)) res" where
  "simple_mem_access i req latency =
     (let s = (case r_type req of
                 PUTS \<Rightarrow> I
               | PUTX \<Rightarrow> I
               | GETS \<Rightarrow> if req_is req NOEXCL then S else E
               | GETX \<Rightarrow> M);
          respCycle = cycle req + ucast (latency i)
      in assert_then (respCycle > cycle req) (Inr (respCycle, s, latency)))"

lemma add_no_wrap:
  assumes "unat (a :: u64) + 2 ^ 32 \<le> 2 ^ 64"
  shows "unat (a + ucast (b :: u32)) = unat a + unat b"
proof -
  have "unat b < 2 ^ 32" using unat_less_exp [of b] by simp
  then have "unat a + unat (ucast b :: u64) < 2 ^ LENGTH(64)" using assms by simp
  then show ?thesis by (subst unat_add_lem [THEN iffD1]) simp_all
qed

interpretation simple_mem: mem_object simple_mem_access "\<lambda>latency. \<forall>i. latency i \<noteq> 0"
proof
  fix m :: "nat \<Rightarrow> u32" and req :: mem_req and i
  assume ok: "\<forall>i. m i \<noteq> 0" and c: "unat (cycle req) + 2 ^ 33 \<le> 2 ^ 64"
  have "unat (cycle req + ucast (m i)) = unat (cycle req) + unat (m i)"
    by (rule add_no_wrap) (use c in simp)
  moreover have "0 < unat (m i)" using ok by (simp add: unat_gt_0)
  ultimately have "cycle req + ucast (m i) > cycle req" by (simp add: word_less_nat_alt)
  then show "\<exists>resp m'. simple_mem_access i req m = Inr (resp, mem_grant req, m') \<and> (\<forall>i. m' i \<noteq> 0)"
    using ok by (simp add: simple_mem_access_def mem_grant_def)
qed

subsection \<open>The M/D/1 controller\<close>

record md1 =
  lastPhase :: u64
  maxRequestsPerCycle :: rat
  smoothedPhaseAccesses :: rat
  zeroLoadLatency :: u32
  curLatency :: u32
  profReads :: u64
  profWrites :: u64
  profTotalRdLat :: u64
  profTotalWrLat :: u64
  profLoad :: u64
  profUpdates :: u64
  profClampedLoads :: u64
  curPhaseAccesses :: u32

record clock =
  numPhases :: u64
  phaseLength :: u32

definition md1_init :: "(rat \<Rightarrow> rat) \<Rightarrow> u32 \<Rightarrow> u32 \<Rightarrow> u32 \<Rightarrow> u32 \<Rightarrow> md1 res" where
  "md1_init fl requestSize megacyclesPerSecond megabytesPerSecond zll =
     (let bytesPerCycle = fl (of_nat (unat megabytesPerSecond) / of_nat (unat megacyclesPerSecond));
          maxR = fl (bytesPerCycle / of_nat (unat requestSize))
      in assert_then (maxR > 0)
           (Inr \<lparr>lastPhase = 0, maxRequestsPerCycle = maxR, smoothedPhaseAccesses = 0,
                 zeroLoadLatency = zll, curLatency = zll, profReads = 0, profWrites = 0,
                 profTotalRdLat = 0, profTotalWrLat = 0, profLoad = 0, profUpdates = 0,
                 profClampedLoads = 0, curPhaseAccesses = 0\<rparr>))"

definition md1_multiplier :: "(rat \<Rightarrow> rat) \<Rightarrow> rat \<Rightarrow> rat" where
  "md1_multiplier fl load = fl (1 + fl (fl (fl (1/2) * load) / fl (1 - load)))"

definition md1_updateLatency :: "(rat \<Rightarrow> rat) \<Rightarrow> clock \<Rightarrow> md1 \<Rightarrow> md1" where
  "md1_updateLatency fl zinfo m =
     (let phaseCycles = ucast ((numPhases zinfo - lastPhase m) * ucast (phaseLength zinfo)) :: u32
      in if phaseCycles < 10000 then m
         else let smoothed = fl (fl (of_nat (unat (curPhaseAccesses m)) * fl (1/2))
                                 + fl (smoothedPhaseAccesses m * fl (1/2)));
                  requestsPerCycle = fl (smoothed / of_nat (unat phaseCycles));
                  load0 = fl (requestsPerCycle / maxRequestsPerCycle m);
                  clamp = load0 > fl (95/100);
                  load = (if clamp then fl (95/100) else load0);
                  lat = of_int \<lfloor>fl (md1_multiplier fl load * of_nat (unat (zeroLoadLatency m)))\<rfloor> :: u32;
                  intLoad = of_int \<lfloor>fl (load * 100)\<rfloor> :: u32
              in m\<lparr>smoothedPhaseAccesses := smoothed,
                   profClampedLoads := profClampedLoads m + (if clamp then 1 else 0),
                   curLatency := lat, profLoad := profLoad m + ucast intLoad,
                   profUpdates := profUpdates m + 1, curPhaseAccesses := 0,
                   lastPhase := numPhases zinfo\<rparr>)"

definition md1_count :: "mem_req \<Rightarrow> md1 \<Rightarrow> md1" where
  "md1_count req m =
     (case r_type req of
        PUTX \<Rightarrow> m\<lparr>profWrites := profWrites m + 1,
                 profTotalWrLat := profTotalWrLat m + ucast (curLatency m),
                 curPhaseAccesses := curPhaseAccesses m + 1\<rparr>
      | PUTS \<Rightarrow> m
      | GETS \<Rightarrow> m\<lparr>profReads := profReads m + 1,
                 profTotalRdLat := profTotalRdLat m + ucast (curLatency m),
                 curPhaseAccesses := curPhaseAccesses m + 1\<rparr>
      | GETX \<Rightarrow> m\<lparr>profReads := profReads m + 1,
                 profTotalRdLat := profTotalRdLat m + ucast (curLatency m),
                 curPhaseAccesses := curPhaseAccesses m + 1\<rparr>)"

definition md1_access :: "(rat \<Rightarrow> rat) \<Rightarrow> clock \<Rightarrow> mem_req \<Rightarrow> md1 \<Rightarrow> (u64 \<times> mesi \<times> md1) res" where
  "md1_access fl zinfo req m =
     (let m1 = (if numPhases zinfo > lastPhase m then md1_updateLatency fl zinfo m else m);
          s = (case r_type req of
                 PUTS \<Rightarrow> I
               | PUTX \<Rightarrow> I
               | GETS \<Rightarrow> if req_is req NOEXCL then S else E
               | GETX \<Rightarrow> M)
      in Inr (cycle req + (if r_type req = PUTS then 0 else ucast (curLatency m1)), s,
              md1_count req m1))"

interpretation md1_mem: mem_object "\<lambda>i req ms. rbind (md1_access fl zinfo req (ms i))
    (\<lambda>(resp, s, m'). Inr (resp, s, ms(i := m')))" "\<lambda>_. True" for fl zinfo
  by unfold_locales (auto simp: md1_access_def mem_grant_def Let_def)

text \<open>
  A rounding to \<open>double\<close>: it keeps the order and the integers below \<open>2^32\<close>, and its relative
  error between \<open>2^-10\<close> and \<open>2^40\<close> is at most \<open>2^-10\<close> (it is \<open>2^-53\<close> in fact).
\<close>

definition good_rounding :: "(rat \<Rightarrow> rat) \<Rightarrow> bool" where
  "good_rounding fl \<longleftrightarrow> mono fl \<and> (\<forall>n < 2 ^ 32. fl (of_nat n) = of_nat n)
     \<and> (\<forall>x. 1/1024 \<le> x \<longrightarrow> x \<le> 2 ^ 40 \<longrightarrow> x - x/1024 \<le> fl x \<and> fl x \<le> x + x/1024)"

lemma good_roundingD:
  assumes "good_rounding fl"
  shows "x \<le> y \<Longrightarrow> fl x \<le> fl y" "n < 2 ^ 32 \<Longrightarrow> fl (of_nat n) = of_nat n" "fl 0 = 0" "fl 1 = 1"
    "0 \<le> x \<Longrightarrow> 0 \<le> fl x"
    "1/1024 \<le> x \<Longrightarrow> x \<le> 2 ^ 40 \<Longrightarrow> x - x/1024 \<le> fl x" "1/1024 \<le> x \<Longrightarrow> x \<le> 2 ^ 40 \<Longrightarrow> fl x \<le> x + x/1024"
proof -
  show mono: "x \<le> y \<Longrightarrow> fl x \<le> fl y" for x y using assms by (simp add: good_rounding_def monoD)
  show of_nat: "n < 2 ^ 32 \<Longrightarrow> fl (of_nat n) = of_nat n" for n using assms by (simp add: good_rounding_def)
  show z: "fl 0 = 0" "fl 1 = 1" using of_nat [of 0] of_nat [of 1] by simp_all
  show "0 \<le> x \<Longrightarrow> 0 \<le> fl x" using mono [of 0 x] z by simp
qed (use assms in \<open>auto simp: good_rounding_def\<close>)

lemma multiplier_bounds:
  assumes fl: "good_rounding fl" and load: "0 \<le> load" "load \<le> fl (95/100)"
  shows "1 \<le> md1_multiplier fl load" and "md1_multiplier fl load \<le> 1085/100"
proof -
  note G = good_roundingD [OF fl]
  have l: "load \<le> 951/1000" using G(7) [of "95/100"] load(2) by simp
  have h: "0 \<le> fl (1/2)" "fl (1/2) \<le> 501/1000" using G(7) [of "1/2"] G(5) [of "1/2"] by simp_all
  have n0: "0 \<le> fl (1/2) * load" using h load by simp
  have "fl (1/2) * load \<le> 501/1000 * (951/1000)" by (rule mult_mono) (use h l load in simp_all)
  then have "fl (fl (1/2) * load) \<le> fl (501/1000 * (951/1000))" by (rule G(1))
  also have "\<dots> \<le> 477/1000" using G(7) [of "501/1000 * (951/1000)"] by simp
  finally have num: "fl (fl (1/2) * load) \<le> 477/1000" "0 \<le> fl (fl (1/2) * load)"
    using G(5) [OF n0] by simp_all
  have "fl (49/1000) \<le> fl (1 - load)" by (rule G(1)) (use l in simp)
  then have den: "489/10000 \<le> fl (1 - load)" using G(6) [of "49/1000"] by simp
  have q0: "0 \<le> fl (fl (1/2) * load) / fl (1 - load)" using num den by simp
  have "fl (fl (1/2) * load) / fl (1 - load) \<le> (477/1000) / (489/10000)"
    by (rule frac_le) (use num den in simp_all)
  then have "fl (fl (fl (1/2) * load) / fl (1 - load)) \<le> fl ((477/1000) / (489/10000))" by (rule G(1))
  also have "\<dots> \<le> 98/10" using G(7) [of "(477/1000) / (489/10000)"] by simp
  finally have q: "fl (fl (fl (1/2) * load) / fl (1 - load)) \<le> 98/10" .
  have "fl 1 \<le> md1_multiplier fl load"
    unfolding md1_multiplier_def by (rule G(1)) (use G(5) [OF q0] in simp)
  then show "1 \<le> md1_multiplier fl load" by (simp add: G(4))
  have "md1_multiplier fl load \<le> fl (108/10)" unfolding md1_multiplier_def by (rule G(1)) (use q in simp)
  also have "\<dots> \<le> 1085/100" using G(7) [of "108/10"] by simp
  finally show "md1_multiplier fl load \<le> 1085/100" .
qed

text \<open>
  The controller's invariant. The zero-load latency is small enough that the largest latency
  fits in 32 bits.
\<close>

definition md1_wf :: "md1 \<Rightarrow> bool" where
  "md1_wf m \<longleftrightarrow> 0 < maxRequestsPerCycle m \<and> 0 \<le> smoothedPhaseAccesses m
     \<and> unat (zeroLoadLatency m) * 11 < 2 ^ 31 \<and> zeroLoadLatency m \<le> curLatency m
     \<and> unat (curLatency m) \<le> 11 * unat (zeroLoadLatency m)"

lemma md1_latency:
  fixes z :: u32
  assumes fl: "good_rounding fl" and load: "0 \<le> load" "load \<le> fl (95/100)" and z: "unat z * 11 < 2 ^ 31"
  defines "lat \<equiv> (of_int \<lfloor>fl (md1_multiplier fl load * of_nat (unat z))\<rfloor> :: u32)"
  shows "z \<le> lat \<and> unat lat \<le> 11 * unat z"
proof -
  note G = good_roundingD [OF fl] and M = multiplier_bounds [OF fl load]
  let ?z = "of_nat (unat z) :: rat"
  let ?x = "md1_multiplier fl load * ?z"
  define t where "t = ?x"
  have z0: "0 \<le> ?z" by (rule of_nat_0_le_iff)
  have lo: "?z \<le> ?x" using mult_right_mono [OF M(1) z0] by simp
  have "unat z < 2 ^ 32" using unat_less_exp [of z] by simp
  then have fz: "?z \<le> fl ?x" using G(1) [OF lo] G(2) [of "unat z"] by simp
  have up: "?x \<le> 1085/100 * ?z" by (rule mult_right_mono [OF M(2) z0])
  have fup: "fl ?x \<le> 11 * ?z"
  proof (cases "unat z = 0")
    case True
    then show ?thesis using G(3) by simp
  next
    case False
    then have z1: "1 \<le> ?z" by (metis One_nat_def Suc_leI neq0_conv of_nat_1 of_nat_mono)
    have "unat z \<le> 2 ^ 31" using z by simp
    then have z2: "?z \<le> 2 ^ 31" by (metis of_nat_le_iff of_nat_numeral of_nat_power)
    have "1/1024 \<le> t" "t \<le> 2 ^ 40" using lo up z1 z2 unfolding t_def [symmetric] by simp_all
    from G(7) [OF this] have "fl t \<le> t + t/1024" .
    then show ?thesis using up z1 unfolding t_def [symmetric] by simp
  qed
  let ?n = "nat \<lfloor>fl ?x\<rfloor>"
  have n0: "0 \<le> \<lfloor>fl ?x\<rfloor>" using fz z0 by simp
  have "int (unat z) \<le> \<lfloor>fl ?x\<rfloor>" by (subst le_floor_iff) (use fz in simp)
  then have n1: "unat z \<le> ?n" by linarith
  have "11 * ?z = of_nat (11 * unat z)" by (simp only: of_nat_mult of_nat_numeral)
  with fup have "\<lfloor>fl ?x\<rfloor> \<le> \<lfloor>of_nat (11 * unat z) :: rat\<rfloor>" by (intro floor_mono) (simp only:)
  then have "\<lfloor>fl ?x\<rfloor> \<le> int (11 * unat z)" by (simp only: floor_of_nat)
  then have n2: "?n \<le> 11 * unat z" by linarith
  have "lat = of_nat ?n" using n0 by (simp add: lat_def)
  moreover have "?n < 2 ^ 32" using n2 z by simp
  ultimately have "unat lat = ?n" by (simp add: unat_of_nat take_bit_nat_eq_self)
  then show ?thesis using n1 n2 by (simp add: word_le_nat_alt)
qed

lemma md1_wf_access:
  assumes "good_rounding fl" and "md1_wf m"
  shows "\<exists>resp s m'. md1_access fl zinfo req m = Inr (resp, s, m') \<and> md1_wf m'
    \<and> zeroLoadLatency m' = zeroLoadLatency m
    \<and> resp = cycle req + (if r_type req = PUTS then 0 else ucast (curLatency m'))"
proof -
  have upd: "md1_wf (md1_updateLatency fl zinfo m)
    \<and> zeroLoadLatency (md1_updateLatency fl zinfo m) = zeroLoadLatency m"
  proof (cases "ucast ((numPhases zinfo - lastPhase m) * ucast (phaseLength zinfo)) < (10000 :: u32)")
    case True
    then show ?thesis using assms(2) by (simp add: md1_updateLatency_def)
  next
    case False
    note G = good_roundingD [OF assms(1)]
    let ?s = "fl (fl (of_nat (unat (curPhaseAccesses m)) * fl (1/2)) + fl (smoothedPhaseAccesses m * fl (1/2)))"
    let ?pc = "ucast ((numPhases zinfo - lastPhase m) * ucast (phaseLength zinfo)) :: u32"
    let ?raw = "fl (fl (?s / of_nat (unat ?pc)) / maxRequestsPerCycle m)"
    let ?l = "if ?raw > fl (95/100) then fl (95/100) else ?raw"
    have wf: "0 < maxRequestsPerCycle m" "0 \<le> smoothedPhaseAccesses m" "unat (zeroLoadLatency m) * 11 < 2 ^ 31"
      using assms(2) by (simp_all add: md1_wf_def)
    have h: "0 \<le> fl (1/2)" by (rule G(5)) simp
    have s: "0 \<le> ?s" using h wf(2) by (intro G(5) add_nonneg_nonneg mult_nonneg_nonneg of_nat_0_le_iff) simp_all
    have "0 \<le> ?s / of_nat (unat ?pc)" by (rule divide_nonneg_nonneg [OF s of_nat_0_le_iff])
    then have "0 \<le> fl (?s / of_nat (unat ?pc)) / maxRequestsPerCycle m"
      using G(5) wf(1) by (intro divide_nonneg_nonneg) simp_all
    then have "0 \<le> ?raw" by (rule G(5))
    moreover have "0 \<le> fl (95/100)" by (rule G(5)) simp
    ultimately have "0 \<le> ?l" "?l \<le> fl (95/100)" by simp_all
    from md1_latency [OF assms(1) this wf(3)] show ?thesis
      using False wf s by (simp add: md1_updateLatency_def md1_wf_def Let_def cong: if_cong)
  qed
  obtain m1 where m1: "m1 = (if numPhases zinfo > lastPhase m then md1_updateLatency fl zinfo m else m)"
    by blast
  then have "md1_wf m1 \<and> zeroLoadLatency m1 = zeroLoadLatency m" using upd assms(2) by simp
  moreover have "md1_access fl zinfo req m = Inr (cycle req + (if r_type req = PUTS then 0
      else ucast (curLatency m1)), mem_grant req, md1_count req m1)"
    by (simp add: md1_access_def mem_grant_def Let_def m1)
  ultimately show ?thesis by (cases "r_type req") (auto simp: md1_count_def md1_wf_def)
qed

text \<open>
  The M/D/1 controller's latency stays between the zero-load latency and eleven times the
  zero-load latency, whatever the load, the phase length and the rounding of its floating-point
  arithmetic: an access keeps the controller's invariant and answers after that latency.
\<close>

theorem md1_latency_bounds:
  assumes "good_rounding fl" and "md1_wf m"
  shows "\<exists>resp s m'. md1_access fl zinfo req m = Inr (resp, s, m') \<and> md1_wf m'
    \<and> zeroLoadLatency m' = zeroLoadLatency m
    \<and> resp = cycle req + (if r_type req = PUTS then 0 else ucast (curLatency m'))"
  by (rule md1_wf_access [OF assms])

theorem md1_latency_bounds_witness:
  "\<exists>m0. \<forall>req. md1_init (\<lambda>x. x) 64 2000 20000 100 = Inr m0 \<and> (\<exists>resp s m'.
     md1_access (\<lambda>x. x) \<lparr>numPhases = 20, phaseLength = 1000\<rparr> req m0 = Inr (resp, s, m') \<and> md1_wf m')"
proof -
  obtain m0 where m0: "md1_init (\<lambda>x. x) 64 2000 20000 100 = Inr m0" and wf: "md1_wf m0"
    by (simp add: md1_init_def md1_wf_def Let_def)
  have "good_rounding (\<lambda>x. x)" by (simp add: good_rounding_def mono_def)
  from md1_latency_bounds [OF this wf] m0 show ?thesis by blast
qed

subsection \<open>Weave-phase variants\<close>

text \<open>
  They answer after a bound-phase latency and leave the difference to the weave phase. The
  split of the zero-load latency into a delay before and after the event is in the constructor.
\<close>

record weave_params =
  w_zeroLoadLatency :: u32
  w_boundLatency :: u32
  w_preDelay :: u32
  w_postDelay :: u32

definition weave_md1_params :: "u32 \<Rightarrow> u32 \<Rightarrow> weave_params" where
  "weave_md1_params zll bound =
     (let pre = zll div 2
      in \<lparr>w_zeroLoadLatency = zll, w_boundLatency = bound, w_preDelay = pre, w_postDelay = zll - pre\<rparr>)"

definition weave_simple_params :: "u32 \<Rightarrow> u32 \<Rightarrow> weave_params res" where
  "weave_simple_params latency zll =
     (let pre = zll div 2
      in assert_then (latency \<ge> zll)
           (Inr \<lparr>w_zeroLoadLatency = zll, w_boundLatency = zll, w_preDelay = pre, w_postDelay = zll - pre\<rparr>))"

definition weave_respond :: "weave_params \<Rightarrow> mem_req \<Rightarrow> u64 \<Rightarrow> u64 res" where
  "weave_respond w req realRespCycle =
     (let realLatency = ucast (realRespCycle - cycle req) :: u32;
          respCycle = cycle req + (if r_type req = PUTS then 0 else ucast (w_boundLatency w))
      in assert_then (realRespCycle \<ge> respCycle)
           (assert_then (r_type req = PUTS \<or> realLatency \<ge> w_zeroLoadLatency w) (Inr respCycle)))"

definition weave_md1_access :: "(rat \<Rightarrow> rat) \<Rightarrow> clock \<Rightarrow> weave_params \<Rightarrow> mem_req \<Rightarrow> md1 \<Rightarrow>
    (u64 \<times> mesi \<times> md1) res" where
  "weave_md1_access fl zinfo w req m =
     rbind (md1_access fl zinfo req m) (\<lambda>(real, s, m').
       rbind (weave_respond w req real) (\<lambda>resp. Inr (resp, s, m')))"

definition weave_simple_access :: "(nat \<Rightarrow> weave_params) \<Rightarrow> nat \<Rightarrow> mem_req \<Rightarrow> (nat \<Rightarrow> u32) \<Rightarrow>
    (u64 \<times> mesi \<times> (nat \<Rightarrow> u32)) res" where
  "weave_simple_access w i req latency =
     rbind (simple_mem_access i req latency) (\<lambda>(real, s, m').
       rbind (weave_respond (w i) req real) (\<lambda>resp. Inr (resp, s, m')))"

lemma weave_respond_ok:
  assumes "unat (cycle req) + 2 ^ 33 \<le> 2 ^ 64" and "w_boundLatency w \<le> w_zeroLoadLatency w"
    and "w_zeroLoadLatency w \<le> lat"
  shows "weave_respond w req (cycle req + ucast (lat :: u32))
    = Inr (cycle req + (if r_type req = PUTS then 0 else ucast (w_boundLatency w)))"
proof -
  have u: "unat (cycle req + ucast (b :: u32)) = unat (cycle req) + unat b" for b
    by (rule add_no_wrap) (use assms(1) in simp)
  have le: "cycle req + ucast (w_boundLatency w) \<le> cycle req + ucast lat"
    using assms(2,3) by (simp only: word_le_nat_alt u)
  have le0: "cycle req \<le> cycle req + ucast lat" by (simp only: word_le_nat_alt u le_add1)
  have "(ucast (ucast lat :: u64) :: u32) = lat" by (rule bit_word_eqI) (auto simp: bit_simps)
  then show ?thesis using le le0 assms(3) by (simp add: weave_respond_def Let_def)
qed

interpretation weave_simple_mem: mem_object "weave_simple_access w"
  "\<lambda>latency. \<forall>i. latency i \<noteq> 0 \<and> w_boundLatency (w i) \<le> w_zeroLoadLatency (w i)
     \<and> w_zeroLoadLatency (w i) \<le> latency i" for w
proof
  fix m :: "nat \<Rightarrow> u32" and req :: mem_req and i
  assume ok: "\<forall>i. m i \<noteq> 0 \<and> w_boundLatency (w i) \<le> w_zeroLoadLatency (w i) \<and> w_zeroLoadLatency (w i) \<le> m i"
    and c: "unat (cycle req) + 2 ^ 33 \<le> 2 ^ 64"
  from simple_mem.mem_answers [OF _ c, of m i] ok
  have "simple_mem_access i req m = Inr (cycle req + ucast (m i), mem_grant req, m)"
    by (auto simp: simple_mem_access_def Let_def res_simps)
  then show "\<exists>resp m'. weave_simple_access w i req m = Inr (resp, mem_grant req, m') \<and> (\<forall>i. m' i \<noteq> 0
      \<and> w_boundLatency (w i) \<le> w_zeroLoadLatency (w i) \<and> w_zeroLoadLatency (w i) \<le> m' i)"
    using ok weave_respond_ok [OF c, of "w i" "m i"] by (simp add: weave_simple_access_def)
qed

text \<open>
  The weave-phase M/D/1 controller never stops in its assertions when the bound-phase
  latency is at most the zero-load latency: the latency it answers with is the bound latency,
  and the real latency is at least the zero-load latency.
\<close>

theorem weave_md1_answers:
  assumes "good_rounding fl" and "md1_wf m" and "unat (cycle req) + 2 ^ 33 \<le> 2 ^ 64"
    and "w_boundLatency w \<le> w_zeroLoadLatency w" and "w_zeroLoadLatency w = zeroLoadLatency m"
  shows "\<exists>m'. weave_md1_access fl zinfo w req m
      = Inr (cycle req + (if r_type req = PUTS then 0 else ucast (w_boundLatency w)), mem_grant req, m')
    \<and> md1_wf m'"
proof -
  let ?m = "if numPhases zinfo > lastPhase m then md1_updateLatency fl zinfo m else m"
  have acc: "md1_access fl zinfo req m = Inr (cycle req + (if r_type req = PUTS then 0 else ucast (curLatency ?m)),
      mem_grant req, md1_count req ?m)"
    by (simp add: md1_access_def mem_grant_def Let_def)
  from md1_wf_access [OF assms(1,2), of zinfo req] have
    wf: "md1_wf (md1_count req ?m)" "zeroLoadLatency (md1_count req ?m) = zeroLoadLatency m"
    by (simp_all add: acc)
  have cnt: "curLatency (md1_count req ?m) = curLatency ?m"
    by (cases "r_type req") (simp_all add: md1_count_def)
  have ge: "w_zeroLoadLatency w \<le> curLatency ?m" using wf assms(5) cnt by (simp add: md1_wf_def)
  show ?thesis
  proof (cases "r_type req = PUTS")
    case True
    then show ?thesis using acc wf(1) by (simp add: weave_md1_access_def weave_respond_def Let_def)
  next
    case False
    then show ?thesis
      using acc wf(1) weave_respond_ok [OF assms(3,4) ge] by (simp add: weave_md1_access_def)
  qed
qed

theorem weave_md1_answers_witness:
  "\<exists>m0. \<forall>req. cycle req = 1000 \<longrightarrow> r_type req = GETS \<longrightarrow> (\<exists>s m'.
     weave_md1_access (\<lambda>x. x) \<lparr>numPhases = 20, phaseLength = 1000\<rparr> (weave_md1_params 100 90) req m0
       = Inr (1090, s, m'))"
proof -
  obtain m0 where m0: "md1_init (\<lambda>x. x) 64 2000 20000 100 = Inr m0" and wf: "md1_wf m0"
    and z: "zeroLoadLatency m0 = 100"
    by (simp add: md1_init_def md1_wf_def Let_def)
  have g: "good_rounding (\<lambda>x. x)" by (simp add: good_rounding_def mono_def)
  have "\<exists>s m'. weave_md1_access (\<lambda>x. x) \<lparr>numPhases = 20, phaseLength = 1000\<rparr> (weave_md1_params 100 90) req m0
       = Inr (1090, s, m')" if r: "cycle req = 1000" "r_type req = GETS" for req
    using weave_md1_answers [OF g wf, of req "weave_md1_params 100 90"] r z
    by (simp add: weave_md1_params_def Let_def) blast
  then show ?thesis by blast
qed

end
