(* ===== verification/Hierarchy.thy ===== *)
theory Hierarchy
  imports CacheCtrl ArrayIface MemCtrls
begin

section \<open>The memory hierarchy\<close>

text \<open>
  The virtual calls tied together: \<open>MemObject::access\<close> of a parent is \<open>Cache::access\<close> or the
  access of a memory controller, \<open>BaseCache::invalidate\<close> of a child is \<open>Cache::invalidate\<close>.
  Calls go up the tree of caches (accesses) and down (invalidations), so a bound on the depth of
  the calls, the fuel, is the height of the tree; the theorems on the hierarchy show that it is
  enough.

  The invariant is stated cache by cache: what a cache's lines, its directory and its children
  have to do with each other.
\<close>

subsection \<open>Dispatch of the virtual calls\<close>

fun sys_invalidate :: "'a array_ops \<Rightarrow> (nat \<Rightarrow> cache_cfg) \<Rightarrow> nat \<Rightarrow> ('a, 'm) inval_fun" where
  "sys_invalidate ops cfg 0 c req wb h = Inl OutOfFuel"
| "sys_invalidate ops cfg (Suc n) c req wb h =
     cache_invalidate (sys_invalidate ops cfg n) ops (cfg c) c req wb h"

type_synonym 'm mem_fun = "nat \<Rightarrow> mem_req \<Rightarrow> 'm \<Rightarrow> (u64 \<times> mesi \<times> 'm) res"

definition mem_call :: "'m mem_fun \<Rightarrow> nat \<Rightarrow> mem_req \<Rightarrow> ('a, 'm) hier \<Rightarrow> (u64 \<times> ('a, 'm) hier) res" where
  "mem_call mem i req h = rbind (mem i req (mems h))
     (\<lambda>(resp, s, m). Inr (resp, set_state (state_ptr req) s (h\<lparr>mems := m\<rparr>)))"

fun sys_access :: "'a array_ops \<Rightarrow> 'm mem_fun \<Rightarrow> (nat \<Rightarrow> cache_cfg) \<Rightarrow> nat \<Rightarrow> nat \<Rightarrow> ('a, 'm) access_fun" where
  "sys_access ops mem cfg depth n (MemObj i) req h = mem_call mem i req h"
| "sys_access ops mem cfg depth 0 (CacheObj c) req h = Inl OutOfFuel"
| "sys_access ops mem cfg depth (Suc n) (CacheObj c) req h =
     cache_access (sys_access ops mem cfg depth n) (sys_invalidate ops cfg depth) ops (cfg c) c req h"

subsection \<open>The tree of caches\<close>

text \<open>
  \<open>lev\<close> is the level of a cache. Every cache but the last-level cache \<open>llc\<close> has one
  parent, a cache of a higher level, in whose list of children it has the position \<open>selfId\<close>.
  The parents of \<open>llc\<close> are memory controllers (one for each bank of memory). The caches are
  inclusive.
\<close>

definition tree_ok :: "(nat \<Rightarrow> cache_cfg) \<Rightarrow> (nat \<Rightarrow> nat) \<Rightarrow> nat \<Rightarrow> nat set \<Rightarrow> bool" where
  "tree_ok cfg lev llc Cs \<longleftrightarrow> llc \<in> Cs
     \<and> (\<forall>c \<in> Cs. \<not> nonInclusiveHack (cfg c)
          \<and> (terminal (cfg c) \<longrightarrow> children (cfg c) = [])
          \<and> length (childrenRTTs (cfg c)) = length (children (cfg c))
          \<and> length (children (cfg c)) \<le> 256
          \<and> (\<forall>i < length (children (cfg c)). let d = children (cfg c) ! i in
               d \<in> Cs \<and> d \<noteq> llc \<and> lev d < lev c \<and> parents (cfg d) = [CacheObj c] \<and> selfId (cfg d) = i))
     \<and> (\<forall>c \<in> Cs. c \<noteq> llc \<longrightarrow> (\<exists>p \<in> Cs. parents (cfg c) = [CacheObj p] \<and> \<not> terminal (cfg p)
          \<and> selfId (cfg c) < length (children (cfg p)) \<and> children (cfg p) ! selfId (cfg c) = c))
     \<and> parents (cfg llc) \<noteq> [] \<and> (\<forall>mo \<in> set (parents (cfg llc)). \<exists>i. mo = MemObj i)
     \<and> (\<forall>c \<in> Cs. lev c \<le> lev llc)"

inductive desc :: "(nat \<Rightarrow> cache_cfg) \<Rightarrow> nat \<Rightarrow> nat \<Rightarrow> bool" for cfg where
  desc_refl: "desc cfg c c"
| desc_step: "desc cfg c x \<Longrightarrow> d \<in> set (children (cfg x)) \<Longrightarrow> desc cfg c d"

lemma desc_trans: "desc cfg y z \<Longrightarrow> desc cfg x y \<Longrightarrow> desc cfg x z"
  by (induction rule: desc.induct) (auto intro: desc.intros)

lemma desc_child: "i < length (children (cfg c)) \<Longrightarrow> desc cfg c (children (cfg c) ! i)"
  by (auto intro: desc.intros)

subsection \<open>The invariant of a cache\<close>

text \<open>The coherence state that a cache has for an address.\<close>

definition line_state :: "(address \<Rightarrow> 'a \<Rightarrow> nat option) \<Rightarrow> ('a, 'm) hier \<Rightarrow> nat \<Rightarrow> address \<Rightarrow> mesi" where
  "line_state fd h c a = (case fd a (get_arr h c) of None \<Rightarrow> I | Some l \<Rightarrow> get_state h (c, l))"

text \<open>Valid lines are found under their address.\<close>

definition lines_ok :: "(address \<Rightarrow> 'a \<Rightarrow> nat option) \<Rightarrow> ('a \<Rightarrow> nat \<Rightarrow> address) \<Rightarrow> (address \<Rightarrow> bool) \<Rightarrow>
    ('a, 'm) hier \<Rightarrow> nat \<Rightarrow> bool" where
  "lines_ok fd tag addr_ok h c \<longleftrightarrow> (\<forall>l. get_state h (c, l) \<noteq> I \<longrightarrow>
     fd (tag (get_arr h c) l) (get_arr h c) = Some l \<and> addr_ok (tag (get_arr h c) l))"

text \<open>
  The directory entry of a line: its sharers are exactly the children that have the line, their
  number is right, the exclusive flag tells whether the (then only) sharer may write, and a
  writable child line needs a writable line here. An invalid line has no sharers.
\<close>

definition entry_ok :: "(address \<Rightarrow> 'a \<Rightarrow> nat option) \<Rightarrow> ('a \<Rightarrow> nat \<Rightarrow> address) \<Rightarrow> (nat \<Rightarrow> cache_cfg) \<Rightarrow>
    ('a, 'm) hier \<Rightarrow> nat \<Rightarrow> nat \<Rightarrow> bool" where
  "entry_ok fd tag cfg h c l \<longleftrightarrow>
     (let e = get_entry h c l;
          st = (\<lambda>i. line_state fd h (children (cfg c) ! i) (tag (get_arr h c) l))
      in (\<forall>i. sharers e i \<longleftrightarrow> i < length (children (cfg c)) \<and> get_state h (c, l) \<noteq> I \<and> st i \<noteq> I)
         \<and> unat (e_numSharers e) = card {i. sharers e i}
         \<and> (\<forall>i. sharers e i \<longrightarrow> (st i = E \<or> st i = M) = exclusive e)
         \<and> (exclusive e \<longrightarrow> e_numSharers e \<le> 1)
         \<and> (exclusive e \<and> e_numSharers e = 1 \<longrightarrow> get_state h (c, l) = E \<or> get_state h (c, l) = M))"

text \<open>Inclusion.\<close>

definition incl_ok :: "(address \<Rightarrow> 'a \<Rightarrow> nat option) \<Rightarrow> (nat \<Rightarrow> cache_cfg) \<Rightarrow> ('a, 'm) hier \<Rightarrow> nat \<Rightarrow> bool" where
  "incl_ok fd cfg h c \<longleftrightarrow> (\<forall>d \<in> set (children (cfg c)). \<forall>a.
     line_state fd h d a \<noteq> I \<longrightarrow> line_state fd h c a \<noteq> I)"

definition node_ok :: "(address \<Rightarrow> 'a \<Rightarrow> nat option) \<Rightarrow> ('a \<Rightarrow> nat \<Rightarrow> address) \<Rightarrow> (address \<Rightarrow> bool) \<Rightarrow>
    (nat \<Rightarrow> cache_cfg) \<Rightarrow> ('a, 'm) hier \<Rightarrow> nat \<Rightarrow> bool" where
  "node_ok fd tag addr_ok cfg h c \<longleftrightarrow> lines_ok fd tag addr_ok h c
     \<and> (\<forall>l. entry_ok fd tag cfg h c l) \<and> incl_ok fd cfg h c"

subsection \<open>Hierarchies over one kind of array\<close>

text \<open>
  The locale fixes the array and memory contracts and a tree. All caches have the same kind of
  array, with their own state. An array is well formed when it is between misses or a victim
  has been chosen.
\<close>

locale cache_tree = cache_array ops find tag nlines ready pending addr_ok + mem_object mem_access mem_ok
  for ops :: "'a array_ops" and find tag nlines ready pending addr_ok
    and mem_access :: "'m mem_fun" and mem_ok +
  fixes cfg :: "nat \<Rightarrow> cache_cfg" and lev :: "nat \<Rightarrow> nat" and llc :: nat and Cs :: "nat set"
  assumes tree: "tree_ok cfg lev llc Cs"
begin

abbreviation "sub \<equiv> desc cfg"
abbreviation "kids c \<equiv> children (cfg c)"
abbreviation "st \<equiv> line_state find"
abbreviation "node \<equiv> node_ok find tag addr_ok cfg"
abbreviation "ent \<equiv> entry_ok find tag cfg"

definition arr_wf :: "'a \<Rightarrow> bool" where
  "arr_wf s \<longleftrightarrow> ready s \<or> (\<exists>a l. pending a l s)"

definition arr_le :: "'a \<Rightarrow> 'a \<Rightarrow> bool" where
  "arr_le s s' \<longleftrightarrow> (\<forall>b. find b s' = find b s) \<and> tag s' = tag s \<and> nlines s' = nlines s
     \<and> (ready s \<longrightarrow> ready s') \<and> (\<forall>a l. pending a l s \<longrightarrow> pending a l s')"

lemma arr_le_refl [simp, intro]: "arr_le s s"
  by (simp add: arr_le_def)

lemma arr_le_trans: "arr_le s t \<Longrightarrow> arr_le t u \<Longrightarrow> arr_le s u"
  by (simp add: arr_le_def)

lemma arr_le_wf: "arr_le s s' \<Longrightarrow> arr_wf s \<Longrightarrow> arr_wf s'"
  by (auto simp: arr_le_def arr_wf_def)

lemma lookup_down:
  assumes "arr_wf s" and "addr_ok a"
  obtains s' where "a_lookup ops a None False s = Inr (find a s, s')" "arr_le s s'"
proof (cases "ready s")
  case True
  obtain s' where s': "a_lookup ops a None False s = Inr (find a s, s')" "ready s'" "tag s' = tag s"
    "\<forall>b. find b s' = find b s" "nlines s' = nlines s"
    using lookup_ready [OF True assms(2), of None False] by auto
  have "pending c l s'" if p: "pending c l s" for c l
  proof -
    from lookup_pending [OF p assms(2), of None False] s'(1) show ?thesis by auto
  qed
  with s' True show thesis by (intro that [of s']) (auto simp: arr_le_def)
next
  case False
  then obtain c0 l0 where p0: "pending c0 l0 s" using assms(1) by (auto simp: arr_wf_def)
  obtain s' where s': "a_lookup ops a None False s = Inr (find a s, s')" "tag s' = tag s"
    "\<forall>b. find b s' = find b s" "nlines s' = nlines s"
    using lookup_pending [OF p0 assms(2), of None False] by auto
  have "pending c l s'" if p: "pending c l s" for c l
    using lookup_pending [OF p assms(2), of None False] s'(1) by auto
  with s' False show thesis by (intro that [of s']) (auto simp: arr_le_def)
qed

subsubsection \<open>The shape of the tree\<close>

lemma tree_child:
  assumes "c \<in> Cs" and "i < length (kids c)"
  shows "kids c ! i \<in> Cs" "lev (kids c ! i) < lev c" "parents (cfg (kids c ! i)) = [CacheObj c]"
    "selfId (cfg (kids c ! i)) = i" "kids c ! i \<noteq> llc"
  using tree assms by (auto simp: tree_ok_def Let_def)

lemma tree_cache:
  assumes "c \<in> Cs"
  shows "\<not> nonInclusiveHack (cfg c)" "terminal (cfg c) \<Longrightarrow> kids c = []"
    "length (childrenRTTs (cfg c)) = length (kids c)" "length (kids c) \<le> 256" "lev c \<le> lev llc"
  using tree assms by (auto simp: tree_ok_def)

lemma child_in: "c \<in> Cs \<Longrightarrow> d \<in> set (kids c) \<Longrightarrow> d \<in> Cs \<and> lev d < lev c \<and> parents (cfg d) = [CacheObj c]"
  using tree_child by (metis in_set_conv_nth)

lemma kids_inj: "c \<in> Cs \<Longrightarrow> i < length (kids c) \<Longrightarrow> j < length (kids c) \<Longrightarrow> kids c ! i = kids c ! j \<Longrightarrow> i = j"
  using tree_child(4) by metis

lemma desc_lev: "sub c x \<Longrightarrow> c \<in> Cs \<Longrightarrow> x \<in> Cs \<and> (x = c \<or> lev x < lev c)"
proof (induction rule: desc.induct)
  case (desc_step c x d)
  then show ?case using child_in [of x d] by fastforce
qed simp

lemma one_parent: "x \<in> Cs \<Longrightarrow> y \<in> Cs \<Longrightarrow> d \<in> set (kids x) \<Longrightarrow> d \<in> set (kids y) \<Longrightarrow> x = y"
  using child_in [of x d] child_in [of y d] by simp

lemma sub_last: "sub d x \<Longrightarrow> x = d \<or> (\<exists>y. sub d y \<and> x \<in> set (kids y))"
  by (erule desc.cases) auto

lemma not_above:
  assumes "d \<in> set (kids c)" and "c \<in> Cs"
  shows "\<not> sub d c"
  using desc_lev [of d c] child_in [OF assms(2,1)] by auto

lemma subs_disjoint:
  assumes "c \<in> Cs" and "d \<in> set (kids c)" and "d' \<in> set (kids c)"
  shows "sub d x \<Longrightarrow> sub d' x \<Longrightarrow> d = d'"
proof (induction "lev c - lev x" arbitrary: x rule: less_induct)
  case less
  have dC: "d \<in> Cs" "d' \<in> Cs" using child_in assms by blast+
  note L = sub_last [OF less.prems(1)] sub_last [OF less.prems(2)]
  have up: False if "sub e y" "x \<in> set (kids y)" "x \<in> set (kids c)" "e \<in> set (kids c)" for e y
  proof -
    have "y \<in> Cs" using desc_lev [OF that(1)] child_in [OF assms(1) that(4)] by blast
    then have "y = c" using one_parent [OF _ assms(1) that(2,3)] by simp
    then show False using not_above [OF that(4) assms(1)] that(1) by simp
  qed
  show ?case
  proof (cases "x = d \<or> x = d'")
    case True
    then show ?thesis using L up assms(2,3) by blast
  next
    case False
    then obtain y y' where y: "sub d y" "x \<in> set (kids y)" "sub d' y'" "x \<in> set (kids y')" using L by blast
    have yC: "y \<in> Cs" "y' \<in> Cs" using desc_lev y dC by blast+
    then have "y = y'" using one_parent y by blast
    moreover have "lev x < lev y" using child_in [OF yC(1) y(2)] by simp
    moreover have "lev y < lev c" using desc_lev [OF y(1) dC(1)] child_in [OF assms(1,2)] by auto
    ultimately show ?thesis using less.hyps [of y] y by simp
  qed
qed

lemma sub_cases: "sub c x \<Longrightarrow> x = c \<or> (\<exists>d \<in> set (kids c). sub d x)"
proof (induction rule: desc.induct)
  case (desc_step c x d)
  then show ?case by (auto intro: desc.intros)
qed simp

lemma sub_child: "d \<in> set (kids c) \<Longrightarrow> sub d x \<Longrightarrow> sub c x"
  by (meson desc_refl desc_step desc_trans)

subsubsection \<open>What the invariant of a cache depends on\<close>

definition same_arr :: "('a, 'm) hier \<Rightarrow> ('a, 'm) hier \<Rightarrow> nat \<Rightarrow> bool" where
  "same_arr h h' x \<longleftrightarrow> (\<forall>b. find b (get_arr h' x) = find b (get_arr h x)) \<and> tag (get_arr h' x) = tag (get_arr h x)"

definition same_view :: "('a, 'm) hier \<Rightarrow> ('a, 'm) hier \<Rightarrow> nat \<Rightarrow> bool" where
  "same_view h h' x \<longleftrightarrow> same_arr h h' x \<and> (\<forall>l. get_state h' (x, l) = get_state h (x, l))
     \<and> (\<forall>l. get_entry h' x l = get_entry h x l)"

lemma same_arr_le: "arr_le (get_arr h x) (get_arr h' x) \<Longrightarrow> same_arr h h' x"
  by (simp add: arr_le_def same_arr_def)

lemma st_cong: "same_arr h h' x \<Longrightarrow> (\<And>l. find a (get_arr h x) = Some l \<Longrightarrow> get_state h' (x, l) = get_state h (x, l))
    \<Longrightarrow> st h' x a = st h x a"
  by (auto simp: line_state_def same_arr_def split: option.split)

lemma st_view: "same_view h h' x \<Longrightarrow> st h' x a = st h x a"
  by (auto simp: same_view_def intro!: st_cong)

lemma ent_cong:
  assumes "same_arr h h' c" and "get_state h' (c, l) = get_state h (c, l)"
    and "get_entry h' c l = get_entry h c l"
    and "\<And>d. d \<in> set (kids c) \<Longrightarrow> st h' d (tag (get_arr h c) l) = st h d (tag (get_arr h c) l)"
  shows "ent h' c l = ent h c l"
proof -
  have tags: "tag (get_arr h' c) l = tag (get_arr h c) l" using assms(1) by (simp add: same_arr_def)
  have "st h' (kids c ! i) (tag (get_arr h c) l) = st h (kids c ! i) (tag (get_arr h c) l)"
    if "i < length (kids c)" for i
    using assms(4) that by simp
  then show ?thesis
    unfolding entry_ok_def Let_def tags assms(2,3) by (intro conj_cong all_cong1) auto
qed

lemma incl_cong:
  assumes "\<And>a. st h' c a = st h c a" and "\<And>d a. d \<in> set (kids c) \<Longrightarrow> st h' d a = st h d a"
  shows "incl_ok find cfg h' c = incl_ok find cfg h c"
  using assms by (simp add: incl_ok_def)

lemma lines_cong:
  assumes "same_arr h h' c" and "\<And>l. get_state h' (c, l) = get_state h (c, l)"
  shows "lines_ok find tag addr_ok h' c = lines_ok find tag addr_ok h c"
  using assms by (simp add: lines_ok_def same_arr_def)

lemma node_cong:
  assumes "same_view h h' c" and "\<And>d a. d \<in> set (kids c) \<Longrightarrow> st h' d a = st h d a"
  shows "node h' c = node h c"
proof -
  have "ent h' c l = ent h c l" for l
    by (rule ent_cong) (use assms in \<open>auto simp: same_view_def\<close>)
  moreover have "incl_ok find cfg h' c = incl_ok find cfg h c"
    by (rule incl_cong) (use assms st_view in blast)+
  moreover have "lines_ok find tag addr_ok h' c = lines_ok find tag addr_ok h c"
    by (rule lines_cong) (use assms in \<open>auto simp: same_view_def\<close>)
  ultimately show ?thesis by (simp add: node_ok_def)
qed

lemma node_caches:
  fixes h h' :: "('a, 'm) hier"
  assumes "caches h' c = caches h c" and "\<And>d. d \<in> set (kids c) \<Longrightarrow> caches h' d = caches h d"
  shows "node h' c = node h c"
proof (rule node_cong)
  show "same_view h h' c"
    using assms(1) by (simp add: same_view_def same_arr_def get_arr_def get_state_def get_entry_def)
  show "st h' d a = st h d a" if "d \<in> set (kids c)" for d a
    using assms(2) [OF that] by (simp add: line_state_def get_arr_def get_state_def split: option.split)
qed

end

end
