(* ===== verification/HierInval.thy ===== *)
theory HierInval
  imports Hierarchy
begin

section \<open>Invalidations go down the tree\<close>

text \<open>
  An invalidation of an address at a cache reaches all the caches below that have the address,
  and leaves every other line and every other cache as it was. The proof follows the calls:
  \<open>Cache::invalidate\<close>, \<open>MESITopCC::sendInvalidates\<close> with its loop over the sharers, and the
  children's \<open>invalidate\<close> by induction on the level.
\<close>

context cache_tree
begin

text \<open>
  What changed between two states: only caches in \<open>X\<close>, and there only lines that hold \<open>a\<close>;
  the arrays find what they found; locks and memories are as before.
\<close>

definition chg :: "nat set \<Rightarrow> address \<Rightarrow> ('a, 'm) hier \<Rightarrow> ('a, 'm) hier \<Rightarrow> bool" where
  "chg X a h h' \<longleftrightarrow> held h' = held h \<and> mems h' = mems h
     \<and> (\<forall>x. x \<notin> X \<longrightarrow> caches h' x = caches h x)
     \<and> (\<forall>x. arr_le (get_arr h x) (get_arr h' x))
     \<and> (\<forall>x l. tag (get_arr h x) l \<noteq> a \<longrightarrow>
          get_state h' (x, l) = get_state h (x, l) \<and> get_entry h' x l = get_entry h x l)"

lemma chgD:
  assumes "chg X a h h'"
  shows "held h' = held h" "mems h' = mems h" "x \<notin> X \<Longrightarrow> caches h' x = caches h x"
    "arr_le (get_arr h x) (get_arr h' x)" "same_arr h h' x"
    "tag (get_arr h x) l \<noteq> a \<Longrightarrow> get_state h' (x, l) = get_state h (x, l)"
    "tag (get_arr h x) l \<noteq> a \<Longrightarrow> get_entry h' x l = get_entry h x l"
  using assms by (auto simp: chg_def intro: same_arr_le)

lemma chg_refl [simp]: "chg X a h h"
  by (simp add: chg_def)

lemma chg_trans:
  assumes "chg X a h h1" and "chg Y a h1 h2"
  shows "chg (X \<union> Y) a h h2"
proof -
  have "tag (get_arr h1 x) = tag (get_arr h x)" for x using assms(1) by (simp add: chg_def arr_le_def)
  then show ?thesis using assms unfolding chg_def by (auto intro: arr_le_trans)
qed

lemma chg_mono: "chg X a h h' \<Longrightarrow> X \<subseteq> Y \<Longrightarrow> chg Y a h h'"
  by (auto simp: chg_def)

text \<open>The coherence states of other addresses, and of caches outside \<open>X\<close>, stay.\<close>

lemma chg_st_other:
  assumes "chg X a h h'" and "b \<noteq> a" and "arr_wf (get_arr h x)"
  shows "st h' x b = st h x b"
proof (rule st_cong)
  show "same_arr h h' x" by (rule chgD(5) [OF assms(1)])
  fix l assume "find b (get_arr h x) = Some l"
  then have "tag (get_arr h x) l = b" using assms(3) find_tag unfolding arr_wf_def by blast
  then show "get_state h' (x, l) = get_state h (x, l)" using chgD(6) [OF assms(1)] assms(2) by auto
qed

lemma st_caches:
  fixes h h' :: "('a, 'm) hier"
  shows "caches h' x = caches h x \<Longrightarrow> st h' x b = st h x b"
  by (simp add: line_state_def get_arr_def get_state_def split: option.split)

lemma chg_st_out: "chg X a h h' \<Longrightarrow> x \<notin> X \<Longrightarrow> st h' x b = st h x b"
  by (rule st_caches) (rule chgD(3))

lemma st_found: "find a (get_arr h x) = Some l \<Longrightarrow> st h x a = get_state h (x, l)"
  by (simp add: line_state_def)

text \<open>The caches below \<open>d\<close> are well formed and their bottom locks are free.\<close>

definition below_ok :: "('a, 'm) hier \<Rightarrow> nat \<Rightarrow> bool" where
  "below_ok h d \<longleftrightarrow> (\<forall>x. sub d x \<longrightarrow> node h x \<and> arr_wf (get_arr h x) \<and> \<not> held h (BccLock x))"

lemma below_child: "below_ok h c \<Longrightarrow> d \<in> set (kids c) \<Longrightarrow> below_ok h d"
  using sub_child by (auto simp: below_ok_def)

lemma below_caches:
  assumes "below_ok h d" and "\<And>x. sub d x \<Longrightarrow> caches h' x = caches h x"
    and "\<And>x. sub d x \<Longrightarrow> held h' (BccLock x) = held h (BccLock x)"
  shows "below_ok h' d"
  unfolding below_ok_def
proof (intro allI impI)
  fix x assume x: "sub d x"
  have "node h' x = node h x"
    by (rule node_caches) (use assms(2) x desc_step in blast)+
  then show "node h' x \<and> arr_wf (get_arr h' x) \<and> \<not> held h' (BccLock x)"
    using assms x by (simp add: below_ok_def get_arr_def)
qed

subsection \<open>The contract of an invalidation\<close>

definition inv_result :: "inv_type \<Rightarrow> mesi" where
  "inv_result t = (if t = INV then I else S)"

definition writable :: "mesi \<Rightarrow> bool" where
  "writable s \<longleftrightarrow> s = E \<or> s = M"

text \<open>
  The latency of an invalidation: each cache on the way down adds its invalidation latency and
  the round trip to a child, both of 32 bits.
\<close>

definition kids_lat :: "nat \<Rightarrow> nat" where
  "kids_lat d = 2 * lev d * 2 ^ 32"

definition inval_lat :: "nat \<Rightarrow> nat" where
  "inval_lat d = kids_lat d + 2 ^ 32"

lemma kids_latI:
  assumes "d \<in> set (kids c)" and "c \<in> Cs"
  shows "inval_lat d + 2 ^ 32 \<le> kids_lat c"
proof -
  have "Suc (lev d) \<le> lev c" using child_in [OF assms(2,1)] by simp
  then have "2 * Suc (lev d) * 2 ^ 32 \<le> 2 * lev c * 2 ^ 32" by (intro mult_le_mono) simp_all
  then show ?thesis by (simp add: inval_lat_def kids_lat_def)
qed

lemma add_lat:
  assumes "unat (a :: u64) \<le> x + k" and "x + (k + 2 ^ 32) \<le> 2 ^ 64"
  shows "unat (a + ucast (b :: u32)) \<le> x + (k + 2 ^ 32)"
proof -
  have "unat b < 2 ^ 32" using unat_less_exp [of b] by simp
  then show ?thesis using assms add_no_wrap [of a b] by simp
qed

definition inval_contract :: "('a, 'm) inval_fun \<Rightarrow> nat \<Rightarrow> bool" where
  "inval_contract invl d \<longleftrightarrow> (\<forall>h req wb.
     below_ok h d \<longrightarrow> addr_ok (i_lineAddr req) \<longrightarrow> st h d (i_lineAddr req) \<noteq> I \<longrightarrow> i_type req \<noteq> FWD \<longrightarrow>
     (i_type req = INVX \<longrightarrow> writable (st h d (i_lineAddr req))) \<longrightarrow>
     (\<exists>resp wb' h'. invl d req wb h = Inr (resp, wb', h')
        \<and> chg {x. sub d x} (i_lineAddr req) h h' \<and> below_ok h' d
        \<and> st h' d (i_lineAddr req) = inv_result (i_type req)
        \<and> (wb' \<longrightarrow> wb \<or> writable (st h d (i_lineAddr req)))
        \<and> (unat (i_cycle req) + inval_lat d \<le> 2 ^ 64 \<longrightarrow> unat resp \<le> unat (i_cycle req) + inval_lat d)))"

subsection \<open>The loop over the sharers\<close>

lemma child_list_Cons:
  assumes "length (childrenRTTs (cfg c)) = length (kids c)" and "k < length (kids c)"
  shows "drop k (child_list (cfg c)) = (k, kids c ! k, childrenRTTs (cfg c) ! k) # drop (Suc k) (child_list (cfg c))"
proof -
  have "k < length (child_list (cfg c))" using assms by (simp add: child_list_def)
  then show ?thesis using assms by (simp add: Cons_nth_drop_Suc [symmetric] child_list_def)
qed

text \<open>The caches below the sharers from position \<open>k\<close> on.\<close>

definition below_from :: "entry \<Rightarrow> nat \<Rightarrow> nat \<Rightarrow> nat set" where
  "below_from e c k = {x. \<exists>i. k \<le> i \<and> i < length (kids c) \<and> sharers e i \<and> sub (kids c ! i) x}"

lemma below_from_Suc: "below_from e c (Suc k) \<subseteq> below_from e c k"
  unfolding below_from_def by (blast dest: Suc_leD)

lemma below_from_sub: "below_from e c k \<subseteq> {x. sub c x}"
  using sub_child [OF nth_mem] by (auto simp: below_from_def)

lemma below_from_sharer:
  "k < length (kids c) \<Longrightarrow> sharers e k \<Longrightarrow> {x. sub (kids c ! k) x} \<subseteq> below_from e c k"
  by (auto simp: below_from_def)

lemma below_from_cong: "(\<And>i. k \<le> i \<Longrightarrow> sharers e i = sharers e' i) \<Longrightarrow> below_from e c k = below_from e' c k"
  by (auto simp: below_from_def)

text \<open>A change outside the caches below \<open>d\<close> leaves them well formed.\<close>

lemma below_keep:
  assumes "chg X a h h'" and "below_ok h d" and "\<And>x. sub d x \<Longrightarrow> x \<notin> X"
  shows "below_ok h' d" and "st h' d b = st h d b"
proof -
  show "below_ok h' d"
    by (rule below_caches [OF assms(2)]) (use assms(1,3) chgD in auto)
  show "st h' d b = st h d b" by (rule chg_st_out [OF assms(1)]) (use assms(3) desc_refl in blast)
qed

lemma kids_disjoint:
  assumes "c \<in> Cs" and "i < length (kids c)" and "j < length (kids c)"
    and "sub (kids c ! i) x" and "sub (kids c ! j) x"
  shows "i = j"
  using subs_disjoint [OF assms(1) nth_mem [OF assms(2)] nth_mem [OF assms(3)] assms(4,5)]
    kids_inj [OF assms(1-3)] by blast

lemma not_below_from:
  assumes "c \<in> Cs"
  shows "c \<notin> below_from e c k" and "sub (kids c ! i) x \<Longrightarrow> i < length (kids c) \<Longrightarrow> i < k \<Longrightarrow> x \<notin> below_from e c k"
proof -
  show "c \<notin> below_from e c k" using not_above [OF _ assms] by (auto simp: below_from_def)
  show "x \<notin> below_from e c k" if x: "sub (kids c ! i) x" "i < length (kids c)" "i < k"
    using kids_disjoint [OF assms x(2) _ x(1)] x(3) by (fastforce simp: below_from_def)
qed

text \<open>
  What the loop does to cache \<open>c\<close> itself: for INV it clears the sharer bits it has passed.
\<close>

definition cleared :: "inv_type \<Rightarrow> nat \<Rightarrow> entry \<Rightarrow> entry" where
  "cleared t k e = (if t = INV then e\<lparr>sharers := (\<lambda>i. i < k \<and> sharers e i)\<rparr> else e)"

definition own_view :: "nat \<Rightarrow> nat \<Rightarrow> ('a, 'm) hier \<Rightarrow> ('a, 'm) hier \<Rightarrow> bool" where
  "own_view c l h h' \<longleftrightarrow> get_arr h' c = get_arr h c \<and> (\<forall>k. get_state h' (c, k) = get_state h (c, k))
     \<and> (\<forall>k. k \<noteq> l \<longrightarrow> get_entry h' c k = get_entry h c k)"

lemma send_loop_ok:
  assumes c: "c \<in> Cs" and inval: "\<And>i. i < length (kids c) \<Longrightarrow> inval_contract invl (kids c ! i)"
    and a: "addr_ok (i_lineAddr req)" and t: "i_type req \<noteq> FWD"
  shows "\<forall>i. k \<le> i \<longrightarrow> i < length (kids c) \<longrightarrow> below_ok h (kids c ! i) \<Longrightarrow>
    \<forall>i. k \<le> i \<longrightarrow> i < length (kids c) \<longrightarrow> sharers (get_entry h c l) i \<longrightarrow>
      st h (kids c ! i) (i_lineAddr req) \<noteq> I \<and> (i_type req = INVX \<longrightarrow> writable (st h (kids c ! i) (i_lineAddr req))) \<Longrightarrow>
    tag (get_arr h c) l = i_lineAddr req \<Longrightarrow> k \<le> length (kids c) \<Longrightarrow>
    \<forall>i \<ge> length (kids c). \<not> sharers (get_entry h c l) i \<Longrightarrow>
    \<exists>mx' wb' sent' h'. send_loop invl c l req (drop k (child_list (cfg c))) (mx, wb, sent, h) = Inr (mx', wb', sent', h')
      \<and> sent' = sent + of_nat (card {i. k \<le> i \<and> sharers (get_entry h c l) i})
      \<and> mx \<le> mx' \<and> chg (insert c (below_from (get_entry h c l) c k)) (i_lineAddr req) h h' \<and> own_view c l h h'
      \<and> get_entry h' c l = cleared (i_type req) k (get_entry h c l)
      \<and> (\<forall>i. k \<le> i \<longrightarrow> i < length (kids c) \<longrightarrow> below_ok h' (kids c ! i)
           \<and> st h' (kids c ! i) (i_lineAddr req) = (if sharers (get_entry h c l) i then inv_result (i_type req)
                else st h (kids c ! i) (i_lineAddr req)))
      \<and> (wb' \<longrightarrow> wb \<or> (\<exists>i. k \<le> i \<and> sharers (get_entry h c l) i \<and> writable (st h (kids c ! i) (i_lineAddr req))))
      \<and> (unat (i_cycle req) + kids_lat c \<le> 2 ^ 64 \<longrightarrow> unat mx \<le> unat (i_cycle req) + kids_lat c \<longrightarrow>
           unat mx' \<le> unat (i_cycle req) + kids_lat c)"
proof (induction "length (kids c) - k" arbitrary: k mx wb sent h)
  case 0
  then have k: "k = length (kids c)" by simp
  have "drop k (child_list (cfg c)) = []" by (simp add: k child_list_def)
  moreover have "card {i. length (kids c) \<le> i \<and> sharers (get_entry h c l) i} = 0"
    using "0.prems"(5) by (simp add: card_eq_0_iff)
  moreover have "cleared (i_type req) k (get_entry h c l) = get_entry h c l"
    using "0.prems"(5) k by (auto simp: cleared_def fun_eq_iff not_le [symmetric] intro!: entry.equality)
  ultimately show ?case using k by (auto simp: own_view_def)
next
  case (Suc m)
  let ?a = "i_lineAddr req" and ?t = "i_type req" and ?d = "kids c ! k" and ?e = "get_entry h c l"
  have k: "k < length (kids c)" using Suc.hyps(2) by simp
  note list = child_list_Cons [OF tree_cache(3) [OF c] k]
  let ?n = "length (kids c)"
  have dc: "?d \<in> set (kids c)" using k by simp
  have sub_d: "x \<notin> insert c (below_from e c (Suc k))" if "sub ?d x" for x e
    using that not_below_from(2) [OF c that k, of "Suc k"] not_above [OF dc c] by auto
  have later: "x \<notin> insert c {x. sub ?d x}" if "sub (kids c ! i) x" "Suc k \<le> i" "i < ?n" for x i
  proof -
    have "x \<noteq> c" using not_above [OF _ c] that(1,3) by auto
    moreover have "\<not> sub ?d x" using kids_disjoint [OF c that(3) k that(1)] that(2) by auto
    ultimately show ?thesis by simp
  qed
  have fin: "finite {i. j \<le> i \<and> sharers ?e i}" for j
    by (rule finite_subset [of _ "{..<?n}"]) (use Suc.prems(5) not_le in auto)
  show ?case
  proof (cases "sharers ?e k")
    case False
    have m: "m = ?n - Suc k" "Suc k \<le> ?n" using Suc.hyps(2) k by simp_all
    have "\<forall>i. Suc k \<le> i \<longrightarrow> i < ?n \<longrightarrow> below_ok h (kids c ! i)"
      "\<forall>i. Suc k \<le> i \<longrightarrow> i < ?n \<longrightarrow> sharers ?e i \<longrightarrow>
        st h (kids c ! i) ?a \<noteq> I \<and> (?t = INVX \<longrightarrow> writable (st h (kids c ! i) ?a))"
      using Suc.prems(1,2) by auto
    from Suc.hyps(1) [OF m(1) this Suc.prems(3) m(2) Suc.prems(5), of mx wb sent] obtain mx' wb' sent' h' where
      ih: "send_loop invl c l req (drop (Suc k) (child_list (cfg c))) (mx, wb, sent, h) = Inr (mx', wb', sent', h')"
      "sent' = sent + of_nat (card {i. Suc k \<le> i \<and> sharers ?e i})"
      "mx \<le> mx'" "chg (insert c (below_from ?e c (Suc k))) ?a h h'" "own_view c l h h'"
      "get_entry h' c l = cleared ?t (Suc k) ?e"
      "\<forall>i. Suc k \<le> i \<longrightarrow> i < ?n \<longrightarrow> below_ok h' (kids c ! i)
         \<and> st h' (kids c ! i) ?a = (if sharers ?e i then inv_result ?t else st h (kids c ! i) ?a)"
      "wb' \<longrightarrow> wb \<or> (\<exists>i. Suc k \<le> i \<and> sharers ?e i \<and> writable (st h (kids c ! i) ?a))"
      "unat (i_cycle req) + kids_lat c \<le> 2 ^ 64 \<longrightarrow> unat mx \<le> unat (i_cycle req) + kids_lat c \<longrightarrow>
           unat mx' \<le> unat (i_cycle req) + kids_lat c"
      by blast
    have set_eq: "{i. k \<le> i \<and> sharers ?e i} = {i. Suc k \<le> i \<and> sharers ?e i}"
      using False by (auto simp: Suc_le_eq le_less)
    have d: "below_ok h' ?d" "st h' ?d ?a = st h ?d ?a"
      using below_keep [OF ih(4) _ sub_d] Suc.prems(1) k by auto
    show ?thesis
    proof (intro exI conjI allI impI)
      show "send_loop invl c l req (drop k (child_list (cfg c))) (mx, wb, sent, h) = Inr (mx', wb', sent', h')"
        using ih(1) False by (simp add: list)
      show "sent' = sent + of_nat (card {i. k \<le> i \<and> sharers ?e i})" unfolding set_eq by (rule ih(2))
      show "chg (insert c (below_from ?e c k)) ?a h h'"
        by (rule chg_mono [OF ih(4)]) (use below_from_Suc in auto)
      show "get_entry h' c l = cleared ?t k ?e"
        using ih(6) False by (auto simp: cleared_def fun_eq_iff less_Suc_eq intro!: entry.equality)
      show "below_ok h' (kids c ! i)" if "k \<le> i" "i < ?n" for i
        using ih(7) d(1) that by (cases "i = k") auto
      show "st h' (kids c ! i) ?a = (if sharers ?e i then inv_result ?t else st h (kids c ! i) ?a)"
        if "k \<le> i" "i < ?n" for i
        using ih(7) d(2) that False by (cases "i = k") auto
      show "wb \<or> (\<exists>i. k \<le> i \<and> sharers ?e i \<and> writable (st h (kids c ! i) ?a))" if "wb'"
        using ih(8) that by (meson Suc_leD)
      show "unat mx' \<le> unat (i_cycle req) + kids_lat c"
        if "unat (i_cycle req) + kids_lat c \<le> 2 ^ 64" "unat mx \<le> unat (i_cycle req) + kids_lat c"
        using ih(9) that by blast
    qed (fact ih)+
  next
    case True
    have "below_ok h ?d" "st h ?d ?a \<noteq> I" "?t = INVX \<longrightarrow> writable (st h ?d ?a)"
      using Suc.prems(1,2) k True by auto
    with inval [OF k] a t obtain resp wb1 h1 where
      inv: "invl ?d req wb h = Inr (resp, wb1, h1)" "chg {x. sub ?d x} ?a h h1" "below_ok h1 ?d"
      "st h1 ?d ?a = inv_result ?t" "wb1 \<longrightarrow> wb \<or> writable (st h ?d ?a)"
      "unat (i_cycle req) + inval_lat ?d \<le> 2 ^ 64 \<longrightarrow> unat resp \<le> unat (i_cycle req) + inval_lat ?d"
      unfolding inval_contract_def by blast
    have e1: "caches h1 c = caches h c" using chgD(3) [OF inv(2), of c] not_above [OF dc c] by simp
    define e2 where "e2 = (if ?t = INV then ?e\<lparr>sharers := (sharers ?e)(k := False)\<rparr> else ?e)"
    define h2 where "h2 = (if ?t = INV then set_entry c l e2 h1 else h1)"
    have step: "send_loop invl c l req (drop k (child_list (cfg c))) (mx, wb, sent, h)
      = send_loop invl c l req (drop (Suc k) (child_list (cfg c)))
          (max (resp + ucast (childrenRTTs (cfg c) ! k)) mx, wb1, sent + 1, h2)"
      using True inv(1) e1 by (simp add: list h2_def e2_def Let_def get_entry_def)
    have own2: "own_view c l h h2" "get_entry h2 c l = e2"
      using e1 by (auto simp: h2_def e2_def own_view_def hier_simps get_arr_def get_state_def
          get_entry_def set_entry_def upd_cache_def)
    have chg12: "chg {c} ?a h1 h2"
      using Suc.prems(3) e1 by (auto simp: chg_def h2_def hier_simps set_entry_def upd_cache_def
          get_arr_def get_entry_def get_state_def)
    have chg2: "chg (insert c {x. sub ?d x}) ?a h h2"
      by (rule chg_mono [OF chg_trans [OF inv(2) chg12]]) auto
    have sh2: "sharers e2 i = sharers ?e i" if "Suc k \<le> i" for i
      using that by (simp add: e2_def)
    have st2: "below_ok h2 (kids c ! i)" "st h2 (kids c ! i) ?a = st h (kids c ! i) ?a"
      if "Suc k \<le> i" "i < ?n" for i
      using below_keep [OF chg2 _ later] Suc.prems(1) that by auto
    have not_c: "x \<notin> {c}" if "sub ?d x" for x using not_above [OF dc c] that by auto
    have d2: "below_ok h2 ?d" "st h2 ?d ?a = inv_result ?t"
      using below_keep [OF chg12 inv(3) not_c] inv(4) by auto
    have "\<exists>mx' wb' sent' h'. send_loop invl c l req (drop (Suc k) (child_list (cfg c)))
          (max (resp + ucast (childrenRTTs (cfg c) ! k)) mx, wb1, sent + 1, h2) = Inr (mx', wb', sent', h')
      \<and> sent' = sent + 1 + of_nat (card {i. Suc k \<le> i \<and> sharers e2 i})
      \<and> max (resp + ucast (childrenRTTs (cfg c) ! k)) mx \<le> mx'
      \<and> chg (insert c (below_from e2 c (Suc k))) ?a h2 h' \<and> own_view c l h2 h'
      \<and> get_entry h' c l = cleared ?t (Suc k) e2
      \<and> (\<forall>i. Suc k \<le> i \<longrightarrow> i < ?n \<longrightarrow> below_ok h' (kids c ! i)
           \<and> st h' (kids c ! i) ?a = (if sharers e2 i then inv_result ?t else st h2 (kids c ! i) ?a))
      \<and> (wb' \<longrightarrow> wb1 \<or> (\<exists>i. Suc k \<le> i \<and> sharers e2 i \<and> writable (st h2 (kids c ! i) ?a)))
      \<and> (unat (i_cycle req) + kids_lat c \<le> 2 ^ 64 \<longrightarrow>
           unat (max (resp + ucast (childrenRTTs (cfg c) ! k)) mx) \<le> unat (i_cycle req) + kids_lat c \<longrightarrow>
           unat mx' \<le> unat (i_cycle req) + kids_lat c)"
      unfolding own2(2) [symmetric]
    proof (rule Suc.hyps(1))
      show "m = ?n - Suc k" using Suc.hyps(2) by simp
      show "tag (get_arr h2 c) l = ?a" using own2(1) Suc.prems(3) by (simp add: own_view_def)
      show "\<forall>i\<ge>?n. \<not> sharers (get_entry h2 c l) i" using Suc.prems(5) sh2 k by (simp add: own2(2))
    qed (use k st2 sh2 own2(2) Suc.prems(2) in auto)
    then obtain mx' wb' sent' h' where
      ih: "send_loop invl c l req (drop (Suc k) (child_list (cfg c)))
          (max (resp + ucast (childrenRTTs (cfg c) ! k)) mx, wb1, sent + 1, h2) = Inr (mx', wb', sent', h')"
      "sent' = sent + 1 + of_nat (card {i. Suc k \<le> i \<and> sharers e2 i})"
      "max (resp + ucast (childrenRTTs (cfg c) ! k)) mx \<le> mx'"
      "chg (insert c (below_from e2 c (Suc k))) ?a h2 h'" "own_view c l h2 h'"
      "get_entry h' c l = cleared ?t (Suc k) e2"
      "\<forall>i. Suc k \<le> i \<longrightarrow> i < ?n \<longrightarrow> below_ok h' (kids c ! i)
           \<and> st h' (kids c ! i) ?a = (if sharers e2 i then inv_result ?t else st h2 (kids c ! i) ?a)"
      "wb' \<longrightarrow> wb1 \<or> (\<exists>i. Suc k \<le> i \<and> sharers e2 i \<and> writable (st h2 (kids c ! i) ?a))"
      "unat (i_cycle req) + kids_lat c \<le> 2 ^ 64 \<Longrightarrow>
         unat (max (resp + ucast (childrenRTTs (cfg c) ! k)) mx) \<le> unat (i_cycle req) + kids_lat c \<Longrightarrow>
         unat mx' \<le> unat (i_cycle req) + kids_lat c"
      by blast
    have card: "card {i. k \<le> i \<and> sharers ?e i} = Suc (card {i. Suc k \<le> i \<and> sharers e2 i})"
    proof -
      have "{i. k \<le> i \<and> sharers ?e i} = insert k {i. Suc k \<le> i \<and> sharers ?e i}"
        using True by (auto simp: Suc_le_eq le_less)
      moreover have "{i. Suc k \<le> i \<and> sharers e2 i} = {i. Suc k \<le> i \<and> sharers ?e i}" using sh2 by auto
      ultimately show ?thesis using fin [of "Suc k"] by simp
    qed
    have d3: "below_ok h' ?d" "st h' ?d ?a = inv_result ?t"
      using below_keep [OF ih(4) d2(1) sub_d] d2(2) by auto
    show ?thesis
    proof (intro exI conjI allI impI)
      show "send_loop invl c l req (drop k (child_list (cfg c))) (mx, wb, sent, h) = Inr (mx', wb', sent', h')"
        unfolding step by (rule ih(1))
      show "sent' = sent + of_nat (card {i. k \<le> i \<and> sharers ?e i})"
        unfolding card ih(2) by (simp add: add.assoc)
      show "mx \<le> mx'" using ih(3) by simp
      show "chg (insert c (below_from ?e c k)) ?a h h'"
        by (rule chg_mono [OF chg_trans [OF chg2 ih(4)]])
          (use below_from_Suc below_from_sharer [OF k True] below_from_cong [OF sh2] in auto)
      show "own_view c l h h'" using own2(1) ih(5) by (simp add: own_view_def)
      show "get_entry h' c l = cleared ?t k ?e"
        unfolding ih(6) by (auto simp: cleared_def e2_def fun_eq_iff less_Suc_eq intro!: entry.equality)
      show "below_ok h' (kids c ! i)" if "k \<le> i" "i < ?n" for i
        using ih(7) d3(1) that by (cases "i = k") auto
      show "st h' (kids c ! i) ?a = (if sharers ?e i then inv_result ?t else st h (kids c ! i) ?a)"
        if "k \<le> i" "i < ?n" for i
        using ih(7) d3(2) st2 sh2 that True by (cases "i = k") auto
      show "wb \<or> (\<exists>i. k \<le> i \<and> sharers ?e i \<and> writable (st h (kids c ! i) ?a))" if w: "wb'"
      proof -
        consider "wb1" | i where "Suc k \<le> i" "sharers e2 i" "writable (st h2 (kids c ! i) ?a)"
          using ih(8) w by blast
        then show ?thesis
        proof cases
          case 1
          then show ?thesis using inv(5) True by blast
        next
          case 2
          then have sh: "sharers ?e i" using sh2 by simp
          then have "i < ?n" using Suc.prems(5) by (meson not_le)
          then have "writable (st h (kids c ! i) ?a)" using 2(1,3) st2(2) by simp
          then show ?thesis using sh Suc_leD [OF 2(1)] by blast
        qed
      qed
      show "unat mx' \<le> unat (i_cycle req) + kids_lat c"
        if b: "unat (i_cycle req) + kids_lat c \<le> 2 ^ 64" "unat mx \<le> unat (i_cycle req) + kids_lat c"
      proof (rule ih(9) [OF b(1)])
        have lat: "inval_lat ?d + 2 ^ 32 \<le> kids_lat c" by (rule kids_latI [OF dc c])
        then have "unat (i_cycle req) + inval_lat ?d \<le> 2 ^ 64"
          "unat (i_cycle req) + (inval_lat ?d + 2 ^ 32) \<le> 2 ^ 64" using b(1) by linarith+
        with inv(6) have "unat (resp + ucast (childrenRTTs (cfg c) ! k)) \<le> unat (i_cycle req) + (inval_lat ?d + 2 ^ 32)"
          by (intro add_lat) blast+
        with lat b(2) show "unat (max (resp + ucast (childrenRTTs (cfg c) ! k)) mx) \<le> unat (i_cycle req) + kids_lat c"
          by (simp add: max_def)
      qed
    qed
  qed
qed

subsection \<open>\<open>sendInvalidates\<close>\<close>

text \<open>
  Which sharers a directory entry names, and whether they may write. The entry of a line
  satisfies it; so does the entry of a line after the requester of a GETX has been dropped.
\<close>

definition sharers_ok :: "('a, 'm) hier \<Rightarrow> nat \<Rightarrow> address \<Rightarrow> entry \<Rightarrow> bool" where
  "sharers_ok h c a e \<longleftrightarrow>
     (\<forall>i. sharers e i \<longrightarrow> i < length (kids c) \<and> st h (kids c ! i) a \<noteq> I \<and> writable (st h (kids c ! i) a) = exclusive e)
     \<and> unat (e_numSharers e) = card {i. sharers e i} \<and> (exclusive e \<longrightarrow> e_numSharers e \<le> 1)"

definition invalidated :: "inv_type \<Rightarrow> entry \<Rightarrow> entry" where
  "invalidated t e = (if t = INV then e\<lparr>sharers := (\<lambda>_. False), e_numSharers := 0\<rparr>
     else if entry_isExclusive e then e\<lparr>exclusive := False\<rparr> else e)"

lemma sharers_fin:
  assumes "\<And>i. sharers e i \<Longrightarrow> i < length (kids c)"
  shows "finite {i. sharers e i}"
  by (rule finite_subset [of _ "{..<length (kids c)}"]) (use assms in auto)

lemma no_sharers:
  assumes "sharers_ok h c a e" and "isEmpty e"
  shows "\<not> sharers e i"
proof -
  have "finite {i. sharers e i}" by (rule sharers_fin [of _ c]) (use assms in \<open>auto simp: sharers_ok_def\<close>)
  then show ?thesis using assms by (auto simp: sharers_ok_def isEmpty_def)
qed

lemma exclusive_sharer:
  assumes "sharers_ok h c a e" and "sharers e i" and "exclusive e"
  shows "entry_isExclusive e"
proof -
  have "e_numSharers e \<le> 1" "e_numSharers e \<noteq> 0"
    using assms no_sharers [OF assms(1)] by (auto simp: sharers_ok_def isEmpty_def)
  then have "unat (e_numSharers e) \<le> 1" "unat (e_numSharers e) \<noteq> 0"
    by (simp_all only: word_le_nat_alt unat_1 unat_eq_zero not_False_eq_True)
  then have "unat (e_numSharers e) = unat (1 :: u32)" by simp
  then have "e_numSharers e = 1" by (simp only: word_unat_eq_iff)
  then show ?thesis using assms(3) by (simp add: entry_isExclusive_def)
qed

lemma send_inv_ok:
  assumes c: "c \<in> Cs" and inval: "\<And>i. i < length (kids c) \<Longrightarrow> inval_contract invl (kids c ! i)"
    and a: "addr_ok a" and t: "t \<noteq> FWD" and tag: "tag (get_arr h c) l = a"
    and e: "sharers_ok h c a (get_entry h c l)"
    and below: "\<And>i. i < length (kids c) \<Longrightarrow> below_ok h (kids c ! i)"
  shows "\<exists>resp wb' h'. tcc_sendInvalidates invl (cfg c) c a l t wb cyc src h = Inr (resp, wb', h')
      \<and> cyc \<le> resp \<and> chg (insert c (below_from (get_entry h c l) c 0)) a h h' \<and> own_view c l h h'
      \<and> get_entry h' c l = invalidated t (get_entry h c l)
      \<and> (\<forall>i < length (kids c). below_ok h' (kids c ! i) \<and> st h' (kids c ! i) a =
           (if sharers (get_entry h c l) i \<and> (t = INV \<or> entry_isExclusive (get_entry h c l)) then inv_result t
            else st h (kids c ! i) a))
      \<and> (wb' \<longrightarrow> wb \<or> (\<exists>i. sharers (get_entry h c l) i \<and> writable (st h (kids c ! i) a)))
      \<and> (unat cyc + kids_lat c \<le> 2 ^ 64 \<longrightarrow> unat resp \<le> unat cyc + kids_lat c)"
proof -
  let ?e = "get_entry h c l"
  define req where "req = \<lparr>i_lineAddr = a, i_type = t, i_cycle = cyc, i_srcId = src\<rparr>"
  have rq: "i_lineAddr req = a" "i_type req = t" "i_cycle req = cyc" by (simp_all add: req_def)
  consider "t = INVX" "\<not> entry_isExclusive ?e" | "\<not> (t = INVX \<and> \<not> entry_isExclusive ?e)" "isEmpty ?e"
    | "\<not> (t = INVX \<and> \<not> entry_isExclusive ?e)" "\<not> isEmpty ?e" by blast
  then show ?thesis
  proof cases
    case 1
    then show ?thesis using below by (auto simp: tcc_sendInvalidates_def invalidated_def own_view_def)
  next
    case 2
    have none: "\<not> sharers ?e i" for i by (rule no_sharers [OF e 2(2)])
    have "t = INV" using 2 t by (cases t) (auto simp: isEmpty_def entry_isExclusive_def)
    then have "invalidated t ?e = ?e" using none 2(2)
      by (auto simp: invalidated_def isEmpty_def fun_eq_iff intro!: entry.equality)
    then show ?thesis using below none 2 by (auto simp: tcc_sendInvalidates_def own_view_def)
  next
    case 3
    have sh: "sharers ?e i \<Longrightarrow> i < length (kids c)" for i using e by (auto simp: sharers_ok_def)
    have w: "t = INVX \<Longrightarrow> sharers ?e i \<Longrightarrow> writable (st h (kids c ! i) a)" for i
      using 3(1) e by (auto simp: sharers_ok_def entry_isExclusive_def)
    have num: "e_numSharers ?e = of_nat (card {i. sharers ?e i})"
    proof -
      have "e_numSharers ?e = of_nat (unat (e_numSharers ?e))" by simp
      then show ?thesis using e unfolding sharers_ok_def by simp
    qed
    have "\<exists>mx' wb' sent' h'. send_loop invl c l req (drop 0 (child_list (cfg c))) (cyc, wb, 0, h) = Inr (mx', wb', sent', h')
      \<and> sent' = 0 + of_nat (card {i. 0 \<le> i \<and> sharers ?e i})
      \<and> cyc \<le> mx' \<and> chg (insert c (below_from ?e c 0)) (i_lineAddr req) h h' \<and> own_view c l h h'
      \<and> get_entry h' c l = cleared (i_type req) 0 ?e
      \<and> (\<forall>i. 0 \<le> i \<longrightarrow> i < length (kids c) \<longrightarrow> below_ok h' (kids c ! i)
           \<and> st h' (kids c ! i) (i_lineAddr req) = (if sharers ?e i then inv_result (i_type req)
                else st h (kids c ! i) (i_lineAddr req)))
      \<and> (wb' \<longrightarrow> wb \<or> (\<exists>i. 0 \<le> i \<and> sharers ?e i \<and> writable (st h (kids c ! i) (i_lineAddr req))))
      \<and> (unat (i_cycle req) + kids_lat c \<le> 2 ^ 64 \<longrightarrow> unat cyc \<le> unat (i_cycle req) + kids_lat c \<longrightarrow>
           unat mx' \<le> unat (i_cycle req) + kids_lat c)"
      by (rule send_loop_ok [OF c inval]) (use below sh w e a t tag in \<open>auto simp: rq sharers_ok_def not_le [symmetric]\<close>)
    then obtain mx' wb' sent' h' where r:
      "send_loop invl c l req (child_list (cfg c)) (cyc, wb, 0, h) = Inr (mx', wb', sent', h')"
      "sent' = e_numSharers ?e" "cyc \<le> mx'" "chg (insert c (below_from ?e c 0)) a h h'" "own_view c l h h'"
      "get_entry h' c l = cleared t 0 ?e"
      "\<forall>i < length (kids c). below_ok h' (kids c ! i)
           \<and> st h' (kids c ! i) a = (if sharers ?e i then inv_result t else st h (kids c ! i) a)"
      "wb' \<longrightarrow> wb \<or> (\<exists>i. sharers ?e i \<and> writable (st h (kids c ! i) a))"
      "unat cyc + kids_lat c \<le> 2 ^ 64 \<longrightarrow> unat mx' \<le> unat cyc + kids_lat c"
      unfolding rq num drop_0 by (simp only: le0 simp_thms add_0 le_add1) blast
    define h2 where "h2 = set_entry c l (invalidated t ?e) h'"
    have ex: "t = INVX \<Longrightarrow> exclusive ?e \<and> e_numSharers ?e = 1"
      using 3(1) by (auto simp: entry_isExclusive_def)
    have run: "tcc_sendInvalidates invl (cfg c) c a l t wb cyc src h = Inr (mx', wb', h2)"
    proof (cases t)
      case INVX
      then show ?thesis using 3 r(1,2,6) ex
        by (simp add: tcc_sendInvalidates_def Let_def req_def cleared_def h2_def invalidated_def)
    next
      case INV
      then show ?thesis using 3 r(1,2,6)
        by (simp add: tcc_sendInvalidates_def Let_def req_def cleared_def h2_def invalidated_def)
    qed (use t in simp)
    have tag': "tag (get_arr h' c) l = a" using r(5) tag by (simp add: own_view_def)
    have chg2: "chg {c} a h' h2"
      using tag' by (auto simp: chg_def h2_def hier_simps set_entry_def upd_cache_def
          get_arr_def get_entry_def get_state_def)
    have chg3: "chg (insert c (below_from ?e c 0)) a h h2"
      by (rule chg_mono [OF chg_trans [OF r(4) chg2]]) auto
    have kid: "below_ok h2 (kids c ! i)" "st h2 (kids c ! i) a = st h' (kids c ! i) a" if i: "i < length (kids c)" for i
    proof -
      have n: "x \<notin> {c}" if "sub (kids c ! i) x" for x using not_above [OF _ c, of "kids c ! i"] that i by auto
      show "below_ok h2 (kids c ! i)" "st h2 (kids c ! i) a = st h' (kids c ! i) a"
        using below_keep [OF chg2 _ n] r(7) i by auto
    qed
    have own: "own_view c l h h2" using r(5) by (auto simp: own_view_def h2_def hier_simps)
    show ?thesis
    proof (intro exI conjI allI impI)
      show "st h2 (kids c ! i) a = (if sharers ?e i \<and> (t = INV \<or> entry_isExclusive ?e) then inv_result t
          else st h (kids c ! i) a)" if "i < length (kids c)" for i
        using r(7) kid(2) [OF that] that 3(1) t by (cases t) auto
      show "wb \<or> (\<exists>i. sharers ?e i \<and> writable (st h (kids c ! i) a))" if "wb'"
        using r(8) that by blast
      show "unat mx' \<le> unat cyc + kids_lat c" if "unat cyc + kids_lat c \<le> 2 ^ 64" using r(9) that by blast
    qed (use run r(3) chg3 own kid in \<open>auto simp: h2_def hier_simps\<close>)
  qed
qed

subsection \<open>The cache that is invalidated\<close>

lemma node_lines: "node h d \<Longrightarrow> get_state h (d, k) \<noteq> I \<Longrightarrow> find (tag (get_arr h d) k) (get_arr h d) = Some k \<and> addr_ok (tag (get_arr h d) k)"
  by (simp add: node_ok_def lines_ok_def)

lemma node_sharers:
  assumes "node h d"
  shows "sharers (get_entry h d k) i \<longleftrightarrow> i < length (kids d) \<and> get_state h (d, k) \<noteq> I \<and> st h (kids d ! i) (tag (get_arr h d) k) \<noteq> I"
    and "sharers_ok h d (tag (get_arr h d) k) (get_entry h d k)"
    and "entry_isExclusive (get_entry h d k) \<Longrightarrow> writable (get_state h (d, k))"
proof -
  have "ent h d k" using assms by (simp add: node_ok_def)
  then show "sharers (get_entry h d k) i \<longleftrightarrow> i < length (kids d) \<and> get_state h (d, k) \<noteq> I \<and> st h (kids d ! i) (tag (get_arr h d) k) \<noteq> I"
    "sharers_ok h d (tag (get_arr h d) k) (get_entry h d k)"
    "entry_isExclusive (get_entry h d k) \<Longrightarrow> writable (get_state h (d, k))"
    unfolding entry_ok_def sharers_ok_def Let_def writable_def entry_isExclusive_def by blast+
qed

lemma node_incl: "node h d \<Longrightarrow> d' \<in> set (kids d) \<Longrightarrow> st h d' b \<noteq> I \<Longrightarrow> st h d b \<noteq> I"
  by (auto simp: node_ok_def incl_ok_def)

text \<open>An entry is right when its sharers are, and they are the children with the line.\<close>

lemma entI:
  assumes "sharers_ok h d (tag (get_arr h d) k) (get_entry h d k)"
    and "\<And>i. i < length (kids d) \<Longrightarrow> st h (kids d ! i) (tag (get_arr h d) k) \<noteq> I \<Longrightarrow> get_state h (d, k) \<noteq> I \<Longrightarrow> sharers (get_entry h d k) i"
    and "\<And>i. sharers (get_entry h d k) i \<Longrightarrow> get_state h (d, k) \<noteq> I"
    and "entry_isExclusive (get_entry h d k) \<Longrightarrow> writable (get_state h (d, k))"
  shows "ent h d k"
  using assms unfolding entry_ok_def sharers_ok_def Let_def writable_def entry_isExclusive_def by blast

text \<open>
  The line that holds \<open>a\<close> is the only valid line tagged \<open>a\<close>; the entries of the others do not
  depend on the children's lines for \<open>a\<close>.
\<close>

lemma other_ent:
  assumes node: "node h d" and l: "find a (get_arr h d) = Some l"
    and arr: "same_arr h h' d" and k: "k \<noteq> l" "get_state h' (d, k) = get_state h (d, k)" "get_entry h' d k = get_entry h d k"
    and kids: "\<And>i. i < length (kids d) \<Longrightarrow> tag (get_arr h d) k \<noteq> a \<Longrightarrow>
      st h' (kids d ! i) (tag (get_arr h d) k) = st h (kids d ! i) (tag (get_arr h d) k)"
  shows "ent h' d k"
proof (cases "tag (get_arr h d) k = a")
  case False
  have "ent h d k" using node by (simp add: node_ok_def)
  moreover have "ent h' d k = ent h d k"
    by (rule ent_cong [OF arr k(2,3)]) (use kids False in \<open>auto simp: in_set_conv_nth\<close>)
  ultimately show ?thesis by simp
next
  case True
  have I: "get_state h (d, k) = I" using node_lines [OF node, of k] True l k(1) by fastforce
  then have none: "\<not> sharers (get_entry h d k) i" for i using node_sharers(1) [OF node] by simp
  have "\<not> entry_isExclusive (get_entry h d k)" using node_sharers(3) [OF node, of k] I by (auto simp: writable_def)
  then show ?thesis
    by (intro entI) (use none I k node_sharers(2) [OF node, of k] in \<open>auto simp: sharers_ok_def\<close>)
qed

lemma wf_tag: "arr_wf s \<Longrightarrow> find b s = Some k \<Longrightarrow> tag s k = b"
  unfolding arr_wf_def using find_tag by blast

text \<open>
  The invariant of a cache after one of its lines, the line's entry, and its children's copies
  of that line have changed together.
\<close>

lemma line_node:
  assumes node: "node h d" and wf: "arr_wf (get_arr h d)" and l: "find a (get_arr h d) = Some l" "addr_ok a"
    and arr: "same_arr h h' d"
    and s': "\<And>k. k \<noteq> l \<Longrightarrow> get_state h' (d, k) = get_state h (d, k)"
    and e': "\<And>k. k \<noteq> l \<Longrightarrow> get_entry h' d k = get_entry h d k"
    and other: "\<And>i b. i < length (kids d) \<Longrightarrow> b \<noteq> a \<Longrightarrow> st h' (kids d ! i) b = st h (kids d ! i) b"
    and sh: "sharers_ok h' d a (get_entry h' d l)"
    and full: "\<And>i. i < length (kids d) \<Longrightarrow> st h' (kids d ! i) a \<noteq> I \<Longrightarrow>
      sharers (get_entry h' d l) i \<and> get_state h' (d, l) \<noteq> I"
    and ex: "entry_isExclusive (get_entry h' d l) \<Longrightarrow> writable (get_state h' (d, l))"
  shows "node h' d"
proof -
  have arr': "tag (get_arr h' d) = tag (get_arr h d)" "find b (get_arr h' d) = find b (get_arr h d)" for b
    using arr by (simp_all add: same_arr_def)
  have tag: "tag (get_arr h d) l = a" by (rule wf_tag [OF wf l(1)])
  have "lines_ok find tag addr_ok h' d"
    unfolding lines_ok_def arr' using node_lines [OF node] l tag by (metis s')
  moreover have "ent h' d k" for k
  proof (cases "k = l")
    case False
    show ?thesis by (rule other_ent [OF node l(1) arr False]) (use False other s' e' in auto)
  next
    case True
    show ?thesis
      unfolding True
    proof (rule entI, unfold arr' tag)
      show "get_state h' (d, l) \<noteq> I" if "sharers (get_entry h' d l) i" for i
        using full sh that unfolding sharers_ok_def by blast
    qed (use sh full ex in blast)+
  qed
  moreover have "incl_ok find cfg h' d"
    unfolding incl_ok_def
  proof (intro ballI allI impI)
    fix d' b assume d': "d' \<in> set (kids d)" "st h' d' b \<noteq> I"
    then obtain i where i: "d' = kids d ! i" "i < length (kids d)" by (auto simp: in_set_conv_nth)
    show "st h' d b \<noteq> I"
    proof (cases "b = a")
      case True
      then show ?thesis using d'(2) i full by (simp add: line_state_def arr' l)
    next
      case False
      then have "st h d b \<noteq> I" using node_incl [OF node d'(1)] d'(2) other i by simp
      then obtain k where k: "find b (get_arr h d) = Some k" "get_state h (d, k) \<noteq> I"
        by (auto simp: line_state_def split: option.splits)
      then have "k \<noteq> l" using wf_tag [OF wf k(1)] tag False by auto
      then show ?thesis using k by (simp add: line_state_def arr' s')
    qed
  qed
  ultimately show ?thesis by (simp add: node_ok_def)
qed

lemma inval_node:
  assumes node: "node h d" and wf: "arr_wf (get_arr h d)" and l: "find a (get_arr h d) = Some l" "tag (get_arr h d) l = a"
    and valid: "get_state h (d, l) \<noteq> I" and t: "t \<noteq> FWD" and arr: "same_arr h h' d"
    and s': "\<And>k. get_state h' (d, k) = (if k = l then inv_result t else get_state h (d, k))"
    and e': "\<And>k. get_entry h' d k = (if k = l then invalidated t (get_entry h d l) else get_entry h d k)"
    and other: "\<And>i b. i < length (kids d) \<Longrightarrow> b \<noteq> a \<Longrightarrow> st h' (kids d ! i) b = st h (kids d ! i) b"
    and kid: "\<And>i. i < length (kids d) \<Longrightarrow> st h' (kids d ! i) a =
      (if sharers (get_entry h d l) i \<and> (t = INV \<or> entry_isExclusive (get_entry h d l)) then inv_result t
       else st h (kids d ! i) a)"
  shows "node h' d"
proof -
  let ?e = "get_entry h d l"
  note sh = node_sharers [OF node, of l, unfolded l(2)]
  have a: "addr_ok a" using node_lines [OF node valid] l(2) by simp
  have w: "writable (st h (kids d ! i) a)" if "entry_isExclusive ?e" "sharers ?e i" for i
    using sh(2) that by (auto simp: sharers_ok_def entry_isExclusive_def)
  show ?thesis
  proof (rule line_node [OF node wf l(1) a arr])
    show "sharers_ok h' d a (get_entry h' d l)"
      using sh(2) t by (cases t) (auto simp: e' sharers_ok_def invalidated_def kid inv_result_def writable_def)
    show "sharers (get_entry h' d l) i \<and> get_state h' (d, l) \<noteq> I"
      if "i < length (kids d)" "st h' (kids d ! i) a \<noteq> I" for i
      using that sh(1) valid t
      by (cases t) (auto simp: e' s' invalidated_def kid inv_result_def split: if_splits)
  qed (use s' e' other in \<open>auto simp: invalidated_def entry_isExclusive_def split: if_splits\<close>)
qed

subsection \<open>\<open>Cache::invalidate\<close> keeps its contract\<close>

lemma chg_held:
  assumes "held h' = held h"
  shows "held h'' = held h' \<longleftrightarrow> held h'' = held h"
  using assms by simp

lemma bcc_processInval_ok:
  assumes "get_state h (d, l) \<noteq> I" and "t \<noteq> FWD" and "t = INVX \<Longrightarrow> writable (get_state h (d, l))"
  obtains p where "bcc_processInval d l t wb h
    = Inr (wb \<or> get_state h (d, l) = M, upd_prof d p (set_state (d, l) (inv_result t) h))"
  using assms that by (cases t) (auto simp: bcc_processInval_def Let_def inv_result_def writable_def)

lemma cache_inval_ok:
  assumes d: "d \<in> Cs" and kids: "\<And>i. i < length (kids d) \<Longrightarrow> inval_contract invl (kids d ! i)"
  shows "inval_contract (\<lambda>c req wb h. cache_invalidate invl ops (cfg c) c req wb h) d"
  unfolding inval_contract_def
proof (intro allI impI)
  fix h :: "('a, 'm) hier" and req :: inv_req and wb
  let ?a = "i_lineAddr req" and ?t = "i_type req"
  assume below: "below_ok h d" and a: "addr_ok ?a" and valid: "st h d ?a \<noteq> I" and t: "?t \<noteq> FWD"
    and ex: "?t = INVX \<longrightarrow> writable (st h d ?a)"
  have node: "node h d" and wf: "arr_wf (get_arr h d)" and free: "\<not> held h (BccLock d)"
    using below desc_refl by (auto simp: below_ok_def)
  obtain l where l: "find ?a (get_arr h d) = Some l" and s: "get_state h (d, l) \<noteq> I"
    using valid by (auto simp: line_state_def split: option.splits)
  have tag: "tag (get_arr h d) l = ?a" by (rule wf_tag [OF wf l])
  obtain s' where look: "a_lookup ops ?a None False (get_arr h d) = Inr (Some l, s')" "arr_le (get_arr h d) s'"
    using lookup_down [OF wf a] l by metis
  define k1 where "k1 = h\<lparr>held := (held h)(BccLock d := True)\<rparr>"
  define h1 where "h1 = set_arr d s' k1"
  have eff: "get_arr h1 d = s'" "get_state h1 r = get_state h r" "get_entry h1 x k = get_entry h x k"
      "x \<noteq> d \<Longrightarrow> caches h1 x = caches h x" "mems h1 = mems h" "held h1 = (held h)(BccLock d := True)" for r x k
    by (simp_all add: h1_def k1_def hier_simps)
  have run1: "cache_invalidate invl ops (cfg d) d req wb h
      = cc_processInv invl (cfg d) d req wb l (i_cycle req + ucast (invLat (cfg d))) h1"
    using free look(1) by (simp add: cache_invalidate_def cc_startInv_def lock_acquire_def k1_def [symmetric]
        h1_def Let_def) (simp add: k1_def hier_simps)
  have same1: "same_arr h h1 d" using same_arr_le look(2) eff(1) by metis
  have view1: "st h1 x b = st h x b" for x b
  proof (cases "x = d")
    case True
    then show ?thesis by (intro st_view) (use same1 eff in \<open>simp add: same_view_def\<close>)
  next
    case False
    then show ?thesis by (intro st_caches eff(4))
  qed
  have e1: "sharers_ok h1 d ?a (get_entry h1 d l)"
    using node_sharers(2) [OF node, of l] by (simp add: tag sharers_ok_def view1 eff)
  have notd: "x \<noteq> d" if "sub (kids d ! i) x" "i < length (kids d)" for x i
    using not_above [OF nth_mem [OF that(2)] d] that(1) by auto
  have below1: "below_ok h1 (kids d ! i)" if i: "i < length (kids d)" for i
  proof (rule below_caches [OF below_child [OF below nth_mem [OF i]]])
    fix x assume "sub (kids d ! i) x"
    then have "x \<noteq> d" using notd i by blast
    then show "caches h1 x = caches h x" "held h1 (BccLock x) = held h (BccLock x)"
      using eff(4,6) by simp_all
  qed
  let ?e = "get_entry h d l" and ?c = "i_cycle req + ucast (invLat (cfg d)) :: u64"
  have mid: "\<exists>resp wb1 h2. (\<forall>wb2 h3. bcc_processInval d l ?t wb1 h2 = Inr (wb2, h3) \<longrightarrow>
        cache_invalidate invl ops (cfg d) d req wb h = Inr (resp, wb2, lock_release (BccLock d) h3))
      \<and> chg {x. sub d x} ?a h1 h2 \<and> own_view d l h1 h2 \<and> get_entry h2 d l = invalidated ?t ?e
      \<and> (\<forall>i < length (kids d). below_ok h2 (kids d ! i) \<and> st h2 (kids d ! i) ?a =
           (if sharers ?e i \<and> (?t = INV \<or> entry_isExclusive ?e) then inv_result ?t else st h (kids d ! i) ?a))
      \<and> (wb1 \<longrightarrow> wb \<or> (\<exists>i. sharers ?e i \<and> writable (st h (kids d ! i) ?a)))
      \<and> (unat ?c + kids_lat d \<le> 2 ^ 64 \<longrightarrow> unat resp \<le> unat ?c + kids_lat d)"
  proof (cases "terminal (cfg d)")
    case True
    have k: "kids d = []" by (rule tree_cache(2) [OF d True])
    then have "\<not> sharers ?e i" for i using node_sharers(1) [OF node] by simp
    then have "invalidated ?t ?e = ?e"
      using e1 t by (cases ?t) (auto simp: sharers_ok_def eff invalidated_def entry_isExclusive_def fun_eq_iff
          unat_eq_zero intro!: entry.equality)
    with True k show ?thesis unfolding run1
      by (intro exI [of _ "i_cycle req + ucast (invLat (cfg d))"] exI [of _ wb] exI [of _ h1])
        (auto simp: cc_processInv_def term_processInv_def own_view_def eff)
  next
    case False
    from send_inv_ok [OF d kids a t _ e1 below1] eff(1) look(2) tag obtain resp wb1 h2 where s2:
      "tcc_sendInvalidates invl (cfg d) d ?a l ?t wb (i_cycle req + ucast (invLat (cfg d))) (i_srcId req) h1 = Inr (resp, wb1, h2)"
      "chg (insert d (below_from (get_entry h1 d l) d 0)) ?a h1 h2 \<and> own_view d l h1 h2 \<and> get_entry h2 d l = invalidated ?t (get_entry h1 d l)
      \<and> (\<forall>i < length (kids d). below_ok h2 (kids d ! i) \<and> st h2 (kids d ! i) ?a =
           (if sharers (get_entry h1 d l) i \<and> (?t = INV \<or> entry_isExclusive (get_entry h1 d l)) then inv_result ?t
            else st h1 (kids d ! i) ?a))
      \<and> (wb1 \<longrightarrow> wb \<or> (\<exists>i. sharers (get_entry h1 d l) i \<and> writable (st h1 (kids d ! i) ?a)))
      \<and> (unat ?c + kids_lat d \<le> 2 ^ 64 \<longrightarrow> unat resp \<le> unat ?c + kids_lat d)"
      unfolding arr_le_def by metis
    have "cache_invalidate invl ops (cfg d) d req wb h = Inr (resp, wb2, lock_release (BccLock d) h3)"
      if "bcc_processInval d l ?t wb1 h2 = Inr (wb2, h3)" for wb2 h3
      unfolding run1 using False t s2(1) that
      by (simp add: cc_processInv_def mesi_processInv_def tcc_processInval_def)
    moreover have "insert d (below_from (get_entry h1 d l) d 0) \<subseteq> {x. sub d x}"
      using below_from_sub desc_refl by auto
    ultimately show ?thesis using s2(2) chg_mono unfolding eff view1 by blast
  qed
  then obtain resp wb1 h2 where run2: "\<And>wb2 h3. bcc_processInval d l ?t wb1 h2 = Inr (wb2, h3) \<Longrightarrow>
        cache_invalidate invl ops (cfg d) d req wb h = Inr (resp, wb2, lock_release (BccLock d) h3)"
    and chg2: "chg {x. sub d x} ?a h1 h2" and own2: "own_view d l h1 h2" and e2: "get_entry h2 d l = invalidated ?t ?e"
    and kid2: "\<And>i. i < length (kids d) \<Longrightarrow> below_ok h2 (kids d ! i) \<and> st h2 (kids d ! i) ?a =
           (if sharers ?e i \<and> (?t = INV \<or> entry_isExclusive ?e) then inv_result ?t else st h (kids d ! i) ?a)"
    and wb1: "wb1 \<longrightarrow> wb \<or> (\<exists>i. sharers ?e i \<and> writable (st h (kids d ! i) ?a))"
    and lat: "unat ?c + kids_lat d \<le> 2 ^ 64 \<longrightarrow> unat resp \<le> unat ?c + kids_lat d" by blast
  have s2: "get_state h2 (d, k) = get_state h (d, k)" for k using own2 eff(2) by (simp add: own_view_def)
  have ex2: "writable (get_state h2 (d, l))" if "?t = INVX" using ex that l by (simp add: s2 st_found)
  obtain p where run3: "bcc_processInval d l ?t wb1 h2
      = Inr (wb1 \<or> get_state h2 (d, l) = M, upd_prof d p (set_state (d, l) (inv_result ?t) h2))"
    using bcc_processInval_ok [OF _ t ex2, of wb1] s s2 by metis
  define h3 where "h3 = lock_release (BccLock d) (upd_prof d p (set_state (d, l) (inv_result ?t) h2))"
  have eff3: "get_arr h3 x = get_arr h2 x" "get_state h3 (x, k) = (if x = d \<and> k = l then inv_result ?t else get_state h2 (x, k))"
      "get_entry h3 x k = get_entry h2 x k" "x \<noteq> d \<Longrightarrow> caches h3 x = caches h2 x" "mems h3 = mems h2"
      "held h3 = (held h2)(BccLock d := False)" for x k
    by (simp_all add: h3_def lock_release_def hier_simps)
  have held3: "held h3 = held h" using chgD(1) [OF chg2] eff(6) eff3(6) free by (auto simp: fun_eq_iff)
  have arr2: "get_arr h2 d = s'" using own2 eff(1) by (simp add: own_view_def)
  have arr3: "arr_le (get_arr h x) (get_arr h3 x)" for x
  proof (cases "x = d")
    case True
    then show ?thesis using look(2) by (simp add: eff3(1) arr2)
  next
    case False
    then have "get_arr h1 x = get_arr h x" using eff(4) by (simp add: get_arr_def)
    then show ?thesis using chgD(4) [OF chg2, of x] by (simp add: eff3(1))
  qed
  have chg3: "chg {x. sub d x} ?a h h3"
  proof -
    have "tag (get_arr h1 x) = tag (get_arr h x)" for x
      using look(2) eff(1) eff(4) [of x] by (cases "x = d") (auto simp: get_arr_def arr_le_def)
    moreover have "get_entry h3 x k = get_entry h x k" "get_state h3 (x, k) = get_state h (x, k)"
      if "tag (get_arr h x) k \<noteq> ?a" for x k
      using chgD(6,7) [OF chg2, of x k] that calculation tag by (auto simp: eff3 eff)
    ultimately show ?thesis
      unfolding chg_def using held3 chgD(2,3) [OF chg2] eff(4,5) eff3(4,5) arr3 desc_refl by (auto; metis)
  qed
  have kid3: "below_ok h3 (kids d ! i)" "st h3 (kids d ! i) b = st h2 (kids d ! i) b" if i: "i < length (kids d)" for i b
  proof -
    show "below_ok h3 (kids d ! i)"
      by (rule below_caches [of h2]) (use kid2 [OF i] notd i eff3 in auto)
    show "st h3 (kids d ! i) b = st h2 (kids d ! i) b"
      by (rule st_caches) (use notd [OF desc_refl i] eff3 in auto)
  qed
  have kid_wf: "arr_wf (get_arr h (kids d ! i))" if "i < length (kids d)" for i
    using below_child [OF below nth_mem [OF that]] desc_refl by (auto simp: below_ok_def)
  have node3: "node h3 d"
  proof (rule inval_node [OF node wf l tag s t])
    show "same_arr h h3 d" by (rule same_arr_le) (rule arr3)
    show "get_state h3 (d, k) = (if k = l then inv_result ?t else get_state h (d, k))" for k by (simp add: eff3 s2)
    show "get_entry h3 d k = (if k = l then invalidated ?t ?e else get_entry h d k)" for k
      using e2 own2 by (simp add: eff3 own_view_def eff)
    show "st h3 (kids d ! i) b = st h (kids d ! i) b" if "i < length (kids d)" "b \<noteq> ?a" for i b
      by (rule chg_st_other [OF chg3 that(2) kid_wf [OF that(1)]])
    show "st h3 (kids d ! i) ?a = (if sharers ?e i \<and> (?t = INV \<or> entry_isExclusive ?e) then inv_result ?t
       else st h (kids d ! i) ?a)" if "i < length (kids d)" for i using kid2 kid3 that by simp
  qed
  have below3: "below_ok h3 d"
    unfolding below_ok_def
  proof (intro allI impI)
    fix x assume "sub d x"
    then consider "x = d" | d' where "d' \<in> set (kids d)" "sub d' x" using sub_cases by blast
    then show "node h3 x \<and> arr_wf (get_arr h3 x) \<and> \<not> held h3 (BccLock x)"
    proof cases
      case 1
      then show ?thesis using node3 arr_le_wf [OF arr3 wf] free held3 by simp
    next
      case 2
      then show ?thesis using kid3(1) unfolding in_set_conv_nth below_ok_def by blast
    qed
  qed
  have st3: "st h3 d ?a = inv_result ?t"
    using arr3 [of d] l by (simp add: line_state_def arr_le_def eff3)
  have wb3: "wb \<or> writable (st h d ?a)" if w: "wb1 \<or> get_state h2 (d, l) = M"
  proof -
    have "writable (get_state h (d, l))" if "sharers ?e i" "writable (st h (kids d ! i) ?a)" for i
    proof (rule node_sharers(3) [OF node])
      show "entry_isExclusive ?e"
        using exclusive_sharer [OF e1 [unfolded eff] that(1)] e1 that by (simp add: sharers_ok_def view1 eff)
    qed
    then show ?thesis using w wb1 s2 l by (auto simp: st_found writable_def)
  qed
  have lat3: "unat resp \<le> unat (i_cycle req) + inval_lat d" if b: "unat (i_cycle req) + inval_lat d \<le> 2 ^ 64"
  proof -
    have "unat ?c \<le> unat (i_cycle req) + (0 + 2 ^ 32)" by (rule add_lat) (use b in \<open>simp_all add: inval_lat_def\<close>)
    then show ?thesis using b lat by (simp add: inval_lat_def)
  qed
  show "\<exists>resp wb' h'. cache_invalidate invl ops (cfg d) d req wb h = Inr (resp, wb', h')
      \<and> chg {x. sub d x} ?a h h' \<and> below_ok h' d \<and> st h' d ?a = inv_result ?t
      \<and> (wb' \<longrightarrow> wb \<or> writable (st h d ?a))
      \<and> (unat (i_cycle req) + inval_lat d \<le> 2 ^ 64 \<longrightarrow> unat resp \<le> unat (i_cycle req) + inval_lat d)"
    using run2 [OF run3] chg3 below3 st3 wb3 lat3 unfolding h3_def by blast
qed

theorem sys_invalidate_contract:
  "d \<in> Cs \<Longrightarrow> lev d < n \<Longrightarrow> inval_contract (sys_invalidate ops cfg n) d"
proof (induction n arbitrary: d)
  case (Suc n)
  have "inval_contract (sys_invalidate ops cfg n) (kids d ! i)" if "i < length (kids d)" for i
    using Suc tree_child [OF Suc.prems(1) that] by simp
  from cache_inval_ok [OF Suc.prems(1) this] show ?case by (simp add: inval_contract_def)
qed simp

end

end
