(* ===== verification/HierAccess.thy ===== *)
theory HierAccess
  imports HierInval
begin

section \<open>Accesses go up the tree\<close>

text \<open>
  What a cache relies on when it asks its parent for a line or gives a line back, and the proof
  that \<open>Cache::access\<close> of the parent keeps it. Contracts are about any access function, and are
  proved for \<open>sys_access\<close> from the memory controllers down.
\<close>

context cache_tree
begin

definition nodes_ok :: "('a, 'm) hier \<Rightarrow> bool" where
  "nodes_ok h \<longleftrightarrow> (\<forall>x \<in> Cs. node h x \<and> arr_wf (get_arr h x))"

text \<open>
  Cache \<open>c\<close> is in the middle of an access: it holds its bottom lock, and is the only one that
  holds one; the caches above it are idle.
\<close>

definition busy :: "('a, 'm) hier \<Rightarrow> nat \<Rightarrow> bool" where
  "busy h c \<longleftrightarrow> nodes_ok h \<and> mem_ok (mems h) \<and> (\<forall>x \<in> Cs. held h (BccLock x) \<longleftrightarrow> x = c)
     \<and> (\<forall>x \<in> Cs. lev c < lev x \<longrightarrow> \<not> held h (TccLock x) \<and> ready (get_arr h x))"

text \<open>What a call to a parent leaves to its caller.\<close>

definition kept :: "nat \<Rightarrow> ('a, 'm) hier \<Rightarrow> ('a, 'm) hier \<Rightarrow> bool" where
  "kept c h h' \<longleftrightarrow> held h' = held h \<and> (\<forall>x \<in> Cs. lev x \<le> lev c \<longrightarrow> arr_le (get_arr h x) (get_arr h' x))"

lemma kept_refl [simp]: "kept c h h"
  by (simp add: kept_def)

lemma kept_trans: "kept c h h1 \<Longrightarrow> kept c h1 h2 \<Longrightarrow> kept c h h2"
  by (auto simp: kept_def intro: arr_le_trans)

text \<open>The requests that the bottom controller of \<open>c\<close> makes for its line \<open>l\<close>.\<close>

definition bcc_req :: "('a, 'm) hier \<Rightarrow> nat \<Rightarrow> nat \<Rightarrow> mem_req \<Rightarrow> bool" where
  "bcc_req h c l req \<longleftrightarrow> childId req = selfId (cfg c) \<and> state_ptr req = (c, l) \<and> childLock req = Some (BccLock c)
     \<and> initialState req = get_state h (c, l) \<and> addr_ok (lineAddr req)
     \<and> find (lineAddr req) (get_arr h c) = Some l
     \<and> \<not> flag_in (flags req) PREFETCH \<and> \<not> flag_in (flags req) PUTX_KEEPEXCL"

definition put_time :: "u64 \<Rightarrow> bool" where
  "put_time cyc \<longleftrightarrow> unat cyc + 3 * 2 ^ 32 \<le> 2 ^ 64"

definition get_time :: "nat \<Rightarrow> u64 \<Rightarrow> bool" where
  "get_time c cyc \<longleftrightarrow> unat cyc + (5 * lev llc + 8 - lev c) * 2 ^ 32 \<le> 2 ^ 64"

definition parent_of :: "nat \<Rightarrow> address \<Rightarrow> mem_object" where
  "parent_of c a = parents (cfg c) ! getParentId (cfg c) a"

definition get_ok :: "('a, 'm) hier \<Rightarrow> nat \<Rightarrow> nat \<Rightarrow> access_type \<Rightarrow> bool" where
  "get_ok h c l t \<longleftrightarrow> t = GETS \<and> get_state h (c, l) = I
     \<or> t = GETX \<and> (get_state h (c, l) = I \<or> get_state h (c, l) = S)"

definition granted :: "access_type \<Rightarrow> mesi \<Rightarrow> bool" where
  "granted t s \<longleftrightarrow> (if t = GETX then s = M else s = S \<or> s = E)"

definition get_contract :: "('a, 'm) access_fun \<Rightarrow> nat \<Rightarrow> bool" where
  "get_contract acc c \<longleftrightarrow> (\<forall>h req l. busy h c \<longrightarrow> bcc_req h c l req \<longrightarrow> get_ok h c l (r_type req) \<longrightarrow>
     get_time c (cycle req) \<longrightarrow>
     (\<exists>resp h'. acc (parent_of c (lineAddr req)) req h = Inr (resp, h') \<and> busy h' c \<and> kept c h h'
        \<and> granted (r_type req) (get_state h' (c, l))
        \<and> (\<forall>x. sub c x \<longrightarrow> x \<noteq> c \<longrightarrow> st h' x (lineAddr req) = st h x (lineAddr req))))"

definition put_ok :: "('a, 'm) hier \<Rightarrow> nat \<Rightarrow> nat \<Rightarrow> access_type \<Rightarrow> bool" where
  "put_ok h c l t \<longleftrightarrow> (\<forall>i. \<not> sharers (get_entry h c l) i)
     \<and> (t = PUTS \<and> (get_state h (c, l) = S \<or> get_state h (c, l) = E) \<or> t = PUTX \<and> get_state h (c, l) = M)"

definition put_contract :: "('a, 'm) access_fun \<Rightarrow> nat \<Rightarrow> bool" where
  "put_contract acc c \<longleftrightarrow> (\<forall>h req l. busy h c \<longrightarrow> bcc_req h c l req \<longrightarrow> put_ok h c l (r_type req) \<longrightarrow>
     put_time (cycle req) \<longrightarrow>
     (\<exists>resp h'. acc (parent_of c (lineAddr req)) req h = Inr (resp, h') \<and> busy h' c \<and> kept c h h'
        \<and> get_state h' (c, l) = I
        \<and> (\<forall>x \<in> Cs. \<forall>b. b \<noteq> lineAddr req \<longrightarrow> st h' x b = st h x b)))"

subsection \<open>Changing one line\<close>

lemma nodes_okD: "nodes_ok h \<Longrightarrow> x \<in> Cs \<Longrightarrow> node h x" "nodes_ok h \<Longrightarrow> x \<in> Cs \<Longrightarrow> arr_wf (get_arr h x)"
  by (auto simp: nodes_ok_def)

lemma busyD:
  assumes "busy h c"
  shows "nodes_ok h" "mem_ok (mems h)" "x \<in> Cs \<Longrightarrow> held h (BccLock x) \<longleftrightarrow> x = c"
    "x \<in> Cs \<Longrightarrow> lev c < lev x \<Longrightarrow> \<not> held h (TccLock x)" "x \<in> Cs \<Longrightarrow> lev c < lev x \<Longrightarrow> ready (get_arr h x)"
  using assms by (auto simp: busy_def)

lemma st_set_state:
  assumes "find a (get_arr h c) = Some l" and "arr_wf (get_arr h c)" and "\<And>y. get_arr h' y = get_arr h y"
    and "\<And>y k. get_state h' (y, k) = (if (y, k) = (c, l) then s else get_state h (y, k))"
  shows "st h' x b = (if x = c \<and> b = a then s else st h x b)"
  using assms(1) wf_tag [OF assms(2,1)] wf_tag [OF assms(2), of b]
  by (auto simp: line_state_def assms(3,4) split: option.split)

text \<open>A new state for a line of \<open>c\<close>, seen by \<open>c\<close> itself.\<close>

lemma set_line_node:
  fixes h h' :: "('a, 'm) hier"
  assumes node: "node h c" and c: "c \<in> Cs" and wf: "arr_wf (get_arr h c)" and l: "find a (get_arr h c) = Some l" "addr_ok a"
    and none: "s = I \<Longrightarrow> \<forall>i. \<not> sharers (get_entry h c l) i"
    and ex: "entry_isExclusive (get_entry h c l) \<Longrightarrow> writable s"
    and arr: "\<And>y. get_arr h' y = get_arr h y" and e': "\<And>k. get_entry h' c k = get_entry h c k"
    and s': "\<And>y k. get_state h' (y, k) = (if (y, k) = (c, l) then s else get_state h (y, k))"
  shows "node h' c"
proof -
  note st' = st_set_state [OF l(1) wf arr s']
  have tag: "tag (get_arr h c) l = a" by (rule wf_tag [OF wf l(1)])
  have kid: "kids c ! i \<noteq> c" if "i < length (kids c)" for i
    using not_above [OF nth_mem [OF that] c] desc_refl by metis
  show ?thesis
  proof (rule line_node [OF node wf l])
    show "same_arr h h' c" by (simp add: same_arr_def arr)
    show "sharers_ok h' c a (get_entry h' c l)"
      using node_sharers(2) [OF node, of l] kid by (auto simp: tag e' st' sharers_ok_def)
    show "sharers (get_entry h' c l) i \<and> get_state h' (c, l) \<noteq> I"
      if i: "i < length (kids c)" "st h' (kids c ! i) a \<noteq> I" for i
    proof -
      have k: "st h (kids c ! i) a \<noteq> I" using i kid by (simp add: st')
      have "get_state h (c, l) \<noteq> I" using node_incl [OF node nth_mem [OF i(1)] k] l(1) by (simp add: line_state_def)
      then have "sharers (get_entry h c l) i" using node_sharers(1) [OF node] i(1) k by (simp add: tag)
      then show ?thesis using none by (auto simp: e' s')
    qed
  qed (use kid ex in \<open>auto simp: e' s' st'\<close>)
qed

text \<open>
  The caches other than \<open>p\<close> after a change of the line \<open>a\<close> in \<open>p\<close> and in caches below \<open>p\<close>
  that keep their invariant.
\<close>

lemma chg_nodes:
  fixes h h' :: "('a, 'm) hier"
  assumes chg: "chg X a h h'" and X: "X \<subseteq> {x. sub p x}" and ok: "nodes_ok h" and p: "p \<in> Cs"
    and same: "st h' p a = st h p a"
    and below: "\<And>i. i < length (kids p) \<Longrightarrow> below_ok h' (kids p ! i)"
    and x: "x \<in> Cs" "x \<noteq> p"
  shows "node h' x"
proof (cases "sub p x")
  case True
  then obtain d where "d \<in> set (kids p)" "sub d x" using sub_cases x(2) by blast
  then show ?thesis using below unfolding in_set_conv_nth below_ok_def by blast
next
  case False
  have out: "caches h' x = caches h x" using chgD(3) [OF chg] X False by blast
  have "node h' x = node h x"
  proof (rule node_cong)
    show "same_view h h' x"
      using out by (simp add: same_view_def same_arr_def get_arr_def get_state_def get_entry_def)
    fix d b assume d: "d \<in> set (kids x)"
    have dC: "d \<in> Cs" using child_in x(1) d by blast
    show "st h' d b = st h d b"
    proof (cases "sub p d")
      case True
      have "d = p"
      proof (rule ccontr)
        assume "d \<noteq> p"
        then obtain y where y: "sub p y" "d \<in> set (kids y)" using sub_last [OF True] by auto
        then have "y = x" using one_parent [OF _ x(1) y(2) d] desc_lev [OF y(1) p] by blast
        then show False using y False by simp
      qed
      then show ?thesis
        using same chg_st_other [OF chg _ nodes_okD(2) [OF ok p], of b] by (cases "b = a") auto
    next
      case False
      then show ?thesis using X by (intro chg_st_out [OF chg]) auto
    qed
  qed
  then show ?thesis using nodes_okD(1) [OF ok x(1)] by simp
qed

text \<open>A change from E to M is not seen by the invariant.\<close>

definition same_rights :: "('a, 'm) hier \<Rightarrow> ('a, 'm) hier \<Rightarrow> bool" where
  "same_rights h h' \<longleftrightarrow> (\<forall>x. get_arr h' x = get_arr h x) \<and> (\<forall>x k. get_entry h' x k = get_entry h x k)
     \<and> (\<forall>r. (get_state h' r = I \<longleftrightarrow> get_state h r = I) \<and> (writable (get_state h' r) \<longleftrightarrow> writable (get_state h r)))"

lemma same_rights_nodes:
  assumes same: "same_rights h h'" and ok: "nodes_ok h"
  shows "nodes_ok h'"
proof -
  have arr: "get_arr h' x = get_arr h x" "get_entry h' x k = get_entry h x k"
    "get_state h' r = I \<longleftrightarrow> get_state h r = I" "writable (get_state h' r) \<longleftrightarrow> writable (get_state h r)" for x k r
    using same unfolding same_rights_def by blast+
  have st: "st h' x b = I \<longleftrightarrow> st h x b = I" "writable (st h' x b) \<longleftrightarrow> writable (st h x b)" for x b
    by (auto simp: line_state_def arr split: option.split)
  have "node h' x" if "node h x" for x
    using that unfolding node_ok_def lines_ok_def entry_ok_def incl_ok_def Let_def writable_def [symmetric] arr st .
  then show ?thesis using ok by (simp add: nodes_ok_def arr)
qed

text \<open>
  The end of a request of the child \<open>c\<close> to \<open>p\<close>: after invalidations, the entry of \<open>p\<close> and the
  state of the line in \<open>c\<close> are set.
\<close>

lemma grant_nodes:
  fixes h h1 h' :: "('a, 'm) hier"
  assumes ok: "nodes_ok h" and p: "p \<in> Cs" and c: "k < length (kids p)" "c = kids p ! k"
    and l: "find a (get_arr h p) = Some l" "addr_ok a" and lc: "find a (get_arr h c) = Some lc"
    and chg: "chg X a h h1" and X: "X \<subseteq> {x. sub p x}" and own: "own_view p l h h1"
    and below: "\<And>i. i < length (kids p) \<Longrightarrow> below_ok h1 (kids p ! i)"
    and arr: "\<And>y. get_arr h' y = get_arr h1 y"
    and s': "\<And>y j. get_state h' (y, j) = (if (y, j) = (c, lc) then s else get_state h1 (y, j))"
    and e': "\<And>y j. get_entry h' y j = (if y = p \<and> j = l then e' else get_entry h1 y j)"
    and none: "s = I \<Longrightarrow> \<forall>i. \<not> sharers (get_entry h1 c lc) i"
    and ex: "entry_isExclusive (get_entry h1 c lc) \<Longrightarrow> writable s"
    and sh: "sharers_ok h' p a e'"
    and full: "\<And>i. i < length (kids p) \<Longrightarrow> st h' (kids p ! i) a \<noteq> I \<Longrightarrow> sharers e' i"
    and valid: "get_state h (p, l) \<noteq> I" and exp: "entry_isExclusive e' \<Longrightarrow> writable (get_state h (p, l))"
  shows "nodes_ok h'"
  unfolding nodes_ok_def
proof (intro ballI conjI)
  fix x assume x: "x \<in> Cs"
  have wf1: "arr_wf (get_arr h1 y)" if "y \<in> Cs" for y
    by (rule arr_le_wf [OF chgD(4) [OF chg] nodes_okD(2) [OF ok that]])
  then show "arr_wf (get_arr h' x)" using x by (simp add: arr)
  have cC: "c \<in> Cs" "c \<noteq> p" using child_in [OF p nth_mem [OF c(1)]] c(2) by auto
  have lc1: "find a (get_arr h1 c) = Some lc" using chgD(5) [OF chg] lc by (simp add: same_arr_def)
  note st' = st_set_state [OF lc1 wf1 [OF cC(1)] arr s']
  have stp: "st h1 p a = st h p a" using own l(1) by (simp add: own_view_def line_state_def)
  note n1 = chg_nodes [OF chg X ok p stp below]
  show "node h' x"
  proof (cases "x = p")
    case True
    show ?thesis unfolding True
    proof (rule line_node [OF nodes_okD(1) [OF ok p] nodes_okD(2) [OF ok p] l])
      show "same_arr h h' p" using chgD(5) [OF chg, of p] by (simp add: same_arr_def arr)
      show "get_state h' (p, j) = get_state h (p, j)" for j using own cC(2) by (simp add: s' own_view_def)
      show "get_entry h' p j = get_entry h p j" if "j \<noteq> l" for j using own that by (simp add: e' own_view_def)
      show "st h' (kids p ! i) b = st h (kids p ! i) b" if "i < length (kids p)" "b \<noteq> a" for i b
        using chg_st_other [OF chg that(2) nodes_okD(2) [OF ok]] child_in [OF p nth_mem [OF that(1)]] that(2)
        by (simp add: st')
    qed (use sh full valid exp own cC(2) in \<open>auto simp: e' s' own_view_def\<close>)
  next
    case xp: False
    show ?thesis
    proof (cases "x = c")
      case True
      show ?thesis unfolding True
        by (rule set_line_node [OF n1 [OF _ cC] cC(1) wf1 [OF cC(1)] lc1 l(2) none ex arr _ s']) (simp_all add: e' cC(2))
    next
      case False
      have "node h' x = node h1 x"
      proof (rule node_cong)
        show "same_view h1 h' x" using False xp by (simp add: same_view_def same_arr_def arr s' e')
        fix d b assume d: "d \<in> set (kids x)"
        then have "d \<noteq> c" using one_parent [OF x p] xp nth_mem [OF c(1)] c(2) by metis
        then show "st h' d b = st h1 d b" by (simp add: st')
      qed
      then show ?thesis using n1 x xp by blast
    qed
  qed
qed

subsection \<open>The top controller grants a request\<close>

lemma card_sharers:
  assumes "c \<in> Cs" and "sharers_ok h c a e"
  shows "finite {i. sharers e i}" and "unat (e_numSharers e) \<le> 256"
proof -
  have sub: "{i. sharers e i} \<subseteq> {..<length (kids c)}" using assms(2) by (auto simp: sharers_ok_def)
  then show "finite {i. sharers e i}" by (rule finite_subset) simp
  have "card {i. sharers e i} \<le> length (kids c)" using card_mono [OF _ sub] by simp
  then show "unat (e_numSharers e) \<le> 256" using assms tree_cache(4) [OF assms(1)] by (simp add: sharers_ok_def)
qed

lemma none_num:
  assumes "sharers_ok h c a e" and "\<forall>i. \<not> sharers e i"
  shows "e_numSharers e = 0"
proof -
  have "{i. sharers e i} = {}" using assms(2) by simp
  then have "unat (e_numSharers e) = 0" using assms(1) unfolding sharers_ok_def by (metis card.empty)
  then show ?thesis by (simp only: unat_eq_zero)
qed

lemma unat_add_1:
  assumes "unat (w :: u32) \<le> 256"
  shows "unat (w + 1) = Suc (unat w)"
proof -
  have "unat w + unat (1 :: u32) < 2 ^ LENGTH(32)" using assms by simp
  then show ?thesis by (subst unat_add_lem [THEN iffD1]) simp_all
qed

lemma sharers_add:
  assumes "c \<in> Cs" and "sharers_ok h c a e" and "k < length (kids c)" and "\<not> sharers e k"
    and "\<And>i. i < length (kids c) \<Longrightarrow> i \<noteq> k \<Longrightarrow> st h' (kids c ! i) a = st h (kids c ! i) a"
    and "st h' (kids c ! k) a = S" and "\<And>i. sharers e i \<Longrightarrow> \<not> writable (st h (kids c ! i) a)"
  shows "sharers_ok h' c a ((add_sharer k e)\<lparr>exclusive := False\<rparr>)"
proof -
  have "{i. i = k \<or> sharers e i} = insert k {i. sharers e i}" by auto
  then have "card {i. i = k \<or> sharers e i} = Suc (card {i. sharers e i})"
    using card_sharers(1) [OF assms(1,2)] assms(4) by simp
  moreover have "unat (e_numSharers e + 1) = Suc (unat (e_numSharers e))"
    by (rule unat_add_1) (rule card_sharers(2) [OF assms(1,2)])
  moreover have "st h' (kids c ! i) a = st h (kids c ! i) a" if "sharers e i" for i
    using assms(2,4,5) that by (auto simp: sharers_ok_def)
  moreover have "(sharers e)(k := True) = (\<lambda>i. i = k \<or> sharers e i)" by (simp add: fun_eq_iff)
  ultimately show ?thesis
    using assms by (auto simp: sharers_ok_def add_sharer_def writable_def)
qed

lemma sharers_drop:
  assumes "c \<in> Cs" and "sharers_ok h c a e" and "sharers e k"
  shows "sharers_ok h c a (drop_sharer k e)"
proof -
  have fin: "finite {i. sharers e i}" by (rule card_sharers(1) [OF assms(1,2)])
  have "{i. i \<noteq> k \<and> sharers e i} = {i. sharers e i} - {k}" by auto
  then have card: "card {i. i \<noteq> k \<and> sharers e i} = card {i. sharers e i} - 1"
    using assms(3) fin by simp
  have pos: "0 < card {i. sharers e i}" using assms(3) fin by (auto simp: card_gt_0_iff)
  then have "e_numSharers e \<noteq> 0" using assms(2) by (auto simp: sharers_ok_def)
  then have num: "unat (e_numSharers e - 1) = unat (e_numSharers e) - 1" by (simp add: unat_minus_one)
  have "e_numSharers e - 1 \<le> e_numSharers e" unfolding word_le_nat_alt num by simp
  moreover have "(sharers e)(k := False) = (\<lambda>i. i \<noteq> k \<and> sharers e i)" by (simp add: fun_eq_iff)
  ultimately show ?thesis using card num assms(2) by (auto simp: sharers_ok_def drop_sharer_def)
qed

text \<open>Cache \<open>p\<close> serves a request of its child \<open>k\<close> for \<open>a\<close>, which both have a line for.\<close>

definition serving :: "('a, 'm) hier \<Rightarrow> nat \<Rightarrow> nat \<Rightarrow> nat \<Rightarrow> nat \<Rightarrow> address \<Rightarrow> bool" where
  "serving h p k l lc a \<longleftrightarrow> nodes_ok h \<and> p \<in> Cs \<and> k < length (kids p) \<and> find a (get_arr h p) = Some l \<and> addr_ok a
     \<and> find a (get_arr h (kids p ! k)) = Some lc \<and> get_state h (p, l) \<noteq> I
     \<and> (\<forall>x \<in> Cs. x \<noteq> p \<longrightarrow> \<not> held h (BccLock x))"

definition served :: "('a, 'm) hier \<Rightarrow> ('a, 'm) hier \<Rightarrow> nat \<Rightarrow> nat \<Rightarrow> address \<Rightarrow> bool" where
  "served h h' p c a \<longleftrightarrow> nodes_ok h' \<and> held h' = held h \<and> mems h' = mems h
     \<and> (\<forall>x. arr_le (get_arr h x) (get_arr h' x)) \<and> get_arr h' p = get_arr h p
     \<and> (\<forall>j. get_state h' (p, j) = get_state h (p, j))
     \<and> (\<forall>x. \<not> sub p x \<longrightarrow> caches h' x = caches h x)
     \<and> (\<forall>x. sub c x \<longrightarrow> x \<noteq> c \<longrightarrow> st h' x a = st h x a)"

lemma serving_below:
  assumes "serving h p k l lc a" and "i < length (kids p)"
  shows "below_ok h (kids p ! i)"
  unfolding below_ok_def
proof (intro allI impI)
  fix x assume x: "sub (kids p ! i) x"
  have p: "p \<in> Cs" using assms(1) by (simp add: serving_def)
  have "x \<in> Cs" using desc_lev [OF x] tree_child(1) [OF p assms(2)] by simp
  moreover have "x \<noteq> p" using not_above [OF nth_mem [OF assms(2)] p] x by auto
  ultimately show "node h x \<and> arr_wf (get_arr h x) \<and> \<not> held h (BccLock x)"
    using assms(1) by (simp add: serving_def nodes_ok_def)
qed

lemma serving_child:
  assumes "serving h p k l lc a"
  defines "c \<equiv> kids p ! k"
  shows "c \<in> Cs" "c \<noteq> p" "tag (get_arr h p) l = a" "sharers_ok h p a (get_entry h p l)"
    "sharers (get_entry h p l) i \<longleftrightarrow> i < length (kids p) \<and> st h (kids p ! i) a \<noteq> I"
    "st h c a = get_state h (c, lc)" "entry_isExclusive (get_entry h p l) \<Longrightarrow> writable (get_state h (p, l))"
    "sub c x \<Longrightarrow> x \<noteq> p"
proof -
  have s: "nodes_ok h" "p \<in> Cs" "k < length (kids p)" "find a (get_arr h p) = Some l"
    "find a (get_arr h c) = Some lc" "get_state h (p, l) \<noteq> I" using assms by (auto simp: serving_def)
  show cC: "c \<in> Cs" "c \<noteq> p" using child_in [OF s(2) nth_mem [OF s(3)]] by (auto simp: c_def)
  show tag: "tag (get_arr h p) l = a" by (rule wf_tag [OF nodes_okD(2) [OF s(1,2)] s(4)])
  note n = node_sharers [OF nodes_okD(1) [OF s(1,2)], of l, unfolded tag]
  show "sharers_ok h p a (get_entry h p l)" "sharers (get_entry h p l) i \<longleftrightarrow> i < length (kids p) \<and> st h (kids p ! i) a \<noteq> I"
    "entry_isExclusive (get_entry h p l) \<Longrightarrow> writable (get_state h (p, l))"
    using n s(6) by auto
  show "st h c a = get_state h (c, lc)" by (rule st_found [OF s(5)])
  show "sub c x \<Longrightarrow> x \<noteq> p" using not_above [OF nth_mem [OF s(3)] s(2)] by (auto simp: c_def)
qed

text \<open>
  After the invalidations of \<open>served_step\<close>'s request, setting the entry and the child's state
  gives a state that is again in order.
\<close>

lemma served_step:
  fixes h h1 h' :: "('a, 'm) hier"
  assumes s: "serving h p k l lc a" and c: "c = kids p ! k"
    and chg: "chg (insert p (below_from e0 p 0)) a h h1" and e0: "\<not> sharers e0 k" and own: "own_view p l h h1"
    and below: "\<And>i. i < length (kids p) \<Longrightarrow> below_ok h1 (kids p ! i)"
    and h': "h' = set_state (c, lc) s (set_entry p l e' h1)"
    and none: "s = I \<Longrightarrow> \<forall>i. \<not> sharers (get_entry h c lc) i"
    and ex: "writable s \<or> get_state h (c, lc) = I \<or> get_state h (c, lc) = S \<or> (\<forall>i. \<not> sharers (get_entry h c lc) i)"
    and sh: "sharers_ok h' p a e'"
    and full: "\<And>i. i < length (kids p) \<Longrightarrow> st h' (kids p ! i) a \<noteq> I \<Longrightarrow> sharers e' i"
    and exp: "entry_isExclusive e' \<Longrightarrow> writable (get_state h (p, l))"
  shows "served h h' p c a"
proof -
  note D = s [unfolded serving_def, folded c] and C = serving_child [OF s, folded c]
  have ne: "x \<notin> insert p (below_from e0 p 0)" if "sub c x" for x
    using C(8) [OF that] kids_disjoint [of p _ k x] that D e0 by (auto simp: below_from_def c)
  have c1: "caches h1 c = caches h c" using chgD(3) [OF chg ne [OF desc_refl]] .
  have node_c: "node h c" using D C(1) by (simp add: nodes_ok_def)
  have eff: "get_arr h' y = get_arr h1 y" "get_state h' (y, j) = (if (y, j) = (c, lc) then s else get_state h1 (y, j))"
    "get_entry h' y j = (if y = p \<and> j = l then e' else get_entry h1 y j)" "held h' = held h1" "mems h' = mems h1" for y j
    by (auto simp: h' hier_simps)
  have c1e: "get_entry h1 c lc = get_entry h c lc" using c1 by (simp add: get_entry_def)
  have nodes: "nodes_ok h'"
  proof (rule grant_nodes [OF _ _ _ c _ _ _ chg _ own below eff(1-3)])
    show "insert p (below_from e0 p 0) \<subseteq> {x. sub p x}" using below_from_sub desc_refl by auto
    show "entry_isExclusive (get_entry h1 c lc) \<Longrightarrow> writable s"
      unfolding c1e using ex node_sharers(3) [OF node_c, of lc] none_num [OF node_sharers(2) [OF node_c, of lc]]
      by (auto simp: writable_def entry_isExclusive_def)
  qed (use D none c1e sh full exp in \<open>auto simp: c\<close>)
  have st': "st h' x b = st h1 x b" if "x \<noteq> c" for x b
    using that by (auto simp: line_state_def eff split: option.split)
  show "served h h' p c a"
    unfolding served_def
  proof (intro conjI allI impI)
    show "arr_le (get_arr h x) (get_arr h' x)" for x using chgD(4) [OF chg] by (simp add: eff)
    show "get_arr h' p = get_arr h p" "get_state h' (p, j) = get_state h (p, j)" for j
      using own C(2) by (auto simp: eff own_view_def)
    show "caches h' x = caches h x" if "\<not> sub p x" for x
    proof -
      have "x \<noteq> p" "x \<noteq> c" using that desc_refl desc_child [of k cfg p] D c by auto
      then have "caches h' x = caches h1 x" by (simp add: h' hier_simps)
      moreover have "x \<notin> insert p (below_from e0 p 0)" using that below_from_sub desc_refl by auto
      ultimately show ?thesis using chgD(3) [OF chg] by simp
    qed
    show "st h' x a = st h x a" if "sub c x" "x \<noteq> c" for x
      using st' [OF that(2)] chg_st_out [OF chg ne [OF that(1)]] by simp
  qed (use nodes chgD(1,2) [OF chg] in \<open>simp_all add: eff\<close>)
qed

text \<open>The states of the children once the entry and the requester's line are written.\<close>

lemma child_states:
  assumes p: "p \<in> Cs" and k: "k < length (kids p)" and ok: "nodes_ok h" and lc: "find a (get_arr h (kids p ! k)) = Some lc"
    and chg: "chg X a h h1" and i: "i < length (kids p)"
  shows "st (set_state (kids p ! k, lc) s (set_entry p l e' h1)) (kids p ! i) a = (if i = k then s else st h1 (kids p ! i) a)"
proof -
  have cC: "kids p ! k \<in> Cs" using tree_child(1) [OF p k] .
  have lc1: "find a (get_arr h1 (kids p ! k)) = Some lc" using chgD(5) [OF chg] lc by (simp add: same_arr_def)
  have wf1: "arr_wf (get_arr h1 (kids p ! k))" by (rule arr_le_wf [OF chgD(4) [OF chg] nodes_okD(2) [OF ok cC]])
  show ?thesis
    using st_set_state [OF lc1 wf1, of "set_state (kids p ! k, lc) s (set_entry p l e' h1)" s] kids_inj [OF p i k]
    by (auto simp: hier_simps)
qed

lemma tcc_gets_ok:
  fixes h :: "('a, 'm) hier"
  assumes s: "serving h p k l lc a" and c: "c = kids p ! k" and I: "get_state h (c, lc) = I"
    and inval: "\<And>i. i < length (kids p) \<Longrightarrow> inval_contract invl (kids p ! i)"
  shows "\<exists>resp wb h'. tcc_processAccess invl (cfg p) p a l GETS k (bcc_isExclusive p l h) (c, lc) False cyc src fl h
      = Inr (resp, wb, h') \<and> cyc \<le> resp \<and> served h h' p c a \<and> granted GETS (get_state h' (c, lc))
      \<and> (wb \<longrightarrow> writable (get_state h (p, l)))"
proof -
  note D = s [unfolded serving_def, folded c] and C = serving_child [OF s, folded c]
  let ?e = "get_entry h p l"
  have pC: "p \<in> Cs" and k: "k < length (kids p)" and ok: "nodes_ok h" and a: "addr_ok a"
    and lc: "find a (get_arr h (kids p ! k)) = Some lc"
    using D c by auto
  have notk: "\<not> sharers ?e k" using C(5) C(6) I c by simp
  show ?thesis
  proof (cases "isEmpty ?e \<and> bcc_isExclusive p l h \<and> \<not> flag_in fl NOEXCL")
    case True
    let ?e' = "?e\<lparr>exclusive := True, sharers := (sharers ?e)(k := True), e_numSharers := 1\<rparr>"
    define h' where "h' = set_state (c, lc) E (set_entry p l ?e' h)"
    have none: "\<not> sharers ?e i" for i using no_sharers [OF C(4)] True by simp
    have kid: "st h' (kids p ! i) a = (if i = k then E else st h (kids p ! i) a)" if "i < length (kids p)" for i
      unfolding h'_def c by (rule child_states [OF pC k ok lc chg_refl [of "{}"] that])
    have one: "(sharers ?e)(k := True) = (\<lambda>i. i = k)" using none by (simp add: fun_eq_iff)
    have st': "get_state h' (c, lc) = E" by (simp add: h'_def hier_simps)
    have sv: "served h h' p c a"
    proof (rule served_step [OF s c _ notk _ _ h'_def])
      show "chg (insert p (below_from ?e p 0)) a h h" by simp
      show "own_view p l h h" by (simp add: own_view_def)
      show "below_ok h (kids p ! i)" if "i < length (kids p)" for i by (rule serving_below [OF s that])
      show "sharers_ok h' p a ?e'" using kid k by (simp add: sharers_ok_def one writable_def)
      show "sharers ?e' i" if "i < length (kids p)" "st h' (kids p ! i) a \<noteq> I" for i
        using that kid C(5) none by (auto split: if_splits)
      show "entry_isExclusive ?e' \<Longrightarrow> writable (get_state h (p, l))"
        using True by (simp add: bcc_isExclusive_def writable_def)
    qed (auto simp: writable_def)
    then show ?thesis using True st' by (auto simp: tcc_processAccess_def Let_def h'_def [symmetric] granted_def)
  next
    case False
    obtain resp wb h1 e1 where r: "(if entry_isExclusive ?e then tcc_sendInvalidates invl (cfg p) p a l INVX False cyc src h
          else Inr (cyc, False, h)) = Inr (resp, wb, h1)" "cyc \<le> resp" "wb \<longrightarrow> writable (get_state h (p, l))"
      "chg (insert p (below_from ?e p 0)) a h h1" "own_view p l h h1" "get_entry h1 p l = e1"
      "\<And>i. i < length (kids p) \<Longrightarrow> below_ok h1 (kids p ! i)"
      "\<And>i. i < length (kids p) \<Longrightarrow> st h1 (kids p ! i) a = I \<longleftrightarrow> st h (kids p ! i) a = I"
      "sharers e1 = sharers ?e" "sharers_ok h1 p a e1" "\<not> entry_isExclusive e1"
    proof (cases "entry_isExclusive ?e")
      case False
      then show thesis using C(4) serving_below [OF s] by (intro that [of cyc False h ?e]) (auto simp: own_view_def)
    next
      case True
      from send_inv_ok [OF pC inval a _ C(3,4) serving_below [OF s], of INVX False cyc src] obtain resp wb h1 where
        r: "tcc_sendInvalidates invl (cfg p) p a l INVX False cyc src h = Inr (resp, wb, h1)"
        "cyc \<le> resp" "chg (insert p (below_from ?e p 0)) a h h1" "own_view p l h h1"
        "get_entry h1 p l = invalidated INVX ?e"
        "\<forall>i < length (kids p). below_ok h1 (kids p ! i) \<and> st h1 (kids p ! i) a =
           (if sharers ?e i \<and> (INVX = INV \<or> entry_isExclusive ?e) then inv_result INVX else st h (kids p ! i) a)"
        by auto
      have e1: "invalidated INVX ?e = ?e\<lparr>exclusive := False\<rparr>" using True by (simp add: invalidated_def)
      have "sharers_ok h1 p a (?e\<lparr>exclusive := False\<rparr>)"
        using C(4) r(6) True by (auto simp: sharers_ok_def inv_result_def writable_def)
      then show thesis
        using r True C(5) C(7) [OF True] unfolding e1
        by (intro that [of resp wb h1 "?e\<lparr>exclusive := False\<rparr>"]) (auto simp: inv_result_def entry_isExclusive_def)
    qed
    let ?e' = "(add_sharer k e1)\<lparr>exclusive := False\<rparr>"
    define h' where "h' = set_state (c, lc) S (set_entry p l ?e' h1)"
    have kid: "st h' (kids p ! i) a = (if i = k then S else st h1 (kids p ! i) a)" if "i < length (kids p)" for i
      unfolding h'_def c by (rule child_states [OF pC k ok lc r(4) that])
    have nw: "\<not> writable (st h1 (kids p ! i) a)" if "sharers e1 i" for i
      using r(10,11) that exclusive_sharer [OF r(10) that] by (auto simp: sharers_ok_def)
    have sh': "sharers ?e' = (\<lambda>i. i = k \<or> sharers ?e i)" by (simp add: add_sharer_def r(9) fun_eq_iff)
    have "get_state h' (c, lc) = S" by (simp add: h'_def hier_simps)
    moreover have sv: "served h h' p c a"
    proof (rule served_step [OF s c r(4) notk r(5,7) h'_def])
      show "sharers_ok h' p a ?e'"
        by (rule sharers_add [OF pC r(10) k]) (use kid k nw notk r(9) in auto)
      show "sharers ?e' i" if "i < length (kids p)" "st h' (kids p ! i) a \<noteq> I" for i
        using that kid C(5) r(8) unfolding sh' by (auto split: if_splits)
    qed (use I in \<open>auto simp: entry_isExclusive_def\<close>)
    moreover have "tcc_processAccess invl (cfg p) p a l GETS k (bcc_isExclusive p l h) (c, lc) False cyc src fl h = Inr (resp, wb, h')"
      unfolding tcc_processAccess_def Let_def using False r(1,6,11) notk by (auto simp: h'_def)
    ultimately show ?thesis using r(2,3) by (auto simp: granted_def)
  qed
qed

lemma tcc_getx_ok:
  fixes h :: "('a, 'm) hier"
  assumes s: "serving h p k l lc a" and c: "c = kids p ! k" and IS: "get_state h (c, lc) = I \<or> get_state h (c, lc) = S"
    and M: "writable (get_state h (p, l))"
    and inval: "\<And>i. i < length (kids p) \<Longrightarrow> inval_contract invl (kids p ! i)"
  shows "\<exists>resp wb h'. tcc_processAccess invl (cfg p) p a l GETX k (bcc_isExclusive p l h) (c, lc) False cyc src fl h
      = Inr (resp, wb, h') \<and> cyc \<le> resp \<and> served h h' p c a \<and> granted GETX (get_state h' (c, lc))"
proof -
  note D = s [unfolded serving_def, folded c] and C = serving_child [OF s, folded c]
  let ?e = "get_entry h p l"
  have pC: "p \<in> Cs" and k: "k < length (kids p)" and ok: "nodes_ok h" and a: "addr_ok a"
    and lc: "find a (get_arr h (kids p ! k)) = Some lc"
    using D c by auto
  define e0 where "e0 = (if sharers ?e k then drop_sharer k ?e else ?e)"
  define h0 where "h0 = (if sharers ?e k then set_entry p l (drop_sharer k ?e) h else h)"
  have e0: "\<not> sharers e0 k" "sharers_ok h p a e0" "i \<noteq> k \<Longrightarrow> sharers e0 i \<longleftrightarrow> sharers ?e i" for i
    using C(4) sharers_drop [OF pC C(4)] by (auto simp: e0_def drop_sharer_def)
  have h0: "get_arr h0 x = get_arr h x" "get_state h0 r = get_state h r" "get_entry h0 p l = e0"
    "x \<noteq> p \<Longrightarrow> caches h0 x = caches h x" "held h0 = held h" for x r
    by (auto simp: h0_def e0_def hier_simps)
  have st0: "st h0 x b = st h x b" for x b by (simp add: line_state_def h0 split: option.split)
  have chg0: "chg {p} a h h0"
    using C(3) by (auto simp: chg_def h0_def hier_simps)
  have own0: "own_view p l h h0" by (auto simp: own_view_def h0_def hier_simps)
  have below0: "below_ok h0 (kids p ! i)" if i: "i < length (kids p)" for i
  proof (rule below_keep(1) [OF chg0 serving_below [OF s i]])
    show "x \<notin> {p}" if "sub (kids p ! i) x" for x
      using not_above [OF nth_mem [OF i] pC] that by auto
  qed
  have tag0: "tag (get_arr h0 p) l = a" using C(3) by (simp add: h0)
  have sh0: "sharers_ok h0 p a (get_entry h0 p l)" using e0(2) by (simp add: h0 sharers_ok_def st0)
  from send_inv_ok [OF pC inval a _ tag0 sh0 below0, of INV False cyc src] obtain resp wb h1 where
    r: "tcc_sendInvalidates invl (cfg p) p a l INV False cyc src h0 = Inr (resp, wb, h1)" "cyc \<le> resp"
      "chg (insert p (below_from e0 p 0)) a h0 h1" "own_view p l h0 h1" "get_entry h1 p l = invalidated INV e0"
      "\<forall>i < length (kids p). below_ok h1 (kids p ! i) \<and> st h1 (kids p ! i) a = (if sharers e0 i then I else st h (kids p ! i) a)"
    by (auto simp: h0(3) st0 inv_result_def)
  let ?e' = "(add_sharer k (invalidated INV e0))\<lparr>exclusive := True\<rparr>"
  define h' where "h' = set_state (c, lc) M (set_entry p l ?e' h1)"
  have chg1: "chg (insert p (below_from e0 p 0)) a h h1"
    by (rule chg_mono [OF chg_trans [OF chg0 r(3)]]) auto
  have kid: "st h' (kids p ! i) a = (if i = k then M else I)" if i: "i < length (kids p)" for i
    using child_states [OF pC k ok lc chg1 i, of M] r(6) e0(3) [of i] C(5) [of i] i by (auto simp: h'_def c)
  have e': "sharers ?e' = (\<lambda>i. i = k)" "e_numSharers ?e' = 1" "exclusive ?e'"
    by (auto simp: invalidated_def add_sharer_def fun_eq_iff)
  have "served h h' p c a"
  proof (rule served_step [OF s c chg1 e0(1) _ _ h'_def])
    show "own_view p l h h1" using own0 r(4) by (auto simp: own_view_def)
    show "sharers_ok h' p a ?e'" using kid k by (simp add: sharers_ok_def e' writable_def)
    show "sharers ?e' i" if "i < length (kids p)" "st h' (kids p ! i) a \<noteq> I" for i
      using that kid by (auto simp: e' split: if_splits)
  qed (use r(6) M in \<open>auto simp: writable_def\<close>)
  moreover have "tcc_processAccess invl (cfg p) p a l GETX k (bcc_isExclusive p l h) (c, lc) False cyc src fl h = Inr (resp, wb, h')"
  proof -
    have "\<not> entry_isExclusive ?e" if "sharers ?e k"
      using C(4,6) that IS c by (auto simp: sharers_ok_def entry_isExclusive_def writable_def)
    then show ?thesis using M r(1,5) e'(2)
      by (simp add: tcc_processAccess_def Let_def bcc_isExclusive_def writable_def h0_def [symmetric] h'_def)
  qed
  moreover have "get_state h' (c, lc) = M" by (simp add: h'_def hier_simps)
  ultimately show ?thesis using r(2) by (auto simp: granted_def)
qed

lemma tcc_put_ok:
  fixes h :: "('a, 'm) hier"
  assumes s: "serving h p k l lc a" and c: "c = kids p ! k" and put: "put_ok h c lc t"
    and fl: "\<not> flag_in fl PUTX_KEEPEXCL"
  shows "\<exists>h'. tcc_processAccess invl (cfg p) p a l t k he (c, lc) False cyc src fl h = Inr (cyc, False, h')
    \<and> served h h' p c a \<and> h' = set_state (c, lc) I (set_entry p l (drop_sharer k (get_entry h p l)) h)"
proof -
  note D = s [unfolded serving_def, folded c] and C = serving_child [OF s, folded c]
  let ?e = "get_entry h p l"
  have pC: "p \<in> Cs" and k: "k < length (kids p)" and ok: "nodes_ok h"
    and lc: "find a (get_arr h (kids p ! k)) = Some lc"
    using D c by auto
  have none: "\<forall>i. \<not> sharers (get_entry h c lc) i"
    and t: "t = PUTS \<and> (get_state h (c, lc) = S \<or> get_state h (c, lc) = E) \<or> t = PUTX \<and> get_state h (c, lc) = M"
    using put by (auto simp: put_ok_def)
  have "st h c a \<noteq> I" unfolding C(6) using t by auto
  then have shk: "sharers ?e k" using C(5) [of k] k unfolding c by blast
  have ex: "entry_isExclusive ?e" if "exclusive ?e" by (rule exclusive_sharer [OF C(4) shk that])
  let ?e' = "drop_sharer k ?e"
  define h' where "h' = set_state (c, lc) I (set_entry p l ?e' h)"
  have kid: "st h' (kids p ! i) a = (if i = k then I else st h (kids p ! i) a)" if "i < length (kids p)" for i
    unfolding h'_def c by (rule child_states [OF pC k ok lc chg_refl [of "{}"] that])
  have sh': "sharers_ok h p a ?e'" by (rule sharers_drop [OF pC C(4) shk])
  have nk: "\<not> sharers ?e' k" by (simp add: drop_sharer_def)
  have "served h h' p c a"
  proof (rule served_step [OF s c _ nk _ _ h'_def])
    show "own_view p l h h" by (simp add: own_view_def)
    show "below_ok h (kids p ! i)" if "i < length (kids p)" for i by (rule serving_below [OF s that])
    show "sharers_ok h' p a ?e'" using sh' kid nk by (auto simp: sharers_ok_def)
    show "sharers ?e' i" if "i < length (kids p)" "st h' (kids p ! i) a \<noteq> I" for i
      using that kid C(5) by (auto simp: drop_sharer_def split: if_splits)
    show "writable (get_state h (p, l))" if "entry_isExclusive ?e'"
      by (rule C(7) [OF ex]) (use that in \<open>simp add: entry_isExclusive_def drop_sharer_def\<close>)
  qed (use none in auto)
  moreover have "tcc_processAccess invl (cfg p) p a l t k he (c, lc) False cyc src fl h = Inr (cyc, False, h')"
  proof -
    have "exclusive ?e" if "t = PUTX"
      using C(4,6) shk t that c by (auto simp: sharers_ok_def writable_def)
    with ex have "t = PUTX \<Longrightarrow> entry_isExclusive ?e" by simp
    then show ?thesis using t shk fl by (auto simp: tcc_processAccess_def tcc_put_def Let_def h'_def)
  qed
  ultimately show ?thesis unfolding h'_def by blast
qed

subsection \<open>The memories serve the last-level cache\<close>

lemma llc_in: "llc \<in> Cs"
  using tree by (simp add: tree_ok_def)

lemma not_kid_llc: "x \<in> Cs \<Longrightarrow> llc \<notin> set (kids x)"
  using tree_child(5) by (metis in_set_conv_nth)

lemma llc_parent:
  obtains i where "parent_of llc a = MemObj i"
proof -
  have "parents (cfg llc) \<noteq> []" "\<forall>mo \<in> set (parents (cfg llc)). \<exists>i. mo = MemObj i"
    using tree by (auto simp: tree_ok_def)
  then have "parent_of llc a \<in> set (parents (cfg llc))" by (simp add: parent_of_def getParentId_def)
  then show thesis using \<open>\<forall>mo \<in> set (parents (cfg llc)). \<exists>i. mo = MemObj i\<close> that by blast
qed

lemma mem_line:
  fixes h :: "('a, 'm) hier"
  assumes busy: "busy h llc" and l: "find a (get_arr h llc) = Some l" "addr_ok a" and m: "mem_ok m"
    and none: "s = I \<Longrightarrow> \<forall>i. \<not> sharers (get_entry h llc l) i"
    and ex: "entry_isExclusive (get_entry h llc l) \<Longrightarrow> writable s"
    and h': "h' = set_state (llc, l) s (h\<lparr>mems := m\<rparr>)"
  shows "busy h' llc" and "kept llc h h'" and "get_state h' (llc, l) = s"
    and "(x, b) \<noteq> (llc, a) \<Longrightarrow> st h' x b = st h x b"
proof -
  have eff: "get_arr h' y = get_arr h y" "get_state h' (y, j) = (if (y, j) = (llc, l) then s else get_state h (y, j))"
    "get_entry h' y j = get_entry h y j" "held h' = held h" "mems h' = m" for y j
    by (auto simp: h' hier_simps)
  note ok = busyD(1) [OF busy]
  note st' = st_set_state [OF l(1) nodes_okD(2) [OF ok llc_in] eff(1,2)]
  show "(x, b) \<noteq> (llc, a) \<Longrightarrow> st h' x b = st h x b" by (auto simp: st')
  have "node h' x" if x: "x \<in> Cs" for x
  proof (cases "x = llc")
    case True
    then show ?thesis
      using set_line_node [OF nodes_okD(1) [OF ok llc_in] llc_in nodes_okD(2) [OF ok llc_in] l none ex eff(1,3,2)] by simp
  next
    case False
    have "node h' x = node h x"
    proof (rule node_cong)
      show "same_view h h' x" using False by (simp add: same_view_def same_arr_def eff)
      show "st h' d b = st h d b" if "d \<in> set (kids x)" for d b
        using not_kid_llc [OF x] that by (auto simp: st')
    qed
    then show ?thesis using nodes_okD(1) [OF ok x] by simp
  qed
  then show "busy h' llc" using busy m by (simp add: busy_def nodes_ok_def eff)
  show "kept llc h h'" by (simp add: kept_def eff)
  show "get_state h' (llc, l) = s" by (simp add: eff)
qed

lemma mem_get: "get_contract (sys_access ops mem_access cfg depth n) llc"
  unfolding get_contract_def
proof (intro allI impI)
  fix h :: "('a, 'm) hier" and req :: mem_req and l
  let ?a = "lineAddr req"
  assume busy: "busy h llc" and req: "bcc_req h llc l req" and get: "get_ok h llc l (r_type req)"
    and time: "get_time llc (cycle req)"
  obtain i where i: "parent_of llc ?a = MemObj i" by (rule llc_parent)
  have "unat (cycle req) + 2 ^ 33 \<le> 2 ^ 64"
    using time by (simp add: get_time_def)
  then obtain resp m where m: "mem_access i req (mems h) = Inr (resp, mem_grant req, m)" "mem_ok m"
    using mem_answers [OF busyD(2) [OF busy]] by blast
  define h' where "h' = set_state (llc, l) (mem_grant req) (h\<lparr>mems := m\<rparr>)"
  have g: "granted (r_type req) (mem_grant req)" using get by (auto simp: get_ok_def granted_def mem_grant_def)
  have node: "node h llc" using busyD(1) [OF busy] llc_in by (simp add: nodes_ok_def)
  have l: "find ?a (get_arr h llc) = Some l" "addr_ok ?a" using req by (auto simp: bcc_req_def)
  have "\<not> entry_isExclusive (get_entry h llc l)"
    using node_sharers(3) [OF node, of l] get by (auto simp: get_ok_def writable_def)
  moreover have "mem_grant req \<noteq> I" using g by (auto simp: granted_def split: if_splits)
  ultimately have "busy h' llc" "kept llc h h'" "get_state h' (llc, l) = mem_grant req"
    "\<And>x b. (x, b) \<noteq> (llc, ?a) \<Longrightarrow> st h' x b = st h x b"
    using mem_line [OF busy l m(2) _ _ h'_def] by auto
  moreover have "sys_access ops mem_access cfg depth n (parent_of llc ?a) req h = Inr (resp, h')"
    using i m(1) req by (simp add: mem_call_def h'_def bcc_req_def)
  ultimately show "\<exists>resp h'. sys_access ops mem_access cfg depth n (parent_of llc ?a) req h = Inr (resp, h')
      \<and> busy h' llc \<and> kept llc h h' \<and> granted (r_type req) (get_state h' (llc, l))
      \<and> (\<forall>x. sub llc x \<longrightarrow> x \<noteq> llc \<longrightarrow> st h' x ?a = st h x ?a)"
    using g by auto
qed

lemma mem_put: "put_contract (sys_access ops mem_access cfg depth n) llc"
  unfolding put_contract_def
proof (intro allI impI)
  fix h :: "('a, 'm) hier" and req :: mem_req and l
  let ?a = "lineAddr req"
  assume busy: "busy h llc" and req: "bcc_req h llc l req" and put: "put_ok h llc l (r_type req)"
    and time: "put_time (cycle req)"
  obtain i where i: "parent_of llc ?a = MemObj i" by (rule llc_parent)
  have "unat (cycle req) + 2 ^ 33 \<le> 2 ^ 64"
    using time by (simp add: put_time_def)
  then obtain resp m where m: "mem_access i req (mems h) = Inr (resp, mem_grant req, m)" "mem_ok m"
    using mem_answers [OF busyD(2) [OF busy]] by blast
  have g: "mem_grant req = I" using put by (auto simp: put_ok_def mem_grant_def)
  define h' where "h' = set_state (llc, l) I (h\<lparr>mems := m\<rparr>)"
  have node: "node h llc" using busyD(1) [OF busy] llc_in by (simp add: nodes_ok_def)
  have l: "find ?a (get_arr h llc) = Some l" "addr_ok ?a" using req by (auto simp: bcc_req_def)
  have none: "\<forall>i. \<not> sharers (get_entry h llc l) i" using put by (simp add: put_ok_def)
  then have "\<not> entry_isExclusive (get_entry h llc l)"
    using none_num [OF node_sharers(2) [OF node, of l]] by (simp add: entry_isExclusive_def)
  with none have "busy h' llc" "kept llc h h'" "get_state h' (llc, l) = I"
    "\<And>x b. (x, b) \<noteq> (llc, ?a) \<Longrightarrow> st h' x b = st h x b"
    using mem_line [OF busy l m(2) _ _ h'_def] by auto
  moreover have "sys_access ops mem_access cfg depth n (parent_of llc ?a) req h = Inr (resp, h')"
    using i m(1) req g by (simp add: mem_call_def h'_def bcc_req_def)
  ultimately show "\<exists>resp h'. sys_access ops mem_access cfg depth n (parent_of llc ?a) req h = Inr (resp, h')
      \<and> busy h' llc \<and> kept llc h h' \<and> get_state h' (llc, l) = I
      \<and> (\<forall>x \<in> Cs. \<forall>b. b \<noteq> ?a \<longrightarrow> st h' x b = st h x b)"
    by auto
qed

subsection \<open>The bottom controller gets a line\<close>

lemma busy_step:
  fixes h h' :: "('a, 'm) hier"
  assumes "busy h c" and "nodes_ok h'" and "held h' = held h" and "mems h' = mems h"
    and "\<And>x. arr_le (get_arr h x) (get_arr h' x)"
  shows "busy h' c" and "kept c h h'"
  using assms by (auto simp: busy_def kept_def arr_le_def)

lemma same_rights_step:
  fixes h h' :: "('a, 'm) hier"
  assumes "busy h c" and "same_rights h h'" and "held h' = held h" and "mems h' = mems h"
  shows "busy h' c" and "kept c h h'"
proof -
  have "arr_le (get_arr h x) (get_arr h' x)" for x using assms(2) by (simp add: same_rights_def)
  with busy_step [OF assms(1) same_rights_nodes [OF assms(2) busyD(1) [OF assms(1)]] assms(3,4)]
  show "busy h' c" "kept c h h'" by auto
qed

lemma prof_step:
  fixes h :: "('a, 'm) hier"
  assumes "busy h c"
  shows "busy (upd_prof d f h) c" and "kept c h (upd_prof d f h)"
  using same_rights_step [OF assms, of "upd_prof d f h"] by (auto simp: same_rights_def hier_simps)

lemma prof_st [simp]:
  fixes h :: "('a, 'm) hier"
  shows "st (upd_prof d f h) x b = st h x b"
  by (simp add: line_state_def hier_simps split: option.split)

lemma upgrade_step:
  fixes h :: "('a, 'm) hier"
  assumes "busy h c" and "writable (get_state h (d, l))"
  shows "busy (set_state (d, l) M h) c" and "kept c h (set_state (d, l) M h)"
    and "x \<noteq> d \<Longrightarrow> st (set_state (d, l) M h) x b = st h x b"
proof -
  have "same_rights h (set_state (d, l) M h)"
    using assms(2) by (auto simp: same_rights_def hier_simps writable_def)
  from same_rights_step [OF assms(1) this] show "busy (set_state (d, l) M h) c" "kept c h (set_state (d, l) M h)"
    by (auto simp: hier_simps)
  show "x \<noteq> d \<Longrightarrow> st (set_state (d, l) M h) x b = st h x b" by (intro st_caches) (simp add: hier_simps)
qed

lemma bcc_get_ok:
  fixes h :: "('a, 'm) hier"
  assumes busy: "busy h c" and c: "c \<in> Cs" and l: "find a (get_arr h c) = Some l" "addr_ok a"
    and t: "IsGet t" and get: "get_contract acc c" and time: "get_time c cyc"
    and fl: "\<not> flag_in fl PREFETCH" "\<not> flag_in fl PUTX_KEEPEXCL"
  shows "\<exists>resp h'. bcc_processAccess acc (cfg c) c a l t cyc src fl p h = Inr (resp, h') \<and> cyc \<le> resp
    \<and> busy h' c \<and> kept c h h' \<and> get_state h' (c, l) \<noteq> I \<and> (t = GETX \<longrightarrow> get_state h' (c, l) = M)
    \<and> (\<forall>x. sub c x \<longrightarrow> x \<noteq> c \<longrightarrow> st h' x a = st h x a)"
proof -
  have fetch: "\<exists>resp h'. bcc_fetch acc (cfg c) c a l t cyc src fl p h = Inr (resp, h') \<and> cyc \<le> resp
      \<and> busy h' c \<and> kept c h h' \<and> granted t (get_state h' (c, l))
      \<and> (\<forall>x. sub c x \<longrightarrow> x \<noteq> c \<longrightarrow> st h' x a = st h x a)"
    if busy: "busy h c" and l: "find a (get_arr h c) = Some l" and ok: "get_ok h c l t" for h :: "('a, 'm) hier"
  proof -
    let ?req = "bcc_request (cfg c) c a t (c, l) cyc src fl p h"
    have r: "lineAddr ?req = a" "r_type ?req = t" "cycle ?req = cyc" by (simp_all add: bcc_request_def)
    have "bcc_req h c l ?req" using l assms(4) fl by (simp add: bcc_req_def bcc_request_def)
    with get busy ok time r obtain resp h1 where
      h1: "acc (parent_of c a) ?req h = Inr (resp, h1)" "busy h1 c" "kept c h h1" "granted t (get_state h1 (c, l))"
        "\<forall>x. sub c x \<longrightarrow> x \<noteq> c \<longrightarrow> st h1 x a = st h x a"
      unfolding get_contract_def by metis
    have "1 * 2 ^ 32 \<le> (5 * lev llc + 8 - lev c) * 2 ^ 32"
      using tree_cache(5) [OF c] by (intro mult_le_mono1) simp
    then have "unat cyc + 2 ^ 32 \<le> 2 ^ 64" using time unfolding get_time_def by linarith
    then have "cyc \<le> cyc + ucast (x :: u32)" for x
      using add_no_wrap [of cyc x] by (simp add: word_le_nat_alt)
    then show ?thesis
      using h1 prof_step [OF h1(2)] kept_trans [OF h1(3)] by (simp add: bcc_fetch_def Let_def parent_of_def hier_simps)
  qed
  show ?thesis
  proof (cases "t = GETS")
    case S: True
    show ?thesis
    proof (cases "get_state h (c, l) = I")
      case True
      then obtain resp h1 where "bcc_fetch acc (cfg c) c a l t cyc src fl p h = Inr (resp, h1)" "cyc \<le> resp"
        "busy h1 c" "kept c h h1" "granted t (get_state h1 (c, l))"
        "\<forall>x. sub c x \<longrightarrow> x \<noteq> c \<longrightarrow> st h1 x a = st h x a"
        using fetch [OF busy l(1)] S by (auto simp: get_ok_def)
      then show ?thesis using S True prof_step [of h1 c] kept_trans [of c h h1]
        by (auto simp: bcc_processAccess_def granted_def hier_simps)
    next
      case False
      then show ?thesis using S prof_step [OF busy] by (auto simp: bcc_processAccess_def hier_simps)
    qed
  next
    case False
    then have X: "t = GETX" using t by (cases t) (auto simp: IsGet_def)
    show ?thesis
    proof (cases "get_state h (c, l) = I \<or> get_state h (c, l) = S")
      case True
      define f where "f = (\<lambda>q :: bcc_prof. if get_state h (c, l) = I then q\<lparr>profGETXMissIM := profGETXMissIM q + 1\<rparr>
                                 else q\<lparr>profGETXMissSM := profGETXMissSM q + 1\<rparr>)"
      have "find a (get_arr (upd_prof c f h) c) = Some l" "get_ok (upd_prof c f h) c l t"
        using l(1) True X by (simp_all add: hier_simps get_ok_def)
      from fetch [OF prof_step(1) [OF busy] this] obtain resp h1 where
        "bcc_fetch acc (cfg c) c a l GETX cyc src fl p (upd_prof c f h) = Inr (resp, h1)" "cyc \<le> resp"
        "busy h1 c" "kept c (upd_prof c f h) h1" "granted t (get_state h1 (c, l))"
        "\<forall>x. sub c x \<longrightarrow> x \<noteq> c \<longrightarrow> st h1 x a = st h x a"
        using X by auto
      then show ?thesis using X True kept_trans [OF prof_step(2) [OF busy, of c f]]
        by (auto simp: bcc_processAccess_def Let_def granted_def f_def)
    next
      case False
      then have w: "writable (get_state h (c, l))" by (cases "get_state h (c, l)") (auto simp: writable_def)
      note up = upgrade_step [OF prof_step(1) [OF busy]]
      show ?thesis
      proof (cases "get_state h (c, l) = E")
        case True
        then show ?thesis using X prof_step(1) [OF upgrade_step(1) [OF busy w]]
            kept_trans [OF upgrade_step(2) [OF busy w] prof_step(2) [OF upgrade_step(1) [OF busy w]]] upgrade_step(3) [OF busy w]
          by (auto simp: bcc_processAccess_def Let_def hier_simps)
      next
        case False
        then show ?thesis using X w prof_step [OF busy] by (auto simp: bcc_processAccess_def Let_def hier_simps writable_def)
      qed
    qed
  qed
qed

subsection \<open>Evictions\<close>

text \<open>
  The invalidations of an eviction: afterwards no child has the line, and the directory says so.
\<close>

lemma evict_inval_ok:
  fixes h :: "('a, 'm) hier"
  assumes busy: "busy h c" and c: "c \<in> Cs" and l: "find b (get_arr h c) = Some l" and valid: "get_state h (c, l) \<noteq> I"
    and inval: "\<And>i. i < length (kids c) \<Longrightarrow> inval_contract invl (kids c ! i)"
  shows "\<exists>ev wb h'. tcc_sendInvalidates invl (cfg c) c b l INV False cyc src h = Inr (ev, wb, h')
    \<and> busy h' c \<and> kept c h h' \<and> (\<forall>i. \<not> sharers (get_entry h' c l) i)
    \<and> get_state h' (c, l) = get_state h (c, l) \<and> (\<forall>x \<in> Cs. \<forall>a. a \<noteq> b \<longrightarrow> st h' x a = st h x a)
    \<and> (wb \<longrightarrow> writable (get_state h (c, l)))
    \<and> (unat cyc + kids_lat c \<le> 2 ^ 64 \<longrightarrow> unat ev \<le> unat cyc + kids_lat c)"
proof -
  note ok = busyD(1) [OF busy]
  note node = nodes_okD(1) [OF ok c] and wf = nodes_okD(2) [OF ok c]
  have tag: "tag (get_arr h c) l = b" by (rule wf_tag [OF wf l])
  have b: "addr_ok b" using node_lines [OF node valid] tag by simp
  note sh = node_sharers [OF node, of l, unfolded tag]
  have below: "below_ok h (kids c ! i)" if i: "i < length (kids c)" for i
    unfolding below_ok_def
  proof (intro allI impI)
    fix x assume x: "sub (kids c ! i) x"
    then have "x \<in> Cs" "x \<noteq> c" using desc_lev [OF x] tree_child(1,2) [OF c i] by auto
    then show "node h x \<and> arr_wf (get_arr h x) \<and> \<not> held h (BccLock x)"
      using busy by (simp add: busy_def nodes_ok_def)
  qed
  let ?e = "get_entry h c l"
  from send_inv_ok [OF c inval b _ tag sh(2) below, of INV False cyc src] obtain ev wb h' where
    r: "tcc_sendInvalidates invl (cfg c) c b l INV False cyc src h = Inr (ev, wb, h')"
      "chg (insert c (below_from ?e c 0)) b h h'" "own_view c l h h'" "get_entry h' c l = invalidated INV ?e"
      "\<forall>i < length (kids c). below_ok h' (kids c ! i) \<and> st h' (kids c ! i) b =
         (if sharers ?e i then I else st h (kids c ! i) b)"
      "wb \<longrightarrow> (\<exists>i. sharers ?e i \<and> writable (st h (kids c ! i) b))"
      "unat cyc + kids_lat c \<le> 2 ^ 64 \<longrightarrow> unat ev \<le> unat cyc + kids_lat c"
    unfolding inv_result_def by (simp only: simp_thms if_True) blast
  have own: "get_state h' (c, k) = get_state h (c, k)" "get_arr h' c = get_arr h c" for k
    using r(3) by (auto simp: own_view_def)
  have X: "insert c (below_from ?e c 0) \<subseteq> {x. sub c x}" using below_from_sub desc_refl by auto
  have stc: "st h' c b = st h c b" using l by (simp add: line_state_def own)
  have kid: "st h' (kids c ! i) b = I" if "i < length (kids c)" for i
    using r(5) sh(1) [of i] valid that by auto
  have other: "st h' x a = st h x a" if "x \<in> Cs" "a \<noteq> b" for x a
    by (rule chg_st_other [OF r(2) that(2) nodes_okD(2) [OF ok that(1)]])
  have "node h' c"
  proof (rule line_node [OF node wf l b])
    show "same_arr h h' c" using chgD(5) [OF r(2)] .
    show "get_entry h' c k = get_entry h c k" if "k \<noteq> l" for k using r(3) that by (simp add: own_view_def)
    show "st h' (kids c ! i) a = st h (kids c ! i) a" if "i < length (kids c)" "a \<noteq> b" for i a
      by (rule other [OF tree_child(1) [OF c that(1)] that(2)])
  qed (use r(4) kid own sh(2) in \<open>auto simp: invalidated_def sharers_ok_def entry_isExclusive_def\<close>)
  then have nodes: "nodes_ok h'"
    using chg_nodes [OF r(2) X ok c stc] r(5) arr_le_wf [OF chgD(4) [OF r(2)] nodes_okD(2) [OF ok]]
    unfolding nodes_ok_def by metis
  have wb: "writable (get_state h (c, l))" if w: "wb"
  proof -
    from w r(6) obtain i where i: "sharers ?e i" "writable (st h (kids c ! i) b)" by blast
    then have "exclusive ?e" using sh(2) by (simp add: sharers_ok_def)
    then show ?thesis by (rule sh(3) [OF exclusive_sharer [OF sh(2) i(1)]])
  qed
  show ?thesis
    using r(1,7) busy_step [OF busy nodes chgD(1,2) [OF r(2)] chgD(4) [OF r(2)]] own other wb
    by (auto simp: r(4) invalidated_def)
qed

lemma evict_ok:
  fixes h :: "('a, 'm) hier" and l
  assumes busy: "busy h c" and c: "c \<in> Cs"
    and inval: "\<And>i. i < length (kids c) \<Longrightarrow> inval_contract invl (kids c ! i)"
    and put: "put_contract acc c" and time: "unat cyc + kids_lat c + 3 * 2 ^ 32 \<le> 2 ^ 64"
  defines "b \<equiv> tag (get_arr h c) l"
  shows "\<exists>resp h'. cc_processEviction acc invl (cfg c) c req b l cyc h = Inr (resp, h') \<and> busy h' c \<and> kept c h h'
    \<and> get_state h' (c, l) = I
    \<and> (\<forall>x \<in> Cs. \<forall>a. a \<noteq> b \<or> get_state h (c, l) = I \<longrightarrow> st h' x a = st h x a)"
proof -
  note ok = busyD(1) [OF busy]
  note node = nodes_okD(1) [OF ok c] and wf = nodes_okD(2) [OF ok c]
  have hack: "\<not> nonInclusiveHack (cfg c)" by (rule tree_cache(1) [OF c])
  note sh = node_sharers [OF node, of l, folded b_def]
  show ?thesis
  proof (cases "get_state h (c, l) = I")
    case True
    have "e_numSharers (get_entry h c l) = 0" by (rule none_num [OF sh(2)]) (use sh(1) True in simp)
    then have "tcc_sendInvalidates invl (cfg c) c b l INV False cyc (srcId req) h = Inr (cyc, False, h)"
      by (simp add: tcc_sendInvalidates_def isEmpty_def)
    then show ?thesis using True busy hack
      by (auto simp: cc_processEviction_def term_processEviction_def mesi_processEviction_def tcc_processEviction_def
          bcc_processEviction_def)
  next
    case False
    have l: "find b (get_arr h c) = Some l" "addr_ok b" using node_lines [OF node False] by (simp_all add: b_def)
    obtain ev wb h1 where h1:
      "cc_processEviction acc invl (cfg c) c req b l cyc h = bcc_processEviction acc (cfg c) c b l wb ev (srcId req) (pc req) h1"
      "busy h1 c" "kept c h h1" "\<forall>i. \<not> sharers (get_entry h1 c l) i" "get_state h1 (c, l) = get_state h (c, l)"
      "\<forall>x \<in> Cs. \<forall>a. a \<noteq> b \<longrightarrow> st h1 x a = st h x a" "wb \<longrightarrow> writable (get_state h (c, l))"
      "unat ev \<le> unat cyc + kids_lat c"
    proof (cases "terminal (cfg c)")
      case True
      have "\<forall>i. \<not> sharers (get_entry h c l) i" using sh(1) tree_cache(2) [OF c True] by simp
      then show thesis using True busy
        by (intro that [of False cyc h]) (auto simp: cc_processEviction_def term_processEviction_def)
    next
      case f: False
      have t: "unat cyc + kids_lat c \<le> 2 ^ 64" using time by simp
      from evict_inval_ok [OF busy c l(1) False inval, of cyc "srcId req"] obtain ev wb h1 where
        "tcc_sendInvalidates invl (cfg c) c b l INV False cyc (srcId req) h = Inr (ev, wb, h1)"
        "busy h1 c \<and> kept c h h1 \<and> (\<forall>i. \<not> sharers (get_entry h1 c l) i)
          \<and> get_state h1 (c, l) = get_state h (c, l) \<and> (\<forall>x \<in> Cs. \<forall>a. a \<noteq> b \<longrightarrow> st h1 x a = st h x a)
          \<and> (wb \<longrightarrow> writable (get_state h (c, l)))
          \<and> (unat cyc + kids_lat c \<le> 2 ^ 64 \<longrightarrow> unat ev \<le> unat cyc + kids_lat c)" by blast
      then show thesis using f hack t
        by (intro that [of wb ev h1]) (auto simp: cc_processEviction_def mesi_processEviction_def tcc_processEviction_def)
    qed
    define h2 where "h2 = (if wb then set_state (c, l) M h1 else h1)"
    have w1: "wb \<Longrightarrow> writable (get_state h1 (c, l))" using h1(5,7) by simp
    have h2: "busy h2 c" "kept c h h2" "get_state h2 (c, l) \<noteq> I" "\<forall>i. \<not> sharers (get_entry h2 c l) i"
      using h1(2-5) False upgrade_step(1,2) [OF h1(2) w1] kept_trans [OF h1(3)]
      by (auto simp: h2_def hier_simps)
    have arr2: "arr_le (get_arr h c) (get_arr h2 c)" using h2(2) c by (simp add: kept_def)
    have l2: "find b (get_arr h2 c) = Some l" using arr2 l(1) by (simp add: arr_le_def)
    have wf1: "arr_wf (get_arr h1 c)" using h1(2) c by (simp add: busy_def nodes_ok_def)
    have st2: "st h2 x a = st h1 x a" if "a \<noteq> b" for x a
    proof (cases wb)
      case True
      have "find b (get_arr h1 c) = Some l" using l2 by (simp add: h2_def hier_simps split: if_splits)
      from st_set_state [OF this wf1, of h2 M x a] that True show ?thesis by (simp add: h2_def hier_simps)
    qed (simp add: h2_def)
    define t where "t = (if get_state h2 (c, l) = M then PUTX else PUTS)"
    let ?req = "bcc_request (cfg c) c b t (c, l) ev (srcId req) 0 (pc req) h2"
    have r: "lineAddr ?req = b" "r_type ?req = t" "cycle ?req = ev" by (simp_all add: bcc_request_def)
    have "bcc_req h2 c l ?req" using l2 l(2)
      by (simp add: bcc_req_def bcc_request_def)
    moreover have "put_ok h2 c l t" using h2(3,4) by (cases "get_state h2 (c, l)") (auto simp: put_ok_def t_def)
    moreover have "put_time ev" using h1(8) time by (simp add: put_time_def)
    ultimately obtain resp h3 where h3: "acc (parent_of c b) ?req h2 = Inr (resp, h3)" "busy h3 c" "kept c h2 h3"
      "get_state h3 (c, l) = I" "\<forall>x \<in> Cs. \<forall>a. a \<noteq> b \<longrightarrow> st h3 x a = st h2 x a"
      using put h2(1) r unfolding put_contract_def by metis
    have as: "(wb \<longrightarrow> get_state h1 (c, l) = M \<or> get_state h1 (c, l) = E) = True"
      using w1 by (auto simp: writable_def)
    have "bcc_processEviction acc (cfg c) c b l wb ev (srcId req) (pc req) h1 = Inr (resp, h3)"
      using h2(3) h3(1,4) unfolding bcc_processEviction_def as
      by (cases "get_state h2 (c, l)")
        (auto simp: Let_def parent_of_def t_def h2_def [symmetric])
    then show ?thesis
      using h1(1,6) h3 h2(2) kept_trans [OF h2(2) h3(3)] st2 False by auto
  qed
qed

subsection \<open>Finding or making room for a line\<close>

text \<open>What an access has done to the caches when its line is in the array of \<open>c\<close>.\<close>

definition placed :: "('a, 'm) hier \<Rightarrow> ('a, 'm) hier \<Rightarrow> nat \<Rightarrow> address \<Rightarrow> bool" where
  "placed h h' c a \<longleftrightarrow> busy h' c \<and> ready (get_arr h' c) \<and> held h' = held h
     \<and> (\<forall>x \<in> Cs. x \<noteq> c \<longrightarrow> lev x \<le> lev c \<longrightarrow> arr_le (get_arr h x) (get_arr h' x))
     \<and> (\<forall>x \<in> Cs. st h' x a = st h x a)"

lemma set_arr_step:
  fixes h :: "('a, 'm) hier"
  assumes busy: "busy h c" and c: "c \<in> Cs" and s: "\<forall>b. find b s = find b (get_arr h c)" "tag s = tag (get_arr h c)" "arr_wf s"
  shows "busy (set_arr c s h) c" and "st (set_arr c s h) x b = st h x b"
proof -
  have view: "same_view h (set_arr c s h) x" for x
    using s by (simp add: same_view_def same_arr_def hier_simps)
  then show "st (set_arr c s h) x b = st h x b" by (rule st_view)
  have "node (set_arr c s h) x = node h x" for x
    by (rule node_cong [OF view]) (rule st_view [OF view])
  then show "busy (set_arr c s h) c"
    using busy s(3) by (auto simp: busy_def nodes_ok_def hier_simps)
qed

lemma postinsert_nodes:
  fixes h :: "('a, 'm) hier"
  assumes ok: "nodes_ok h" and c: "c \<in> Cs" and a: "addr_ok a" and I: "get_state h (c, l) = I"
    and s: "pending a l (get_arr h c)" "find a (get_arr h c) = None"
      "a_postinsert ops a req l (get_arr h c) = Inr s3"
  shows "nodes_ok (set_arr c s3 h)" and "find a s3 = Some l" and "ready s3"
    and "st (set_arr c s3 h) x b = st h x b"
proof -
  let ?s = "get_arr h c" and ?h = "set_arr c s3 h"
  from postinsert [OF s(1) a s(2), of req] s(3) have p: "ready s3" "find a s3 = Some l" "tag s3 = (tag ?s)(l := a)"
    "\<And>b i. addr_ok b \<Longrightarrow> b \<noteq> a \<Longrightarrow> find b ?s = Some i \<Longrightarrow> i \<noteq> l \<Longrightarrow> find b s3 = Some i"
    "\<And>b. addr_ok b \<Longrightarrow> b \<noteq> a \<Longrightarrow> find b ?s = None \<Longrightarrow> find b s3 = None" by auto
  show "find a s3 = Some l" "ready s3" by (rule p)+
  note node = nodes_okD(1) [OF ok c] and wf = nodes_okD(2) [OF ok c]
  have wf3: "arr_wf s3" using p(1) by (simp add: arr_wf_def)
  have valid: "find b ?s = Some j \<and> j \<noteq> l \<and> addr_ok b \<and> b \<noteq> a"
    if "find b s3 = Some j" "get_state h (c, j) \<noteq> I" for b j
  proof -
    have j: "j \<noteq> l" using that(2) I by auto
    then have "tag ?s j = b" using wf_tag [OF wf3 that(1)] p(3) by simp
    then show ?thesis using node_lines [OF node that(2)] j s(2) by auto
  qed
  have stc: "st ?h c b = st h c b" for b
  proof (cases "find b s3")
    case None
    have "get_state h (c, k) = I" if k: "find b ?s = Some k" for k
    proof (rule ccontr)
      assume v: "get_state h (c, k) \<noteq> I"
      then have "tag ?s k = b" "addr_ok b" "k \<noteq> l" using wf_tag [OF wf k] node_lines [OF node v] I by auto
      moreover have "b \<noteq> a" using k s(2) by auto
      ultimately show False using p(4) k None by fastforce
    qed
    then show ?thesis using None by (auto simp: line_state_def hier_simps split: option.split)
  next
    case (Some j)
    show ?thesis
    proof (cases "get_state h (c, j) = I")
      case False
      then show ?thesis using valid [OF Some] Some by (simp add: line_state_def hier_simps)
    next
      case True
      have "get_state h (c, k) = I" if k: "find b ?s = Some k" for k
      proof (rule ccontr)
        assume v: "get_state h (c, k) \<noteq> I"
        then have "addr_ok b" "k \<noteq> l" "b \<noteq> a" using wf_tag [OF wf k] node_lines [OF node v] I k s(2) by auto
        then show False using p(4) k Some True v by fastforce
      qed
      then show ?thesis using Some True by (auto simp: line_state_def hier_simps split: option.split)
    qed
  qed
  have sts: "st ?h x b = st h x b" for x b
  proof (cases "x = c")
    case False
    then show ?thesis by (intro st_caches) (simp add: hier_simps)
  qed (simp add: stc)
  show "st ?h x b = st h x b" by (rule sts)
  have "lines_ok find tag addr_ok ?h c"
    unfolding lines_ok_def
  proof (intro allI impI)
    fix k assume "get_state ?h (c, k) \<noteq> I"
    then have v: "get_state h (c, k) \<noteq> I" by (simp add: hier_simps)
    then have k: "k \<noteq> l" using I by auto
    have f: "find (tag ?s k) ?s = Some k" "addr_ok (tag ?s k)" using node_lines [OF node v] by auto
    then have "tag ?s k \<noteq> a" using s(2) by auto
    then show "find (tag (get_arr ?h c) k) (get_arr ?h c) = Some k \<and> addr_ok (tag (get_arr ?h c) k)"
      using p(3,4) f k by (simp add: hier_simps)
  qed
  moreover have "ent ?h c k" for k
  proof (cases "k = l")
    case False
    note sh = node_sharers [OF node, of k]
    show ?thesis
      by (rule entI) (use sh False p(3) in \<open>auto simp: hier_simps sts sharers_ok_def\<close>)
  next
    case True
    note sh = node_sharers [OF node, of l]
    have none: "\<forall>i. \<not> sharers (get_entry h c l) i" using sh(1) I by simp
    have z: "e_numSharers (get_entry h c l) = 0" by (rule none_num [OF sh(2) none])
    show ?thesis unfolding True
      by (rule entI) (use none z I sh(2) in \<open>auto simp: hier_simps sharers_ok_def entry_isExclusive_def\<close>)
  qed
  moreover have "incl_ok find cfg ?h c"
    using node by (simp add: node_ok_def incl_ok_def sts)
  ultimately have nc: "node ?h c" by (simp add: node_ok_def)
  have "node ?h x" if "x \<in> Cs" "x \<noteq> c" for x
  proof -
    have "node ?h x = node h x"
      by (rule node_cong) (use that sts in \<open>auto simp: same_view_def same_arr_def hier_simps\<close>)
    then show ?thesis using nodes_okD(1) [OF ok that(1)] by simp
  qed
  then show "nodes_ok ?h" using nc ok wf3 by (auto simp: nodes_ok_def hier_simps)
qed

lemma insert_ok:
  fixes h :: "('a, 'm) hier" and req :: mem_req
  assumes busy: "busy h c" and c: "c \<in> Cs" and r: "ready (get_arr h c)" and a: "addr_ok (lineAddr req)"
    and miss: "find (lineAddr req) (get_arr h c) = None"
    and inval: "\<And>i. i < length (kids c) \<Longrightarrow> inval_contract invl (kids c ! i)"
    and put: "put_contract acc c" and time: "unat cyc + kids_lat c + 3 * 2 ^ 32 \<le> 2 ^ 64"
  shows "\<exists>l h'. cache_insert acc invl ops (cfg c) c req cyc h = Inr (l, h') \<and> placed h h' c (lineAddr req)
    \<and> find (lineAddr req) (get_arr h' c) = Some l"
proof -
  let ?a = "lineAddr req"
  from preinsert [OF r a miss, of "cc_view_of (cfg c) c h" req] obtain l s1 where
    pre: "a_preinsert ops (cc_view_of (cfg c) c h) ?a req (get_arr h c) = Inr (l, tag (get_arr h c) l, s1)"
      "pending ?a l s1" "tag s1 = tag (get_arr h c)" "\<forall>b. find b s1 = find b (get_arr h c)" by blast
  define h1 where "h1 = set_arr c s1 h"
  have wf1: "arr_wf s1" using pre(2) by (auto simp: arr_wf_def)
  have arr1: "get_arr h1 c = s1" by (simp add: h1_def hier_simps)
  have h1: "busy h1 c" "st h1 x b = st h x b" for x b
    unfolding h1_def using set_arr_step [OF busy c pre(4,3) wf1] by auto
  from evict_ok [OF h1(1) c inval put time, of req l] pre(3) obtain resp h2 where
    h2: "cc_processEviction acc invl (cfg c) c req (tag (get_arr h c) l) l cyc h1 = Inr (resp, h2)" "busy h2 c"
      "kept c h1 h2" "get_state h2 (c, l) = I"
      "\<forall>x \<in> Cs. \<forall>b. b \<noteq> tag (get_arr h c) l \<or> get_state h1 (c, l) = I \<longrightarrow> st h2 x b = st h1 x b"
    unfolding arr1 by auto
  have arr2: "arr_le s1 (get_arr h2 c)" using h2(3) c arr1 by (auto simp: kept_def)
  have pend2: "pending ?a l (get_arr h2 c)" "find ?a (get_arr h2 c) = None"
    using arr2 pre(2,4) miss by (auto simp: arr_le_def)
  from postinsert [OF pend2(1) a pend2(2), of req] obtain s3 where
    s3: "a_postinsert ops ?a req l (get_arr h2 c) = Inr s3" by blast
  define h3 where "h3 = set_arr c s3 h2"
  note post = postinsert_nodes [OF busyD(1) [OF h2(2)] c a h2(4) pend2 s3, folded h3_def]
  have busy3: "busy h3 c"
    using h2(2) post(1,3) by (auto simp: busy_def h3_def hier_simps)
  have "st h3 x ?a = st h x ?a" if x: "x \<in> Cs" for x
  proof (cases "tag (get_arr h c) l = ?a \<and> get_state h1 (c, l) \<noteq> I")
    case True
    then have "find ?a (get_arr h c) = Some l"
      using node_lines [OF nodes_okD(1) [OF busyD(1) [OF busy] c], of l] by (simp add: h1_def hier_simps)
    then show ?thesis using miss by simp
  next
    case False
    then have "st h2 x ?a = st h1 x ?a" using h2(5) x by metis
    then show ?thesis by (simp add: post(4) h1(2))
  qed
  moreover have "held h3 = held h" using h2(3) by (simp add: h3_def h1_def kept_def hier_simps)
  moreover have "arr_le (get_arr h x) (get_arr h3 x)" if "x \<in> Cs" "x \<noteq> c" "lev x \<le> lev c" for x
    using h2(3) that by (auto simp: kept_def h1_def h3_def hier_simps)
  moreover have "ready (get_arr h3 c)" "find ?a (get_arr h3 c) = Some l"
    using post(2,3) by (simp_all add: h3_def hier_simps)
  ultimately have "placed h h3 c ?a" using busy3 by (simp add: placed_def)
  moreover have "cache_insert acc invl ops (cfg c) c req cyc h = Inr (l, h3)"
    using pre(1) h2(1) s3 by (simp add: cache_insert_def h1_def h3_def)
  ultimately show ?thesis using \<open>find ?a (get_arr h3 c) = Some l\<close> by blast
qed

lemma find_ok:
  fixes h :: "('a, 'm) hier" and req :: mem_req
  assumes busy: "busy h c" and c: "c \<in> Cs" and r: "ready (get_arr h c)" and a: "addr_ok (lineAddr req)"
    and t: "IsGet (r_type req) \<or> st h c (lineAddr req) \<noteq> I"
    and inval: "\<And>i. i < length (kids c) \<Longrightarrow> inval_contract invl (kids c ! i)"
    and put: "put_contract acc c" and time: "IsGet (r_type req) \<Longrightarrow> unat cyc + kids_lat c + 3 * 2 ^ 32 \<le> 2 ^ 64"
  shows "\<exists>l h'. cache_find acc invl ops (cfg c) c req cyc h = Inr (Some l, h') \<and> placed h h' c (lineAddr req)
    \<and> find (lineAddr req) (get_arr h' c) = Some l
    \<and> (\<not> IsGet (r_type req) \<longrightarrow> (\<exists>s1. h' = set_arr c s1 h \<and> arr_le (get_arr h c) s1))"
proof -
  let ?a = "lineAddr req"
  from lookup_ready [OF r a, of "Some req" "IsGet (r_type req)"] obtain s1 where
    s1: "a_lookup ops ?a (Some req) (IsGet (r_type req)) (get_arr h c) = Inr (find ?a (get_arr h c), s1)"
      "ready s1" "tag s1 = tag (get_arr h c)" "\<forall>b. find b s1 = find b (get_arr h c)" "nlines s1 = nlines (get_arr h c)" by auto
  define h1 where "h1 = set_arr c s1 h"
  have wf1: "arr_wf s1" using s1(2) by (auto simp: arr_wf_def)
  have h1: "busy h1 c" "st h1 x b = st h x b" for x b
    unfolding h1_def using set_arr_step [OF busy c s1(4,3) wf1] by auto
  have placed1: "placed h h1 c ?a"
    using h1 s1(2) by (auto simp: placed_def h1_def hier_simps)
  show ?thesis
  proof (cases "find ?a (get_arr h c)")
    case (Some l)
    have "arr_le (get_arr h c) s1 \<or> IsGet (r_type req)"
    proof -
      have "\<not> pending k j (get_arr h c) \<or> pending k j s1" for k j
        using lookup_pending [OF _ a, of k j "get_arr h c" "Some req" "IsGet (r_type req)"] s1(1) by auto
      then show ?thesis using s1 by (auto simp: arr_le_def)
    qed
    then show ?thesis using Some s1(1,4) placed1
      by (auto simp: cache_find_def h1_def hier_simps)
  next
    case None
    then have get: "IsGet (r_type req)" using t by (auto simp: line_state_def)
    have "find ?a (get_arr h1 c) = None" "ready (get_arr h1 c)" using None s1 by (simp_all add: h1_def hier_simps)
    from insert_ok [OF h1(1) c this(2) a this(1) inval put time [OF get]] obtain l h2 where
      h2: "cache_insert acc invl ops (cfg c) c req cyc h1 = Inr (l, h2)" "placed h1 h2 c ?a" "find ?a (get_arr h2 c) = Some l"
      by blast
    have "placed h h2 c ?a" using h2(2) h1(2) by (auto simp: placed_def h1_def hier_simps)
    moreover have "cc_shouldAllocate (cfg c) req = Inr True"
      using get by (simp add: cc_shouldAllocate_def mesi_shouldAllocate_def)
    ultimately show ?thesis using None s1(1) h2(1,3) get by (simp add: cache_find_def h1_def)
  qed
qed

subsection \<open>A parent serves its child\<close>

text \<open>The locks during the access of a parent: hand over hand.\<close>

definition handed :: "nat \<Rightarrow> nat \<Rightarrow> (lock_id \<Rightarrow> bool) \<Rightarrow> lock_id \<Rightarrow> bool" where
  "handed c p H = H(BccLock c := False, TccLock p := True, BccLock p := True)"

lemma hier_held: "busy h p \<longleftrightarrow> nodes_ok h \<and> mem_ok (mems h) \<and> (\<forall>x \<in> Cs. held h (BccLock x) \<longleftrightarrow> x = p)
     \<and> (\<forall>x \<in> Cs. lev p < lev x \<longrightarrow> \<not> held h (TccLock x) \<and> ready (get_arr h x))"
  by (simp add: busy_def)

lemma held_st [simp]:
  fixes h :: "('a, 'm) hier"
  shows "st (h\<lparr>held := H\<rparr>) x b = st h x b"
  by (simp add: line_state_def hier_simps split: option.split)

lemma held_nodes [simp]:
  fixes h :: "('a, 'm) hier"
  shows "nodes_ok (h\<lparr>held := H\<rparr>) = nodes_ok h"
proof -
  have "node (h\<lparr>held := H\<rparr>) x = node h x" for x by (rule node_caches) simp_all
  then show ?thesis by (simp add: nodes_ok_def hier_simps)
qed

lemma kid_not_terminal: "p \<in> Cs \<Longrightarrow> k < length (kids p) \<Longrightarrow> \<not> terminal (cfg p)"
  using tree_cache(2) by fastforce

lemma start_ok:
  fixes h :: "('a, 'm) hier" and req :: mem_req
  assumes busy: "busy h c" and p: "p \<in> Cs" and k: "k < length (kids p)" and c: "c = kids p ! k"
    and req: "bcc_req h c lc req"
  defines "h1 \<equiv> h\<lparr>held := handed c p (held h)\<rparr>"
  shows "cc_startAccess (cfg p) p req h = Inr (False, req, h1)" and "busy h1 p"
proof -
  have cp: "c \<in> Cs" "lev c < lev p" "c \<noteq> p" using tree_child(1,2) [OF p k] c by auto
  have free: "\<not> held h (TccLock p)" "\<not> held h (BccLock p)"
    using busyD(3,4) [OF busy p] cp(2,3) by auto
  have "childLock req = Some (BccLock c)" "get_state h (state_ptr req) = initialState req"
    using req by (auto simp: bcc_req_def)
  then show "cc_startAccess (cfg p) p req h = Inr (False, req, h1)"
    using free kid_not_terminal [OF p k] cp(3)
    by (simp add: cc_startAccess_def mesi_startAccess_def release_child_def lock_release_def lock_acquire_def
        CheckForMESIRace_def hier_simps h1_def handed_def)
  show "busy h1 p"
    using busy p cp by (auto simp: busy_def h1_def handed_def hier_simps)
qed

lemma end_ok:
  fixes h h5 :: "('a, 'm) hier" and req :: mem_req
  assumes busy: "busy h c" and p: "p \<in> Cs" and k: "k < length (kids p)" and c: "c = kids p ! k"
    and req: "bcc_req h c lc req" and held: "held h5 = handed c p (held h)"
  shows "cc_endAccess (cfg p) p req h5 = Inr (h5\<lparr>held := held h\<rparr>)"
proof -
  have cp: "c \<in> Cs" "lev c < lev p" "c \<noteq> p" using tree_child(1,2) [OF p k] c by auto
  have H: "\<not> held h (TccLock p)" "\<not> held h (BccLock p)" "held h (BccLock c)"
    using busyD(3,4) [OF busy p] busyD(3) [OF busy cp(1)] cp(2,3) by auto
  have "(handed c p (held h))(BccLock c := True, BccLock p := False, TccLock p := False) = held h"
    using H cp(3) by (auto simp: handed_def fun_eq_iff)
  then show ?thesis using req kid_not_terminal [OF p k] cp(3)
    by (simp add: cc_endAccess_def mesi_endAccess_def acquire_child_def lock_acquire_def lock_release_def
        bcc_req_def held) (simp add: handed_def)
qed

lemma parent_cache:
  assumes "p \<in> Cs" and "k < length (kids p)"
  shows "parent_of (kids p ! k) a = CacheObj p"
  using tree_child(3) [OF assms] by (simp add: parent_of_def getParentId_def)

text \<open>The state given back to the child.\<close>

lemma back_ok:
  fixes h h3 h5 :: "('a, 'm) hier"
  assumes busy: "busy h c" and p: "p \<in> Cs" and k: "k < length (kids p)" and c: "c = kids p ! k"
    and up: "busy h3 p" and r3: "ready (get_arr h3 p)" and h5: "nodes_ok h5" "mems h5 = mems h3"
    and arr3: "\<And>x. x \<in> Cs \<Longrightarrow> x \<noteq> p \<Longrightarrow> lev x \<le> lev p \<Longrightarrow> arr_le (get_arr h x) (get_arr h3 x)"
    and arr5: "\<And>x. arr_le (get_arr h3 x) (get_arr h5 x)"
  shows "busy (h5\<lparr>held := held h\<rparr>) c" and "kept c h (h5\<lparr>held := held h\<rparr>)"
proof -
  have cp: "lev c < lev p" using tree_child(2) [OF p k] c by auto
  have "ready (get_arr h5 x)" if x: "x \<in> Cs" "lev c < lev x" for x
  proof -
    have "ready (get_arr h3 x)"
    proof (cases "x = p \<or> lev p < lev x")
      case True
      then show ?thesis using r3 busyD(5) [OF up x(1)] by auto
    next
      case False
      then show ?thesis using arr3 [OF x(1)] busyD(5) [OF busy x] by (auto simp: arr_le_def)
    qed
    then show ?thesis using arr5 [of x] by (simp add: arr_le_def)
  qed
  then show "busy (h5\<lparr>held := held h\<rparr>) c"
    using busy h5 busyD(2) [OF up] by (auto simp: busy_def hier_simps)
  have "arr_le (get_arr h x) (get_arr h5 x)" if "x \<in> Cs" "lev x \<le> lev c" for x
    by (rule arr_le_trans [OF arr3 arr5]) (use that cp in auto)
  then show "kept c h (h5\<lparr>held := held h\<rparr>)" by (simp add: kept_def hier_simps)
qed

lemma flag_in_clear_other: "\<not> flag_in fl f \<Longrightarrow> \<not> flag_in (clear_flag fl g) f"
  by (simp add: flag_in_clear)

lemma get_time_up:
  assumes "get_time c cyc" and "c \<in> Cs" and "p \<in> Cs" and "lev c < lev p"
  shows "unat (cyc + ucast (r :: u32)) = unat cyc + unat r" and "get_time p (cyc + ucast r)"
    and "unat (cyc + ucast r) + kids_lat p + 3 * 2 ^ 32 \<le> 2 ^ 64"
proof -
  have lev: "lev p \<le> lev llc" "lev c < lev llc" using tree_cache(5) [OF assms(3)] assms(4) by auto
  have t: "unat cyc + (5 * lev llc + 8 - lev c) * 2 ^ 32 \<le> 2 ^ 64" using assms(1) by (simp add: get_time_def)
  have "1 * 2 ^ 32 \<le> (5 * lev llc + 8 - lev c) * 2 ^ 32" using lev by (intro mult_le_mono1) simp
  then have "unat cyc + 2 ^ 32 \<le> 2 ^ 64" using t by linarith
  then show eq: "unat (cyc + ucast r) = unat cyc + unat r" by (rule add_no_wrap)
  have r: "unat r \<le> 2 ^ 32" using unat_less_exp [of r] by simp
  have "((5 * lev llc + 8 - lev p) + 1) * 2 ^ 32 \<le> (5 * lev llc + 8 - lev c) * 2 ^ 32"
    using lev assms(4) by (intro mult_le_mono1) simp
  then show up: "get_time p (cyc + ucast r)" unfolding get_time_def eq using t r by simp
  have "(2 * lev p + 3) * 2 ^ 32 \<le> (5 * lev llc + 8 - lev p) * 2 ^ 32" using lev by (intro mult_le_mono1) simp
  then show "unat (cyc + ucast r) + kids_lat p + 3 * 2 ^ 32 \<le> 2 ^ 64"
    using up unfolding get_time_def kids_lat_def by (simp add: algebra_simps)
qed

lemma cache_get:
  assumes p: "p \<in> Cs" and k: "k < length (kids p)" and c: "c = kids p ! k"
    and acc': "\<And>req h. acc' (CacheObj p) req h = cache_access acc invl ops (cfg p) p req h"
    and inval: "\<And>i. i < length (kids p) \<Longrightarrow> inval_contract invl (kids p ! i)"
    and get: "get_contract acc p" and put: "put_contract acc p"
  shows "get_contract acc' c"
  unfolding get_contract_def
proof (intro allI impI)
  fix h :: "('a, 'm) hier" and req :: mem_req and lc
  let ?a = "lineAddr req" and ?t = "r_type req"
  assume busy: "busy h c" and req: "bcc_req h c lc req" and ok: "get_ok h c lc ?t" and time: "get_time c (cycle req)"
  have cp: "c \<in> Cs" "lev c < lev p" "c \<noteq> p" "selfId (cfg c) = k" using tree_child(1,2,4) [OF p k] c by auto
  have R: "childId req = k" "state_ptr req = (c, lc)" "addr_ok ?a" "find ?a (get_arr h c) = Some lc"
    "\<not> flag_in (flags req) PREFETCH" "\<not> flag_in (flags req) PUTX_KEEPEXCL"
    using req cp(4) by (auto simp: bcc_req_def)
  have tget: "IsGet ?t" using ok by (auto simp: get_ok_def IsGet_def)
  define h1 where "h1 = h\<lparr>held := handed c p (held h)\<rparr>"
  note start = start_ok [OF busy p k c req, folded h1_def]
  define cyc where "cyc = cycle req + ucast (accLat (cfg p))"
  note tm = get_time_up [OF time cp(1) p cp(2), of "accLat (cfg p)", folded cyc_def]
  have r1: "ready (get_arr h1 p)" using busyD(5) [OF busy p cp(2)] by (simp add: h1_def hier_simps)
  from find_ok [OF start(2) p r1 R(3) _ inval put tm(3)] tget obtain l h2 where
    h2: "cache_find acc invl ops (cfg p) p req cyc h1 = Inr (Some l, h2)" "placed h1 h2 p ?a"
      "find ?a (get_arr h2 p) = Some l" by blast
  have P: "busy h2 p" "ready (get_arr h2 p)" "held h2 = held h1"
    "x \<in> Cs \<Longrightarrow> x \<noteq> p \<Longrightarrow> lev x \<le> lev p \<Longrightarrow> arr_le (get_arr h x) (get_arr h2 x)" "x \<in> Cs \<Longrightarrow> st h2 x ?a = st h x ?a" for x
    using h2(2) by (auto simp: placed_def h1_def hier_simps)
  define fl where "fl = clear_flag (flags req) PREFETCH"
  have fl: "\<not> flag_in fl PREFETCH" "\<not> flag_in fl PUTX_KEEPEXCL" using R(5,6) by (simp_all add: fl_def flag_in_clear)
  from bcc_get_ok [OF P(1) p h2(3) R(3) tget get tm(2) fl, of "srcId req" "pc req"] obtain resp3 h3 where
    h3: "bcc_processAccess acc (cfg p) p ?a l ?t cyc (srcId req) fl (pc req) h2 = Inr (resp3, h3)" "cyc \<le> resp3"
      "busy h3 p" "kept p h2 h3" "get_state h3 (p, l) \<noteq> I" "?t = GETX \<longrightarrow> get_state h3 (p, l) = M"
      "\<forall>x. sub p x \<longrightarrow> x \<noteq> p \<longrightarrow> st h3 x ?a = st h2 x ?a" by blast
  have arr3: "arr_le (get_arr h x) (get_arr h3 x)" if "x \<in> Cs" "x \<noteq> p" "lev x \<le> lev p" for x
    using P(4) [OF that] h3(4) that arr_le_trans by (fastforce simp: kept_def)
  have arrp: "arr_le (get_arr h2 p) (get_arr h3 p)" using h3(4) p by (simp add: kept_def)
  have lc3: "find ?a (get_arr h3 c) = Some lc" "find ?a (get_arr h3 p) = Some l"
    using arr3 [OF cp(1,3)] cp(2) R(4) arrp h2(3) by (auto simp: arr_le_def)
  have subp: "sub p x" "x \<noteq> p" "x \<in> Cs" if "sub c x" for x
    using sub_child [OF nth_mem [OF k]] not_above [OF nth_mem [OF k] p] desc_lev [OF that cp(1)] that c by auto
  have st3: "st h3 x ?a = st h x ?a" if "sub c x" for x
    using h3(7) P(5) subp [OF that] by simp
  have s3: "get_state h3 (c, lc) = get_state h (c, lc)"
    using st3 [OF desc_refl] R(4) lc3(1) by (simp add: line_state_def)
  have serving: "serving h3 p k l lc ?a"
    using h3(3,5) lc3 R(3) p k by (auto simp: serving_def busy_def c)
  obtain resp4 wb h4 where h4:
    "tcc_processAccess invl (cfg p) p ?a l ?t k (bcc_isExclusive p l h3) (c, lc) False resp3
      (srcId req) fl h3 = Inr (resp4, wb, h4)" "resp3 \<le> resp4" "served h3 h4 p c ?a"
      "granted ?t (get_state h4 (c, lc))" "wb \<longrightarrow> writable (get_state h3 (p, l))"
  proof (cases "?t = GETS")
    case True
    then have "get_state h3 (c, lc) = I" using ok s3 by (simp add: get_ok_def)
    from tcc_gets_ok [OF serving c this inval, of resp3 "srcId req" fl] True show thesis by (auto intro: that)
  next
    case False
    then have X: "?t = GETX" using tget by (simp add: IsGet_def)
    then have "get_state h3 (c, lc) = I \<or> get_state h3 (c, lc) = S" using ok s3 by (simp add: get_ok_def)
    moreover have "writable (get_state h3 (p, l))" using h3(6) X by (simp add: writable_def)
    ultimately show thesis
      using tcc_getx_ok [OF serving c _ _ inval, of resp3 "srcId req" fl] X that by fastforce
  qed
  define h5 where "h5 = (if wb \<and> get_state h4 (p, l) = E then set_state (p, l) M h4 else h4)"
  have sv: "nodes_ok h4" "held h4 = held h3" "mems h4 = mems h3" "arr_le (get_arr h3 x) (get_arr h4 x)"
    "get_arr h4 p = get_arr h3 p" "get_state h4 (p, l) = get_state h3 (p, l)"
    "sub c x \<Longrightarrow> x \<noteq> c \<Longrightarrow> st h4 x ?a = st h3 x ?a" for x
    using h4(3) by (auto simp: served_def)
  have "same_rights h4 h5" by (auto simp: same_rights_def h5_def hier_simps writable_def)
  then have n5: "nodes_ok h5" by (rule same_rights_nodes) (rule sv(1))
  have e5: "held h5 = held h4" "mems h5 = mems h4" "get_arr h5 x = get_arr h4 x" "x \<noteq> p \<Longrightarrow> caches h5 x = caches h4 x" for x
    by (auto simp: h5_def hier_simps)
  have held5: "held h5 = handed c p (held h)"
    using e5(1) sv(2) h3(4) P(3) by (simp add: kept_def h1_def)
  define h6 where "h6 = h5\<lparr>held := held h\<rparr>"
  have r3: "ready (get_arr h3 p)" using arrp P(2) by (simp add: arr_le_def)
  have m5: "mems h5 = mems h3" by (simp add: e5(2) sv(3))
  have a5: "arr_le (get_arr h3 x) (get_arr h5 x)" for x by (simp add: e5(3) sv(4))
  note bk = back_ok [OF busy p k c h3(3) r3 n5 m5 arr3 a5, folded h6_def]
  have run: "acc' (parent_of c ?a) req h = Inr (resp4, h6)"
  proof -
    have wbrun: "(if wb then rbind (bcc_processWritebackOnAccess p l h4) (\<lambda>h3. Inr (resp4, h3)) else Inr (resp4, h4)) = Inr (resp4, h5)"
      using h4(5) sv(6) by (auto simp: bcc_processWritebackOnAccess_def Let_def h5_def writable_def)
    have "mesi_processAccess acc invl (cfg p) p req (Some l) cyc h2 = Inr (resp4, h5)"
      using tget R(1,2,5) h3(1) h4(1) wbrun
      by (simp add: mesi_processAccess_def IsPut_not_IsGet Let_def fl_def [symmetric])
    moreover have "cycle req \<le> resp4"
      using h3(2) h4(2) tm(1) by (simp add: word_le_nat_alt)
    ultimately show ?thesis
      using start(1) h2(1) end_ok [OF busy p k c req held5] kid_not_terminal [OF p k]
      by (simp add: acc' parent_cache [OF p k, folded c] cache_access_def Let_def cyc_def cc_processAccess_def h6_def)
  qed
  have "st h6 x ?a = st h x ?a" if "sub c x" "x \<noteq> c" for x
    using st_caches [OF e5(4)] sv(7) st3 subp that by (simp add: h6_def)
  moreover have "granted ?t (get_state h6 (c, lc))"
    using h4(4) cp(3) by (auto simp: h6_def h5_def hier_simps)
  ultimately show "\<exists>resp h'. acc' (parent_of c ?a) req h = Inr (resp, h') \<and> busy h' c \<and> kept c h h'
      \<and> granted ?t (get_state h' (c, lc)) \<and> (\<forall>x. sub c x \<longrightarrow> x \<noteq> c \<longrightarrow> st h' x ?a = st h x ?a)"
    using run bk by blast
qed

lemma cache_put:
  assumes p: "p \<in> Cs" and k: "k < length (kids p)" and c: "c = kids p ! k"
    and acc': "\<And>req h. acc' (CacheObj p) req h = cache_access acc invl ops (cfg p) p req h"
    and inval: "\<And>i. i < length (kids p) \<Longrightarrow> inval_contract invl (kids p ! i)"
    and put: "put_contract acc p"
  shows "put_contract acc' c"
  unfolding put_contract_def
proof (intro allI impI)
  fix h :: "('a, 'm) hier" and req :: mem_req and lc
  let ?a = "lineAddr req" and ?t = "r_type req"
  assume busy: "busy h c" and req: "bcc_req h c lc req" and ok: "put_ok h c lc ?t" and time: "put_time (cycle req)"
  have cp: "c \<in> Cs" "lev c < lev p" "c \<noteq> p" "selfId (cfg c) = k" using tree_child(1,2,4) [OF p k] c by auto
  have R: "childId req = k" "state_ptr req = (c, lc)" "addr_ok ?a" "find ?a (get_arr h c) = Some lc"
    "\<not> flag_in (flags req) PREFETCH" "\<not> flag_in (flags req) PUTX_KEEPEXCL"
    using req cp(4) by (auto simp: bcc_req_def)
  have tput: "\<not> IsGet ?t" using ok by (auto simp: put_ok_def IsGet_def)
  have stc: "st h c ?a = get_state h (c, lc)" by (rule st_found [OF R(4)])
  have node: "node h p" and wf: "arr_wf (get_arr h p)" using busyD(1) [OF busy] p by (auto simp: nodes_ok_def)
  have vp: "st h p ?a \<noteq> I"
    by (rule node_incl [OF node nth_mem [OF k]]) (use ok stc c in \<open>auto simp: put_ok_def\<close>)
  define h1 where "h1 = h\<lparr>held := handed c p (held h)\<rparr>"
  note start = start_ok [OF busy p k c req, folded h1_def]
  define cyc where "cyc = cycle req + ucast (accLat (cfg p))"
  have tm: "cycle req \<le> cyc"
    using time add_no_wrap [of "cycle req" "accLat (cfg p)"] by (simp add: put_time_def cyc_def word_le_nat_alt)
  have r1: "ready (get_arr h1 p)" using busyD(5) [OF busy p cp(2)] by (simp add: h1_def hier_simps)
  have v1: "st h1 p ?a \<noteq> I" using vp by (simp add: h1_def)
  from find_ok [OF start(2) p r1 R(3) _ inval put, of cyc] tput v1 obtain l h2 s1 where
    h2: "cache_find acc invl ops (cfg p) p req cyc h1 = Inr (Some l, h2)" "placed h1 h2 p ?a"
      "find ?a (get_arr h2 p) = Some l" "h2 = set_arr p s1 h1" "arr_le (get_arr h1 p) s1" by blast
  have P: "busy h2 p" "ready (get_arr h2 p)" "held h2 = held h1" "get_state h2 r = get_state h r" "get_entry h2 x j = get_entry h x j"
    "x \<noteq> p \<Longrightarrow> caches h2 x = caches h x" "arr_le (get_arr h x) (get_arr h2 x)" for x r j
    using h2(2,4,5) by (auto simp: placed_def h1_def hier_simps)
  have sts: "st h2 x b = st h x b" for x b
    by (rule st_cong [OF same_arr_le [OF P(7)]]) (simp add: P(4))
  have l: "find ?a (get_arr h p) = Some l" using P(7) [of p] h2(3) by (simp add: arr_le_def)
  have vl: "get_state h (p, l) \<noteq> I" using vp l by (simp add: line_state_def)
  have tag: "tag (get_arr h p) l = ?a" by (rule wf_tag [OF wf l])
  have wl: "writable (get_state h (p, l))" if "?t = PUTX"
  proof -
    note sh = node_sharers [OF node, of l, unfolded tag]
    have m: "st h c ?a = M" using ok stc that by (simp add: put_ok_def)
    have shk: "sharers (get_entry h p l) k" using sh(1) [of k] k vl m c by simp
    then have "exclusive (get_entry h p l)" using sh(2) m c by (auto simp: sharers_ok_def writable_def)
    then show ?thesis by (rule sh(3) [OF exclusive_sharer [OF sh(2) shk]])
  qed
  define fl where "fl = clear_flag (flags req) PREFETCH"
  have fl: "\<not> flag_in fl PUTX_KEEPEXCL" using R(6) by (simp add: fl_def flag_in_clear)
  have t: "?t = PUTS \<or> ?t = PUTX" using ok by (auto simp: put_ok_def)
  obtain h3 where h3: "bcc_processAccess acc (cfg p) p ?a l ?t cyc (srcId req) fl (pc req) h2 = Inr (cyc, h3)"
    "same_rights h2 h3" "held h3 = held h2" "mems h3 = mems h2" "\<And>x. x \<noteq> p \<Longrightarrow> caches h3 x = caches h2 x"
    "get_state h3 (p, l) \<noteq> I"
    "\<And>b. b \<noteq> ?a \<Longrightarrow> st h3 p b = st h2 p b"
  proof (cases "?t = PUTX \<and> get_state h2 (p, l) = E")
    case True
    let ?h3 = "upd_prof p (\<lambda>q :: bcc_prof. q\<lparr>profPUTX := profPUTX q + 1\<rparr>) (set_state (p, l) M h2)"
    have wf2: "arr_wf (get_arr h2 p)" using P(2) by (simp add: arr_wf_def)
    have "st (set_state (p, l) M h2) p b = st h2 p b" if "b \<noteq> ?a" for b
      using st_set_state [OF h2(3) wf2, of "set_state (p, l) M h2" M p b] that by (simp add: hier_simps)
    then show thesis using True
      by (intro that [of ?h3]) (auto simp: bcc_processAccess_def Let_def same_rights_def hier_simps writable_def)
  next
    case False
    show thesis
    proof (cases "?t = PUTX")
      case True
      with False wl P(4) have "get_state h2 (p, l) = M" by (auto simp: writable_def)
      then show thesis using True
        by (intro that [of "upd_prof p (\<lambda>q :: bcc_prof. q\<lparr>profPUTX := profPUTX q + 1\<rparr>) h2"])
          (auto simp: bcc_processAccess_def Let_def same_rights_def hier_simps)
    next
      case f: False
      then show thesis using t vl P(4)
        by (intro that [of "upd_prof p (\<lambda>q :: bcc_prof. q\<lparr>profPUTS := profPUTS q + 1\<rparr>) h2"])
          (auto simp: bcc_processAccess_def Let_def same_rights_def hier_simps)
    qed
  qed
  have busy3: "busy h3 p" using same_rights_step(1) [OF P(1) h3(2-4)] .
  have e3: "get_arr h3 x = get_arr h2 x" "get_entry h3 x j = get_entry h2 x j" for x j
    using h3(2) by (auto simp: same_rights_def)
  have arr3: "arr_le (get_arr h x) (get_arr h3 x)" for x using P(7) by (simp add: e3)
  have c3: "caches h3 c = caches h c" using h3(5) P(6) cp(3) by simp
  have serving: "serving h3 p k l lc ?a"
    using busy3 h3(6) R(3,4) p k arr3 [of c] l arr3 [of p] c by (auto simp: serving_def busy_def arr_le_def)
  have ok3: "put_ok h3 c lc ?t"
    using ok c3 by (simp add: put_ok_def get_state_def get_entry_def)
  from tcc_put_ok [OF serving c ok3 fl, of invl "bcc_isExclusive p l h3" cyc "srcId req"] obtain h4 where
    h4: "tcc_processAccess invl (cfg p) p ?a l ?t k (bcc_isExclusive p l h3) (c, lc) False cyc (srcId req) fl h3
        = Inr (cyc, False, h4)" "served h3 h4 p c ?a"
      "h4 = set_state (c, lc) I (set_entry p l (drop_sharer k (get_entry h3 p l)) h3)" by blast
  have sv: "nodes_ok h4" "held h4 = held h3" "mems h4 = mems h3" "arr_le (get_arr h3 x) (get_arr h4 x)" for x
    using h4(2) by (auto simp: served_def)
  have held4: "held h4 = handed c p (held h)" using sv(2) h3(3) P(3) by (simp add: h1_def)
  define h6 where "h6 = h4\<lparr>held := held h\<rparr>"
  have r3: "ready (get_arr h3 p)" using P(2) by (simp add: e3)
  note bk = back_ok [OF busy p k c busy3 r3 sv(1,3) arr3 sv(4), folded h6_def]
  have run: "acc' (parent_of c ?a) req h = Inr (cyc, h6)"
  proof -
    have "bcc_isValid p l h2" using vl P(4) by (simp add: bcc_isValid_def)
    then have "mesi_processAccess acc invl (cfg p) p req (Some l) cyc h2 = Inr (cyc, h4)"
      using tput R(1,2,5) h3(1) h4(1) by (simp add: mesi_processAccess_def Let_def fl_def [symmetric])
    then show ?thesis
      using start(1) h2(1) end_ok [OF busy p k c req held4] kid_not_terminal [OF p k] tm
      by (simp add: acc' parent_cache [OF p k, folded c] cache_access_def Let_def cyc_def cc_processAccess_def h6_def)
  qed
  have st4: "st h6 x b = (if x = c \<and> b = ?a then I else st h3 x b)" for x b
  proof -
    have lc3: "find ?a (get_arr h3 c) = Some lc" using arr3 [of c] R(4) by (simp add: arr_le_def)
    have "arr_wf (get_arr h3 c)" using busyD(1) [OF busy3] cp(1) by (simp add: nodes_ok_def)
    from st_set_state [OF lc3 this, of h4 I x b] show ?thesis by (simp add: h6_def h4(3) hier_simps)
  qed
  have "st h6 x b = st h x b" if "b \<noteq> ?a" for x b
  proof -
    have "st h3 x b = st h2 x b"
      using h3(7) [OF that] st_caches [OF h3(5), of x b] by (cases "x = p") auto
    then show ?thesis using st4 [of x b] sts that by simp
  qed
  moreover have "get_state h6 (c, lc) = I" by (simp add: h6_def h4(3) hier_simps)
  ultimately show "\<exists>resp h'. acc' (parent_of c ?a) req h = Inr (resp, h') \<and> busy h' c \<and> kept c h h' \<and> get_state h' (c, lc) = I
      \<and> (\<forall>x \<in> Cs. \<forall>b. b \<noteq> ?a \<longrightarrow> st h' x b = st h x b)"
    using run bk by blast
qed

text \<open>All caches, from the last level down: the fuel of the accesses is the distance to the memory.\<close>

theorem sys_access_contract:
  assumes "\<And>c. c \<in> Cs \<Longrightarrow> lev c < depth"
  shows "c \<in> Cs \<Longrightarrow> lev llc < lev c + n + 1 \<Longrightarrow> get_contract (sys_access ops mem_access cfg depth n) c
    \<and> put_contract (sys_access ops mem_access cfg depth n) c"
proof (induction n arbitrary: c)
  case (0 c)
  then have "c = llc"
    using tree unfolding tree_ok_def by (metis (no_types, lifting) add.right_neutral child_in in_set_conv_nth
        leD linorder_not_le nat_less_le not_less_eq Suc_eq_plus1)
  then show ?case using mem_get mem_put by simp
next
  case (Suc n c)
  show ?case
  proof (cases "c = llc")
    case True
    then show ?thesis using mem_get mem_put by simp
  next
    case False
    then obtain p where p: "p \<in> Cs" "selfId (cfg c) < length (kids p)" "c = kids p ! selfId (cfg c)"
      using tree Suc.prems(1) unfolding tree_ok_def by metis
    have lev: "lev c < lev p" using tree_child(2) [OF p(1,2)] p(3) by simp
    let ?invl = "sys_invalidate ops cfg depth :: ('a, 'm) inval_fun"
    have inval: "inval_contract ?invl (kids p ! i)" if "i < length (kids p)" for i
      using sys_invalidate_contract assms tree_child(1) [OF p(1) that] by blast
    have ih: "get_contract (sys_access ops mem_access cfg depth n) p" "put_contract (sys_access ops mem_access cfg depth n) p"
      using Suc.IH [OF p(1)] Suc.prems(2) lev by auto
    have step: "sys_access ops mem_access cfg depth (Suc n) (CacheObj p) req h
        = cache_access (sys_access ops mem_access cfg depth n) ?invl ops (cfg p) p req h" for req h by simp
    let ?acc = "sys_access ops mem_access cfg depth n :: ('a, 'm) access_fun"
    let ?acc' = "sys_access ops mem_access cfg depth (Suc n) :: ('a, 'm) access_fun"
    show ?thesis
      using cache_get [where acc = ?acc and acc' = ?acc' and invl = ?invl, OF p step inval ih]
        cache_put [where acc = ?acc and acc' = ?acc' and invl = ?invl, OF p step inval ih(2)] by blast
  qed
qed

end

end
