(* ===== verification/Coherence.thy ===== *)
theory Coherence
  imports HierAccess SetAssoc
begin

section \<open>Coherence of the hierarchy\<close>

text \<open>
  What the caches do for the cores. Requests of the cores run one after the other from the
  initial state, through the whole tree: every request is answered (no assertion stops it, no
  lock is waited for by its holder, the virtual calls end), the invariant is kept, and any two
  caches of different branches agree on every line: if one may write it, the other does not
  have it.
\<close>

subsection \<open>Requests of the cores\<close>

text \<open>
  The request that \<open>FilterCache::replace\<close> and the trace driver make: \<open>dummyState\<close> is a
  state of the caller, not of a cache; the lock is the caller's or none.
\<close>

definition core_request :: "address \<Rightarrow> access_type \<Rightarrow> state_ref \<Rightarrow> u64 \<Rightarrow> lock_id option \<Rightarrow> mesi \<Rightarrow> u32 \<Rightarrow> u32 \<Rightarrow> address \<Rightarrow> mem_req" where
  "core_request a t dummy cyc lock s src fl p =
     \<lparr>lineAddr = a, r_type = t, childId = 0, state_ptr = dummy, cycle = cyc, childLock = lock,
      initialState = s, srcId = src, flags = fl, pc = p\<rparr>"

text \<open>
  An access of a core that misses in its filter: \<open>replace\<close> takes the filter lock, makes the
  request and frees the lock. A program of the cores is a list of such accesses.
\<close>

record core_op =
  op_cache :: nat
  op_addr :: address
  op_load :: bool
  op_cycle :: u64
  op_src :: u32
  op_flags :: u32
  op_pc :: address

definition core_type :: "core_op \<Rightarrow> access_type" where
  "core_type p = (if op_load p then GETS else GETX)"

definition core_access :: "('a, 'm) access_fun \<Rightarrow> state_ref \<Rightarrow> core_op \<Rightarrow> ('a, 'm) hier \<Rightarrow> (u64 \<times> ('a, 'm) hier) res" where
  "core_access mo_access dummy p h =
     rbind (lock_acquire (FilterLock (op_cache p)) h) (\<lambda>h1.
     rbind (mo_access (CacheObj (op_cache p)) (core_request (op_addr p) (core_type p) dummy (op_cycle p)
              (Some (FilterLock (op_cache p))) (get_state h1 dummy) (op_src p) (op_flags p) (op_pc p)) h1)
       (\<lambda>(resp, h2). Inr (resp, lock_release (FilterLock (op_cache p)) h2)))"

fun core_run :: "('a, 'm) access_fun \<Rightarrow> state_ref \<Rightarrow> core_op list \<Rightarrow> ('a, 'm) hier \<Rightarrow> ('a, 'm) hier res" where
  "core_run mo_access dummy [] h = Inr h"
| "core_run mo_access dummy (p # ps) h = rbind (core_access mo_access dummy p h) (\<lambda>(_, h1). core_run mo_access dummy ps h1)"

text \<open>
  The state after the constructors: all lines invalid (MESIBottomCC), all directory entries
  clear (MESITopCC), all locks free.
\<close>

definition hier_init :: "'m \<Rightarrow> (nat \<Rightarrow> 'a) \<Rightarrow> ('a, 'm) hier" where
  "hier_init m arrs =
     \<lparr>caches = (\<lambda>c. \<lparr>b_array = (\<lambda>_. I), t_array = (\<lambda>_. entry_clear),
        prof = \<lparr>profGETSHit = 0, profGETSMiss = 0, profGETXHit = 0, profGETXMissIM = 0, profGETXMissSM = 0,
          profPUTS = 0, profPUTX = 0, profINV = 0, profINVX = 0, profFWD = 0,
          profGETNextLevelLat = 0, profGETNetLat = 0\<rparr>,
        arr = arrs c\<rparr>),
      mems = m, held = (\<lambda>_. False)\<rparr>"

text \<open>Accesses that a core can make: to its own cache, at cycles that leave room below \<open>2^64\<close>.\<close>

definition op_ok :: "(nat \<Rightarrow> cache_cfg) \<Rightarrow> nat \<Rightarrow> nat set \<Rightarrow> core_op \<Rightarrow> bool" where
  "op_ok cfg depth Cs p \<longleftrightarrow> op_cache p \<in> Cs \<and> terminal (cfg (op_cache p))
     \<and> \<not> flag_in (op_flags p) PREFETCH \<and> \<not> flag_in (op_flags p) PUTX_KEEPEXCL
     \<and> unat (op_cycle p) + (5 * depth + 9) * 2 ^ 32 \<le> 2 ^ 64"

text \<open>Coherence, for any two caches neither of which is below the other.\<close>

definition coherent :: "(address \<Rightarrow> 'a \<Rightarrow> nat option) \<Rightarrow> (nat \<Rightarrow> cache_cfg) \<Rightarrow> nat set \<Rightarrow> ('a, 'm) hier \<Rightarrow> bool" where
  "coherent fd cfg Cs h \<longleftrightarrow> (\<forall>x \<in> Cs. \<forall>y \<in> Cs. \<forall>a. \<not> desc cfg x y \<longrightarrow> \<not> desc cfg y x \<longrightarrow>
     line_state fd h x a = E \<or> line_state fd h x a = M \<longrightarrow> line_state fd h y a = I)"

context cache_tree
begin

definition idle :: "('a, 'm) hier \<Rightarrow> bool" where
  "idle h \<longleftrightarrow> nodes_ok h \<and> mem_ok (mems h)
     \<and> (\<forall>x \<in> Cs. ready (get_arr h x) \<and> \<not> held h (BccLock x) \<and> \<not> held h (TccLock x))"

definition core_ok :: "('a, 'm) hier \<Rightarrow> mem_req \<Rightarrow> bool" where
  "core_ok h req \<longleftrightarrow> IsGet (r_type req) \<and> addr_ok (lineAddr req) \<and> initialState req = get_state h (state_ptr req)
     \<and> \<not> flag_in (flags req) PREFETCH \<and> \<not> flag_in (flags req) PUTX_KEEPEXCL
     \<and> (\<forall>k. childLock req = Some k \<longrightarrow> held h k \<and> (\<exists>f. k = FilterLock f))
     \<and> unat (cycle req) + (5 * lev llc + 9) * 2 ^ 32 \<le> 2 ^ 64"

lemma core_access_ok:
  fixes h :: "('a, 'm) hier" and req :: mem_req
  assumes idle: "idle h" and c: "c \<in> Cs" and leaf: "terminal (cfg c)" and req: "core_ok h req"
    and depth: "\<And>x. x \<in> Cs \<Longrightarrow> lev x < depth" and n: "lev llc < lev c + n + 1"
  shows "\<exists>resp h'. sys_access ops mem_access cfg depth (Suc n) (CacheObj c) req h = Inr (resp, h') \<and> idle h'
    \<and> held h' = held h \<and> cycle req \<le> resp
    \<and> st h' c (lineAddr req) \<noteq> I \<and> (r_type req = GETX \<longrightarrow> st h' c (lineAddr req) = M)"
proof -
  let ?a = "lineAddr req" and ?t = "r_type req"
  let ?acc = "sys_access ops mem_access cfg depth n :: ('a, 'm) access_fun"
  let ?invl = "sys_invalidate ops cfg depth :: ('a, 'm) inval_fun"
  have R: "IsGet ?t" "addr_ok ?a" "initialState req = get_state h (state_ptr req)"
    "\<not> flag_in (flags req) PREFETCH" "\<not> flag_in (flags req) PUTX_KEEPEXCL"
    using req by (auto simp: core_ok_def)
  have inval: "inval_contract ?invl (kids c ! i)" if "i < length (kids c)" for i
    using sys_invalidate_contract depth tree_child(1) [OF c that] by blast
  have con: "get_contract ?acc c" "put_contract ?acc c" using sys_access_contract [OF depth c n] by auto
  define H where "H = (case childLock req of None \<Rightarrow> held h | Some k \<Rightarrow> (held h)(k := False))"
  define h1 where "h1 = h\<lparr>held := H(BccLock c := True)\<rparr>"
  have HB: "H (BccLock x) = held h (BccLock x)" "H (TccLock x) = held h (TccLock x)" for x
    using req by (auto simp: H_def core_ok_def split: option.split)
  have busy1: "busy h1 c"
    using idle HB by (auto simp: busy_def idle_def h1_def hier_simps)
  have r1: "ready (get_arr h1 c)" using idle c by (simp add: idle_def h1_def hier_simps)
  have start: "cc_startAccess (cfg c) c req h = Inr (False, req, h1)"
    using leaf R idle c HB
    by (auto simp: cc_startAccess_def term_startAccess_def release_child_def lock_release_def lock_acquire_def
        CheckForMESIRace_def hier_simps h1_def H_def idle_def split: option.split)
  define cyc where "cyc = cycle req + ucast (accLat (cfg c))"
  have t: "unat (cycle req) + (5 * lev llc + 9) * 2 ^ 32 \<le> 2 ^ 64" using req by (simp add: core_ok_def)
  have u: "unat (accLat (cfg c)) < 2 ^ 32" using unat_less_exp [of "accLat (cfg c)"] by simp
  have "1 * 2 ^ 32 \<le> (5 * lev llc + 9) * 2 ^ 32" by (intro mult_le_mono1) simp
  then have cyc: "unat cyc = unat (cycle req) + unat (accLat (cfg c))"
    unfolding cyc_def using t by (intro add_no_wrap) linarith
  have "(5 * lev llc + 8 - lev c + 1) * 2 ^ 32 \<le> (5 * lev llc + 9) * 2 ^ 32" by (intro mult_le_mono1) simp
  then have time: "get_time c cyc" unfolding get_time_def cyc using t u by simp
  have "(2 * lev c + 3 + 1) * 2 ^ 32 \<le> (5 * lev llc + 9) * 2 ^ 32"
    using tree_cache(5) [OF c] by (intro mult_le_mono1) simp
  then have tm: "unat cyc + kids_lat c + 3 * 2 ^ 32 \<le> 2 ^ 64" unfolding kids_lat_def cyc using t u by simp
  from find_ok [OF busy1 c r1 R(2) _ inval con(2) tm] R(1) obtain l h2 where
    h2: "cache_find ?acc ?invl ops (cfg c) c req cyc h1 = Inr (Some l, h2)" "placed h1 h2 c ?a"
      "find ?a (get_arr h2 c) = Some l" by blast
  have busy2: "busy h2 c" and r2: "ready (get_arr h2 c)" and held2: "held h2 = held h1"
    and arr2: "\<And>x. x \<in> Cs \<Longrightarrow> x \<noteq> c \<Longrightarrow> lev x \<le> lev c \<Longrightarrow> arr_le (get_arr h1 x) (get_arr h2 x)"
    using h2(2) by (auto simp: placed_def)
  from bcc_get_ok [OF busy2 c h2(3) R(2,1) con(1) time R(4,5), of "srcId req" "pc req"] obtain resp h3 where
    h3: "bcc_processAccess ?acc (cfg c) c ?a l ?t cyc (srcId req) (flags req) (pc req) h2 = Inr (resp, h3)"
      "cyc \<le> resp" "busy h3 c" "kept c h2 h3" "get_state h3 (c, l) \<noteq> I" "?t = GETX \<longrightarrow> get_state h3 (c, l) = M"
    by blast
  define h4 where "h4 = h3\<lparr>held := held h\<rparr>"
  have "held h3 = H(BccLock c := True)" using h3(4) held2 by (simp add: kept_def h1_def)
  moreover have "H(BccLock c := False) = H" using HB(1) idle c by (auto simp: fun_eq_iff idle_def)
  moreover have "(held h)(BccLock c := False) = held h" using idle c by (auto simp: fun_eq_iff idle_def)
  moreover have "H(k := True) = held h" if "childLock req = Some k" for k
    using req that by (auto simp: core_ok_def H_def fun_eq_iff)
  ultimately have fin: "cc_endAccess (cfg c) c req h3 = Inr h4"
    using leaf req by (cases "childLock req")
      (auto simp: cc_endAccess_def term_endAccess_def acquire_child_def lock_acquire_def lock_release_def h4_def
        H_def core_ok_def fun_upd_twist)
  have le: "cycle req \<le> resp" using h3(2) cyc by (simp add: word_le_nat_alt)
  have run: "sys_access ops mem_access cfg depth (Suc n) (CacheObj c) req h = Inr (resp, h4)"
    using start h2(1) h3(1) fin le leaf
    by (simp add: cache_access_def Let_def cyc_def cc_processAccess_def term_processAccess_def)
  have rdy: "ready (get_arr h4 x)" if x: "x \<in> Cs" for x
  proof -
    consider "x = c" | "x \<noteq> c" "lev x \<le> lev c" | "lev c < lev x" by linarith
    then have "ready (get_arr h3 x)"
    proof cases
      case 1
      then show ?thesis using r2 h3(4) x by (auto simp: kept_def arr_le_def)
    next
      case 2
      have "ready (get_arr h1 x)" using idle x by (simp add: idle_def h1_def hier_simps)
      then show ?thesis using arr2 [OF x 2] h3(4) x 2 by (auto simp: kept_def arr_le_def)
    next
      case 3
      then show ?thesis using busyD(5) [OF h3(3) x] by simp
    qed
    then show ?thesis by (simp add: h4_def hier_simps)
  qed
  have idle4: "idle h4"
    using h3(3) idle rdy by (auto simp: idle_def busy_def h4_def)
  have "find ?a (get_arr h4 c) = Some l" using h3(4) h2(3) c by (auto simp: kept_def arr_le_def h4_def hier_simps)
  then have "st h4 c ?a = get_state h3 (c, l)" by (simp add: line_state_def h4_def hier_simps)
  then show ?thesis using run idle4 le h3(5,6) by (auto simp: h4_def)
qed

subsection \<open>Two branches of the tree\<close>

lemma all_below_llc: "x \<in> Cs \<Longrightarrow> sub llc x"
proof (induction "lev llc - lev x" arbitrary: x rule: less_induct)
  case less
  show ?case
  proof (cases "x = llc")
    case False
    then obtain p where p: "p \<in> Cs" "selfId (cfg x) < length (kids p)" "x = kids p ! selfId (cfg x)"
      using tree less.prems unfolding tree_ok_def by metis
    have lev: "lev x < lev p" using tree_child(2) [OF p(1,2)] p(3) by simp
    then have "sub llc p" using less.hyps [OF _ p(1)] tree_cache(5) [OF p(1)] by simp
    then show ?thesis using p(2,3) by (metis desc_step nth_mem)
  qed (auto intro: desc_refl)
qed

lemma branch_point:
  assumes "d \<in> Cs" and "sub d x" and "sub d y" and "\<not> sub x y" and "\<not> sub y x"
  obtains p i j where "p \<in> Cs" "i < length (kids p)" "j < length (kids p)" "i \<noteq> j" "sub (kids p ! i) x" "sub (kids p ! j) y"
  using assms
proof (induction "lev d" arbitrary: d thesis rule: less_induct)
  case less
  have "x \<noteq> d" "y \<noteq> d" using less.prems by auto
  then obtain e f where ef: "e \<in> set (kids d)" "sub e x" "f \<in> set (kids d)" "sub f y"
    using sub_cases [OF less.prems(3)] sub_cases [OF less.prems(4)] by blast
  show ?case
  proof (cases "e = f")
    case True
    have "e \<in> Cs" "lev e < lev d" using child_in [OF less.prems(2) ef(1)] by auto
    then show ?thesis
      by (intro less.hyps [of e, OF _ less.prems(1)]) (use ef True less.prems(5,6) in auto)
  next
    case False
    then show ?thesis using less.prems(1,2) ef unfolding in_set_conv_nth by blast
  qed
qed

text \<open>What a cache has, the caches above it have, with at least the same rights.\<close>

lemma rights_up:
  fixes h :: "('a, 'm) hier"
  assumes ok: "\<And>y. sub e y \<Longrightarrow> node h y \<and> arr_wf (get_arr h y)" and sub: "sub e x" and e: "e \<in> Cs"
  shows "(st h x a \<noteq> I \<longrightarrow> st h e a \<noteq> I) \<and> (writable (st h x a) \<longrightarrow> writable (st h e a))"
  using sub e ok
proof (induction rule: desc.induct)
  case (desc_step c y d)
  have node: "node h y" and wf: "arr_wf (get_arr h y)" using desc_step.prems(2) desc_step.hyps(1) by blast+
  have v: "st h d a \<noteq> I \<longrightarrow> st h y a \<noteq> I" using node_incl [OF node desc_step.hyps(2)] by simp
  have "writable (st h y a)" if w: "writable (st h d a)"
  proof -
    have "st h d a \<noteq> I" using w by (auto simp: writable_def)
    then obtain l where l: "find a (get_arr h y) = Some l" "get_state h (y, l) \<noteq> I"
      using v by (auto simp: line_state_def split: option.splits)
    note sh = node_sharers [OF node, of l, unfolded wf_tag [OF wf l(1)]]
    obtain i where i: "i < length (kids y)" "kids y ! i = d" using desc_step.hyps(2) by (auto simp: in_set_conv_nth)
    have s: "sharers (get_entry h y l) i" using sh(1) [of i] i l(2) \<open>st h d a \<noteq> I\<close> by simp
    then have "exclusive (get_entry h y l)" using sh(2) w i by (auto simp: sharers_ok_def)
    then show ?thesis using sh(3) [OF exclusive_sharer [OF sh(2) s]] l(1) by (simp add: line_state_def)
  qed
  then show ?case using v desc_step.IH desc_step.prems by blast
qed simp

theorem single_writer:
  fixes h :: "('a, 'm) hier"
  assumes ok: "nodes_ok h" and x: "x \<in> Cs" and y: "y \<in> Cs" and apart: "\<not> sub x y" "\<not> sub y x"
    and w: "writable (st h x a)"
  shows "st h y a = I"
proof (rule ccontr)
  assume v: "st h y a \<noteq> I"
  obtain p i j where p: "p \<in> Cs" "i < length (kids p)" "j < length (kids p)" "i \<noteq> j" "sub (kids p ! i) x" "sub (kids p ! j) y"
    using branch_point [OF llc_in all_below_llc [OF x] all_below_llc [OF y] apart] .
  note node = nodes_okD(1) [OF ok p(1)] and wf = nodes_okD(2) [OF ok p(1)]
  have below: "node h z \<and> arr_wf (get_arr h z)" if "sub (kids p ! m) z" "m < length (kids p)" for m z
    using ok desc_lev [OF that(1)] tree_child(1) [OF p(1) that(2)] by (simp add: nodes_ok_def)
  have wi: "writable (st h (kids p ! i) a)" using rights_up [OF below [OF _ p(2)] p(5) tree_child(1) [OF p(1,2)]] w by blast
  have vj: "st h (kids p ! j) a \<noteq> I" using rights_up [OF below [OF _ p(3)] p(6) tree_child(1) [OF p(1,3)]] v by blast
  then have "st h p a \<noteq> I" using node_incl [OF node nth_mem [OF p(3)]] by simp
  then obtain l where l: "find a (get_arr h p) = Some l" "get_state h (p, l) \<noteq> I"
    by (auto simp: line_state_def split: option.splits)
  note sh = node_sharers [OF node, of l, unfolded wf_tag [OF wf l(1)]]
  have vi: "st h (kids p ! i) a \<noteq> I" using wi by (auto simp: writable_def)
  have s: "sharers (get_entry h p l) i" "sharers (get_entry h p l) j"
    using sh(1) [of i] sh(1) [of j] p(2,3) l(2) vi vj by simp_all
  have "exclusive (get_entry h p l)" using sh(2) s(1) wi unfolding sharers_ok_def by blast
  then have "e_numSharers (get_entry h p l) = 1" using exclusive_sharer [OF sh(2) s(1)] by (simp add: entry_isExclusive_def)
  then have "card {k. sharers (get_entry h p l) k} = 1" using sh(2) by (simp add: sharers_ok_def)
  then obtain z where "{k. sharers (get_entry h p l) k} = {z}" by (rule card_1_singletonE)
  moreover have "i \<in> {k. sharers (get_entry h p l) k}" "j \<in> {k. sharers (get_entry h p l) k}" using s by simp_all
  ultimately show False using p(4) by simp
qed

text \<open>An invalidation of an idle hierarchy from outside: what the parent of \<open>d\<close> sees.\<close>

lemma inval_below:
  fixes h :: "('a, 'm) hier" and req :: inv_req
  assumes idle: "idle h" and d: "d \<in> Cs" and a: "addr_ok (i_lineAddr req)" and v: "st h d (i_lineAddr req) \<noteq> I"
    and t: "i_type req = INV" and n: "lev d < n"
  shows "\<exists>resp wb' h'. sys_invalidate ops cfg n d req wb h = Inr (resp, wb', h') \<and> held h' = held h
    \<and> (\<forall>x. sub d x \<longrightarrow> st h' x (i_lineAddr req) = I)
    \<and> (\<forall>x. \<not> sub d x \<longrightarrow> caches h' x = caches h x)
    \<and> (\<forall>x \<in> Cs. \<forall>b. b \<noteq> i_lineAddr req \<longrightarrow> st h' x b = st h x b)
    \<and> (wb' \<longrightarrow> wb \<or> writable (st h d (i_lineAddr req)))"
proof -
  let ?a = "i_lineAddr req"
  have "below_ok h d"
    using idle desc_lev [OF _ d] by (auto simp: below_ok_def idle_def nodes_ok_def)
  moreover have "i_type req \<noteq> FWD" "i_type req = INVX \<longrightarrow> writable (st h d ?a)" using t by simp_all
  ultimately obtain resp wb' h' where r: "sys_invalidate ops cfg n d req wb h = Inr (resp, wb', h')"
    "chg {x. sub d x} ?a h h'" "below_ok h' d" "st h' d ?a = I" "wb' \<longrightarrow> wb \<or> writable (st h d ?a)"
    using sys_invalidate_contract [OF d n] a v t unfolding inval_contract_def inv_result_def by metis
  have "st h' x ?a = I" if "sub d x" for x
    using rights_up [OF _ that d, of h' ?a] r(3,4) by (auto simp: below_ok_def)
  moreover have "st h' x b = st h x b" if "x \<in> Cs" "b \<noteq> ?a" for x b
    using chg_st_other [OF r(2) that(2)] idle that(1) by (auto simp: idle_def nodes_ok_def)
  ultimately show ?thesis using r(1,5) chgD(1,3) [OF r(2)] by auto
qed

subsection \<open>Programs of the cores\<close>

definition filters_free :: "('a, 'm) hier \<Rightarrow> bool" where
  "filters_free h \<longleftrightarrow> (\<forall>f. \<not> held h (FilterLock f))"

lemma init_idle:
  assumes "mem_ok m" and "\<And>c. c \<in> Cs \<Longrightarrow> ready (arrs c)"
  shows "idle (hier_init m arrs)" and "filters_free (hier_init m arrs)"
proof -
  let ?h = "hier_init m arrs"
  have eff: "get_state ?h r = I" "get_entry ?h x k = entry_clear" "get_arr ?h x = arrs x" for r x k
    by (simp_all add: hier_init_def get_state_def get_entry_def get_arr_def)
  have st: "st ?h x b = I" for x b by (simp add: line_state_def eff split: option.split)
  have "node ?h x" for x
    by (simp add: node_ok_def lines_ok_def incl_ok_def st eff entry_ok_def Let_def entry_clear_def)
  then show "idle ?h"
    using assms by (auto simp: idle_def nodes_ok_def arr_wf_def eff) (simp_all add: hier_init_def)
  show "filters_free ?h" by (simp add: filters_free_def hier_init_def)
qed

abbreviation "levels \<equiv> Suc (lev llc)"
abbreviation "whole_access \<equiv> sys_access ops mem_access cfg levels levels"

lemma op_step:
  fixes h :: "('a, 'm) hier"
  assumes idle: "idle h" and free: "filters_free h" and op: "op_ok cfg (lev llc) Cs p" and a: "addr_ok (op_addr p)"
  shows "\<exists>resp h'. core_access whole_access dummy p h = Inr (resp, h') \<and> op_cycle p \<le> resp
    \<and> idle h' \<and> held h' = held h \<and> st h' (op_cache p) (op_addr p) \<noteq> I
    \<and> (\<not> op_load p \<longrightarrow> st h' (op_cache p) (op_addr p) = M)"
proof -
  let ?c = "op_cache p" and ?k = "FilterLock (op_cache p)"
  define h1 where "h1 = h\<lparr>held := (held h)(?k := True)\<rparr>"
  define req where "req = core_request (op_addr p) (core_type p) dummy (op_cycle p) (Some ?k) (get_state h1 dummy)
    (op_src p) (op_flags p) (op_pc p)"
  have r: "lineAddr req = op_addr p" "r_type req = core_type p" "cycle req = op_cycle p" "childLock req = Some ?k"
    "initialState req = get_state h1 (state_ptr req)" "flags req = op_flags p"
    by (simp_all add: req_def core_request_def)
  have idle1: "idle h1" using idle by (simp add: idle_def h1_def hier_simps)
  have ok: "core_ok h1 req"
    using op a by (simp add: core_ok_def op_ok_def r core_type_def IsGet_def) (simp add: h1_def)
  have c: "?c \<in> Cs" "terminal (cfg ?c)" using op by (auto simp: op_ok_def)
  have depth: "x \<in> Cs \<Longrightarrow> lev x < levels" for x using tree_cache(5) [of x] by simp
  from core_access_ok [OF idle1 c ok depth, of "lev llc"] obtain resp h2 where
    h2: "whole_access (CacheObj ?c) req h1 = Inr (resp, h2)" "idle h2" "held h2 = held h1" "op_cycle p \<le> resp"
      "st h2 ?c (op_addr p) \<noteq> I" "core_type p = GETX \<longrightarrow> st h2 ?c (op_addr p) = M"
    by (auto simp: r)
  define h3 where "h3 = lock_release ?k h2"
  have "core_access whole_access dummy p h = Inr (resp, h3)"
    using free h2(1) by (simp add: core_access_def lock_acquire_def filters_free_def h1_def req_def h3_def)
  moreover have "idle h3" using h2(2) by (simp add: idle_def h3_def lock_release_def hier_simps)
  moreover have "held h3 = held h" using free h2(3) by (simp add: filters_free_def h3_def lock_release_def h1_def fun_eq_iff)
  moreover have "st h3 x b = st h2 x b" for x b by (simp add: h3_def lock_release_def)
  ultimately show ?thesis using h2(4-6) by (auto simp: core_type_def)
qed

lemma run_ok:
  fixes h :: "('a, 'm) hier"
  assumes "idle h" and "filters_free h" and "\<forall>p \<in> set ps. op_ok cfg (lev llc) Cs p \<and> addr_ok (op_addr p)"
  shows "\<exists>h'. core_run whole_access dummy ps h = Inr h' \<and> idle h' \<and> held h' = held h"
  using assms
proof (induction ps arbitrary: h)
  case (Cons p ps)
  from op_step [OF Cons.prems(1,2), of p dummy] Cons.prems(3) obtain resp h1 where
    "core_access whole_access dummy p h = Inr (resp, h1)" "idle h1" "held h1 = held h" by auto
  then show ?case using Cons.IH [of h1] Cons.prems(2,3) by (auto simp: filters_free_def)
qed simp

lemma idle_node:
  fixes h :: "('a, 'm) hier"
  shows "idle h \<Longrightarrow> c \<in> Cs \<Longrightarrow> node h c"
  by (simp add: idle_def nodes_ok_def)

lemma idle_coherent:
  fixes h :: "('a, 'm) hier"
  shows "idle h \<Longrightarrow> coherent find cfg Cs h"
  using single_writer unfolding coherent_def idle_def writable_def by blast

end

subsection \<open>Set-associative LRU caches over simple memories\<close>

text \<open>The trees of the code's own arrays and memories are such hierarchies.\<close>

lemma lru_tree:
  assumes "tree_ok cfg lev llc Cs"
  shows "cache_tree (sa_ops (lru_ops sa) hf) (sa_find hf) sa_array sa_numLines
    (\<lambda>s. sa_wf lru_numLines (\<lambda>cands _. cands \<noteq> []) hf s \<and> True)
    (\<lambda>a l s. sa_wf lru_numLines (\<lambda>cands _. cands \<noteq> []) hf s \<and> True \<and> l \<in> set (sa_cands hf a s))
    (\<lambda>_. True) simple_mem_access (\<lambda>latency. \<forall>i. latency i \<noteq> 0) cfg lev llc Cs"
  by (intro cache_tree.intro cache_tree_axioms.intro sa_lru.arr.cache_array_axioms simple_mem.mem_object_axioms assms)

text \<open>Two cores, each with its own cache, and a shared last-level cache.\<close>

definition two_cores :: "nat \<Rightarrow> cache_cfg" where
  "two_cores c =
     (if c = 2 then \<lparr>selfId = 0, parents = [MemObj 0], parentRTTs = [0], children = [0, 1], childrenRTTs = [10, 10],
        nonInclusiveHack = False, terminal = False, accLat = 20, invLat = 20\<rparr>
      else \<lparr>selfId = c, parents = [CacheObj 2], parentRTTs = [10], children = [], childrenRTTs = [],
        nonInclusiveHack = False, terminal = True, accLat = 4, invLat = 4\<rparr>)"

definition two_levels :: "nat \<Rightarrow> nat" where
  "two_levels c = (if c = 2 then 1 else 0)"

lemma two_cores_tree: "tree_ok two_cores two_levels 2 {0, 1, 2}"
  by (simp add: tree_ok_def two_cores_def two_levels_def Let_def less_Suc_eq nth_Cons split: nat.split)

interpretation two_cores: cache_tree "sa_ops (lru_ops sa) hf" "sa_find hf" sa_array sa_numLines
  "\<lambda>s. sa_wf lru_numLines (\<lambda>cands _. cands \<noteq> []) hf s \<and> True"
  "\<lambda>a l s. sa_wf lru_numLines (\<lambda>cands _. cands \<noteq> []) hf s \<and> True \<and> l \<in> set (sa_cands hf a s)"
  "\<lambda>_. True" simple_mem_access "\<lambda>latency. \<forall>i. latency i \<noteq> 0" two_cores two_levels 2 "{0, 1, 2}" for sa hf
  by (rule lru_tree [OF two_cores_tree])

text \<open>The arrays that \<open>init\<close> builds.\<close>

definition lru_arrays :: "nat set \<Rightarrow> (nat \<Rightarrow> nat) \<Rightarrow> (nat \<Rightarrow> nat) \<Rightarrow> (nat \<Rightarrow> lru set_assoc) \<Rightarrow> bool" where
  "lru_arrays Cs nl ways arrs \<longleftrightarrow> (\<forall>c \<in> Cs. 0 < ways c \<and> nl c < 2 ^ 32
     \<and> set_assoc_init (nl c) (ways c) (lru_init (nl c)) = Inr (arrs c))"

lemma lru_arrays_ready:
  assumes "lru_arrays Cs nl ways arrs" and "c \<in> Cs"
  shows "sa_wf lru_numLines (\<lambda>cands _. cands \<noteq> []) hf (arrs c) \<and> True"
proof -
  have "set_assoc_init (nl c) (ways c) (lru_init (nl c)) = Inr (arrs c)" "0 < ways c" "nl c < 2 ^ 32"
    using assms by (auto simp: lru_arrays_def)
  from set_assoc_init_wf [OF this, of lru_numLines "\<lambda>cands _. cands \<noteq> []"] this(2) show ?thesis
    by (simp add: lru_init_def)
qed

abbreviation "lru_hier sa hf cfg depth \<equiv>
  sys_access (sa_ops (lru_ops sa) hf) simple_mem_access cfg (Suc depth) (Suc depth)"

abbreviation "lru_idle hf cfg Cs h \<equiv>
  cache_tree.idle (sa_find hf) sa_array (\<lambda>s. sa_wf lru_numLines (\<lambda>cands _. cands \<noteq> []) hf s \<and> True)
    (\<lambda>a l s. sa_wf lru_numLines (\<lambda>cands _. cands \<noteq> []) hf s \<and> True \<and> l \<in> set (sa_cands hf a s))
    (\<lambda>_. True) (\<lambda>latency. \<forall>i. latency i \<noteq> 0) cfg Cs h"

lemma lru_init_idle:
  fixes hf :: hash_family and lat :: "nat \<Rightarrow> u32"
  assumes "tree_ok cfg lev llc Cs" and "lru_arrays Cs nl ways arrs" and "\<forall>i. lat i \<noteq> 0"
  shows "lru_idle hf cfg Cs (hier_init lat arrs)" and "cache_tree.filters_free (hier_init lat arrs)"
  using cache_tree.init_idle [OF lru_tree [OF assms(1), of True hf], of lat arrs, OF assms(3) lru_arrays_ready [OF assms(2)]]
  by blast+

lemma lru_run:
  assumes "tree_ok cfg lev llc Cs" and "lru_arrays Cs nl ways arrs" and "\<forall>i. lat i \<noteq> 0"
    and "\<forall>p \<in> set ps. op_ok cfg (lev llc) Cs p"
  shows "\<exists>h. core_run (lru_hier sa hf cfg (lev llc)) dummy ps (hier_init lat arrs) = Inr h
    \<and> lru_idle hf cfg Cs h \<and> held h = (\<lambda>_. False)"
proof -
  note T = lru_tree [OF assms(1), of sa hf]
  note init = lru_init_idle(1) [OF assms(1-3), of hf] lru_init_idle(2) [OF assms(1-3)]
  have "held (hier_init lat arrs) = (\<lambda>_. False)" by (simp add: hier_init_def)
  with cache_tree.run_ok [OF T init, of ps dummy] assms(4) show ?thesis by auto
qed

text \<open>
  C1. Coherence, for every tree of set-associative LRU caches and every program of the cores:
  all accesses are answered, all locks are free at the end, and no cache has a line that a
  cache of another branch may write.
\<close>

theorem hierarchy_coherent:
  assumes "tree_ok cfg lev llc Cs" and "lru_arrays Cs nl ways arrs" and "\<forall>i. lat i \<noteq> 0"
    and "\<forall>p \<in> set ps. op_ok cfg (lev llc) Cs p"
  shows "\<exists>h. core_run (lru_hier sa hf cfg (lev llc)) dummy ps (hier_init lat arrs) = Inr h
    \<and> (\<forall>k. \<not> held h k) \<and> coherent (sa_find hf) cfg Cs h"
  using lru_run [OF assms, of sa hf dummy] cache_tree.idle_coherent [OF lru_tree [OF assms(1)]] by fastforce

text \<open>A program for the two cores: both read a line, then one writes it.\<close>

definition demo_op :: "nat \<Rightarrow> bool \<Rightarrow> core_op" where
  "demo_op c ld = \<lparr>op_cache = c, op_addr = 0x40, op_load = ld, op_cycle = 100, op_src = 0, op_flags = 0, op_pc = 0\<rparr>"

definition demo_arrays :: "nat \<Rightarrow> lru set_assoc" where
  "demo_arrays _ = \<lparr>sa_array = (\<lambda>_. 0), sa_rp = lru_init 4, sa_numLines = 4, sa_numSets = 2, sa_assoc = 2, sa_setMask = 1\<rparr>"

lemma demo_arrays_ok: "lru_arrays {0, 1, 2} (\<lambda>_. 4) (\<lambda>_. 2) demo_arrays"
  by (simp add: lru_arrays_def set_assoc_init_def demo_arrays_def Let_def isPow2_def)

lemma demo_op_ok: "c < 2 \<Longrightarrow> op_ok two_cores 1 {0, 1, 2} (demo_op c ld)"
  by (auto simp: op_ok_def demo_op_def two_cores_def)

definition demo_prog :: "core_op list" where
  "demo_prog = [demo_op 0 True, demo_op 1 True, demo_op 0 False]"

abbreviation "demo_hier \<equiv> lru_hier True (\<lambda>_ a. a) two_cores 1"

lemma demo_lev: "two_levels 2 = 1"
  by (simp add: two_levels_def)

lemma demo_prog_ok: "\<forall>p \<in> set demo_prog. op_ok two_cores 1 {0, 1, 2} p"
  using demo_op_ok [of 0] demo_op_ok [of 1] by (simp add: demo_prog_def)

lemma demo_lat: "\<forall>i. (\<lambda>_. 100 :: u32) i \<noteq> 0"
  by simp

lemmas demo_facts = two_cores_tree demo_arrays_ok demo_lat

lemma demo_run: "\<exists>h. core_run demo_hier (3, 0) demo_prog (hier_init (\<lambda>_. 100) demo_arrays) = Inr h"
  using lru_run [OF demo_facts, unfolded demo_lev, OF demo_prog_ok] by blast

theorem hierarchy_coherent_witness:
  "\<exists>h. core_run demo_hier (3, 0) demo_prog (hier_init (\<lambda>_. 100) demo_arrays) = Inr h
    \<and> (\<forall>k. \<not> held h k) \<and> coherent (sa_find (\<lambda>_ a. a)) two_cores {0, 1, 2} h"
  by (rule hierarchy_coherent [OF demo_facts, unfolded demo_lev, OF demo_prog_ok])

text \<open>
  C2. The invariant of the directory, for every such program: in every cache, a valid line is
  found under its address; the sharers of its directory entry are exactly the children that
  have the line, their number is right and the exclusive flag says whether the only sharer may
  write; a line of a child is also in its parent.
\<close>

theorem hierarchy_directory_exact:
  assumes "tree_ok cfg lev llc Cs" and "lru_arrays Cs nl ways arrs" and "\<forall>i. lat i \<noteq> 0"
    and "\<forall>p \<in> set ps. op_ok cfg (lev llc) Cs p"
    and "core_run (lru_hier sa hf cfg (lev llc)) dummy ps (hier_init lat arrs) = Inr h" and "c \<in> Cs"
  shows "node_ok (sa_find hf) sa_array (\<lambda>_. True) cfg h c"
proof -
  have "lru_idle hf cfg Cs h" using lru_run [OF assms(1-4), of sa hf dummy] assms(5) by auto
  then show ?thesis by (rule cache_tree.idle_node [OF lru_tree [OF assms(1)] _ assms(6)])
qed

theorem hierarchy_directory_exact_witness:
  "\<exists>h. core_run demo_hier (3, 0) demo_prog (hier_init (\<lambda>_. 100) demo_arrays) = Inr h
    \<and> node_ok (sa_find (\<lambda>_ a. a)) sa_array (\<lambda>_. True) two_cores h 2"
proof -
  obtain h where h: "core_run demo_hier (3, 0) demo_prog (hier_init (\<lambda>_. 100) demo_arrays) = Inr h"
    using demo_run by blast
  with hierarchy_directory_exact [OF demo_facts, unfolded demo_lev, OF demo_prog_ok h, of 2] show ?thesis by simp
qed

text \<open>
  C3. What a store gets: after any program, a store of a core is answered not earlier than it
  was made, the core's cache then has the line in state M, and every cache of another branch
  has lost it.
\<close>

theorem store_takes_line:
  assumes "tree_ok cfg lev llc Cs" and "lru_arrays Cs nl ways arrs" and "\<forall>i. lat i \<noteq> 0"
    and "\<forall>p \<in> set (p # ps). op_ok cfg (lev llc) Cs p"
    and "core_run (lru_hier sa hf cfg (lev llc)) dummy ps (hier_init lat arrs) = Inr h" and "\<not> op_load p"
  shows "\<exists>resp h'. core_access (lru_hier sa hf cfg (lev llc)) dummy p h = Inr (resp, h') \<and> op_cycle p \<le> resp
    \<and> line_state (sa_find hf) h' (op_cache p) (op_addr p) = M
    \<and> (\<forall>y \<in> Cs. \<not> desc cfg y (op_cache p) \<longrightarrow> line_state (sa_find hf) h' y (op_addr p) = I)"
proof -
  note T = lru_tree [OF assms(1), of sa hf]
  have ps: "\<forall>p \<in> set ps. op_ok cfg (lev llc) Cs p" and p: "op_ok cfg (lev llc) Cs p" using assms(4) by simp_all
  have h: "lru_idle hf cfg Cs h" "held h = (\<lambda>_. False)"
    using lru_run [OF assms(1-3) ps, of sa hf dummy] assms(5) by auto
  have free: "cache_tree.filters_free h" by (simp add: cache_tree.filters_free_def [OF T] h(2))
  from cache_tree.op_step [OF T h(1) free p, of dummy] assms(6) obtain resp h' where
    r: "core_access (lru_hier sa hf cfg (lev llc)) dummy p h = Inr (resp, h')" "op_cycle p \<le> resp" "lru_idle hf cfg Cs h'"
      "line_state (sa_find hf) h' (op_cache p) (op_addr p) = M" by auto
  have c: "op_cache p \<in> Cs" "terminal (cfg (op_cache p))" using p by (auto simp: op_ok_def)
  have leaf: "y = op_cache p" if "desc cfg (op_cache p) y" for y
    using cache_tree.sub_cases [OF T that] cache_tree.tree_cache(2) [OF T c] by auto
  show ?thesis
    using r c leaf cache_tree.idle_coherent [OF T r(3)] desc_refl unfolding coherent_def by metis
qed

theorem store_takes_line_witness:
  "\<exists>h resp h'. core_run demo_hier (3, 0) demo_prog (hier_init (\<lambda>_. 100) demo_arrays) = Inr h
    \<and> core_access demo_hier (3, 0) (demo_op 1 False) h = Inr (resp, h')
    \<and> line_state (sa_find (\<lambda>_ a. a)) h' 1 0x40 = M \<and> line_state (sa_find (\<lambda>_ a. a)) h' 0 0x40 = I"
proof -
  obtain h where h: "core_run demo_hier (3, 0) demo_prog (hier_init (\<lambda>_. 100) demo_arrays) = Inr h"
    using demo_run by blast
  have ops: "\<forall>p \<in> set (demo_op 1 False # demo_prog). op_ok two_cores 1 {0, 1, 2} p"
    using demo_prog_ok demo_op_ok [of 1 False] by simp
  have p: "op_cache (demo_op 1 False) = 1" "op_addr (demo_op 1 False) = 0x40" "\<not> op_load (demo_op 1 False)"
    by (simp_all add: demo_op_def)
  have apart: "\<not> desc two_cores 0 1"
    using two_cores.sub_cases [of 0 1] by (auto simp: two_cores_def)
  from store_takes_line [OF demo_facts, unfolded demo_lev, OF ops h p(3)] apart h show ?thesis
    unfolding p by blast
qed

text \<open>
  C4. What an invalidation does, after any program: all caches below the invalidated one lose
  the line, all caches elsewhere are untouched, every other line of every cache keeps its state,
  all locks are as before, and a write-back is asked for only if the cache could write the line.
\<close>

theorem invalidation_reaches_all:
  assumes "tree_ok cfg lev llc Cs" and "lru_arrays Cs nl ways arrs" and "\<forall>i. lat i \<noteq> 0"
    and "\<forall>p \<in> set ps. op_ok cfg (lev llc) Cs p"
    and "core_run (lru_hier sa hf cfg (lev llc)) dummy ps (hier_init lat arrs) = Inr h"
    and "d \<in> Cs" and "lev d < n" and "i_type req = INV" and "line_state (sa_find hf) h d (i_lineAddr req) \<noteq> I"
  shows "\<exists>resp wb h'. sys_invalidate (sa_ops (lru_ops sa) hf) cfg n d req False h = Inr (resp, wb, h') \<and> held h' = held h
    \<and> (\<forall>x. desc cfg d x \<longrightarrow> line_state (sa_find hf) h' x (i_lineAddr req) = I)
    \<and> (\<forall>x. \<not> desc cfg d x \<longrightarrow> caches h' x = caches h x)
    \<and> (\<forall>x \<in> Cs. \<forall>b. b \<noteq> i_lineAddr req \<longrightarrow> line_state (sa_find hf) h' x b = line_state (sa_find hf) h x b)
    \<and> (wb \<longrightarrow> line_state (sa_find hf) h d (i_lineAddr req) = E \<or> line_state (sa_find hf) h d (i_lineAddr req) = M)"
proof -
  note T = lru_tree [OF assms(1), of sa hf]
  have h: "lru_idle hf cfg Cs h" using lru_run [OF assms(1-4), of sa hf dummy] assms(5) by auto
  from cache_tree.inval_below [OF T h assms(6) _ assms(9,8,7), of False] show ?thesis
    by (auto simp: cache_tree.writable_def [OF T])
qed

lemma demo_store:
  "\<exists>h. core_run demo_hier (3, 0) [demo_op 0 False] (hier_init (\<lambda>_. 100) demo_arrays) = Inr h
    \<and> line_state (sa_find (\<lambda>_ a. a)) h 2 0x40 \<noteq> I"
proof -
  note T = lru_tree [OF two_cores_tree, of True "\<lambda>_ a. a"]
  note init = lru_init_idle(1) [OF demo_facts, of "\<lambda>_ a. a"] lru_init_idle(2) [OF demo_facts]
  have p: "op_cache (demo_op 0 False) = 0" "op_addr (demo_op 0 False) = 0x40" "\<not> op_load (demo_op 0 False)"
    by (simp_all add: demo_op_def)
  have ok: "op_ok two_cores 1 {0, 1, 2} (demo_op 0 False)" by (rule demo_op_ok) simp
  from cache_tree.op_step [OF T init, unfolded demo_lev, OF ok TrueI, of "(3, 0)", unfolded p] obtain resp h where
    h: "core_access demo_hier (3, 0) (demo_op 0 False) (hier_init (\<lambda>_. 100) demo_arrays) = Inr (resp, h)"
      "lru_idle (\<lambda>_ a. a) two_cores {0, 1, 2} h" "line_state (sa_find (\<lambda>_ a. a)) h 0 0x40 \<noteq> I"
    by blast
  have "node_ok (sa_find (\<lambda>_ a. a)) sa_array (\<lambda>_. True) two_cores h 2"
    by (rule cache_tree.idle_node [OF T h(2)]) simp
  then have "line_state (sa_find (\<lambda>_ a. a)) h 2 0x40 \<noteq> I"
    by (rule cache_tree.node_incl [OF T _ _ h(3)]) (simp add: two_cores_def)
  with h(1) show ?thesis by simp
qed

theorem invalidation_reaches_all_witness:
  "\<exists>h resp wb h'. core_run demo_hier (3, 0) [demo_op 0 False] (hier_init (\<lambda>_. 100) demo_arrays) = Inr h
    \<and> sys_invalidate (sa_ops (lru_ops True) (\<lambda>_ a. a)) two_cores 2 2
        \<lparr>i_lineAddr = 0x40, i_type = INV, i_cycle = 500, i_srcId = 0\<rparr> False h = Inr (resp, wb, h')
    \<and> line_state (sa_find (\<lambda>_ a. a)) h' 2 0x40 = I"
proof -
  obtain h where h: "core_run demo_hier (3, 0) [demo_op 0 False] (hier_init (\<lambda>_. 100) demo_arrays) = Inr h"
    "line_state (sa_find (\<lambda>_ a. a)) h 2 0x40 \<noteq> I" using demo_store by blast
  have ok: "\<forall>p \<in> set [demo_op 0 False]. op_ok two_cores 1 {0, 1, 2} p" using demo_op_ok [of 0] by simp
  define req where "req = \<lparr>i_lineAddr = 0x40, i_type = INV, i_cycle = 500, i_srcId = 0\<rparr>"
  have r: "i_lineAddr req = 0x40" "i_type req = INV" by (simp_all add: req_def)
  have "two_levels 2 < 2" by (simp add: two_levels_def)
  from invalidation_reaches_all [OF demo_facts, unfolded demo_lev, OF ok h(1) _ this r(2), unfolded r(1), OF _ h(2)]
  have "\<exists>resp wb h'. sys_invalidate (sa_ops (lru_ops True) (\<lambda>_ a. a)) two_cores 2 2 req False h = Inr (resp, wb, h')
    \<and> line_state (sa_find (\<lambda>_ a. a)) h' 2 0x40 = I"
    using desc_refl by fastforce
  with h(1) show ?thesis unfolding req_def by blast
qed

end
