(* ===== verification/PrioQueue.thy ===== *)
theory PrioQueue
  imports ZPrelude "HOL-Library.Multiset"
begin

section \<open>The cycle-indexed priority queue\<close>

text \<open>
  prio_queue.h, the event queue of the contention simulation. The next \<open>B\<close> blocks of 64 cycles
  are an array of chains with an occupancy word per block; later elements wait in a multimap
  (\<open>feMap\<close>) and are moved in when \<open>curBlock\<close> passes a multiple of \<open>B/2\<close>.

  A chain of \<open>next\<close> pointers is a list; the assertion \<open>!obj->next\<close> is the caller's obligation to
  enqueue an object that is in no chain. Cycles and block numbers are natural numbers: the
  code computes them in 64 bits, and the largest value formed is \<open>(curBlock + B) * 64\<close>, at most
  \<open>64 * B\<close> above a cycle in use.
\<close>

subsection \<open>Multimaps\<close>

text \<open>\<open>g_multimap\<close>: sorted by key; an insertion goes behind the entries with the same key.\<close>

fun mm_insert :: "'k::linorder \<Rightarrow> 'v \<Rightarrow> ('k \<times> 'v) list \<Rightarrow> ('k \<times> 'v) list" where
  "mm_insert k v [] = [(k, v)]"
| "mm_insert k v ((k', v') # xs) =
    (if k < k' then (k, v) # (k', v') # xs else (k', v') # mm_insert k v xs)"

lemma mset_mm_insert [simp]: "mset (mm_insert k v xs) = add_mset (k, v) (mset xs)"
  by (induction xs) auto

lemma set_mm_insert [simp]: "set (mm_insert k v xs) = insert (k, v) (set xs)"
  by (induction xs) (auto split: if_splits)

lemma length_mm_insert [simp]: "length (mm_insert k v xs) = Suc (length xs)"
  by (induction xs) auto

lemma sorted_mm_insert: "sorted (map fst xs) \<Longrightarrow> sorted (map fst (mm_insert k v xs))"
  by (induction xs) fastforce+

subsection \<open>State and operations\<close>

record 'a pq_block =
  pq_array :: "nat \<Rightarrow> 'a list"
  occ :: u64

record 'a prio_queue =
  blocks :: "nat \<Rightarrow> 'a pq_block"
  feMap :: "(nat \<times> 'a) list"
  curBlock :: nat
  elems :: nat

definition block_empty :: "'a pq_block" where
  "block_empty = \<lparr>pq_array = (\<lambda>_. []), occ = 0\<rparr>"

definition block_dequeue :: "'a pq_block \<Rightarrow> ('a \<times> nat \<times> 'a pq_block) res" where
  "block_dequeue b =
     assert_then (occ b \<noteq> 0)
       (let pos = builtin_ctz (occ b) in
        case pq_array b pos of
          [] \<Rightarrow> Inl AssertFail
        | res # next \<Rightarrow> Inr (res, pos,
            b\<lparr>pq_array := (pq_array b)(pos := next),
              occ := if next = [] then occ b XOR push_bit pos 1 else occ b\<rparr>))"

definition block_enqueue :: "'a \<Rightarrow> nat \<Rightarrow> 'a pq_block \<Rightarrow> 'a pq_block" where
  "block_enqueue obj pos b =
     b\<lparr>occ := occ b OR push_bit pos 1, pq_array := (pq_array b)(pos := obj # pq_array b pos)\<rparr>"

definition pq_init :: "'a prio_queue" where
  "pq_init = \<lparr>blocks = (\<lambda>_. block_empty), feMap = [], curBlock = 0, elems = 0\<rparr>"

definition near_enqueue :: "nat \<Rightarrow> 'a \<Rightarrow> nat \<Rightarrow> 'a prio_queue \<Rightarrow> 'a prio_queue" where
  "near_enqueue B obj cycle q =
     (let i = (cycle div 64) mod B
      in q\<lparr>blocks := (blocks q)(i := block_enqueue obj (cycle mod 64) (blocks q i))\<rparr>)"

definition pq_enqueue :: "nat \<Rightarrow> 'a \<Rightarrow> nat \<Rightarrow> 'a prio_queue \<Rightarrow> 'a prio_queue res" where
  "pq_enqueue B obj cycle q =
     (let absBlock = cycle div 64 in
      assert_then (curBlock q \<le> absBlock)
        (let q1 = (if absBlock < curBlock q + B then near_enqueue B obj cycle q
                   else q\<lparr>feMap := mm_insert cycle obj (feMap q)\<rparr>)
         in Inr (q1\<lparr>elems := elems q + 1\<rparr>)))"

text \<open>The inner loop of \<open>dequeue\<close>, over the far elements below \<open>topCycle\<close>.\<close>

fun pq_move :: "nat \<Rightarrow> (nat \<times> 'a) list \<Rightarrow> 'a prio_queue \<Rightarrow> 'a prio_queue res" where
  "pq_move B [] q = Inr q"
| "pq_move B ((cycle, obj) # fe) q =
    (let absBlock = cycle div 64 in
     assert_then (curBlock q \<le> absBlock) (assert_then (absBlock < curBlock q + B)
       (pq_move B fe (near_enqueue B obj cycle q))))"

definition pq_migrate :: "nat \<Rightarrow> 'a prio_queue \<Rightarrow> 'a prio_queue res" where
  "pq_migrate B q =
     (if curBlock q mod (B div 2) = 0 \<and> feMap q \<noteq> [] then
        (let topCycle = (curBlock q + B) * 64
         in rbind (pq_move B (takeWhile (\<lambda>e. fst e < topCycle) (feMap q)) q)
              (\<lambda>q1. Inr (q1\<lparr>feMap := dropWhile (\<lambda>e. fst e < topCycle) (feMap q)\<rparr>)))
      else Inr q)"

partial_function (option) pq_advance :: "nat \<Rightarrow> 'a prio_queue \<Rightarrow> 'a prio_queue res option" where
  "pq_advance B q =
     (if occ (blocks q (curBlock q mod B)) \<noteq> 0 then Some (Inr q)
      else case pq_migrate B (q\<lparr>curBlock := curBlock q + 1\<rparr>) of
        Inl e \<Rightarrow> Some (Inl e)
      | Inr q1 \<Rightarrow> pq_advance B q1)"

definition pq_dequeue :: "nat \<Rightarrow> 'a prio_queue \<Rightarrow> ('a \<times> nat \<times> 'a prio_queue) res" where
  "pq_dequeue B q =
     assert_then (elems q \<noteq> 0)
       (case pq_advance B q of
          None \<Rightarrow> Inl NoReturn
        | Some r \<Rightarrow> rbind r (\<lambda>q1.
            let i = curBlock q1 mod B in
            rbind (block_dequeue (blocks q1 i)) (\<lambda>(obj, offset, b).
              Inr (obj, curBlock q1 * 64 + offset,
                   q1\<lparr>blocks := (blocks q1)(i := b), elems := elems q1 - 1\<rparr>))))"

definition pq_size :: "'a prio_queue \<Rightarrow> nat" where
  "pq_size q = elems q"

definition block_first :: "nat \<Rightarrow> 'a prio_queue \<Rightarrow> nat \<Rightarrow> nat" where
  "block_first B q i =
     (curBlock q + i) * 64 + builtin_ctz (occ (blocks q ((curBlock q + i) mod B)))"

definition pq_firstCycle :: "nat \<Rightarrow> 'a prio_queue \<Rightarrow> nat res" where
  "pq_firstCycle B q =
     assert_then (elems q \<noteq> 0)
       (let occupied = (\<lambda>i. occ (blocks q ((curBlock q + i) mod B)) \<noteq> 0) in
        case List.find occupied [0..<B div 2] of
          Some i \<Rightarrow> Inr (block_first B q i)
        | None \<Rightarrow>
            (case List.find occupied [B div 2..<B] of
               Some i \<Rightarrow> Inr (if feMap q = [] then block_first B q i
                              else min (block_first B q i) (fst (hd (feMap q))))
             | None \<Rightarrow> Inr (fst (hd (feMap q)))))"

subsection \<open>Abstraction: a multiset of cycles and objects\<close>

definition chain_mset :: "nat \<Rightarrow> 'a pq_block \<Rightarrow> (nat \<times> 'a) multiset" where
  "chain_mset b blk = (\<Sum>pos<64. image_mset (\<lambda>x. (b * 64 + pos, x)) (mset (pq_array blk pos)))"

definition near_mset :: "nat \<Rightarrow> 'a prio_queue \<Rightarrow> (nat \<times> 'a) multiset" where
  "near_mset B q = (\<Sum>b \<in> {curBlock q..<curBlock q + B}. chain_mset b (blocks q (b mod B)))"

definition pq_mset :: "nat \<Rightarrow> 'a prio_queue \<Rightarrow> (nat \<times> 'a) multiset" where
  "pq_mset B q = near_mset B q + mset (feMap q)"

definition block_ok :: "'a pq_block \<Rightarrow> bool" where
  "block_ok b \<longleftrightarrow> (\<forall>pos < 64. bit (occ b) pos \<longleftrightarrow> pq_array b pos \<noteq> [])"

text \<open>
  Far elements lie at least \<open>B\<close> blocks after the last multiple of \<open>B/2\<close>, so the first half of
  the window always precedes them.
\<close>

definition pq_inv :: "nat \<Rightarrow> 'a prio_queue \<Rightarrow> bool" where
  "pq_inv B q \<longleftrightarrow> (\<forall>i < B. block_ok (blocks q i)) \<and> sorted (map fst (feMap q))
     \<and> (\<forall>(c, x) \<in> set (feMap q). curBlock q div (B div 2) * (B div 2) + B \<le> c div 64)
     \<and> elems q = size (pq_mset B q)"

lemma sum_add_one:
  assumes "finite A" and "a \<in> A" and "\<And>b. b \<in> A \<Longrightarrow> b \<noteq> a \<Longrightarrow> g b = f b"
    and "g a = add_mset x (f a)"
  shows "sum g A = add_mset x (sum f A)"
proof -
  have "sum g (A - {a}) = sum f (A - {a})" using assms(3) by (intro sum.cong) auto
  then show ?thesis using assms(1,2,4) by (simp add: sum.remove)
qed

lemma chain_mset_enqueue:
  assumes "pos < 64"
  shows "chain_mset b (block_enqueue x pos blk) = add_mset (b * 64 + pos, x) (chain_mset b blk)"
  unfolding chain_mset_def
  by (rule sum_add_one [where a = pos]) (use assms in \<open>auto simp: block_enqueue_def\<close>)

lemma chain_mset_dequeue:
  assumes "block_dequeue blk = Inr (x, pos, blk')" and "pos < 64"
  shows "chain_mset b blk = add_mset (b * 64 + pos, x) (chain_mset b blk')"
  unfolding chain_mset_def
  by (rule sum_add_one [where a = pos])
    (use assms in \<open>auto simp: block_dequeue_def Let_def res_simps split: list.splits\<close>)

lemma bit_pow2: "bit (2 ^ pos :: u64) n \<longleftrightarrow> n = pos \<and> n < 64"
  by (auto simp: bit_simps)

lemma block_ok_enqueue: "block_ok blk \<Longrightarrow> pos < 64 \<Longrightarrow> block_ok (block_enqueue x pos blk)"
  by (auto simp: block_ok_def block_enqueue_def bit_or_iff bit_pow2)

lemma block_ok_dequeue:
  assumes "block_ok blk" and "occ blk \<noteq> 0"
  obtains x pos blk' where "block_dequeue blk = Inr (x, pos, blk')" and "pos < 64"
    and "pos = builtin_ctz (occ blk)" and "block_ok blk'"
proof -
  let ?pos = "builtin_ctz (occ blk)"
  have pos: "bit (occ blk) ?pos" "?pos < 64"
    using builtin_ctz_bit [OF assms(2)] by simp_all
  with assms(1) obtain x xs where arr: "pq_array blk ?pos = x # xs"
    by (auto simp: block_ok_def neq_Nil_conv)
  let ?b = "blk\<lparr>pq_array := (pq_array blk)(?pos := xs),
              occ := if xs = [] then occ blk XOR push_bit ?pos 1 else occ blk\<rparr>"
  have "block_dequeue blk = Inr (x, ?pos, ?b)"
    using assms(2) arr by (simp add: block_dequeue_def Let_def)
  moreover have "block_ok ?b"
    using assms(1) arr pos by (auto simp: block_ok_def bit_xor_iff bit_pow2)
  ultimately show thesis using that pos(2) by blast
qed

lemma mod_window:
  fixes a b B :: nat
  assumes "a \<in> {c..<c + B}" and "b \<in> {c..<c + B}" and "a mod B = b mod B"
  shows "a = b"
proof -
  have "\<bar>int a - int b\<bar> < int B" using assms(1,2) by auto
  moreover have "int B dvd int a - int b"
    using assms(3) by (metis mod_eq_dvd_iff zmod_int)
  ultimately show ?thesis by (metis abs_0_eq dvd_imp_le_int eq_iff_diff_eq_0 abs_of_nat linorder_not_less of_nat_eq_iff)
qed

lemma near_enqueue_frame [simp]:
  "curBlock (near_enqueue B x c q) = curBlock q"
  "feMap (near_enqueue B x c q) = feMap q"
  "elems (near_enqueue B x c q) = elems q"
  by (simp_all add: near_enqueue_def Let_def)

lemma near_mset_enqueue:
  assumes "c div 64 \<in> {curBlock q..<curBlock q + B}"
  shows "near_mset B (near_enqueue B x c q) = add_mset (c, x) (near_mset B q)"
proof -
  have other: "blocks (near_enqueue B x c q) (b mod B) = blocks q (b mod B)"
    if "b \<in> {curBlock q..<curBlock q + B}" "b \<noteq> c div 64" for b
  proof -
    have "b mod B \<noteq> c div 64 mod B" using mod_window [OF assms that(1)] that(2) by auto
    then show ?thesis by (simp add: near_enqueue_def Let_def)
  qed
  have "c div 64 * 64 + c mod 64 = c" by simp
  then show ?thesis
    unfolding near_mset_def near_enqueue_frame
    by (intro sum_add_one [where a = "c div 64"])
      (use assms other in \<open>auto simp: near_enqueue_def Let_def chain_mset_enqueue\<close>)
qed

lemma blocks_ok_enqueue:
  "\<forall>i < B. block_ok (blocks q i) \<Longrightarrow> \<forall>i < B. block_ok (blocks (near_enqueue B x c q) i)"
  by (simp add: near_enqueue_def Let_def block_ok_enqueue)

lemma near_mset_cong: "blocks p = blocks q \<Longrightarrow> curBlock p = curBlock q \<Longrightarrow> near_mset B p = near_mset B q"
  by (simp add: near_mset_def)

lemma chain_mset_empty:
  assumes "block_ok blk" and "occ blk = 0"
  shows "chain_mset b blk = {#}"
  using assms by (simp add: chain_mset_def block_ok_def)

text \<open>The window moves past an empty block.\<close>

lemma near_mset_step:
  assumes "0 < B" and "\<forall>i < B. block_ok (blocks q i)" and "occ (blocks q (curBlock q mod B)) = 0"
  shows "near_mset B (q\<lparr>curBlock := curBlock q + 1\<rparr>) = near_mset B q"
proof -
  let ?f = "\<lambda>b. chain_mset b (blocks q (b mod B))" and ?c = "curBlock q"
  have e: "?f ?c = {#}" "?f (?c + B) = {#}"
    using assms chain_mset_empty [of "blocks q (?c mod B)"] by simp_all
  have "sum ?f {?c..<?c + B} = ?f ?c + sum ?f {Suc ?c..<?c + B}"
    using assms(1) by (subst sum.atLeast_Suc_lessThan) simp_all
  moreover have "sum ?f {Suc ?c..<Suc (?c + B)} = sum ?f {Suc ?c..<?c + B} + ?f (?c + B)"
    using assms(1) by (subst sum.atLeastLessThan_Suc) simp_all
  ultimately show ?thesis using e by (simp add: near_mset_def)
qed

lemma near_mset_mem:
  assumes "(c, x) \<in># near_mset B q" and "\<forall>i < B. block_ok (blocks q i)"
  shows "c div 64 \<in> {curBlock q..<curBlock q + B}
    \<and> bit (occ (blocks q (c div 64 mod B))) (c mod 64)"
proof -
  have "c div 64 \<in> {curBlock q..<curBlock q + B} \<and> pq_array (blocks q (c div 64 mod B)) (c mod 64) \<noteq> []"
    using assms(1) by (auto simp: near_mset_def chain_mset_def set_mset_sum)
  then show ?thesis using assms(2) by (auto simp: block_ok_def)
qed

lemma pq_move_ok:
  assumes "\<And>c x. (c, x) \<in> set fe \<Longrightarrow> c div 64 \<in> {curBlock q..<curBlock q + B}"
    and "\<forall>i < B. block_ok (blocks q i)"
  shows "\<exists>q'. pq_move B fe q = Inr q' \<and> curBlock q' = curBlock q \<and> feMap q' = feMap q
    \<and> elems q' = elems q \<and> near_mset B q' = mset fe + near_mset B q
    \<and> (\<forall>i < B. block_ok (blocks q' i))"
  using assms
proof (induction fe arbitrary: q)
  case (Cons e fe)
  obtain c x where e: "e = (c, x)" by (cases e)
  let ?q = "near_enqueue B x c q"
  have c: "c div 64 \<in> {curBlock q..<curBlock q + B}" using Cons.prems(1) [of c x] e by simp
  have "\<exists>q'. pq_move B fe ?q = Inr q' \<and> curBlock q' = curBlock ?q \<and> feMap q' = feMap ?q
    \<and> elems q' = elems ?q \<and> near_mset B q' = mset fe + near_mset B ?q
    \<and> (\<forall>i < B. block_ok (blocks q' i))"
    using Cons.prems by (intro Cons.IH blocks_ok_enqueue) auto
  then show ?case using c by (simp add: e near_mset_enqueue [OF c])
qed simp

lemma takeWhile_sorted:
  fixes n :: nat
  assumes "sorted (map fst xs)"
  shows "e \<in> set (takeWhile (\<lambda>e. fst e < n) xs) \<longleftrightarrow> e \<in> set xs \<and> fst e < n"
    and "e \<in> set (dropWhile (\<lambda>e. fst e < n) xs) \<longleftrightarrow> e \<in> set xs \<and> n \<le> fst e"
  using assms by (induction xs) auto

lemma pq_migrate_ok:
  assumes B: "2 \<le> B" and ok: "\<forall>i < B. block_ok (blocks q i)" "sorted (map fst (feMap q))"
    and far: "\<forall>(c, x) \<in> set (feMap q). (curBlock q - 1) div (B div 2) * (B div 2) + B \<le> c div 64"
    and pos: "0 < curBlock q" and n: "elems q = size (pq_mset B q)"
  shows "\<exists>q'. pq_migrate B q = Inr q' \<and> curBlock q' = curBlock q \<and> pq_mset B q' = pq_mset B q
    \<and> pq_inv B q'"
proof (cases "curBlock q mod (B div 2) = 0 \<and> feMap q \<noteq> []")
  case False
  have "curBlock q div (B div 2) * (B div 2) + B \<le> c div 64" if "(c, x) \<in> set (feMap q)" for c x
  proof -
    from False that have "curBlock q mod (B div 2) \<noteq> 0" by auto
    then have "(curBlock q - 1) div (B div 2) = curBlock q div (B div 2)"
      using pos by (metis Suc_pred' div_Suc)
    then show ?thesis using far that by auto
  qed
  then have "pq_inv B q" using ok n by (auto simp: pq_inv_def)
  with False show ?thesis by (auto simp: pq_migrate_def)
next
  case True
  let ?h = "B div 2" and ?top = "(curBlock q + B) * 64"
  let ?near = "takeWhile (\<lambda>e. fst e < ?top) (feMap q)" and ?far = "dropWhile (\<lambda>e. fst e < ?top) (feMap q)"
  have h: "0 < ?h" "?h \<le> B" using B by simp_all
  from True have "?h dvd curBlock q" by (simp add: dvd_eq_mod_eq_0)
  then obtain k where "curBlock q = ?h * k" by (rule dvdE)
  moreover from this pos obtain m where "k = Suc m" by (cases k) simp_all
  ultimately have k: "curBlock q = ?h * Suc m" by simp
  have "(curBlock q - 1) div ?h = m" by (rule div_nat_eqI) (use k h in simp_all)
  then have "m * ?h + B \<le> c div 64" if "(c, x) \<in> set (feMap q)" for c x
    using far that by auto
  moreover have "curBlock q \<le> m * ?h + B" using k h by (simp add: mult.commute)
  ultimately have low: "curBlock q \<le> c div 64" if "(c, x) \<in> set (feMap q)" for c x
    using that le_trans by blast
  have in_window: "c div 64 \<in> {curBlock q..<curBlock q + B}" if "(c, x) \<in> set ?near" for c x
    using that takeWhile_sorted(1) [OF ok(2), of "(c, x)" ?top] low by (auto simp: div_less_iff_less_mult)
  obtain q1 where
    q1: "pq_move B ?near q = Inr q1" "curBlock q1 = curBlock q" "feMap q1 = feMap q" "elems q1 = elems q"
      "near_mset B q1 = mset ?near + near_mset B q" "\<forall>i < B. block_ok (blocks q1 i)"
    using pq_move_ok [of ?near q B] in_window ok(1) by blast
  let ?q = "q1\<lparr>feMap := ?far\<rparr>"
  have "mset ?near + mset ?far = mset (feMap q)" by (metis mset_append takeWhile_dropWhile_id)
  then have ms: "pq_mset B ?q = pq_mset B q"
    using q1(5) near_mset_cong [of ?q q1 B] by (simp add: pq_mset_def ac_simps)
  have "curBlock q div ?h * ?h + B \<le> c div 64" if "(c, x) \<in> set ?far" for c x
    using that takeWhile_sorted(2) [OF ok(2), of "(c, x)" ?top] k h
    by (simp add: less_eq_div_iff_mult_less_eq mult.commute)
  moreover have "sorted (map fst ?far)"
    using ok(2) by (metis sorted_append map_append takeWhile_dropWhile_id)
  ultimately have "pq_inv B ?q" using q1 ms n by (auto simp: pq_inv_def)
  with True q1 ms show ?thesis by (simp add: pq_migrate_def)
qed

lemma pq_inv_far:
  assumes "pq_inv B q" and "2 \<le> B" and "(c, x) \<in> set (feMap q)"
  shows "curBlock q + B \<le> c div 64 + B div 2 \<and> curBlock q < c div 64"
proof -
  let ?h = "B div 2"
  have "curBlock q div ?h * ?h + curBlock q mod ?h = curBlock q" by (rule div_mult_mod_eq)
  moreover have "curBlock q mod ?h < ?h" using assms(2) by simp
  moreover have "curBlock q div ?h * ?h + B \<le> c div 64" using assms(1,3) by (auto simp: pq_inv_def)
  ultimately show ?thesis using assms(2) by linarith
qed

lemma pq_mset_near:
  assumes "pq_inv B q" and "(c, x) \<in># near_mset B q"
  shows "c div 64 \<in> {curBlock q..<curBlock q + B}
    \<and> bit (occ (blocks q (c div 64 mod B))) (c mod 64)"
  using near_mset_mem [OF assms(2)] assms(1) by (simp add: pq_inv_def)

lemma pq_mset_window:
  assumes "pq_inv B q" and "2 \<le> B" and "(c, x) \<in># pq_mset B q"
  shows "curBlock q \<le> c div 64"
  using assms(3) pq_mset_near [OF assms(1)] pq_inv_far [OF assms(1,2)]
  by (fastforce simp: pq_mset_def)

text \<open>The search for the first populated block ends when the queue is not empty.\<close>

lemma pq_advance_ok:
  assumes "2 \<le> B" and "pq_inv B q" and "(c, x) \<in># pq_mset B q"
  shows "\<exists>q'. pq_advance B q = Some (Inr q') \<and> pq_inv B q' \<and> pq_mset B q' = pq_mset B q
    \<and> occ (blocks q' (curBlock q' mod B)) \<noteq> 0"
  using assms(2,3)
proof (induction "c div 64 - curBlock q" arbitrary: q rule: less_induct)
  case less
  show ?case
  proof (cases "occ (blocks q (curBlock q mod B)) = 0")
    case False
    then show ?thesis using less.prems by (subst pq_advance.simps) simp
  next
    case True
    let ?q = "q\<lparr>curBlock := curBlock q + 1\<rparr>"
    have ok: "\<forall>i < B. block_ok (blocks q i)" using less.prems(1) by (simp add: pq_inv_def)
    have near: "near_mset B ?q = near_mset B q" using assms(1) by (intro near_mset_step ok True) simp
    then have ms: "pq_mset B ?q = pq_mset B q" by (simp add: pq_mset_def)
    have "elems ?q = size (pq_mset B ?q)" using less.prems(1) ms by (simp add: pq_inv_def)
    then obtain q' where q': "pq_migrate B ?q = Inr q'" "curBlock q' = curBlock q + 1"
      "pq_mset B q' = pq_mset B q" "pq_inv B q'"
      using pq_migrate_ok [OF assms(1), of ?q] less.prems(1) ms by (auto simp: pq_inv_def)
    have "curBlock q < c div 64"
    proof -
      have "bit (occ (blocks q (c div 64 mod B))) (c mod 64)" if "(c, x) \<in># near_mset B q"
        using pq_mset_near [OF less.prems(1) that] by simp
      then show ?thesis
        using pq_mset_window [OF less.prems(1) assms(1) less.prems(2)] less.prems(2) True
          pq_inv_far [OF less.prems(1) assms(1)]
        by (fastforce simp: pq_mset_def le_less)
    qed
    then have "\<exists>p. pq_advance B q' = Some (Inr p) \<and> pq_inv B p \<and> pq_mset B p = pq_mset B q'
        \<and> occ (blocks p (curBlock p mod B)) \<noteq> 0"
      using q' less.prems(2) by (intro less.hyps) simp_all
    then show ?thesis using True q' by (subst pq_advance.simps) simp
  qed
qed

lemma pq_inv_init: "pq_inv B pq_init"
  by (simp add: pq_inv_def pq_init_def block_empty_def block_ok_def pq_mset_def near_mset_def chain_mset_def)

lemma pq_enqueue_ok:
  assumes "2 \<le> B" and "pq_inv B q" and "curBlock q \<le> cycle div 64"
  shows "\<exists>q'. pq_enqueue B x cycle q = Inr q' \<and> pq_inv B q'
    \<and> pq_mset B q' = add_mset (cycle, x) (pq_mset B q) \<and> curBlock q' = curBlock q"
proof (cases "cycle div 64 < curBlock q + B")
  case True
  let ?q = "(near_enqueue B x cycle q)\<lparr>elems := elems q + 1\<rparr>"
  have "near_mset B ?q = add_mset (cycle, x) (near_mset B q)"
    using near_mset_enqueue [of cycle q B x] near_mset_cong [of ?q "near_enqueue B x cycle q" B] True assms(3)
    by simp
  then show ?thesis
    using assms blocks_ok_enqueue [of B q x cycle] True
    by (simp add: pq_enqueue_def pq_inv_def pq_mset_def)
next
  case False
  let ?q = "q\<lparr>feMap := mm_insert cycle x (feMap q), elems := elems q + 1\<rparr>"
  have "near_mset B ?q = near_mset B q" by (rule near_mset_cong) simp_all
  moreover have "curBlock q div (B div 2) * (B div 2) + B \<le> cycle div 64"
  proof -
    have "curBlock q div (B div 2) * (B div 2) \<le> curBlock q" by simp
    then show ?thesis using False by linarith
  qed
  ultimately show ?thesis
    using assms False by (auto simp: pq_enqueue_def pq_inv_def pq_mset_def sorted_mm_insert)
qed

lemma near_mset_upd:
  assumes "b \<in> {curBlock q..<curBlock q + B}"
    and "chain_mset b (blocks q (b mod B)) = add_mset e (chain_mset b blk)"
  shows "near_mset B q = add_mset e (near_mset B (q\<lparr>blocks := (blocks q)(b mod B := blk)\<rparr>))"
proof -
  have "b' mod B \<noteq> b mod B" if "b' \<in> {curBlock q..<curBlock q + B}" "b' \<noteq> b" for b'
    using mod_window [OF assms(1) that(1)] that(2) by auto
  moreover have "near_mset B (q\<lparr>blocks := (blocks q)(b mod B := blk)\<rparr>) =
      (\<Sum>b' \<in> {curBlock q..<curBlock q + B}. chain_mset b' (((blocks q)(b mod B := blk)) (b' mod B)))"
    by (simp add: near_mset_def)
  ultimately show ?thesis
    unfolding near_mset_def by (simp only:) (rule sum_add_one [where a = b]; use assms in auto)
qed

text \<open>
  An element of the blocks is not before the first set bit of the first populated block, and
  that bit is an element.
\<close>

lemma block_first_le:
  assumes "builtin_ctz (occ (blocks q ((curBlock q + i) mod B))) < 64"
    and "curBlock q + i < c div 64 \<or> curBlock q + i = c div 64
      \<and> builtin_ctz (occ (blocks q ((curBlock q + i) mod B))) \<le> c mod 64"
  shows "block_first B q i \<le> c"
proof -
  from assms(2) show ?thesis
  proof (elim disjE conjE)
    assume "curBlock q + i < c div 64"
    then have "Suc (curBlock q + i) * 64 \<le> c div 64 * 64" by (intro mult_le_mono1) simp
    also have "\<dots> \<le> c" by simp
    finally show ?thesis using assms(1) unfolding block_first_def by simp
  next
    assume eq: "curBlock q + i = c div 64"
      and le: "builtin_ctz (occ (blocks q ((curBlock q + i) mod B))) \<le> c mod 64"
    have "block_first B q i \<le> c div 64 * 64 + c mod 64"
      unfolding block_first_def eq using le unfolding eq by (intro add_left_mono)
    also have "\<dots> = c" by (rule div_mult_mod_eq)
    finally show ?thesis .
  qed
qed

lemma near_first_le:
  assumes inv: "pq_inv B q" and e: "(c, x) \<in># near_mset B q"
    and i: "\<And>j. j < i \<Longrightarrow> occ (blocks q ((curBlock q + j) mod B)) = 0"
      "occ (blocks q ((curBlock q + i) mod B)) \<noteq> 0"
  shows "block_first B q i \<le> c"
proof -
  note ctz = builtin_ctz_bit [OF i(2)] and near = pq_mset_near [OF inv e]
  have "\<not> c div 64 < curBlock q + i"
  proof
    assume lt: "c div 64 < curBlock q + i"
    then have "c div 64 = curBlock q + (c div 64 - curBlock q)" using near by simp
    with i(1) [of "c div 64 - curBlock q"] lt near show False by auto
  qed
  moreover have "builtin_ctz (occ (blocks q ((curBlock q + i) mod B))) \<le> c mod 64"
    if "curBlock q + i = c div 64"
    using that near ctz by (metis linorder_not_le)
  ultimately show ?thesis using ctz by (intro block_first_le) auto
qed

lemma near_first_mem:
  assumes inv: "pq_inv B q" and i: "i < B" "occ (blocks q ((curBlock q + i) mod B)) \<noteq> 0"
  shows "\<exists>x. (block_first B q i, x) \<in># near_mset B q"
proof -
  let ?b = "curBlock q + i"
  let ?k = "builtin_ctz (occ (blocks q (?b mod B)))"
  have "block_ok (blocks q (?b mod B))" using inv i(1) by (simp add: pq_inv_def)
  then have "pq_array (blocks q (?b mod B)) ?k \<noteq> []" "?k < 64"
    using builtin_ctz_bit [OF i(2)] by (auto simp: block_ok_def)
  then obtain x where "x \<in> set (pq_array (blocks q (?b mod B)) ?k)" by (metis list.set_sel(1))
  with \<open>?k < 64\<close> have "(?b * 64 + ?k, x) \<in># chain_mset ?b (blocks q (?b mod B))"
    by (auto simp: chain_mset_def set_mset_sum)
  then have "(?b * 64 + ?k, x) \<in># near_mset B q"
    using i(1) by (auto simp: near_mset_def set_mset_sum)
  then show ?thesis unfolding block_first_def by blast
qed

lemma pq_first_le:
  assumes inv: "pq_inv B q" and B: "2 \<le> B" and e: "(c, x) \<in># pq_mset B q"
    and i: "i < B div 2" "\<And>j. j < i \<Longrightarrow> occ (blocks q ((curBlock q + j) mod B)) = 0"
      "occ (blocks q ((curBlock q + i) mod B)) \<noteq> 0"
  shows "block_first B q i \<le> c"
proof (cases "(c, x) \<in># near_mset B q")
  case False
  then have "(c, x) \<in> set (feMap q)" using e by (auto simp: pq_mset_def)
  from pq_inv_far [OF inv B this] i(1) have "curBlock q + i < c div 64" by linarith
  then show ?thesis using builtin_ctz_bit [OF i(3)] by (intro block_first_le) auto
qed (rule near_first_le [OF inv _ i(2,3)])

lemma pq_dequeue_ok:
  assumes "2 \<le> B" and "pq_inv B q" and "pq_mset B q \<noteq> {#}"
  shows "\<exists>x c q'. pq_dequeue B q = Inr (x, c, q') \<and> pq_inv B q'
    \<and> pq_mset B q = add_mset (c, x) (pq_mset B q') \<and> (\<forall>(d, y) \<in># pq_mset B q. c \<le> d)
    \<and> curBlock q' = c div 64"
proof -
  obtain e0 where "e0 \<in># pq_mset B q" using assms(3) by blast
  then obtain c0 x0 where e0: "(c0, x0) \<in># pq_mset B q" by (cases e0) auto
  obtain p where p: "pq_advance B q = Some (Inr p)" "pq_inv B p" "pq_mset B p = pq_mset B q"
    "occ (blocks p (curBlock p mod B)) \<noteq> 0"
    using pq_advance_ok [OF assms(1,2) e0] by blast
  let ?i = "curBlock p mod B"
  have "block_ok (blocks p ?i)" using p(2) assms(1) by (simp add: pq_inv_def)
  then obtain x pos blk where blk: "block_dequeue (blocks p ?i) = Inr (x, pos, blk)" "pos < 64"
    "pos = builtin_ctz (occ (blocks p ?i))" "block_ok blk"
    by (rule block_ok_dequeue [OF _ p(4)])
  let ?c = "curBlock p * 64 + pos"
  let ?p = "p\<lparr>blocks := (blocks p)(?i := blk), elems := elems p - 1\<rparr>"
  have "near_mset B p = add_mset (?c, x) (near_mset B (p\<lparr>blocks := (blocks p)(?i := blk)\<rparr>))"
    using chain_mset_dequeue [OF blk(1,2)] assms(1) by (intro near_mset_upd) simp_all
  then have ms: "pq_mset B p = add_mset (?c, x) (pq_mset B ?p)"
    using near_mset_cong [of ?p "p\<lparr>blocks := (blocks p)(?i := blk)\<rparr>" B] by (simp add: pq_mset_def)
  have "elems q = size (pq_mset B q)" "elems p = size (pq_mset B p)"
    using assms(2) p(2) by (simp_all add: pq_inv_def)
  then have ne: "elems q \<noteq> 0" and "elems ?p = size (pq_mset B ?p)" using assms(3) ms by simp_all
  then have inv: "pq_inv B ?p" using p(2) blk(4) by (simp add: pq_inv_def)
  have "?c \<le> d" if "(d, y) \<in># pq_mset B q" for d y
    using pq_first_le [OF p(2) assms(1), of d y 0] that p(3,4) blk(3) assms(1)
    by (simp add: block_first_def)
  moreover have "pq_dequeue B q = Inr (x, ?c, ?p)"
    using ne p(1) blk(1) by (simp add: pq_dequeue_def Let_def)
  moreover have "curBlock ?p = ?c div 64" using blk(2) by simp
  ultimately show ?thesis using inv ms p(3) by (intro exI [of _ x] exI [of _ ?c] exI [of _ ?p]) auto
qed

lemma feMap_min:
  assumes "pq_inv B q" and "feMap q \<noteq> []"
  shows "\<exists>x. (fst (hd (feMap q)), x) \<in> set (feMap q)" and "(c, x) \<in> set (feMap q) \<Longrightarrow> fst (hd (feMap q)) \<le> c"
  using assms by (cases "feMap q"; force simp: pq_inv_def)+

lemma pq_firstCycle_ok:
  assumes B: "2 \<le> B" and inv: "pq_inv B q" and ne: "pq_mset B q \<noteq> {#}"
  shows "\<exists>m. pq_firstCycle B q = Inr m \<and> (\<exists>x. (m, x) \<in># pq_mset B q)
    \<and> (\<forall>(c, x) \<in># pq_mset B q. m \<le> c)"
proof -
  let ?P = "\<lambda>i. occ (blocks q ((curBlock q + i) mod B)) \<noteq> 0"
  have n: "elems q \<noteq> 0" using inv ne by (simp add: pq_inv_def)
  show ?thesis
  proof (cases "List.find ?P [0..<B div 2]")
    case (Some i)
    with find_upt_Some [OF Some] have i: "i < B div 2" "?P i" "\<And>j. j < i \<Longrightarrow> \<not> ?P j" by auto
    have "\<exists>x. (block_first B q i, x) \<in># pq_mset B q"
    proof -
      have "i < B" using i(1) div_le_dividend [of B 2] by linarith
      from near_first_mem [OF inv this i(2)] show ?thesis by (auto simp: pq_mset_def)
    qed
    moreover have "block_first B q i \<le> c" if "(c, x) \<in># pq_mset B q" for c x
      using pq_first_le [OF inv B that i(1) _ i(2)] i(3) by blast
    ultimately show ?thesis using n Some by (auto simp: pq_firstCycle_def Let_def)
  next
    case None
    then have no: "\<not> ?P j" if "j < B div 2" for j using that by (auto simp: find_None_iff)
    show ?thesis
    proof (cases "List.find ?P [B div 2..<B]")
      case (Some i)
      with find_upt_Some [OF Some] have i: "i < B" "?P i" "\<And>j. B div 2 \<le> j \<Longrightarrow> j < i \<Longrightarrow> \<not> ?P j" by auto
      have first: "\<not> ?P j" if "j < i" for j using no i(3) that by (cases "j < B div 2") auto
      let ?m = "if feMap q = [] then block_first B q i else min (block_first B q i) (fst (hd (feMap q)))"
      have "\<exists>x. (?m, x) \<in># pq_mset B q"
        using near_first_mem [OF inv i(1,2)] feMap_min(1) [OF inv] by (auto simp: pq_mset_def min_def)
      moreover have "?m \<le> c" if "(c, x) \<in># pq_mset B q" for c x
        using that near_first_le [OF inv, of c x i] first i(2) feMap_min(2) [OF inv, of c x]
        by (fastforce simp: pq_mset_def min_le_iff_disj)
      ultimately show ?thesis using n None Some by (auto simp: pq_firstCycle_def Let_def)
    next
      case none: None
      have all: "\<not> ?P j" if "j < B" for j using no none that by (cases "j < B div 2") (auto simp: find_None_iff)
      have near: "near_mset B q = {#}"
      proof (rule ccontr)
        assume "near_mset B q \<noteq> {#}"
        then obtain e where "e \<in># near_mset B q" by blast
        then obtain c x where "(c, x) \<in># near_mset B q" by (cases e) auto
        from pq_mset_near [OF inv this] all [of "c div 64 - curBlock q"] show False by auto
      qed
      then have fe: "feMap q \<noteq> []" using ne by (auto simp: pq_mset_def)
      show ?thesis
        using n None none near feMap_min [OF inv fe] by (auto simp: pq_firstCycle_def Let_def pq_mset_def)
    qed
  qed
qed

subsection \<open>The contract of a cycle queue\<close>

text \<open>
  What the contention simulation relies on: a queue is a multiset of cycles and objects, and
  \<open>dequeue\<close> removes an element of the smallest cycle. \<open>horizon\<close> is the cycle before which no
  element may be added any more.
\<close>

locale cycle_queue =
  fixes enq :: "'a \<Rightarrow> nat \<Rightarrow> 'q \<Rightarrow> 'q res"
    and deq :: "'q \<Rightarrow> ('a \<times> nat \<times> 'q) res"
    and inv :: "'q \<Rightarrow> bool"
    and content :: "'q \<Rightarrow> (nat \<times> 'a) multiset"
    and horizon :: "'q \<Rightarrow> nat"
  assumes enq_ok: "inv q \<Longrightarrow> horizon q \<le> c \<Longrightarrow>
      \<exists>q'. enq x c q = Inr q' \<and> inv q' \<and> content q' = add_mset (c, x) (content q) \<and> horizon q' = horizon q"
    and deq_ok: "inv q \<Longrightarrow> content q \<noteq> {#} \<Longrightarrow>
      \<exists>x c q'. deq q = Inr (x, c, q') \<and> inv q' \<and> content q = add_mset (c, x) (content q')
        \<and> (\<forall>(d, y) \<in># content q. c \<le> d) \<and> horizon q' \<le> c"
begin

text \<open>\<open>n\<close> dequeues in a row.\<close>

fun drain :: "nat \<Rightarrow> 'q \<Rightarrow> (nat \<times> 'a) list res" where
  "drain 0 q = Inr []"
| "drain (Suc n) q = rbind (deq q) (\<lambda>(x, c, q'). rbind (drain n q') (\<lambda>es. Inr ((c, x) # es)))"

lemma drain_sorted:
  "inv q \<Longrightarrow> size (content q) = n \<Longrightarrow>
     \<exists>es. drain n q = Inr es \<and> mset es = content q \<and> sorted (map fst es)"
proof (induction n arbitrary: q)
  case (Suc n)
  from Suc.prems have "content q \<noteq> {#}" by auto
  from deq_ok [OF Suc.prems(1) this] obtain x c q' where
    d: "deq q = Inr (x, c, q')" "inv q'" "content q = add_mset (c, x) (content q')"
      "\<forall>(d, y) \<in># content q. c \<le> d" by blast
  then have "size (content q') = n" using Suc.prems(2) by simp
  from Suc.IH [OF d(2) this] obtain es where
    es: "drain n q' = Inr es" "mset es = content q'" "sorted (map fst es)" by blast
  have "c \<le> d" if "(d, y) \<in> set es" for d y
    using that d(3,4) es(2) by (auto simp flip: set_mset_mset)
  then show ?case using d es by (intro exI [of _ "(c, x) # es"]) auto
qed simp

end

interpretation pq: cycle_queue "pq_enqueue (Suc (Suc k))" "pq_dequeue (Suc (Suc k))"
  "pq_inv (Suc (Suc k))" "pq_mset (Suc (Suc k))" "\<lambda>q. curBlock q * 64" for k
proof unfold_locales
  fix q :: "'a prio_queue" and c x
  assume "pq_inv (Suc (Suc k)) q" and "curBlock q * 64 \<le> c"
  then show "\<exists>q'. pq_enqueue (Suc (Suc k)) x c q = Inr q' \<and> pq_inv (Suc (Suc k)) q'
      \<and> pq_mset (Suc (Suc k)) q' = add_mset (c, x) (pq_mset (Suc (Suc k)) q)
      \<and> curBlock q' * 64 = curBlock q * 64"
    using pq_enqueue_ok [of "Suc (Suc k)" q c x] by (auto simp: less_eq_div_iff_mult_less_eq)
next
  fix q :: "'a prio_queue"
  assume "pq_inv (Suc (Suc k)) q" and "pq_mset (Suc (Suc k)) q \<noteq> {#}"
  from pq_dequeue_ok [OF _ this] obtain x c q' where
    "pq_dequeue (Suc (Suc k)) q = Inr (x, c, q')" "pq_inv (Suc (Suc k)) q'"
    "pq_mset (Suc (Suc k)) q = add_mset (c, x) (pq_mset (Suc (Suc k)) q')"
    "\<forall>(d, y) \<in># pq_mset (Suc (Suc k)) q. c \<le> d" "curBlock q' = c div 64" by auto
  moreover have "c div 64 * 64 \<le> c" by simp
  ultimately show "\<exists>x c q'. pq_dequeue (Suc (Suc k)) q = Inr (x, c, q') \<and> pq_inv (Suc (Suc k)) q'
      \<and> pq_mset (Suc (Suc k)) q = add_mset (c, x) (pq_mset (Suc (Suc k)) q')
      \<and> (\<forall>(d, y) \<in># pq_mset (Suc (Suc k)) q. c \<le> d) \<and> curBlock q' * 64 \<le> c"
    by metis
qed

subsection \<open>Properties\<close>

fun pq_enqueue_all :: "nat \<Rightarrow> (nat \<times> 'a) list \<Rightarrow> 'a prio_queue \<Rightarrow> 'a prio_queue res" where
  "pq_enqueue_all B [] q = Inr q"
| "pq_enqueue_all B ((c, x) # es) q = rbind (pq_enqueue B x c q) (pq_enqueue_all B es)"

fun pq_drain :: "nat \<Rightarrow> nat \<Rightarrow> 'a prio_queue \<Rightarrow> (nat \<times> 'a) list res" where
  "pq_drain B 0 q = Inr []"
| "pq_drain B (Suc n) q =
    rbind (pq_dequeue B q) (\<lambda>(x, c, q'). rbind (pq_drain B n q') (\<lambda>es. Inr ((c, x) # es)))"

lemma pq_drain_eq: "pq_drain (Suc (Suc k)) n q = pq.drain k n q"
  by (induction n arbitrary: q) (simp_all add: split_def)

lemma pq_enqueue_all_ok:
  assumes "2 \<le> B"
  shows "pq_inv B q \<Longrightarrow> curBlock q = 0 \<Longrightarrow>
    \<exists>q'. pq_enqueue_all B es q = Inr q' \<and> pq_inv B q' \<and> pq_mset B q' = mset es + pq_mset B q"
proof (induction es arbitrary: q)
  case (Cons e es)
  obtain c x where e: "e = (c, x)" by (cases e)
  from pq_enqueue_ok [OF assms Cons.prems(1), of c x] Cons.prems(2) obtain q1 where
    "pq_enqueue B x c q = Inr q1" "pq_inv B q1" "pq_mset B q1 = add_mset (c, x) (pq_mset B q)"
    "curBlock q1 = 0" by auto
  with Cons.IH [of q1] show ?case by (auto simp: e)
qed simp



text \<open>
  \<open>firstCycle\<close> gives the cycle that the next \<open>dequeue\<close> returns, also when the earliest
  event is still in the far map.
\<close>

theorem pq_firstCycle_is_next:
  assumes "2 \<le> B" and "pq_inv B q" and "pq_mset B q \<noteq> {#}"
  shows "\<exists>c x q'. pq_firstCycle B q = Inr c \<and> pq_dequeue B q = Inr (x, c, q') \<and> pq_inv B q'
    \<and> pq_mset B q = add_mset (c, x) (pq_mset B q')"
proof -
  from pq_firstCycle_ok [OF assms] obtain m y where
    m: "pq_firstCycle B q = Inr m" "(m, y) \<in># pq_mset B q" "\<forall>(c, x) \<in># pq_mset B q. m \<le> c" by blast
  from pq_dequeue_ok [OF assms] obtain x c q' where
    d: "pq_dequeue B q = Inr (x, c, q')" "pq_inv B q'" "pq_mset B q = add_mset (c, x) (pq_mset B q')"
      "\<forall>(d, y) \<in># pq_mset B q. c \<le> d" by blast
  have "(c, x) \<in># pq_mset B q" by (simp add: d(3))
  then have "c = m" using m d(4) by (force intro: antisym)
  with m d show ?thesis by blast
qed

theorem pq_firstCycle_is_next_witness:
  "\<exists>q c x q'. pq_enqueue_all 4 [(700, ''c''), (300, ''b'')] pq_init = Inr q
    \<and> pq_firstCycle 4 q = Inr c \<and> pq_dequeue 4 q = Inr (x, c, q')"
proof -
  obtain q where q: "pq_enqueue_all 4 [(700, ''c''), (300, ''b'')] pq_init = Inr q" "pq_inv 4 q"
    "pq_mset 4 q = mset [(700, ''c''), (300, ''b'')] + pq_mset 4 (pq_init :: string prio_queue)"
    using pq_enqueue_all_ok [of 4 pq_init "[(700, ''c''), (300, ''b'')]"] pq_inv_init
    by (auto simp: pq_init_def)
  then show ?thesis using pq_firstCycle_is_next [of 4 q] by auto
qed

end
