(* ===== verification/EventQueue.thy ===== *)
theory EventQueue
  imports PrioQueue
begin

section \<open>Phase events\<close>

text \<open>
  event_queue.h. An event has a state \<open>'e\<close>, a period and a callback that may change both and
  the state \<open>'w\<close> of the simulator. The queue is a multimap from phases to events; \<open>curPhase\<close>
  is \<open>zinfo->numPhases\<close>. The lock of the queue is not modelled: \<open>tick\<close> and \<open>insert\<close> hold it
  throughout, so they run one at a time.
\<close>

subsection \<open>The queue\<close>

partial_function (option) eq_tick :: "('e \<Rightarrow> 'w \<Rightarrow> 'e \<times> 'w) \<Rightarrow> ('e \<Rightarrow> u64) \<Rightarrow> u64 \<Rightarrow>
    (u64 \<times> 'e) list \<Rightarrow> 'w \<Rightarrow> ((u64 \<times> 'e) list \<times> 'w) res option" where
  "eq_tick callback getPeriod curPhase evMap w =
     (case evMap of
        [] \<Rightarrow> Some (Inr (evMap, w))
      | (k, ev) # rest \<Rightarrow>
          if k \<le> curPhase then
            if k \<noteq> curPhase then Some (Inl Panic)
            else let (ev1, w1) = callback ev w in
              eq_tick callback getPeriod curPhase
                (if getPeriod ev1 \<noteq> 0 then mm_insert (curPhase + getPeriod ev1) ev1 rest else rest) w1
          else Some (Inr (evMap, w)))"

definition eq_insert :: "('e \<Rightarrow> u64) \<Rightarrow> u64 \<Rightarrow> 'e \<Rightarrow> u64 \<Rightarrow> (u64 \<times> 'e) list \<Rightarrow> (u64 \<times> 'e) list res" where
  "eq_insert getPeriod curPhase ev startDelay evMap =
     (let eventPhase = (if startDelay = - 1 then curPhase + getPeriod ev else curPhase + startDelay)
      in assert_then (curPhase \<le> eventPhase) (Inr (mm_insert eventPhase ev evMap)))"

text \<open>What a tick should do: fire the events of this phase in order and re-arm the periodic ones.\<close>

fun eq_fire :: "('e \<Rightarrow> 'w \<Rightarrow> 'e \<times> 'w) \<Rightarrow> ('e \<Rightarrow> u64) \<Rightarrow> u64 \<Rightarrow> 'e list \<Rightarrow> (u64 \<times> 'e) list \<Rightarrow> 'w \<Rightarrow>
    (u64 \<times> 'e) list \<times> 'w" where
  "eq_fire callback getPeriod cur [] later w = (later, w)"
| "eq_fire callback getPeriod cur (ev # evs) later w =
    (let (ev1, w1) = callback ev w in
     eq_fire callback getPeriod cur evs
       (if getPeriod ev1 \<noteq> 0 then mm_insert (cur + getPeriod ev1) ev1 later else later) w1)"

definition due :: "u64 \<Rightarrow> (u64 \<times> 'e) list \<Rightarrow> 'e list" where
  "due cur evMap = map snd (takeWhile (\<lambda>e. fst e = cur) evMap)"

definition later :: "u64 \<Rightarrow> (u64 \<times> 'e) list \<Rightarrow> (u64 \<times> 'e) list" where
  "later cur evMap = dropWhile (\<lambda>e. fst e = cur) evMap"

text \<open>Nothing was missed: no event is waiting for an earlier phase.\<close>

definition eq_inv :: "u64 \<Rightarrow> (u64 \<times> 'e) list \<Rightarrow> bool" where
  "eq_inv cur evMap \<longleftrightarrow> sorted (map fst evMap) \<and> (\<forall>e \<in> set evMap. cur \<le> fst e)"

lemma mm_insert_behind:
  fixes cur :: "'k::linorder"
  shows "cur < k \<Longrightarrow> mm_insert k v (map (Pair cur) es @ xs) = map (Pair cur) es @ mm_insert k v xs"
  by (induction es) auto

lemma eq_tick_fires:
  assumes "\<And>e. e \<in> set rest \<Longrightarrow> cur < fst e"
    and arm: "\<And>e w. getPeriod (fst (callback e w)) \<noteq> 0 \<Longrightarrow> cur < cur + getPeriod (fst (callback e w))"
  shows "eq_tick callback getPeriod cur (map (Pair cur) evs @ rest) w
    = Some (Inr (eq_fire callback getPeriod cur evs rest w))"
  using assms(1)
proof (induction evs arbitrary: rest w)
  case Nil
  then show ?case by (subst eq_tick.simps) (fastforce split: list.split)
next
  case (Cons ev evs)
  obtain ev1 w1 where cb: "callback ev w = (ev1, w1)" by (cases "callback ev w")
  let ?rest = "if getPeriod ev1 \<noteq> 0 then mm_insert (cur + getPeriod ev1) ev1 rest else rest"
  have lt: "getPeriod ev1 \<noteq> 0 \<Longrightarrow> cur < cur + getPeriod ev1" using arm [of ev w] cb by simp
  have "cur < fst e" if "e \<in> set ?rest" for e
  proof -
    have "e \<in> set rest \<or> getPeriod ev1 \<noteq> 0 \<and> fst e = cur + getPeriod ev1"
      using that by (auto split: if_splits)
    then show ?thesis using Cons.prems [of e] lt by auto
  qed
  then have "eq_tick callback getPeriod cur (map (Pair cur) evs @ ?rest) w1
      = Some (Inr (eq_fire callback getPeriod cur evs ?rest w1))"
    by (rule Cons.IH)
  then show ?case using lt
    by (subst eq_tick.simps) (simp add: cb mm_insert_behind split: if_splits)
qed

lemma eq_fire_later:
  assumes "\<And>e. e \<in> set rest \<Longrightarrow> cur < fst e" and "sorted (map fst rest)"
    and "\<And>e w. getPeriod (fst (callback e w)) \<noteq> 0 \<Longrightarrow> cur < cur + getPeriod (fst (callback e w))"
  shows "sorted (map fst (fst (eq_fire callback getPeriod cur evs rest w)))
    \<and> (\<forall>e \<in> set (fst (eq_fire callback getPeriod cur evs rest w)). cur < fst e)"
  using assms(1,2)
proof (induction evs arbitrary: rest w)
  case (Cons ev evs)
  obtain ev1 w1 where cb: "callback ev w = (ev1, w1)" by (cases "callback ev w")
  let ?rest = "if getPeriod ev1 \<noteq> 0 then mm_insert (cur + getPeriod ev1) ev1 rest else rest"
  have lt: "getPeriod ev1 \<noteq> 0 \<Longrightarrow> cur < cur + getPeriod ev1" using assms(3) [of ev w] cb by simp
  have "\<And>e. e \<in> set ?rest \<Longrightarrow> cur < fst e" "sorted (map fst ?rest)"
    using Cons.prems lt by (auto simp: sorted_mm_insert split: if_splits)
  from Cons.IH [OF this] show ?case by (simp add: cb)
qed auto

lemma due_later_split:
  assumes "eq_inv cur evMap"
  shows "evMap = map (Pair cur) (due cur evMap) @ later cur evMap"
    and "e \<in> set (later cur evMap) \<Longrightarrow> cur < fst e" and "sorted (map fst (later cur evMap))"
proof -
  show split: "evMap = map (Pair cur) (due cur evMap) @ later cur evMap"
    by (induction evMap) (auto simp: due_def later_def)
  show sorted: "sorted (map fst (later cur evMap))"
    using assms split unfolding eq_inv_def by (metis sorted_append map_append)
  assume e: "e \<in> set (later cur evMap)"
  then obtain d ds where ds: "later cur evMap = d # ds" by (cases "later cur evMap") auto
  have "fst d \<noteq> cur" using ds hd_dropWhile [of "\<lambda>e. fst e = cur" evMap] by (simp add: later_def)
  moreover have "d \<in> set evMap" using split ds by (metis list.set_intros(1) Un_iff set_append)
  ultimately have "cur < fst d" using assms by (auto simp: eq_inv_def order.strict_iff_order)
  also have "fst d \<le> fst e" using sorted e ds by auto
  finally show "cur < fst e" .
qed

lemma eq_inv_next:
  assumes "sorted (map fst evMap)" and "\<forall>e \<in> set evMap. cur < fst e"
  shows "eq_inv (cur + 1) evMap"
  using assms by (auto simp: eq_inv_def inc_le)

text \<open>
  C25. A tick at phase \<open>cur\<close> returns, calls exactly the events that are due, in order, re-arms
  the periodic ones, and leaves no event of an earlier phase behind, so the panic of the next
  phase's tick cannot happen.
\<close>

theorem tick_fires_due_events:
  assumes "eq_inv cur evMap"
    and "\<And>e w. getPeriod (fst (callback e w)) \<noteq> 0 \<Longrightarrow> cur < cur + getPeriod (fst (callback e w))"
  shows "\<exists>evMap' w'. eq_tick callback getPeriod cur evMap w = Some (Inr (evMap', w'))
    \<and> (evMap', w') = eq_fire callback getPeriod cur (due cur evMap) (later cur evMap) w
    \<and> eq_inv (cur + 1) evMap'"
proof -
  note split = due_later_split [OF assms(1)]
  obtain evMap' w' where fire:
    "eq_fire callback getPeriod cur (due cur evMap) (later cur evMap) w = (evMap', w')"
    by (cases "eq_fire callback getPeriod cur (due cur evMap) (later cur evMap) w")
  have "eq_tick callback getPeriod cur evMap w = Some (Inr (evMap', w'))"
    using eq_tick_fires [where rest = "later cur evMap" and evs = "due cur evMap" and w = w
        and callback = callback and cur = cur and getPeriod = getPeriod, OF split(2) assms(2)] fire split(1) by simp
  moreover have "eq_inv (cur + 1) evMap'"
    using eq_fire_later [where rest = "later cur evMap" and evs = "due cur evMap" and w = w
        and callback = callback and cur = cur and getPeriod = getPeriod, OF split(2,3) assms(2)] fire by (intro eq_inv_next) auto
  ultimately show ?thesis using fire by auto
qed

theorem tick_fires_due_events_witness:
  "\<exists>evMap' w'. eq_tick (\<lambda>_ n. (3, n + 1)) (\<lambda>p :: u64. p) 5 [(5, 3), (5, 0), (9, 2)] (0 :: nat)
      = Some (Inr (evMap', w')) \<and> eq_inv 6 evMap'"
proof -
  have "eq_inv 5 [(5, 3), (5, 0), (9, 2 :: u64)]" by (simp add: eq_inv_def)
  from tick_fires_due_events [OF this, of "\<lambda>p. p" "\<lambda>_ n. (3, n + 1)" "0 :: nat"] show ?thesis
    by auto
qed

subsection \<open>Adaptive events\<close>

text \<open>
  \<open>AdaptiveEvent\<close> polls a counter with decreasing periods and fires when the counter reaches
  the target. \<open>cur\<close> is the value that \<open>get()\<close> returns; the callback gives whether it fires.
\<close>

record adaptive =
  ad_period :: u64
  ad_target :: u64
  ad_maxRate :: u64

definition ad_steps :: "u64 \<Rightarrow> u64 \<Rightarrow> u64 \<Rightarrow> u64" where
  "ad_steps target cur maxRate =
     (let period = (target - cur) div maxRate in if period = 0 then 1 else period)"

definition adaptive_init :: "u64 \<Rightarrow> u64 \<Rightarrow> u64 \<Rightarrow> adaptive res" where
  "adaptive_init start target maxRate =
     assert_then (start \<le> target)
       (Inr \<lparr>ad_period = ad_steps target start maxRate, ad_target = target, ad_maxRate = maxRate\<rparr>)"

definition adaptive_callback :: "u64 \<Rightarrow> adaptive \<Rightarrow> (bool \<times> adaptive) res" where
  "adaptive_callback cur e =
     (if ad_target e \<le> cur then
        assert_then (cur - ad_target e \<le> ad_maxRate e) (Inr (True, e\<lparr>ad_period := 0\<rparr>))
      else Inr (False, e\<lparr>ad_period := ad_steps (ad_target e) cur (ad_maxRate e)\<rparr>))"

text \<open>
  The phases at which the event is polled, for a counter \<open>get\<close> indexed by phase: \<open>ad_run get n e p\<close>
  makes \<open>n\<close> polls from phase \<open>p\<close> on and gives the phase at which the event fired.
\<close>

fun ad_run :: "(nat \<Rightarrow> u64) \<Rightarrow> nat \<Rightarrow> adaptive \<Rightarrow> nat \<Rightarrow> nat option res" where
  "ad_run get 0 e p = Inr None"
| "ad_run get (Suc n) e p = rbind (adaptive_callback (get p) e) (\<lambda>(fired, e1).
    if fired then Inr (Some p) else ad_run get n e1 (p + unat (ad_period e1)))"

lemma ad_steps_unat:
  assumes "cur \<le> target" and "0 < maxRate"
  shows "unat (ad_steps target cur maxRate) = max 1 ((unat target - unat cur) div unat maxRate)"
proof -
  have "unat ((target - cur) div maxRate) = (unat target - unat cur) div unat maxRate"
    using assms(1) by (simp add: unat_div unat_sub)
  then show ?thesis
    by (auto simp: ad_steps_def Let_def unat_eq_zero [symmetric] simp del: unat_eq_zero)
qed

text \<open>A counter that grows by at most \<open>r\<close> in a phase.\<close>

definition rate_bounded :: "(nat \<Rightarrow> u64) \<Rightarrow> nat \<Rightarrow> bool" where
  "rate_bounded get r \<longleftrightarrow> (\<forall>p. unat (get p) \<le> unat (get (Suc p)) \<and> unat (get (Suc p)) \<le> unat (get p) + r)"

lemma rate_bounded_add:
  "rate_bounded get r \<Longrightarrow> unat (get p) \<le> unat (get (p + k)) \<and> unat (get (p + k)) \<le> unat (get p) + k * r"
proof (induction k)
  case (Suc k)
  have "unat (get (p + k)) \<le> unat (get (Suc (p + k)))"
    "unat (get (Suc (p + k))) \<le> unat (get (p + k)) + r"
    using Suc.prems by (auto simp: rate_bounded_def)
  then show ?case using Suc by simp
qed simp

text \<open>
  A poll before the target waits so long that the next poll is at most one phase's progress
  past the target, and that no phase in between reaches it.
\<close>

lemma ad_next_poll:
  assumes rate: "rate_bounded get (unat r)" and r: "0 < r" and below: "unat (get p) < unat target"
  defines "k \<equiv> max 1 ((unat target - unat (get p)) div unat r)"
  shows "unat (get (p + k)) < unat target + unat r + 1"
    and "j < k \<Longrightarrow> unat (get (p + j)) < unat target"
proof -
  let ?d = "unat target - unat (get p)"
  have r0: "0 < unat r" using r by (simp add: word_less_nat_alt)
  have quot: "?d div unat r * unat r \<le> ?d" by simp
  have "k * unat r \<le> ?d + unat r"
  proof (cases "?d div unat r = 0")
    case False
    then have "k = ?d div unat r" by (simp add: k_def)
    then have "k * unat r \<le> ?d" using quot by simp
    then show ?thesis by (rule trans_le_add1)
  qed (simp add: k_def)
  then show "unat (get (p + k)) < unat target + unat r + 1"
    using rate_bounded_add [OF rate, of p k] below by linarith
  assume j: "j < k"
  have "j * unat r < ?d"
  proof (cases "j = 0")
    case False
    with j have "Suc j \<le> ?d div unat r" by (auto simp: k_def)
    then have "Suc j * unat r \<le> ?d" using quot by (meson le_trans mult_le_mono1)
    then show ?thesis using r0 by simp
  qed (use below in simp)
  then show "unat (get (p + j)) < unat target"
    using rate_bounded_add [OF rate, of p j] by linarith
qed

lemma ad_run_fires:
  assumes rate: "rate_bounded get (unat (ad_maxRate e))" and r: "0 < ad_maxRate e"
    and "\<And>j. j < p \<Longrightarrow> unat (get j) < unat (ad_target e)"
    and "unat (get p) < unat (ad_target e) + unat (ad_maxRate e) + 1"
    and "unat (ad_target e) \<le> unat (get q)" and "q < p + n"
  shows "\<exists>f. ad_run get n e p = Inr (Some f) \<and> unat (ad_target e) \<le> unat (get f)
    \<and> (\<forall>j < f. unat (get j) < unat (ad_target e))"
  using assms
proof (induction n arbitrary: p e)
  case 0
  then show ?case by (metis add_0_right linorder_not_le)
next
  case (Suc n)
  show ?case
  proof (cases "ad_target e \<le> get p")
    case True
    then have "get p - ad_target e \<le> ad_maxRate e"
      using Suc.prems(4) by (simp add: word_le_nat_alt unat_sub)
    with True Suc.prems(3) show ?thesis
      by (intro exI [of _ p]) (simp add: adaptive_callback_def word_le_nat_alt)
  next
    case False
    let ?s = "ad_steps (ad_target e) (get p) (ad_maxRate e)"
    let ?e = "e\<lparr>ad_period := ?s\<rparr>"
    have below: "unat (get p) < unat (ad_target e)" using False by (simp add: word_le_nat_alt)
    have s: "unat ?s = max 1 ((unat (ad_target e) - unat (get p)) div unat (ad_maxRate e))"
      using False Suc.prems(2) by (intro ad_steps_unat) simp_all
    note next_poll = ad_next_poll [OF Suc.prems(1,2) below, folded s]
    have "unat (get j) < unat (ad_target e)" if j: "j < p + unat ?s" for j
    proof (cases "j < p")
      case False
      then have "unat (get (p + (j - p))) < unat (ad_target e)" using j by (intro next_poll(2)) simp
      with False show ?thesis by simp
    qed (rule Suc.prems(3))
    moreover have "q < p + unat ?s + n"
      using Suc.prems(6) s by simp
    ultimately have "\<exists>f. ad_run get n ?e (p + unat ?s) = Inr (Some f) \<and> unat (ad_target ?e) \<le> unat (get f)
        \<and> (\<forall>j < f. unat (get j) < unat (ad_target ?e))"
      using Suc.prems next_poll(1) by (intro Suc.IH) simp_all
    then show ?thesis using False by (simp add: adaptive_callback_def)
  qed
qed

text \<open>
  C26. An adaptive event on a counter that grows by at most \<open>maxRate\<close> per phase fires on the
  first phase at which the counter has reached the target, and its assertion on the rate holds.
\<close>

theorem adaptive_fires_on_first_phase:
  assumes "adaptive_init (get 0) target maxRate = Inr e" and "0 < maxRate"
    and "rate_bounded get (unat maxRate)" and "get 0 < target"
    and "unat target \<le> unat (get q)"
  shows "\<exists>f. ad_run get (Suc q) e (unat (ad_period e)) = Inr (Some f)
    \<and> unat target \<le> unat (get f) \<and> (\<forall>j < f. unat (get j) < unat target)"
proof -
  from assms(1) have e: "e = \<lparr>ad_period = ad_steps target (get 0) maxRate, ad_target = target,
      ad_maxRate = maxRate\<rparr>"
    by (auto simp: adaptive_init_def res_simps)
  let ?s = "unat (ad_period e)"
  have s: "?s = max 1 ((unat target - unat (get 0)) div unat maxRate)"
    unfolding e using assms(2,4) by (simp add: ad_steps_unat)
  have below: "unat (get 0) < unat target" using assms(4) by (simp add: word_less_nat_alt)
  note poll = ad_next_poll [OF assms(3,2) below, folded s]
  have "\<exists>f. ad_run get (Suc q) e ?s = Inr (Some f) \<and> unat (ad_target e) \<le> unat (get f)
      \<and> (\<forall>j < f. unat (get j) < unat (ad_target e))"
    using poll assms by (intro ad_run_fires) (auto simp: e)
  then show ?thesis by (simp add: e)
qed

theorem adaptive_fires_on_first_phase_witness:
  "\<exists>e f. adaptive_init 0 10 4 = Inr e
    \<and> ad_run (\<lambda>p. of_nat (min (3 * p) 15)) (Suc 5) e (unat (ad_period e)) = Inr (Some f)
    \<and> 10 \<le> unat (of_nat (min (3 * f) 15) :: u64)"
proof -
  let ?get = "\<lambda>p :: nat. of_nat (min (3 * p) 15) :: u64"
  let ?e = "\<lparr>ad_period = ad_steps 10 0 4, ad_target = 10, ad_maxRate = 4\<rparr>"
  have init: "adaptive_init (?get 0) 10 4 = Inr ?e" by (simp add: adaptive_init_def)
  have get: "unat (?get p) = min (3 * p) 15" for p
  proof -
    have "min (3 * p) 15 < (2 :: nat) ^ 64" by (simp add: min_def)
    then show ?thesis by (simp only: unat_of_nat take_bit_nat_eq_self len_of_numeral_defs) simp
  qed
  have rate: "rate_bounded ?get (unat (4 :: u64))"
    unfolding rate_bounded_def get by auto
  have "unat (10 :: u64) \<le> unat (?get 5)" by simp
  from adaptive_fires_on_first_phase [OF init _ rate _ this] obtain f where
    "ad_run ?get (Suc 5) ?e (unat (ad_period ?e)) = Inr (Some f)" "unat (10 :: u64) \<le> unat (?get f)"
    by auto
  with init show ?thesis by (intro exI [of _ ?e] exI [of _ f]) simp
qed

end
