(* ===== verification/SlabAlloc.thy ===== *)
theory SlabAlloc
  imports ZPrelude
begin

section \<open>The slab allocator of the event recorders\<close>

text \<open>
  slab_alloc.h. Slabs are numbered in the order in which \<open>gm_memalign\<close> hands them out, so a
  pointer into a slab is the pair of its number and an offset into \<open>buf\<close>, and masking a
  pointer with \<open>SLAB_MASK\<close> is its first component. \<open>nextSlab\<close> is the number of slabs obtained
  so far. The lock \<open>freeLock\<close> is not modelled: the operations are run one at a time.
\<close>

definition SLAB_SIZE :: u32 where
  "SLAB_SIZE = push_bit 16 1"

text \<open>\<open>sizeof(buf)\<close>: the slab without the pointer and the two counters.\<close>

definition buf_size :: u32 where
  "buf_size = SLAB_SIZE - 8 - 4 - 4"

record slab =
  liveElems :: u32
  usedBytes :: u32

record slab_alloc =
  slabs :: "nat \<Rightarrow> slab"
  curSlab :: nat
  freeList :: "nat list"
  liveSlabs :: u32
  nextSlab :: nat

definition slab_clear :: slab where
  "slab_clear = \<lparr>liveElems = 0, usedBytes = 0\<rparr>"

definition slab_bump :: "u32 \<Rightarrow> slab \<Rightarrow> u32 option \<times> slab" where
  "slab_bump bytes s =
     (let ptr = usedBytes s; used = usedBytes s + bytes
      in if used < buf_size then (Some ptr, s\<lparr>usedBytes := used, liveElems := liveElems s + 1\<rparr>)
         else (None, s\<lparr>usedBytes := used\<rparr>))"

definition allocSlab :: "slab_alloc \<Rightarrow> slab_alloc" where
  "allocSlab p =
     (let p1 = (if freeList p \<noteq> [] then p\<lparr>curSlab := last (freeList p), freeList := butlast (freeList p)\<rparr>
                else p\<lparr>curSlab := nextSlab p, nextSlab := nextSlab p + 1,
                       slabs := (slabs p)(nextSlab p := slab_clear)\<rparr>)
      in p1\<lparr>liveSlabs := liveSlabs p + 1\<rparr>)"

definition slab_alloc_init :: slab_alloc where
  "slab_alloc_init = allocSlab
     \<lparr>slabs = (\<lambda>_. slab_clear), curSlab = 0, freeList = [], liveSlabs = 0, nextSlab = 0\<rparr>"

definition bump_cur :: "u32 \<Rightarrow> slab_alloc \<Rightarrow> u32 option \<times> slab_alloc" where
  "bump_cur sz p =
     (let (ptr, s) = slab_bump sz (slabs p (curSlab p))
      in (ptr, p\<lparr>slabs := (slabs p)(curSlab p := s)\<rparr>))"

definition slab_allocate :: "u32 \<Rightarrow> slab_alloc \<Rightarrow> ((nat \<times> u32) \<times> slab_alloc) res" where
  "slab_allocate sz p =
     assert_then (sz < SLAB_SIZE)
       (let (ptr, p1) = bump_cur sz p
        in case ptr of
             Some off \<Rightarrow> Inr ((curSlab p1, off), p1)
           | None \<Rightarrow> let (ptr, p2) = bump_cur sz (allocSlab p1)
                     in case ptr of None \<Rightarrow> Inl AssertFail
                        | Some off \<Rightarrow> Inr ((curSlab p2, off), p2))"

definition freeSlab :: "nat \<Rightarrow> slab_alloc \<Rightarrow> slab_alloc res" where
  "freeSlab s p =
     (let p1 = p\<lparr>slabs := (slabs p)(s := slab_clear)\<rparr>;
          p2 = (if s \<noteq> curSlab p then p1\<lparr>freeList := freeList p @ [s], liveSlabs := liveSlabs p - 1\<rparr>
                else p1)
      in assert_then (liveSlabs p2 \<noteq> 0) (Inr p2))"

definition freeElem :: "nat \<times> u32 \<Rightarrow> slab_alloc \<Rightarrow> slab_alloc res" where
  "freeElem elem p =
     (let s = fst elem; prev = liveElems (slabs p s);
          p1 = p\<lparr>slabs := (slabs p)(s := (slabs p s)\<lparr>liveElems := prev - 1\<rparr>)\<rparr>
      in assert_then (prev \<noteq> 0 \<and> prev < usedBytes (slabs p s))
           (if prev = 1 then freeSlab s p1 else Inr p1))"

subsection \<open>Live blocks\<close>

text \<open>
  The blocks handed out and not freed yet: a pointer and the size it was requested with. The
  comment of the header says that objects are a multiple of 8 bytes; only a size of at least
  8 matters here. Fewer than \<open>2 ^ 32\<close> slabs (256 TB) are ever obtained.
\<close>

type_synonym block = "(nat \<times> u32) \<times> u32"

inductive slab_step :: "slab_alloc \<times> block list \<Rightarrow> slab_alloc \<times> block list \<Rightarrow> bool" where
  alloc: "8 \<le> sz \<Longrightarrow> slab_allocate sz p = Inr (ptr, q) \<Longrightarrow> nextSlab q < 2 ^ 32 \<Longrightarrow>
    slab_step (p, bs) (q, (ptr, sz) # bs)"
| free: "(ptr, sz) \<in> set bs \<Longrightarrow> freeElem ptr p = Inr q \<Longrightarrow> slab_step (p, bs) (q, remove1 (ptr, sz) bs)"

inductive slab_reachable :: "slab_alloc \<times> block list \<Rightarrow> bool" where
  init: "slab_reachable (slab_alloc_init, [])"
| step: "slab_reachable s \<Longrightarrow> slab_step s t \<Longrightarrow> slab_reachable t"

definition block_end :: "block \<Rightarrow> nat" where
  "block_end b = unat (snd (fst b)) + unat (snd b)"

text \<open>Two blocks do not overlap.\<close>

definition apart :: "block \<Rightarrow> block \<Rightarrow> bool" where
  "apart a b \<longleftrightarrow> fst (fst a) \<noteq> fst (fst b) \<or> block_end a \<le> unat (snd (fst b))
     \<or> block_end b \<le> unat (snd (fst a))"

fun all_apart :: "block list \<Rightarrow> bool" where
  "all_apart [] \<longleftrightarrow> True"
| "all_apart (b # bs) \<longleftrightarrow> (\<forall>c \<in> set bs. apart b c) \<and> all_apart bs"

definition slab_count :: "nat \<Rightarrow> block list \<Rightarrow> nat" where
  "slab_count s bs = length (filter (\<lambda>b. fst (fst b) = s) bs)"

definition slab_ok :: "nat \<Rightarrow> slab \<Rightarrow> block list \<Rightarrow> bool" where
  "slab_ok k s bs \<longleftrightarrow> unat (liveElems s) = slab_count k bs
     \<and> 8 * slab_count k bs \<le> unat (usedBytes s) \<and> unat (usedBytes s) < 2 ^ 17
     \<and> (slab_count k bs = 0 \<longrightarrow> usedBytes s = 0)
     \<and> (\<forall>b \<in> set bs. fst (fst b) = k \<longrightarrow> block_end b \<le> unat (usedBytes s))"

definition slab_core :: "slab_alloc \<Rightarrow> block list \<Rightarrow> bool" where
  "slab_core p bs \<longleftrightarrow> (\<forall>k. slab_ok k (slabs p k) bs)
     \<and> distinct (freeList p) \<and> curSlab p \<notin> set (freeList p)
     \<and> (\<forall>k \<in> set (freeList p). slab_count k bs = 0 \<and> k < nextSlab p)
     \<and> curSlab p < nextSlab p \<and> (\<forall>b \<in> set bs. fst (fst b) < nextSlab p)
     \<and> unat (liveSlabs p) + length (freeList p) = nextSlab p
     \<and> all_apart bs \<and> (\<forall>b \<in> set bs. block_end b < unat buf_size \<and> 8 \<le> unat (snd b))"

definition slab_inv :: "slab_alloc \<times> block list \<Rightarrow> bool" where
  "slab_inv st \<longleftrightarrow> slab_core (fst st) (snd st)
     \<and> usedBytes (slabs (fst st) (curSlab (fst st))) < buf_size"

lemma sizes: "unat buf_size = 65520" "buf_size = 65520" "SLAB_SIZE = 65536"
  by (simp_all add: buf_size_def SLAB_SIZE_def)

lemma slab_count_Cons: "slab_count k (b # bs) = (if fst (fst b) = k then 1 else 0) + slab_count k bs"
  by (simp add: slab_count_def)

lemma slab_count_remove1:
  "b \<in> set bs \<Longrightarrow> slab_count k (remove1 b bs) = slab_count k bs - (if fst (fst b) = k then 1 else 0)"
  by (simp add: slab_count_def filter_remove1 length_remove1)

lemma slab_count_zero: "slab_count k bs = 0 \<longleftrightarrow> (\<forall>b \<in> set bs. fst (fst b) \<noteq> k)"
  by (auto simp: slab_count_def filter_empty_conv)

lemma used_plus:
  assumes "unat used < 2 ^ 17" and "sz < (SLAB_SIZE :: u32)"
  shows "unat (used + sz) = unat used + unat sz"
proof -
  have "unat sz < 65536" using assms(2) by (simp add: sizes word_less_nat_alt)
  then show ?thesis using assms(1) by (intro unat_add_lem [THEN iffD1]) simp
qed

lemma bump_Some:
  assumes "slab_ok k s bs" and "8 \<le> sz" and "sz < SLAB_SIZE" and "slab_bump sz s = (Some off, s')"
  shows "slab_ok k s' (((k, off), sz) # bs)" and "usedBytes s' < buf_size"
    and "block_end ((k, off), sz) < unat buf_size"
    and "b \<in> set bs \<Longrightarrow> fst (fst b) = k \<Longrightarrow> block_end b \<le> unat off"
proof -
  from assms(4) have s': "s' = s\<lparr>usedBytes := usedBytes s + sz, liveElems := liveElems s + 1\<rparr>"
    "off = usedBytes s" "usedBytes s + sz < buf_size"
    by (auto simp: slab_bump_def Let_def split: if_splits)
  have u: "unat (usedBytes s + sz) = unat (usedBytes s) + unat sz"
    by (rule used_plus [OF _ assms(3)]) (use assms(1) in \<open>simp add: slab_ok_def\<close>)
  have sz: "8 \<le> unat sz" using assms(2) by (simp add: word_le_nat_alt)
  have lt: "unat (usedBytes s) + unat sz < 65520" using s'(3) u by (simp add: word_less_nat_alt sizes)
  have "unat (liveElems s) < 2 ^ 31" using assms(1) by (simp add: slab_ok_def)
  then have l: "unat (liveElems s + 1) = Suc (unat (liveElems s))"
    by (subst unat_add_lem [THEN iffD1]) simp_all
  show "slab_ok k s' (((k, off), sz) # bs)"
    using assms(1) u l sz lt unfolding slab_ok_def by (auto simp: s' slab_count_Cons block_end_def)
  show "usedBytes s' < buf_size" using s' by simp
  show "block_end ((k, off), sz) < unat buf_size" using lt s'(2) by (simp add: block_end_def sizes)
  show "b \<in> set bs \<Longrightarrow> fst (fst b) = k \<Longrightarrow> block_end b \<le> unat off"
    using assms(1) s'(2) by (simp add: slab_ok_def)
qed

lemma bump_None:
  assumes "slab_ok k s bs" and "usedBytes s < buf_size" and "sz < SLAB_SIZE"
    and "slab_bump sz s = (None, s')" and "sz < buf_size"
  shows "slab_ok k s' bs" and "slab_count k bs \<noteq> 0"
proof -
  from assms(4) have s': "s' = s\<lparr>usedBytes := usedBytes s + sz\<rparr>" "\<not> usedBytes s + sz < buf_size"
    by (auto simp: slab_bump_def Let_def split: if_splits)
  have u: "unat (usedBytes s + sz) = unat (usedBytes s) + unat sz"
    by (rule used_plus [OF _ assms(3)]) (use assms(1) in \<open>simp add: slab_ok_def\<close>)
  have lt: "unat (usedBytes s) < 65520" "unat sz < 65520"
    using assms(2,5) by (simp_all add: word_less_nat_alt sizes)
  show ne: "slab_count k bs \<noteq> 0"
  proof
    assume "slab_count k bs = 0"
    then have "usedBytes s = 0" using assms(1) by (simp add: slab_ok_def)
    then show False using s'(2) assms(5) by simp
  qed
  show "slab_ok k s' bs"
    using assms(1) u ne lt unfolding slab_ok_def by (auto simp: s')
qed

lemma slab_ok_clear: "slab_count k bs = 0 \<Longrightarrow> slab_ok k slab_clear bs"
  by (auto simp: slab_ok_def slab_clear_def slab_count_zero)

lemma slab_ok_other:
  "fst (fst b) \<noteq> k \<Longrightarrow> slab_ok k s (b # bs) \<longleftrightarrow> slab_ok k s bs"
  by (auto simp: slab_ok_def slab_count_Cons)

text \<open>A new current slab is empty.\<close>

lemma allocSlab_core:
  assumes "slab_core p bs" and "slab_count (curSlab p) bs \<noteq> 0" and "nextSlab (allocSlab p) < 2 ^ 32"
  shows "slab_core (allocSlab p) bs \<and> slab_count (curSlab (allocSlab p)) bs = 0
    \<and> usedBytes (slabs (allocSlab p) (curSlab (allocSlab p))) = 0"
proof -
  have live: "unat (liveSlabs p + 1) = Suc (unat (liveSlabs p))" if "nextSlab p < 2 ^ 32 - 1"
  proof -
    have "unat (liveSlabs p) + 1 < 2 ^ 32" using assms(1) that by (simp add: slab_core_def)
    then show ?thesis by (subst unat_add_lem [THEN iffD1]) simp_all
  qed
  show ?thesis
  proof (cases "freeList p" rule: rev_cases)
    case Nil
    have cnt: "slab_count (nextSlab p) bs = 0"
      using assms(1) by (auto simp: slab_count_zero slab_core_def)
    then show ?thesis
      using assms Nil live slab_ok_clear [OF cnt]
      by (auto simp: slab_core_def allocSlab_def Let_def slab_clear_def less_Suc_eq)
  next
    case (snoc ks k)
    have "unat (liveSlabs p) + length (freeList p) = nextSlab p" using assms(1) by (simp add: slab_core_def)
    moreover have "nextSlab p < 2 ^ 32" using assms(3) snoc by (simp add: allocSlab_def Let_def)
    ultimately have "unat (liveSlabs p) + 1 < 2 ^ 32" using snoc by simp
    then have "unat (liveSlabs p + 1) = Suc (unat (liveSlabs p))"
      by (subst unat_add_lem [THEN iffD1]) simp_all
    moreover have "slab_count k bs = 0" "usedBytes (slabs p k) = 0"
      using assms(1) snoc by (auto simp: slab_core_def slab_ok_def)
    ultimately show ?thesis
      using assms snoc by (auto simp: slab_core_def allocSlab_def Let_def)
  qed
qed

lemma bump_cur_Some:
  assumes "slab_core p bs" and "8 \<le> sz" and "sz < SLAB_SIZE" and "bump_cur sz p = (Some off, q)"
  shows "slab_inv (q, ((curSlab q, off), sz) # bs)"
    and "\<forall>b \<in> set bs. apart ((curSlab q, off), sz) b"
proof -
  let ?c = "curSlab p"
  obtain s where s: "slab_bump sz (slabs p ?c) = (Some off, s)" "q = p\<lparr>slabs := (slabs p)(?c := s)\<rparr>"
    using assms(4) by (auto simp: bump_cur_def Let_def split: prod.splits)
  have ok: "slab_ok ?c (slabs p ?c) bs" using assms(1) by (simp add: slab_core_def)
  note b = bump_Some [OF ok assms(2,3) s(1)]
  show apart: "\<forall>b \<in> set bs. apart ((curSlab q, off), sz) b"
    using b(4) s(2) by (auto simp: apart_def)
  let ?b = "((?c, off), sz)"
  have sz8: "8 \<le> unat sz" using assms(2) by (simp add: word_le_nat_alt)
  have "slab_ok k (slabs q k) (?b # bs)" for k
    using assms(1) b(1) by (cases "k = ?c") (simp_all add: s(2) slab_ok_other slab_core_def)
  moreover have "slab_count k (?b # bs) = 0 \<and> k < nextSlab q" if "k \<in> set (freeList q)" for k
  proof -
    have "k \<noteq> ?c" using that assms(1) by (auto simp: s(2) slab_core_def)
    then show ?thesis using that assms(1) by (simp add: s(2) slab_core_def slab_count_Cons)
  qed
  moreover have "all_apart (?b # bs)"
    using assms(1) apart by (simp add: s(2) slab_core_def)
  ultimately have "slab_core q (?b # bs)"
    using assms(1) b(3) sz8 by (simp add: slab_core_def s(2))
  then show "slab_inv (q, ((curSlab q, off), sz) # bs)"
    using b(2) by (simp add: slab_inv_def s(2))
qed

lemma slab_allocate_inv:
  assumes inv: "slab_inv (p, bs)" and sz: "8 \<le> sz" and alloc: "slab_allocate sz p = Inr (ptr, q)"
    and n: "nextSlab q < 2 ^ 32"
  shows "slab_inv (q, (ptr, sz) # bs)"
proof -
  have core: "slab_core p bs" and cur: "usedBytes (slabs p (curSlab p)) < buf_size"
    using inv by (simp_all add: slab_inv_def)
  have lt: "sz < SLAB_SIZE" using alloc by (simp add: slab_allocate_def res_simps)
  obtain r p1 where r: "bump_cur sz p = (r, p1)" by (cases "bump_cur sz p")
  show ?thesis
  proof (cases r)
    case (Some off)
    then have "ptr = (curSlab p1, off)" "q = p1"
      using alloc r by (auto simp: slab_allocate_def res_simps)
    then show ?thesis using bump_cur_Some(1) [OF core sz lt] r Some by simp
  next
    case None
    obtain r2 p2 where r2: "bump_cur sz (allocSlab p1) = (r2, p2)" by (cases "bump_cur sz (allocSlab p1)")
    have "slab_allocate sz p = (case r2 of None \<Rightarrow> Inl AssertFail
        | Some off \<Rightarrow> Inr ((curSlab p2, off), p2))"
      by (simp add: slab_allocate_def lt r None r2)
    then obtain off where off: "r2 = Some off" "ptr = (curSlab p2, off)" "q = p2"
      using alloc by (cases r2) simp_all
    let ?c = "curSlab p"
    obtain s where s: "slab_bump sz (slabs p ?c) = (None, s)" "p1 = p\<lparr>slabs := (slabs p)(?c := s)\<rparr>"
      using r None by (auto simp: bump_cur_def Let_def split: prod.splits)
    have "slabs (allocSlab p1) (curSlab (allocSlab p1)) = slab_clear \<or> freeList p1 \<noteq> []"
      by (simp add: allocSlab_def Let_def)
    have n1: "nextSlab (allocSlab p1) < 2 ^ 32"
      using n off r2 by (auto simp: bump_cur_def Let_def split: prod.splits)
    have small: "sz < buf_size"
    proof -
      have "\<exists>u. unat sz \<le> unat u \<and> u < buf_size"
      proof -
        let ?t = "slabs (allocSlab p1) (curSlab (allocSlab p1))"
        have "usedBytes ?t + sz < buf_size"
          using r2 off(1) by (auto simp: bump_cur_def slab_bump_def Let_def split: prod.splits if_splits)
        moreover have "unat (usedBytes ?t) < 2 ^ 17"
        proof -
          have "curSlab p \<notin> set (freeList p)" using core by (simp add: slab_core_def)
          then have "freeList p \<noteq> [] \<Longrightarrow> last (freeList p) \<noteq> curSlab p" by (metis last_in_set)
          then show ?thesis
            using core s(2) by (auto simp: allocSlab_def Let_def slab_core_def slab_ok_def slab_clear_def)
        qed
        ultimately show ?thesis using used_plus [OF _ lt] by (metis le_add2)
      qed
      then show ?thesis by (metis word_less_nat_alt le_less_trans)
    qed
    have ok: "slab_ok ?c (slabs p ?c) bs" using core by (simp add: slab_core_def)
    note bn = bump_None [OF ok cur lt s(1) small]
    have core1: "slab_core p1 bs" using core bn(1) by (auto simp: slab_core_def s(2))
    have "slab_core (allocSlab p1) bs"
      using allocSlab_core [OF core1 _ n1] bn(2) s(2) by simp
    then show ?thesis using bump_cur_Some(1) [OF _ sz lt] r2 off by simp
  qed
qed

lemma all_apart_remove1: "all_apart bs \<Longrightarrow> all_apart (remove1 b bs)"
  by (induction bs) (auto dest: notin_set_remove1 set_remove1_subset [THEN subsetD])

lemma slab_ok_remove1:
  assumes "slab_ok k s bs" and "b \<in> set bs" and "fst (fst b) = k \<longrightarrow> 1 < slab_count k bs"
  shows "slab_ok k (if fst (fst b) = k then s\<lparr>liveElems := liveElems s - 1\<rparr> else s) (remove1 b bs)"
proof -
  have "unat (liveElems s - 1) = unat (liveElems s) - 1" if "1 < unat (liveElems s)"
    using that by (intro unat_minus_one) auto
  then show ?thesis
    using assms set_remove1_subset [of b bs]
    by (auto simp: slab_ok_def slab_count_remove1)
qed

lemma slab_clear_ok:
  assumes "slab_count k bs = 1" and "b \<in> set bs" and "fst (fst b) = k"
  shows "slab_ok k slab_clear (remove1 b bs)"
  using assms by (intro slab_ok_clear) (simp add: slab_count_remove1)

lemma liveSlabs_bound:
  assumes "slab_core p bs" and "k < nextSlab p" and "k \<notin> set (freeList p)"
  shows "(if k = curSlab p then 1 else 2) \<le> unat (liveSlabs p)"
proof -
  let ?A = "insert (curSlab p) (insert k (set (freeList p)))"
  have sub: "?A \<subseteq> {..<nextSlab p}" using assms by (auto simp: slab_core_def)
  have "card ?A \<le> nextSlab p" using card_mono [OF _ sub] by simp
  moreover have "card (set (freeList p)) = length (freeList p)"
    using assms(1) by (simp add: slab_core_def distinct_card)
  moreover have "curSlab p \<notin> set (freeList p)" using assms(1) by (simp add: slab_core_def)
  ultimately have "length (freeList p) + (if k = curSlab p then 1 else 2) \<le> nextSlab p"
    using assms(3) by (auto simp: card_insert_if split: if_splits)
  then show ?thesis using assms(1) by (auto simp: slab_core_def)
qed

lemma freeElem_inv:
  assumes inv: "slab_inv (p, bs)" and b: "(ptr, sz) \<in> set bs"
  shows "\<exists>q. freeElem ptr p = Inr q \<and> slab_inv (q, remove1 (ptr, sz) bs)"
proof -
  let ?k = "fst ptr" and ?bs = "remove1 (ptr, sz) bs"
  let ?s = "slabs p ?k"
  have core: "slab_core p bs" and cur: "usedBytes (slabs p (curSlab p)) < buf_size"
    using inv by (simp_all add: slab_inv_def)
  have ok: "slab_ok k (slabs p k) bs" for k using core by (simp add: slab_core_def)
  have cnt: "slab_count ?k bs \<noteq> 0" unfolding slab_count_zero using b by (metis fst_conv)
  then have "0 < unat (liveElems ?s)" "unat (liveElems ?s) < unat (usedBytes ?s)"
    using ok [of ?k] by (simp_all add: slab_ok_def)
  then have prev: "liveElems ?s \<noteq> 0 \<and> liveElems ?s < usedBytes ?s"
    by (auto simp: word_less_nat_alt)
  have notfree: "?k \<notin> set (freeList p)" using core cnt by (auto simp: slab_core_def)
  have sub: "set ?bs \<subseteq> set bs" by (rule set_remove1_subset)
  have k: "?k < nextSlab p" using core b by (auto simp: slab_core_def)
  have rest: "(\<forall>k \<in> set (freeList p). slab_count k ?bs = 0 \<and> k < nextSlab p)
      \<and> (\<forall>b \<in> set ?bs. fst (fst b) < nextSlab p) \<and> all_apart ?bs
      \<and> (\<forall>b \<in> set ?bs. block_end b < unat buf_size \<and> 8 \<le> unat (snd b))"
    using core sub b by (auto simp: slab_core_def slab_count_remove1 all_apart_remove1)
  show ?thesis
  proof (cases "liveElems ?s = 1")
    case False
    let ?q = "p\<lparr>slabs := (slabs p)(?k := ?s\<lparr>liveElems := liveElems ?s - 1\<rparr>)\<rparr>"
    have "1 < slab_count ?k bs"
    proof -
      have "unat (liveElems ?s) \<noteq> unat (1 :: u32)" using False by (simp only: word_unat_eq_iff not_False_eq_True)
      then show ?thesis using ok [of ?k] cnt by (simp add: slab_ok_def)
    qed
    then have "slab_ok k (slabs ?q k) ?bs" for k
      using slab_ok_remove1 [OF ok [of k] b] by (cases "k = ?k") auto
    then have "slab_core ?q ?bs" using core rest by (auto simp: slab_core_def)
    moreover have "usedBytes (slabs ?q (curSlab ?q)) < buf_size"
      using cur by (cases "curSlab p = ?k") simp_all
    ultimately show ?thesis using prev False by (simp add: freeElem_def Let_def slab_inv_def)
  next
    case True
    then have one: "slab_count ?k bs = 1" using ok [of ?k] by (simp add: slab_ok_def)
    let ?l = "if ?k \<noteq> curSlab p then liveSlabs p - 1 else liveSlabs p"
    let ?f = "if ?k \<noteq> curSlab p then freeList p @ [?k] else freeList p"
    let ?q = "p\<lparr>slabs := (slabs p)(?k := slab_clear), freeList := ?f, liveSlabs := ?l\<rparr>"
    have live: "unat ?l = unat (liveSlabs p) - (if ?k \<noteq> curSlab p then 1 else 0)" "?l \<noteq> 0"
    proof -
      have bound: "(if ?k = curSlab p then 1 else 2) \<le> unat (liveSlabs p)"
        by (rule liveSlabs_bound [OF core k notfree])
      then have nz: "liveSlabs p \<noteq> 0" by (auto split: if_splits)
      show u: "unat ?l = unat (liveSlabs p) - (if ?k \<noteq> curSlab p then 1 else 0)"
        using unat_minus_one [OF nz] by simp
      show "?l \<noteq> 0" using bound u by (auto split: if_splits)
    qed
    have "slab_ok k (slabs ?q k) ?bs" for k
      using slab_ok_remove1 [OF ok [of k] b] slab_clear_ok [OF one b] by (cases "k = ?k") auto
    moreover have "unat ?l + length ?f = nextSlab p"
      using core live liveSlabs_bound [OF core k notfree] by (auto simp: slab_core_def split: if_splits)
    moreover have "slab_count ?k ?bs = 0" using b one by (simp add: slab_count_remove1)
    ultimately have "slab_core ?q ?bs" using core rest notfree k by (auto simp: slab_core_def)
    moreover have "usedBytes (slabs ?q (curSlab ?q)) < buf_size"
      using cur by (simp add: slab_clear_def sizes)
    moreover have "freeElem ptr p = Inr ?q"
      using prev True live(2)
      by (cases "?k = curSlab p") (simp_all add: freeElem_def freeSlab_def Let_def)
    ultimately show ?thesis by (simp add: slab_inv_def)
  qed
qed

lemma slab_inv_init: "slab_inv (slab_alloc_init, [])"
  by (auto simp: slab_inv_def slab_core_def slab_alloc_init_def allocSlab_def slab_clear_def
      slab_ok_def slab_count_def sizes)

lemma slab_reachable_inv: "slab_reachable st \<Longrightarrow> slab_inv st"
proof (induction rule: slab_reachable.induct)
  case (step s t)
  from step(2,3) show ?case
  proof (cases rule: slab_step.cases)
    case (free ptr sz bs p q)
    then show ?thesis using freeElem_inv [of p bs ptr sz] step by auto
  qed (auto intro: slab_allocate_inv)
qed (rule slab_inv_init)

text \<open>
  C24. Blocks that are live at the same time never overlap and lie inside the buffer of their
  slab, whatever the order of allocations and frees and however slabs are recycled.
\<close>

theorem slab_blocks_apart:
  assumes "slab_reachable (p, bs)"
  shows "all_apart bs \<and> (\<forall>b \<in> set bs. block_end b < unat buf_size \<and> fst (fst b) \<notin> set (freeList p))"
proof -
  have core: "slab_core p bs" using slab_reachable_inv [OF assms] by (simp add: slab_inv_def)
  have "fst (fst b) \<notin> set (freeList p)" if "b \<in> set bs" for b
    using core that by (auto simp: slab_core_def slab_count_zero)
  then show ?thesis using core by (simp add: slab_core_def)
qed

text \<open>
  Freeing a live block always succeeds: the assertions on the element count and on the
  number of live slabs hold in every reachable state.
\<close>

theorem slab_free_succeeds:
  assumes "slab_reachable (p, bs)" and "(ptr, sz) \<in> set bs"
  shows "\<exists>q. freeElem ptr p = Inr q"
  using freeElem_inv [OF slab_reachable_inv [OF assms(1)] assms(2)] by blast

theorem slab_free_succeeds_witness:
  "\<exists>p q r. slab_allocate 16 slab_alloc_init = Inr ((0, 0), p)
    \<and> slab_allocate 40 p = Inr ((0, 16), q) \<and> freeElem (0, 0) q = Inr r"
proof -
  obtain p where p: "slab_allocate 16 slab_alloc_init = Inr ((0, 0), p)"
    "usedBytes (slabs p 0) = 16" "curSlab p = 0" "nextSlab p = 1"
    by (simp add: slab_allocate_def bump_cur_def slab_bump_def slab_alloc_init_def allocSlab_def
        slab_clear_def sizes)
  then obtain q where q: "slab_allocate 40 p = Inr ((0, 16), q)" "nextSlab q = 1"
    by (simp add: slab_allocate_def bump_cur_def slab_bump_def sizes)
  have "slab_reachable (p, [((0, 0), 16)])"
    by (rule slab_reachable.step [OF slab_reachable.init]) (rule slab_step.alloc [OF _ p(1)]; simp add: p(4))
  then have "slab_reachable (q, [((0, 16), 40), ((0, 0), 16)])"
    by (rule slab_reachable.step) (rule slab_step.alloc [OF _ q(1)]; simp add: q(2))
  from slab_free_succeeds [OF this, of "(0, 0)" 16] p q show ?thesis by auto
qed

theorem slab_blocks_apart_witness:
  "\<exists>p q. slab_allocate 16 slab_alloc_init = Inr ((0, 0), p) \<and> slab_allocate 40 p = Inr ((0, 16), q)
    \<and> apart ((0, 16), 40) ((0, 0), 16)"
proof -
  obtain p where p: "slab_allocate 16 slab_alloc_init = Inr ((0, 0), p)"
    "usedBytes (slabs p 0) = 16" "curSlab p = 0" "nextSlab p = 1"
    by (simp add: slab_allocate_def bump_cur_def slab_bump_def slab_alloc_init_def allocSlab_def
        slab_clear_def sizes)
  then obtain q where q: "slab_allocate 40 p = Inr ((0, 16), q)" "nextSlab q = 1"
    by (simp add: slab_allocate_def bump_cur_def slab_bump_def sizes)
  have "slab_reachable (p, [((0, 0), 16)])"
    by (rule slab_reachable.step [OF slab_reachable.init]) (rule slab_step.alloc [OF _ p(1)]; simp add: p(4))
  then have "slab_reachable (q, [((0, 16), 40), ((0, 0), 16)])"
    by (rule slab_reachable.step) (rule slab_step.alloc [OF _ q(1)]; simp add: q(2))
  from slab_blocks_apart [OF this] p(1) q(1) show ?thesis by auto
qed

text \<open>The second assertion of \<open>alloc\<close>: a request that no empty slab can hold.\<close>

lemma bump_cur_result: "fst (bump_cur sz p) = None \<longleftrightarrow> \<not> usedBytes (slabs p (curSlab p)) + sz < buf_size"
  by (simp add: bump_cur_def slab_bump_def Let_def split_def)

text \<open>
  An allocation succeeds exactly for the sizes below the buffer of a slab. The sizes between
  that and \<open>SLAB_SIZE\<close> pass the first assertion of \<open>alloc\<close> and fail the second.
\<close>

theorem slab_allocate_succeeds_iff:
  assumes "slab_reachable (p, bs)"
  shows "(\<exists>ptr q. slab_allocate sz p = Inr (ptr, q)) \<longleftrightarrow> sz < buf_size"
proof -
  have inv: "slab_inv (p, bs)" by (rule slab_reachable_inv [OF assms])
  let ?c = "curSlab p"
  have ok: "slab_ok k (slabs p k) bs" for k using inv by (simp add: slab_inv_def slab_core_def)
  show ?thesis
  proof (cases "sz < SLAB_SIZE")
    case False
    then have "\<not> sz < buf_size" by (simp add: sizes word_less_nat_alt)
    with False show ?thesis by (simp add: slab_allocate_def)
  next
    case lt: True
    have sum: "unat (usedBytes (slabs p ?c) + sz) = unat (usedBytes (slabs p ?c)) + unat sz"
      by (rule used_plus [OF _ lt]) (use ok [of ?c] in \<open>simp add: slab_ok_def\<close>)
    obtain r p1 where r: "bump_cur sz p = (r, p1)" by (cases "bump_cur sz p")
    show ?thesis
    proof (cases r)
      case (Some off)
      then have "usedBytes (slabs p ?c) + sz < buf_size" using r bump_cur_result [of sz p] by simp
      then have "sz < buf_size" using sum by (simp add: word_less_nat_alt)
      then show ?thesis using lt r Some by (simp add: slab_allocate_def)
    next
      case None
      have p1: "freeList p1 = freeList p" "k \<noteq> ?c \<Longrightarrow> slabs p1 k = slabs p k" for k
        using r by (auto simp: bump_cur_def split: prod.splits)
      have "usedBytes (slabs (allocSlab p1) (curSlab (allocSlab p1))) = 0"
      proof (cases "freeList p")
        case (Cons k ks)
        then have last: "last (freeList p) \<in> set (freeList p)" by simp
        then have "slab_count (last (freeList p)) bs = 0" "last (freeList p) \<noteq> ?c"
          using inv by (auto simp: slab_inv_def slab_core_def)
        then have "usedBytes (slabs p1 (last (freeList p))) = 0"
          using ok [of "last (freeList p)"] p1(2) by (simp add: slab_ok_def)
        then show ?thesis using p1(1) Cons by (simp add: allocSlab_def Let_def)
      qed (simp add: allocSlab_def Let_def p1 slab_clear_def)
      then have "fst (bump_cur sz (allocSlab p1)) = None \<longleftrightarrow> \<not> sz < buf_size"
        by (simp add: bump_cur_result)
      then show ?thesis
        using lt r None by (auto simp: slab_allocate_def split: prod.splits option.splits)
    qed
  qed
qed

theorem slab_allocate_succeeds_iff_witness:
  "(\<exists>ptr q. slab_allocate 65519 slab_alloc_init = Inr (ptr, q))
   \<and> \<not> (\<exists>ptr q. slab_allocate 65520 slab_alloc_init = Inr (ptr, q))"
  using slab_allocate_succeeds_iff [OF slab_reachable.init] by (simp add: sizes)

end
