(* ===== verification/IntrusiveList.thy ===== *)
theory IntrusiveList
  imports ZPrelude
begin

section \<open>Intrusive doubly-linked lists\<close>

text \<open>
  intrusive_list.h. The fields \<open>next\<close>, \<open>prev\<close> and \<open>owner\<close> live in the nodes, so several lists
  share one store of nodes; \<open>'n\<close> names the nodes and numbers name the lists. A null pointer is
  \<open>None\<close>. The abstraction gives for every list the sequence of its nodes.
\<close>

record 'n list_store =
  nx :: "'n \<Rightarrow> 'n option"
  pv :: "'n \<Rightarrow> 'n option"
  own :: "'n \<Rightarrow> nat option"
  head :: "nat \<Rightarrow> 'n option"
  tail :: "nat \<Rightarrow> 'n option"
  n_elems :: "nat \<Rightarrow> nat"

definition store_init :: "'n list_store" where
  "store_init = \<lparr>nx = (\<lambda>_. None), pv = (\<lambda>_. None), own = (\<lambda>_. None), head = (\<lambda>_. None),
                 tail = (\<lambda>_. None), n_elems = (\<lambda>_. 0)\<rparr>"

definition in_empty :: "nat \<Rightarrow> 'n list_store \<Rightarrow> bool" where
  "in_empty L h \<longleftrightarrow> head h L = None"

definition set_nx :: "'n option \<Rightarrow> 'n option \<Rightarrow> 'n list_store \<Rightarrow> 'n list_store" where
  "set_nx x v h = (case x of None \<Rightarrow> h | Some x \<Rightarrow> h\<lparr>nx := (nx h)(x := v)\<rparr>)"

definition set_pv :: "'n option \<Rightarrow> 'n option \<Rightarrow> 'n list_store \<Rightarrow> 'n list_store" where
  "set_pv x v h = (case x of None \<Rightarrow> h | Some x \<Rightarrow> h\<lparr>pv := (pv h)(x := v)\<rparr>)"

definition unlink :: "'n \<Rightarrow> nat \<Rightarrow> 'n list_store \<Rightarrow> 'n list_store res" where
  "unlink e L h =
     (let h1 = set_pv (nx h e) (pv h e) h;
          h2 = set_nx (pv h1 e) (nx h1 e) h1
      in assert_then (own h e = Some L)
           (Inr (h2\<lparr>nx := (nx h2)(e := None), pv := (pv h2)(e := None), own := (own h2)(e := None)\<rparr>)))"

definition linkPrev :: "'n \<Rightarrow> 'n \<Rightarrow> nat \<Rightarrow> 'n list_store \<Rightarrow> 'n list_store res" where
  "linkPrev e p L h =
     assert_then (own h e = None \<and> pv h e = None \<and> nx h e = None)
       (rbind (case nx h p of
            None \<Rightarrow> Inr h
          | Some y \<Rightarrow> assert_then (pv h y = Some p)
              (Inr (h\<lparr>pv := (pv h)(y := Some e), nx := (nx h)(e := Some y)\<rparr>)))
        (\<lambda>h1. Inr (h1\<lparr>nx := (nx h1)(p := Some e), pv := (pv h1)(e := Some p),
                      own := (own h1)(e := Some L)\<rparr>)))"

definition push_front :: "nat \<Rightarrow> 'n \<Rightarrow> 'n list_store \<Rightarrow> 'n list_store res" where
  "push_front L e h =
     assert_then (nx h e = None \<and> pv h e = None \<and> own h e = None)
       (rbind (case head h L of
            None \<Rightarrow> Inr (h\<lparr>head := (head h)(L := Some e), tail := (tail h)(L := Some e)\<rparr>)
          | Some d \<Rightarrow> assert_then (pv h d = None \<and> own h d = Some L)
              (Inr (h\<lparr>nx := (nx h)(e := Some d), pv := (pv h)(d := Some e),
                      head := (head h)(L := Some e)\<rparr>)))
        (\<lambda>h1. Inr (h1\<lparr>own := (own h1)(e := Some L),
                      n_elems := (n_elems h1)(L := n_elems h1 L + 1)\<rparr>)))"

definition push_back :: "nat \<Rightarrow> 'n \<Rightarrow> 'n list_store \<Rightarrow> 'n list_store res" where
  "push_back L e h =
     assert_then (nx h e = None \<and> pv h e = None \<and> own h e = None)
       (rbind (if in_empty L h then
            Inr (h\<lparr>head := (head h)(L := Some e), tail := (tail h)(L := Some e),
                   own := (own h)(e := Some L)\<rparr>)
          else case tail h L of
            None \<Rightarrow> Inl AssertFail
          | Some t \<Rightarrow> rbind (linkPrev e t L h) (\<lambda>h1. Inr (h1\<lparr>tail := (tail h1)(L := Some e)\<rparr>)))
        (\<lambda>h1. Inr (h1\<lparr>n_elems := (n_elems h1)(L := n_elems h1 L + 1)\<rparr>)))"

definition dec_elems :: "nat \<Rightarrow> 'n list_store \<Rightarrow> 'n list_store" where
  "dec_elems L h = h\<lparr>n_elems := (n_elems h)(L := n_elems h L - 1)\<rparr>"

definition pop_front :: "nat \<Rightarrow> 'n list_store \<Rightarrow> 'n list_store res" where
  "pop_front L h =
     (case head h L of
        None \<Rightarrow> Inr h
      | Some e \<Rightarrow>
          rbind (unlink e L (h\<lparr>head := (head h)(L := nx h e)\<rparr>)) (\<lambda>h1.
            Inr (dec_elems L (if head h1 L = None then h1\<lparr>tail := (tail h1)(L := None)\<rparr> else h1))))"

definition pop_back :: "nat \<Rightarrow> 'n list_store \<Rightarrow> 'n list_store res" where
  "pop_back L h =
     (if in_empty L h then Inr h
      else case tail h L of
        None \<Rightarrow> Inl AssertFail
      | Some e \<Rightarrow>
          rbind (unlink e L (h\<lparr>tail := (tail h)(L := pv h e)\<rparr>)) (\<lambda>h1.
            Inr (dec_elems L (if tail h1 L = None then h1\<lparr>head := (head h1)(L := None)\<rparr> else h1))))"

definition in_remove :: "nat \<Rightarrow> 'n \<Rightarrow> 'n list_store \<Rightarrow> 'n list_store res" where
  "in_remove L e h =
     (let h1 = (if Some e = head h L then h\<lparr>head := (head h)(L := nx h e)\<rparr> else h);
          h2 = (if Some e = tail h1 L then h1\<lparr>tail := (tail h1)(L := pv h1 e)\<rparr> else h1)
      in rbind (unlink e L h2) (\<lambda>h3. Inr (dec_elems L h3)))"

definition insertAfter :: "nat \<Rightarrow> 'n \<Rightarrow> 'n \<Rightarrow> 'n list_store \<Rightarrow> 'n list_store res" where
  "insertAfter L p e h =
     assert_then (own h e = None) (assert_then (own h p = Some L)
       (rbind (linkPrev e p L h) (\<lambda>h1.
          let h2 = (if Some p = tail h1 L then h1\<lparr>tail := (tail h1)(L := Some e)\<rparr> else h1)
          in Inr (h2\<lparr>n_elems := (n_elems h2)(L := n_elems h2 L + 1)\<rparr>))))"

subsection \<open>Segments\<close>

text \<open>
  \<open>dll n p a xs b\<close>: the nodes \<open>xs\<close> are linked in this order by the fields \<open>n\<close> and \<open>p\<close>; \<open>a\<close> is
  the predecessor of the first and \<open>b\<close> the successor of the last.
\<close>

definition first_or :: "'n list \<Rightarrow> 'n option \<Rightarrow> 'n option" where
  "first_or xs b = (if xs = [] then b else Some (hd xs))"

definition last_or :: "'n list \<Rightarrow> 'n option \<Rightarrow> 'n option" where
  "last_or xs a = (if xs = [] then a else Some (last xs))"

fun dll :: "('n \<Rightarrow> 'n option) \<Rightarrow> ('n \<Rightarrow> 'n option) \<Rightarrow> 'n option \<Rightarrow> 'n list \<Rightarrow> 'n option \<Rightarrow> bool" where
  "dll n p a [] b \<longleftrightarrow> True"
| "dll n p a (x # xs) b \<longleftrightarrow> p x = a \<and> n x = first_or xs b \<and> dll n p (Some x) xs b"

lemma first_or_simps [simp]: "first_or [] b = b" "first_or (x # xs) b = Some x"
  by (simp_all add: first_or_def)

lemma last_or_simps [simp]: "last_or [] a = a" "last_or (xs @ [x]) a = Some x"
  "last_or (x # xs) a = last_or xs (Some x)"
  by (simp_all add: last_or_def)

lemma last_or_append [simp]: "last_or (xs @ y # ys) a = last_or ys (Some y)"
  by (auto simp: last_or_def)

lemma first_or_append [simp]: "first_or (xs @ ys) b = first_or xs (first_or ys b)"
  by (auto simp: first_or_def)

lemma dll_append [simp]:
  "dll n p a (xs @ ys) b \<longleftrightarrow> dll n p a xs (first_or ys b) \<and> dll n p (last_or xs a) ys b"
  by (induction xs arbitrary: a) simp_all

lemma dll_frame:
  "(\<And>x. x \<in> set xs \<Longrightarrow> n' x = n x \<and> p' x = p x) \<Longrightarrow> dll n' p' a xs b = dll n p a xs b"
  by (induction xs arbitrary: a) auto

lemma dll_set_next:
  "dll n p a xs b \<Longrightarrow> distinct xs \<Longrightarrow> xs \<noteq> [] \<Longrightarrow> dll (n(last xs := b')) p a xs b'"
proof (induction xs arbitrary: a)
  case (Cons x xs)
  show ?case
  proof (cases "xs = []")
    case False
    then have "last xs \<noteq> x" using Cons.prems(2) by (metis distinct.simps(2) last_in_set)
    then show ?thesis using Cons False by (simp add: first_or_def)
  qed (use Cons in simp)
qed simp

lemma dll_set_prev:
  assumes "dll n p a xs b" and "distinct xs" and "xs \<noteq> []"
  shows "dll n (p(hd xs := a')) a' xs b"
proof (cases xs)
  case (Cons x ys)
  then have "dll n (p(x := a')) (Some x) ys b = dll n p (Some x) ys b"
    using assms(2) by (intro dll_frame) auto
  then show ?thesis using assms(1) Cons by simp
qed (use assms(3) in simp)

text \<open>The representation: list \<open>L\<close> holds the nodes \<open>ls L\<close>.\<close>

definition store_ok :: "(nat \<Rightarrow> 'n list) \<Rightarrow> 'n list_store \<Rightarrow> bool" where
  "store_ok ls h \<longleftrightarrow>
     (\<forall>L. distinct (ls L) \<and> head h L = first_or (ls L) None \<and> tail h L = last_or (ls L) None
        \<and> n_elems h L = length (ls L) \<and> dll (nx h) (pv h) None (ls L) None)
     \<and> (\<forall>x L. own h x = Some L \<longleftrightarrow> x \<in> set (ls L))
     \<and> (\<forall>x. own h x = None \<longrightarrow> nx h x = None \<and> pv h x = None)"

lemma store_okD:
  assumes "store_ok ls h"
  shows "distinct (ls L)" "head h L = first_or (ls L) None" "tail h L = last_or (ls L) None"
    "n_elems h L = length (ls L)" "dll (nx h) (pv h) None (ls L) None"
    "own h x = Some L \<longleftrightarrow> x \<in> set (ls L)"
    "own h x = None \<Longrightarrow> nx h x = None \<and> pv h x = None"
  using assms by (auto simp: store_ok_def)

lemma store_ok_disjoint:
  assumes "store_ok ls h" and "x \<in> set (ls L)" and "x \<in> set (ls K)"
  shows "L = K"
  using store_okD(6) [OF assms(1), of x] assms(2,3) by (metis option.inject)

lemma store_ok_init: "store_ok (\<lambda>_. []) store_init"
  by (simp add: store_ok_def store_init_def)

text \<open>
  A change to the nodes of one list: it suffices to check that list, the nodes it gains or
  loses, and that nothing else changed.
\<close>

lemma store_ok_update:
  assumes ok: "store_ok ls h"
    and new: "distinct xs" "head h' L = first_or xs None" "tail h' L = last_or xs None"
      "n_elems h' L = length xs" "dll (nx h') (pv h') None xs None"
    and same: "\<And>K. K \<noteq> L \<Longrightarrow> head h' K = head h K \<and> tail h' K = tail h K \<and> n_elems h' K = n_elems h K"
    and frame: "\<And>x. x \<notin> set (ls L) \<Longrightarrow> x \<notin> set xs \<Longrightarrow> nx h' x = nx h x \<and> pv h' x = pv h x \<and> own h' x = own h x"
    and own: "\<And>x. x \<in> set xs \<Longrightarrow> own h' x = Some L"
    and fresh: "\<And>x. x \<in> set xs \<Longrightarrow> x \<notin> set (ls L) \<Longrightarrow> own h x = None"
    and gone: "\<And>x. x \<in> set (ls L) \<Longrightarrow> x \<notin> set xs \<Longrightarrow> own h' x = None \<and> nx h' x = None \<and> pv h' x = None"
  shows "store_ok (ls(L := xs)) h'"
proof -
  have other: "x \<notin> set (ls L)" "x \<notin> set xs" if "x \<in> set (ls K)" "K \<noteq> L" for x K
  proof -
    show notL: "x \<notin> set (ls L)" using store_ok_disjoint [OF ok that(1), of L] that(2) by auto
    have "own h x = Some K" using store_okD(6) [OF ok, of x K] that(1) by simp
    then show "x \<notin> set xs" using fresh notL by auto
  qed
  have "dll (nx h') (pv h') None (ls K) None" if "K \<noteq> L" for K
  proof -
    have "dll (nx h') (pv h') None (ls K) None = dll (nx h) (pv h) None (ls K) None"
      by (rule dll_frame) (use frame other that in blast)
    then show ?thesis using store_okD(5) [OF ok, of K] by simp
  qed
  moreover have "own h' x = Some K \<longleftrightarrow> x \<in> set ((ls(L := xs)) K)" for x K
  proof (cases "x \<in> set xs \<or> x \<in> set (ls L)")
    case True
    then show ?thesis
      using own gone other(1,2) [of x K] by (cases "K = L"; cases "x \<in> set xs") auto
  next
    case False
    then show ?thesis using frame store_okD(6) [OF ok, of x] by auto
  qed
  moreover have "nx h' x = None \<and> pv h' x = None" if "own h' x = None" for x
    using that own gone frame store_okD(7) [OF ok, of x]
    by (cases "x \<in> set xs"; cases "x \<in> set (ls L)") auto
  ultimately show ?thesis
    using new same store_okD [OF ok] unfolding store_ok_def by simp
qed

subsection \<open>Linking and unlinking\<close>

definition bridge_nx :: "'n list \<Rightarrow> 'n option \<Rightarrow> ('n \<Rightarrow> 'n option) \<Rightarrow> 'n \<Rightarrow> 'n option" where
  "bridge_nx as b n = (if as = [] then n else n(last as := b))"

definition bridge_pv :: "'n option \<Rightarrow> 'n list \<Rightarrow> ('n \<Rightarrow> 'n option) \<Rightarrow> 'n \<Rightarrow> 'n option" where
  "bridge_pv a bs p = (if bs = [] then p else p(hd bs := a))"

lemma bridge_other:
  "x \<notin> set as \<Longrightarrow> bridge_nx as b n x = n x"
  "x \<notin> set bs \<Longrightarrow> bridge_pv a bs p x = p x"
  by (auto simp: bridge_nx_def bridge_pv_def)

lemma dll_bridge_nx: "dll n p a as b \<Longrightarrow> distinct as \<Longrightarrow> dll (bridge_nx as b' n) p a as b'"
  by (simp add: bridge_nx_def dll_set_next)

lemma dll_bridge_pv: "dll n p a bs b \<Longrightarrow> distinct bs \<Longrightarrow> dll n (bridge_pv a' bs p) a' bs b"
  by (simp add: bridge_pv_def dll_set_prev)

lemma dll_cut:
  assumes "dll n p a (as @ e # bs) b" and "distinct (as @ e # bs)"
  shows "dll ((bridge_nx as (first_or bs b) n)(e := None)) ((bridge_pv (last_or as a) bs p)(e := None))
    a (as @ bs) b"
proof -
  have disj: "x \<in> set as \<Longrightarrow> x \<notin> set bs" "x \<in> set bs \<Longrightarrow> x \<notin> set as" for x
    using assms(2) by auto
  let ?n = "bridge_nx as (first_or bs b) n" and ?p = "bridge_pv (last_or as a) bs p"
  have "dll ?n p a as (first_or bs b)" using assms by (intro dll_bridge_nx) auto
  moreover have "dll (?n(e := None)) (?p(e := None)) a as (first_or bs b) = dll ?n p a as (first_or bs b)"
    by (rule dll_frame) (use assms(2) disj in \<open>auto simp: bridge_other\<close>)
  moreover have "dll n ?p (last_or as a) bs b" using assms by (intro dll_bridge_pv) auto
  moreover have "dll (?n(e := None)) (?p(e := None)) (last_or as a) bs b = dll n ?p (last_or as a) bs b"
    by (rule dll_frame) (use assms(2) disj in \<open>auto simp: bridge_other\<close>)
  ultimately show ?thesis by simp
qed

lemma dll_insert:
  assumes "dll n p a (as @ bs) b" and "distinct (as @ bs)" and "e \<notin> set (as @ bs)"
  shows "dll ((bridge_nx as (Some e) n)(e := first_or bs b)) ((bridge_pv (Some e) bs p)(e := last_or as a))
    a (as @ e # bs) b"
proof -
  have disj: "x \<in> set as \<Longrightarrow> x \<notin> set bs" "x \<in> set bs \<Longrightarrow> x \<notin> set as" for x
    using assms(2) by auto
  let ?n = "bridge_nx as (Some e) n" and ?p = "bridge_pv (Some e) bs p"
  have "dll ?n p a as (Some e)" using assms by (intro dll_bridge_nx) auto
  moreover have "dll (?n(e := first_or bs b)) (?p(e := last_or as a)) a as (Some e) = dll ?n p a as (Some e)"
    by (rule dll_frame) (use assms(2,3) disj in \<open>auto simp: bridge_other\<close>)
  moreover have "dll n ?p (Some e) bs b" using assms by (intro dll_bridge_pv) auto
  moreover have "dll (?n(e := first_or bs b)) (?p(e := last_or as a)) (Some e) bs b = dll n ?p (Some e) bs b"
    by (rule dll_frame) (use assms(2,3) disj in \<open>auto simp: bridge_other\<close>)
  ultimately show ?thesis by simp
qed

lemma set_nx_last: "set_nx (last_or as None) v h = h\<lparr>nx := bridge_nx as v (nx h)\<rparr>"
  by (simp add: set_nx_def last_or_def bridge_nx_def)

lemma set_pv_first: "set_pv (first_or bs None) v h = h\<lparr>pv := bridge_pv v bs (pv h)\<rparr>"
  by (simp add: set_pv_def first_or_def bridge_pv_def)

lemma unlink_eq:
  assumes "own h e = Some L" and "pv h e = last_or as None" and "nx h e = first_or bs None"
    and "e \<notin> set bs"
  shows "unlink e L h = Inr (h\<lparr>nx := (bridge_nx as (first_or bs None) (nx h))(e := None),
    pv := (bridge_pv (last_or as None) bs (pv h))(e := None), own := (own h)(e := None)\<rparr>)"
  using assms by (simp add: unlink_def set_pv_first set_nx_last bridge_other)

lemma dll_fields:
  assumes "dll n p None (as @ e # bs) None"
  shows "p e = last_or as None" and "n e = first_or bs None"
  using assms by simp_all

subsection \<open>The operations on sequences\<close>

text \<open>What the store looks like once a node is taken out of list \<open>L\<close>.\<close>

lemma store_ok_cut:
  assumes ok: "store_ok ls h" and xs: "ls L = as @ e # bs"
    and h': "head h' = (head h)(L := first_or (as @ bs) None)" "tail h' = (tail h)(L := last_or (as @ bs) None)"
      "n_elems h' = (n_elems h)(L := n_elems h L - 1)"
      "nx h' = (bridge_nx as (first_or bs None) (nx h))(e := None)"
      "pv h' = (bridge_pv (last_or as None) bs (pv h))(e := None)" "own h' = (own h)(e := None)"
  shows "store_ok (ls(L := as @ bs)) h'"
proof -
  note D = store_okD [OF ok]
  have d: "distinct (as @ e # bs)" "dll (nx h) (pv h) None (as @ e # bs) None"
    using D(1,5) [of L] xs by simp_all
  show ?thesis
  proof (rule store_ok_update [OF ok])
    show "dll (nx h') (pv h') None (as @ bs) None" unfolding h' by (rule dll_cut [OF d(2,1)])
    show "own h' x = Some L" if "x \<in> set (as @ bs)" for x
      using that d(1) D(6) [of x L] xs by (auto simp: h'(6))
    show "own h x = None" if "x \<in> set (as @ bs)" "x \<notin> set (ls L)" for x
      using that xs by auto
    show "nx h' x = nx h x \<and> pv h' x = pv h x \<and> own h' x = own h x"
      if "x \<notin> set (ls L)" "x \<notin> set (as @ bs)" for x
      using that xs by (auto simp: h' bridge_other)
    show "own h' x = None \<and> nx h' x = None \<and> pv h' x = None"
      if "x \<in> set (ls L)" "x \<notin> set (as @ bs)" for x
      using that xs by (auto simp: h')
  qed (use d D(4) [of L] xs h' in auto)
qed

lemma cut_ends:
  assumes "distinct (as @ e # bs)"
  shows "Some e = first_or (as @ e # bs) None \<longleftrightarrow> as = []"
    and "Some e = last_or (as @ e # bs) None \<longleftrightarrow> bs = []"
  using assms by (auto simp: first_or_def last_or_def)

lemma in_remove_ok:
  assumes ok: "store_ok ls h" and xs: "ls L = as @ e # bs"
  shows "\<exists>h'. in_remove L e h = Inr h' \<and> store_ok (ls(L := as @ bs)) h'"
proof -
  note D = store_okD [OF ok]
  have d: "distinct (as @ e # bs)" using D(1) [of L] xs by simp
  have f: "pv h e = last_or as None" "nx h e = first_or bs None" "own h e = Some L" "e \<notin> set bs"
    using dll_fields [of "nx h" "pv h" as e bs] D(5) [of L] D(6) [of e L] d xs by auto
  define h2 where "h2 = h\<lparr>head := (head h)(L := first_or (as @ bs) None),
    tail := (tail h)(L := last_or (as @ bs) None)\<rparr>"
  have h2: "in_remove L e h = rbind (unlink e L h2) (\<lambda>h3. Inr (dec_elems L h3))"
    using cut_ends [OF d] D(2,3) [of L] xs f
    by (cases "as = []"; cases "bs = []")
      (auto simp: in_remove_def h2_def Let_def first_or_def last_or_def fun_upd_idem)
  have "unlink e L h2 = Inr (h2\<lparr>nx := (bridge_nx as (first_or bs None) (nx h2))(e := None),
    pv := (bridge_pv (last_or as None) bs (pv h2))(e := None), own := (own h2)(e := None)\<rparr>)"
    by (rule unlink_eq) (use f in \<open>simp_all add: h2_def\<close>)
  with h2 show ?thesis
    using store_ok_cut [OF ok xs] by (auto simp: dec_elems_def h2_def)
qed

lemma pop_front_ok:
  assumes ok: "store_ok ls h"
  shows "\<exists>h'. pop_front L h = Inr h' \<and> store_ok (ls(L := tl (ls L))) h'"
proof (cases "ls L")
  case Nil
  then have "ls(L := tl (ls L)) = ls" by auto
  then show ?thesis using ok Nil store_okD(2) [OF ok, of L] by (simp add: pop_front_def)
next
  case (Cons e bs)
  note D = store_okD [OF ok]
  have xs: "ls L = [] @ e # bs" using Cons by simp
  have f: "pv h e = last_or [] None" "nx h e = first_or bs None" "own h e = Some L" "e \<notin> set bs"
    using D(5) [of L] D(6) [of e L] D(1) [of L] Cons by auto
  let ?h = "h\<lparr>head := (head h)(L := nx h e)\<rparr>"
  have "unlink e L ?h = Inr (?h\<lparr>nx := (bridge_nx [] (first_or bs None) (nx ?h))(e := None),
    pv := (bridge_pv (last_or [] None) bs (pv ?h))(e := None), own := (own ?h)(e := None)\<rparr>)"
    by (rule unlink_eq) (use f in simp_all)
  then have "\<exists>h'. pop_front L h = Inr h' \<and> store_ok (ls(L := [] @ bs)) h'"
    using store_ok_cut [OF ok xs] D(2,3) [of L] f Cons
    by (cases "bs = []") (auto simp: pop_front_def dec_elems_def first_or_def last_or_def fun_upd_idem)
  then show ?thesis using Cons by simp
qed

lemma pop_back_ok:
  assumes ok: "store_ok ls h"
  shows "\<exists>h'. pop_back L h = Inr h' \<and> store_ok (ls(L := butlast (ls L))) h'"
proof (cases "ls L" rule: rev_cases)
  case Nil
  then have "ls(L := butlast (ls L)) = ls" by auto
  then show ?thesis using ok Nil store_okD(2) [OF ok, of L] by (simp add: pop_back_def in_empty_def)
next
  case (snoc as e)
  note D = store_okD [OF ok]
  have xs: "ls L = as @ e # []" using snoc by simp
  have f: "pv h e = last_or as None" "nx h e = first_or [] None" "own h e = Some L"
    using D(5) [of L] D(6) [of e L] D(1) [of L] snoc by auto
  have t: "tail h L = Some e" "head h L \<noteq> None" using D(2,3) [of L] snoc by (auto simp: first_or_def)
  let ?h = "h\<lparr>tail := (tail h)(L := pv h e)\<rparr>"
  have "unlink e L ?h = Inr (?h\<lparr>nx := (bridge_nx as (first_or [] None) (nx ?h))(e := None),
    pv := (bridge_pv (last_or as None) [] (pv ?h))(e := None), own := (own ?h)(e := None)\<rparr>)"
    by (rule unlink_eq) (use f in simp_all)
  then have "\<exists>h'. pop_back L h = Inr h' \<and> store_ok (ls(L := as @ [])) h'"
    using store_ok_cut [OF ok xs] D(2,3) [of L] f snoc t
    by (cases "as = []")
      (auto simp: pop_back_def in_empty_def dec_elems_def first_or_def last_or_def fun_upd_idem)
  then show ?thesis using snoc by simp
qed

text \<open>What the store looks like once a free node is put into list \<open>L\<close>.\<close>

lemma store_ok_insert:
  assumes ok: "store_ok ls h" and xs: "ls L = as @ bs" and free: "own h e = None"
    and h': "head h' = (head h)(L := first_or (as @ e # bs) None)"
      "tail h' = (tail h)(L := last_or (as @ e # bs) None)"
      "n_elems h' = (n_elems h)(L := n_elems h L + 1)"
      "nx h' = (bridge_nx as (Some e) (nx h))(e := first_or bs None)"
      "pv h' = (bridge_pv (Some e) bs (pv h))(e := last_or as None)"
      "own h' = (own h)(e := Some L)"
  shows "store_ok (ls(L := as @ e # bs)) h'"
proof -
  note D = store_okD [OF ok]
  have d: "distinct (as @ bs)" "dll (nx h) (pv h) None (as @ bs) None" "e \<notin> set (as @ bs)"
    using D(1,5) [of L] D(6) [of e L] xs free by simp_all
  show ?thesis
  proof (rule store_ok_update [OF ok])
    show "dll (nx h') (pv h') None (as @ e # bs) None" unfolding h' by (rule dll_insert [OF d(2,1,3)])
    show "own h' x = Some L" if "x \<in> set (as @ e # bs)" for x
      using that D(6) [of x L] xs by (auto simp: h'(6))
    show "own h x = None" if "x \<in> set (as @ e # bs)" "x \<notin> set (ls L)" for x
      using that xs free by auto
    show "nx h' x = nx h x \<and> pv h' x = pv h x \<and> own h' x = own h x"
      if "x \<notin> set (ls L)" "x \<notin> set (as @ e # bs)" for x
      using that xs by (auto simp: h' bridge_other)
    show "own h' x = None \<and> nx h' x = None \<and> pv h' x = None"
      if "x \<in> set (ls L)" "x \<notin> set (as @ e # bs)" for x
      using that xs by auto
  qed (use d D(4) [of L] xs h' in auto)
qed

lemma push_front_ok:
  assumes ok: "store_ok ls h" and free: "own h e = None"
  shows "\<exists>h'. push_front L e h = Inr h' \<and> store_ok (ls(L := e # ls L)) h'"
proof -
  note D = store_okD [OF ok]
  have xs: "ls L = [] @ ls L" by simp
  have nil: "nx h e = None" "pv h e = None" using D(7) [OF free] by simp_all
  have "\<exists>h'. push_front L e h = Inr h' \<and> store_ok (ls(L := [] @ e # ls L)) h'"
  proof (cases "ls L")
    case Nil
    then show ?thesis
      using store_ok_insert [OF ok xs free] D(2,3) [of L] nil free
      by (simp add: push_front_def bridge_nx_def bridge_pv_def fun_upd_idem)
  next
    case (Cons d ds)
    then have "pv h d = None" "own h d = Some L" "head h L = Some d" "d \<noteq> e"
      using D(2,5) [of L] D(6) [of d L] free by auto
    then show ?thesis
      using store_ok_insert [OF ok xs free] D(3) [of L] nil free Cons
      by (simp add: push_front_def bridge_nx_def bridge_pv_def fun_upd_idem fun_upd_twist)
  qed
  then show ?thesis by simp
qed

lemma linkPrev_eq:
  assumes ok: "store_ok ls h" and xs: "ls L = as @ p # bs" and free: "own h e = None"
  shows "linkPrev e p L h = Inr (h\<lparr>nx := (bridge_nx (as @ [p]) (Some e) (nx h))(e := first_or bs None),
    pv := (bridge_pv (Some e) bs (pv h))(e := Some p), own := (own h)(e := Some L)\<rparr>)"
proof -
  note D = store_okD [OF ok]
  have nil: "nx h e = None" "pv h e = None" using D(7) [OF free] by simp_all
  have e: "e \<notin> set (ls L)" using D(6) [of e L] free by simp
  show ?thesis
    using D(5) [of L] xs nil free e
    by (cases bs) (auto simp: linkPrev_def bridge_nx_def bridge_pv_def fun_upd_twist fun_upd_idem)
qed

lemma insertAfter_ok:
  assumes ok: "store_ok ls h" and xs: "ls L = as @ p # bs" and free: "own h e = None"
  shows "\<exists>h'. insertAfter L p e h = Inr h' \<and> store_ok (ls(L := as @ p # e # bs)) h'"
proof -
  note D = store_okD [OF ok]
  have xs': "ls L = (as @ [p]) @ bs" using xs by simp
  have own: "own h p = Some L" using D(6) [of p L] xs by simp
  have tail: "Some p = tail h L \<longleftrightarrow> bs = []"
    using D(3) [of L] D(1) [of L] xs by (auto simp: last_or_def)
  have "\<exists>h'. insertAfter L p e h = Inr h' \<and> store_ok (ls(L := (as @ [p]) @ e # bs)) h'"
    using store_ok_insert [OF ok xs' free] D(2,3) [of L] xs own free tail
    by (cases "bs = []")
      (auto simp: insertAfter_def linkPrev_eq [OF ok xs free] last_or_def fun_upd_idem)
  then show ?thesis by simp
qed

lemma push_back_ok:
  assumes ok: "store_ok ls h" and free: "own h e = None"
  shows "\<exists>h'. push_back L e h = Inr h' \<and> store_ok (ls(L := ls L @ [e])) h'"
proof -
  note D = store_okD [OF ok]
  have nil: "nx h e = None" "pv h e = None" using D(7) [OF free] by simp_all
  show ?thesis
  proof (cases "ls L" rule: rev_cases)
    case Nil
    then show ?thesis
      using store_ok_insert [OF ok _ free, of L "[]" "[]"] D(2,3) [of L] nil free
      by (simp add: push_back_def in_empty_def bridge_nx_def bridge_pv_def fun_upd_idem)
  next
    case (snoc as t)
    then have xs: "ls L = as @ t # []" by simp
    have t: "tail h L = Some t" "head h L \<noteq> None" using D(2,3) [of L] snoc by (auto simp: first_or_def)
    show ?thesis
      using store_ok_insert [OF ok _ free, of L "as @ [t]" "[]"] D(2) [of L] nil free t snoc
      by (auto simp: push_back_def in_empty_def linkPrev_eq [OF ok xs free] fun_upd_idem)
  qed
qed

end
