(* ===== verification/LruStack.thy ===== *)
theory LruStack
  imports ZPrelude
begin

section \<open>The LRU stack\<close>

text \<open>
  The reference that the fully associative array (ideal_arrays.h) and the utility monitor
  (utility_monitor.cpp) are proved against: a list of keys, the most recently used first, cut
  at a capacity. A run returns whether each access hits.
\<close>

definition stack_touch :: "nat \<Rightarrow> 'a \<Rightarrow> 'a list \<Rightarrow> 'a list" where
  "stack_touch n a st = take n (a # remove1 a st)"

fun stack_run :: "nat \<Rightarrow> 'a list \<Rightarrow> 'a list \<Rightarrow> bool list" where
  "stack_run n [] st = []"
| "stack_run n (a # as) st = (a \<in> set st) # stack_run n as (stack_touch n a st)"

definition stack_state :: "nat \<Rightarrow> 'a list \<Rightarrow> 'a list \<Rightarrow> 'a list" where
  "stack_state n as st = foldl (\<lambda>st a. stack_touch n a st) st as"

definition stack_misses :: "nat \<Rightarrow> 'a list \<Rightarrow> 'a list \<Rightarrow> nat" where
  "stack_misses n as st = length (filter Not (stack_run n as st))"

text \<open>The inclusion property of the stack: a larger one holds what a smaller one holds.\<close>

lemma stack_touch_prefix:
  assumes "st = take n st'" and "n \<le> m"
  shows "stack_touch n a st = take n (stack_touch m a st')"
proof (cases n)
  case (Suc k)
  have "take k (remove1 a (take (Suc k) ys)) = take k (remove1 a ys)" for ys
  proof (induction ys arbitrary: k)
    case (Cons y ys)
    then show ?case by (cases k) (auto simp: take_Suc_conv_app_nth)
  qed simp
  moreover obtain j where "m = Suc j" "k \<le> j" using assms(2) Suc by (cases m) auto
  ultimately show ?thesis using assms(1) Suc by (simp add: stack_touch_def min_def)
qed (simp add: stack_touch_def)

lemma stack_run_inclusion:
  "st = take n st' \<Longrightarrow> n \<le> m \<Longrightarrow> list_all2 (\<longrightarrow>) (stack_run n as st) (stack_run m as st')"
proof (induction as arbitrary: st st')
  case (Cons a as)
  have "stack_touch n a st = take n (stack_touch m a st')" by (rule stack_touch_prefix [OF Cons.prems])
  from Cons.IH [OF this Cons.prems(2)] Cons.prems(1) show ?case by (auto dest: in_set_takeD)
qed simp

lemma length_stack_touch: "length st = n \<Longrightarrow> length (stack_touch n a st) = n"
  by (cases n) (auto simp: stack_touch_def length_remove1 min_def)

lemma stack_touch_hit:
  "length st \<le> n \<Longrightarrow> a \<in> set st \<Longrightarrow> stack_touch n a st = a # remove1 a st"
  by (cases n) (auto simp: stack_touch_def length_remove1)

lemma stack_touch_miss:
  "length st = n \<Longrightarrow> 0 < n \<Longrightarrow> a \<notin> set st \<Longrightarrow> stack_touch n a st = a # butlast st"
  by (cases n) (auto simp: stack_touch_def remove1_idem butlast_conv_take)

lemma stack_run_snoc: "stack_run n (as @ [a]) st = stack_run n as st @ [a \<in> set (stack_state n as st)]"
  by (induction as arbitrary: st) (simp_all add: stack_state_def)

lemma stack_misses_snoc:
  "stack_misses n (as @ [a]) st = stack_misses n as st + (if a \<in> set (stack_state n as st) then 0 else 1)"
  by (simp add: stack_misses_def stack_run_snoc)

lemma stack_state_snoc: "stack_state n (as @ [a]) st = stack_touch n a (stack_state n as st)"
  by (simp add: stack_state_def)

lemma length_stack_state: "length st = n \<Longrightarrow> length (stack_state n as st) = n"
  by (induction as arbitrary: st) (simp_all add: stack_state_def length_stack_touch)

lemma stack_state_prefix:
  "st = take n st' \<Longrightarrow> n \<le> m \<Longrightarrow> stack_state n as st = take n (stack_state m as st')"
proof (induction as arbitrary: st st')
  case (Cons a as)
  from Cons.IH [OF stack_touch_prefix [OF Cons.prems] Cons.prems(2)] show ?case
    by (simp add: stack_state_def)
qed (simp add: stack_state_def)

text \<open>A stack filled with a key that is never accessed behaves as an empty one.\<close>

lemma stack_touch_pad:
  assumes "length st \<le> n" and "a \<noteq> z" and "z \<notin> set st"
  shows "stack_touch n a (st @ replicate (n - length st) z)
    = stack_touch n a st @ replicate (n - length (stack_touch n a st)) z"
proof (cases n)
  case (Suc m)
  show ?thesis
  proof (cases "a \<in> set st")
    case True
    then obtain l where "length st = Suc l" by (cases st) auto
    with True show ?thesis using assms Suc
      by (auto simp: stack_touch_def remove1_append length_remove1 min_def)
  next
    case False
    then show ?thesis using assms Suc
      by (auto simp: stack_touch_def remove1_append remove1_idem min_def)
  qed
qed (simp add: stack_touch_def)

lemma set_stack_touch: "set (stack_touch n a st) \<subseteq> insert a (set st)"
  unfolding stack_touch_def
  using set_take_subset [of n "a # remove1 a st"] set_remove1_subset [of a st] by auto

lemma stack_run_pad:
  "length st \<le> n \<Longrightarrow> z \<notin> set st \<Longrightarrow> z \<notin> set as \<Longrightarrow>
    stack_run n as (st @ replicate (n - length st) z) = stack_run n as st"
proof (induction as arbitrary: st)
  case (Cons a as)
  have "length (stack_touch n a st) \<le> n" by (simp add: stack_touch_def)
  moreover have "z \<notin> set (stack_touch n a st)"
    using Cons.prems set_stack_touch [of n a st] by auto
  ultimately have "stack_run n as (stack_touch n a (st @ replicate (n - length st) z))
      = stack_run n as (stack_touch n a st)"
    using Cons.IH [of "stack_touch n a st"] Cons.prems stack_touch_pad [of st n a z] by auto
  moreover have "a \<in> set (st @ replicate (n - length st) z) \<longleftrightarrow> a \<in> set st"
    using Cons.prems by auto
  ultimately show ?case by (simp only: stack_run.simps)
qed simp

lemma stack_misses_pad: "z \<notin> set as \<Longrightarrow> stack_misses n as (replicate n z) = stack_misses n as []"
  using stack_run_pad [of "[]" n z as] by (simp add: stack_misses_def)

text \<open>The position of a key decides which capacities hit.\<close>

lemma in_take_position:
  assumes "b < length st" and "st ! b = a" and "\<forall>i < b. st ! i \<noteq> a"
  shows "a \<in> set (take k st) \<longleftrightarrow> b < k"
proof
  assume "a \<in> set (take k st)"
  then obtain i where "i < k" "i < length st" "st ! i = a" by (auto simp: in_set_conv_nth)
  then show "b < k" using assms(3) by (metis not_less_iff_gr_or_eq order_less_trans)
next
  assume "b < k"
  then show "a \<in> set (take k st)" using assms(1,2) by (auto simp: in_set_conv_nth intro: exI [of _ b])
qed

end
