(* ===== verification/IdealArrays.thy ===== *)
theory IdealArrays
  imports ArrayIface IntrusiveList LruStack
begin

section \<open>The fully associative array with LRU replacement\<close>

text \<open>
  class \<open>IdealLRUArray\<close> of ideal_arrays.h. The lines are kept in an intrusive list, the most
  recently used first, and a hash table maps an address to its line. Line \<open>i\<close> is node \<open>i\<close> of
  the list store; the array's only list has number 0. \<open>g_unordered_map\<close> is a map. Reading the
  last node of an empty list (an array without lines) is a null dereference, \<open>Panic\<close> here.

  The array refines the textbook LRU stack, and therefore has the stack's inclusion property.
  Address 0 is excluded: it is also the address that a line holds before its first use, and
  \<open>postinsert\<close> erases the victim's address from the table whether or not it was ever inserted.
\<close>

record ideal_lru =
  il_lineAddr :: "nat \<Rightarrow> address"
  lruList :: "nat list_store"
  lineMap :: "address \<Rightarrow> nat option"
  il_numLines :: nat

fun il_push_lines :: "nat list \<Rightarrow> nat list_store \<Rightarrow> nat list_store res" where
  "il_push_lines [] h = Inr h"
| "il_push_lines (i # is) h = rbind (push_front 0 i h) (il_push_lines is)"

definition ideal_lru_init :: "nat \<Rightarrow> ideal_lru res" where
  "ideal_lru_init n = rbind (il_push_lines [0..<n] store_init)
     (\<lambda>h. Inr \<lparr>il_lineAddr = (\<lambda>_. 0), lruList = h, lineMap = Map.empty, il_numLines = n\<rparr>)"

definition il_to_front :: "nat \<Rightarrow> ideal_lru \<Rightarrow> ideal_lru res" where
  "il_to_front lineId s =
     rbind (in_remove 0 lineId (lruList s)) (\<lambda>h.
     rbind (push_front 0 lineId h) (\<lambda>h'. Inr (s\<lparr>lruList := h'\<rparr>)))"

definition il_lookup :: "address \<Rightarrow> mem_req option \<Rightarrow> bool \<Rightarrow> ideal_lru \<Rightarrow> (nat option \<times> ideal_lru) res"
  where
  "il_lookup a req updateReplacement s =
     (case lineMap s a of
        None \<Rightarrow> Inr (None, s)
      | Some lineId \<Rightarrow>
          if updateReplacement then rbind (il_to_front lineId s) (\<lambda>s'. Inr (Some lineId, s'))
          else Inr (Some lineId, s))"

definition il_preinsert :: "cc_view \<Rightarrow> address \<Rightarrow> mem_req \<Rightarrow> ideal_lru \<Rightarrow> (nat \<times> address \<times> ideal_lru) res"
  where
  "il_preinsert cc a req s =
     (case tail (lruList s) 0 of
        None \<Rightarrow> Inl Panic
      | Some e \<Rightarrow> Inr (e, il_lineAddr s e, s))"

definition il_postinsert :: "address \<Rightarrow> mem_req \<Rightarrow> nat \<Rightarrow> ideal_lru \<Rightarrow> ideal_lru res" where
  "il_postinsert a req lineId s =
     (let m = (lineMap s)(il_lineAddr s lineId := None)
      in assert_then (m a = None)
           (il_to_front lineId (s\<lparr>il_lineAddr := (il_lineAddr s)(lineId := a), lineMap := m(a \<mapsto> lineId)\<rparr>)))"

definition il_ops :: "ideal_lru array_ops" where
  "il_ops = \<lparr>a_lookup = il_lookup, a_preinsert = il_preinsert, a_postinsert = il_postinsert\<rparr>"

subsection \<open>The array contract\<close>

definition il_rep :: "nat list \<Rightarrow> ideal_lru \<Rightarrow> bool" where
  "il_rep xs s \<longleftrightarrow> store_ok ((\<lambda>_. [])(0 := xs)) (lruList s) \<and> set xs = {..<il_numLines s}
     \<and> (\<forall>a l. a \<noteq> 0 \<longrightarrow> lineMap s a = Some l \<longleftrightarrow> l < il_numLines s \<and> il_lineAddr s l = a)
     \<and> (\<forall>l. lineMap s 0 = Some l \<longrightarrow> l < il_numLines s \<and> il_lineAddr s l = 0)
     \<and> 0 < il_numLines s"

lemma il_repD:
  assumes "il_rep xs s"
  shows "store_ok ((\<lambda>_. [])(0 := xs)) (lruList s)" "set xs = {..<il_numLines s}" "distinct xs"
    "lineMap s a = Some l \<Longrightarrow> l < il_numLines s \<and> il_lineAddr s l = a"
    "a \<noteq> 0 \<Longrightarrow> l < il_numLines s \<Longrightarrow> il_lineAddr s l = a \<Longrightarrow> lineMap s a = Some l"
    "0 < il_numLines s"
proof -
  show "store_ok ((\<lambda>_. [])(0 := xs)) (lruList s)" using assms by (simp add: il_rep_def)
  from store_okD(1) [OF this, of 0] show "distinct xs" by simp
  show "lineMap s a = Some l \<Longrightarrow> l < il_numLines s \<and> il_lineAddr s l = a"
    using assms by (cases "a = 0") (auto simp: il_rep_def)
qed (use assms in \<open>auto simp: il_rep_def\<close>)

lemma il_to_front_ok:
  assumes "il_rep xs s" and "xs = ps @ l # qs"
  shows "\<exists>h. il_to_front l s = Inr (s\<lparr>lruList := h\<rparr>) \<and> il_rep (l # ps @ qs) (s\<lparr>lruList := h\<rparr>)"
proof -
  note D = il_repD [OF assms(1)]
  from in_remove_ok [OF D(1), of 0 ps l qs] assms(2) obtain h1 where
    h1: "in_remove 0 l (lruList s) = Inr h1" "store_ok ((\<lambda>_. [])(0 := ps @ qs)) h1"
    by auto
  have "own h1 l = None"
    using store_okD(6) [OF h1(2), of l] D(3) assms(2) by (cases "own h1 l") (auto split: if_splits)
  from push_front_ok [OF h1(2) this, of 0] obtain h where
    h: "push_front 0 l h1 = Inr h" "store_ok ((\<lambda>_. [])(0 := l # ps @ qs)) h" by auto
  show ?thesis
    using assms h1(1) h by (intro exI [of _ h]) (auto simp: il_to_front_def il_rep_def)
qed

lemma il_to_front_any:
  assumes "il_rep xs s" and "l < il_numLines s"
  obtains ps qs h where "xs = ps @ l # qs" "il_to_front l s = Inr (s\<lparr>lruList := h\<rparr>)"
    "il_rep (l # ps @ qs) (s\<lparr>lruList := h\<rparr>)"
proof -
  have "l \<in> set xs" using il_repD(2) [OF assms(1)] assms(2) by simp
  then obtain ps qs where xs: "xs = ps @ l # qs" by (meson split_list)
  from il_to_front_ok [OF assms(1) xs] xs show thesis using that by blast
qed

text \<open>Writing the victim's address and table entry keeps the representation.\<close>

lemma il_rep_set:
  assumes "il_rep xs s" and "l < il_numLines s" and "a \<noteq> 0" and "lineMap s a = None"
  shows "il_rep xs (s\<lparr>il_lineAddr := (il_lineAddr s)(l := a),
    lineMap := ((lineMap s)(il_lineAddr s l := None))(a \<mapsto> l)\<rparr>)"
proof -
  note D = il_repD [OF assms(1)]
  have free: "il_lineAddr s k \<noteq> a" if "k < il_numLines s" for k
    using D(5) [OF assms(3) that] assms(4) by auto
  let ?m = "((lineMap s)(il_lineAddr s l := None))(a \<mapsto> l)"
  let ?t = "(il_lineAddr s)(l := a)"
  have "?m b = Some k \<longleftrightarrow> k < il_numLines s \<and> ?t k = b" if "b \<noteq> 0" for b k
  proof (cases "b = a")
    case True
    then show ?thesis using assms(2) free [of k] by auto
  next
    case False
    have F: "lineMap s b = Some i \<longleftrightarrow> i < il_numLines s \<and> il_lineAddr s i = b" for i
      using D(4) [of b i] D(5) [OF that, of i] by blast
    show ?thesis
    proof (cases "il_lineAddr s l = b")
      case True
      then have "lineMap s b = Some l" using F [of l] assms(2) by simp
      then show ?thesis using F [of k] True False by auto
    next
      case b: False
      then show ?thesis using F [of k] False by auto
    qed
  qed
  moreover have "k < il_numLines s \<and> ?t k = 0" if "?m 0 = Some k" for k
    using D(4) [of 0 k] that assms(3) by (cases "il_lineAddr s l = 0"; cases "k = l") auto
  ultimately show ?thesis using assms(1) by (simp add: il_rep_def)
qed

lemma il_postinsert_ok:
  assumes "il_rep xs s" and "l < il_numLines s" and "a \<noteq> 0" and "lineMap s a = None"
  obtains ps qs s' where "xs = ps @ l # qs" "il_postinsert a req l s = Inr s'" "il_rep (l # ps @ qs) s'"
    "il_lineAddr s' = (il_lineAddr s)(l := a)" "il_numLines s' = il_numLines s"
    "lineMap s' = ((lineMap s)(il_lineAddr s l := None))(a \<mapsto> l)"
proof -
  let ?s = "s\<lparr>il_lineAddr := (il_lineAddr s)(l := a),
    lineMap := ((lineMap s)(il_lineAddr s l := None))(a \<mapsto> l)\<rparr>"
  obtain ps qs h where "xs = ps @ l # qs" "il_to_front l ?s = Inr (?s\<lparr>lruList := h\<rparr>)"
    "il_rep (l # ps @ qs) (?s\<lparr>lruList := h\<rparr>)"
    by (rule il_to_front_any [OF il_rep_set [OF assms], of l]) (use assms(2) in auto)
  then show thesis
    using that [of ps qs "?s\<lparr>lruList := h\<rparr>"] assms(3,4) by (simp add: il_postinsert_def Let_def)
qed

lemma il_lookup_ok:
  assumes "il_rep xs s"
  shows "\<exists>s'. il_lookup a r u s = Inr (lineMap s a, s') \<and> (\<exists>xs'. il_rep xs' s')
    \<and> il_lineAddr s' = il_lineAddr s \<and> lineMap s' = lineMap s \<and> il_numLines s' = il_numLines s"
proof (cases "lineMap s a")
  case (Some l)
  with il_repD(4) [OF assms] have "l < il_numLines s" by blast
  then obtain ps qs h where "il_to_front l s = Inr (s\<lparr>lruList := h\<rparr>)"
    "il_rep (l # ps @ qs) (s\<lparr>lruList := h\<rparr>)"
    using il_to_front_any [OF assms] by metis
  with Some assms show ?thesis by (cases u) (auto simp: il_lookup_def)
qed (use assms in \<open>auto simp: il_lookup_def\<close>)

lemma il_tail:
  assumes "il_rep xs s"
  shows "xs \<noteq> []" "tail (lruList s) 0 = Some (last xs)" "last xs < il_numLines s"
proof -
  note D = il_repD [OF assms]
  show ne: "xs \<noteq> []" using D(2) [symmetric] D(6) by (cases xs) (auto simp: lessThan_empty_iff)
  show "tail (lruList s) 0 = Some (last xs)" using store_okD(3) [OF D(1), of 0] ne by (simp add: last_or_def)
  show "last xs < il_numLines s" using last_in_set [OF ne] D(2) by simp
qed

interpretation il: cache_array il_ops "\<lambda>a s. lineMap s a" il_lineAddr il_numLines
  "\<lambda>s. \<exists>xs. il_rep xs s" "\<lambda>_ l s. (\<exists>xs. il_rep xs s) \<and> l < il_numLines s" "\<lambda>a. a \<noteq> 0"
proof
  fix a b l k s assume "lineMap s a = Some l"
    and "(\<exists>xs. il_rep xs s) \<or> (\<exists>xs. il_rep xs s) \<and> k < il_numLines s"
  then show "il_lineAddr s l = a" using il_repD(4) by blast
next
  fix a b l k s assume "lineMap s a = Some l"
    and "(\<exists>xs. il_rep xs s) \<or> (\<exists>xs. il_rep xs s) \<and> k < il_numLines s"
  then show "l < il_numLines s" using il_repD(4) by blast
next
  fix s a r u assume "\<exists>xs. il_rep xs s"
  then obtain xs where "il_rep xs s" by blast
  from il_lookup_ok [OF this, of a r "u \<and> r \<noteq> None"]
  show "\<exists>s'. a_lookup il_ops a r (u \<and> r \<noteq> None) s = Inr (lineMap s a, s') \<and> (\<exists>xs. il_rep xs s')
    \<and> il_lineAddr s' = il_lineAddr s \<and> (\<forall>b. lineMap s' b = lineMap s b) \<and> il_numLines s' = il_numLines s"
    by (auto simp: il_ops_def)
next
  fix c l s a r u assume p: "(\<exists>xs. il_rep xs s) \<and> l < il_numLines s"
  then obtain xs where "il_rep xs s" by blast
  from il_lookup_ok [OF this, of a r "u \<and> r \<noteq> None"] p
  show "\<exists>s'. a_lookup il_ops a r (u \<and> r \<noteq> None) s = Inr (lineMap s a, s')
    \<and> ((\<exists>xs. il_rep xs s') \<and> l < il_numLines s') \<and> il_lineAddr s' = il_lineAddr s
    \<and> (\<forall>b. lineMap s' b = lineMap s b) \<and> il_numLines s' = il_numLines s"
    by (auto simp: il_ops_def)
next
  fix s a cc req assume "\<exists>xs. il_rep xs s"
  then show "\<exists>l s'. a_preinsert il_ops cc a req s = Inr (l, il_lineAddr s l, s')
    \<and> ((\<exists>xs. il_rep xs s') \<and> l < il_numLines s') \<and> l < il_numLines s \<and> il_lineAddr s' = il_lineAddr s
    \<and> (\<forall>b. lineMap s' b = lineMap s b) \<and> il_numLines s' = il_numLines s"
    using il_tail by (fastforce simp: il_ops_def il_preinsert_def)
next
  fix s a l req
  assume "(\<exists>xs. il_rep xs s) \<and> l < il_numLines s" and a: "a \<noteq> 0" "lineMap s a = None"
  then obtain xs where r: "il_rep xs s" "l < il_numLines s" by blast
  obtain ps qs s' where p: "xs = ps @ l # qs" "il_postinsert a req l s = Inr s'" "il_rep (l # ps @ qs) s'"
    "il_lineAddr s' = (il_lineAddr s)(l := a)" "il_numLines s' = il_numLines s"
    "lineMap s' = ((lineMap s)(il_lineAddr s l := None))(a \<mapsto> l)"
    by (rule il_postinsert_ok [OF r a])
  show "\<exists>s'. a_postinsert il_ops a req l s = Inr s' \<and> (\<exists>xs. il_rep xs s') \<and> lineMap s' a = Some l
    \<and> il_lineAddr s' = (il_lineAddr s)(l := a) \<and> il_numLines s' = il_numLines s
    \<and> (\<forall>b i. b \<noteq> 0 \<longrightarrow> b \<noteq> a \<longrightarrow> lineMap s b = Some i \<longrightarrow> i \<noteq> l \<longrightarrow> lineMap s' b = Some i)
    \<and> (\<forall>b. b \<noteq> 0 \<longrightarrow> b \<noteq> a \<longrightarrow> lineMap s b = None \<longrightarrow> lineMap s' b = None)"
    using p il_repD(5) [OF r(1) _ r(2)] by (intro exI [of _ s']) (auto simp: il_ops_def)
qed

subsection \<open>The LRU stack\<close>

text \<open>
  An access as a cache makes it: a lookup that updates the replacement state, and on a miss the
  two insertion steps. The reference is the list of resident addresses, most recent first.
\<close>

definition il_access :: "cc_view \<Rightarrow> mem_req \<Rightarrow> address \<Rightarrow> ideal_lru \<Rightarrow> (bool \<times> ideal_lru) res" where
  "il_access cc req a s =
     rbind (il_lookup a (Some req) True s) (\<lambda>(hit, s1).
       case hit of
         Some _ \<Rightarrow> Inr (True, s1)
       | None \<Rightarrow> rbind (il_preinsert cc a req s1) (\<lambda>(l, wb, s2).
           rbind (il_postinsert a req l s2) (\<lambda>s3. Inr (False, s3))))"

fun il_run :: "cc_view \<Rightarrow> mem_req \<Rightarrow> address list \<Rightarrow> ideal_lru \<Rightarrow> bool list res" where
  "il_run cc req [] s = Inr []"
| "il_run cc req (a # as) s = rbind (il_access cc req a s) (\<lambda>(hit, s').
     rbind (il_run cc req as s') (\<lambda>hits. Inr (hit # hits)))"

text \<open>The resident addresses come first in the list; lines that were never used follow.\<close>

definition il_abs :: "address list \<Rightarrow> ideal_lru \<Rightarrow> bool" where
  "il_abs st s \<longleftrightarrow> (\<exists>xs. il_rep xs s \<and> 0 \<notin> set st
     \<and> map (il_lineAddr s) xs = st @ replicate (il_numLines s - length st) 0)"

lemma il_abs_mem:
  assumes "il_rep xs s" and "map (il_lineAddr s) xs = st @ replicate k 0" and "a \<noteq> 0"
  shows "a \<in> set st \<longleftrightarrow> lineMap s a \<noteq> None"
proof -
  note D = il_repD [OF assms(1)]
  have "a \<in> set st \<longleftrightarrow> a \<in> set (map (il_lineAddr s) xs)" using assms(2,3) by (auto split: if_splits)
  also have "\<dots> \<longleftrightarrow> (\<exists>l < il_numLines s. il_lineAddr s l = a)" using D(2) by auto
  also have "\<dots> \<longleftrightarrow> lineMap s a \<noteq> None" using D(4,5) assms(3) by blast
  finally show ?thesis .
qed

lemma il_rep_length:
  assumes "il_rep xs s"
  shows "length xs = il_numLines s"
  using il_repD(2,3) [OF assms] distinct_card by fastforce

lemma split_at_unique:
  assumes "map f ps @ a # map f qs = st @ replicate k z" and "a \<noteq> z" and "a \<notin> set (map f ps)"
    and "a \<notin> set (map f qs)"
  obtains t where "st = map f ps @ a # t" "map f qs = t @ replicate k z"
proof -
  from assms(1) obtain us where "map f ps = st @ us \<and> us @ a # map f qs = replicate k z
      \<or> map f ps @ us = st \<and> a # map f qs = us @ replicate k z"
    by (auto simp: append_eq_append_conv2)
  then show thesis
  proof
    assume "map f ps = st @ us \<and> us @ a # map f qs = replicate k z"
    then have "a \<in> set (replicate k z)" by (metis in_set_conv_decomp)
    then show thesis using assms(2) by (simp split: if_splits)
  next
    assume c: "map f ps @ us = st \<and> a # map f qs = us @ replicate k z"
    show thesis
    proof (cases us)
      case Nil
      with c have "a \<in> set (replicate k z)" by (metis append_Nil list.set_intros(1))
      then show thesis using assms(2) by (simp split: if_splits)
    next
      case (Cons u t)
      with c show thesis using that [of t] by auto
    qed
  qed
qed

lemma il_hit:
  assumes abs: "il_abs st s" and a: "a \<noteq> 0" and hit: "lineMap s a = Some l"
  shows "\<exists>s'. il_access cc req a s = Inr (True, s') \<and> il_abs (stack_touch (il_numLines s) a st) s'
    \<and> il_numLines s' = il_numLines s"
proof -
  from abs obtain xs where r: "il_rep xs s" "0 \<notin> set st"
    and m: "map (il_lineAddr s) xs = st @ replicate (il_numLines s - length st) 0"
    by (auto simp: il_abs_def)
  note D = il_repD [OF r(1)]
  have l: "l < il_numLines s" "il_lineAddr s l = a" using D(4) [OF hit] by simp_all
  obtain ps qs h where xs: "xs = ps @ l # qs" and h: "il_to_front l s = Inr (s\<lparr>lruList := h\<rparr>)"
    "il_rep (l # ps @ qs) (s\<lparr>lruList := h\<rparr>)"
    by (rule il_to_front_any [OF r(1) l(1)])
  have no: "a \<notin> set (map (il_lineAddr s) ps)" "a \<notin> set (map (il_lineAddr s) qs)"
  proof -
    have "il_lineAddr s k \<noteq> a" if "k \<in> set ps \<union> set qs" for k
    proof
      assume "il_lineAddr s k = a"
      moreover have "k < il_numLines s" using that D(2) xs by auto
      ultimately have "k = l" using D(5) [OF a] hit by auto
      then show False using that D(3) xs by auto
    qed
    then show "a \<notin> set (map (il_lineAddr s) ps)" "a \<notin> set (map (il_lineAddr s) qs)" by auto
  qed
  obtain t where st: "st = map (il_lineAddr s) ps @ a # t"
    and t: "map (il_lineAddr s) qs = t @ replicate (il_numLines s - length st) 0"
    by (rule split_at_unique [of "il_lineAddr s" ps a qs st "il_numLines s - length st" 0])
      (use m xs l(2) a no in auto)
  have len: "length st \<le> il_numLines s"
    using il_rep_length [OF r(1)] arg_cong [OF m, of length] by simp
  have "stack_touch (il_numLines s) a st = a # map (il_lineAddr s) ps @ t"
    using len no(1) by (simp add: stack_touch_def st remove1_append)
  moreover have "il_abs (a # map (il_lineAddr s) ps @ t) (s\<lparr>lruList := h\<rparr>)"
    unfolding il_abs_def
    by (intro exI [of _ "l # ps @ qs"]) (use h(2) t l(2) r(2) a in \<open>auto simp: st\<close>)
  ultimately show ?thesis using hit h(1) by (simp add: il_access_def il_lookup_def)
qed

lemma il_miss:
  assumes abs: "il_abs st s" and a: "a \<noteq> 0" and miss: "lineMap s a = None"
  shows "\<exists>s'. il_access cc req a s = Inr (False, s') \<and> il_abs (stack_touch (il_numLines s) a st) s'
    \<and> il_numLines s' = il_numLines s"
proof -
  from abs obtain xs where r: "il_rep xs s" "0 \<notin> set st"
    and m: "map (il_lineAddr s) xs = st @ replicate (il_numLines s - length st) 0"
    by (auto simp: il_abs_def)
  note D = il_repD [OF r(1)]
  note tl = il_tail [OF r(1)]
  obtain ps qs s' where p: "xs = ps @ last xs # qs" "il_postinsert a req (last xs) s = Inr s'"
    "il_rep (last xs # ps @ qs) s'" "il_lineAddr s' = (il_lineAddr s)(last xs := a)"
    "il_numLines s' = il_numLines s"
    by (rule il_postinsert_ok [OF r(1) tl(3) a miss])
  have qs: "qs = []"
    using p(1) D(3) last_in_set [of qs] by (metis distinct.simps(2) distinct_append last_appendR last_ConsR list.distinct(1))
  then have bl: "ps = butlast xs" "last xs \<notin> set ps" using p(1) D(3)
    by (metis butlast_snoc, metis distinct_append distinct.simps(2) not_distinct_conv_prefix)
  have len: "length st \<le> il_numLines s" "il_numLines s > 0" "length xs = il_numLines s"
    using il_rep_length [OF r(1)] arg_cong [OF m, of length] D(6) by simp_all
  have notin: "a \<notin> set st" using il_abs_mem [OF r(1) m a] miss by simp
  have mp: "map (il_lineAddr s') ps = butlast (st @ replicate (il_numLines s - length st) 0)"
  proof -
    have "map (il_lineAddr s') ps = map (il_lineAddr s) ps" using bl(2) p(4) by simp
    then show ?thesis using m bl(1) by (simp add: map_butlast)
  qed
  have touch: "stack_touch (il_numLines s) a st = a # take (il_numLines s - 1) st"
    using notin len(2) by (cases "il_numLines s") (simp_all add: stack_touch_def remove1_idem)
  have eq: "butlast (st @ replicate (il_numLines s - length st) 0)
    = take (il_numLines s - 1) st @ replicate (il_numLines s - 1 - length st) 0"
    using len by (simp add: butlast_conv_take min_def)
  have "il_abs (a # take (il_numLines s - 1) st) s'"
    unfolding il_abs_def
  proof (intro exI [of _ "last xs # ps @ qs"] conjI)
    show "0 \<notin> set (a # take (il_numLines s - 1) st)" using a r(2) by (auto dest: in_set_takeD)
    show "map (il_lineAddr s') (last xs # ps @ qs) = (a # take (il_numLines s - 1) st)
      @ replicate (il_numLines s' - length (a # take (il_numLines s - 1) st)) 0"
      using mp eq qs p(4,5) len by (simp add: min_def)
  qed (rule p(3))
  then show ?thesis
    using miss tl(2) p(2,5) touch by (simp add: il_access_def il_lookup_def il_preinsert_def)
qed

lemma il_access_refines:
  assumes abs: "il_abs st s" and a: "a \<noteq> 0"
  shows "\<exists>s'. il_access cc req a s = Inr (a \<in> set st, s') \<and> il_numLines s' = il_numLines s
    \<and> il_abs (stack_touch (il_numLines s) a st) s'"
proof -
  from abs have mem: "a \<in> set st \<longleftrightarrow> lineMap s a \<noteq> None"
    using il_abs_mem [OF _ _ a] by (auto simp: il_abs_def)
  show ?thesis
  proof (cases "lineMap s a")
    case None
    with il_miss [OF abs a None, of cc req] mem show ?thesis by auto
  next
    case (Some l)
    with il_hit [OF abs a Some, of cc req] mem show ?thesis by auto
  qed
qed

lemma il_push_lines_ok:
  "store_ok ((\<lambda>_. [])(0 := xs)) h \<Longrightarrow> distinct is \<Longrightarrow> set is \<inter> set xs = {} \<Longrightarrow>
    \<exists>h'. il_push_lines is h = Inr h' \<and> store_ok ((\<lambda>_. [])(0 := rev is @ xs)) h'"
proof (induction "is" arbitrary: xs h)
  case (Cons i "is")
  have "own h i = None"
    using store_okD(6) [OF Cons.prems(1), of i] Cons.prems(3) by (cases "own h i") (auto split: if_splits)
  from push_front_ok [OF Cons.prems(1) this, of 0] obtain h1 where
    h1: "push_front 0 i h = Inr h1" "store_ok ((\<lambda>_. [])(0 := i # xs)) h1"
    by (metis fun_upd_upd fun_upd_same)
  from Cons.IH [OF h1(2)] Cons.prems h1(1) show ?case by auto
qed simp

lemma ideal_lru_init_abs:
  assumes "0 < n"
  shows "\<exists>s. ideal_lru_init n = Inr s \<and> il_abs [] s \<and> il_numLines s = n"
proof -
  have "store_ok ((\<lambda>_. [])(0 := [])) (store_init :: nat list_store)"
    using store_ok_init by (simp add: fun_upd_idem)
  from il_push_lines_ok [OF this, of "[0..<n]"] obtain h where
    h: "il_push_lines [0..<n] store_init = Inr h" "store_ok ((\<lambda>_. [])(0 := rev [0..<n])) h" by auto
  have "il_abs [] \<lparr>il_lineAddr = (\<lambda>_. 0), lruList = h, lineMap = Map.empty, il_numLines = n\<rparr>"
    unfolding il_abs_def
    by (intro exI [of _ "rev [0..<n]"]) (use h(2) assms in \<open>auto simp: il_rep_def map_replicate_const\<close>)
  with h(1) show ?thesis by (simp add: ideal_lru_init_def)
qed

lemma il_run_refines:
  "il_abs st s \<Longrightarrow> 0 \<notin> set as \<Longrightarrow> il_run cc req as s = Inr (stack_run (il_numLines s) as st)"
proof (induction as arbitrary: st s)
  case (Cons a as)
  from il_access_refines [OF Cons.prems(1), of a cc req] Cons.prems(2) obtain s' where
    "il_access cc req a s = Inr (a \<in> set st, s')" "il_numLines s' = il_numLines s"
    "il_abs (stack_touch (il_numLines s) a st) s'" by auto
  with Cons.IH [of _ s'] Cons.prems(2) show ?case by simp
qed simp

text \<open>
  C10. The fully associative array behaves as the textbook LRU stack: for every sequence of
  non-zero addresses it never fails, and it hits exactly when the address is among the resident
  addresses of a recency list that is cut at the number of lines. In particular it has the
  stack's inclusion property: an access that hits with \<open>n\<close> lines hits with any \<open>m \<ge> n\<close>.
\<close>

theorem ideal_lru_is_lru_stack:
  assumes "0 < n" and "n \<le> m" and "0 \<notin> set as"
  shows "\<exists>s s' hs hs'. ideal_lru_init n = Inr s \<and> ideal_lru_init m = Inr s'
    \<and> il_run cc req as s = Inr hs \<and> il_run cc req as s' = Inr hs'
    \<and> hs = stack_run n as [] \<and> list_all2 (\<longrightarrow>) hs hs'"
proof -
  from assms(1,2) have "0 < m" by simp
  from ideal_lru_init_abs [OF assms(1)] ideal_lru_init_abs [OF this] obtain s s' where
    "ideal_lru_init n = Inr s" "il_abs [] s" "il_numLines s = n"
    "ideal_lru_init m = Inr s'" "il_abs [] s'" "il_numLines s' = m" by blast
  with il_run_refines [of "[]" s as cc req] il_run_refines [of "[]" s' as cc req] assms(3)
    stack_run_inclusion [of "[]" n "[]" m as] assms(2) show ?thesis by auto
qed

theorem ideal_lru_is_lru_stack_witness:
  "\<forall>cc req. \<exists>s hs. ideal_lru_init 2 = Inr s \<and> il_run cc req [7, 8, 7, 9, 8, 7] s = Inr hs
     \<and> hs = [False, False, True, False, False, False]"
proof (intro allI)
  fix cc req
  have "stack_run 2 [7, 8, 7, 9, 8, 7 :: address] [] = [False, False, True, False, False, False]"
    by (simp add: stack_touch_def)
  then show "\<exists>s hs. ideal_lru_init 2 = Inr s \<and> il_run cc req [7, 8, 7, 9, 8, 7] s = Inr hs
     \<and> hs = [False, False, True, False, False, False]"
    using ideal_lru_is_lru_stack [of 2 3 "[7, 8, 7, 9, 8, 7]" cc req] by fastforce
qed

text \<open>
  Address 0 is not safe in the array: after an insertion of address 0, the insertion of any
  other address into a line that was never used erases address 0 from the table, although its
  line still holds it. The next access to address 0 misses, and a second line then holds it.
\<close>

theorem ideal_lru_loses_address_zero:
  assumes "a \<noteq> 0"
  shows "\<exists>s. ideal_lru_init 3 = Inr s \<and> il_run cc req [0, a, 0] s = Inr [False, False, False]
    \<and> stack_run 3 [0, a, 0] [] = [False, False, True]"
proof -
  show ?thesis
    using assms
    by (simp add: ideal_lru_init_def store_init_def push_front_def Let_def upt_rec il_access_def
        il_lookup_def il_preinsert_def il_postinsert_def il_to_front_def in_remove_def unlink_def
        set_nx_def set_pv_def dec_elems_def in_empty_def stack_touch_def)
qed

theorem ideal_lru_loses_address_zero_witness:
  "\<forall>cc req. \<exists>s. ideal_lru_init 3 = Inr s \<and> il_run cc req [0, 5, 0] s = Inr [False, False, False]
    \<and> stack_run 3 [0, 5, 0 :: address] [] = [False, False, True]"
  using ideal_lru_loses_address_zero [of 5] by simp

end
