(* ===== verification/UtilityMonitor.thy ===== *)
theory UtilityMonitor
  imports MemTypes ArrayIface LruStack
begin

section \<open>Utility monitors\<close>

text \<open>
  class \<open>UMon\<close> of utility_monitor.h and utility_monitor.cpp: sampled tags that estimate how many
  misses a partition has with every number of ways. Each set is a linked list of nodes, the
  most recently used first. A node \<open>(i, j)\<close> is element \<open>j\<close> of \<open>array[i]\<close>. The hash family is
  a parameter. Following a null \<open>next\<close> pointer is \<open>Panic\<close>, as is a division by zero.

  The lemmas show that each list is an LRU stack and that the curve \<open>getMisses\<close> returns counts,
  for every \<open>k\<close>, exactly the misses of stacks of \<open>k\<close> ways on the sampled accesses.
\<close>

type_synonym umon_node = "nat \<times> nat"

record umon =
  um_buckets :: nat
  um_sets :: nat
  samplingFactorBits :: nat
  setsBits :: nat
  curWayHits :: "nat \<Rightarrow> u64"
  curMisses :: u64
  n_addr :: "umon_node \<Rightarrow> address"
  n_next :: "umon_node \<Rightarrow> umon_node option"
  heads :: "nat \<Rightarrow> umon_node"

text \<open>The loop \<open>while (tmp >>= 1) bits++\<close>.\<close>

fun shift_count :: "nat \<Rightarrow> nat" where
  "shift_count tmp = (if tmp div 2 = 0 then 0 else Suc (shift_count (tmp div 2)))"

declare shift_count.simps [simp del]

definition umon_init :: "nat \<Rightarrow> nat \<Rightarrow> nat \<Rightarrow> umon res" where
  "umon_init bankLines umonLines nbuckets =
     (if umonLines = 0 \<or> nbuckets = 0 then Inl Panic
      else let samplingFactor = bankLines div umonLines; nsets = umonLines div nbuckets
           in Inr \<lparr>um_buckets = nbuckets, um_sets = nsets,
                   samplingFactorBits = shift_count samplingFactor, setsBits = shift_count nsets,
                   curWayHits = (\<lambda>_. 0), curMisses = 0, n_addr = (\<lambda>_. 0),
                   n_next = (\<lambda>(i, j). if j < nbuckets - 1 then Some (i, j + 1) else None),
                   heads = (\<lambda>i. (i, 0))\<rparr>)"

definition umon_sampled :: "hash_family \<Rightarrow> umon \<Rightarrow> address \<Rightarrow> bool" where
  "umon_sampled hf u a \<longleftrightarrow> hf 0 a AND NOT (push_bit (samplingFactorBits u) (- 1)) = 0"

definition umon_set :: "hash_family \<Rightarrow> umon \<Rightarrow> address \<Rightarrow> nat" where
  "umon_set hf u a = unat (hf 1 a AND NOT (push_bit (setsBits u) (- 1)))"

text \<open>The search for the address: the position of a hit, and the last \<open>prev\<close> and \<open>cur\<close>.\<close>

function umon_scan :: "umon \<Rightarrow> address \<Rightarrow> nat \<Rightarrow> umon_node option \<Rightarrow> umon_node \<Rightarrow>
    (nat option \<times> umon_node option \<times> umon_node) res" where
  "umon_scan u a b prev cur =
     (if b < um_buckets u then
        if n_addr u cur = a then Inr (Some b, prev, cur)
        else if b < um_buckets u - 1 then
          (case n_next u cur of
             None \<Rightarrow> Inl Panic
           | Some c \<Rightarrow> umon_scan u a (b + 1) (Some cur) c)
        else umon_scan u a (b + 1) prev cur
      else Inr (None, prev, cur))"
  by pat_completeness auto
termination by (relation "measure (\<lambda>(u, a, b, prev, cur). um_buckets u - b)") auto

declare umon_scan.simps [simp del]

definition umon_to_front :: "nat \<Rightarrow> umon_node option \<Rightarrow> umon_node \<Rightarrow> umon \<Rightarrow> umon" where
  "umon_to_front s prev cur u =
     (case prev of
        None \<Rightarrow> u
      | Some p \<Rightarrow> u\<lparr>n_next := ((n_next u)(p := n_next u cur))(cur := Some (heads u s)),
                    heads := (heads u)(s := cur)\<rparr>)"

definition umon_access :: "hash_family \<Rightarrow> address \<Rightarrow> umon \<Rightarrow> umon res" where
  "umon_access hf a u =
     (if \<not> umon_sampled hf u a then Inr u
      else let s = umon_set hf u a in
        rbind (umon_scan u a 0 None (heads u s)) (\<lambda>(hit, prev, cur).
          case hit of
            Some b \<Rightarrow>
              Inr (umon_to_front s prev cur (u\<lparr>curWayHits := (curWayHits u)(b := curWayHits u b + 1)\<rparr>))
          | None \<Rightarrow> assert_then (n_next u cur = None)
              (Inr (umon_to_front s prev cur
                 (u\<lparr>curMisses := curMisses u + 1, n_addr := (n_addr u)(cur := a)\<rparr>)))))"

fun umon_total :: "umon \<Rightarrow> nat \<Rightarrow> u64" where
  "umon_total u 0 = curMisses u"
| "umon_total u (Suc i) = umon_total u i + curWayHits u (um_buckets u - i - 1)"

definition umon_getNumAccesses :: "umon \<Rightarrow> u64" where
  "umon_getNumAccesses u = umon_total u (um_buckets u)"

text \<open>\<open>misses[buckets - i]\<close> is the running total before step \<open>i\<close>.\<close>

definition umon_getMisses :: "umon \<Rightarrow> u64 list" where
  "umon_getMisses u = map (\<lambda>k. umon_total u (um_buckets u - k)) [0..<um_buckets u + 1]"

definition umon_startNextInterval :: "umon \<Rightarrow> umon" where
  "umon_startNextInterval u =
     u\<lparr>curMisses := 0, curWayHits := (\<lambda>b. if b < um_buckets u then 0 else curWayHits u b)\<rparr>"

fun umon_run :: "hash_family \<Rightarrow> address list \<Rightarrow> umon \<Rightarrow> umon res" where
  "umon_run hf [] u = Inr u"
| "umon_run hf (a # as) u = rbind (umon_access hf a u) (umon_run hf as)"

subsection \<open>The set index\<close>

lemma shift_count_le: "0 < n \<Longrightarrow> 2 ^ shift_count n \<le> n"
proof (induction n rule: shift_count.induct)
  case (1 tmp)
  then show ?case by (subst shift_count.simps) (auto simp: not_less_eq_eq)
qed

lemma low_mask_lt: "unat (x AND NOT (push_bit n (- 1)) :: u64) < 2 ^ n"
proof -
  have "x AND NOT (push_bit n (- 1)) = take_bit n x"
    by (rule bit_word_eqI) (auto simp: bit_simps)
  then show ?thesis by (simp add: unsigned_take_bit_eq)
qed

lemma umon_set_lt:
  assumes "setsBits u = shift_count (um_sets u)" and "0 < um_sets u"
  shows "umon_set hf u a < um_sets u"
  using low_mask_lt [of "hf 1 a" "setsBits u"] shift_count_le [OF assms(2)] assms(1)
  by (simp add: umon_set_def)

subsection \<open>The linked lists\<close>

fun chain :: "('n \<Rightarrow> 'n option) \<Rightarrow> 'n list \<Rightarrow> bool" where
  "chain f [] \<longleftrightarrow> True"
| "chain f [x] \<longleftrightarrow> f x = None"
| "chain f (x # y # xs) \<longleftrightarrow> f x = Some y \<and> chain f (y # xs)"

lemma chain_Cons: "chain f (x # xs) \<longleftrightarrow> f x = (if xs = [] then None else Some (hd xs)) \<and> chain f xs"
  by (cases xs) auto

lemma chain_append:
  "chain f (xs @ y # ys) \<Longrightarrow> chain f (y # ys) \<and> f y = (if ys = [] then None else Some (hd ys))"
  by (induction xs) (auto simp: chain_Cons)

lemma chain_cong: "(\<And>x. x \<in> set xs \<Longrightarrow> f x = g x) \<Longrightarrow> chain f xs = chain g xs"
  by (induction xs rule: chain.induct) auto

lemma chain_bridge:
  "chain f (ps @ c # qs) \<Longrightarrow> distinct (ps @ c # qs) \<Longrightarrow> ps \<noteq> [] \<Longrightarrow> chain (f(last ps := f c)) (ps @ qs)"
proof (induction ps)
  case (Cons p ps)
  have fc: "f c = (if qs = [] then None else Some (hd qs))" "chain f qs"
    using chain_append [of f "p # ps" c qs] Cons.prems(1) by (simp_all add: chain_Cons)
  show ?case
  proof (cases ps)
    case Nil
    have "f x = (f(p := f c)) x" if "x \<in> set qs" for x using that Cons.prems(2) by auto
    then have "chain (f(p := f c)) qs" using chain_cong fc(2) by metis
    then show ?thesis using Nil fc(1) by (cases "qs = []") (simp_all add: chain_Cons fun_upd_def)
  next
    case (Cons q rs)
    let ?g = "f(last ps := f c)"
    have "chain f (ps @ c # qs)" "distinct (ps @ c # qs)" "ps \<noteq> []" using Cons.prems Cons by auto
    from Cons.IH [OF this] have "chain ?g (ps @ qs)" .
    moreover have "p \<noteq> last ps" using Cons Cons.prems(2) by auto
    moreover have "f p = Some q" using Cons Cons.prems(1) by simp
    moreover have "last (p # ps) = last ps" "(p # ps) @ qs = p # (ps @ qs)" "ps @ qs \<noteq> []"
      "hd (ps @ qs) = q" using Cons by simp_all
    ultimately show ?thesis by (simp only: chain_Cons fun_upd_other if_False simp_thms)
  qed
qed simp

lemma chain_to_front:
  assumes "chain f (ps @ c # qs)" and "distinct (ps @ c # qs)" and "ps \<noteq> []"
  shows "chain ((f(last ps := f c))(c := Some (hd ps))) (c # ps @ qs)"
proof -
  have "c \<notin> set (ps @ qs)" using assms(2) by auto
  then have "chain ((f(last ps := f c))(c := Some (hd ps))) (ps @ qs)"
    using chain_cong [of "ps @ qs" "f(last ps := f c)" "(f(last ps := f c))(c := Some (hd ps))"]
      chain_bridge [OF assms] by fastforce
  then show ?thesis using assms(3) by (simp add: chain_Cons)
qed

text \<open>The nodes of set \<open>s\<close>, from its head.\<close>

definition set_nodes :: "umon \<Rightarrow> nat \<Rightarrow> umon_node list \<Rightarrow> bool" where
  "set_nodes u s ns \<longleftrightarrow> chain (n_next u) ns \<and> distinct ns \<and> ns \<noteq> [] \<and> hd ns = heads u s
     \<and> length ns = um_buckets u \<and> fst ` set ns = {s}"

lemma umon_scan_hit:
  assumes "chain (n_next u) (ps @ rs @ c # qs)" and "length (ps @ rs @ c # qs) = um_buckets u"
    and "\<forall>x \<in> set rs. n_addr u x \<noteq> a" and "n_addr u c = a"
  shows "umon_scan u a (length ps) (if ps = [] then None else Some (last ps)) (hd (rs @ [c]))
    = Inr (Some (length (ps @ rs)), (if ps @ rs = [] then None else Some (last (ps @ rs))), c)"
  using assms(1-3)
proof (induction rs arbitrary: ps)
  case Nil
  then show ?case using assms(4) by (subst umon_scan.simps) simp
next
  case (Cons r rs)
  have "n_next u r = Some (hd (rs @ [c]))"
    using chain_append [of "n_next u" ps r "rs @ c # qs"] Cons.prems(1) by (cases rs) auto
  moreover have "Suc (length ps) < um_buckets u" using Cons.prems(2) by simp
  ultimately show ?case
    using Cons.IH [of "ps @ [r]"] Cons.prems by (subst umon_scan.simps) (simp add: less_diff_conv)
qed

lemma umon_scan_miss:
  assumes "chain (n_next u) (ps @ rs @ [c])" and "length (ps @ rs @ [c]) = um_buckets u"
    and "\<forall>x \<in> set (rs @ [c]). n_addr u x \<noteq> a"
  shows "umon_scan u a (length ps) (if ps = [] then None else Some (last ps)) (hd (rs @ [c]))
    = Inr (None, (if ps @ rs = [] then None else Some (last (ps @ rs))), c)"
  using assms
proof (induction rs arbitrary: ps)
  case Nil
  have stop: "umon_scan u a (um_buckets u) prev cur = Inr (None, prev, cur)" for prev cur
    by (subst umon_scan.simps) simp
  from Nil have n: "um_buckets u = Suc (length ps)" by simp
  with Nil show ?case using stop [unfolded n] by (subst umon_scan.simps) simp
next
  case (Cons r rs)
  have "n_next u r = Some (hd (rs @ [c]))"
    using chain_append [of "n_next u" ps r "rs @ [c]"] Cons.prems(1) by (cases rs) auto
  moreover have "Suc (length ps) < um_buckets u" using Cons.prems(2) by simp
  ultimately show ?case
    using Cons.IH [of "ps @ [r]"] Cons.prems by (subst umon_scan.simps) (simp add: less_diff_conv)
qed

lemma umon_scan_nodes:
  assumes "set_nodes u s ns"
  shows "a \<notin> n_addr u ` set ns \<Longrightarrow> umon_scan u a 0 None (heads u s)
      = Inr (None, (if butlast ns = [] then None else Some (last (butlast ns))), last ns)"
    and "ns = ps @ c # qs \<Longrightarrow> n_addr u c = a \<Longrightarrow> a \<notin> n_addr u ` set ps \<Longrightarrow>
      umon_scan u a 0 None (heads u s)
      = Inr (Some (length ps), (if ps = [] then None else Some (last ps)), c)"
proof -
  show "umon_scan u a 0 None (heads u s)
      = Inr (None, (if butlast ns = [] then None else Some (last (butlast ns))), last ns)"
    if "a \<notin> n_addr u ` set ns"
  proof -
    have ns: "ns = butlast ns @ [last ns]" using assms by (simp add: set_nodes_def)
    then have "hd (butlast ns @ [last ns]) = heads u s" using assms by (simp add: set_nodes_def)
    moreover have "\<forall>x \<in> set (butlast ns @ [last ns]). n_addr u x \<noteq> a" using that ns by auto
    ultimately show ?thesis
      using umon_scan_miss [of u "[]" "butlast ns" "last ns" a] assms ns [symmetric]
      by (simp add: set_nodes_def)
  qed
  show "umon_scan u a 0 None (heads u s)
      = Inr (Some (length ps), (if ps = [] then None else Some (last ps)), c)"
    if "ns = ps @ c # qs" "n_addr u c = a" "a \<notin> n_addr u ` set ps"
  proof -
    have "hd (ps @ [c]) = heads u s" using assms that(1) by (cases ps) (auto simp: set_nodes_def)
    moreover have "\<forall>x \<in> set ps. n_addr u x \<noteq> a" using that(3) by auto
    ultimately show ?thesis
      using umon_scan_hit [of u "[]" ps c qs a] assms that(1,2) by (simp add: set_nodes_def)
  qed
qed

lemma set_nodes_to_front:
  assumes "set_nodes u s ns" and "ns = ps @ c # qs"
  defines "u' \<equiv> umon_to_front s (if ps = [] then None else Some (last ps)) c u"
  shows "set_nodes u' s (c # ps @ qs)" and "n_addr u' = n_addr u"
    and "t \<noteq> s \<Longrightarrow> set_nodes u t ms \<Longrightarrow> set_nodes u' t ms"
proof -
  have R: "chain (n_next u) (ps @ c # qs)" "distinct (ps @ c # qs)" "hd (ps @ [c]) = heads u s"
    "length (ps @ c # qs) = um_buckets u" "fst ` set (ps @ c # qs) = {s}"
    using assms(1,2) by (cases ps; auto simp: set_nodes_def)+
  show "set_nodes u' s (c # ps @ qs)"
  proof (cases "ps = []")
    case True
    then show ?thesis using assms(1,2) by (simp add: u'_def umon_to_front_def)
  next
    case False
    then have hd: "heads u s = hd ps" using R(3) by (cases ps) auto
    show ?thesis
      using chain_to_front [OF R(1,2) False] R False hd
      by (auto simp: u'_def umon_to_front_def set_nodes_def)
  qed
  show "n_addr u' = n_addr u" by (simp add: u'_def umon_to_front_def)
  show "set_nodes u' t ms" if "t \<noteq> s" "set_nodes u t ms"
  proof -
    have fst: "fst x = s" if "x \<in> set (ps @ c # qs)" for x using R(5) that by blast
    have "x \<noteq> c \<and> (ps \<noteq> [] \<longrightarrow> x \<noteq> last ps)" if "x \<in> set ms" for x
    proof -
      have "fst x = t" using that \<open>set_nodes u t ms\<close> by (auto simp: set_nodes_def)
      moreover have "fst c = s" "ps \<noteq> [] \<Longrightarrow> fst (last ps) = s" by (rule fst, simp)+
      ultimately show ?thesis using \<open>t \<noteq> s\<close> by auto
    qed
    then have "chain (n_next u') ms = chain (n_next u) ms"
      by (intro chain_cong) (auto simp: u'_def umon_to_front_def)
    then show ?thesis using that by (simp add: set_nodes_def u'_def umon_to_front_def)
  qed
qed

lemma set_nodes_upd [simp]:
  "set_nodes (u\<lparr>curWayHits := h\<rparr>) s ns = set_nodes u s ns"
  "set_nodes (u\<lparr>curMisses := m, n_addr := f\<rparr>) s ns = set_nodes u s ns"
  by (simp_all add: set_nodes_def)

subsection \<open>Every list is a stack\<close>

definition um_rep :: "umon \<Rightarrow> (nat \<Rightarrow> address list) \<Rightarrow> bool" where
  "um_rep u L \<longleftrightarrow> (\<forall>s < um_sets u. \<exists>ns. set_nodes u s ns \<and> map (n_addr u) ns = L s)"

definition um_frame :: "umon \<Rightarrow> umon \<Rightarrow> bool" where
  "um_frame u u' \<longleftrightarrow> um_buckets u' = um_buckets u \<and> um_sets u' = um_sets u
     \<and> samplingFactorBits u' = samplingFactorBits u \<and> setsBits u' = setsBits u"

lemma um_frame_to_front:
  "um_frame u (umon_to_front s p c (u\<lparr>curWayHits := h\<rparr>))"
  "um_frame u (umon_to_front s p c (u\<lparr>curMisses := m, n_addr := f\<rparr>))"
  "curWayHits (umon_to_front s p c u) = curWayHits u"
  "curMisses (umon_to_front s p c u) = curMisses u"
  by (simp_all add: um_frame_def umon_to_front_def split: option.split)

lemma um_rep_to_front:
  assumes rep: "um_rep u L" and s: "s < um_sets u" and nodes: "set_nodes u s ns" "ns = ps @ c # qs"
    and addr: "\<And>x. x \<notin> set ns \<Longrightarrow> n_addr u x = f x"
    and u1: "\<And>t ms. set_nodes u1 t ms = set_nodes u t ms" "n_addr u1 = f" "um_sets u1 = um_sets u"
  shows "um_rep (umon_to_front s (if ps = [] then None else Some (last ps)) c u1)
    (L(s := map f (c # ps @ qs)))"
proof -
  let ?u = "umon_to_front s (if ps = [] then None else Some (last ps)) c u1"
  have n1: "set_nodes u1 s ns" using nodes(1) u1(1) by simp
  note F = set_nodes_to_front [OF n1 nodes(2)]
  have sets: "um_sets ?u = um_sets u" by (simp add: umon_to_front_def u1(3))
  show ?thesis
    unfolding um_rep_def sets
  proof (intro allI impI)
    fix t assume t: "t < um_sets u"
    show "\<exists>ns. set_nodes ?u t ns \<and> map (n_addr ?u) ns = (L(s := map f (c # ps @ qs))) t"
    proof (cases "t = s")
      case True
      then show ?thesis using F(1,2) u1(2) by (intro exI [of _ "c # ps @ qs"]) simp
    next
      case False
      from rep t obtain ms where ms: "set_nodes u t ms" "map (n_addr u) ms = L t"
        by (auto simp: um_rep_def)
      have "x \<notin> set ns" if "x \<in> set ms" for x
      proof
        assume "x \<in> set ns"
        then have "fst x = s" using nodes(1) by (auto simp: set_nodes_def)
        moreover have "fst x = t" using that ms(1) by (auto simp: set_nodes_def)
        ultimately show False using False by simp
      qed
      then have "map f ms = L t" using ms(2) addr by (metis map_eq_conv)
      then show ?thesis using F(2,3) False ms(1) u1(1,2) by (intro exI [of _ ms]) simp
    qed
  qed
qed

lemma umon_access_step:
  assumes rep: "um_rep u L" and sampled: "umon_sampled hf u a" and s: "umon_set hf u a < um_sets u"
  defines "s \<equiv> umon_set hf u a"
  shows "\<exists>u'. umon_access hf a u = Inr u' \<and> um_frame u u'
    \<and> um_rep u' (L(s := stack_touch (um_buckets u) a (L s)))
    \<and> (if a \<in> set (L s)
       then \<exists>b < um_buckets u. L s ! b = a \<and> (\<forall>i < b. L s ! i \<noteq> a)
              \<and> curWayHits u' = (curWayHits u)(b := curWayHits u b + 1) \<and> curMisses u' = curMisses u
       else curWayHits u' = curWayHits u \<and> curMisses u' = curMisses u + 1)"
proof -
  from rep s obtain ns where ns: "set_nodes u s ns" "map (n_addr u) ns = L s"
    by (auto simp: um_rep_def s_def)
  have len: "length ns = um_buckets u" "ns \<noteq> []" "distinct ns" using ns(1) by (simp_all add: set_nodes_def)
  show ?thesis
  proof (cases "a \<in> set (L s)")
    case True
    then have "\<exists>x \<in> set ns. n_addr u x = a" using ns(2) [symmetric] by auto
    from split_list_first_prop [OF this] obtain ps c qs where
      found: "ns = ps @ c # qs" "n_addr u c = a" "\<forall>x \<in> set ps. n_addr u x \<noteq> a" by blast
    then have split: "ns = ps @ c # qs" "n_addr u c = a" "a \<notin> n_addr u ` set ps" by auto
    let ?p = "if ps = [] then None else Some (last ps)"
    let ?b = "length ps"
    let ?u1 = "u\<lparr>curWayHits := (curWayHits u)(?b := curWayHits u ?b + 1)\<rparr>"
    let ?u = "umon_to_front s ?p c ?u1"
    have "umon_access hf a u = Inr ?u"
      using sampled umon_scan_nodes(2) [OF ns(1) split] by (simp add: umon_access_def Let_def s_def)
    moreover have "um_rep ?u (L(s := map (n_addr u) (c # ps @ qs)))"
      by (rule um_rep_to_front [OF rep _ ns(1) split(1)]) (use s in \<open>simp_all add: s_def\<close>)
    moreover have "map (n_addr u) (c # ps @ qs) = stack_touch (um_buckets u) a (L s)"
    proof -
      have L: "L s = map (n_addr u) ps @ a # map (n_addr u) qs" using ns(2) split by auto
      then have "remove1 a (L s) = map (n_addr u) (ps @ qs)"
        using split(3) by (simp add: remove1_append)
      moreover have "length (L s) = um_buckets u" using len(1) ns(2) [symmetric] by simp
      ultimately show ?thesis
        using stack_touch_hit [of "L s" "um_buckets u" a] True split(2) by simp
    qed
    moreover have "L s ! ?b = a" "\<forall>i < ?b. L s ! i \<noteq> a" "?b < um_buckets u"
      using ns(2) [symmetric] found len(1) by (auto simp: nth_append)
    ultimately show ?thesis
      using True um_frame_to_front by (intro exI [of _ ?u]) (auto intro!: exI [of _ ?b])
  next
    case False
    then have none: "a \<notin> n_addr u ` set ns" using ns(2) [symmetric] by simp
    have split: "ns = butlast ns @ last ns # []" using len(2) by simp
    let ?p = "if butlast ns = [] then None else Some (last (butlast ns))"
    let ?f = "(n_addr u)(last ns := a)"
    let ?u1 = "u\<lparr>curMisses := curMisses u + 1, n_addr := ?f\<rparr>"
    let ?u = "umon_to_front s ?p (last ns) ?u1"
    have "n_next u (last ns) = None"
      using chain_append [of "n_next u" "butlast ns" "last ns" "[]"] ns(1) len(2)
      by (simp add: set_nodes_def)
    then have "umon_access hf a u = Inr ?u"
      using sampled umon_scan_nodes(1) [OF ns(1) none] by (simp add: umon_access_def Let_def s_def)
    moreover have "um_rep ?u (L(s := map ?f (last ns # butlast ns @ [])))"
      by (rule um_rep_to_front [OF rep _ ns(1) split]) (use s len(2) in \<open>auto simp: s_def\<close>)
    moreover have "map ?f (last ns # butlast ns @ []) = stack_touch (um_buckets u) a (L s)"
    proof -
      have "last ns \<notin> set (butlast ns)" using len(2,3) split
        by (metis distinct.simps(2) distinct_append not_distinct_conv_prefix)
      then have "map ?f (butlast ns) = map (n_addr u) (butlast ns)" by simp
      then have "map ?f (butlast ns) = butlast (L s)" using ns(2) [symmetric] by (metis map_butlast)
      moreover have "0 < um_buckets u" using len(1,2) by (metis length_greater_0_conv)
      ultimately show ?thesis
        using stack_touch_miss [of "L s" "um_buckets u" a] False len(1) ns(2) [symmetric] by auto
    qed
    ultimately show ?thesis using False um_frame_to_front by (intro exI [of _ ?u]) auto
  qed
qed

subsection \<open>The miss curve\<close>

definition sampled_accesses :: "hash_family \<Rightarrow> umon \<Rightarrow> nat \<Rightarrow> address list \<Rightarrow> address list" where
  "sampled_accesses hf u s as = filter (\<lambda>a. umon_sampled hf u a \<and> umon_set hf u a = s) as"

definition um_misses :: "hash_family \<Rightarrow> umon \<Rightarrow> nat \<Rightarrow> address list \<Rightarrow> nat" where
  "um_misses hf u k as = (\<Sum>s < um_sets u. stack_misses k (sampled_accesses hf u s as) (replicate k 0))"

definition um_inv :: "hash_family \<Rightarrow> umon \<Rightarrow> address list \<Rightarrow> umon \<Rightarrow> bool" where
  "um_inv hf u0 as u \<longleftrightarrow> um_frame u0 u
     \<and> um_rep u (\<lambda>s. stack_state (um_buckets u) (sampled_accesses hf u0 s as) (replicate (um_buckets u) 0))
     \<and> (\<forall>k \<le> um_buckets u. umon_total u (um_buckets u - k) = of_nat (um_misses hf u0 k as))"

lemma umon_total_sum:
  "i \<le> um_buckets u \<Longrightarrow> umon_total u i = curMisses u + (\<Sum>b = um_buckets u - i..<um_buckets u. curWayHits u b)"
proof (induction i)
  case (Suc i)
  let ?n = "um_buckets u"
  have "{?n - Suc i..<?n} = insert (?n - Suc i) {?n - i..<?n}" using Suc.prems by auto
  then show ?case using Suc by simp
qed simp

lemma um_frame_sampled:
  assumes "um_frame u0 u"
  shows "umon_sampled hf u a = umon_sampled hf u0 a" "umon_set hf u a = umon_set hf u0 a"
  using assms by (simp_all add: um_frame_def umon_sampled_def umon_set_def)

lemma um_misses_snoc:
  assumes "umon_set hf u a < um_sets u" and "umon_sampled hf u a"
  shows "um_misses hf u k (as @ [a]) = um_misses hf u k as
    + (if a \<in> set (stack_state k (sampled_accesses hf u (umon_set hf u a) as) (replicate k 0)) then 0 else 1)"
    (is "_ = _ + ?d")
proof -
  let ?m = "\<lambda>s as. stack_misses k (sampled_accesses hf u s as) (replicate k 0)"
  have "?m s (as @ [a]) = ?m s as + (if s = umon_set hf u a then ?d else 0)" for s
    using assms(2) by (simp add: sampled_accesses_def stack_misses_snoc)
  then show ?thesis using assms(1) by (simp add: um_misses_def sum.distrib sum.delta)
qed

lemma um_inv_step:
  assumes inv: "um_inv hf u0 as u" and bits: "setsBits u0 = shift_count (um_sets u0)"
    and pos: "0 < um_sets u0"
  shows "\<exists>u'. umon_access hf a u = Inr u' \<and> um_inv hf u0 (as @ [a]) u'"
proof (cases "umon_sampled hf u0 a")
  case False
  then have "sampled_accesses hf u0 s (as @ [a]) = sampled_accesses hf u0 s as" for s
    by (simp add: sampled_accesses_def)
  moreover have "umon_access hf a u = Inr u"
    using False inv um_frame_sampled(1) [of u0 u] by (simp add: umon_access_def um_inv_def)
  ultimately show ?thesis using inv by (simp add: um_inv_def um_misses_def)
next
  case True
  let ?n = "um_buckets u"
  let ?L = "\<lambda>s as. stack_state ?n (sampled_accesses hf u0 s as) (replicate ?n 0)"
  let ?s = "umon_set hf u0 a"
  have frame: "um_frame u0 u" and rep: "um_rep u (\<lambda>s. ?L s as)"
    and curve: "\<And>k. k \<le> ?n \<Longrightarrow> umon_total u (?n - k) = of_nat (um_misses hf u0 k as)"
    using inv by (simp_all add: um_inv_def)
  show ?thesis
  proof -
    have s: "?s < um_sets u0" using umon_set_lt [OF bits pos, of hf a] .
    have samp: "umon_sampled hf u a" "umon_set hf u a = ?s"
      using True um_frame_sampled [OF frame] by simp_all
    obtain u' where u': "umon_access hf a u = Inr u'" "um_frame u u'"
      "um_rep u' ((\<lambda>s. ?L s as)(?s := stack_touch ?n a (?L ?s as)))"
      and cnt: "if a \<in> set (?L ?s as)
       then \<exists>b < ?n. ?L ?s as ! b = a \<and> (\<forall>i < b. ?L ?s as ! i \<noteq> a)
              \<and> curWayHits u' = (curWayHits u)(b := curWayHits u b + 1) \<and> curMisses u' = curMisses u
       else curWayHits u' = curWayHits u \<and> curMisses u' = curMisses u + 1"
      using umon_access_step [OF rep samp(1), unfolded samp(2)] s frame by (auto simp: um_frame_def)
    have n: "um_buckets u' = ?n" using u'(2) by (simp add: um_frame_def)
    have L: "(\<lambda>s. ?L s as)(?s := stack_touch ?n a (?L ?s as)) = (\<lambda>s. ?L s (as @ [a]))"
      using True by (auto simp: sampled_accesses_def stack_state_snoc)
    have "umon_total u' (?n - k) = of_nat (um_misses hf u0 k (as @ [a]))" if k: "k \<le> ?n" for k
    proof -
      have pre: "stack_state k (sampled_accesses hf u0 ?s as) (replicate k 0) = take k (?L ?s as)"
        by (rule stack_state_prefix) (use k in \<open>simp_all add: min_def\<close>)
      have tot: "umon_total v (?n - k) = curMisses v + (\<Sum>b = k..<?n. curWayHits v b)"
        if "um_buckets v = ?n" for v
        using umon_total_sum [of "?n - k" v] that k by simp
      have "umon_total u' (?n - k) = umon_total u (?n - k)
        + (if a \<in> set (take k (?L ?s as)) then 0 else 1)"
      proof (cases "a \<in> set (?L ?s as)")
        case False
        then have "a \<notin> set (take k (?L ?s as))" by (auto dest: in_set_takeD)
        then show ?thesis using False cnt tot [of u] tot [OF n] by simp
      next
        case True
        then obtain b where b: "b < ?n" "?L ?s as ! b = a" "\<forall>i < b. ?L ?s as ! i \<noteq> a"
          "curWayHits u' = (curWayHits u)(b := curWayHits u b + 1)" "curMisses u' = curMisses u"
          using cnt by auto
        have "length (?L ?s as) = ?n" by (rule length_stack_state) simp
        then have pos: "a \<in> set (take k (?L ?s as)) \<longleftrightarrow> b < k" using in_take_position [of b "?L ?s as" a k] b by simp
        have "(\<Sum>i = k..<?n. curWayHits u' i) = (\<Sum>i = k..<?n. curWayHits u i + (if i = b then 1 else 0))"
          using b(4) by (intro sum.cong) auto
        also have "\<dots> = (\<Sum>i = k..<?n. curWayHits u i) + (if b < k then 0 else 1)"
          using b(1) by (simp add: sum.distrib sum.delta)
        finally show ?thesis using tot [of u] tot [OF n] b(5) pos by simp
      qed
      then show ?thesis using curve [OF k] um_misses_snoc [OF s True, of k as] pre by simp
    qed
    moreover have "um_frame u0 u'" using frame u'(2) by (simp add: um_frame_def)
    ultimately show ?thesis using u'(1,3) n L by (auto simp: um_inv_def)
  qed
qed

lemma um_inv_run:
  assumes "setsBits u0 = shift_count (um_sets u0)" and "0 < um_sets u0"
  shows "um_inv hf u0 xs u \<Longrightarrow> \<exists>u'. umon_run hf as u = Inr u' \<and> um_inv hf u0 (xs @ as) u'"
proof (induction as arbitrary: xs u)
  case (Cons a as)
  from um_inv_step [OF Cons.prems assms, of a] obtain u1 where
    "umon_access hf a u = Inr u1" "um_inv hf u0 (xs @ [a]) u1" by blast
  with Cons.IH [of "xs @ [a]" u1] show ?case by simp
qed simp

lemma umon_init_inv:
  assumes "umon_init bankLines umonLines n = Inr u"
  shows "um_inv hf u [] u" and "um_buckets u = n" and "setsBits u = shift_count (um_sets u)"
    and "um_sets u = umonLines div n" and "0 < n"
proof -
  from assms have u: "0 < n" "um_buckets u = n" "n_addr u = (\<lambda>_. 0)" "heads u = (\<lambda>i. (i, 0))"
    "n_next u = (\<lambda>(i, j). if j < n - 1 then Some (i, j + 1) else None)" "curWayHits u = (\<lambda>_. 0)"
    "curMisses u = 0" "setsBits u = shift_count (um_sets u)" "um_sets u = umonLines div n"
    by (auto simp: umon_init_def Let_def split: if_splits)
  show "um_buckets u = n" "setsBits u = shift_count (um_sets u)" "um_sets u = umonLines div n" "0 < n"
    by (fact u)+
  have ch: "chain (n_next u) (map (Pair s) [j..<n])" for s j
  proof (induction "n - j" arbitrary: j)
    case (Suc m)
    then have "[j..<n] = j # [Suc j..<n]" by (simp add: upt_conv_Cons)
    then show ?case using Suc.hyps(1) [of "Suc j"] Suc.hyps(2)
      by (auto simp: chain_Cons u(5) upt_conv_Cons hd_map)
  qed simp
  have "set_nodes u s (map (Pair s) [0..<n])" for s
    using ch [of s 0] u(1,2,4)
    by (auto simp: set_nodes_def distinct_map inj_on_def image_image hd_map)
  then have "um_rep u (\<lambda>s. replicate n 0)"
    unfolding um_rep_def by (intro allI impI exI [of _ "map (Pair _) [0..<n]"]) (simp add: u(3) map_replicate_const)
  moreover have "umon_total u i = 0" for i by (induction i) (simp_all add: u(6,7))
  ultimately show "um_inv hf u [] u"
    by (simp add: um_inv_def um_frame_def sampled_accesses_def stack_state_def um_misses_def
        stack_misses_def u(2))
qed

text \<open>
  C9. The miss curve of a utility monitor is exact. After any sequence of non-zero addresses,
  entry \<open>k\<close> of \<open>getMisses\<close> is, modulo \<open>2^64\<close>, the total number of misses that LRU stacks of
  \<open>k\<close> ways, one per set, have on the sampled accesses of their sets, for every
  \<open>k\<close> from 0 to the number of buckets; the monitor never fails.
\<close>

theorem umon_miss_curve_exact:
  assumes "umon_init bankLines umonLines n = Inr u0" and "n \<le> umonLines" and "0 \<notin> set as"
    and "k \<le> n"
  shows "\<exists>u. umon_run hf as u0 = Inr u \<and> umon_getMisses u ! k
    = of_nat (\<Sum>s < umonLines div n. stack_misses k (sampled_accesses hf u0 s as) [])"
proof -
  note I = umon_init_inv [OF assms(1)]
  have "0 < um_sets u0" using I(4,5) assms(2) by (simp add: div_greater_zero_iff)
  from um_inv_run [OF I(3) this I(1), of hf as] obtain u where
    u: "umon_run hf as u0 = Inr u" "um_inv hf u0 as u" by auto
  have n: "um_buckets u = n" using u(2) I(2) by (simp add: um_inv_def um_frame_def)
  have "umon_getMisses u ! k = umon_total u (n - k)"
    using assms(4) n by (simp add: umon_getMisses_def del: upt_Suc)
  also have "\<dots> = of_nat (um_misses hf u0 k as)" using u(2) assms(4) n by (simp add: um_inv_def)
  also have "um_misses hf u0 k as = (\<Sum>s < umonLines div n. stack_misses k (sampled_accesses hf u0 s as) [])"
    unfolding um_misses_def I(4)
    by (intro sum.cong refl stack_misses_pad) (use assms(3) in \<open>auto simp: sampled_accesses_def\<close>)
  finally show ?thesis using u(1) by blast
qed

theorem umon_miss_curve_exact_witness:
  "\<exists>u0 u. umon_init 2 2 2 = Inr u0 \<and> umon_run (\<lambda>_ _. 0) [5, 7, 5, 5] u0 = Inr u
     \<and> umon_getMisses u ! 1 = 3"
proof -
  obtain u0 where u0: "umon_init 2 2 2 = Inr u0" by (simp add: umon_init_def Let_def)
  have "sampled_accesses (\<lambda>_ _. 0) u0 0 [5, 7, 5, 5] = [5, 7, 5, 5]"
    by (simp add: sampled_accesses_def umon_sampled_def umon_set_def)
  moreover have "stack_misses 1 [5, 7, 5, 5 :: address] [] = 3"
    by (simp add: stack_misses_def stack_touch_def)
  ultimately show ?thesis
    using umon_miss_curve_exact [OF u0, of "[5, 7, 5, 5]" 1 "\<lambda>_ _. 0"] u0 by fastforce
qed

end
