(* ===== verification/Lookahead.thy ===== *)
theory Lookahead
  imports Complex_Main UtilityMonitor
begin

section \<open>Partition monitors and the lookahead partitioner\<close>

text \<open>
  class \<open>UMonMonitor\<close> (partitioner.h, monitor.cpp), which gives a partitioner the miss curves of
  all partitions, and the greedy lookahead algorithm of lookahead.cpp.

  Floating point: \<open>rnd\<close> is the rounding of an exact quotient to a \<open>double\<close>, a parameter; the
  lemmas need only that it keeps non-negative numbers non-negative. The interpolation between
  two points of a curve, which the code does in \<open>double\<close>, is the parameter \<open>interp m0 m1 k r\<close>.

  \<open>missCache\<close> is a function on indices: the code allocates \<open>buckets\<close> entries for each
  partition but writes \<open>buckets + 1\<close>, so the last entry of a partition is the first entry of
  the next one, and the last entry of the last partition lies behind the array.
\<close>

subsection \<open>UMonMonitor\<close>

record umon_monitor =
  mon_buckets :: nat
  missCache :: "nat \<Rightarrow> u32"
  missCacheValid :: bool
  monitors :: "umon list"

fun umon_inits :: "nat \<Rightarrow> nat \<Rightarrow> nat \<Rightarrow> nat \<Rightarrow> umon list res" where
  "umon_inits nl ul ub 0 = Inr []"
| "umon_inits nl ul ub (Suc p) = rbind (umon_init nl ul ub) (\<lambda>u. rbind (umon_inits nl ul ub p) (\<lambda>us. Inr (u # us)))"

definition umon_monitor_init :: "nat \<Rightarrow> nat \<Rightarrow> nat \<Rightarrow> nat \<Rightarrow> nat \<Rightarrow> umon_monitor res" where
  "umon_monitor_init numLines umonLines umonBuckets numPartitions buckets =
     assert_then (0 < numPartitions)
       (rbind (umon_inits numLines umonLines umonBuckets numPartitions) (\<lambda>us.
          Inr \<lparr>mon_buckets = buckets, missCache = (\<lambda>_. 0), missCacheValid = False, monitors = us\<rparr>))"

definition mon_access :: "hash_family \<Rightarrow> nat \<Rightarrow> address \<Rightarrow> umon_monitor \<Rightarrow> umon_monitor res" where
  "mon_access hf p a m =
     assert_then (p < length (monitors m))
       (rbind (umon_access hf a (monitors m ! p)) (\<lambda>u.
          assert_then (\<not> missCacheValid m)
            (Inr (m\<lparr>monitors := (monitors m)[p := u], missCacheValid := False\<rparr>))))"

definition mon_getNumAccesses :: "nat \<Rightarrow> umon_monitor \<Rightarrow> u32 res" where
  "mon_getNumAccesses p m =
     assert_then (p < length (monitors m)) (Inr (ucast (umon_getNumAccesses (monitors m ! p))))"

text \<open>The entries \<open>misses[0]\<close>, \ldots, \<open>misses[buckets]\<close> of one partition.\<close>

definition getMissCurve :: "(u64 \<Rightarrow> u64 \<Rightarrow> nat \<Rightarrow> nat \<Rightarrow> u64) \<Rightarrow> nat \<Rightarrow> umon \<Rightarrow> (nat \<Rightarrow> u32) res" where
  "getMissCurve interp nb u =
     (let ub = um_buckets u; mis = umon_getMisses u in
      if nb = 0 \<or> ub = 0 then Inl Panic
      else if nb \<le> ub then
        let ratio = ub div nb in
        assert_then (ub mod nb = 0)
          (Inr (\<lambda>j. if j < nb then ucast (mis ! (j * ratio)) else ucast (mis ! ub)))
      else
        let ratio = nb div ub in
        assert_then (nb mod ub = 0)
          (Inr (\<lambda>j. if j < nb then
                 (if j mod ratio = 0 then ucast (mis ! (j div ratio))
                  else ucast (interp (mis ! (j div ratio)) (mis ! (j div ratio + 1)) (j mod ratio) ratio))
               else ucast (mis ! ub))))"

definition write_curve :: "nat \<Rightarrow> nat \<Rightarrow> (nat \<Rightarrow> u32) \<Rightarrow> (nat \<Rightarrow> u32) \<Rightarrow> nat \<Rightarrow> u32" where
  "write_curve base nb c cache = (\<lambda>i. if base \<le> i \<and> i \<le> base + nb then c (i - base) else cache i)"

fun getMissCurves :: "(u64 \<Rightarrow> u64 \<Rightarrow> nat \<Rightarrow> nat \<Rightarrow> u64) \<Rightarrow> nat \<Rightarrow> umon list \<Rightarrow> nat \<Rightarrow> (nat \<Rightarrow> u32) \<Rightarrow>
    (nat \<Rightarrow> u32) res" where
  "getMissCurves interp nb [] p cache = Inr cache"
| "getMissCurves interp nb (u # us) p cache = rbind (getMissCurve interp nb u)
     (\<lambda>c. getMissCurves interp nb us (Suc p) (write_curve (p * nb) nb c cache))"

definition mon_refresh :: "(u64 \<Rightarrow> u64 \<Rightarrow> nat \<Rightarrow> nat \<Rightarrow> u64) \<Rightarrow> umon_monitor \<Rightarrow> umon_monitor res" where
  "mon_refresh interp m =
     (if missCacheValid m then Inr m
      else rbind (getMissCurves interp (mon_buckets m) (monitors m) 0 (missCache m))
             (\<lambda>c. Inr (m\<lparr>missCache := c, missCacheValid := True\<rparr>)))"

definition mon_get :: "(u64 \<Rightarrow> u64 \<Rightarrow> nat \<Rightarrow> nat \<Rightarrow> u64) \<Rightarrow> nat \<Rightarrow> nat \<Rightarrow> umon_monitor \<Rightarrow> (u32 \<times> umon_monitor) res"
  where
  "mon_get interp p b m =
     assert_then (p < length (monitors m))
       (rbind (mon_refresh interp m) (\<lambda>m'. Inr (missCache m' (p * mon_buckets m' + b), m')))"

definition mon_reset :: "umon_monitor \<Rightarrow> umon_monitor" where
  "mon_reset m = m\<lparr>monitors := map umon_startNextInterval (monitors m), missCacheValid := False\<rparr>"

text \<open>The cache after all curves are written: later partitions overwrite the shared entry.\<close>

lemma getMissCurves_entry:
  assumes "\<forall>u \<in> set us. \<exists>c. getMissCurve interp nb u = Inr c" and "0 < nb"
  shows "\<exists>cache'. getMissCurves interp nb us p cache = Inr cache'
    \<and> (\<forall>i < p * nb. cache' i = cache i)
    \<and> (\<forall>q < length us. \<forall>b < nb. cache' ((p + q) * nb + b) = projr (getMissCurve interp nb (us ! q)) b)"
  using assms(1)
proof (induction us arbitrary: p cache)
  case (Cons u us)
  from Cons.prems obtain c where c: "getMissCurve interp nb u = Inr c" by auto
  let ?cache = "write_curve (p * nb) nb c cache"
  from Cons.IH [of "Suc p" ?cache] Cons.prems obtain cache' where
    ih: "getMissCurves interp nb us (Suc p) ?cache = Inr cache'" "\<forall>i < Suc p * nb. cache' i = ?cache i"
    "\<forall>q < length us. \<forall>b < nb. cache' ((Suc p + q) * nb + b) = projr (getMissCurve interp nb (us ! q)) b"
    by auto
  have "cache' i = cache i" if "i < p * nb" for i
    using that ih(2) by (simp add: write_curve_def)
  moreover have "cache' ((p + q) * nb + b) = projr (getMissCurve interp nb ((u # us) ! q)) b"
    if "q < length (u # us)" "b < nb" for q b
  proof (cases q)
    case 0
    then have "p * nb + b < Suc p * nb" using that(2) by simp
    then show ?thesis using 0 ih(2) c that(2) by (simp add: write_curve_def)
  next
    case (Suc k)
    then show ?thesis using ih(3) that by (auto simp: add.assoc [symmetric])
  qed
  ultimately show ?case using c ih(1) by simp
qed simp

text \<open>
  A partition's miss curve is reported correctly for fewer than all buckets, but its last
  point is not: asking for the misses of partition \<open>p\<close> with all buckets returns the misses that
  partition \<open>p + 1\<close> has without any, because both are written to the same entry.
\<close>

theorem mon_get_last_point_aliases:
  assumes "0 < nb" and "\<forall>u \<in> set (monitors m). um_buckets u = nb" and "mon_buckets m = nb"
    and "\<not> missCacheValid m" and "Suc p < length (monitors m)" and "b < nb"
  shows "\<exists>m1 m2. mon_get interp p b m = Inr (ucast (umon_getMisses (monitors m ! p) ! b), m1)
    \<and> mon_get interp p nb m = Inr (ucast (umon_getMisses (monitors m ! Suc p) ! 0), m2)"
proof -
  have curve: "getMissCurve interp nb u = Inr (\<lambda>j. if j < nb then ucast (umon_getMisses u ! j)
      else ucast (umon_getMisses u ! nb))" if "u \<in> set (monitors m)" for u
    using that assms(1,2) by (simp add: getMissCurve_def Let_def cong: if_cong)
  then obtain cache where cache: "getMissCurves interp nb (monitors m) 0 (missCache m) = Inr cache"
    "\<forall>q < length (monitors m). \<forall>b < nb.
      cache (q * nb + b) = projr (getMissCurve interp nb (monitors m ! q)) b"
    using getMissCurves_entry [of "monitors m" interp nb 0 "missCache m"] assms(1) by auto
  have refresh: "mon_refresh interp m = Inr (m\<lparr>missCache := cache, missCacheValid := True\<rparr>)"
    using assms(3,4) cache(1) by (simp add: mon_refresh_def)
  have "\<exists>m1. mon_get interp p b m = Inr (ucast (umon_getMisses (monitors m ! p) ! b), m1)"
    using refresh cache(2) curve assms(3,5,6) by (simp add: mon_get_def)
  moreover have "cache (Suc p * nb + 0) = ucast (umon_getMisses (monitors m ! Suc p) ! 0)"
    using cache(2) [rule_format, of "Suc p" 0] assms(1,5) curve [of "monitors m ! Suc p"]
    by (simp del: mult_Suc)
  then have "\<exists>m2. mon_get interp p nb m = Inr (ucast (umon_getMisses (monitors m ! Suc p) ! 0), m2)"
    using refresh assms(3,5) by (simp add: mon_get_def add.commute)
  ultimately show ?thesis by blast
qed

theorem mon_get_last_point_aliases_witness:
  "\<exists>m m1 m2. umon_monitor_init 4 4 2 2 2 = Inr m \<and> mon_get (\<lambda>m0 _ _ _. m0) 0 1 m = Inr (0, m1)
    \<and> mon_get (\<lambda>m0 _ _ _. m0) 0 2 m = Inr (0, m2)"
proof -
  obtain u where u: "umon_init 4 4 2 = Inr u" "um_buckets u = 2" "umon_getMisses u = [0, 0, 0]"
    by (simp add: umon_init_def Let_def umon_getMisses_def upt_rec numeral_2_eq_2)
  let ?m = "\<lparr>mon_buckets = 2, missCache = (\<lambda>_. 0), missCacheValid = False, monitors = [u, u]\<rparr>"
  have "umon_inits 4 4 2 (Suc (Suc 0)) = Inr [u, u]" using u(1) by simp
  then have "umon_inits 4 4 2 2 = Inr [u, u]" by (simp only: numeral_2_eq_2)
  then have m: "umon_monitor_init 4 4 2 2 2 = Inr ?m" by (simp add: umon_monitor_init_def)
  from mon_get_last_point_aliases [of 2 ?m 0 1 "\<lambda>m0 _ _ _. m0"] u(2,3) have "\<exists>m1 m2.
    mon_get (\<lambda>m0 _ _ _. m0) 0 1 ?m = Inr (0, m1) \<and> mon_get (\<lambda>m0 _ _ _. m0) 0 2 ?m = Inr (0, m2)"
    by simp
  with m show ?thesis by blast
qed

subsection \<open>The lookahead algorithm\<close>

text \<open>
  \<open>get p b\<close> are the misses of partition \<open>p\<close> with \<open>b\<close> buckets, and \<open>muq x i\<close> is the \<open>double\<close>
  quotient of \<open>x\<close> and \<open>i\<close>. Allocations and the balance are \<open>uint32_t\<close>.
\<close>

type_synonym miss_table = "nat \<Rightarrow> u32 \<Rightarrow> u32"

definition mu_of :: "(u64 \<Rightarrow> u32 \<Rightarrow> rat) \<Rightarrow> miss_table \<Rightarrow> nat \<Rightarrow> u32 \<Rightarrow> u32 \<Rightarrow> rat" where
  "mu_of muq get p partAlloc i =
     (let extraHits = ucast (get p partAlloc - get p (partAlloc + i)) in muq extraHits i)"

definition mmu_step :: "(u64 \<Rightarrow> u32 \<Rightarrow> rat) \<Rightarrow> miss_table \<Rightarrow> nat \<Rightarrow> u32 \<Rightarrow> rat \<times> u32 \<Rightarrow> nat \<Rightarrow> rat \<times> u32"
  where
  "mmu_step muq get p partAlloc best i =
     (let mu = mu_of muq get p partAlloc (of_nat i)
      in if mu > fst best then (mu, of_nat i) else best)"

definition getMaxMarginalUtility :: "(u64 \<Rightarrow> u32 \<Rightarrow> rat) \<Rightarrow> miss_table \<Rightarrow> nat \<Rightarrow> u32 \<Rightarrow> u32 \<Rightarrow> rat \<times> u32"
  where
  "getMaxMarginalUtility muq get p partAlloc balance =
     foldl (mmu_step muq get p partAlloc) (-1, 0) [1..<unat balance + 1]"

definition computePartitioningTotalUtility :: "miss_table \<Rightarrow> nat \<Rightarrow> (nat \<Rightarrow> u32) \<Rightarrow> u64" where
  "computePartitioningTotalUtility get n parts =
     (\<Sum>p \<leftarrow> [0..<n]. ucast (get p 0)) - (\<Sum>p \<leftarrow> [0..<n]. ucast (get p (parts p)))"

definition pick_step :: "(u64 \<Rightarrow> u32 \<Rightarrow> rat) \<Rightarrow> miss_table \<Rightarrow> (nat \<Rightarrow> bool) \<Rightarrow> (nat \<Rightarrow> u32) \<Rightarrow> u32 \<Rightarrow>
    rat \<times> nat \<times> u32 \<Rightarrow> nat \<Rightarrow> rat \<times> nat \<times> u32" where
  "pick_step muq get forbidden allocs balance best i =
     (if forbidden i then best
      else case getMaxMarginalUtility muq get i (allocs i) balance of
        (mu, muAlloc) \<Rightarrow> if mu > fst best then (mu, i, muAlloc) else best)"

fun alloc_loop :: "nat \<Rightarrow> (u64 \<Rightarrow> u32 \<Rightarrow> rat) \<Rightarrow> miss_table \<Rightarrow> nat \<Rightarrow> (nat \<Rightarrow> bool) \<Rightarrow> (nat \<Rightarrow> u32) \<Rightarrow> u32 \<Rightarrow>
    (nat \<Rightarrow> u32) res" where
  "alloc_loop fuel muq get n forbidden allocs balance =
     (if balance = 0 then Inr allocs
      else case fuel of
        0 \<Rightarrow> Inl OutOfFuel
      | Suc f \<Rightarrow>
          (case foldl (pick_step muq get forbidden allocs balance) (-1, n, 0) [0..<n] of
             (maxMu, maxMuPart, maxMuAlloc) \<Rightarrow>
               assert_then (maxMuPart < n)
                 (alloc_loop f muq get n forbidden
                    (allocs(maxMuPart := allocs maxMuPart + maxMuAlloc)) (balance - maxMuAlloc))))"

declare alloc_loop.simps [simp del]

text \<open>Every iteration hands out at least one bucket, so \<open>buckets\<close> iterations are enough.\<close>

definition computeBestPartitioning :: "(u64 \<Rightarrow> u32 \<Rightarrow> rat) \<Rightarrow> miss_table \<Rightarrow> nat \<Rightarrow> u32 \<Rightarrow> u32 \<Rightarrow>
    (nat \<Rightarrow> bool) \<Rightarrow> (nat \<Rightarrow> u32) res" where
  "computeBestPartitioning muq get n buckets minAlloc forbidden =
     alloc_loop (unat (buckets - minAlloc)) muq get n forbidden (\<lambda>_. minAlloc) (buckets - minAlloc)"

lemma mmu_prefix:
  fixes k p :: nat and get :: miss_table and a :: u32
  assumes "\<And>x i. 0 \<le> muq x i" and "k < 2 ^ 32"
  defines "r \<equiv> foldl (mmu_step muq get p a) (-1, 0) [1..<Suc k]"
  shows "(k = 0 \<and> r = (-1, 0)) \<or> (\<exists>i. 1 \<le> i \<and> i \<le> k \<and> r = (mu_of muq get p a (of_nat i), of_nat i)
    \<and> (\<forall>j. 1 \<le> j \<longrightarrow> j \<le> k \<longrightarrow> mu_of muq get p a (of_nat j) \<le> fst r)
    \<and> (\<forall>j. 1 \<le> j \<longrightarrow> j < i \<longrightarrow> mu_of muq get p a (of_nat j) < fst r))"
  unfolding r_def using assms(2)
proof (induction k)
  case (Suc k)
  let ?m = "\<lambda>i. mu_of muq get p a (of_nat i)"
  let ?r = "foldl (mmu_step muq get p a) (-1, 0) [1..<Suc k]"
  have step: "foldl (mmu_step muq get p a) (-1, 0) [1..<Suc (Suc k)]
    = (if ?m (Suc k) > fst ?r then (?m (Suc k), of_nat (Suc k)) else ?r)"
    by (simp add: mmu_step_def Let_def del: of_nat_Suc)
  have pos: "?m i > -1" for i
    using assms(1) [of "ucast (get p a - get p (a + of_nat i))" "of_nat i"]
    by (simp add: mu_of_def Let_def del: of_nat_Suc)
  show ?case
  proof (cases "k = 0")
    case True
    then have "foldl (mmu_step muq get p a) (-1, 0) [1..<Suc (Suc k)] = (?m 1, of_nat 1)"
      using step pos [of 1] by simp
    then show ?thesis using True by (intro disjI2 exI [of _ 1]) (auto simp: le_Suc_eq)
  next
    case False
    with Suc obtain i where i: "1 \<le> i" "i \<le> k" "?r = (?m i, of_nat i)"
      "\<forall>j. 1 \<le> j \<longrightarrow> j \<le> k \<longrightarrow> ?m j \<le> fst ?r" "\<forall>j. 1 \<le> j \<longrightarrow> j < i \<longrightarrow> ?m j < fst ?r" by auto
    show ?thesis
    proof (cases "?m (Suc k) > fst ?r")
      case True
      then show ?thesis unfolding step using i(4)
        by (intro disjI2 exI [of _ "Suc k"]) (auto simp: le_Suc_eq less_Suc_eq_le simp del: of_nat_Suc
            intro: le_less_trans order_trans [OF _ less_imp_le])
    next
      case False
      then show ?thesis unfolding step using i
        by (intro disjI2 exI [of _ i]) (auto simp: le_Suc_eq simp del: of_nat_Suc)
    qed
  qed
qed simp

lemma getMaxMarginalUtility_max:
  assumes "\<And>x i. 0 \<le> muq x i" and "balance \<noteq> 0"
  obtains i where "1 \<le> unat i" "i \<le> balance" "getMaxMarginalUtility muq get p a balance = (mu_of muq get p a i, i)"
    "\<And>j. j \<noteq> 0 \<Longrightarrow> j \<le> balance \<Longrightarrow> mu_of muq get p a j \<le> mu_of muq get p a i"
proof -
  have lt: "unat balance < 2 ^ 32" using unat_less_exp [of balance] by simp
  from mmu_prefix [where muq = muq and get = get and p = p and a = a, OF assms(1) lt] assms(2) obtain i where
    i: "1 \<le> i" "i \<le> unat balance"
    "getMaxMarginalUtility muq get p a balance = (mu_of muq get p a (of_nat i), of_nat i)"
    "\<forall>j. 1 \<le> j \<longrightarrow> j \<le> unat balance \<longrightarrow> mu_of muq get p a (of_nat j) \<le> mu_of muq get p a (of_nat i)"
    by (auto simp: getMaxMarginalUtility_def unat_eq_zero)
  have u: "unat (of_nat i :: u32) = i" using i(2) lt by (simp add: unat_of_nat take_bit_nat_eq_self)
  show thesis
  proof (rule that [of "of_nat i"])
    show "mu_of muq get p a j \<le> mu_of muq get p a (of_nat i)" if "j \<noteq> 0" "j \<le> balance" for j
      using i(4) [rule_format, of "unat j"] that by (simp add: word_le_nat_alt Suc_le_eq unat_gt_0)
  qed (use i u in \<open>simp_all add: word_le_nat_alt\<close>)
qed

lemma pick_some:
  fixes n k :: nat and get :: miss_table and forbidden :: "nat \<Rightarrow> bool" and allocs :: "nat \<Rightarrow> u32"
  assumes "\<And>x i. 0 \<le> muq x i" and "balance \<noteq> 0" and "k \<le> n"
  defines "r \<equiv> foldl (pick_step muq get forbidden allocs balance) (-1, n, 0) [0..<k]"
  shows "(\<forall>i < k. forbidden i) \<and> r = (-1, n, 0) \<or> (case r of (mu, i, al) \<Rightarrow>
    i < k \<and> \<not> forbidden i \<and> 1 \<le> unat al \<and> al \<le> balance \<and> mu = mu_of muq get i (allocs i) al
    \<and> (\<forall>p < k. \<forall>j. \<not> forbidden p \<longrightarrow> j \<noteq> 0 \<longrightarrow> j \<le> balance \<longrightarrow> mu_of muq get p (allocs p) j \<le> mu))"
  unfolding r_def using assms(3)
proof (induction k)
  case (Suc k)
  let ?r = "foldl (pick_step muq get forbidden allocs balance) (-1, n, 0) [0..<k]"
  have step: "foldl (pick_step muq get forbidden allocs balance) (-1, n, 0) [0..<Suc k]
    = pick_step muq get forbidden allocs balance ?r k" by simp
  obtain j where j: "1 \<le> unat j" "j \<le> balance"
    "getMaxMarginalUtility muq get k (allocs k) balance = (mu_of muq get k (allocs k) j, j)"
    "\<And>i. i \<noteq> 0 \<Longrightarrow> i \<le> balance \<Longrightarrow> mu_of muq get k (allocs k) i \<le> mu_of muq get k (allocs k) j"
    using getMaxMarginalUtility_max [where muq = muq and get = get and p = k and a = "allocs k", OF assms(1,2)]
    by blast
  have pos: "(-1 :: rat) < mu_of muq get k (allocs k) j"
    using assms(1) by (simp add: mu_of_def Let_def less_le_trans [of "-1" 0])
  obtain mu i al where r: "?r = (mu, i, al)" by (metis prod_cases3)
  have new: "pick_step muq get forbidden allocs balance ?r k
    = (if forbidden k \<or> \<not> mu < mu_of muq get k (allocs k) j then ?r
       else (mu_of muq get k (allocs k) j, k, j))"
    by (simp only: pick_step_def r j(3)) simp
  then have new: "foldl (pick_step muq get forbidden allocs balance) (-1, n, 0) [0..<Suc k]
    = (if forbidden k \<or> \<not> mu < mu_of muq get k (allocs k) j then (mu, i, al)
       else (mu_of muq get k (allocs k) j, k, j))"
    unfolding step r by simp
  from Suc r have IH: "(\<forall>i < k. forbidden i) \<and> mu = -1 \<and> i = n \<and> al = 0 \<or>
    i < k \<and> \<not> forbidden i \<and> 1 \<le> unat al \<and> al \<le> balance \<and> mu = mu_of muq get i (allocs i) al
    \<and> (\<forall>p < k. \<forall>j. \<not> forbidden p \<longrightarrow> j \<noteq> 0 \<longrightarrow> j \<le> balance \<longrightarrow> mu_of muq get p (allocs p) j \<le> mu)"
    by simp
  show ?case
  proof (cases "forbidden k \<or> \<not> mu < mu_of muq get k (allocs k) j")
    case True
    have "mu_of muq get p (allocs p) h \<le> mu"
      if "p < Suc k" "\<not> forbidden p" "h \<noteq> 0" "h \<le> balance" "i < k" for p h
    proof (cases "p = k")
      case pk: True
      with True that(2) have "mu_of muq get k (allocs k) j \<le> mu" by simp
      then show ?thesis using j(4) [OF that(3,4)] pk by simp
    next
      case False
      then show ?thesis using IH that Suc.prems by auto
    qed
    moreover have "\<forall>p < Suc k. forbidden p" if "\<not> i < k" using IH that True pos by (auto simp: less_Suc_eq)
    ultimately show ?thesis unfolding new using True IH pos Suc.prems by (auto simp: less_Suc_eq)
  next
    case False
    have "mu_of muq get p (allocs p) h \<le> mu_of muq get k (allocs k) j"
      if "p < Suc k" "\<not> forbidden p" "h \<noteq> 0" "h \<le> balance" for p h
    proof (cases "p = k")
      case True
      then show ?thesis using j(4) that by simp
    next
      case pk: False
      then have "mu_of muq get p (allocs p) h \<le> mu" using IH that by auto
      then show ?thesis using False by simp
    qed
    then show ?thesis unfolding new using False j(1,2) by simp
  qed
qed simp

text \<open>
  What a run of the loop leaves: every partition has at least its start value, forbidden ones
  exactly that, and all of the balance is handed out.
\<close>

lemma alloc_loop_total:
  assumes "\<And>x i. 0 \<le> muq x i" and "\<exists>i < n. \<not> forbidden i"
  shows "unat balance \<le> fuel \<Longrightarrow> (\<And>i. i < n \<Longrightarrow> unat (allocs i) + unat balance < 2 ^ 32) \<Longrightarrow>
    \<exists>r. alloc_loop fuel muq get n forbidden allocs balance = Inr r
      \<and> (\<Sum>i < n. unat (r i)) = (\<Sum>i < n. unat (allocs i)) + unat balance
      \<and> (\<forall>i < n. unat (allocs i) \<le> unat (r i) \<and> (forbidden i \<longrightarrow> r i = allocs i))"
proof (induction fuel arbitrary: allocs balance)
  case 0
  then show ?case by (subst alloc_loop.simps) (simp add: unat_eq_zero)
next
  case (Suc f)
  show ?case
  proof (cases "balance = 0")
    case True
    then show ?thesis by (subst alloc_loop.simps) simp
  next
    case False
    obtain mu p al where pick: "foldl (pick_step muq get forbidden allocs balance) (-1, n, 0) [0..<n] = (mu, p, al)"
      by (metis prod_cases3)
    with pick_some [where muq = muq and get = get and forbidden = forbidden and allocs = allocs and k = n and n = n,
        OF assms(1) False] assms(2) have
      p: "p < n" "\<not> forbidden p" "1 \<le> unat al" "al \<le> balance" by auto
    let ?al = "allocs(p := allocs p + al)"
    have ub: "unat (balance - al) = unat balance - unat al" "unat al \<le> unat balance"
      using p(4) by (simp_all add: unat_sub word_le_nat_alt)
    have ua: "unat (allocs p + al) = unat (allocs p) + unat al"
      using Suc.prems(2) [OF p(1)] ub(2) by (subst unat_add_lem [symmetric]) auto
    obtain r where r: "alloc_loop f muq get n forbidden ?al (balance - al) = Inr r"
      "(\<Sum>i < n. unat (r i)) = (\<Sum>i < n. unat (?al i)) + unat (balance - al)"
      "\<forall>i < n. unat (?al i) \<le> unat (r i) \<and> (forbidden i \<longrightarrow> r i = ?al i)"
    proof (rule exE [OF Suc.IH [of "balance - al" ?al]])
      show "unat (balance - al) \<le> f" using Suc.prems(1) ub p(3) by simp
      show "unat (?al i) + unat (balance - al) < 2 ^ 32" if "i < n" for i
        using Suc.prems(2) [OF that] ub ua by (cases "i = p") auto
    qed blast
    have "(\<Sum>i < n. unat (?al i)) = (\<Sum>i < n. unat (allocs i) + (if i = p then unat al else 0))"
      by (intro sum.cong) (auto simp: ua)
    also have "\<dots> = (\<Sum>i < n. unat (allocs i)) + unat al" using p(1) by (simp add: sum.distrib sum.delta)
    finally have sum: "(\<Sum>i < n. unat (r i)) = (\<Sum>i < n. unat (allocs i)) + unat balance"
      using r(2) ub by simp
    have "unat (allocs i) \<le> unat (r i) \<and> (forbidden i \<longrightarrow> r i = allocs i)" if "i < n" for i
      using r(3) that p(2) ua by (cases "i = p") force+
    then show ?thesis
      using sum r(1) pick p(1) False by (subst alloc_loop.simps) simp
  qed
qed



subsection \<open>The partitioner\<close>

text \<open>
  \<open>LookaheadPartitioner::partition\<close> up to the call of \<open>setPartitionSizes\<close>: \<open>portion\<close> is
  the value \<open>allocPortion*buckets\<close> as \<open>uint32_t\<close>. The comparison of the utilities has no
  effect, because \<open>switchAllocs\<close> is set to true afterwards. The monitor's answers are those of
  one refresh of its cache, which \<open>partition\<close> does not change until the final reset.
\<close>

record lookahead =
  la_numPartitions :: nat
  la_buckets :: u32
  la_minAlloc :: u32
  la_forbidden :: "nat \<Rightarrow> bool"
  curAllocs :: "nat \<Rightarrow> u32"

definition lookahead_init :: "nat \<Rightarrow> u32 \<Rightarrow> u32 \<Rightarrow> (nat \<Rightarrow> bool) \<Rightarrow> lookahead res" where
  "lookahead_init n buckets minAlloc forbidden =
     assert_then (buckets > 0)
       (Inr \<lparr>la_numPartitions = n, la_buckets = buckets, la_minAlloc = minAlloc,
             la_forbidden = forbidden, curAllocs = (\<lambda>_. 0)\<rparr>)"

definition lookahead_partition :: "(u64 \<Rightarrow> u32 \<Rightarrow> rat) \<Rightarrow> miss_table \<Rightarrow> u32 \<Rightarrow> lookahead \<Rightarrow> lookahead res" where
  "lookahead_partition muq get portion la =
     rbind (computeBestPartitioning muq get (la_numPartitions la) portion
              (la_minAlloc la * of_nat (la_numPartitions la)) (la_forbidden la))
       (\<lambda>bestAllocs.
          let newUtility = computePartitioningTotalUtility get (la_numPartitions la) bestAllocs;
              curUtility = computePartitioningTotalUtility get (la_numPartitions la) (curAllocs la);
              switch0 = newUtility > 102 * curUtility div 100;
              switch1 = (if curUtility = 0 then True else switch0);
              switchAllocs = (switch1 \<or> True)
          in Inr (if switchAllocs
                  then la\<lparr>curAllocs := (\<lambda>i. if i < la_numPartitions la then bestAllocs i else curAllocs la i)\<rparr>
                  else la))"

lemma lookahead_partition_total:
  assumes "\<And>x i. 0 \<le> muq x i" and "\<exists>i < la_numPartitions la. \<not> la_forbidden la i"
    and "la_minAlloc la * of_nat (la_numPartitions la) \<le> portion"
  shows "\<exists>la'. lookahead_partition muq get portion la = Inr la'
    \<and> (\<Sum>i < la_numPartitions la. unat (curAllocs la' i))
      = la_numPartitions la * unat (la_minAlloc la * of_nat (la_numPartitions la))
        + (unat portion - unat (la_minAlloc la * of_nat (la_numPartitions la)))"
proof -
  let ?n = "la_numPartitions la" and ?m = "la_minAlloc la * of_nat (la_numPartitions la)"
  have le: "unat ?m \<le> unat portion" using assms(3) by (simp only: word_le_nat_alt)
  have u: "unat (portion - ?m) = unat portion - unat ?m" by (rule unat_sub [OF assms(3)])
  have "unat ?m + unat (portion - ?m) < 2 ^ 32" unfolding u using le unat_less_exp [of portion] by simp
  then obtain r where "computeBestPartitioning muq get ?n portion ?m (la_forbidden la) = Inr r"
    "(\<Sum>i < ?n. unat (r i)) = ?n * unat ?m + unat (portion - ?m)"
    using alloc_loop_total [where muq = muq and get = get and n = ?n and forbidden = "la_forbidden la"
        and allocs = "\<lambda>_. ?m" and balance = "portion - ?m", OF assms(1,2) order_refl]
    by (auto simp: computeBestPartitioning_def)
  then show ?thesis by (simp add: lookahead_partition_def Let_def u)
qed

end
