(* ===== verification/MTRandom.thy ===== *)
theory MTRandom
  imports Complex_Main ZPrelude
begin

section \<open>The Mersenne twister\<close>

text \<open>
  mtrand.h. The state is an array of 624 words of 64 bits (of which the code keeps the upper
  half zero), the position \<open>pNext - state\<close> and the number of values left before a reload.
  \<open>reload\<close> overwrites the array in place, in three loops; the recurrence of the generator is
  stated separately, and the stream of numbers is shown to follow it.
\<close>

record mtrand =
  mt_state :: "u64 list"
  mt_next :: nat
  mt_left :: nat

definition hiBit :: "u64 \<Rightarrow> u64" where
  "hiBit u = u AND 0x80000000"

definition loBit :: "u64 \<Rightarrow> u64" where
  "loBit u = u AND 1"

definition loBits :: "u64 \<Rightarrow> u64" where
  "loBits u = u AND 0x7fffffff"

definition mixBits :: "u64 \<Rightarrow> u64 \<Rightarrow> u64" where
  "mixBits u v = hiBit u OR loBits v"

definition magic :: "u64 \<Rightarrow> u64" where
  "magic u = (if loBit u \<noteq> 0 then 0x9908b0df else 0)"

definition twist :: "u64 \<Rightarrow> u64 \<Rightarrow> u64 \<Rightarrow> u64" where
  "twist m s0 s1 = m XOR drop_bit 1 (mixBits s0 s1) XOR magic s1"

subsection \<open>Seeding\<close>

definition mt_initialize :: "u64 \<Rightarrow> u64 list \<Rightarrow> u64 list" where
  "mt_initialize seed s =
     foldl (\<lambda>s i. s[i := (1812433253 * (s ! (i - 1) XOR drop_bit 30 (s ! (i - 1))) + of_nat i) AND 0xffffffff])
       (s[0 := seed AND 0xffffffff]) [1..<624]"

definition mt_twist_all :: "u64 list \<Rightarrow> u64 list" where
  "mt_twist_all s0 =
     (let s1 = foldl (\<lambda>s p. s[p := twist (s ! (p + 397)) (s ! p) (s ! (p + 1))]) s0 [0..<227];
          s2 = foldl (\<lambda>s p. s[p := twist (s ! (p - 227)) (s ! p) (s ! (p + 1))]) s1 [227..<623]
      in s2[623 := twist (s2 ! (623 - 227)) (s2 ! 623) (s2 ! 0)])"

definition mt_reload :: "mtrand \<Rightarrow> mtrand" where
  "mt_reload r = \<lparr>mt_state = mt_twist_all (mt_state r), mt_next = 0, mt_left = 624\<rparr>"

definition mt_seed :: "u64 \<Rightarrow> mtrand \<Rightarrow> mtrand" where
  "mt_seed oneSeed r = mt_reload (r\<lparr>mt_state := mt_initialize oneSeed (mt_state r)\<rparr>)"

text \<open>The two loops of the array seeding; \<open>i\<close> and \<open>j\<close> are the indices of the code.\<close>

definition mt_wrap :: "u64 list \<times> nat \<Rightarrow> u64 list \<times> nat" where
  "mt_wrap = (\<lambda>(s, i). if 624 \<le> i + 1 then (s[0 := s ! 623], 1) else (s, i + 1))"

definition mt_seed_step1 :: "u64 list \<Rightarrow> u64 list \<times> nat \<times> nat \<Rightarrow> u64 list \<times> nat \<times> nat" where
  "mt_seed_step1 bigSeed = (\<lambda>(s, i, j).
     let v = (s ! i XOR ((s ! (i - 1) XOR drop_bit 30 (s ! (i - 1))) * 1664525))
             + ((bigSeed ! j AND 0xffffffff) + of_nat j);
         (s', i') = mt_wrap (s[i := v AND 0xffffffff], i)
     in (s', i', if length bigSeed \<le> j + 1 then 0 else j + 1))"

definition mt_seed_step2 :: "u64 list \<times> nat \<Rightarrow> u64 list \<times> nat" where
  "mt_seed_step2 = (\<lambda>(s, i).
     let v = (s ! i XOR ((s ! (i - 1) XOR drop_bit 30 (s ! (i - 1))) * 1566083941)) - of_nat i
     in mt_wrap (s[i := v AND 0xffffffff], i))"

definition mt_seed_array :: "u64 list \<Rightarrow> mtrand \<Rightarrow> mtrand" where
  "mt_seed_array bigSeed r =
     (let (s1, i1, j1) = (mt_seed_step1 bigSeed ^^ max 624 (length bigSeed)) (mt_initialize 19650218 (mt_state r), 1, 0);
          (s2, i2) = (mt_seed_step2 ^^ 623) (s1, i1)
      in mt_reload (r\<lparr>mt_state := s2[0 := 0x80000000]\<rparr>))"

text \<open>The memory of a new generator is not initialised; the seeding overwrites all of it.\<close>

definition MTRand :: "u64 \<Rightarrow> mtrand" where
  "MTRand oneSeed = mt_seed oneSeed \<lparr>mt_state = replicate 624 0, mt_next = 0, mt_left = 0\<rparr>"

subsection \<open>Drawing\<close>

definition temper :: "u64 \<Rightarrow> u64" where
  "temper s = (let a = s XOR drop_bit 11 s;
                   b = a XOR (push_bit 7 a AND 0x9d2c5680);
                   c = b XOR (push_bit 15 b AND 0xefc60000)
               in c XOR drop_bit 18 c)"

definition randInt :: "mtrand \<Rightarrow> u64 \<times> mtrand" where
  "randInt r = (let r1 = (if mt_left r = 0 then mt_reload r else r)
                in (temper (mt_state r1 ! mt_next r1), r1\<lparr>mt_left := mt_left r1 - 1, mt_next := mt_next r1 + 1\<rparr>))"

definition used_bits :: "u64 \<Rightarrow> u64" where
  "used_bits n = (let u1 = n OR drop_bit 1 n;
                      u2 = u1 OR drop_bit 2 u1;
                      u3 = u2 OR drop_bit 4 u2;
                      u4 = u3 OR drop_bit 8 u3
                  in u4 OR drop_bit 16 u4)"

text \<open>The loop draws until a value is at most \<open>n\<close>; it might not end.\<close>

partial_function (option) randInt_below :: "u64 \<Rightarrow> mtrand \<Rightarrow> (u64 \<times> mtrand) option" where
  "randInt_below n r = (let (x, r1) = randInt r; i = x AND used_bits n
                        in if i > n then randInt_below n r1 else Some (i, r1))"

fun mt_draws :: "nat \<Rightarrow> mtrand \<Rightarrow> u64 list \<times> mtrand" where
  "mt_draws 0 r = ([], r)"
| "mt_draws (Suc k) r = (let (x, r1) = randInt r; (xs, r2) = mt_draws k r1 in (x # xs, r2))"

text \<open>Numbers in the unit interval; \<open>fl\<close> rounds a result to a double.\<close>

definition mt_rand :: "(rat \<Rightarrow> rat) \<Rightarrow> mtrand \<Rightarrow> rat \<times> mtrand" where
  "mt_rand fl r = (let (x, r1) = randInt r in (fl (of_nat (unat x) * fl (1 / 4294967295)), r1))"

definition mt_rand53 :: "(rat \<Rightarrow> rat) \<Rightarrow> mtrand \<Rightarrow> rat \<times> mtrand" where
  "mt_rand53 fl r =
     (let (a, r1) = randInt r; (b, r2) = randInt r1;
          a' = of_nat (unat (drop_bit 5 a)); b' = of_nat (unat (drop_bit 6 b))
      in (fl (fl (fl (a' * 67108864) + b') * (1 / 9007199254740992)), r2))"

subsection \<open>Saving, loading and copying\<close>

definition mt_save :: "mtrand \<Rightarrow> u64 list" where
  "mt_save r = mt_state r @ [of_nat (mt_left r)]"

definition mt_load :: "u64 list \<Rightarrow> mtrand" where
  "mt_load la = \<lparr>mt_state = take 624 la, mt_next = 624 - unat (la ! 624), mt_left = unat (la ! 624)\<rparr>"

definition mt_copy :: "mtrand \<Rightarrow> mtrand" where
  "mt_copy r = \<lparr>mt_state = mt_state r, mt_next = 624 - mt_left r, mt_left = mt_left r\<rparr>"

subsection \<open>The recurrence\<close>

function mt_seq :: "u64 list \<Rightarrow> nat \<Rightarrow> u64" where
  "mt_seq s n = (if n < 624 then s ! n
                 else twist (mt_seq s (n - 624 + 397)) (mt_seq s (n - 624)) (mt_seq s (n - 624 + 1)))"
  by auto

termination by (relation "measure snd") auto

declare mt_seq.simps [simp del]

lemma mt_seq_step: "mt_seq s (n + 624) = twist (mt_seq s (n + 397)) (mt_seq s n) (mt_seq s (n + 1))"
  by (subst mt_seq.simps) simp

text \<open>A window of the sequence in the array.\<close>

definition mt_window :: "u64 list \<Rightarrow> nat \<Rightarrow> u64 list \<Rightarrow> bool" where
  "mt_window s0 b s \<longleftrightarrow> length s = 624 \<and> (\<forall>i < 624. s ! i = mt_seq s0 (b + i))"

definition mt_partial :: "u64 list \<Rightarrow> nat \<Rightarrow> nat \<Rightarrow> u64 list \<Rightarrow> bool" where
  "mt_partial s0 b p s \<longleftrightarrow> length s = 624
     \<and> (\<forall>i < 624. s ! i = mt_seq s0 (if i < p then b + i + 624 else b + i))"

lemma mt_partial_step:
  assumes "mt_partial s0 b p s" and "p < 624" and "v = mt_seq s0 (b + p + 624)"
  shows "mt_partial s0 b (Suc p) (s[p := v])"
  using assms by (auto simp: mt_partial_def nth_list_update less_Suc_eq)

lemma mt_loop1: "p \<le> 227 \<Longrightarrow> mt_partial s0 b 0 s \<Longrightarrow>
    mt_partial s0 b p (foldl (\<lambda>s p. s[p := twist (s ! (p + 397)) (s ! p) (s ! (p + 1))]) s [0..<p])"
proof (induction p)
  case (Suc p)
  let ?s = "foldl (\<lambda>s p. s[p := twist (s ! (p + 397)) (s ! p) (s ! (p + 1))]) s [0..<p]"
  have P: "mt_partial s0 b p ?s" using Suc by simp
  then have "twist (?s ! (p + 397)) (?s ! p) (?s ! (p + 1)) = mt_seq s0 (b + p + 624)"
    using Suc.prems(1) mt_seq_step [of s0 "b + p"] by (simp add: mt_partial_def add.assoc)
  from mt_partial_step [OF P _ this] show ?case using Suc.prems(1) by simp
qed simp

lemma mt_loop2: "p \<le> 396 \<Longrightarrow> mt_partial s0 b 227 s \<Longrightarrow>
    mt_partial s0 b (227 + p) (foldl (\<lambda>s p. s[p := twist (s ! (p - 227)) (s ! p) (s ! (p + 1))]) s [227..<227 + p])"
proof (induction p)
  case (Suc p)
  let ?s = "foldl (\<lambda>s p. s[p := twist (s ! (p - 227)) (s ! p) (s ! (p + 1))]) s [227..<227 + p]"
  have P: "mt_partial s0 b (227 + p) ?s" using Suc by simp
  have "?s ! p = mt_seq s0 (b + (227 + p) + 397)" "?s ! (227 + p) = mt_seq s0 (b + (227 + p))"
    "?s ! (227 + p + 1) = mt_seq s0 (b + (227 + p) + 1)"
    using P Suc.prems(1) by (simp_all add: mt_partial_def ac_simps)
  then have "twist (?s ! (227 + p - 227)) (?s ! (227 + p)) (?s ! (227 + p + 1)) = mt_seq s0 (b + (227 + p) + 624)"
    using mt_seq_step [of s0 "b + (227 + p)"] by simp
  from mt_partial_step [OF P _ this] have step: "mt_partial s0 b (227 + Suc p) (?s[227 + p :=
      twist (?s ! (227 + p - 227)) (?s ! (227 + p)) (?s ! (227 + p + 1))])" using Suc.prems(1) by simp
  have "[227..<227 + Suc p] = [227..<227 + p] @ [227 + p]" by (simp only: add_Suc_right upt_Suc le_add1 if_True)
  with step show ?case by (simp only: foldl_append foldl.simps)
qed simp

lemma mt_reload_window:
  assumes "mt_window s0 b (mt_state r)"
  shows "mt_window s0 (b + 624) (mt_state (mt_reload r))"
proof -
  define s1 where "s1 = foldl (\<lambda>s p. s[p := twist (s ! (p + 397)) (s ! p) (s ! (p + 1))]) (mt_state r) [0..<227]"
  define s2 where "s2 = foldl (\<lambda>s p. s[p := twist (s ! (p - 227)) (s ! p) (s ! (p + 1))]) s1 [227..<623]"
  have "mt_partial s0 b 0 (mt_state r)" using assms by (simp add: mt_window_def mt_partial_def)
  then have "mt_partial s0 b 227 s1" unfolding s1_def by (intro mt_loop1) simp_all
  then have "mt_partial s0 b (227 + 396) (foldl (\<lambda>s p. s[p := twist (s ! (p - 227)) (s ! p) (s ! (p + 1))]) s1 [227..<227 + 396])"
    by (intro mt_loop2) simp_all
  moreover have n: "227 + 396 = (623 :: nat)" by simp
  ultimately have P: "mt_partial s0 b 623 s2" unfolding n s2_def by blast
  have "s2 ! 396 = mt_seq s0 (b + 623 + 397)" "s2 ! 623 = mt_seq s0 (b + 623)" "s2 ! 0 = mt_seq s0 (b + 623 + 1)"
    using P by (simp_all add: mt_partial_def add.commute)
  then have "twist (s2 ! (623 - 227)) (s2 ! 623) (s2 ! 0) = mt_seq s0 (b + 623 + 624)"
    using mt_seq_step [of s0 "b + 623"] by simp
  from mt_partial_step [OF P _ this] have
    "mt_partial s0 b 624 (s2[623 := twist (s2 ! (623 - 227)) (s2 ! 623) (s2 ! 0)])" by (simp del: nth_list_update)
  moreover have "mt_state (mt_reload r) = s2[623 := twist (s2 ! (623 - 227)) (s2 ! 623) (s2 ! 0)]"
    unfolding mt_reload_def mt_twist_all_def Let_def s1_def [symmetric] s2_def [symmetric] mtrand.select_convs ..
  ultimately show ?thesis by (simp add: mt_window_def mt_partial_def ac_simps)
qed

subsection \<open>The stream of numbers\<close>

text \<open>The generator is about to return element \<open>k\<close> of the sequence.\<close>

definition mt_at :: "u64 list \<Rightarrow> nat \<Rightarrow> mtrand \<Rightarrow> bool" where
  "mt_at s0 k r \<longleftrightarrow> (\<exists>b. mt_window s0 b (mt_state r) \<and> k = b + mt_next r \<and> mt_next r + mt_left r = 624)"

lemma randInt_at:
  assumes "mt_at s0 k r"
  shows "fst (randInt r) = temper (mt_seq s0 k)" and "mt_at s0 (Suc k) (snd (randInt r))"
proof -
  obtain b where b: "mt_window s0 b (mt_state r)" "k = b + mt_next r" "mt_next r + mt_left r = 624"
    using assms by (auto simp: mt_at_def)
  define r1 where "r1 = (if mt_left r = 0 then mt_reload r else r)"
  have "\<exists>c. mt_window s0 c (mt_state r1) \<and> k = c + mt_next r1 \<and> mt_next r1 + mt_left r1 = 624 \<and> 0 < mt_left r1"
  proof (cases "mt_left r = 0")
    case True
    have "mt_next (mt_reload r) = 0" "mt_left (mt_reload r) = 624" by (simp_all add: mt_reload_def)
    then show ?thesis using mt_reload_window [OF b(1)] b True by (intro exI [of _ "b + 624"]) (simp add: r1_def)
  next
    case False
    then show ?thesis using b by (auto simp: r1_def)
  qed
  then obtain c where c: "mt_window s0 c (mt_state r1)" "k = c + mt_next r1" "mt_next r1 + mt_left r1 = 624" "0 < mt_left r1"
    by blast
  show "fst (randInt r) = temper (mt_seq s0 k)"
    using c by (simp add: randInt_def Let_def r1_def [symmetric] mt_window_def)
  show "mt_at s0 (Suc k) (snd (randInt r))"
    unfolding mt_at_def using c
    by (intro exI [of _ c]) (simp add: randInt_def Let_def r1_def [symmetric])
qed

lemma mt_draws_at:
  "mt_at s0 k r \<Longrightarrow> fst (mt_draws n r) = map (\<lambda>i. temper (mt_seq s0 (k + i))) [0..<n] \<and> mt_at s0 (k + n) (snd (mt_draws n r))"
proof (induction n arbitrary: k r)
  case (Suc n)
  show ?case
    using randInt_at [OF Suc.prems] Suc.IH [OF randInt_at(2) [OF Suc.prems]]
    by (simp add: Let_def case_prod_beta map_upt_Suc del: upt_Suc)
qed simp

lemma mt_init_length: "length (mt_initialize seed s) = length s"
proof -
  have "length (foldl (\<lambda>s i. s[i := f s i]) s xs) = length s" for f :: "u64 list \<Rightarrow> nat \<Rightarrow> u64" and s xs
    by (induction xs arbitrary: s) auto
  then show ?thesis by (simp add: mt_initialize_def)
qed

lemma mt_start:
  assumes "length s = 624"
  shows "mt_at s 624 (mt_reload (r\<lparr>mt_state := s\<rparr>))"
proof -
  have "mt_window s 0 s" using assms by (simp add: mt_window_def mt_seq.simps)
  then have "mt_window s 624 (mt_state (mt_reload (r\<lparr>mt_state := s\<rparr>)))"
    using mt_reload_window [of s 0 "r\<lparr>mt_state := s\<rparr>"] by simp
  moreover have "mt_next (mt_reload r') = 0" "mt_left (mt_reload r') = 624" for r' by (simp_all add: mt_reload_def)
  ultimately show ?thesis unfolding mt_at_def by (intro exI [of _ 624]) simp
qed

lemma MTRand_at: "mt_at (mt_initialize seed (replicate 624 0)) 624 (MTRand seed)"
  using mt_start [of "mt_initialize seed (replicate 624 0)" "\<lparr>mt_state = replicate 624 0, mt_next = 0, mt_left = 0\<rparr>"]
  by (simp add: MTRand_def mt_seed_def mt_init_length)

subsection \<open>Ranges\<close>

definition low32 :: "u64 \<Rightarrow> bool" where
  "low32 w \<longleftrightarrow> (\<forall>n. bit w n \<longrightarrow> n < 32)"

lemma low32_xor: "low32 a \<Longrightarrow> low32 b \<Longrightarrow> low32 (a XOR b)"
  by (auto simp: low32_def bit_xor_iff)

lemma low32_or: "low32 a \<Longrightarrow> low32 b \<Longrightarrow> low32 (a OR b)"
  by (auto simp: low32_def bit_or_iff)

lemma low32_and: "low32 b \<Longrightarrow> low32 (a AND b)"
  by (auto simp: low32_def bit_and_iff)

lemma low32_drop: "low32 a \<Longrightarrow> low32 (drop_bit k a)"
  by (fastforce simp: low32_def bit_drop_bit_eq)

lemma low32_iff: "low32 w \<longleftrightarrow> w < 2 ^ 32"
proof -
  have "take_bit 32 w = w \<longleftrightarrow> low32 w" 

  proof
    assume t: "take_bit 32 w = w"
    have "n < 32" if "bit w n" for n using that by (subst (asm) t [symmetric]) (simp add: bit_take_bit_iff)
    then show "low32 w" by (simp add: low32_def)
  qed (auto simp: bit_eq_iff bit_take_bit_iff low32_def)
  moreover have "take_bit 32 w = w \<longleftrightarrow> w < 2 ^ 32"
    by (simp add: word_less_nat_alt word_unat_eq_iff unsigned_take_bit_eq take_bit_nat_eq_self_iff)
  ultimately show ?thesis by simp
qed

lemmas low32_intros = low32_xor low32_or low32_and low32_drop

lemma low32_twist: "low32 m \<Longrightarrow> low32 (twist m a b)"
  unfolding twist_def mixBits_def hiBit_def loBits_def magic_def
  by (intro low32_intros) (auto simp: low32_iff)

lemma low32_temper: "low32 s \<Longrightarrow> low32 (temper s)"
  unfolding temper_def Let_def by (intro low32_intros) (auto simp: low32_iff)

lemma low32_seq:
  assumes "\<forall>i < 624. low32 (s ! i)"
  shows "low32 (mt_seq s n)"
proof (induction n rule: less_induct)
  case (less n)
  show ?case
    by (subst mt_seq.simps) (use less assms in \<open>auto intro: low32_twist\<close>)
qed

lemma low32_init: "length s = 624 \<Longrightarrow> i < 624 \<Longrightarrow> low32 (mt_initialize seed s ! i)"
proof -
  assume s: "length s = 624" and i: "i < 624"
  let ?f = "\<lambda>s i. s[i := (1812433253 * (s ! (i - 1) XOR drop_bit 30 (s ! (i - 1))) + of_nat i) AND 0xffffffff :: u64]"
  have m: "low32 (x AND 0xffffffff)" for x by (rule low32_and) (simp add: low32_iff)
  have "k \<le> 624 \<Longrightarrow> 1 \<le> k \<Longrightarrow> length (foldl ?f (s[0 := seed AND 0xffffffff]) [1..<k]) = 624
      \<and> (\<forall>i < k. low32 (foldl ?f (s[0 := seed AND 0xffffffff]) [1..<k] ! i))" for k
  proof (induction k)
    case (Suc k)
    show ?case
    proof (cases "k = 0")
      case False
      then have "[1..<Suc k] = [1..<k] @ [k]" by simp
      then show ?thesis using Suc False m by (auto simp: nth_list_update less_Suc_eq)
    qed (use s m in simp)
  qed simp
  from this [of 624] i show ?thesis by (simp add: mt_initialize_def)
qed

text \<open>The mask covers all the bits below the highest bit of \<open>n\<close>.\<close>

lemma smear_step:
  assumes "\<And>i. bit (u :: u64) i \<longleftrightarrow> (\<exists>d < k. bit n (i + d))"
  shows "bit (u OR drop_bit k u) i \<longleftrightarrow> (\<exists>d < k + k. bit n (i + d))"
proof
  assume "bit (u OR drop_bit k u) i"
  then have "bit u i \<or> bit u (k + i)" by (simp add: bit_or_iff bit_drop_bit_eq)
  then show "\<exists>d < k + k. bit n (i + d)"
  proof
    assume "bit u i"
    then obtain d where "d < k" "bit n (i + d)" using assms by blast
    then show ?thesis by (intro exI [of _ d]) simp
  next
    assume "bit u (k + i)"
    then obtain d where "d < k" "bit n (k + i + d)" using assms by blast
    then show ?thesis by (intro exI [of _ "k + d"]) (simp add: ac_simps)
  qed
next
  assume "\<exists>d < k + k. bit n (i + d)"
  then obtain d where d: "d < k + k" "bit n (i + d)" by blast
  show "bit (u OR drop_bit k u) i"
  proof (cases "d < k")
    case True
    then show ?thesis using assms d by (auto simp: bit_or_iff)
  next
    case False
    then have "bit n (k + i + (d - k))" "d - k < k" using d by (simp_all add: ac_simps)
    then show ?thesis using assms by (auto simp: bit_or_iff bit_drop_bit_eq)
  qed
qed

lemma used_bits_bit: "bit (used_bits n) i \<longleftrightarrow> (\<exists>d < 32. bit n (i + d))"
proof -
  have b0: "bit n i \<longleftrightarrow> (\<exists>d < 1. bit n (i + d))" for i by simp
  have ar: "(1 :: nat) + 1 = 2" "(2 :: nat) + 2 = 4" "(4 :: nat) + 4 = 8" "(8 :: nat) + 8 = 16" "(16 :: nat) + 16 = 32"
    by simp_all
  note b1 = smear_step [OF b0, unfolded ar]
  note b2 = smear_step [OF b1, unfolded ar]
  note b3 = smear_step [OF b2, unfolded ar]
  note b4 = smear_step [OF b3, unfolded ar]
  show ?thesis unfolding used_bits_def Let_def by (rule smear_step [OF b4, unfolded ar])
qed

lemma bit_le:
  assumes "v \<le> (n :: u64)" and "bit v i"
  shows "\<exists>j \<ge> i. bit n j"
proof (rule ccontr)
  assume "\<not> ?thesis"
  then have "drop_bit i n = 0" by (auto simp: bit_eq_iff bit_drop_bit_eq)
  then have "unat (drop_bit i n) = 0" by simp
  moreover have "unat (drop_bit i v) \<le> unat (drop_bit i n)"
    using assms(1) unfolding unat_drop_bit_eq word_le_nat_alt unfolding drop_bit_eq_div by (rule div_le_mono)
  ultimately have "drop_bit i v = 0" by (simp add: unat_eq_zero)
  then have "bit (drop_bit i v) 0 = False" by simp
  then show False using assms(2) by (simp add: bit_drop_bit_eq)
qed

lemma used_bits_keep:
  assumes "v \<le> n" and "n < 2 ^ 32"
  shows "v AND used_bits n = v"
proof -
  have "bit (used_bits n) i" if v: "bit v i" for i
  proof -
    from bit_le [OF assms(1) v] obtain j where j: "j \<ge> i" "bit n j" by blast
    have "j < 32" using assms(2) j(2) low32_iff [of n] by (simp add: low32_def)
    then show ?thesis using j unfolding used_bits_bit by (intro exI [of _ "j - i"]) simp
  qed
  then show ?thesis by (auto simp: bit_eq_iff bit_and_iff)
qed

subsection \<open>Properties\<close>

text \<open>
  C30. The stream of numbers of a generator seeded with one word is the tempered sequence of the
  recurrence \<open>x (n + 624) = twist (x (n + 397)) (x n) (x (n + 1))\<close> that starts with the words
  of the initialisation, from its element 624 on: reloading the array in place, at the right
  moments, computes it exactly. All numbers are below \<open>2^32\<close>.
\<close>

theorem mt_stream:
  "fst (mt_draws n (MTRand seed))
      = map (\<lambda>i. temper (mt_seq (mt_initialize seed (replicate 624 0)) (624 + i))) [0..<n]
    \<and> list_all (\<lambda>x. x < 2 ^ 32) (fst (mt_draws n (MTRand seed)))"
proof -
  let ?s = "mt_initialize seed (replicate 624 0)"
  have d: "fst (mt_draws n (MTRand seed)) = map (\<lambda>i. temper (mt_seq ?s (624 + i))) [0..<n]"
    using mt_draws_at [OF MTRand_at] by blast
  have "low32 (mt_seq ?s k)" for k by (rule low32_seq) (simp add: low32_init)
  then have "temper (mt_seq ?s k) < 2 ^ 32" for k using low32_temper low32_iff by blast
  then show ?thesis by (simp add: d list_all_iff)
qed

lemma randInt_below_le: "randInt_below n r = Some y \<Longrightarrow> fst y \<le> n"
  by (erule randInt_below.raw_induct [where P = "\<lambda>n r y. fst y \<le> n", rotated])
    (auto simp: Let_def split: prod.splits if_splits)

text \<open>
  \<open>randInt(n)\<close> only returns numbers from 0 to \<open>n\<close>, and accepts a draw that is in this range
  at once and unchanged, for every \<open>n\<close> below \<open>2^32\<close>.
\<close>

theorem randInt_range:
  assumes "n < 2 ^ 32"
  shows "(randInt_below n r = Some (i, r') \<longrightarrow> i \<le> n)
    \<and> (fst (randInt r) \<le> n \<longrightarrow> randInt_below n r = Some (randInt r))"
  using randInt_below_le [of n r "(i, r')"] used_bits_keep [OF _ assms]
  by (auto simp: Let_def case_prod_beta randInt_below.simps [of n r])

theorem randInt_range_witness:
  "randInt_below 5 \<lparr>mt_state = [0], mt_next = 0, mt_left = 1\<rparr>
      = Some (0, \<lparr>mt_state = [0], mt_next = 1, mt_left = 0\<rparr>)"
proof -
  have r: "randInt \<lparr>mt_state = [0], mt_next = 0, mt_left = 1\<rparr> = (0, \<lparr>mt_state = [0], mt_next = 1, mt_left = 0\<rparr>)"
    by (simp add: randInt_def temper_def Let_def)
  show ?thesis using randInt_range [of 5 "\<lparr>mt_state = [0], mt_next = 0, mt_left = 1\<rparr>"] unfolding r by simp
qed

lemma mt_at_fields: "mt_at s0 k r \<Longrightarrow> length (mt_state r) = 624 \<and> mt_next r = 624 - mt_left r \<and> mt_left r \<le> 624"
  by (auto simp: mt_at_def mt_window_def)

text \<open>
  Saving a generator and loading it, or copying it, gives the same generator, at any point
  of its stream.
\<close>

theorem mt_save_load:
  "mt_load (mt_save (snd (mt_draws n (MTRand seed)))) = snd (mt_draws n (MTRand seed))
    \<and> mt_copy (snd (mt_draws n (MTRand seed))) = snd (mt_draws n (MTRand seed))"
proof -
  define r where "r = snd (mt_draws n (MTRand seed))"
  have f: "length (mt_state r) = 624" "mt_next r = 624 - mt_left r" "mt_left r \<le> 624"
    using mt_at_fields mt_draws_at [OF MTRand_at] unfolding r_def by blast+
  have "unat (of_nat (mt_left r) :: u64) = mt_left r" using f(3) by (simp add: unat_of_nat take_bit_nat_eq_self)
  then show ?thesis
    unfolding r_def [symmetric] using f by (auto simp: mt_load_def mt_save_def mt_copy_def nth_append)
qed

end
