(* ===== verification/HashFns.thy ===== *)
theory HashFns
  imports MTRandom "HOL-Library.Multiset"
begin

section \<open>Hash families\<close>

text \<open>
  hash.h and hash.cpp: the H3 family, whose matrix is drawn from the Mersenne twister and whose
  loop is unrolled eight times; the SHA-1 family with its memoised block (the SHA-1 function of
  PolarSSL is a parameter); the identity.
\<close>

record h3_family =
  h3_numFuncs :: nat
  h3_resShift :: nat
  h3_matrix :: "u64 list"

subsection \<open>Construction\<close>

fun h3_draw_word :: "nat \<Rightarrow> u64 \<times> mtrand \<Rightarrow> u64 \<times> mtrand" where
  "h3_draw_word 0 vr = vr"
| "h3_draw_word (Suc k) (val, r) =
     (let (x, r1) = randInt r; val1 = push_bit 1 val
      in h3_draw_word k (if x mod 2 = 0 then val1 + 1 else val1, r1))"

definition h3_fill :: "nat \<Rightarrow> nat \<Rightarrow> u64 list \<times> mtrand \<Rightarrow> u64 list \<times> mtrand" where
  "h3_fill numFunctions words =
     fold (\<lambda>ii. fold (\<lambda>jj (m, r). let (val, r1) = h3_draw_word 64 (0, r) in (m[ii * words + jj := val], r1)) [0..<words])
       [0..<numFunctions]"

definition h3_init :: "nat \<Rightarrow> nat \<Rightarrow> u64 \<Rightarrow> h3_family res" where
  "h3_init numFunctions outputBits randSeed =
     rbind (if outputBits \<le> 8 then Inr 3 else if outputBits \<le> 16 then Inr 2
            else if outputBits \<le> 32 then Inr 1 else if outputBits \<le> 64 then Inr 0 else Inl Panic)
       (\<lambda>shift. let words = 64 div 2 ^ shift
          in Inr \<lparr>h3_numFuncs = numFunctions, h3_resShift = shift,
                  h3_matrix = fst (h3_fill numFunctions words (replicate (words * numFunctions) 0, MTRand randSeed))\<rparr>)"

subsection \<open>Hashing\<close>

definition rol :: "nat \<Rightarrow> u64 \<Rightarrow> u64" where
  "rol k w = push_bit k w OR drop_bit (64 - k) w"

definition h3_block :: "(nat \<Rightarrow> u64) \<Rightarrow> nat \<Rightarrow> u64 \<Rightarrow> u64 \<Rightarrow> u64" where
  "h3_block m base val res =
     (let res0 = val AND m base; res1 = val AND m (base + 1); res2 = val AND m (base + 2); res3 = val AND m (base + 3);
          res4 = val AND m (base + 4); res5 = val AND m (base + 5); res6 = val AND m (base + 6); res7 = val AND m (base + 7);
          r1 = res XOR (res0 XOR rol 1 res1 XOR rol 2 res2 XOR rol 3 res3);
          r2 = r1 XOR (rol 4 res4 XOR rol 5 res5 XOR rol 6 res6 XOR rol 7 res7)
      in rol 8 r2)"

definition h3_fold_bits :: "nat \<Rightarrow> u64 \<Rightarrow> u64" where
  "h3_fold_bits shift res =
     (if shift = 1 then drop_bit 32 res XOR res
      else if shift = 2 then let r = drop_bit 32 res XOR res in drop_bit 16 r XOR r
      else if shift = 3 then let r = drop_bit 32 res XOR res; r = drop_bit 16 r XOR r in drop_bit 8 r XOR r
      else res)"

definition h3_loop :: "(nat \<Rightarrow> u64) \<Rightarrow> nat \<Rightarrow> nat \<Rightarrow> u64 \<Rightarrow> u64" where
  "h3_loop m base maxBits val = foldl (\<lambda>res k. h3_block m (base + 8 * k) val res) 0 [0..<maxBits div 8]"

definition h3_hash :: "h3_family \<Rightarrow> nat \<Rightarrow> u64 \<Rightarrow> u64 res" where
  "h3_hash h hid val =
     assert_then (hid < h3_numFuncs h)
       (Inr (h3_fold_bits (h3_resShift h)
          (h3_loop ((!) (h3_matrix h)) (hid * 2 ^ (6 - h3_resShift h)) (64 div 2 ^ h3_resShift h) val)))"

text \<open>The original code that the comment on \<open>hash\<close> quotes, for 64 bits.\<close>

definition h3_original :: "(nat \<Rightarrow> u64) \<Rightarrow> u64 \<Rightarrow> u64" where
  "h3_original m val = foldl (\<lambda>res x. let r = res XOR (val AND m x) in push_bit 1 r OR drop_bit 63 r) 0 [0..<64]"

subsection \<open>The SHA-1 family\<close>

record sha1_family =
  sh_numFuncs :: nat
  sh_numPasses :: nat
  memoizedVal :: u64
  memoizedHashes :: "u32 list"

definition sha1_init :: "nat \<Rightarrow> sha1_family" where
  "sha1_init numFunctions = (let passes = numFunctions div 5 + 1
     in \<lparr>sh_numFuncs = numFunctions, sh_numPasses = passes, memoizedVal = 0, memoizedHashes = replicate (passes * 5) 0\<rparr>)"

definition sha1_pass :: "(u64 list \<Rightarrow> u32 list) \<Rightarrow> nat \<Rightarrow> u64 list \<times> u32 list \<Rightarrow> u64 list \<times> u32 list" where
  "sha1_pass sha1 i = (\<lambda>(buffer, hs).
     let buffer1 = (if 0 < i then foldl (\<lambda>b j. b[j := b ! j XOR ucast (hs ! ((i - 1) * 5 + j))]) buffer [0..<5] else buffer);
         digest = sha1 buffer1
     in (buffer1, foldl (\<lambda>h j. h[i * 5 + j := digest ! j]) hs [0..<5]))"

definition sha1_block :: "(u64 list \<Rightarrow> u32 list) \<Rightarrow> nat \<Rightarrow> u64 \<Rightarrow> u32 list \<Rightarrow> u32 list" where
  "sha1_block sha1 passes val hs = snd (fold (sha1_pass sha1) [0..<passes] (replicate 16 val, hs))"

definition sha1_hash :: "(u64 list \<Rightarrow> u32 list) \<Rightarrow> nat \<Rightarrow> u64 \<Rightarrow> sha1_family \<Rightarrow> (u64 \<times> sha1_family) res" where
  "sha1_hash sha1 hid val h =
     assert_then (hid < sh_numFuncs h)
       (if val = memoizedVal h then Inr (ucast (memoizedHashes h ! hid), h)
        else let hs = sha1_block sha1 (sh_numPasses h) val (memoizedHashes h)
             in Inr (ucast (hs ! hid), h\<lparr>memoizedHashes := hs, memoizedVal := val\<rparr>))"

definition id_hash :: "nat \<Rightarrow> u64 \<Rightarrow> u64" where
  "id_hash hid val = val"

subsection \<open>Linearity of the loop\<close>

lemma rol_bit:
  assumes "0 < k" and "k < 64"
  shows "bit (rol k w) n \<longleftrightarrow> n < 64 \<and> bit w ((n + 64 - k) mod 64)"
proof (cases "n < 64")
  case True
  show ?thesis
  proof (cases "k \<le> n")
    case True': True
    have "(n + 64 - k) mod 64 = n - k" using True True' by (simp add: mod_if)
    moreover have "\<not> bit w (64 - k + n)" using True' assms by (auto dest: bit_imp_le_length)
    ultimately show ?thesis using True True' by (auto simp: rol_def bit_or_iff bit_push_bit_iff bit_drop_bit_eq)
  next
    case False
    then have "(n + 64 - k) mod 64 = 64 - k + n" using assms True by simp
    then show ?thesis using True False by (auto simp: rol_def bit_or_iff bit_push_bit_iff bit_drop_bit_eq)
  qed
qed (auto simp: rol_def dest: bit_imp_le_length)

lemma rol_xor: "rol k (a XOR b) = rol k a XOR rol k b" if "0 < k" "k < 64"
  by (rule bit_word_eqI) (auto simp: rol_bit [OF that] bit_xor_iff)

lemma rol_zero [simp]: "rol k 0 = 0"
  by (simp add: rol_def)

lemma xor_pair: "(a XOR b) XOR (c XOR d) = (a XOR c) XOR (b XOR (d :: u64))"
  by (simp add: ac_simps)

lemma and_xor: "(a XOR b) AND m = (a AND m) XOR (b AND (m :: u64))"
  by (rule bit_word_eqI) (auto simp: bit_and_iff bit_xor_iff)

lemma drop_xor: "drop_bit k (a XOR b) = drop_bit k a XOR drop_bit k (b :: u64)"
  by (rule bit_word_eqI) (auto simp: bit_drop_bit_eq bit_xor_iff)

lemma h3_block_xor: "h3_block m i (a XOR b) (r XOR s) = h3_block m i a r XOR h3_block m i b s"
  by (simp add: h3_block_def Let_def and_xor rol_xor xor.assoc xor.commute xor.left_commute)

lemma h3_loop_xor: "h3_loop m base bits (a XOR b) = h3_loop m base bits a XOR h3_loop m base bits b"
proof -
  have "foldl (\<lambda>res k. h3_block m (base + 8 * k) (a XOR b) res) (r XOR s) ks
      = foldl (\<lambda>res k. h3_block m (base + 8 * k) a res) r ks XOR foldl (\<lambda>res k. h3_block m (base + 8 * k) b res) s ks" for r s ks
    by (induction ks arbitrary: r s) (simp_all add: h3_block_xor)
  from this [of 0 0] show ?thesis by (simp add: h3_loop_def)
qed

lemma h3_fold_xor: "h3_fold_bits k (a XOR b) = h3_fold_bits k a XOR h3_fold_bits k b"
  by (simp add: h3_fold_bits_def Let_def drop_xor ac_simps)

text \<open>
  H3 is linear: the hash of an exclusive or is the exclusive or of the hashes (so equal
  hashes of two lines only depend on the bits in which they differ), for every function of the
  family and every output width, and the unrolled loop keeps this.
\<close>

theorem h3_linear:
  assumes "h3_init nf bits seed = Inr h" and "hid < nf"
  shows "\<exists>f. (\<forall>val. h3_hash h hid val = Inr (f val)) \<and> (\<forall>a b. f (a XOR b) = f a XOR f b)"
proof -
  have "h3_numFuncs h = nf" using assms(1) by (auto simp: h3_init_def Let_def res_simps)
  then show ?thesis using assms(2)
    by (intro exI [of _ "\<lambda>val. h3_fold_bits (h3_resShift h)
          (h3_loop ((!) (h3_matrix h)) (hid * 2 ^ (6 - h3_resShift h)) (64 div 2 ^ h3_resShift h) val)"])
      (simp add: h3_hash_def h3_loop_xor h3_fold_xor)
qed

text \<open>A concrete family for the 8-bit output.\<close>

theorem h3_linear_witness:
  "\<exists>h. h3_init 2 8 1 = Inr h \<and> (\<exists>f. (\<forall>val. h3_hash h 1 val = Inr (f val)) \<and> (\<forall>a b. f (a XOR b) = f a XOR f b))"
proof -
  obtain h where "h3_init 2 8 1 = Inr h" by (simp add: h3_init_def Let_def)
  with h3_linear [OF this, of 1] show ?thesis by simp
qed

subsection \<open>The unrolled loop and the original code\<close>

lemma sub_mod: "n < 64 \<Longrightarrow> 0 < a \<Longrightarrow> a \<le> 64 \<Longrightarrow> (n + 64 - a) mod 64 = (if a \<le> n then n - a else n + 64 - a)" for n a :: nat
proof (cases "a \<le> n")
  case True
  assume "n < 64" "0 < a"
  have "n + 64 - a = (n - a) + 64" using True by simp
  then show ?thesis using True \<open>n < 64\<close> by (simp only: mod_add_self2) simp
qed simp

lemma sub_mod_less: "(n + 64 - a) mod 64 < 64" for n a :: nat
  by simp

lemma rol_rol: "rol a (rol b w) = rol (a + b) w" if "0 < a" "0 < b" "a + b < 64"
proof (rule bit_word_eqI)
  fix n :: nat
  assume "n < LENGTH(64)"
  then have n: "n < 64" by simp
  define k where "k = (n + 64 - a) mod 64"
  have k: "k < 64" by (simp only: k_def sub_mod_less)
  have ke: "k = (if a \<le> n then n - a else n + 64 - a)" unfolding k_def by (rule sub_mod) (use n that in simp_all)
  have "(k + 64 - b) mod 64 = (if b \<le> k then k - b else k + 64 - b)" by (rule sub_mod) (use k that in simp_all)
  moreover have "(n + 64 - (a + b)) mod 64 = (if a + b \<le> n then n - (a + b) else n + 64 - (a + b))"
    by (rule sub_mod) (use n that in simp_all)
  moreover have "(if b \<le> k then k - b else k + 64 - b) = (if a + b \<le> n then n - (a + b) else n + 64 - (a + b))"
    unfolding ke using n that by (simp split: if_split)
  ultimately have "(k + 64 - b) mod 64 = (n + 64 - (a + b)) mod 64" by (simp only:)
  moreover have "bit (rol a (rol b w)) n = bit w ((k + 64 - b) mod 64)"
    using that n k by (simp only: rol_bit k_def [symmetric]) simp
  moreover have "bit (rol (a + b) w) n = bit w ((n + 64 - (a + b)) mod 64)"
    using that n by (simp only: rol_bit add_pos_pos) simp
  ultimately show "bit (rol a (rol b w)) n = bit (rol (a + b) w) n" by (simp only:)
qed

lemma rol_full: "rol a (rol b w) = w" if "0 < a" "0 < b" "a + b = 64"
proof (rule bit_word_eqI)
  fix n :: nat
  assume "n < LENGTH(64)"
  then have n: "n < 64" by simp
  define k where "k = (n + 64 - a) mod 64"
  have k: "k < 64" by (simp only: k_def sub_mod_less)
  have ke: "k = (if a \<le> n then n - a else n + 64 - a)" unfolding k_def by (rule sub_mod) (use n that in simp_all)
  have "(k + 64 - b) mod 64 = (if b \<le> k then k - b else k + 64 - b)" by (rule sub_mod) (use k that in simp_all)
  also have "\<dots> = n" unfolding ke using n that by (simp split: if_split) linarith
  finally have "(k + 64 - b) mod 64 = n" .
  moreover have "bit (rol a (rol b w)) n = bit w ((k + 64 - b) mod 64)"
    using that n k by (simp only: rol_bit k_def [symmetric]) simp
  ultimately show "bit (rol a (rol b w)) n = bit w n" by (simp only:)
qed

text \<open>Rotations by any amount, as the exponents of the contributions.\<close>

definition rot :: "nat \<Rightarrow> u64 \<Rightarrow> u64" where
  "rot k w = (if k mod 64 = 0 then w else rol (k mod 64) w)"

lemma rot_rol: "0 < a \<Longrightarrow> a < 64 \<Longrightarrow> rol a (rot k w) = rot (a + k) w"
proof -
  assume a: "0 < a" "a < 64"
  define j where "j = k mod 64"
  have j: "j < 64" by (simp add: j_def)
  have "(a + k) mod 64 = (a + j) mod 64" unfolding j_def by (simp only: mod_add_right_eq)
  moreover have "(a + j) mod 64 = (if a + j < 64 then a + j else a + j - 64)"
    using a j by (simp add: le_mod_geq)
  ultimately have sum: "(a + k) mod 64 = (if a + j < 64 then a + j else a + j - 64)" by (simp only:)
  consider "j = 0" | "0 < j" "a + j < 64" | "0 < j" "a + j = 64" | "0 < j" "64 < a + j" by linarith
  then show ?thesis
  proof cases
    case 1
    then show ?thesis using a sum by (simp add: rot_def j_def [symmetric])
  next
    case 2
    then show ?thesis using a sum by (simp add: rot_def j_def [symmetric] rol_rol)
  next
    case 3
    then show ?thesis using a sum by (simp add: rot_def j_def [symmetric] rol_full)
  next
    case 4
    then have "rol j w = rol (64 - a) (rol (j - (64 - a)) w)" using a j by (simp add: rol_rol)
    then have "rol a (rol j w) = rol (j - (64 - a)) w" using a 4 j by (simp add: rol_full)
    moreover have "a + j - 64 = j - (64 - a)" using a by simp
    ultimately show ?thesis using a sum 4 by (simp add: rot_def j_def [symmetric])
  qed
qed

lemma rot_xor: "rot k (a XOR b) = rot k a XOR rot k b"
  by (simp add: rot_def rol_xor)

text \<open>The exclusive or of rotated rows.\<close>

definition row_sum :: "(nat \<Rightarrow> nat) \<Rightarrow> (nat \<Rightarrow> u64) \<Rightarrow> nat list \<Rightarrow> u64" where
  "row_sum e m xs = foldr (\<lambda>x acc. rot (e x) (m x) XOR acc) xs 0"

lemma row_sum_append: "row_sum e m (xs @ ys) = row_sum e m xs XOR row_sum e m ys"
  by (induction xs) (simp_all add: row_sum_def xor.assoc)

lemma row_sum_rol: "0 < a \<Longrightarrow> a < 64 \<Longrightarrow> rol a (row_sum e m xs) = row_sum (\<lambda>x. a + e x) m xs"
  by (induction xs) (simp_all add: row_sum_def rol_xor rot_rol)

lemma row_sum_cong: "(\<And>x. x \<in> set xs \<Longrightarrow> rot (e x) (m x) = rot (e' x) (m' x)) \<Longrightarrow> row_sum e m xs = row_sum e' m' xs"
  by (induction xs) (simp_all add: row_sum_def)

lemma row_sum_perm: "mset xs = mset ys \<Longrightarrow> row_sum e m xs = row_sum e m ys"
proof -
  assume "mset xs = mset ys"
  then have "mset (rev xs) = mset (rev ys)" by simp
  moreover have "f x \<circ> f y = f y \<circ> f x" if "f = (\<lambda>x acc. rot (e x) (m x) XOR acc)" for f x y
    using that by (auto simp: xor.left_commute)
  ultimately have "fold (\<lambda>x acc. rot (e x) (m x) XOR acc) (rev xs) = fold (\<lambda>x acc. rot (e x) (m x) XOR acc) (rev ys)"
    by (intro fold_multiset_equiv) auto
  then show ?thesis by (simp add: row_sum_def foldr_conv_fold)
qed

lemma row_sum_map: "row_sum e m (map f xs) = row_sum (e \<circ> f) (m \<circ> f) xs"
  by (induction xs) (simp_all add: row_sum_def)

lemma rot_small [simp]: "rot 0 w = w" "0 < k \<Longrightarrow> k < 64 \<Longrightarrow> rot k w = rol k w"
  by (simp_all add: rot_def)

lemma h3_original_sum: "h3_original m val = row_sum (\<lambda>x. 64 - x) (\<lambda>x. val AND m x) [0..<64]"
proof -
  have r: "(\<lambda>res x. let r = res XOR (val AND m x) in push_bit 1 r OR drop_bit 63 r)
      = (\<lambda>res x. rol 1 (res XOR (val AND m x)))"
    unfolding rol_def Let_def by simp
  have "foldl (\<lambda>res x. rol 1 (res XOR (val AND m x))) 0 [0..<k]
      = row_sum (\<lambda>x. k - x) (\<lambda>x. val AND m x) [0..<k]" for k
  proof (induction k)
    case 0
    show ?case by (simp add: row_sum_def)
  next
    case (Suc k)
    have "rol 1 (row_sum (\<lambda>x. k - x) (\<lambda>x. val AND m x) [0..<k] XOR (val AND m k))
        = row_sum (\<lambda>x. 1 + (k - x)) (\<lambda>x. val AND m x) [0..<k] XOR rol 1 (val AND m k)"
      by (simp only: rol_xor row_sum_rol zero_less_one one_less_numeral_iff semiring_norm)
    also have "row_sum (\<lambda>x. 1 + (k - x)) (\<lambda>x. val AND m x) [0..<k] = row_sum (\<lambda>x. Suc k - x) (\<lambda>x. val AND m x) [0..<k]"
      by (rule row_sum_cong) (simp add: Suc_diff_le)
    also have "rol 1 (val AND m k) = row_sum (\<lambda>x. Suc k - x) (\<lambda>x. val AND m x) [k]"
      by (simp add: row_sum_def)
    finally show ?case unfolding upt_Suc_append [OF le0] foldl_append row_sum_append Suc.IH [symmetric]
      by (simp only: foldl.simps)
  qed
  from this [of 64] show ?thesis by (simp only: h3_original_def r)
qed

text \<open>The unrolled loop: row \<open>x\<close> of \<open>8 * nb\<close> is rotated by \<open>x mod 8 + 8 * (nb - x div 8)\<close>.\<close>

definition h3_exp :: "nat \<Rightarrow> nat \<Rightarrow> nat" where
  "h3_exp nb x = x mod 8 + 8 * (nb - x div 8)"

lemma rot_mod: "rot k w = rot (k mod 64) w"
  by (simp add: rot_def)

lemma h3_block_sum:
  "h3_block m base val res = rol 8 res XOR row_sum (\<lambda>x. 8 + x) (\<lambda>x. val AND m (base + x)) [0..<8]"
proof -
  have u: "[0..<8] = [0, 1, 2, 3, 4, 5, 6, 7]" by (simp add: upt_rec)
  have "h3_block m base val res = rol 8 (res XOR row_sum (\<lambda>x. x) (\<lambda>x. val AND m (base + x)) [0..<8])"
    unfolding h3_block_def Let_def u row_sum_def by (simp add: ac_simps)
  also have "\<dots> = rol 8 res XOR rol 8 (row_sum (\<lambda>x. x) (\<lambda>x. val AND m (base + x)) [0..<8])"
    by (rule rol_xor) simp_all
  also have "rol 8 (row_sum (\<lambda>x. x) (\<lambda>x. val AND m (base + x)) [0..<8]) = row_sum (\<lambda>x. 8 + x) (\<lambda>x. val AND m (base + x)) [0..<8]"
    by (rule row_sum_rol) simp_all
  finally show ?thesis .
qed

lemma upt_block: "[8 * k..<8 * Suc k] = map ((+) (8 * k)) [0..<8]"
  by (rule nth_equalityI) simp_all

lemma h3_loop_sum:
  "foldl (\<lambda>res k. h3_block m (base + 8 * k) val res) 0 [0..<nb] = row_sum (h3_exp nb) (\<lambda>x. val AND m (base + x)) [0..<8 * nb]"
proof (induction nb)
  case 0
  show ?case by (simp add: row_sum_def)
next
  case (Suc nb)
  have "rol 8 (row_sum (h3_exp nb) (\<lambda>x. val AND m (base + x)) [0..<8 * nb])
      = row_sum (\<lambda>x. 8 + h3_exp nb x) (\<lambda>x. val AND m (base + x)) [0..<8 * nb]"
    by (rule row_sum_rol) simp_all
  also have "\<dots> = row_sum (h3_exp (Suc nb)) (\<lambda>x. val AND m (base + x)) [0..<8 * nb]"
  proof (rule row_sum_cong)
    fix x :: nat
    assume "x \<in> set [0..<8 * nb]"
    then have "x div 8 < nb" by (simp add: less_mult_imp_div_less mult.commute)
    then have "8 + h3_exp nb x = h3_exp (Suc nb) x" by (simp add: h3_exp_def)
    then show "rot (8 + h3_exp nb x) (val AND m (base + x)) = rot (h3_exp (Suc nb) x) (val AND m (base + x))" by (simp only:)
  qed
  finally have old: "rol 8 (row_sum (h3_exp nb) (\<lambda>x. val AND m (base + x)) [0..<8 * nb])
      = row_sum (h3_exp (Suc nb)) (\<lambda>x. val AND m (base + x)) [0..<8 * nb]" .
  have new: "row_sum (\<lambda>x. 8 + x) (\<lambda>x. val AND m (base + 8 * nb + x)) [0..<8]
      = row_sum (h3_exp (Suc nb)) (\<lambda>x. val AND m (base + x)) [8 * nb..<8 * Suc nb]"
    unfolding upt_block row_sum_map
    by (rule row_sum_cong) (simp add: h3_exp_def add.assoc add.left_commute add.commute)
  have "[0..<8 * Suc nb] = [0..<8 * nb] @ [8 * nb..<8 * Suc nb]"
    using upt_add_eq_append [of 0 "8 * nb" 8] by (simp add: add.commute)
  then have all: "row_sum (h3_exp (Suc nb)) (\<lambda>x. val AND m (base + x)) [0..<8 * Suc nb]
      = row_sum (h3_exp (Suc nb)) (\<lambda>x. val AND m (base + x)) [0..<8 * nb]
        XOR row_sum (h3_exp (Suc nb)) (\<lambda>x. val AND m (base + x)) [8 * nb..<8 * Suc nb]"
    by (simp only: row_sum_append)
  have "foldl (\<lambda>res k. h3_block m (base + 8 * k) val res) 0 [0..<Suc nb]
      = h3_block m (base + 8 * nb) val (row_sum (h3_exp nb) (\<lambda>x. val AND m (base + x)) [0..<8 * nb])"
    unfolding upt_Suc_append [OF le0] foldl_append Suc.IH foldl.simps ..
  then show ?case unfolding h3_block_sum old new all .
qed

text \<open>The row of the unrolled loop that plays the role of row \<open>y\<close> of the quoted loop.\<close>

definition h3_row :: "nat \<Rightarrow> nat" where
  "h3_row y = 8 * ((y + 7) div 8 mod 8) + (64 - y) mod 8"

definition h3_row_inv :: "nat \<Rightarrow> nat" where
  "h3_row_inv x = (64 + 8 * (x div 8) - x mod 8) mod 64"

lemma h3_row_checks:
  "list_all (\<lambda>y. h3_row y < 64 \<and> h3_row_inv (h3_row y) = y \<and> h3_exp 8 (h3_row y) mod 64 = (64 - y) mod 64) [0..<64]"
  by code_simp

lemma h3_row_facts:
  assumes "y < 64"
  shows "h3_row y < 64" and "h3_row_inv (h3_row y) = y" and "h3_exp 8 (h3_row y) mod 64 = (64 - y) mod 64"
proof -
  have "y \<in> set [0..<64]" unfolding set_upt using assms by simp
  then show "h3_row y < 64" and "h3_row_inv (h3_row y) = y" and "h3_exp 8 (h3_row y) mod 64 = (64 - y) mod 64"
    using h3_row_checks unfolding list_all_iff by blast+
qed

lemma h3_row_perm: "mset [0..<64] = mset (map h3_row [0..<64])"
proof -
  have inj: "inj_on h3_row {0..<64}"
    by (rule inj_on_inverseI [where g = h3_row_inv]) (simp add: h3_row_facts(2))
  have "h3_row ` {0..<64} = {0..<64}"
    by (rule endo_inj_surj) (auto simp: h3_row_facts(1) inj)
  then have "set [0..<64] = set (map h3_row [0..<64])" unfolding set_map set_upt by blast
  moreover have "distinct (map h3_row [0..<64])" unfolding distinct_map set_upt using inj distinct_upt by blast
  ultimately show ?thesis by (metis set_eq_iff_mset_eq_distinct distinct_upt)
qed

text \<open>
  C31. The hand-unrolled loop of \<open>H3HashFamily::hash\<close> computes, for every matrix and every line
  address, what the simple loop quoted in its comment computes on a fixed permutation of the
  matrix's rows (row \<open>y\<close> of the quoted loop is row \<open>8 * (ceil (y / 8) mod 8) + (- y mod 8)\<close>): an
  equally good member of the H3 family, but not the function the comment shows.
\<close>

theorem h3_unrolled_equiv:
  "h3_loop m base 64 val = h3_original (\<lambda>y. m (base + h3_row y)) val"
proof -
  have "h3_loop m base 64 val = row_sum (h3_exp 8) (\<lambda>x. val AND m (base + x)) [0..<64]"
    using h3_loop_sum [of m base val 8] unfolding h3_loop_def by simp
  also have "\<dots> = row_sum (h3_exp 8) (\<lambda>x. val AND m (base + x)) (map h3_row [0..<64])"
    by (rule row_sum_perm) (rule h3_row_perm)
  also have "\<dots> = row_sum (\<lambda>y. 64 - y) (\<lambda>y. val AND m (base + h3_row y)) [0..<64]"
    unfolding row_sum_map
  proof (rule row_sum_cong)
    fix y :: nat
    assume "y \<in> set [0..<64]"
    then have "rot (h3_exp 8 (h3_row y)) w = rot (64 - y) w" for w
      using h3_row_facts(3) [of y] rot_mod [of "h3_exp 8 (h3_row y)" w] rot_mod [of "64 - y" w] by simp
    then show "rot ((h3_exp 8 \<circ> h3_row) y) (((\<lambda>x. val AND m (base + x)) \<circ> h3_row) y)
        = rot (64 - y) (val AND m (base + h3_row y))" by simp
  qed
  finally show ?thesis by (simp only: h3_original_sum)
qed

lemma h3_row_not_id: "h3_row 1 = 15"
  by (simp add: h3_row_def)

subsection \<open>The memo of the SHA-1 family\<close>

text \<open>The hashes of a value, from a cleared block: what the memo stands for.\<close>

definition sha1_ref :: "(u64 list \<Rightarrow> u32 list) \<Rightarrow> nat \<Rightarrow> u64 \<Rightarrow> u32 list" where
  "sha1_ref sha1 passes val = sha1_block sha1 passes val (replicate (passes * 5) 0)"

lemma foldl_update_length: "length (foldl (\<lambda>h j. h[g j := d j]) hs js) = length hs"
  by (induction js arbitrary: hs) simp_all

lemma foldl_update_nth:
  "k < length hs \<Longrightarrow> foldl (\<lambda>h j. h[i + j := d j]) hs [0..<n] ! k = (if i \<le> k \<and> k < i + n then d (k - i) else hs ! k)"
proof (induction n)
  case (Suc n)
  have l: "length (foldl (\<lambda>h j. h[i + j := d j]) hs [0..<n]) = length hs" by (rule foldl_update_length)
  show ?case using Suc l by (cases "k = i + n") (auto simp: nth_list_update)
qed auto

lemma foldl_xor_cong:
  assumes "\<And>j. j \<in> set js \<Longrightarrow> hs ! (p + j) = hs' ! (p + j)"
  shows "foldl (\<lambda>b j. b[j := b ! j XOR ucast (hs ! (p + j))]) (buf :: u64 list) js
    = foldl (\<lambda>b j. b[j := b ! j XOR ucast (hs' ! (p + j) :: u32)]) buf js"
  using assms by (induction js arbitrary: buf) simp_all

definition agree :: "nat \<Rightarrow> nat \<Rightarrow> u64 list \<times> u32 list \<Rightarrow> u64 list \<times> u32 list \<Rightarrow> bool" where
  "agree L n p q \<longleftrightarrow> fst p = fst q \<and> length (snd p) = L \<and> length (snd q) = L \<and> (\<forall>k<n. snd p ! k = snd q ! k)"

lemma sha1_pass_agree:
  assumes a: "agree L (5 * i) p q" and L: "5 * Suc i \<le> L"
  shows "agree L (5 * Suc i) (sha1_pass sha1 i p) (sha1_pass sha1 i q)"
proof -
  obtain buf hs hs' where pq: "p = (buf, hs)" "q = (buf, hs')" "length hs = L" "length hs' = L"
    and same: "\<And>k. k < 5 * i \<Longrightarrow> hs ! k = hs' ! k"
    using a by (cases p, cases q) (auto simp: agree_def)
  define b where "b = (if 0 < i then foldl (\<lambda>b j. b[j := b ! j XOR ucast (hs ! ((i - 1) * 5 + j))]) buf [0..<5] else buf)"
  have b': "b = (if 0 < i then foldl (\<lambda>b j. b[j := b ! j XOR ucast (hs' ! ((i - 1) * 5 + j))]) buf [0..<5] else buf)"
    unfolding b_def by (rule if_cong [OF refl _ refl], rule foldl_xor_cong, rule same) simp
  have r: "sha1_pass sha1 i p = (b, foldl (\<lambda>h j. h[i * 5 + j := sha1 b ! j]) hs [0..<5])"
    "sha1_pass sha1 i q = (b, foldl (\<lambda>h j. h[i * 5 + j := sha1 b ! j]) hs' [0..<5])"
    unfolding sha1_pass_def pq prod.case Let_def b_def [symmetric] b' [symmetric] by (rule refl)+
  show ?thesis
    unfolding agree_def r fst_conv snd_conv foldl_update_length
  proof (intro conjI allI impI refl pq(3) pq(4))
    fix k
    assume k: "k < 5 * Suc i"
    then show "foldl (\<lambda>h j. h[i * 5 + j := sha1 b ! j]) hs [0..<5] ! k
        = foldl (\<lambda>h j. h[i * 5 + j := sha1 b ! j]) hs' [0..<5] ! k"
      using L pq(3,4) same [of k] by (simp add: foldl_update_nth)
  qed
qed

lemma sha1_block_agree:
  assumes "length hs = 5 * n" and "length hs' = 5 * n"
  shows "sha1_block sha1 n val hs = sha1_block sha1 n val hs'" and "length (sha1_block sha1 n val hs) = 5 * n"
proof -
  have "agree (5 * n) (5 * m) (fold (sha1_pass sha1) [0..<m] (replicate 16 val, hs)) (fold (sha1_pass sha1) [0..<m] (replicate 16 val, hs'))"
    if "m \<le> n" for m using that
  proof (induction m)
    case 0
    then show ?case using assms by (simp add: agree_def)
  next
    case (Suc m)
    then have "agree (5 * n) (5 * m) (fold (sha1_pass sha1) [0..<m] (replicate 16 val, hs)) (fold (sha1_pass sha1) [0..<m] (replicate 16 val, hs'))"
      by simp
    then have "agree (5 * n) (5 * Suc m) (sha1_pass sha1 m (fold (sha1_pass sha1) [0..<m] (replicate 16 val, hs)))
        (sha1_pass sha1 m (fold (sha1_pass sha1) [0..<m] (replicate 16 val, hs')))"
      by (rule sha1_pass_agree) (use Suc.prems in simp)
    then show ?case by (simp only: upt_Suc_append [OF le0] fold_append comp_apply fold_simps)
  qed
  then have "agree (5 * n) (5 * n) (fold (sha1_pass sha1) [0..<n] (replicate 16 val, hs)) (fold (sha1_pass sha1) [0..<n] (replicate 16 val, hs'))"
    by simp
  then show "sha1_block sha1 n val hs = sha1_block sha1 n val hs'" and "length (sha1_block sha1 n val hs) = 5 * n"
    by (auto simp: agree_def sha1_block_def intro: nth_equalityI)
qed

text \<open>The memo holds the hashes of \<open>memoizedVal\<close>, or is still the cleared block.\<close>

definition sha1_ok :: "(u64 list \<Rightarrow> u32 list) \<Rightarrow> nat \<Rightarrow> sha1_family \<Rightarrow> bool" where
  "sha1_ok sha1 nf h \<longleftrightarrow> sh_numFuncs h = nf \<and> sh_numPasses h = nf div 5 + 1
     \<and> length (memoizedHashes h) = 5 * (nf div 5 + 1)
     \<and> (memoizedHashes h = sha1_ref sha1 (nf div 5 + 1) (memoizedVal h) \<or> h = sha1_init nf)"

lemma sha1_init_ok: "sha1_ok sha1 nf (sha1_init nf)"
  by (simp add: sha1_ok_def sha1_init_def Let_def)

lemma sha1_hash_hit:
  "sha1_ok sha1 nf h \<Longrightarrow> hid < nf \<Longrightarrow> val = memoizedVal h \<Longrightarrow> sha1_hash sha1 hid val h = Inr (ucast (memoizedHashes h ! hid), h)"
  by (simp add: sha1_hash_def sha1_ok_def)

lemma sha1_hash_miss:
  assumes ok: "sha1_ok sha1 nf h" and "hid < nf" "val \<noteq> memoizedVal h"
  shows "sha1_hash sha1 hid val h = Inr (ucast (sha1_ref sha1 (nf div 5 + 1) val ! hid),
      h\<lparr>memoizedHashes := sha1_ref sha1 (nf div 5 + 1) val, memoizedVal := val\<rparr>)" (is ?eq)
    and "sha1_ok sha1 nf (h\<lparr>memoizedHashes := sha1_ref sha1 (nf div 5 + 1) val, memoizedVal := val\<rparr>)" (is ?ok)
proof -
  have l: "length (memoizedHashes h) = 5 * (nf div 5 + 1)" using ok by (simp add: sha1_ok_def)
  have "sha1_block sha1 (nf div 5 + 1) val (memoizedHashes h) = sha1_ref sha1 (nf div 5 + 1) val"
    unfolding sha1_ref_def by (rule sha1_block_agree(1)) (use l in simp_all)
  then show ?eq using assms by (simp add: sha1_hash_def sha1_ok_def Let_def)
  have "length (sha1_ref sha1 (nf div 5 + 1) val) = 5 * (nf div 5 + 1)"
    unfolding sha1_ref_def by (rule sha1_block_agree(2) [of _ _ "replicate (5 * (nf div 5 + 1)) 0"]) simp_all
  then show ?ok using ok by (simp add: sha1_ok_def)
qed

lemma sha1_hash_ok: "sha1_ok sha1 nf h \<Longrightarrow> sha1_hash sha1 hid val h = Inr (x, h') \<Longrightarrow> sha1_ok sha1 nf h'"
proof -
  assume ok: "sha1_ok sha1 nf h" and r: "sha1_hash sha1 hid val h = Inr (x, h')"
  then have "hid < nf" by (auto simp: sha1_hash_def sha1_ok_def assert_then_def split: if_splits)
  then show ?thesis using ok r sha1_hash_hit [OF ok] sha1_hash_miss [OF ok]
    by (cases "val = memoizedVal h") auto
qed

text \<open>A history of calls.\<close>

fun sha1_run :: "(u64 list \<Rightarrow> u32 list) \<Rightarrow> (nat \<times> u64) list \<Rightarrow> sha1_family \<Rightarrow> sha1_family res" where
  "sha1_run sha1 [] h = Inr h"
| "sha1_run sha1 ((hid, val) # qs) h = rbind (sha1_hash sha1 hid val h) (\<lambda>(_, h1). sha1_run sha1 qs h1)"

lemma sha1_run_ok: "sha1_ok sha1 nf h \<Longrightarrow> sha1_run sha1 qs h = Inr h' \<Longrightarrow> sha1_ok sha1 nf h'"
  proof (induction qs arbitrary: h)
  case (Cons q qs)
  obtain hid val where q: "q = (hid, val)" by (cases q)
  with Cons.prems(2) obtain x h1 where "sha1_hash sha1 hid val h = Inr (x, h1)" "sha1_run sha1 qs h1 = Inr h'"
    by (auto simp: res_simps)
  then show ?case using sha1_hash_ok [OF Cons.prems(1)] Cons.IH by blast
qed simp

text \<open>
  C32. The memo of the SHA-1 family is transparent: after any history of calls, a call for a
  value other than zero returns the hash of that value computed from a cleared block, whichever
  SHA-1 function is linked in.  For zero it is not: a new family returns 0 for it (its memo is
  born with \<open>memoizedVal = 0\<close> and cleared hashes), and the SHA-1 hash once another value came
  between.
\<close>

theorem sha1_memo:
  assumes run: "sha1_run sha1 qs (sha1_init nf) = Inr h" and hid: "hid < nf" and val: "val \<noteq> 0"
  shows "(\<exists>h'. sha1_hash sha1 hid val h = Inr (ucast (sha1_ref sha1 (nf div 5 + 1) val ! hid), h'))
    \<and> sha1_hash sha1 hid 0 (sha1_init nf) = Inr (0, sha1_init nf)
    \<and> (\<exists>x h1 h2. sha1_hash sha1 hid val (sha1_init nf) = Inr (x, h1)
         \<and> sha1_hash sha1 hid 0 h1 = Inr (ucast (sha1_ref sha1 (nf div 5 + 1) 0 ! hid), h2))"
proof (intro conjI)
  have ok: "sha1_ok sha1 nf h" by (rule sha1_run_ok [OF sha1_init_ok run])
  have init: "memoizedVal (sha1_init nf) = 0" "memoizedHashes (sha1_init nf) = replicate ((nf div 5 + 1) * 5) 0"
    by (simp_all add: sha1_init_def Let_def)
  show "\<exists>h'. sha1_hash sha1 hid val h = Inr (ucast (sha1_ref sha1 (nf div 5 + 1) val ! hid), h')"
  proof (cases "val = memoizedVal h")
    case True
    moreover have "h \<noteq> sha1_init nf" using True val init(1) by auto
    then have "memoizedHashes h = sha1_ref sha1 (nf div 5 + 1) val" using ok True by (simp add: sha1_ok_def)
    ultimately show ?thesis using sha1_hash_hit [OF ok hid] by simp
  qed (use sha1_hash_miss(1) [OF ok hid] in blast)
  have "hid < (nf div 5 + 1) * 5" using hid by simp
  then show "sha1_hash sha1 hid 0 (sha1_init nf) = Inr (0, sha1_init nf)"
    using sha1_hash_hit [OF sha1_init_ok hid] init by simp
  show "\<exists>x h1 h2. sha1_hash sha1 hid val (sha1_init nf) = Inr (x, h1)
      \<and> sha1_hash sha1 hid 0 h1 = Inr (ucast (sha1_ref sha1 (nf div 5 + 1) 0 ! hid), h2)"
    using sha1_hash_miss [OF sha1_init_ok hid, of val] val init sha1_hash_miss(1) [OF _ hid, of _ _ 0] by fastforce
qed

text \<open>A concrete history, with a SHA-1 function that returns its first five words.\<close>

theorem sha1_memo_witness:
  "\<exists>h. sha1_run (\<lambda>b. map ucast (take 5 b)) [(1, 7)] (sha1_init 6) = Inr h
    \<and> (\<exists>h'. sha1_hash (\<lambda>b. map ucast (take 5 b)) 2 9 h = Inr (ucast (sha1_ref (\<lambda>b. map ucast (take 5 b)) 2 9 ! 2), h'))"
proof -
  obtain h where h: "sha1_run (\<lambda>b. map ucast (take 5 b)) [(1, 7)] (sha1_init 6) = Inr h"
    using sha1_hash_miss(1) [OF sha1_init_ok, of 1 6 7 "\<lambda>b. map ucast (take 5 b)"]
    by (auto simp: res_simps sha1_init_def Let_def)
  have c: "6 div 5 + 1 = (2 :: nat)" by simp
  have "(2 :: nat) < 6" "(9 :: u64) \<noteq> 0" by simp_all
  from sha1_memo [OF h this] show ?thesis unfolding c using h by blast
qed

end
