(* ===== verification/Hawkeye.thy ===== *)
theory Hawkeye
  imports ReplIface
begin

section \<open>Hawkeye\<close>

text \<open>
  hawkeye_repl.h: OPTgen (per set, a circular history of the last accesses and the occupancy of
  each time step), the predictor (a table of 3-bit counters indexed by a hash of the program
  counter) and the policy, whose re-reference values follow the prediction.

  \<open>TIME_QUANTUM\<close> is 1 and every set is sampled, as in the constructor; the members
  \<open>smallest_set\<close>, \<open>largest_set\<close>, \<open>min_address\<close>, \<open>max_address\<close> and \<open>numWays\<close> of the policy are never
  used and left out.
\<close>

subsection \<open>OPTgen\<close>

record optgen =
  og_num_lines :: u64
  set_count :: u64
  vector_size :: u32
  og_num_ways :: u32
  access_count :: "nat \<Rightarrow> u32"
  is_sampled :: "nat \<Rightarrow> bool"
  history :: "nat \<Rightarrow> u64"
  occupancy_vector :: "nat \<Rightarrow> u32"

text \<open>
  \<open>wrap_index\<close> takes and returns \<open>int32_t\<close>, but \<open>vector_size\<close> is unsigned: the remainder is the
  unsigned one, and the sign test that follows only sees bit 31 of it.
\<close>

definition wrap_index :: "u32 \<Rightarrow> u32 \<Rightarrow> u32" where
  "wrap_index vs idx = (let result = idx mod vs in if bit result 31 then result + vs else result)"

definition optgen_init :: "u64 \<Rightarrow> u32 \<Rightarrow> optgen" where
  "optgen_init num_lines num_ways =
     (let vs = num_ways * 8 div 1; sets = num_lines div ucast num_ways
      in \<lparr>og_num_lines = num_lines, set_count = sets, vector_size = vs, og_num_ways = num_ways,
          access_count = (\<lambda>_. 0), is_sampled = (\<lambda>i. i < unat sets), history = (\<lambda>_. 0), occupancy_vector = (\<lambda>_. 0)\<rparr>)"

text \<open>The three loops of \<open>cache_access\<close>; none has a bound in the code.\<close>

partial_function (option) og_back :: "u32 \<Rightarrow> (nat \<Rightarrow> u64) \<Rightarrow> nat \<Rightarrow> u64 \<Rightarrow> u32 \<Rightarrow> u32 \<Rightarrow> u32 option" where
  "og_back vs hist set_offset address hist_idx i =
     (if i = hist_idx then Some i
      else if hist (set_offset + unat i) = address then Some i
      else og_back vs hist set_offset address hist_idx (wrap_index vs (i - 1)))"

partial_function (option) og_check :: "u32 \<Rightarrow> (nat \<Rightarrow> u32) \<Rightarrow> nat \<Rightarrow> u32 \<Rightarrow> u32 \<Rightarrow> u32 \<Rightarrow> bool option" where
  "og_check vs occ set_offset lines_per_set hist_idx index =
     (if index = hist_idx then Some True
      else if lines_per_set \<le> occ (set_offset + unat index) then Some False
      else og_check vs occ set_offset lines_per_set hist_idx (wrap_index vs (index + 1)))"

partial_function (option) og_fill :: "u32 \<Rightarrow> nat \<Rightarrow> u32 \<Rightarrow> u32 \<Rightarrow> (nat \<Rightarrow> u32) \<Rightarrow> (nat \<Rightarrow> u32) option" where
  "og_fill vs set_offset hist_idx i occ =
     (if i = hist_idx then Some occ
      else og_fill vs set_offset hist_idx (wrap_index vs (i + 1))
        (occ(set_offset + unat i := occ (set_offset + unat i) + 1)))"

definition opt_access :: "u64 \<Rightarrow> nat \<Rightarrow> optgen \<Rightarrow> (bool \<times> optgen) option" where
  "opt_access address s g =
     (if \<not> is_sampled g s then Some (False, g)
      else let vs = vector_size g;
               count = access_count g s + 1;
               hist_idx = wrap_index vs (count div 1);
               off = s * unat vs;
               occ = (occupancy_vector g)(off + unat hist_idx := 0);
               hist = (history g)(off + unat hist_idx := address);
               g1 = g\<lparr>access_count := (access_count g)(s := count), occupancy_vector := occ, history := hist\<rparr>
           in case og_back vs hist off address hist_idx (wrap_index vs (hist_idx - 1)) of
                None \<Rightarrow> None
              | Some i \<Rightarrow>
                  if i = hist_idx then Some (False, g1)
                  else case og_check vs occ off (og_num_ways g) hist_idx i of
                         None \<Rightarrow> None
                       | Some False \<Rightarrow> Some (False, g1)
                       | Some True \<Rightarrow>
                           map_option (\<lambda>occ'. (True, g1\<lparr>occupancy_vector := occ'\<rparr>)) (og_fill vs off hist_idx i occ))"

subsection \<open>The predictor\<close>

definition map_size :: u64 where "map_size = 8192"

definition hash_instruction :: "u64 \<Rightarrow> u32" where
  "hash_instruction PC = ucast ((drop_bit 2 PC XOR drop_bit 13 PC) AND (map_size - 1))"

definition predict_instruction :: "u64 \<Rightarrow> (nat \<Rightarrow> u8) \<Rightarrow> bool" where
  "predict_instruction PC predictor_map = (4 \<le> predictor_map (unat (hash_instruction PC)))"

definition train_instruction :: "u64 \<Rightarrow> bool \<Rightarrow> (nat \<Rightarrow> u8) \<Rightarrow> (nat \<Rightarrow> u8)" where
  "train_instruction PC taken predictor_map =
     (let idx = unat (hash_instruction PC); ctr = predictor_map idx
      in predictor_map(idx := if taken then (if ctr < 7 then ctr + 1 else ctr) else (if 0 < ctr then ctr - 1 else ctr)))"

subsection \<open>The policy\<close>

definition cache_averse :: u8 where "cache_averse = 7"

record hawkeye =
  hk_numLines :: nat
  hk_array :: "nat \<Rightarrow> u8"
  Opt_Gen :: optgen
  predictor :: "nat \<Rightarrow> u8"
  setMask :: u64
  blockOffsetBits :: nat
  indexSetBits :: nat
  array_pcs :: "nat \<Rightarrow> u64"

definition hawkeye_init :: "u32 \<Rightarrow> u32 \<Rightarrow> u32 \<Rightarrow> hawkeye" where
  "hawkeye_init numLines numWays lineSize =
     (let set_cnt = numLines div numWays; bits = builtin_ctz set_cnt
      in \<lparr>hk_numLines = unat numLines, hk_array = (\<lambda>_. cache_averse), Opt_Gen = optgen_init (ucast numLines) numWays,
          predictor = (\<lambda>_. 0), setMask = ucast (push_bit bits 1 - 1 :: u32),
          blockOffsetBits = builtin_ctz lineSize, indexSetBits = bits, array_pcs = (\<lambda>_. 0)\<rparr>)"

definition get_set_index :: "hawkeye \<Rightarrow> address \<Rightarrow> nat" where
  "get_set_index p la = unat (drop_bit (blockOffsetBits p) la AND setMask p)"

text \<open>The training step that \<open>update\<close> and \<open>rank\<close> share.\<close>

definition hawk_train :: "mem_req \<Rightarrow> hawkeye \<Rightarrow> hawkeye option" where
  "hawk_train req p =
     (let set_index = get_set_index p (lineAddr req)
      in if is_sampled (Opt_Gen p) set_index
         then map_option (\<lambda>(opt_hit, g). p\<lparr>Opt_Gen := g, predictor := train_instruction (pc req) opt_hit (predictor p)\<rparr>)
                (opt_access (drop_bit (blockOffsetBits p) (lineAddr req)) set_index (Opt_Gen p))
         else Some p)"

definition hawk_update :: "nat \<Rightarrow> mem_req \<Rightarrow> hawkeye \<Rightarrow> hawkeye option" where
  "hawk_update lid req p =
     map_option (\<lambda>q. if predict_instruction (pc req) (predictor q)
          then q\<lparr>hk_array := (hk_array q)(lid := 0), array_pcs := (array_pcs q)(lid := pc req)\<rparr>
          else q\<lparr>hk_array := (hk_array q)(lid := cache_averse), array_pcs := (array_pcs q)(lid := pc req)\<rparr>)
       (hawk_train req p)"

definition hawk_replaced :: "nat \<Rightarrow> hawkeye \<Rightarrow> hawkeye" where
  "hawk_replaced lid p = p"

text \<open>Ageing, and the search for the last candidate of the largest value. \<open>array\<close> holds \<open>int8_t\<close> values.\<close>

definition hawk_age :: "nat list \<Rightarrow> (nat \<Rightarrow> u8) \<Rightarrow> (nat \<Rightarrow> u8)" where
  "hawk_age cands arr = foldl (\<lambda>a c. if sint (a c) < sint cache_averse - 1 then a(c := a c + 1) else a) arr cands"

definition hawk_largest :: "nat list \<Rightarrow> (nat \<Rightarrow> u8) \<Rightarrow> nat" where
  "hawk_largest cands arr =
     fst (foldl (\<lambda>(best_cand, largest). \<lambda>c. if uint largest \<le> sint (arr c) then (c, arr c) else (best_cand, largest)) (0, 0 :: u8) cands)"

definition hawk_rank :: "cc_view \<Rightarrow> mem_req \<Rightarrow> nat list \<Rightarrow> hawkeye \<Rightarrow> (nat \<times> hawkeye) option" where
  "hawk_rank cc req cands p =
     map_option (\<lambda>q.
       let set_index = get_set_index p (lineAddr req);
           replace_prediction = predict_instruction (pc req) (predictor q);
           arr = (if \<not> replace_prediction then hawk_age cands (hk_array q) else hk_array q)
       in case List.find (\<lambda>c. arr c = cache_averse) cands of
            Some c \<Rightarrow> (c, q\<lparr>hk_array := arr\<rparr>)
          | None \<Rightarrow>
              let best_cand = hawk_largest cands arr;
                  pm = (if is_sampled (Opt_Gen q) set_index
                        then train_instruction (array_pcs q best_cand) False (predictor q) else predictor q)
              in (best_cand, q\<lparr>hk_array := arr(best_cand := if replace_prediction then 0 else cache_averse),
                    predictor := pm, array_pcs := (array_pcs q)(best_cand := pc req)\<rparr>))
       (hawk_train req p)"

subsection \<open>Circular indices\<close>

text \<open>
  A vector size the index arithmetic is right for: it divides \<open>2 ^ 32\<close>, so that the wrap-around of
  \<open>uint32_t\<close> is a multiple of it.
\<close>

definition vs_ok :: "u32 \<Rightarrow> bool" where
  "vs_ok vs \<longleftrightarrow> 0 < unat vs \<and> unat vs \<le> 2 ^ 31 \<and> unat vs dvd 2 ^ 32"

lemma wrap_unat: "0 < unat vs \<Longrightarrow> unat vs \<le> 2 ^ 31 \<Longrightarrow> unat (wrap_index vs x) = unat x mod unat vs"
proof -
  assume vs: "0 < unat vs" "unat vs \<le> 2 ^ 31"
  have r: "unat (x mod vs) = unat x mod unat vs" by (rule unat_mod)
  also have "\<dots> < 2 ^ 31" using mod_less_divisor [OF vs(1), of "unat x"] vs(2) by linarith
  finally have "\<not> bit (unat (x mod vs)) 31" by (simp add: bit_iff_odd)
  then have "\<not> bit (x mod vs) 31" by (simp add: bit_unsigned_iff)
  then show ?thesis by (simp add: wrap_index_def Let_def r)
qed

lemma wrap_lt: "vs_ok vs \<Longrightarrow> unat (wrap_index vs x) < unat vs"
  by (simp add: vs_ok_def wrap_unat)

lemma wrap_succ:
  assumes "vs_ok vs" and "unat i < unat vs"
  shows "unat (wrap_index vs (i + 1)) = (if Suc (unat i) = unat vs then 0 else Suc (unat i))"
proof -
  have "Suc (unat i) < 2 ^ 32" using assms by (simp add: vs_ok_def)
  then have "unat (i + 1) = Suc (unat i)" by (simp add: unat_word_ariths)
  then show ?thesis using assms by (simp add: vs_ok_def wrap_unat)
qed

lemma wrap_pred:
  assumes ok: "vs_ok vs" and i: "unat i < unat vs"
  shows "unat (wrap_index vs (i - 1)) = (if unat i = 0 then unat vs - 1 else unat i - 1)"
proof (cases "unat i = 0")
  case True
  then have i0: "i = 0" by (simp add: unat_eq_zero)
  have m1: "unat (- 1 :: u32) = 2 ^ 32 - 1" by (simp add: unsigned_minus_1_eq_mask mask_eq_exp_minus_1)
  obtain k where k: "(2 :: nat) ^ 32 = unat vs * k" using ok by (auto simp: vs_ok_def dvd_def)
  have "k \<noteq> 0" using k by (cases k) simp_all
  then obtain j where "k = Suc j" by (cases k) simp_all
  with k have "(2 :: nat) ^ 32 - 1 = unat vs * j + (unat vs - 1)" using ok by (simp add: vs_ok_def)
  moreover have "(unat vs * j + (unat vs - 1)) mod unat vs = unat vs - 1"
    using ok by (simp only: vs_ok_def mod_mult_self4) simp
  ultimately have "((2 :: nat) ^ 32 - 1) mod unat vs = unat vs - 1" by (simp only:)
  with i0 m1 show ?thesis using ok True by (simp add: vs_ok_def wrap_unat)
next
  case False
  then have "unat (i - 1) = unat i - 1" by (subst unat_sub) (simp_all add: word_le_nat_alt)
  then show ?thesis using assms False by (simp add: vs_ok_def wrap_unat)
qed

text \<open>The index of the \<open>j\<close>-th access before the one at \<open>h\<close>.\<close>

definition prev_pos :: "nat \<Rightarrow> nat \<Rightarrow> nat \<Rightarrow> nat" where
  "prev_pos N h j = (if j < h then h - 1 - j else h + N - 1 - j)"

lemma prev_pos_lt: "h < N \<Longrightarrow> j < N \<Longrightarrow> prev_pos N h j < N"
  by (auto simp: prev_pos_def)

lemma prev_pos_h: "h < N \<Longrightarrow> j < N \<Longrightarrow> prev_pos N h j = h \<longleftrightarrow> j = N - 1"
  by (auto simp: prev_pos_def)

lemma prev_pos_inj: "h < N \<Longrightarrow> j < N \<Longrightarrow> k < N \<Longrightarrow> prev_pos N h j = prev_pos N h k \<longleftrightarrow> j = k"
  by (auto simp: prev_pos_def)

lemma wrap_pred_pos:
  assumes "vs_ok vs" and "unat h < unat vs" and "unat i = prev_pos (unat vs) (unat h) j" and "Suc j < unat vs"
  shows "unat (wrap_index vs (i - 1)) = prev_pos (unat vs) (unat h) (Suc j)"
  using wrap_pred [OF assms(1), of i] assms(2,3,4) by (auto simp: prev_pos_def split: if_splits)

lemma wrap_pred_first:
  "vs_ok vs \<Longrightarrow> unat h < unat vs \<Longrightarrow> unat (wrap_index vs (h - 1)) = prev_pos (unat vs) (unat h) 0"
  by (auto simp: wrap_pred prev_pos_def)

lemma wrap_succ_pos:
  assumes "vs_ok vs" and "unat h < unat vs" and "unat i = prev_pos (unat vs) (unat h) j" and "j < unat vs"
  shows "unat (wrap_index vs (i + 1)) = (case j of 0 \<Rightarrow> unat h | Suc k \<Rightarrow> prev_pos (unat vs) (unat h) k)"
  using wrap_succ [OF assms(1), of i] assms(2,3,4) by (cases j) (auto simp: prev_pos_def split: if_splits)

subsection \<open>The loops\<close>

lemma og_back_spec:
  assumes ok: "vs_ok vs" and h: "unat h < unat vs"
  shows "unat i = prev_pos (unat vs) (unat h) j \<Longrightarrow> j < unat vs \<Longrightarrow>
    \<exists>r k. og_back vs hist off a h i = Some r \<and> j \<le> k \<and> k < unat vs \<and> unat r = prev_pos (unat vs) (unat h) k
      \<and> (k = unat vs - 1 \<or> hist (off + prev_pos (unat vs) (unat h) k) = a)
      \<and> (\<forall>k'. j \<le> k' \<longrightarrow> k' < k \<longrightarrow> hist (off + prev_pos (unat vs) (unat h) k') \<noteq> a)"
proof (induction "unat vs - j" arbitrary: i j)
  case (Suc n)
  let ?p = "prev_pos (unat vs) (unat h)"
  have ih: "i = h \<longleftrightarrow> j = unat vs - 1"
    using prev_pos_h [OF h Suc.prems(2)] Suc.prems(1) by (auto simp: word_unat_eq_iff)
  show ?case
  proof (cases "i = h \<or> hist (off + unat i) = a")
    case True
    then have "og_back vs hist off a h i = Some i" by (subst og_back.simps) auto
    then show ?thesis using True Suc.prems ih by (intro exI [of _ i] exI [of _ j]) auto
  next
    case False
    then have step: "og_back vs hist off a h i = og_back vs hist off a h (wrap_index vs (i - 1))"
      by (subst og_back.simps) simp
    have j: "Suc j < unat vs" using False ih Suc.prems(2) by auto
    have u: "unat (wrap_index vs (i - 1)) = ?p (Suc j)" by (rule wrap_pred_pos [OF ok h Suc.prems(1) j])
    have "n = unat vs - Suc j" using Suc.hyps(2) by simp
    from Suc.hyps(1) [OF this u j] obtain r k where r: "og_back vs hist off a h (wrap_index vs (i - 1)) = Some r"
      "Suc j \<le> k" "k < unat vs" "unat r = ?p k" "k = unat vs - 1 \<or> hist (off + ?p k) = a"
      and no: "\<And>k'. Suc j \<le> k' \<Longrightarrow> k' < k \<Longrightarrow> hist (off + ?p k') \<noteq> a" by blast
    have "hist (off + ?p k') \<noteq> a" if "j \<le> k'" "k' < k" for k'
      using no [of k'] that False Suc.prems(1) by (cases "k' = j") auto
    then show ?thesis using r step by (intro exI [of _ r] exI [of _ k]) auto
  qed
qed simp

lemma og_check_spec:
  assumes ok: "vs_ok vs" and h: "unat h < unat vs"
  shows "unat i = prev_pos (unat vs) (unat h) j \<Longrightarrow> j < unat vs - 1 \<Longrightarrow>
    og_check vs occ off lim h i = Some (\<forall>k\<le>j. occ (off + prev_pos (unat vs) (unat h) k) < lim)"
proof (induction j arbitrary: i)
  case 0
  have "i \<noteq> h" using prev_pos_h [OF h, of 0] 0 by (auto simp: word_unat_eq_iff)
  moreover have "unat (wrap_index vs (i + 1)) = unat h" using wrap_succ_pos [OF ok h 0(1)] 0(2) by simp
  then have "og_check vs occ off lim h (wrap_index vs (i + 1)) = Some True"
    by (subst og_check.simps) (simp add: word_unat_eq_iff)
  ultimately show ?case using 0 by (subst og_check.simps) (auto simp: not_le)
next
  case (Suc j)
  have "i \<noteq> h" using prev_pos_h [OF h, of "Suc j"] Suc.prems by (auto simp: word_unat_eq_iff)
  moreover have "unat (wrap_index vs (i + 1)) = prev_pos (unat vs) (unat h) j"
    using wrap_succ_pos [OF ok h Suc.prems(1)] Suc.prems(2) by simp
  then have "og_check vs occ off lim h (wrap_index vs (i + 1)) = Some (\<forall>k\<le>j. occ (off + prev_pos (unat vs) (unat h) k) < lim)"
    by (rule Suc.IH) (use Suc.prems in simp)
  ultimately show ?case using Suc.prems by (subst og_check.simps) (auto simp: not_le le_Suc_eq)
qed

lemma og_fill_spec:
  assumes ok: "vs_ok vs" and h: "unat h < unat vs"
  shows "unat i = prev_pos (unat vs) (unat h) j \<Longrightarrow> j < unat vs - 1 \<Longrightarrow>
    \<exists>occ'. og_fill vs off h i occ = Some occ'
      \<and> (\<forall>k\<le>j. occ' (off + prev_pos (unat vs) (unat h) k) = occ (off + prev_pos (unat vs) (unat h) k) + 1)
      \<and> (\<forall>x. (\<forall>k\<le>j. x \<noteq> off + prev_pos (unat vs) (unat h) k) \<longrightarrow> occ' x = occ x)"
proof (induction j arbitrary: i occ)
  case 0
  have "i \<noteq> h" using prev_pos_h [OF h, of 0] 0 by (auto simp: word_unat_eq_iff)
  moreover have "unat (wrap_index vs (i + 1)) = unat h" using wrap_succ_pos [OF ok h 0(1)] 0(2) by simp
  then have "og_fill vs off h (wrap_index vs (i + 1)) f = Some f" for f
    by (subst og_fill.simps) (simp add: word_unat_eq_iff)
  ultimately have "og_fill vs off h i occ = Some (occ(off + unat i := occ (off + unat i) + 1))"
    by (subst og_fill.simps) simp
  then show ?case using 0 by auto
next
  case (Suc j)
  let ?p = "prev_pos (unat vs) (unat h)"
  have ih: "i \<noteq> h" using prev_pos_h [OF h, of "Suc j"] Suc.prems by (auto simp: word_unat_eq_iff)
  have u: "unat (wrap_index vs (i + 1)) = ?p j"
    using wrap_succ_pos [OF ok h Suc.prems(1)] Suc.prems(2) by simp
  define occ1 where "occ1 = occ(off + unat i := occ (off + unat i) + 1)"
  from Suc.IH [OF u, of occ1] Suc.prems(2)
  obtain occ' where r: "og_fill vs off h (wrap_index vs (i + 1)) occ1 = Some occ'"
    and inc: "\<And>k. k \<le> j \<Longrightarrow> occ' (off + ?p k) = occ1 (off + ?p k) + 1"
    and rest: "\<And>x. (\<forall>k\<le>j. x \<noteq> off + ?p k) \<Longrightarrow> occ' x = occ1 x" by auto
  have ne: "?p k \<noteq> unat i" if "k \<le> j" for k
    using that prev_pos_inj [OF h, of k "Suc j"] Suc.prems by auto
  have "occ' (off + ?p k) = occ (off + ?p k) + 1" if "k \<le> Suc j" for k
  proof (cases "k = Suc j")
    case True
    have "\<forall>k'\<le>j. off + unat i \<noteq> off + ?p k'" using ne by (metis add_left_cancel)
    from rest [OF this] show ?thesis using True Suc.prems(1) by (simp add: occ1_def)
  qed (use inc ne that in \<open>auto simp: occ1_def le_Suc_eq\<close>)
  moreover have "occ' x = occ x" if "\<forall>k\<le>Suc j. x \<noteq> off + ?p k" for x
    using rest [of x] that Suc.prems(1) by (auto simp: occ1_def le_Suc_eq)
  moreover have "og_fill vs off h i occ = Some occ'"
    using r ih by (subst og_fill.simps) (simp add: occ1_def)
  ultimately show ?case by blast
qed

subsection \<open>The sliding window OPTgen implements\<close>

text \<open>
  The contract: per set, the accesses since the vector wrapped around, most recent first, each
  with the number of liveness intervals that cover it. An access looks for the last access to
  its address; it is a hit if no time step since then is full, and then covers those steps.
\<close>

type_synonym og_window = "(u64 \<times> nat) list"

definition og_spec :: "nat \<Rightarrow> u64 \<Rightarrow> og_window \<Rightarrow> bool \<times> og_window" where
  "og_spec ways a w =
     (let k = length (takeWhile (\<lambda>e. fst e \<noteq> a) w)
      in if k < length w \<and> (\<forall>e\<in>set (take (Suc k) w). snd e < ways)
         then (True, butlast ((a, 0) # map (\<lambda>(b, n). (b, Suc n)) (take (Suc k) w) @ drop (Suc k) w))
         else (False, butlast ((a, 0) # w)))"

definition og_entry :: "optgen \<Rightarrow> nat \<Rightarrow> u64 \<times> nat" where
  "og_entry g i = (history g i, unat (occupancy_vector g i))"

definition og_window :: "optgen \<Rightarrow> nat \<Rightarrow> og_window" where
  "og_window g s = (let N = unat (vector_size g); c = unat (access_count g s)
     in map (\<lambda>k. og_entry g (s * N + (c + N - k) mod N)) [0..<N - 1])"

definition og_ok :: "optgen \<Rightarrow> bool" where
  "og_ok g \<longleftrightarrow> vs_ok (vector_size g) \<and> 2 \<le> unat (vector_size g)"

lemma mod_sub_gen: "k < N \<Longrightarrow> (x + N - k) mod N = (if k \<le> x mod N then x mod N - k else x mod N + N - k)" for x N k :: nat
proof -
  assume k: "k < N"
  define q r where "q = x div N" and "r = x mod N"
  have x: "x = N * q + r" and r: "r < N" using k by (simp_all add: q_def r_def)
  have "x + N - k = N * q + (r + N - k)" using x k by simp
  then have "(x + N - k) mod N = (r + N - k) mod N" by (simp only: mod_mult_self4)
  also have "\<dots> = (if k \<le> r then r - k else r + N - k)"
  proof (cases "k \<le> r")
    case True
    then have "r + N - k = (r - k) + N" by simp
    then have "(r + N - k) mod N = (r - k) mod N" by (simp only: mod_add_self2)
    then show ?thesis using True r by simp
  qed (use k in auto)
  finally show ?thesis by (simp only: r_def)
qed

lemma count_mod: "N dvd 2 ^ 32 \<Longrightarrow> unat (c + 1 :: u32) mod N = Suc (unat c) mod N"
proof -
  assume N: "N dvd 2 ^ 32"
  have "unat (c + 1) = Suc (unat c) mod 2 ^ 32" using unat_word_ariths(1) [of c 1] by simp
  then show ?thesis using mod_mod_cancel [OF N, of "Suc (unat c)"] by (simp only:)
qed

lemma old_pos:
  assumes "h = Suc c mod N" and "k < N - 1"
  shows "(c + N - k) mod N = prev_pos N h k"
proof -
  have N: "0 < N" "k < N" using assms(2) by auto
  have r: "c mod N < N" using N(1) by (rule mod_less_divisor)
  have h: "h = (if Suc (c mod N) = N then 0 else Suc (c mod N))" by (simp only: assms(1) mod_Suc)
  show ?thesis
    unfolding mod_sub_gen [OF N(2)] prev_pos_def h using r assms(2) by auto
qed

lemma new_pos: "h = c mod N \<Longrightarrow> Suc j < N \<Longrightarrow> (c + N - Suc j) mod N = prev_pos N h j"
  by (auto simp: mod_sub_gen prev_pos_def)

lemma set_disjoint: "x < N \<Longrightarrow> y < N \<Longrightarrow> s * N + x = t * N + y \<Longrightarrow> s = (t :: nat)"
  by (metis add.commute div_less div_mult_self3 less_nat_zero_code mult.commute add_0_right)

lemma takeWhile_length_eq:
  assumes "K \<le> length w" and "\<And>j. j < K \<Longrightarrow> P (w ! j)" and "K = length w \<or> \<not> P (w ! K)"
  shows "length (takeWhile P w) = K"
proof -
  have "takeWhile P w = take K w"
    by (rule takeWhile_eq_take_P_nth) (use assms in auto)
  then show ?thesis using assms(1) by simp
qed

text \<open>The window before and after the access, at the position \<open>h\<close> the access is written to.\<close>

lemma window_old:
  assumes "N = unat (vector_size g)" and "h = Suc (unat (access_count g s)) mod N"
  shows "og_window g s = map (\<lambda>k. og_entry g (s * N + prev_pos N h k)) [0..<N - 1]"
  using old_pos [OF assms(2)] by (auto simp: og_window_def Let_def assms(1))

lemma window_new:
  assumes "N = unat (vector_size g)" and "h = unat (access_count g s) mod N" and "2 \<le> N"
  shows "og_window g s = butlast (og_entry g (s * N + h) # map (\<lambda>k. og_entry g (s * N + prev_pos N h k)) [0..<N - 1])"
proof -
  obtain n where n: "N = Suc (Suc n)" using assms(3) by (metis Suc_le_D numeral_2_eq_2 Suc_le_mono)
  have front: "[0..<N - 1] = 0 # map Suc [0..<n]" by (simp add: n map_Suc_upt upt_conv_Cons)
  have "og_window g s = map (\<lambda>k. og_entry g (s * N + (unat (access_count g s) + N - k) mod N)) [0..<N - 1]"
    by (simp add: og_window_def Let_def assms(1))
  moreover have "(unat (access_count g s) + N - 0) mod N = h" by (simp add: assms(2))
  moreover note front
  ultimately have "og_window g s = og_entry g (s * N + h) #
      map (\<lambda>j. og_entry g (s * N + (unat (access_count g s) + N - Suc j) mod N)) [0..<n]"
    by (simp only: list.map map_map comp_def)
  also have "\<dots> = og_entry g (s * N + h) # map (\<lambda>j. og_entry g (s * N + prev_pos N h j)) [0..<n]"
    using new_pos [OF assms(2)] n by auto
  also have "\<dots> = butlast (og_entry g (s * N + h) # map (\<lambda>k. og_entry g (s * N + prev_pos N h k)) [0..<N - 1])"
    by (simp add: n butlast_append)
  finally show ?thesis .
qed

lemma window_other:
  assumes "vector_size g' = vector_size g" and "access_count g' t = access_count g t"
    and "\<And>x. x < unat (vector_size g) \<Longrightarrow> og_entry g' (t * unat (vector_size g) + x) = og_entry g (t * unat (vector_size g) + x)"
  shows "og_window g' t = og_window g t"
  using assms by (auto simp: og_window_def Let_def)

lemma og_spec_hit:
  assumes "k < length w" and "fst (w ! k) = a" and "\<And>j. j < k \<Longrightarrow> fst (w ! j) \<noteq> a"
  shows "og_spec ways a w = (if \<forall>j\<le>k. snd (w ! j) < ways
    then (True, butlast ((a, 0) # map (\<lambda>j. if j \<le> k then (fst (w ! j), Suc (snd (w ! j))) else w ! j) [0..<length w]))
    else (False, butlast ((a, 0) # w)))"
proof -
  have l: "length (takeWhile (\<lambda>e. fst e \<noteq> a) w) = k"
    by (rule takeWhile_length_eq) (use assms in auto)
  have "(\<forall>e\<in>set (take (Suc k) w). snd e < ways) \<longleftrightarrow> (\<forall>j\<le>k. snd (w ! j) < ways)"
    using assms(1) by (auto simp: all_set_conv_all_nth less_Suc_eq_le)
  moreover have "map (\<lambda>(b, n). (b, Suc n)) (take (Suc k) w) @ drop (Suc k) w
      = map (\<lambda>j. if j \<le> k then (fst (w ! j), Suc (snd (w ! j))) else w ! j) [0..<length w]"
    using assms(1) by (intro nth_equalityI) (auto simp: nth_append case_prod_beta)
  ultimately show ?thesis using assms(1) by (simp add: og_spec_def Let_def l)
qed

lemma og_spec_miss:
  assumes "\<And>j. j < length w \<Longrightarrow> fst (w ! j) \<noteq> a"
  shows "og_spec ways a w = (False, butlast ((a, 0) # w))"
proof -
  have "length (takeWhile (\<lambda>e. fst e \<noteq> a) w) = length w"
    by (rule takeWhile_length_eq) (use assms in auto)
  then show ?thesis by (simp add: og_spec_def Let_def)
qed

text \<open>The state after the first writes of \<open>cache_access\<close>.\<close>

definition og_enter :: "u64 \<Rightarrow> nat \<Rightarrow> optgen \<Rightarrow> optgen" where
  "og_enter a s g = (let count = access_count g s + 1; h = wrap_index (vector_size g) count; off = s * unat (vector_size g)
     in g\<lparr>access_count := (access_count g)(s := count),
          occupancy_vector := (occupancy_vector g)(off + unat h := 0), history := (history g)(off + unat h := a)\<rparr>)"

lemma og_enter_fields [simp]:
  "vector_size (og_enter a s g) = vector_size g" "og_num_ways (og_enter a s g) = og_num_ways g"
  "is_sampled (og_enter a s g) = is_sampled g"
  "access_count (og_enter a s g) = (access_count g)(s := access_count g s + 1)"
  by (simp_all add: og_enter_def Let_def)

lemma opt_access_enter:
  assumes "is_sampled g s"
  shows "opt_access a s g = (let vs = vector_size g; h = wrap_index vs (access_count g s + 1); off = s * unat vs; g1 = og_enter a s g
     in case og_back vs (history g1) off a h (wrap_index vs (h - 1)) of
          None \<Rightarrow> None
        | Some i \<Rightarrow>
            if i = h then Some (False, g1)
            else case og_check vs (occupancy_vector g1) off (og_num_ways g) h i of
                   None \<Rightarrow> None
                 | Some False \<Rightarrow> Some (False, g1)
                 | Some True \<Rightarrow> map_option (\<lambda>occ'. (True, g1\<lparr>occupancy_vector := occ'\<rparr>)) (og_fill vs off h i (occupancy_vector g1)))"
  using assms by (simp add: opt_access_def og_enter_def Let_def del: One_nat_def split: option.split bool.split)

lemma og_entry_enter:
  assumes "N = unat (vector_size g)" and "h = unat (wrap_index (vector_size g) (access_count g s + 1))"
  shows "og_entry (og_enter a s g) x = (if x = s * N + h then (a, 0) else og_entry g x)"
  using assms by (auto simp: og_entry_def og_enter_def Let_def)

text \<open>
  Notation of the next lemmas: \<open>h\<close> is the position the access is written to, \<open>og_place g s h j\<close>
  the slot of the \<open>j\<close>-th access before it.
\<close>

definition og_head :: "optgen \<Rightarrow> nat \<Rightarrow> u32" where
  "og_head g s = wrap_index (vector_size g) (access_count g s + 1)"

definition og_place :: "optgen \<Rightarrow> nat \<Rightarrow> nat \<Rightarrow> nat" where
  "og_place g s j = s * unat (vector_size g) + prev_pos (unat (vector_size g)) (unat (og_head g s)) j"

definition og_slot :: "optgen \<Rightarrow> nat \<Rightarrow> nat" where
  "og_slot g s = s * unat (vector_size g) + unat (og_head g s)"

lemma og_head_lt: "og_ok g \<Longrightarrow> unat (og_head g s) < unat (vector_size g)"
  by (simp add: og_head_def og_ok_def wrap_lt)

lemma og_head_mod:
  assumes "og_ok g"
  shows "unat (og_head g s) = unat (access_count g s + 1) mod unat (vector_size g)"
    and "unat (og_head g s) = Suc (unat (access_count g s)) mod unat (vector_size g)"
  using assms count_mod by (simp_all add: og_head_def og_ok_def vs_ok_def wrap_unat)

lemma og_place_facts:
  assumes "og_ok g" and "j < unat (vector_size g) - 1"
  shows "og_place g s j \<noteq> og_slot g s"
    and "k < unat (vector_size g) - 1 \<Longrightarrow> og_place g s j = og_place g s k \<longleftrightarrow> j = k"
    and "\<exists>y < unat (vector_size g). og_place g s j = s * unat (vector_size g) + y"
proof -
  have h: "unat (og_head g s) < unat (vector_size g)" using assms(1) by (rule og_head_lt)
  have j: "j < unat (vector_size g)" using assms(2) by simp
  show "og_place g s j \<noteq> og_slot g s"
    using prev_pos_h [OF h j] assms(2) by (simp add: og_place_def og_slot_def)
  show "og_place g s j = og_place g s k \<longleftrightarrow> j = k" if "k < unat (vector_size g) - 1"
    using prev_pos_inj [OF h j, of k] that by (simp add: og_place_def)
  show "\<exists>y < unat (vector_size g). og_place g s j = s * unat (vector_size g) + y"
    using prev_pos_lt [OF h j] by (auto simp: og_place_def)
qed

lemma og_enter_entry:
  "og_entry (og_enter a s g) x = (if x = og_slot g s then (a, 0) else og_entry g x)"
  unfolding og_slot_def og_head_def by (rule og_entry_enter) simp_all

text \<open>The window of the set before, and of a state \<open>g'\<close> that only changes the set after the write.\<close>

lemma window_before:
  assumes "og_ok g"
  shows "og_window g s = map (\<lambda>j. og_entry (og_enter a s g) (og_place g s j)) [0..<unat (vector_size g) - 1]"
proof -
  have "og_window g s = map (\<lambda>j. og_entry g (og_place g s j)) [0..<unat (vector_size g) - 1]"
    unfolding og_place_def by (rule window_old) (simp_all add: og_head_mod(2) [OF assms])
  also have "\<dots> = map (\<lambda>j. og_entry (og_enter a s g) (og_place g s j)) [0..<unat (vector_size g) - 1]"
    by (rule map_cong [OF refl]) (simp add: og_enter_entry og_place_facts(1) [OF assms])
  finally show ?thesis .
qed

lemma window_after:
  assumes "og_ok g" and "vector_size g' = vector_size g" and "access_count g' = access_count (og_enter a s g)"
  shows "og_window g' s = butlast (og_entry g' (og_slot g s) # map (\<lambda>j. og_entry g' (og_place g s j)) [0..<unat (vector_size g) - 1])"
  unfolding og_slot_def og_place_def
  by (rule window_new) (use assms in \<open>simp_all add: og_head_mod(1) [OF assms(1)], simp add: og_ok_def\<close>)

lemma window_elsewhere:
  assumes ok: "og_ok g" and g': "vector_size g' = vector_size g" "access_count g' = access_count (og_enter a s g)" and "t \<noteq> s"
    and same: "\<And>x. (\<And>y. y < unat (vector_size g) \<Longrightarrow> x \<noteq> s * unat (vector_size g) + y) \<Longrightarrow> og_entry g' x = og_entry (og_enter a s g) x"
  shows "og_window g' t = og_window g t"
proof (rule window_other)
  fix x
  assume x: "x < unat (vector_size g)"
  then have ne: "t * unat (vector_size g) + x \<noteq> s * unat (vector_size g) + y" if "y < unat (vector_size g)" for y
    using set_disjoint [of x _ y t s] \<open>t \<noteq> s\<close> that by blast
  then have "t * unat (vector_size g) + x \<noteq> og_slot g s" using og_head_lt [OF ok] by (simp add: og_slot_def)
  then show "og_entry g' (t * unat (vector_size g) + x) = og_entry g (t * unat (vector_size g) + x)"
    using same [OF ne] by (simp add: og_enter_entry)
qed (use g' \<open>t \<noteq> s\<close> in simp_all)

text \<open>The three outcomes: no earlier access, a full time step, a hit.\<close>

lemma og_search:
  assumes ok: "og_ok g"
  obtains i k where "og_back (vector_size g) (history (og_enter a s g)) (s * unat (vector_size g)) a (og_head g s)
      (wrap_index (vector_size g) (og_head g s - 1)) = Some i"
    and "k < unat (vector_size g)" and "unat i = prev_pos (unat (vector_size g)) (unat (og_head g s)) k"
    and "i = og_head g s \<longleftrightarrow> k = unat (vector_size g) - 1"
    and "k = unat (vector_size g) - 1 \<or> fst (og_window g s ! k) = a"
    and "\<And>j. j < k \<Longrightarrow> fst (og_window g s ! j) \<noteq> a"
proof -
  let ?vs = "vector_size g" and ?h = "og_head g s"
  have vok: "vs_ok ?vs" and N: "0 < unat ?vs" using ok by (simp_all add: og_ok_def)
  have h: "unat ?h < unat ?vs" by (rule og_head_lt [OF ok])
  have "unat (wrap_index ?vs (?h - 1)) = prev_pos (unat ?vs) (unat ?h) 0" by (rule wrap_pred_first [OF vok h])
  from og_back_spec [OF vok h this N, of "history (og_enter a s g)" "s * unat ?vs" a]
  obtain i k where i: "og_back ?vs (history (og_enter a s g)) (s * unat ?vs) a ?h (wrap_index ?vs (?h - 1)) = Some i"
    "k < unat ?vs" "unat i = prev_pos (unat ?vs) (unat ?h) k"
    and at: "k = unat ?vs - 1 \<or> history (og_enter a s g) (og_place g s k) = a"
    and no: "\<And>j. j < k \<Longrightarrow> history (og_enter a s g) (og_place g s j) \<noteq> a"
    unfolding og_place_def by auto
  have w: "fst (og_window g s ! j) = history (og_enter a s g) (og_place g s j)" if "j < unat ?vs - 1" for j
    using that by (simp add: window_before [OF ok, of s a] og_entry_def)
  show thesis
  proof (rule that [OF i])
    show "i = ?h \<longleftrightarrow> k = unat ?vs - 1"
      using prev_pos_h [OF h i(2)] i(3) by (simp add: word_unat_eq_iff)
    show "k = unat ?vs - 1 \<or> fst (og_window g s ! k) = a" using at w [of k] i(2) by (cases "k = unat ?vs - 1") auto
    show "fst (og_window g s ! j) \<noteq> a" if "j < k" for j using no [OF that] w [of j] that i(2) by auto
  qed
qed

lemma og_enter_window:
  assumes "og_ok g"
  shows "og_window (og_enter a s g) s = butlast ((a, 0) # og_window g s)"
    and "t \<noteq> s \<Longrightarrow> og_window (og_enter a s g) t = og_window g t"
  using window_after [OF assms, of "og_enter a s g" a s] window_elsewhere [OF assms, of "og_enter a s g" a s t]
  by (simp_all add: window_before [OF assms, of s a] og_enter_entry)

lemma og_fill_window:
  assumes ok: "og_ok g" and k: "k < unat (vector_size g) - 1"
    and i: "unat i = prev_pos (unat (vector_size g)) (unat (og_head g s)) k"
    and room: "\<forall>j\<le>k. snd (og_window g s ! j) < unat (og_num_ways g)"
  obtains occ' where "og_fill (vector_size g) (s * unat (vector_size g)) (og_head g s) i (occupancy_vector (og_enter a s g)) = Some occ'"
    and "og_window ((og_enter a s g)\<lparr>occupancy_vector := occ'\<rparr>) s = butlast ((a, 0) #
      map (\<lambda>j. if j \<le> k then (fst (og_window g s ! j), Suc (snd (og_window g s ! j))) else og_window g s ! j) [0..<length (og_window g s)])"
    and "\<And>t. t \<noteq> s \<Longrightarrow> og_window ((og_enter a s g)\<lparr>occupancy_vector := occ'\<rparr>) t = og_window g t"
proof -
  let ?N = "unat (vector_size g)" and ?h = "og_head g s" and ?g1 = "og_enter a s g" and ?w = "og_window g s"
  have vok: "vs_ok (vector_size g)" using ok by (simp add: og_ok_def)
  from og_fill_spec [OF vok og_head_lt [OF ok] i k, of "s * ?N" "occupancy_vector ?g1"]
  obtain occ' where fill: "og_fill (vector_size g) (s * ?N) ?h i (occupancy_vector ?g1) = Some occ'"
    and inc: "\<And>j. j \<le> k \<Longrightarrow> occ' (og_place g s j) = occupancy_vector ?g1 (og_place g s j) + 1"
    and rest: "\<And>x. (\<forall>j\<le>k. x \<noteq> og_place g s j) \<Longrightarrow> occ' x = occupancy_vector ?g1 x"
    unfolding og_place_def by blast
  define g2 where "g2 = ?g1\<lparr>occupancy_vector := occ'\<rparr>"
  have f2: "vector_size g2 = vector_size g" "access_count g2 = access_count ?g1" by (simp_all add: g2_def)
  have wj: "?w ! j = og_entry ?g1 (og_place g s j)" if "j < ?N - 1" for j
    using that by (simp add: window_before [OF ok, of s a])
  have lw: "length ?w = ?N - 1" by (simp add: window_before [OF ok, of s a])
  have slot: "og_entry g2 (og_slot g s) = (a, 0)"
  proof -
    have "occ' (og_slot g s) = occupancy_vector ?g1 (og_slot g s)"
      by (rule rest) (use og_place_facts(1) [OF ok] k in \<open>metis le_less_trans\<close>)
    then show ?thesis using og_enter_entry [of a s g "og_slot g s"] by (simp add: og_entry_def g2_def)
  qed
  have body: "og_entry g2 (og_place g s j) = (if j \<le> k then (fst (?w ! j), Suc (snd (?w ! j))) else ?w ! j)" if j: "j < ?N - 1" for j
  proof (cases "j \<le> k")
    case True
    have "occupancy_vector ?g1 (og_place g s j) < og_num_ways g"
      using room True wj [OF j] by (auto simp: og_entry_def word_less_nat_alt)
    then have "unat (occupancy_vector ?g1 (og_place g s j) + 1) = Suc (unat (occupancy_vector ?g1 (og_place g s j)))"
      by (intro unat_plus_one word_less_plus_1_nz)
    then show ?thesis using True inc [of j] wj [OF j] by (simp add: og_entry_def g2_def)
  next
    case False
    have "occ' (og_place g s j) = occupancy_vector ?g1 (og_place g s j)"
      by (rule rest) (use og_place_facts(2) [OF ok j, of _ s] False k in \<open>metis le_less_trans\<close>)
    then show ?thesis using False wj [OF j] by (simp add: og_entry_def g2_def)
  qed
  have m: "map (\<lambda>j. og_entry g2 (og_place g s j)) [0..<?N - 1]
      = map (\<lambda>j. if j \<le> k then (fst (?w ! j), Suc (snd (?w ! j))) else ?w ! j) [0..<length ?w]"
    unfolding lw by (rule map_cong [OF refl]) (simp add: body)
  have win: "og_window g2 s = butlast ((a, 0) # map (\<lambda>j. if j \<le> k then (fst (?w ! j), Suc (snd (?w ! j))) else ?w ! j) [0..<length ?w])"
    unfolding window_after [OF ok f2] slot m ..
  have other: "og_window g2 t = og_window g t" if "t \<noteq> s" for t
  proof (rule window_elsewhere [OF ok f2 that])
    fix x
    assume "\<And>y. y < ?N \<Longrightarrow> x \<noteq> s * ?N + y"
    then have "occ' x = occupancy_vector ?g1 x"
      by (intro rest) (use og_place_facts(3) [OF ok, of _ s] k in \<open>metis le_less_trans\<close>)
    then show "og_entry g2 x = og_entry ?g1 x" by (simp add: og_entry_def g2_def)
  qed
  show thesis by (rule that [OF fill]) (use win other in \<open>simp_all add: g2_def\<close>)
qed

lemma opt_access_refines:
  assumes ok: "og_ok g" and samp: "is_sampled g s"
  shows "\<exists>g'. opt_access a s g = Some (fst (og_spec (unat (og_num_ways g)) a (og_window g s)), g')
    \<and> og_window g' s = snd (og_spec (unat (og_num_ways g)) a (og_window g s))
    \<and> (\<forall>t. t \<noteq> s \<longrightarrow> og_window g' t = og_window g t)
    \<and> og_ok g' \<and> is_sampled g' = is_sampled g \<and> og_num_ways g' = og_num_ways g \<and> vector_size g' = vector_size g"
proof -
  let ?N = "unat (vector_size g)" and ?w = "og_window g s" and ?g1 = "og_enter a s g" and ?h = "og_head g s"
  have vok: "vs_ok (vector_size g)" using ok by (simp add: og_ok_def)
  have lw: "length ?w = ?N - 1" by (simp add: og_window_def Let_def)
  obtain i k where bk: "og_back (vector_size g) (history ?g1) (s * ?N) a ?h (wrap_index (vector_size g) (?h - 1)) = Some i"
    and k: "k < ?N" "unat i = prev_pos ?N (unat ?h) k" "i = ?h \<longleftrightarrow> k = ?N - 1"
    and at: "k = ?N - 1 \<or> fst (?w ! k) = a" and no: "\<And>j. j < k \<Longrightarrow> fst (?w ! j) \<noteq> a"
    using og_search [OF ok, of a s] by blast
  note access = opt_access_enter [OF samp, of a, unfolded Let_def og_head_def [symmetric] bk option.case]
  show ?thesis
  proof (cases "k = ?N - 1")
    case True
    then have "opt_access a s g = Some (False, ?g1)" using k(3) by (simp add: access)
    moreover have "og_spec (unat (og_num_ways g)) a ?w = (False, butlast ((a, 0) # ?w))"
      by (rule og_spec_miss) (use no True lw in auto)
    ultimately show ?thesis using og_enter_window [OF ok] ok by (simp add: og_ok_def)
  next
    case False
    then have kN: "k < ?N - 1" using k(1) by simp
    have spec: "og_spec (unat (og_num_ways g)) a ?w = (if \<forall>j\<le>k. snd (?w ! j) < unat (og_num_ways g)
      then (True, butlast ((a, 0) # map (\<lambda>j. if j \<le> k then (fst (?w ! j), Suc (snd (?w ! j))) else ?w ! j) [0..<length ?w]))
      else (False, butlast ((a, 0) # ?w)))"
      by (rule og_spec_hit) (use kN at no lw in auto)
    have "og_check (vector_size g) (occupancy_vector ?g1) (s * ?N) (og_num_ways g) ?h i
        = Some (\<forall>j\<le>k. occupancy_vector ?g1 (og_place g s j) < og_num_ways g)"
      unfolding og_place_def by (rule og_check_spec [OF vok og_head_lt [OF ok] k(2) kN])
    also have "(\<forall>j\<le>k. occupancy_vector ?g1 (og_place g s j) < og_num_ways g) \<longleftrightarrow> (\<forall>j\<le>k. snd (?w ! j) < unat (og_num_ways g))"
      using kN by (auto simp: window_before [OF ok, of s a] og_entry_def word_less_nat_alt)
    finally have chk: "og_check (vector_size g) (occupancy_vector ?g1) (s * ?N) (og_num_ways g) ?h i
        = Some (\<forall>j\<le>k. snd (?w ! j) < unat (og_num_ways g))" .
    show ?thesis
    proof (cases "\<forall>j\<le>k. snd (?w ! j) < unat (og_num_ways g)")
      case full: False
      then have "og_check (vector_size g) (occupancy_vector ?g1) (s * ?N) (og_num_ways g) ?h i = Some False" using chk by simp
      then have "opt_access a s g = Some (False, ?g1)" using False k(3) by (simp add: access)
      then show ?thesis using full spec og_enter_window [OF ok] ok by (auto simp: og_ok_def)
    next
      case room: True
      obtain occ' where o: "og_fill (vector_size g) (s * ?N) ?h i (occupancy_vector ?g1) = Some occ'"
        "og_window (?g1\<lparr>occupancy_vector := occ'\<rparr>) s = butlast ((a, 0) #
          map (\<lambda>j. if j \<le> k then (fst (?w ! j), Suc (snd (?w ! j))) else ?w ! j) [0..<length ?w])"
        "\<And>t. t \<noteq> s \<Longrightarrow> og_window (?g1\<lparr>occupancy_vector := occ'\<rparr>) t = og_window g t"
        using og_fill_window [OF ok kN k(2) room, of a] by blast
      have "og_check (vector_size g) (occupancy_vector ?g1) (s * ?N) (og_num_ways g) ?h i = Some True" using chk room by simp
      then have "opt_access a s g = Some (True, ?g1\<lparr>occupancy_vector := occ'\<rparr>)"
        using False k(3) o(1) by (simp add: access)
      then show ?thesis using room spec o(2,3) ok by (auto simp: og_ok_def)
    qed
  qed
qed

subsection \<open>Runs of OPTgen\<close>

fun og_run :: "(u64 \<times> nat) list \<Rightarrow> optgen \<Rightarrow> (bool list \<times> optgen) option" where
  "og_run [] g = Some ([], g)"
| "og_run ((a, s) # xs) g = (case opt_access a s g of
     None \<Rightarrow> None
   | Some (b, g1) \<Rightarrow> map_option (\<lambda>(bs, g2). (b # bs, g2)) (og_run xs g1))"

fun og_spec_run :: "nat \<Rightarrow> (u64 \<times> nat) list \<Rightarrow> (nat \<Rightarrow> og_window) \<Rightarrow> bool list \<times> (nat \<Rightarrow> og_window)" where
  "og_spec_run ways [] W = ([], W)"
| "og_spec_run ways ((a, s) # xs) W =
     (let (b, w) = og_spec ways a (W s); (bs, W') = og_spec_run ways xs (W(s := w)) in (b # bs, W'))"

lemma og_run_refines:
  assumes "og_ok g" and "\<forall>(a, s)\<in>set xs. is_sampled g s" and "W = og_window g"
  shows "\<exists>g'. og_run xs g = Some (fst (og_spec_run (unat (og_num_ways g)) xs W), g')
    \<and> og_window g' = snd (og_spec_run (unat (og_num_ways g)) xs W)"
  using assms
proof (induction xs arbitrary: g W)
  case (Cons x xs)
  obtain a s where x: "x = (a, s)" by (cases x)
  obtain b w where spec: "og_spec (unat (og_num_ways g)) a (W s) = (b, w)"
    by (cases "og_spec (unat (og_num_ways g)) a (W s)")
  have "is_sampled g s" using Cons.prems(2) x by simp
  from opt_access_refines [OF Cons.prems(1) this, of a] spec
  obtain g1 where g1: "opt_access a s g = Some (b, g1)" "og_window g1 s = w" "\<And>t. t \<noteq> s \<Longrightarrow> og_window g1 t = og_window g t"
    "og_ok g1" "is_sampled g1 = is_sampled g" "og_num_ways g1 = og_num_ways g"
    by (auto simp: Cons.prems(3))
  have "W(s := w) = og_window g1" using g1(2,3) by (auto simp: Cons.prems(3) fun_eq_iff)
  moreover have "\<forall>(a, s)\<in>set xs. is_sampled g1 s" using Cons.prems(2) g1(5) by auto
  ultimately obtain g' where "og_run xs g1 = Some (fst (og_spec_run (unat (og_num_ways g)) xs (W(s := w))), g')"
    "og_window g' = snd (og_spec_run (unat (og_num_ways g)) xs (W(s := w)))"
    using Cons.IH [OF g1(4), of "W(s := w)"] g1(6) by auto
  then show ?case using g1(1) spec by (simp add: x case_prod_beta Let_def)
qed simp

lemma og_spec_bounded:
  assumes "\<forall>e\<in>set w. snd e \<le> ways"
  shows "\<forall>e\<in>set (snd (og_spec ways a w)). snd e \<le> ways"
proof -
  define k where "k = length (takeWhile (\<lambda>e. fst e \<noteq> a) w)"
  show ?thesis
  proof (cases "k < length w \<and> (\<forall>e\<in>set (take (Suc k) w). snd e < ways)")
    case True
    then have "snd (og_spec ways a w) = butlast ((a, 0) # map (\<lambda>(b, n). (b, Suc n)) (take (Suc k) w) @ drop (Suc k) w)"
      by (simp add: og_spec_def k_def Let_def)
    moreover have "snd e \<le> ways" if "e \<in> set (map (\<lambda>(b, n). (b, Suc n)) (take (Suc k) w))" for e
      using True that by (auto simp: Suc_le_eq)
    moreover have "snd e \<le> ways" if "e \<in> set (drop (Suc k) w)" for e
      using assms that by (auto dest: in_set_dropD)
    ultimately show ?thesis
      by (metis (no_types, lifting) Un_iff in_set_butlastD le0 set_ConsD set_append snd_conv)
  next
    case False
    then have "snd (og_spec ways a w) = butlast ((a, 0) # w)"
      unfolding og_spec_def k_def [symmetric] Let_def by (simp only: if_False snd_conv)
    then show ?thesis using assms by (metis in_set_butlastD le0 set_ConsD snd_conv)
  qed
qed

lemma og_spec_run_bounded:
  "(\<And>s e. e \<in> set (W s) \<Longrightarrow> snd e \<le> ways) \<Longrightarrow> e \<in> set (snd (og_spec_run ways xs W) s) \<Longrightarrow> snd e \<le> ways"
proof (induction xs arbitrary: W)
  case (Cons x xs)
  obtain a t where x: "x = (a, t)" by (cases x)
  let ?W = "W(t := snd (og_spec ways a (W t)))"
  have "snd e \<le> ways" if "e \<in> set (?W s)" for s e
    using og_spec_bounded [of "W t" ways a] Cons.prems(1) that by (cases "s = t") auto
  moreover have "e \<in> set (snd (og_spec_run ways xs ?W) s)"
    using Cons.prems(2) by (simp add: x case_prod_beta Let_def)
  ultimately show ?case using Cons.IH by blast
qed simp

lemma optgen_init_fields:
  "vector_size (optgen_init n ways) = ways * 8" "og_num_ways (optgen_init n ways) = ways"
  "is_sampled (optgen_init n ways) s = (s < unat (n div ucast ways))"
  "og_entry (optgen_init n ways) i = (0, 0)" "access_count (optgen_init n ways) s = 0"
  by (simp_all add: optgen_init_def Let_def og_entry_def)

lemma optgen_init_window: "og_window (optgen_init n ways) s = replicate (unat (ways * 8) - 1) (0, 0)"
  by (simp add: og_window_def Let_def optgen_init_fields map_replicate_const)



subsection \<open>Associativities that are not a power of two\<close>

text \<open>
  With three ways the vector has 24 entries, which do not divide \<open>2 ^ 32\<close>: going back from entry 0
  leads to entry 15 instead of 23, so a search that starts at entry 15 and finds nothing
  goes round the entries 0 to 15 for ever.
\<close>

lemma wrap_24_pred: "unat i < 16 \<Longrightarrow> unat (wrap_index 24 (i - 1)) < 16"
proof (cases "i = 0")
  case True
  have "wrap_index 24 (- 1) = 15" by (simp add: wrap_index_def)
  with True show ?thesis by simp
next
  case False
  assume "unat i < 16"
  moreover have "unat (i - 1) = unat i - 1" using False by (simp add: unat_minus_one)
  ultimately show ?thesis by (simp add: wrap_unat)
qed

lemma og_back_cycle_Some:
  "og_back vs hist off a h i = Some r \<Longrightarrow> vs = 24 \<longrightarrow> h = 16 \<longrightarrow> (\<forall>j<16. hist (off + j) \<noteq> a) \<longrightarrow> \<not> unat i < 16"
  by (erule og_back.raw_induct [where P = "\<lambda>vs hist off a h i r. vs = 24 \<longrightarrow> h = 16 \<longrightarrow> (\<forall>j<16. hist (off + j) \<noteq> a) \<longrightarrow> \<not> unat i < 16", rotated])
    (auto split: if_splits dest: wrap_24_pred)

lemma og_back_cycle: "(\<And>j. j < 16 \<Longrightarrow> hist (off + j) \<noteq> a) \<Longrightarrow> unat i < 16 \<Longrightarrow> og_back 24 hist off a 16 i = None"
  using og_back_cycle_Some [of 24 hist off a 16 i] by (cases "og_back 24 hist off a 16 i") auto

lemma opt_access_frame:
  assumes "opt_access a s g = Some (b, g')" and "is_sampled g s"
  shows "vector_size g' = vector_size g" "og_num_ways g' = og_num_ways g" "is_sampled g' = is_sampled g"
    "access_count g' = (access_count g)(s := access_count g s + 1)"
    "history g' = (history g)(og_slot g s := a)"
  using assms(1)
  by (auto simp: opt_access_enter [OF assms(2)] Let_def og_slot_def og_head_def og_enter_def
      split: option.splits if_splits bool.splits)

lemma og_run_frame:
  assumes "og_run xs g = Some (bs, g')" and "\<forall>(a, t)\<in>set xs. is_sampled g t"
  shows "vector_size g' = vector_size g \<and> is_sampled g' = is_sampled g
    \<and> access_count g' s = access_count g s + of_nat (length (filter (\<lambda>x. snd x = s) xs))
    \<and> (history g' i = history g i \<or> history g' i \<in> fst ` set xs)"
  using assms
proof (induction xs arbitrary: g bs)
  case (Cons x xs)
  obtain a t where x: "x = (a, t)" by (cases x)
  obtain b g1 bs1 where g1: "opt_access a t g = Some (b, g1)" and r: "og_run xs g1 = Some (bs1, g')"
    using Cons.prems(1) by (auto simp: x split: option.splits)
  have samp: "is_sampled g t" using Cons.prems(2) x by simp
  note f = opt_access_frame [OF g1 samp]
  have "\<forall>(a, t)\<in>set xs. is_sampled g1 t" using Cons.prems(2) f(3) by auto
  from Cons.IH [OF r this] f show ?case by (auto simp: x)
qed simp

text \<open>
  C28. In a three-way cache the replacement policy hangs: when a set has been accessed fifteen
  times, its next access to a line that was not accessed before never returns from the search
  of \<open>cache_access\<close>.
\<close>

theorem optgen_three_ways_hang:
  assumes run: "og_run xs (optgen_init n 3) = Some (hits, g)"
    and sets: "\<forall>(b, t)\<in>set xs. t < unat (n div 3)" and s: "s < unat (n div 3)"
    and cnt: "length (filter (\<lambda>x. snd x = s) xs) = 15" and a: "a \<notin> fst ` set xs" "a \<noteq> 0"
  shows "opt_access a s g = None"
proof -
  have samp: "\<forall>(b, t)\<in>set xs. is_sampled (optgen_init n 3) t" using sets by (simp add: optgen_init_fields)
  note f = og_run_frame [OF run samp]
  have v: "vector_size g = 24" "is_sampled g s" using f s by (simp_all add: optgen_init_fields)
  have "access_count g s = 15" using f [of s] cnt by (simp add: optgen_init_fields)
  then have h: "og_head g s = 16" by (simp add: og_head_def v wrap_index_def)
  have hist: "history (og_enter a s g) (s * 24 + j) \<noteq> a" if "j < 16" for j
  proof -
    have "og_slot g s = s * 24 + 16" by (simp add: og_slot_def v h)
    then have "history (og_enter a s g) (s * 24 + j) = history g (s * 24 + j)"
      using that by (simp add: og_enter_def Let_def og_slot_def og_head_def v)
    moreover have "history (optgen_init n 3) i = 0" for i by (simp add: optgen_init_def Let_def)
    ultimately show ?thesis using f [of _ "s * 24 + j"] a by metis
  qed
  have "wrap_index 24 15 = 15" by (simp add: wrap_index_def)
  then have "og_back 24 (history (og_enter a s g)) (s * 24) a 16 (wrap_index 24 15) = None"
    by (intro og_back_cycle hist) simp_all
  then show ?thesis
    using opt_access_enter [OF v(2), of a] by (simp add: v h [unfolded og_head_def v(1)] Let_def)
qed

lemma opt_access_same:
  assumes samp: "is_sampled g s" and v: "vector_size g = 24" and z: "\<And>i. history g i = 0" and c: "unat (access_count g s) < 15"
  shows "\<exists>b g'. opt_access 0 s g = Some (b, g') \<and> (\<forall>i. history g' i = 0) \<and> vector_size g' = 24 \<and> is_sampled g' = is_sampled g
    \<and> unat (access_count g' s) = Suc (unat (access_count g s))"
proof -
  have c1: "unat (access_count g s + 1) = Suc (unat (access_count g s))"
    using c unat_word_ariths(1) [of "access_count g s" 1] by simp
  have h: "unat (og_head g s) = Suc (unat (access_count g s))" using c by (simp add: og_head_def v wrap_unat c1)
  define i where "i = wrap_index 24 (og_head g s - 1)"
  have "unat (og_head g s - 1) = unat (access_count g s)" using h by (simp add: unat_minus_one unat_eq_zero [symmetric])
  then have i: "unat i = unat (access_count g s)" using c by (simp add: i_def wrap_unat)
  have "unat (i + 1) = Suc (unat i)" using c i unat_word_ariths(1) [of i 1] by simp
  then have next_i: "wrap_index 24 (i + 1) = og_head g s"
    using h i c by (simp add: word_unat_eq_iff wrap_unat)
  have ih: "i \<noteq> og_head g s" using h i by (auto simp: word_unat_eq_iff)
  have hw: "wrap_index 24 (access_count g s + 1) = og_head g s" "wrap_index 24 (og_head g s - 1) = i"
    by (simp_all add: og_head_def v i_def)
  have z1: "history (og_enter 0 s g) j = 0" for j by (simp add: og_enter_def Let_def z)
  have bk: "og_back 24 (history (og_enter 0 s g)) (s * 24) 0 (og_head g s) i = Some i"
    by (subst og_back.simps) (simp add: z1)
  have ck: "\<exists>b. og_check 24 occ (s * 24) lim (og_head g s) i = Some b" for occ lim
    by (subst og_check.simps, subst og_check.simps) (simp add: next_i ih, blast)
  have fl: "\<exists>o'. og_fill 24 (s * 24) (og_head g s) i occ = Some o'" for occ
    by (subst og_fill.simps, subst og_fill.simps) (simp add: next_i ih)
  obtain b where b: "og_check 24 (occupancy_vector (og_enter 0 s g)) (s * 24) (og_num_ways g) (og_head g s) i = Some b"
    using ck by blast
  obtain o' where o': "og_fill 24 (s * 24) (og_head g s) i (occupancy_vector (og_enter 0 s g)) = Some o'" using fl by blast
  have "\<exists>b g'. opt_access 0 s g = Some (b, g')"
    using opt_access_enter [OF samp, of 0] b ih
    by (cases b) (auto simp: v hw bk o' Let_def)
  then obtain b g' where r: "opt_access 0 s g = Some (b, g')" by blast
  with opt_access_frame [OF r samp] show ?thesis by (auto simp: v z c1)
qed

lemma og_run_same:
  assumes "is_sampled g s" and "vector_size g = 24" and "\<And>i. history g i = 0" and "unat (access_count g s) + k \<le> 15"
  shows "\<exists>r. og_run (replicate k (0, s)) g = Some r"
  using assms
proof (induction k arbitrary: g)
  case (Suc k)
  then obtain b g' where g': "opt_access 0 s g = Some (b, g')" "\<forall>i. history g' i = 0" "vector_size g' = 24"
    "is_sampled g' = is_sampled g" "unat (access_count g' s) = Suc (unat (access_count g s))"
    using opt_access_same [of g s] by auto
  then obtain r where "og_run (replicate k (0, s)) g' = Some r" using Suc.IH [of g'] Suc.prems by auto
  then show ?case using g'(1) by (cases r) simp
qed simp

text \<open>Fifteen accesses to line 0, then line 7.\<close>

theorem optgen_three_ways_hang_witness:
  "\<exists>hits g. og_run (replicate 15 (0, 0)) (optgen_init 48 3) = Some (hits, g) \<and> opt_access 7 0 g = None"
proof -
  obtain hits g where r: "og_run (replicate 15 (0, 0)) (optgen_init 48 3) = Some (hits, g)"
    using og_run_same [of "optgen_init 48 3" 0 15] by (auto simp: optgen_init_def Let_def)
  have "opt_access 7 0 g = None" by (rule optgen_three_ways_hang [OF r]) simp_all
  with r show ?thesis by blast
qed

subsection \<open>The policy\<close>

definition hawk_ok :: "hawkeye \<Rightarrow> bool" where
  "hawk_ok p \<longleftrightarrow> og_ok (Opt_Gen p) \<and> (\<forall>l. hk_array p l \<le> 7) \<and> (\<forall>i. predictor p i \<le> 7)"

lemma hash_instruction_bound: "unat (hash_instruction PC) < 8192"
proof -
  let ?x = "drop_bit 2 PC XOR drop_bit 13 PC"
  have "unat (x AND 8191) < 2 ^ 13" for x :: u64
  proof -
    have "x AND 8191 = take_bit 13 x" by (simp add: take_bit_eq_mask mask_eq_exp_minus_1)
    then show ?thesis using take_bit_nat_less_exp [of 13 "unat x"] by (simp add: unsigned_take_bit_eq)
  qed
  then have u: "unat (?x AND 8191) < 2 ^ 13" .
  have "unat (hash_instruction PC) = take_bit 32 (unat (?x AND 8191))"
    by (simp add: hash_instruction_def map_size_def unsigned_ucast_eq)
  also have "\<dots> = unat (?x AND 8191)" by (rule take_bit_nat_eq_self) (use u in simp)
  finally show ?thesis using u by simp
qed

lemma u8_inc_le: "(w :: u8) < 7 \<Longrightarrow> w + 1 \<le> 7"
  by (rule word_add_1_le)

lemma u8_dec_le: "0 < (w :: u8) \<Longrightarrow> w \<le> 7 \<Longrightarrow> w - 1 \<le> 7"
  by (simp add: word_le_nat_alt unat_minus_one word_less_nat_alt unat_eq_zero [symmetric])

lemma train_le: "(\<And>i. m i \<le> 7) \<Longrightarrow> train_instruction PC b m i \<le> 7"
  by (auto simp: train_instruction_def Let_def u8_inc_le u8_dec_le)

lemma sint_small: "(w :: u8) \<le> 7 \<Longrightarrow> sint w = int (unat w)"
proof -
  assume "w \<le> 7"
  then have le: "unat w \<le> 7" by (simp add: word_le_nat_alt)
  have "sint w = signed_take_bit 7 (int (unat w))" by (simp add: sint_uint)
  moreover have "signed_take_bit 7 (int n) = int n" if "n \<le> 7" for n
    by (rule signed_take_bit_int_eq_self) (use that in simp_all)
  ultimately show ?thesis using le by (simp only:)
qed

lemma hawk_age_le: "(\<And>l. arr l \<le> 7) \<Longrightarrow> hawk_age cands arr l \<le> 7"
proof -
  assume arr: "\<And>l. arr l \<le> 7"
  have "(\<forall>l. (a :: nat \<Rightarrow> u8) l \<le> 7) \<Longrightarrow> \<forall>l. foldl (\<lambda>a c. if sint (a c) < sint cache_averse - 1 then a(c := a c + 1) else a) a cands l \<le> 7" for a
  proof (induction cands arbitrary: a)
    case (Cons c cs)
    have "sint cache_averse = 7" by (simp add: cache_averse_def)
    moreover have "sint (a c) = int (unat (a c))" using Cons.prems by (intro sint_small) blast
    moreover have "unat (7 :: u8) = 7" by simp
    ultimately have "sint (a c) < sint cache_averse - 1 \<Longrightarrow> a c < 7"
      unfolding word_less_nat_alt by linarith
    then have "\<forall>l. (if sint (a c) < sint cache_averse - 1 then a(c := a c + 1) else a) l \<le> 7"
      using Cons.prems u8_inc_le by auto
    from Cons.IH [OF this] show ?case by simp
  qed simp
  then show ?thesis unfolding hawk_age_def using arr by blast
qed

lemma hawk_largest_in:
  assumes "cands \<noteq> []" and "\<And>l. arr l \<le> (7 :: u8)"
  shows "hawk_largest cands arr \<in> set cands"
proof -
  define f where "f = (\<lambda>(best_cand, largest). \<lambda>c. if uint largest \<le> sint (arr c) then (c, arr c) else (best_cand :: nat, largest :: u8))"
  have fold_in: "fst (foldl f (b, v) cs) = b \<or> fst (foldl f (b, v) cs) \<in> set cs" for b v cs
  proof (induction cs arbitrary: b v)
    case (Cons c cs)
    show ?case using Cons.IH [of c "arr c"] Cons.IH [of b v] by (simp add: f_def) blast
  qed simp
  obtain c cs where c: "cands = c # cs" using assms(1) by (cases cands) auto
  have "f (0, 0) c = (c, arr c)" by (simp add: f_def sint_small [OF assms(2)])
  then have "hawk_largest cands arr = fst (foldl f (c, arr c) cs)"
    by (simp add: hawk_largest_def c f_def)
  then show ?thesis using fold_in [of c "arr c" cs] by (auto simp: c)
qed

lemma hawk_train_ok:
  assumes "hawk_ok p"
  shows "\<exists>q. hawk_train req p = Some q \<and> hawk_ok q \<and> hk_numLines q = hk_numLines p \<and> hk_array q = hk_array p"
proof (cases "is_sampled (Opt_Gen p) (get_set_index p (lineAddr req))")
  case True
  have ok: "og_ok (Opt_Gen p)" using assms by (simp add: hawk_ok_def)
  from opt_access_refines [OF ok True, of "drop_bit (blockOffsetBits p) (lineAddr req)"]
  show ?thesis using assms by (auto simp: hawk_train_def Let_def True hawk_ok_def train_le)
qed (use assms in \<open>simp add: hawk_train_def Let_def\<close>)

lemma hawk_update_ok:
  assumes "hawk_ok p"
  shows "\<exists>q. hawk_update lid req p = Some q \<and> hawk_ok q \<and> hk_numLines q = hk_numLines p"
proof -
  obtain q where q: "hawk_train req p = Some q" "hawk_ok q" "hk_numLines q = hk_numLines p"
    using hawk_train_ok [OF assms, of req] by blast
  then show ?thesis
    by (cases "predict_instruction (pc req) (predictor q)") (simp_all add: hawk_update_def hawk_ok_def cache_averse_def)
qed

lemma hawk_rank_ok:
  assumes "hawk_ok p" and ne: "cands \<noteq> []"
  shows "\<exists>c q. hawk_rank cc req cands p = Some (c, q) \<and> c \<in> set cands \<and> hawk_ok q \<and> hk_numLines q = hk_numLines p"
proof -
  obtain q where q: "hawk_train req p = Some q" "hawk_ok q" "hk_numLines q = hk_numLines p"
    using hawk_train_ok [OF assms(1), of req] by blast
  define arr where "arr = (if \<not> predict_instruction (pc req) (predictor q) then hawk_age cands (hk_array q) else hk_array q)"
  have arr: "arr l \<le> 7" for l using q(2) by (simp add: arr_def hawk_ok_def hawk_age_le)
  note train = train_le [of "predictor q" "array_pcs q (hawk_largest cands arr)" False]
  show ?thesis
  proof (cases "List.find (\<lambda>c. arr c = cache_averse) cands")
    case None
    then show ?thesis using q arr hawk_largest_in [OF ne arr] train
      by (auto simp: hawk_rank_def Let_def arr_def [symmetric] hawk_ok_def cache_averse_def)
  next
    case (Some c)
    moreover from this have "c \<in> set cands" by (auto simp: find_Some_iff)
    ultimately show ?thesis using q arr by (auto simp: hawk_rank_def Let_def arr_def [symmetric] hawk_ok_def)
  qed
qed

text \<open>
  The interface: on the states the policy keeps for a power-of-two associativity, the calls
  return, so the operations are total there.
\<close>

definition hawk_update_total :: "nat \<Rightarrow> mem_req \<Rightarrow> hawkeye \<Rightarrow> hawkeye" where
  "hawk_update_total lid req p = (case hawk_update lid req p of Some q \<Rightarrow> q | None \<Rightarrow> p)"

lemma hawk_update_total_ok:
  "hawk_ok p \<Longrightarrow> hawk_ok (hawk_update_total lid req p)"
  using hawk_update_ok [of p lid req] by (auto simp: hawk_update_total_def)

lemma hawk_train_lines: "hawk_train req p = Some q \<Longrightarrow> hk_numLines q = hk_numLines p"
  by (auto simp: hawk_train_def Let_def split: if_splits)

lemma hawk_update_lines: "hk_numLines (hawk_update_total lid req p) = hk_numLines p"
  by (auto simp: hawk_update_total_def hawk_update_def hawk_train_lines split: option.splits)

interpretation hawk: repl_policy hawk_update_total hawk_replaced hawk_rank hawk_ok "\<lambda>_. hawk_ok" hk_numLines "\<lambda>cands _. cands \<noteq> []"
proof unfold_locales
  fix s :: hawkeye and cands cc r
  assume "hawk_ok s" and "cands \<noteq> ([] :: nat list)"
  then show "\<exists>c s'. hawk_rank cc r cands s = Some (c, s') \<and> c \<in> set cands \<and> hawk_ok s' \<and> hk_numLines s' = hk_numLines s"
    using hawk_rank_ok by blast
qed (simp_all add: hawk_update_total_ok hawk_update_lines hawk_replaced_def)

subsection \<open>What the predictor learns\<close>

lemma opt_access_again:
  assumes ok: "og_ok g" and samp: "is_sampled g s" and ways: "0 < unat (og_num_ways g)" and r: "opt_access a s g = Some (b, g1)"
  shows "\<exists>g2. opt_access a s g1 = Some (True, g2)"
proof -
  let ?N = "unat (vector_size g)" and ?ways = "unat (og_num_ways g)"
  from opt_access_refines [OF ok samp, of a] r
  have g1: "og_window g1 s = snd (og_spec ?ways a (og_window g s))" "og_ok g1" "is_sampled g1 s" "og_num_ways g1 = og_num_ways g"
    using samp by auto
  have "length (og_window g s) \<noteq> 0" using ok by (simp add: og_window_def Let_def og_ok_def)
  then have "\<exists>w. snd (og_spec ?ways a (og_window g s)) = (a, 0) # w"
    by (auto simp: og_spec_def Let_def)
  then obtain w where w: "og_window g1 s = (a, 0) # w" using g1(1) by auto
  have "fst (og_spec ?ways a ((a, 0) # w))" using ways by (simp add: og_spec_def Let_def)
  then show ?thesis using opt_access_refines [OF g1(2,3), of a] g1(4) w by auto
qed

definition hawk_trained :: "mem_req \<Rightarrow> hawkeye \<Rightarrow> bool" where
  "hawk_trained req p \<longleftrightarrow> hawk_ok p \<and> 0 < unat (og_num_ways (Opt_Gen p)) \<and> is_sampled (Opt_Gen p) (get_set_index p (lineAddr req))"

lemma hawk_train_again:
  assumes p: "hawk_trained req p" and r: "hawk_train req p = Some q"
    and q': "Opt_Gen q' = Opt_Gen q" "setMask q' = setMask q" "blockOffsetBits q' = blockOffsetBits q"
    and same: "drop_bit (blockOffsetBits p) (lineAddr req') = drop_bit (blockOffsetBits p) (lineAddr req)"
  shows "\<exists>g. hawk_train req' q' = Some (q'\<lparr>Opt_Gen := g, predictor := train_instruction (pc req') True (predictor q')\<rparr>)"
proof -
  let ?s = "get_set_index p (lineAddr req)" and ?a = "drop_bit (blockOffsetBits p) (lineAddr req)"
  have samp: "is_sampled (Opt_Gen p) ?s" and ok: "og_ok (Opt_Gen p)" and ways: "0 < unat (og_num_ways (Opt_Gen p))"
    using p by (simp_all add: hawk_trained_def hawk_ok_def)
  obtain b g1 where c: "opt_access ?a ?s (Opt_Gen p) = Some (b, g1)"
    and q: "q = p\<lparr>Opt_Gen := g1, predictor := train_instruction (pc req) b (predictor p)\<rparr>"
    using r samp by (auto simp: hawk_train_def Let_def)
  obtain g2 where g2: "opt_access ?a ?s g1 = Some (True, g2)"
    using opt_access_again [OF ok samp ways c] by blast
  have "is_sampled g1 ?s" using opt_access_frame(3) [OF c samp] samp by simp
  moreover have "get_set_index q' (lineAddr req') = ?s" using q' q same by (simp add: get_set_index_def)
  ultimately show ?thesis using g2 q' q same by (intro exI [of _ g2]) (simp add: hawk_train_def Let_def)
qed

lemma hawk_update_again:
  assumes "hawk_trained req p" and "hawk_train req p = Some q"
    and "Opt_Gen q' = Opt_Gen q" "setMask q' = setMask q" "blockOffsetBits q' = blockOffsetBits q"
    and "drop_bit (blockOffsetBits p) (lineAddr req') = drop_bit (blockOffsetBits p) (lineAddr req)"
  shows "\<exists>q''. hawk_update lid req' q' = Some q'' \<and> predictor q'' = train_instruction (pc req') True (predictor q')"
proof -
  obtain g where "hawk_train req' q' = Some (q'\<lparr>Opt_Gen := g, predictor := train_instruction (pc req') True (predictor q')\<rparr>)"
    using hawk_train_again [OF assms] by blast
  then show ?thesis by (simp add: hawk_update_def)
qed

text \<open>
  Every miss trains the predictor towards cache-friendly: a miss calls OPTgen twice, first
  when the victim is ranked and again when the inserted line is updated, and the second call
  always reports a hit, because the first one has just entered the line into the history. The
  instruction of the miss is thus trained up whatever OPT would have done.
\<close>

theorem hawkeye_miss_trains_up:
  assumes p: "hawk_trained req p" and r: "hawk_rank cc req cands p = Some (c, q)"
  shows "\<exists>q'. hawk_update c req (hawk_replaced c q) = Some q' \<and> predictor q' = train_instruction (pc req) True (predictor q)"
proof -
  obtain t where t: "hawk_train req p = Some t" using r by (auto simp: hawk_rank_def)
  have "Opt_Gen q = Opt_Gen t" "setMask q = setMask t" "blockOffsetBits q = blockOffsetBits t"
    using r t by (auto simp: hawk_rank_def Let_def split: option.splits)
  from hawk_update_again [OF p t this refl] show ?thesis by (simp add: hawk_replaced_def)
qed

text \<open>A sixteen-line, four-way cache with 64-byte lines; the requests of the examples.\<close>

definition hawk_example_req :: "u64 \<Rightarrow> u64 \<Rightarrow> mem_req" where
  "hawk_example_req la ip = \<lparr>lineAddr = la, r_type = GETS, childId = 0, state_ptr = (0, 0), cycle = 0,
     childLock = None, initialState = I, srcId = 0, flags = 0, pc = ip\<rparr>"

definition hawk_example_cc :: cc_view where
  "hawk_example_cc = \<lparr>numSharers = (\<lambda>_. 0), isValid = (\<lambda>_. True)\<rparr>"

lemma hawk_example_fields:
  "Opt_Gen (hawkeye_init 16 4 64) = optgen_init 16 4" "blockOffsetBits (hawkeye_init 16 4 64) = 6"
  "setMask (hawkeye_init 16 4 64) = 3"
proof -
  have c: "builtin_ctz (64 :: u32) = 6" "builtin_ctz (4 :: u32) = 2" by code_simp+
  have d: "(16 :: u32) div 4 = 4" by simp
  show "Opt_Gen (hawkeye_init 16 4 64) = optgen_init 16 4" "blockOffsetBits (hawkeye_init 16 4 64) = 6"
    "setMask (hawkeye_init 16 4 64) = 3"
    by (simp_all add: hawkeye_init_def Let_def d c)
qed

lemma hawk_example_trained: "hawk_trained (hawk_example_req 63 ip) (hawkeye_init 16 4 64)"
proof -
  have "get_set_index (hawkeye_init 16 4 64) 63 = 0" by (simp add: get_set_index_def hawk_example_fields)
  moreover have "hawk_ok (hawkeye_init 16 4 64)"
    unfolding hawk_ok_def hawk_example_fields
    by (simp add: og_ok_def vs_ok_def optgen_init_fields) (simp add: hawkeye_init_def Let_def cache_averse_def)
  ultimately show ?thesis
    by (simp add: hawk_trained_def hawk_example_req_def hawk_example_fields optgen_init_fields)
qed

theorem hawkeye_miss_trains_up_witness:
  "\<exists>c q q'. hawk_rank hawk_example_cc (hawk_example_req 63 5) [0, 1, 2, 3] (hawkeye_init 16 4 64) = Some (c, q)
    \<and> hawk_update c (hawk_example_req 63 5) (hawk_replaced c q) = Some q'
    \<and> predictor q' = train_instruction 5 True (predictor q)"
proof -
  have "hawk_ok (hawkeye_init 16 4 64)" using hawk_example_trained [of 5] by (simp add: hawk_trained_def)
  then obtain c q where r: "hawk_rank hawk_example_cc (hawk_example_req 63 5) [0, 1, 2, 3] (hawkeye_init 16 4 64) = Some (c, q)"
    using hawk_rank_ok [of "hawkeye_init 16 4 64" "[0, 1, 2, 3]" hawk_example_cc "hawk_example_req 63 5"] by auto
  have "pc (hawk_example_req 63 5) = 5" by (simp add: hawk_example_req_def)
  then show ?thesis using hawkeye_miss_trains_up [OF hawk_example_trained r] r by auto
qed

text \<open>
  Hawkeye takes different lines for the same one: it shifts the line address by the bits of
  the block offset once more, so after an access to a line, the next access of the set to any
  line of the same aligned group of \<open>lineSize\<close> lines counts as a reuse and trains up its
  instruction, even if that line was never accessed.
\<close>

theorem hawkeye_conflates_lines:
  assumes p: "hawk_trained req p" and r: "hawk_update lid req p = Some q"
    and same: "drop_bit (blockOffsetBits p) (lineAddr req') = drop_bit (blockOffsetBits p) (lineAddr req)"
  shows "\<exists>q'. hawk_update lid' req' q = Some q' \<and> predictor q' = train_instruction (pc req') True (predictor q)"
proof -
  obtain t where t: "hawk_train req p = Some t" using r by (auto simp: hawk_update_def)
  have "Opt_Gen q = Opt_Gen t" "setMask q = setMask t" "blockOffsetBits q = blockOffsetBits t"
    using r t by (auto simp: hawk_update_def)
  from hawk_update_again [OF p t this same] show ?thesis .
qed

text \<open>Line 63, then line 0 for the first time.\<close>

theorem hawkeye_conflates_lines_witness:
  "\<exists>q q'. hawk_update 2 (hawk_example_req 63 5) (hawkeye_init 16 4 64) = Some q
    \<and> hawk_update 3 (hawk_example_req 0 9) q = Some q' \<and> predictor q' = train_instruction 9 True (predictor q)"
proof -
  have "hawk_ok (hawkeye_init 16 4 64)" using hawk_example_trained [of 5] by (simp add: hawk_trained_def)
  then obtain q where q: "hawk_update 2 (hawk_example_req 63 5) (hawkeye_init 16 4 64) = Some q"
    using hawk_update_ok [of "hawkeye_init 16 4 64" 2 "hawk_example_req 63 5"] by auto
  have "drop_bit (blockOffsetBits (hawkeye_init 16 4 64)) (lineAddr (hawk_example_req 0 9))
      = drop_bit (blockOffsetBits (hawkeye_init 16 4 64)) (lineAddr (hawk_example_req 63 5))"
    by (simp add: hawk_example_fields hawk_example_req_def)
  from hawkeye_conflates_lines [OF hawk_example_trained q this] q show ?thesis
    by (auto simp: hawk_example_req_def)
qed

text \<open>
  C29. On every state the policy keeps for a power-of-two associativity, a miss returns: the
  victim is one of the candidates, every re-reference value and every counter of the predictor
  stays within three bits, and the following \<open>replaced\<close> and \<open>update\<close> lead to such a state again.
\<close>

theorem hawkeye_miss_cycle:
  assumes "hawk_ok p" and "cands \<noteq> []"
  shows "\<exists>c q q'. hawk_rank cc req cands p = Some (c, q) \<and> c \<in> set cands
    \<and> hawk_update c req (hawk_replaced c q) = Some q' \<and> hawk_ok q'"
proof -
  obtain c q where r: "hawk_rank cc req cands p = Some (c, q)" "c \<in> set cands" "hawk_ok q"
    by (rule hawk.rank_some [OF assms, of cc req])
  have "hawk_ok (hawk_replaced c q)" using r(3) by (simp add: hawk_replaced_def)
  with r(1,2) show ?thesis using hawk_update_ok by blast
qed

theorem hawkeye_miss_cycle_witness:
  "\<exists>c q q'. hawk_rank hawk_example_cc (hawk_example_req 63 5) [3, 1] (hawkeye_init 16 4 64) = Some (c, q) \<and> c \<in> {3, 1}
    \<and> hawk_update c (hawk_example_req 63 5) (hawk_replaced c q) = Some q' \<and> hawk_ok q'"
proof -
  have "hawk_ok (hawkeye_init 16 4 64)" using hawk_example_trained [of 5] by (simp add: hawk_trained_def)
  from hawkeye_miss_cycle [OF this, of "[3, 1]" hawk_example_cc "hawk_example_req 63 5"] show ?thesis by auto
qed

end
