(* ===== verification/PartPolicies.thy ===== *)
theory PartPolicies
  imports Lookahead ReplIface
begin

section \<open>Partition mappers and way partitioning\<close>

text \<open>
  partition_mapper.h, partition_mapper.cpp and the first half of part_repl_policies.h: the
  mappers from requests to partitions and the way-partitioning policy. A policy calls its mapper
  and its partition monitor; both are arguments of its operations. Partition numbers, ways and
  line ids are natural numbers, sizes and timestamps keep their width; the counters of the
  statistics are 64-bit words.
\<close>

subsection \<open>Mappers\<close>

definition core_getPartition :: "mem_req \<Rightarrow> nat res" where
  "core_getPartition req = Inr (unat (srcId req))"

definition instrData_getPartition :: "mem_req \<Rightarrow> nat res" where
  "instrData_getPartition req = Inr (unat (flags req AND flag_mask IFETCH))"

definition instrDataCore_getPartition :: "u32 \<Rightarrow> mem_req \<Rightarrow> nat res" where
  "instrDataCore_getPartition numCores req =
     Inr (unat (srcId req + (if flags req AND flag_mask IFETCH \<noteq> 0 then numCores else 0)))"

definition process_getPartition :: "nat \<Rightarrow> nat \<Rightarrow> mem_req \<Rightarrow> nat res" where
  "process_getPartition procIdx numProcs req = assert_then (procIdx < numProcs) (Inr procIdx)"

definition instrDataProcess_getPartition :: "nat \<Rightarrow> nat \<Rightarrow> mem_req \<Rightarrow> nat res" where
  "instrDataProcess_getPartition procIdx numProcs req = assert_then (procIdx < numProcs)
     (Inr (procIdx + (if flags req AND flag_mask IFETCH \<noteq> 0 then numProcs else 0)))"

text \<open>\<open>groupIdx\<close> is the group of each process in \<open>zinfo->procArray\<close>.\<close>

definition processGroup_getPartition :: "(nat \<Rightarrow> nat) \<Rightarrow> nat \<Rightarrow> nat \<Rightarrow> mem_req \<Rightarrow> nat res" where
  "processGroup_getPartition groupIdx procIdx numProcGroups req =
     assert_then (groupIdx procIdx < numProcGroups) (Inr (groupIdx procIdx))"

definition core_getNumPartitions :: "u32 \<Rightarrow> nat" where "core_getNumPartitions numCores = unat numCores"
definition instrData_getNumPartitions :: nat where "instrData_getNumPartitions = 2"
definition instrDataCore_getNumPartitions :: "u32 \<Rightarrow> nat" where "instrDataCore_getNumPartitions numCores = unat (2 * numCores)"
definition process_getNumPartitions :: "nat \<Rightarrow> nat" where "process_getNumPartitions numProcs = numProcs"
definition instrDataProcess_getNumPartitions :: "nat \<Rightarrow> nat" where "instrDataProcess_getNumPartitions numProcs = 2 * numProcs"
definition processGroup_getNumPartitions :: "nat \<Rightarrow> nat" where "processGroup_getNumPartitions numProcGroups = numProcGroups"

subsection \<open>What a partitioned policy relies on\<close>

locale part_env =
  fixes parts :: nat
    and getPartition :: "mem_req \<Rightarrow> nat res"
    and mon :: "nat \<Rightarrow> address \<Rightarrow> 'm \<Rightarrow> 'm res"
    and mapped :: "mem_req \<Rightarrow> bool"
    and mon_ok :: "'m \<Rightarrow> bool"
  assumes in_range: "getPartition req = Inr p \<Longrightarrow> mapped req \<Longrightarrow> p < parts"
    and mapper_answers: "mapped req \<Longrightarrow> \<exists>p. getPartition req = Inr p"
    and mon_answers: "mon_ok m \<Longrightarrow> p < parts \<Longrightarrow> \<exists>m'. mon p a m = Inr m' \<and> mon_ok m'"

text \<open>The monitor of the code: utility monitors whose cached curves were reset.\<close>

definition umon_ok :: "hash_family \<Rightarrow> umon \<Rightarrow> bool" where
  "umon_ok hf u \<longleftrightarrow> (\<exists>u0 as. um_inv hf u0 as u \<and> setsBits u0 = shift_count (um_sets u0) \<and> 0 < um_sets u0)"

definition umons_ok :: "hash_family \<Rightarrow> nat \<Rightarrow> umon_monitor \<Rightarrow> bool" where
  "umons_ok hf n m \<longleftrightarrow> length (monitors m) = n \<and> \<not> missCacheValid m \<and> (\<forall>u\<in>set (monitors m). umon_ok hf u)"

lemma mon_access_ok:
  assumes "umons_ok hf n m" and "p < n"
  shows "\<exists>m'. mon_access hf p a m = Inr m' \<and> umons_ok hf n m'"
proof -
  have "umon_ok hf (monitors m ! p)" using assms by (auto simp: umons_ok_def)
  then obtain u0 as where "um_inv hf u0 as (monitors m ! p)" "setsBits u0 = shift_count (um_sets u0)" "0 < um_sets u0"
    by (auto simp: umon_ok_def)
  with um_inv_step [OF this, of a] obtain u where u: "umon_access hf a (monitors m ! p) = Inr u" "umon_ok hf u"
    by (auto simp: umon_ok_def)
  then show ?thesis using assms
    by (auto simp: mon_access_def umons_ok_def dest!: subsetD [OF set_update_subset_insert])
qed

interpretation core_env: part_env "core_getNumPartitions numCores" core_getPartition "mon_access hf"
  "\<lambda>req. srcId req < numCores" "umons_ok hf (core_getNumPartitions numCores)"
  by unfold_locales (auto simp: core_getPartition_def core_getNumPartitions_def word_less_nat_alt mon_access_ok)

interpretation process_env: part_env "process_getNumPartitions numProcs" "process_getPartition procIdx numProcs" "mon_access hf"
  "\<lambda>_. procIdx < numProcs" "umons_ok hf (process_getNumPartitions numProcs)"
  by unfold_locales (auto simp: process_getPartition_def process_getNumPartitions_def mon_access_ok res_simps)

interpretation instr_process_env: part_env "instrDataProcess_getNumPartitions numProcs"
  "instrDataProcess_getPartition procIdx numProcs" "mon_access hf"
  "\<lambda>_. procIdx < numProcs" "umons_ok hf (instrDataProcess_getNumPartitions numProcs)"
  by unfold_locales
    (auto simp: instrDataProcess_getPartition_def instrDataProcess_getNumPartitions_def mon_access_ok res_simps)

interpretation group_env: part_env "processGroup_getNumPartitions g" "processGroup_getPartition groupIdx procIdx g" "mon_access hf"
  "\<lambda>_. groupIdx procIdx < g" "umons_ok hf (processGroup_getNumPartitions g)"
  by unfold_locales (auto simp: processGroup_getPartition_def processGroup_getNumPartitions_def mon_access_ok res_simps)

text \<open>
  The mapper of the instruction-data split answers the flag itself: an instruction fetch
  is sent to partition 2 of a cache with two partitions, and data to partition 0, so that
  partition 1 is never used.
\<close>

lemma instr_data_out_of_range:
  "instrData_getPartition req = Inr (if req_is req IFETCH then 2 else 0) \<and> instrData_getNumPartitions = 2"
proof -
  have "fl AND flag_mask IFETCH = (if bit fl 1 then 2 else 0)" for fl :: u32
    by (rule bit_word_eqI) (auto simp: bit_simps)
  then show ?thesis
    by (auto simp: req_is_def instrData_getPartition_def instrData_getNumPartitions_def)
qed

subsection \<open>Way partitioning: state\<close>

text \<open>The statistics counters are those of \<open>PartInfo\<close>.\<close>

record part_info =
  pi_size :: u64
  targetSize :: u64
  profHits :: u64
  profMisses :: u64
  profSelfEvictions :: u64
  profExtEvictions :: u64

record way_line =
  wl_addr :: address
  wl_ts :: u64
  wl_p :: nat

record 'm way_part =
  wp_info :: "nat \<Rightarrow> part_info"
  wp_partitions :: nat
  wp_totalSize :: u32
  waySize :: u32
  wp_ways :: nat
  wp_array :: "nat \<Rightarrow> way_line"
  wayPartIndex :: "nat \<Rightarrow> nat"
  testMode :: bool
  wp_bestId :: "nat option"
  wp_candIdx :: nat
  incomingLinePart :: nat
  wp_incomingLineAddr :: address
  wp_timestamp :: u64
  wp_monitor :: 'm

definition part_info0 :: part_info where
  "part_info0 = \<lparr>pi_size = 0, targetSize = 0, profHits = 0, profMisses = 0, profSelfEvictions = 0, profExtEvictions = 0\<rparr>"

definition way_part_init :: "'m \<Rightarrow> nat \<Rightarrow> u32 \<Rightarrow> nat \<Rightarrow> bool \<Rightarrow> 'm way_part res" where
  "way_part_init mon0 partitions lines ways test =
     (let ws = lines div of_nat ways; start = part_info0\<lparr>pi_size := ucast lines\<rparr>
      in assert_then (ws * of_nat ways = lines)
        (Inr (foldl (\<lambda>q w. let p = unat (of_nat w * of_nat partitions div of_nat ways :: u32)
               in q\<lparr>wayPartIndex := (wayPartIndex q)(w := p),
                    wp_info := (wp_info q)(p := (wp_info q p)\<lparr>targetSize := targetSize (wp_info q p) + ucast ws\<rparr>)\<rparr>)
             \<lparr>wp_info = (\<lambda>_. part_info0)(0 := start), wp_partitions = partitions, wp_totalSize = lines, waySize = ws,
              wp_ways = ways, wp_array = (\<lambda>_. \<lparr>wl_addr = 0, wl_ts = 0, wl_p = 0\<rparr>), wayPartIndex = (\<lambda>_. 0), testMode = test,
              wp_bestId = None, wp_candIdx = 0, incomingLinePart = 0, wp_incomingLineAddr = 0, wp_timestamp = 1, wp_monitor = mon0\<rparr>
             [0..<ways])))"

subsection \<open>Way partitioning: operations\<close>

definition wp_count :: "nat \<Rightarrow> (part_info \<Rightarrow> part_info) \<Rightarrow> 'm way_part \<Rightarrow> 'm way_part" where
  "wp_count p f q = q\<lparr>wp_info := (wp_info q)(p := f (wp_info q p))\<rparr>"

definition way_part_update :: "(nat \<Rightarrow> address \<Rightarrow> 'm \<Rightarrow> 'm res) \<Rightarrow> nat \<Rightarrow> mem_req \<Rightarrow> 'm way_part \<Rightarrow> 'm way_part res" where
  "way_part_update mon lid req q =
     (let e = wp_array q lid;
          (q1, e1) = (if 0 < wl_ts e then (wp_count (wl_p e) (\<lambda>i. i\<lparr>profHits := profHits i + 1\<rparr>) q, e)
             else let oldPart = wl_p e; newPart = incomingLinePart q;
                      q' = (if oldPart \<noteq> newPart
                            then wp_count newPart (\<lambda>i. i\<lparr>pi_size := pi_size i + 1\<rparr>)
                                   (wp_count oldPart (\<lambda>i. i\<lparr>pi_size := pi_size i - 1, profExtEvictions := profExtEvictions i + 1\<rparr>) q)
                            else wp_count oldPart (\<lambda>i. i\<lparr>profSelfEvictions := profSelfEvictions i + 1\<rparr>) q)
                  in (wp_count newPart (\<lambda>i. i\<lparr>profMisses := profMisses i + 1\<rparr>) q', e\<lparr>wl_p := newPart\<rparr>));
          e2 = e1\<lparr>wl_ts := wp_timestamp q1\<rparr>
      in rbind (mon (wl_p e2) (wl_addr e2) (wp_monitor q1))
           (\<lambda>m. Inr (q1\<lparr>wp_array := (wp_array q1)(lid := e2), wp_timestamp := wp_timestamp q1 + 1, wp_monitor := m\<rparr>)))"

definition way_part_start :: "(mem_req \<Rightarrow> nat res) \<Rightarrow> mem_req \<Rightarrow> 'm way_part \<Rightarrow> 'm way_part res" where
  "way_part_start getPartition req q =
     assert_then (wp_candIdx q = 0) (assert_then (wp_bestId q = None)
       (rbind (getPartition req) (\<lambda>p. Inr (q\<lparr>incomingLinePart := p, wp_incomingLineAddr := lineAddr req\<rparr>))))"

definition way_part_record :: "nat \<Rightarrow> 'm way_part \<Rightarrow> 'm way_part res" where
  "way_part_record cid q =
     assert_then (wp_candIdx q < wp_ways q)
       (let c = wp_array q cid; way = wp_candIdx q; q1 = q\<lparr>wp_candIdx := wp_candIdx q + 1\<rparr>; ip = incomingLinePart q
        in if testMode q \<or> wayPartIndex q way = ip
           then case wp_bestId q of
                  None \<Rightarrow> Inr (q1\<lparr>wp_bestId := Some cid\<rparr>)
                | Some b \<Rightarrow>
                    let best = wp_array q b
                    in if testMode q \<or> (wl_p c = ip \<and> wl_p best = ip)
                       then Inr (if wl_ts c < wl_ts best then q1\<lparr>wp_bestId := Some cid\<rparr> else q1)
                       else if wl_p c = ip \<and> wl_p best \<noteq> ip then Inr q1
                       else if wl_p c \<noteq> ip \<and> wl_p best = ip then Inr (q1\<lparr>wp_bestId := Some cid\<rparr>)
                       else Inr (if wl_ts c < wl_ts best then q1\<lparr>wp_bestId := Some cid\<rparr> else q1)
           else Inr q1)"

definition way_part_best :: "'m way_part \<Rightarrow> nat res" where
  "way_part_best q = (case wp_bestId q of Some b \<Rightarrow> Inr b | None \<Rightarrow> Inl AssertFail)"

definition way_part_replaced :: "nat \<Rightarrow> 'm way_part \<Rightarrow> 'm way_part" where
  "way_part_replaced lid q = q\<lparr>wp_candIdx := 0, wp_bestId := None,
     wp_array := (wp_array q)(lid := (wp_array q lid)\<lparr>wl_ts := 0, wl_addr := wp_incomingLineAddr q\<rparr>)\<rparr>"

text \<open>\<open>rank\<close> of \<open>LegacyReplPolicy\<close>.\<close>

definition way_part_rank :: "(mem_req \<Rightarrow> nat res) \<Rightarrow> mem_req \<Rightarrow> nat list \<Rightarrow> 'm way_part \<Rightarrow> (nat \<times> 'm way_part) res" where
  "way_part_rank getPartition req cands q =
     rbind (way_part_start getPartition req q) (\<lambda>q1.
       rbind (rfold way_part_record cands q1) (\<lambda>q2. rbind (way_part_best q2) (\<lambda>b. Inr (b, q2))))"

text \<open>
  \<open>setPartitionSizes\<close>: the loop writes \<open>wayPartIndex[curWay++]\<close> without a bound, and only the
  assertion at the end compares \<open>curWay\<close> with the number of ways.
\<close>

definition way_part_assign :: "(nat \<Rightarrow> u32) \<Rightarrow> nat \<Rightarrow> nat \<times> 'm way_part \<Rightarrow> nat \<times> 'm way_part" where
  "way_part_assign waysPart p = (\<lambda>(curWay, q).
     (curWay + unat (waysPart p),
      q\<lparr>wp_info := (wp_info q)(p := (wp_info q p)\<lparr>targetSize := ucast (wp_totalSize q * waysPart p div of_nat (wp_ways q))\<rparr>),
        wayPartIndex := (\<lambda>w. if curWay \<le> w \<and> w < curWay + unat (waysPart p) then p else wayPartIndex q w)\<rparr>))"

definition way_part_setPartitionSizes :: "(nat \<Rightarrow> u32) \<Rightarrow> 'm way_part \<Rightarrow> 'm way_part res" where
  "way_part_setPartitionSizes waysPart q =
     (let (curWay, q1) = fold (way_part_assign waysPart) [0..<wp_partitions q] (0, q)
      in assert_then (curWay = wp_ways q) (Inr q1))"

subsection \<open>The sizes are exact\<close>

definition psize :: "nat \<Rightarrow> (nat \<Rightarrow> nat) \<Rightarrow> nat \<Rightarrow> nat" where
  "psize n f p = card {i. i < n \<and> f i = p}"

lemma psize_upd:
  assumes "i < n"
  shows "psize n (f(i := r)) p + (if f i = p then 1 else 0) = psize n f p + (if r = p then 1 else 0)"
proof -
  define A where "A = {j. j < n \<and> j \<noteq> i \<and> f j = p}"
  have fin: "finite A" and ni: "i \<notin> A" by (simp_all add: A_def)
  have "{j. j < n \<and> (f(i := r)) j = p} = (if r = p then insert i A else A)"
    using assms by (auto simp: A_def)
  then have new: "psize n (f(i := r)) p = card A + (if r = p then 1 else 0)"
    using fin ni by (simp add: psize_def)
  have "{j. j < n \<and> f j = p} = (if f i = p then insert i A else A)"
    using assms by (auto simp: A_def)
  then have "psize n f p = card A + (if f i = p then 1 else 0)"
    using fin ni by (simp add: psize_def)
  with new show ?thesis by simp
qed

lemma psize_upd64:
  assumes "i < n"
  shows "(of_nat (psize n (f(i := r)) p) :: u64)
    = of_nat (psize n f p) - (if f i = p then 1 else 0) + (if r = p then 1 else 0)"
proof -
  have "(of_nat (psize n (f(i := r)) p + (if f i = p then 1 else 0)) :: u64) = of_nat (psize n f p + (if r = p then 1 else 0))"
    by (simp only: psize_upd [OF assms])
  then show ?thesis by (auto simp: algebra_simps split: if_splits)
qed

lemma psize_same: "(\<And>i. i < n \<Longrightarrow> f i = g i) \<Longrightarrow> psize n f p = psize n g p"
  unfolding psize_def by (rule arg_cong [where f = card]) auto

lemma psize_le: "psize n f p \<le> n"
proof -
  have "psize n f p \<le> card {..<n}" unfolding psize_def by (rule card_mono) auto
  then show ?thesis by simp
qed

lemma psize_const: "psize n (\<lambda>_. r) p = (if r = p then n else 0)"
  by (simp add: psize_def)

definition sizes_exact :: "nat \<Rightarrow> 'm way_part \<Rightarrow> bool" where
  "sizes_exact n q \<longleftrightarrow> (\<forall>p. pi_size (wp_info q p) = of_nat (psize n (\<lambda>i. wl_p (wp_array q i)) p))"

lemma owner_upd: "(\<lambda>i. wl_p ((a(l := e)) i)) = (\<lambda>i. wl_p (a i))(l := wl_p e)"
  by auto

lemma way_part_update_sizes:
  assumes ok: "sizes_exact n q" and l: "lid < n" and r: "way_part_update mon lid req q = Inr q'"
  shows "sizes_exact n q'"
proof -
  let ?own = "\<lambda>i. wl_p (wp_array q i)"
  define r' where "r' = (if 0 < wl_ts (wp_array q lid) then wl_p (wp_array q lid) else incomingLinePart q)"
  have own: "(\<lambda>i. wl_p (wp_array q' i)) = ?own(lid := r')"
    using r by (auto simp: way_part_update_def wp_count_def Let_def r'_def res_simps split: if_splits)
  have "pi_size (wp_info q' p) = pi_size (wp_info q p) - (if ?own lid = p then 1 else 0) + (if r' = p then 1 else 0)" for p
    using r by (auto simp: way_part_update_def wp_count_def Let_def r'_def res_simps split: if_splits)
  then show ?thesis
    using ok psize_upd64 [OF l, of ?own r'] by (simp add: sizes_exact_def own)
qed

lemma way_part_record_frame:
  "way_part_record cid q = Inr q' \<Longrightarrow> wp_info q' = wp_info q \<and> wp_array q' = wp_array q"
  by (auto simp: way_part_record_def Let_def res_simps split: if_splits option.splits)

lemma way_part_rank_frame:
  "way_part_rank gp req cands q = Inr (c, q') \<Longrightarrow> wp_info q' = wp_info q \<and> wp_array q' = wp_array q"
proof -
  assume "way_part_rank gp req cands q = Inr (c, q')"
  then obtain q1 where q1: "way_part_start gp req q = Inr q1" "rfold way_part_record cands q1 = Inr q'"
    by (auto simp: way_part_rank_def res_simps)
  have f: "wp_info q1 = wp_info q \<and> wp_array q1 = wp_array q" using q1(1) by (auto simp: way_part_start_def res_simps)
  show ?thesis
  proof (rule rfold_invariant [OF q1(2), where P = "\<lambda>s. wp_info s = wp_info q \<and> wp_array s = wp_array q"])
    show "wp_info q1 = wp_info q \<and> wp_array q1 = wp_array q" by (rule f)
  next
    fix x s s'
    assume "wp_info s = wp_info q \<and> wp_array s = wp_array q" "way_part_record x s = Inr s'"
    then show "wp_info s' = wp_info q \<and> wp_array s' = wp_array q" using way_part_record_frame [of x s s'] by simp
  qed
qed

lemma way_part_assign_frame:
  "wp_array (snd (fold (way_part_assign ws) ps cq)) = wp_array (snd cq)
   \<and> pi_size (wp_info (snd (fold (way_part_assign ws) ps cq)) p) = pi_size (wp_info (snd cq) p)
   \<and> wp_partitions (snd (fold (way_part_assign ws) ps cq)) = wp_partitions (snd cq)
   \<and> wp_ways (snd (fold (way_part_assign ws) ps cq)) = wp_ways (snd cq)"
  by (induction ps arbitrary: cq) (auto simp: way_part_assign_def case_prod_beta)

inductive way_part_step :: "(nat \<Rightarrow> address \<Rightarrow> 'm \<Rightarrow> 'm res) \<Rightarrow> (mem_req \<Rightarrow> nat res) \<Rightarrow> nat \<Rightarrow> 'm way_part \<Rightarrow> 'm way_part \<Rightarrow> bool"
  for mon gp n where
  update: "lid < n \<Longrightarrow> way_part_update mon lid req q = Inr q' \<Longrightarrow> way_part_step mon gp n q q'"
| rank: "way_part_rank gp req cands q = Inr (c, q') \<Longrightarrow> way_part_step mon gp n q q'"
| replaced: "lid < n \<Longrightarrow> way_part_step mon gp n q (way_part_replaced lid q)"
| resize: "way_part_setPartitionSizes ws q = Inr q' \<Longrightarrow> way_part_step mon gp n q q'"

lemma way_part_step_sizes: "way_part_step mon gp n q q' \<Longrightarrow> sizes_exact n q \<Longrightarrow> sizes_exact n q'"
proof (induction rule: way_part_step.induct)
  case (update lid req q q')
  then show ?case using way_part_update_sizes by blast
next
  case (rank req cands q c q')
  then show ?case using way_part_rank_frame [OF rank(1)] by (simp add: sizes_exact_def)
next
  case (replaced lid q)
  have "(\<lambda>i. wl_p (wp_array (way_part_replaced lid q) i)) = (\<lambda>i. wl_p (wp_array q i))"
    by (auto simp: way_part_replaced_def)
  then show ?case using replaced by (simp add: sizes_exact_def) (simp add: way_part_replaced_def)
next
  case (resize ws q q')
  then have "q' = snd (fold (way_part_assign ws) [0..<wp_partitions q] (0, q))"
    by (auto simp: way_part_setPartitionSizes_def case_prod_beta Let_def res_simps)
  with resize.prems way_part_assign_frame [of ws "[0..<wp_partitions q]" "(0, q)"] show ?case
    by (simp add: sizes_exact_def)
qed

lemma way_part_init_sizes:
  assumes "way_part_init m parts lines ways test = Inr (q :: 'm way_part)"
  shows "sizes_exact (unat lines) q"
proof -
  define f where "f = (\<lambda>(q :: 'm way_part) w. let p = unat (of_nat w * of_nat parts div of_nat ways :: u32)
               in q\<lparr>wayPartIndex := (wayPartIndex q)(w := p),
                    wp_info := (wp_info q)(p := (wp_info q p)\<lparr>targetSize := targetSize (wp_info q p) + ucast (lines div of_nat ways)\<rparr>)\<rparr>)"
  have fr: "wp_array (foldl f s ws) = wp_array s \<and> (\<forall>p. pi_size (wp_info (foldl f s ws) p) = pi_size (wp_info s p))" for s ws
    by (induction ws arbitrary: s) (auto simp: f_def Let_def)
  obtain s where s: "q = foldl f s [0..<ways]" "wp_array s = (\<lambda>_. \<lparr>wl_addr = 0, wl_ts = 0, wl_p = 0\<rparr>)"
    "wp_info s = (\<lambda>_. part_info0)(0 := part_info0\<lparr>pi_size := ucast lines\<rparr>)"
    using assms by (auto simp: way_part_init_def Let_def res_simps f_def)
  show ?thesis
    using fr [of s "[0..<ways]"] by (auto simp: sizes_exact_def s psize_const part_info0_def)
qed

text \<open>
  C33. Way partitioning keeps exact sizes: after any sequence of hits, misses and
  repartitionings, the size of every partition is the number of lines it holds.
\<close>

theorem way_part_sizes_exact:
  assumes "way_part_init m parts lines ways test = Inr q0" and "(way_part_step mon gp (unat lines))\<^sup>*\<^sup>* q0 q"
  shows "unat (pi_size (wp_info q p)) = card {i. i < unat lines \<and> wl_p (wp_array q i) = p}"
proof -
  have "sizes_exact (unat lines) q"
    using assms(2) by induction (use way_part_init_sizes [OF assms(1)] way_part_step_sizes in blast)+
  then have "pi_size (wp_info q p) = of_nat (psize (unat lines) (\<lambda>i. wl_p (wp_array q i)) p)"
    by (simp add: sizes_exact_def)
  moreover have "psize (unat lines) (\<lambda>i. wl_p (wp_array q i)) p < 2 ^ 64"
    using psize_le [of "unat lines"] unat_less_exp [of lines] by (rule le_less_trans [OF _ less_trans]) simp_all
  ultimately show ?thesis by (simp add: unat_of_nat psize_def)
qed

text \<open>A sixteen-line, four-way cache shared by two partitions; a miss that fills line 5 for partition 1.\<close>

definition wp_example_req :: "u32 \<Rightarrow> mem_req" where
  "wp_example_req src = \<lparr>lineAddr = 77, r_type = GETS, childId = 0, state_ptr = (0, 0), cycle = 0,
     childLock = None, initialState = I, srcId = src, flags = 0, pc = 0\<rparr>"

lemma way_part_init_idle:
  assumes "way_part_init m parts lines ways test = Inr (q :: 'm way_part)"
  shows "wp_candIdx q = 0 \<and> wp_bestId q = None \<and> wp_ways q = ways \<and> testMode q = test \<and> wp_partitions q = parts"
proof -
  define f where "f = (\<lambda>(q :: 'm way_part) w. let p = unat (of_nat w * of_nat parts div of_nat ways :: u32)
               in q\<lparr>wayPartIndex := (wayPartIndex q)(w := p),
                    wp_info := (wp_info q)(p := (wp_info q p)\<lparr>targetSize := targetSize (wp_info q p) + ucast (lines div of_nat ways)\<rparr>)\<rparr>)"
  have fr: "wp_candIdx (foldl f s ws) = wp_candIdx s \<and> wp_bestId (foldl f s ws) = wp_bestId s \<and> wp_ways (foldl f s ws) = wp_ways s
      \<and> testMode (foldl f s ws) = testMode s \<and> wp_partitions (foldl f s ws) = wp_partitions s" for s ws
    by (induction ws arbitrary: s) (simp_all add: f_def Let_def)
  obtain s where s: "q = foldl f s [0..<ways]" "wp_candIdx s = 0" "wp_bestId s = None" "wp_ways s = ways" "testMode s = test" "wp_partitions s = parts"
    using assms by (auto simp: way_part_init_def Let_def res_simps f_def)
  show ?thesis unfolding s(1) using fr [of s "[0..<ways]"] s(2-) by simp
qed

text \<open>A sixteen-line, four-way cache of two partitions in test mode; a miss that fills line 5 for partition 1.\<close>

theorem way_part_sizes_exact_witness:
  "\<exists>q0 q1 q2. way_part_init () 2 16 4 True = Inr q0
    \<and> way_part_rank core_getPartition (wp_example_req 1) [5] q0 = Inr (5, q1)
    \<and> way_part_update (\<lambda>_ _. Inr) 5 (wp_example_req 1) (way_part_replaced 5 q1) = Inr q2
    \<and> unat (pi_size (wp_info q2 1)) = card {i. i < unat (16 :: u32) \<and> wl_p (wp_array q2 i) = 1}"
proof -
  obtain q0 where q0: "way_part_init () 2 16 4 True = Inr q0" by (simp add: way_part_init_def Let_def)
  note idle = way_part_init_idle [OF q0]
  obtain q1 where q1: "way_part_rank core_getPartition (wp_example_req 1) [5] q0 = Inr (5, q1)"
    using idle by (simp add: way_part_rank_def way_part_start_def core_getPartition_def way_part_record_def way_part_best_def Let_def)
  obtain q2 where q2: "way_part_update (\<lambda>_ _. Inr) 5 (wp_example_req 1) (way_part_replaced 5 q1) = Inr q2"
    by (simp add: way_part_update_def case_prod_beta Let_def)
  have l: "5 < unat (16 :: u32)" by simp
  let ?S = "way_part_step (\<lambda>_ _. Inr) core_getPartition (unat (16 :: u32))"
  have "?S q0 q1" by (rule way_part_step.rank [OF q1])
  then have "?S\<^sup>*\<^sup>* q0 q1" ..
  moreover have "?S q1 (way_part_replaced 5 q1)" by (rule way_part_step.replaced [OF l])
  moreover have "?S (way_part_replaced 5 q1) q2" by (rule way_part_step.update [OF l q2])
  ultimately have "?S\<^sup>*\<^sup>* q0 q2" by (rule rtranclp.rtrancl_into_rtrancl [OF rtranclp.rtrancl_into_rtrancl])
  from way_part_sizes_exact [OF q0 this, of 1] show ?thesis using q0 q1 q2 by blast
qed

subsection \<open>The victim\<close>

text \<open>
  \<open>a\<close> is at least as good a victim as \<open>b\<close> for a line of partition \<open>p\<close>: lines of other partitions
  go first, then older lines.
\<close>

definition victim_le :: "nat \<Rightarrow> way_line \<Rightarrow> way_line \<Rightarrow> bool" where
  "victim_le p a b \<longleftrightarrow> (wl_p a \<noteq> p \<and> wl_p b = p) \<or> ((wl_p a = p \<longleftrightarrow> wl_p b = p) \<and> wl_ts a \<le> wl_ts b)"

lemma victim_le_refl [simp]: "victim_le p a a"
  by (simp add: victim_le_def)

lemma victim_le_trans: "victim_le p a b \<Longrightarrow> victim_le p b c \<Longrightarrow> victim_le p a c"
  by (auto simp: victim_le_def)

lemma victim_le_total: "victim_le p a b \<or> victim_le p b a"
  by (auto simp: victim_le_def)

text \<open>The ways of a set that partition \<open>p\<close> may fill.\<close>

definition own_ways :: "'m way_part \<Rightarrow> nat \<Rightarrow> nat \<Rightarrow> nat set" where
  "own_ways q p k = {w. w < k \<and> wayPartIndex q w = p}"

definition best_of :: "'m way_part \<Rightarrow> nat \<Rightarrow> nat list \<Rightarrow> nat option \<Rightarrow> bool" where
  "best_of q p cands b \<longleftrightarrow> (case b of
     None \<Rightarrow> own_ways q p (length cands) = {}
   | Some c \<Rightarrow> (\<exists>w\<in>own_ways q p (length cands). c = cands ! w)
       \<and> (\<forall>w\<in>own_ways q p (length cands). victim_le p (wp_array q c) (wp_array q (cands ! w))))"

lemma best_of_cong:
  "wayPartIndex q1 = wayPartIndex q \<Longrightarrow> wp_array q1 = wp_array q \<Longrightarrow> best_of q1 p cs b = best_of q p cs b"
proof -
  assume "wayPartIndex q1 = wayPartIndex q" and a: "wp_array q1 = wp_array q"
  then have "own_ways q1 p = own_ways q p" by (simp add: own_ways_def fun_eq_iff)
  then show ?thesis by (simp only: best_of_def a)
qed

lemma own_ways_Suc: "own_ways q p (Suc k) = (if wayPartIndex q k = p then insert k (own_ways q p k) else own_ways q p k)"
  by (auto simp: own_ways_def less_Suc_eq)

lemma way_part_record_best:
  assumes "\<not> testMode q" and "wp_candIdx q = length cands" "length cands < wp_ways q"
    and "best_of q (incomingLinePart q) cands (wp_bestId q)"
  shows "\<exists>q'. way_part_record c q = Inr q' \<and> q' = q\<lparr>wp_candIdx := Suc (length cands), wp_bestId := wp_bestId q'\<rparr>
    \<and> best_of q (incomingLinePart q) (cands @ [c]) (wp_bestId q')"
proof -
  let ?p = "incomingLinePart q" and ?w = "length cands"
  have old: "(cands @ [c]) ! w = cands ! w" if "w \<in> own_ways q ?p ?w" for w
    using that by (simp add: own_ways_def nth_append)
  show ?thesis
  proof (cases "wayPartIndex q ?w = ?p")
    case False
    then show ?thesis using assms old
      by (auto simp: way_part_record_def Let_def best_of_def own_ways_Suc split: option.splits)
  next
    case True
    show ?thesis
    proof (cases "wp_bestId q")
      case None
      then have "own_ways q ?p ?w = {}" using assms(4) by (simp add: best_of_def)
      then show ?thesis using assms True None
        by (auto simp: way_part_record_def Let_def best_of_def own_ways_Suc)
    next
      case (Some b)
      then have b: "\<exists>w\<in>own_ways q ?p ?w. b = cands ! w"
        and min: "\<And>w. w \<in> own_ways q ?p ?w \<Longrightarrow> victim_le ?p (wp_array q b) (wp_array q (cands ! w))"
        using assms(4) by (auto simp: best_of_def)
      define b' where "b' = (if \<not> victim_le ?p (wp_array q b) (wp_array q c) then c else b)"
      have "victim_le ?p (wp_array q b') (wp_array q b)" "victim_le ?p (wp_array q b') (wp_array q c)"
        using victim_le_total [of ?p "wp_array q b" "wp_array q c"] by (auto simp: b'_def)
      then have "best_of q ?p (cands @ [c]) (Some b')"
        using b min old True victim_le_trans
        by (auto simp: best_of_def own_ways_Suc b'_def split: if_splits) 
      moreover have "way_part_record c q = Inr (q\<lparr>wp_candIdx := Suc ?w, wp_bestId := Some b'\<rparr>)"
        using assms True Some by (auto simp: way_part_record_def Let_def b'_def victim_le_def)
      ultimately show ?thesis by auto
    qed
  qed
qed

lemma way_part_record_all:
  assumes "\<not> testMode q" and "wp_candIdx q = 0" "wp_bestId q = None" "length cands \<le> wp_ways q"
  shows "\<exists>q'. rfold way_part_record cands q = Inr q' \<and> q' = q\<lparr>wp_candIdx := length cands, wp_bestId := wp_bestId q'\<rparr>
    \<and> best_of q (incomingLinePart q) cands (wp_bestId q')"
  using assms(4)
proof (induction cands rule: rev_induct)
  case Nil
  show ?case using assms(2,3) by (simp add: best_of_def own_ways_def)
next
  case (snoc c cands)
  then obtain q1 where q1: "rfold way_part_record cands q = Inr q1"
    "q1 = q\<lparr>wp_candIdx := length cands, wp_bestId := wp_bestId q1\<rparr>" "best_of q (incomingLinePart q) cands (wp_bestId q1)" by auto
  have f: "testMode q1 = testMode q" "wp_candIdx q1 = length cands" "wp_ways q1 = wp_ways q" "incomingLinePart q1 = incomingLinePart q"
    "\<And>p cs b. best_of q1 p cs b = best_of q p cs b"
    by (subst q1(2), simp)+ (rule best_of_cong, (subst q1(2), simp)+)
  have "\<exists>q'. way_part_record c q1 = Inr q' \<and> q' = q1\<lparr>wp_candIdx := Suc (length cands), wp_bestId := wp_bestId q'\<rparr>
    \<and> best_of q1 (incomingLinePart q1) (cands @ [c]) (wp_bestId q')"
    by (rule way_part_record_best) (use f assms(1) q1(3) snoc.prems in auto)
  then obtain q' where q': "way_part_record c q1 = Inr q'" "q' = q1\<lparr>wp_candIdx := Suc (length cands), wp_bestId := wp_bestId q'\<rparr>"
    "best_of q (incomingLinePart q) (cands @ [c]) (wp_bestId q')" by (auto simp: f)
  have "q' = q\<lparr>wp_candIdx := length (cands @ [c]), wp_bestId := wp_bestId q'\<rparr>"
    by (subst q'(2), subst q1(2)) simp
  then show ?case using q1(1) q'(1,3) by (simp add: rfold_append)
qed

text \<open>
  C34. Way partitioning isolates: outside the test mode, the victim of a line of partition \<open>p\<close>
  lies in a way assigned to \<open>p\<close>; among those ways, a line of another partition is evicted
  before \<open>p\<close>'s own and the oldest before younger ones. If no way of the set belongs to \<open>p\<close>, the
  replacement stops in its assertion.
\<close>

theorem way_part_victim:
  assumes "\<not> testMode q" "wp_candIdx q = 0" "wp_bestId q = None" "length cands \<le> wp_ways q" and p: "gp req = Inr p"
  shows "if own_ways q p (length cands) = {} then way_part_rank gp req cands q = Inl AssertFail
    else \<exists>w q'. way_part_rank gp req cands q = Inr (cands ! w, q') \<and> w < length cands \<and> wayPartIndex q w = p
      \<and> (\<forall>w'<length cands. wayPartIndex q w' = p \<longrightarrow> victim_le p (wp_array q (cands ! w)) (wp_array q (cands ! w')))"
proof -
  define q1 where "q1 = q\<lparr>incomingLinePart := p, wp_incomingLineAddr := lineAddr req\<rparr>"
  have st: "way_part_start gp req q = Inr q1" using assms by (simp add: way_part_start_def q1_def)
  have f: "\<not> testMode q1" "wp_candIdx q1 = 0" "wp_bestId q1 = None" "length cands \<le> wp_ways q1" "incomingLinePart q1 = p"
    using assms by (simp_all add: q1_def)
  have b1: "best_of q1 r cs b = best_of q r cs b" for r cs b by (rule best_of_cong) (simp_all add: q1_def)
  obtain q2 where q2: "rfold way_part_record cands q1 = Inr q2" "best_of q p cands (wp_bestId q2)"
    using way_part_record_all [OF f(1-4)] unfolding f(5) b1 by blast
  show ?thesis
  proof (cases "wp_bestId q2")
    case None
    then show ?thesis using q2 st by (simp add: way_part_rank_def way_part_best_def best_of_def)
  next
    case (Some b)
    then obtain w where w: "w \<in> own_ways q p (length cands)" "b = cands ! w"
      "\<And>w'. w' \<in> own_ways q p (length cands) \<Longrightarrow> victim_le p (wp_array q b) (wp_array q (cands ! w'))"
      using q2(2) by (auto simp: best_of_def)
    have "way_part_rank gp req cands q = Inr (cands ! w, q2)"
      using q2(1) st Some w(2) by (simp add: way_part_rank_def way_part_best_def)
    then show ?thesis using w by (auto simp: own_ways_def)
  qed
qed

text \<open>Line 6 lies in a way of partition 1 and belongs to partition 0: it is the victim.\<close>

definition wp_sample :: "unit way_part" where
  "wp_sample = \<lparr>wp_info = (\<lambda>_. part_info0), wp_partitions = 2, wp_totalSize = 16, waySize = 4, wp_ways = 4,
     wp_array = (\<lambda>i. \<lparr>wl_addr = 0, wl_ts = of_nat (20 - i), wl_p = i mod 2\<rparr>), wayPartIndex = (\<lambda>w. w div 2), testMode = False,
     wp_bestId = None, wp_candIdx = 0, incomingLinePart = 0, wp_incomingLineAddr = 0, wp_timestamp = 30, wp_monitor = ()\<rparr>"

theorem way_part_victim_witness:
  "\<exists>q'. way_part_rank core_getPartition (wp_example_req 1) [4, 5, 6, 7] wp_sample = Inr (6, q')"
proof -
  let ?c = "[4, 5, 6, 7] :: nat list"
  have h: "\<not> testMode wp_sample" "wp_candIdx wp_sample = 0" "wp_bestId wp_sample = None" "length ?c \<le> wp_ways wp_sample"
    "core_getPartition (wp_example_req 1) = Inr 1"
    by (simp_all add: wp_sample_def core_getPartition_def wp_example_req_def)
  have "2 \<in> own_ways wp_sample 1 (length ?c)" by (simp add: own_ways_def wp_sample_def)
  then obtain w q' where w: "way_part_rank core_getPartition (wp_example_req 1) ?c wp_sample = Inr (?c ! w, q')"
    "w < length ?c" "wayPartIndex wp_sample w = 1"
    "\<And>w'. w' < length ?c \<Longrightarrow> wayPartIndex wp_sample w' = 1 \<Longrightarrow> victim_le 1 (wp_array wp_sample (?c ! w)) (wp_array wp_sample (?c ! w'))"
    using way_part_victim [OF h(1-4), where gp = core_getPartition and req = "wp_example_req 1" and p = 1, OF h(5)] by (auto split: if_splits)
  have "w = 2 \<or> w = 3" using w(2,3) by (auto simp: wp_sample_def)
  moreover have "victim_le 1 (wp_array wp_sample (?c ! w)) (wp_array wp_sample (?c ! 2))"
    by (rule w(4)) (simp_all add: wp_sample_def)
  then have "w \<noteq> 3" by (auto simp: wp_sample_def victim_le_def)
  ultimately show ?thesis using w(1) by auto
qed

subsection \<open>Repartitioning by the lookahead partitioner\<close>

lemma way_part_assign_sum:
  "fst (fold (way_part_assign ws) ps cq) = fst cq + (\<Sum>p\<leftarrow>ps. unat (ws p))"
  by (induction ps arbitrary: cq) (simp_all add: way_part_assign_def case_prod_beta)

text \<open>
  C35. The first repartitioning of a way-partitioned cache with two or more partitions stops the
  simulation: the lookahead partitioner that init.cpp builds (a minimum of one way per
  partition, as many buckets as ways) hands out \<open>n * n - n\<close> ways too many, and
  \<open>setPartitionSizes\<close> first writes that many entries behind \<open>wayPartIndex\<close> and then fails its
  assertion.
\<close>

theorem way_part_repartition_fails:
  assumes mu: "\<And>x i. 0 \<le> muq x i" and la: "la_minAlloc la = 1" "la_forbidden la = (\<lambda>_. False)"
    and n: "2 \<le> la_numPartitions la" "la_numPartitions la \<le> wp_ways q" "wp_ways q < 2 ^ 32" "wp_partitions q = la_numPartitions la"
  shows "\<exists>la'. lookahead_partition muq get (of_nat (wp_ways q)) la = Inr la'
    \<and> way_part_setPartitionSizes (curAllocs la') q = Inl AssertFail"
proof -
  let ?n = "la_numPartitions la" and ?w = "wp_ways q"
  have u: "unat (of_nat ?n :: u32) = ?n" "unat (of_nat ?w :: u32) = ?w"
    using n by (simp_all add: unat_of_nat take_bit_nat_eq_self)
  have m: "la_minAlloc la * of_nat ?n = of_nat ?n" by (simp add: la)
  have some: "\<exists>i < ?n. \<not> la_forbidden la i" using n(1) by (auto simp: la intro: exI [of _ 0])
  have "(of_nat ?n :: u32) \<le> of_nat ?w" using n(2) by (simp add: word_le_nat_alt u)
  then obtain la' where la': "lookahead_partition muq get (of_nat ?w) la = Inr la'"
    "(\<Sum>i < ?n. unat (curAllocs la' i)) = ?n * ?n + (?w - ?n)"
    using lookahead_partition_total [where muq = muq and get = get and la = la and portion = "of_nat ?w", OF mu some] unfolding m u by blast
  have "fst (fold (way_part_assign (curAllocs la')) [0..<?n] (0, q)) = ?n * ?n + (?w - ?n)"
    using la'(2) by (simp add: way_part_assign_sum interv_sum_list_conv_sum_set_nat atLeast0LessThan)
  moreover have "?n * ?n \<noteq> ?n" using n(1) by (metis mult_cancel1 mult_1_right not_numeral_le_zero numeral_le_one_iff semiring_norm(69))
  ultimately have "fst (fold (way_part_assign (curAllocs la')) [0..<wp_partitions q] (0, q)) \<noteq> ?w"
    using n(2) unfolding n(4) by linarith
  then have "way_part_setPartitionSizes (curAllocs la') q = Inl AssertFail"
    by (simp add: way_part_setPartitionSizes_def case_prod_beta Let_def)
  with la'(1) show ?thesis by blast
qed

theorem way_part_repartition_fails_witness:
  "\<exists>la'. lookahead_partition (\<lambda>x i. of_nat (unat x) / of_nat (unat i)) (\<lambda>_ b. 100 - b) (of_nat (wp_ways wp_sample))
       \<lparr>la_numPartitions = 2, la_buckets = 4, la_minAlloc = 1, la_forbidden = (\<lambda>_. False), curAllocs = (\<lambda>_. 0)\<rparr> = Inr la'
    \<and> way_part_setPartitionSizes (curAllocs la') wp_sample = Inl AssertFail"
proof -
  have "0 \<le> (of_nat (unat x) / of_nat (unat i) :: rat)" for x :: u64 and i :: u32 by (intro divide_nonneg_nonneg of_nat_0_le_iff)
  then show ?thesis
    by (rule way_part_repartition_fails [where muq = "\<lambda>(x :: u64) (i :: u32). of_nat (unat x) / of_nat (unat i) :: rat"])
      (simp_all add: wp_sample_def)
qed

end
