(* ===== verification/Vantage.thy ===== *)
theory Vantage
  imports PartPolicies MTRandom
begin

section \<open>Vantage\<close>

text \<open>
  The second half of part_repl_policies.h: fine-grained partitioning with an unmanaged region
  (partition number \<open>partitions\<close>), coarse-grain 8-bit timestamps (\<open>VANTAGE_8BIT_BTS\<close> is 1) and
  feedback-controlled apertures. The mapper, the partition monitor and the global cycle are
  arguments; \<open>fl\<close> is the rounding of an exact result to a \<open>double\<close>.
\<close>

subsection \<open>State\<close>

record vantage_info = part_info +
  curBts :: u64
  curBtsHits :: u32
  setpointBts :: u64
  setpointAdjs :: u64
  curIntervalIns :: u32
  curIntervalDems :: u32
  curIntervalCands :: u32
  extendedSize :: u64
  longTermTargetSize :: u64
  profDemotions :: u64
  profEvictions :: u64
  profSizeCycles :: u64
  profExtendedSizeCycles :: u64

record van_line =
  vl_addr :: address
  vl_ts :: u64
  vl_bts :: u64
  vl_p :: nat
  vl_op :: nat

record 'm vantage =
  v_partitions :: nat
  v_totalSize :: u32
  v_assoc :: nat
  v_info :: "nat \<Rightarrow> vantage_info"
  v_array :: "nat \<Rightarrow> van_line"
  profPromotions :: u64
  profUpdateCycles :: u64
  candList :: "nat list"
  v_incomingLineAddr :: address
  v_timestamp :: u64
  partPortion :: rat
  partSlack :: rat
  maxAperture :: rat
  partGranularity :: u32
  lastUpdateCycle :: u64
  v_rng :: mtrand
  smoothTransients :: bool
  v_monitor :: 'm

definition vantage_info0 :: vantage_info where
  "vantage_info0 = \<lparr>pi_size = 0, targetSize = 0, profHits = 0, profMisses = 0, profSelfEvictions = 0, profExtEvictions = 0,
     curBts = 0, curBtsHits = 0, setpointBts = 0, setpointAdjs = 0, curIntervalIns = 0, curIntervalDems = 0, curIntervalCands = 0,
     extendedSize = 0, longTermTargetSize = 0, profDemotions = 0, profEvictions = 0, profSizeCycles = 0, profExtendedSizeCycles = 0\<rparr>"

definition vantage_init :: "(rat \<Rightarrow> rat) \<Rightarrow> 'm \<Rightarrow> nat \<Rightarrow> u32 \<Rightarrow> nat \<Rightarrow> nat \<Rightarrow> nat \<Rightarrow> nat \<Rightarrow> u32 \<Rightarrow> bool \<Rightarrow> 'm vantage res" where
  "vantage_init fl mon0 parts lines assoc portionPct slackPct aperturePct granularity smooth =
     assert_then (portionPct \<le> 100) (assert_then (slackPct \<le> 100) (assert_then (aperturePct \<le> 100)
       (let portion = fl (of_nat portionPct / 100);
            managed = of_int (floor (fl (of_nat (unat lines) * portion))) :: u32;
            tgt = ucast (managed div of_nat parts) :: u64
        in Inr \<lparr>v_partitions = parts, v_totalSize = lines, v_assoc = assoc,
             v_info = (\<lambda>i. if i < parts then vantage_info0\<lparr>targetSize := tgt, longTermTargetSize := tgt\<rparr>
                else if i = parts then vantage_info0\<lparr>pi_size := ucast lines, extendedSize := ucast lines\<rparr>
                else vantage_info0),
             v_array = (\<lambda>i. \<lparr>vl_addr = 0, vl_ts = 0, vl_bts = 0, vl_p = parts, vl_op = parts\<rparr>),
             profPromotions = 0, profUpdateCycles = 0, candList = [], v_incomingLineAddr = 0, v_timestamp = 1,
             partPortion = portion, partSlack = fl (of_nat slackPct / 100), maxAperture = fl (of_nat aperturePct / 100),
             partGranularity = granularity, lastUpdateCycle = 0, v_rng = MTRand 0xABCDE563F,
             smoothTransients = smooth, v_monitor = mon0\<rparr>)))"

subsection \<open>Taking lines away from shrinking partitions\<close>

definition v_count :: "nat \<Rightarrow> (vantage_info \<Rightarrow> vantage_info) \<Rightarrow> 'm vantage \<Rightarrow> 'm vantage" where
  "v_count p f v = v\<lparr>v_info := (v_info v)(p := f (v_info v p))\<rparr>"

text \<open>\<open>left\<close>, an \<open>int32_t\<close>: how far the target of a partition is above its long-term target.\<close>

definition v_left :: "'m vantage \<Rightarrow> nat \<Rightarrow> u32" where
  "v_left v p = ucast (targetSize (v_info v p) - longTermTargetSize (v_info v p))"

definition v_left_pos :: "'m vantage \<Rightarrow> nat \<Rightarrow> u32" where
  "v_left_pos v p = (if 0 < sint (v_left v p) then v_left v p else 0)"

fun v_take_from :: "u32 \<Rightarrow> 'm vantage \<Rightarrow> nat list \<Rightarrow> u32 \<Rightarrow> 'm vantage res" where
  "v_take_from l v [] curLines = Inl Panic"
| "v_take_from l v (p # ps) curLines =
     (let cl = curLines + v_left_pos v p
      in if 0 < sint (v_left v p) \<and> l < cl then Inr (v_count p (\<lambda>i. i\<lparr>targetSize := targetSize i - 1\<rparr>) v)
         else v_take_from l v ps cl)"

definition v_takeOneLine :: "'m vantage \<Rightarrow> 'm vantage res" where
  "v_takeOneLine v =
     assert_then (smoothTransients v)
       (let linesLeft = foldl (\<lambda>s p. s + v_left_pos v p) 0 [0..<v_partitions v]
        in assert_then (0 < linesLeft)
          (case randInt_below (ucast (linesLeft - 1)) (v_rng v) of
             None \<Rightarrow> Inl NoReturn
           | Some (l, r) \<Rightarrow> v_take_from (ucast l) (v\<lparr>v_rng := r\<rparr>) [0..<v_partitions v] 0))"

subsection \<open>Updates\<close>

text \<open>The cumulative size counters.\<close>

definition v_size_cycles :: "u64 \<Rightarrow> 'm vantage \<Rightarrow> 'm vantage" where
  "v_size_cycles globPhaseCycles v =
     (if globPhaseCycles > lastUpdateCycle v
      then let diff = globPhaseCycles - lastUpdateCycle v
           in v\<lparr>v_info := (\<lambda>p. if p \<le> v_partitions v
                 then (v_info v p)\<lparr>profSizeCycles := profSizeCycles (v_info v p) + diff * pi_size (v_info v p),
                        profExtendedSizeCycles := profExtendedSizeCycles (v_info v p) + diff * extendedSize (v_info v p)\<rparr>
                 else v_info v p),
               profUpdateCycles := profUpdateCycles v + diff, lastUpdateCycle := globPhaseCycles\<rparr>
      else v)"

text \<open>A hit: a line of the unmanaged region is promoted to the partition of the request.\<close>

definition v_hit :: "(mem_req \<Rightarrow> nat res) \<Rightarrow> nat \<Rightarrow> mem_req \<Rightarrow> 'm vantage \<Rightarrow> 'm vantage res" where
  "v_hit getPartition lid req v =
     (let e = v_array v lid; parts = v_partitions v
      in rbind (if vl_p e = parts
                then rbind (getPartition req) (\<lambda>p.
                  Inr (p, v_count parts (\<lambda>i. i\<lparr>pi_size := pi_size i - 1\<rparr>)
                        (v_count p (\<lambda>i. i\<lparr>curIntervalIns := curIntervalIns i + 1, pi_size := pi_size i + 1\<rparr>)
                          (v\<lparr>profPromotions := profPromotions v + 1\<rparr>))))
                else Inr (vl_p e, v))
         (\<lambda>(p, v1). Inr (v_count p (\<lambda>i. i\<lparr>profHits := profHits i + 1\<rparr>)
            (v1\<lparr>v_array := (v_array v1)(lid := e\<lparr>vl_p := p, vl_ts := v_timestamp v1\<rparr>), v_timestamp := v_timestamp v1 + 1\<rparr>))))"

text \<open>The update after a miss: the old line leaves its partition, the new one enters.\<close>

definition v_enter :: "nat \<Rightarrow> nat \<Rightarrow> 'm vantage \<Rightarrow> 'm vantage" where
  "v_enter p lid v =
     (let e = v_array v lid;
          v1 = v_count (vl_op e) (\<lambda>i. i\<lparr>extendedSize := extendedSize i - 1\<rparr>)
                 (v_count (vl_p e) (\<lambda>i. i\<lparr>pi_size := pi_size i - 1, profEvictions := profEvictions i + 1\<rparr>)
                   (v\<lparr>v_timestamp := v_timestamp v + 1\<rparr>))
      in v_count p (\<lambda>i. i\<lparr>curIntervalIns := curIntervalIns i + 1, pi_size := pi_size i + 1,
             extendedSize := extendedSize i + 1, profMisses := profMisses i + 1\<rparr>)
           (v1\<lparr>v_array := (v_array v1)(lid := e\<lparr>vl_ts := v_timestamp v, vl_p := p, vl_op := p\<rparr>)\<rparr>))"

definition v_fill :: "(mem_req \<Rightarrow> nat res) \<Rightarrow> nat \<Rightarrow> mem_req \<Rightarrow> 'm vantage \<Rightarrow> 'm vantage res" where
  "v_fill getPartition lid req v =
     rbind (getPartition req) (\<lambda>p.
       let v2 = v_enter p lid v
       in if targetSize (v_info v2 p) < longTermTargetSize (v_info v2 p)
          then assert_then (smoothTransients v2)
                 (v_takeOneLine (v_count p (\<lambda>i. i\<lparr>targetSize := targetSize i + 1\<rparr>) v2))
          else Inr v2)"

text \<open>The coarse-grain timestamp of the line's partition.\<close>

definition v_stamp :: "nat \<Rightarrow> 'm vantage \<Rightarrow> 'm vantage" where
  "v_stamp lid v =
     (let p = vl_p (v_array v lid); i = v_info v p; hits = curBtsHits i + 1;
          v1 = v\<lparr>v_array := (v_array v)(lid := (v_array v lid)\<lparr>vl_bts := curBts i\<rparr>)\<rparr>
      in if hits \<ge> ucast (pi_size i) div 16
         then v_count p (\<lambda>i. i\<lparr>curBts := curBts i + 1, setpointBts := setpointBts i + 1, curBtsHits := 0\<rparr>) v1
         else v_count p (\<lambda>i. i\<lparr>curBtsHits := hits\<rparr>) v1)"

definition vantage_update :: "(mem_req \<Rightarrow> nat res) \<Rightarrow> (nat \<Rightarrow> address \<Rightarrow> 'm \<Rightarrow> 'm res) \<Rightarrow> u64 \<Rightarrow> nat \<Rightarrow> mem_req \<Rightarrow> 'm vantage \<Rightarrow> 'm vantage res" where
  "vantage_update getPartition mon globPhaseCycles lid req v =
     (let v0 = v_size_cycles globPhaseCycles v
      in rbind (if 0 < vl_ts (v_array v0 lid) then v_hit getPartition lid req v0 else v_fill getPartition lid req v0)
           (\<lambda>v1. rbind (mon (vl_p (v_array v1 lid)) (vl_addr (v_array v1 lid)) (v_monitor v1))
              (\<lambda>m. Inr (v_stamp lid (v1\<lparr>v_monitor := m\<rparr>)))))"

subsection \<open>Choosing a victim\<close>

definition v_startReplacement :: "mem_req \<Rightarrow> 'm vantage \<Rightarrow> 'm vantage" where
  "v_startReplacement req v = v\<lparr>v_incomingLineAddr := lineAddr req\<rparr>"

definition v_recordCandidate :: "nat \<Rightarrow> 'm vantage \<Rightarrow> 'm vantage res" where
  "v_recordCandidate lid v = assert_then (length (candList v) < v_assoc v) (Inr (v\<lparr>candList := candList v @ [lid]\<rparr>))"

text \<open>The aperture of a partition and the adjustment of its setpoint at the end of an interval.\<close>

definition v_aperture :: "(rat \<Rightarrow> rat) \<Rightarrow> nat \<Rightarrow> 'm vantage \<Rightarrow> rat res" where
  "v_aperture fl p v =
     (let tgt = fl (of_nat (unat (targetSize (v_info v p))));
          maxSz = fl (tgt * fl (1 + partSlack v));
          curSz = fl (of_nat (unat (pi_size (v_info v p))))
      in if maxSz \<le> curSz then Inr (maxAperture v)
         else let slope = fl (maxAperture v / fl (maxSz - tgt))
              in assert_then (0 < slope) (Inr (fl (slope * fl (curSz - tgt)))))"

definition v_adjust_setpoint :: "(rat \<Rightarrow> rat) \<Rightarrow> rat \<Rightarrow> vantage_info \<Rightarrow> vantage_info" where
  "v_adjust_setpoint fl aperture i =
     (let shrink = of_int (sint (curIntervalDems i)); lim = fl (aperture * of_nat (unat (curIntervalCands i)))
      in if shrink < lim then (if setpointBts i < curBts i then i\<lparr>setpointBts := setpointBts i + 1\<rparr> else i)
         else if shrink > lim then (if curBts i - setpointBts i < 255 then i\<lparr>setpointBts := setpointBts i - 1\<rparr> else i)
         else i)"

definition v_interval :: "(rat \<Rightarrow> rat) \<Rightarrow> nat \<Rightarrow> 'm vantage \<Rightarrow> 'm vantage res" where
  "v_interval fl p v =
     (if curIntervalCands (v_info v p) \<ge> 256
      then rbind (v_aperture fl p v) (\<lambda>aperture.
        Inr (v_count p (\<lambda>i. (if 0 < aperture then v_adjust_setpoint fl aperture i else i)
               \<lparr>curIntervalCands := 0, curIntervalIns := 0, curIntervalDems := 0, setpointAdjs := setpointAdjs i + 1\<rparr>) v))
      else Inr v)"

definition v_must_demote :: "vantage_info \<Rightarrow> van_line \<Rightarrow> bool" where
  "v_must_demote i e \<longleftrightarrow> (curBts i - vl_bts e) mod 256 \<ge> (curBts i - setpointBts i) mod 256"

definition v_demote :: "nat \<Rightarrow> 'm vantage \<Rightarrow> 'm vantage" where
  "v_demote lid v =
     (let p = vl_p (v_array v lid); parts = v_partitions v;
          v1 = v_count parts (\<lambda>i. i\<lparr>pi_size := pi_size i + 1\<rparr>)
                 (v_count p (\<lambda>i. i\<lparr>profDemotions := profDemotions i + 1, pi_size := pi_size i - 1\<rparr>) v)
      in v_count p (\<lambda>i. i\<lparr>curIntervalDems := curIntervalDems i + 1\<rparr>)
           (v1\<lparr>v_array := (v_array v1)(lid := (v_array v1 lid)\<lparr>vl_p := parts\<rparr>)\<rparr>))"

definition v_consider :: "(rat \<Rightarrow> rat) \<Rightarrow> nat \<Rightarrow> 'm vantage \<Rightarrow> 'm vantage res" where
  "v_consider fl lid v =
     (let e = v_array v lid; p = vl_p e; i = v_info v p; size = ucast (pi_size i) :: u32
      in if vl_ts e = 0 then Inr v
         else if p = v_partitions v then Inr v
         else if ucast size \<le> targetSize i then Inr v
         else let v1 = (if v_must_demote i e then v_demote lid v else v)
              in v_interval fl p (v_count p (\<lambda>i. i\<lparr>curIntervalCands := curIntervalCands i + 1\<rparr>) v1))"

text \<open>The search among the candidates, which stops at an empty line.\<close>

definition v_better :: "'m vantage \<Rightarrow> nat \<Rightarrow> nat \<Rightarrow> nat" where
  "v_better v lid bestId =
     (let e = v_array v lid; best = v_array v bestId; parts = v_partitions v
      in if vl_p e = parts \<and> vl_p best \<noteq> parts then lid
         else if vl_p e = parts \<and> vl_p best = parts then (if vl_ts e < vl_ts best then lid else bestId)
         else if vl_p e \<noteq> parts \<and> vl_p best = parts then bestId
         else (if vl_ts e < vl_ts best then lid else bestId))"

fun v_search :: "'m vantage \<Rightarrow> nat list \<Rightarrow> nat \<Rightarrow> nat" where
  "v_search v [] bestId = bestId"
| "v_search v (lid # ids) bestId = (if vl_ts (v_array v lid) = 0 then lid else v_search v ids (v_better v lid bestId))"

definition v_getBestCandidate :: "(rat \<Rightarrow> rat) \<Rightarrow> 'm vantage \<Rightarrow> (nat \<times> 'm vantage) res" where
  "v_getBestCandidate fl v =
     assert_then (0 < length (candList v)) (assert_then (length (candList v) \<le> v_assoc v)
       (rbind (rfold (v_consider fl) (candList v) v) (\<lambda>v1.
          let bestId = v_search v1 (candList v1) (candList v1 ! 0)
          in assert_then (bestId < unat (v_totalSize v1)) (Inr (bestId, v1)))))"

definition v_replaced :: "nat \<Rightarrow> 'm vantage \<Rightarrow> 'm vantage" where
  "v_replaced lid v = v\<lparr>candList := [],
     v_array := (v_array v)(lid := (v_array v lid)\<lparr>vl_ts := 0, vl_bts := 0, vl_addr := v_incomingLineAddr v\<rparr>)\<rparr>"

definition vantage_rank :: "(rat \<Rightarrow> rat) \<Rightarrow> mem_req \<Rightarrow> nat list \<Rightarrow> 'm vantage \<Rightarrow> (nat \<times> 'm vantage) res" where
  "vantage_rank fl req cands v = rbind (rfold v_recordCandidate cands (v_startReplacement req v)) (v_getBestCandidate fl)"

subsection \<open>New target sizes\<close>

definition v_set_target :: "(nat \<Rightarrow> u32) \<Rightarrow> nat \<Rightarrow> u32 \<times> 'm vantage \<Rightarrow> u32 \<times> 'm vantage" where
  "v_set_target sizes p = (\<lambda>(linesToTakeAway, v).
     let s = ucast (v_totalSize v * sizes p div partGranularity v) :: u64
     in if smoothTransients v
        then let v1 = v_count p (\<lambda>i. i\<lparr>longTermTargetSize := s\<rparr>) v; i = v_info v1 p
             in if s > targetSize i
                then let newTarget = max (targetSize i) (min (longTermTargetSize i) (pi_size i + 1))
                     in (linesToTakeAway + ucast (newTarget - targetSize i), v_count p (\<lambda>i. i\<lparr>targetSize := newTarget\<rparr>) v1)
                else (linesToTakeAway, v1)
        else (linesToTakeAway, v_count p (\<lambda>i. i\<lparr>targetSize := s, longTermTargetSize := s\<rparr>) v))"

definition vantage_setPartitionSizes :: "(nat \<Rightarrow> u32) \<Rightarrow> 'm vantage \<Rightarrow> 'm vantage res" where
  "vantage_setPartitionSizes sizes v =
     (let (linesToTakeAway, v1) = fold (v_set_target sizes) [0..<v_partitions v] (0, v)
      in rfold (\<lambda>_. v_takeOneLine) [0..<unat linesToTakeAway] v1)"

subsection \<open>The sizes are exact\<close>

text \<open>Both sizes, of the current and of the original partition of the lines.\<close>

definition v_exact :: "nat \<Rightarrow> 'm vantage \<Rightarrow> bool" where
  "v_exact n v \<longleftrightarrow> (\<forall>p. pi_size (v_info v p) = of_nat (psize n (\<lambda>i. vl_p (v_array v i)) p)
     \<and> extendedSize (v_info v p) = of_nat (psize n (\<lambda>i. vl_op (v_array v i)) p))"

lemma v_count_fields [simp]:
  "v_info (v_count p f v) q = (if q = p then f (v_info v p) else v_info v q)"
  "v_array (v_count p f v) = v_array v" "v_partitions (v_count p f v) = v_partitions v"
  "candList (v_count p f v) = candList v" "v_totalSize (v_count p f v) = v_totalSize v"
  "smoothTransients (v_count p f v) = smoothTransients v" "v_assoc (v_count p f v) = v_assoc v"
  by (simp_all add: v_count_def)

text \<open>Operations that leave the lines and both sizes alone.\<close>

definition v_same :: "'m vantage \<Rightarrow> 'm vantage \<Rightarrow> bool" where
  "v_same v v' \<longleftrightarrow> (\<forall>i. vl_p (v_array v' i) = vl_p (v_array v i) \<and> vl_op (v_array v' i) = vl_op (v_array v i))
     \<and> (\<forall>p. pi_size (v_info v' p) = pi_size (v_info v p) \<and> extendedSize (v_info v' p) = extendedSize (v_info v p))"

lemma v_same_refl [simp]: "v_same v v"
  by (simp add: v_same_def)

lemma v_same_trans: "v_same u v \<Longrightarrow> v_same v w \<Longrightarrow> v_same u w"
  by (simp add: v_same_def)

lemma v_same_exact: "v_same v v' \<Longrightarrow> v_exact n v \<Longrightarrow> v_exact n v'"
proof -
  assume s: "v_same v v'" and e: "v_exact n v"
  have "(\<lambda>i. vl_p (v_array v' i)) = (\<lambda>i. vl_p (v_array v i))" "(\<lambda>i. vl_op (v_array v' i)) = (\<lambda>i. vl_op (v_array v i))"
    using s by (simp_all add: v_same_def)
  then show ?thesis using s e by (simp add: v_exact_def v_same_def)
qed

lemma v_take_from_same: "v_take_from l v ps c = Inr v' \<Longrightarrow> v_same v v'"
  by (induction ps arbitrary: c) (auto simp: Let_def v_same_def split: if_splits)

lemma v_takeOneLine_same: "v_takeOneLine v = Inr v' \<Longrightarrow> v_same v v'"
  by (auto simp: v_takeOneLine_def Let_def res_simps v_same_def split: option.splits dest!: v_take_from_same)

lemma v_size_cycles_same: "v_same v (v_size_cycles g v)"
  by (simp add: v_size_cycles_def Let_def v_same_def)

lemma v_stamp_same: "v_same v (v_stamp lid v)"
  by (simp add: v_stamp_def Let_def v_same_def)

lemma v_adjust_fields [simp]:
  "pi_size (v_adjust_setpoint fl a i) = pi_size i" "extendedSize (v_adjust_setpoint fl a i) = extendedSize i"
  "targetSize (v_adjust_setpoint fl a i) = targetSize i"
  by (simp_all add: v_adjust_setpoint_def Let_def)

lemma v_interval_same: "v_interval fl p v = Inr v' \<Longrightarrow> v_same v v' \<and> (\<forall>q. targetSize (v_info v' q) = targetSize (v_info v q))
    \<and> v_array v' = v_array v \<and> v_partitions v' = v_partitions v"
  by (auto simp: v_interval_def res_simps v_same_def split: if_splits)

lemma v_set_target_same: "v_same (snd lv) (snd (v_set_target sizes p lv))"
  by (auto simp: v_set_target_def case_prod_beta Let_def v_same_def)

lemma v_set_targets_same: "v_same (snd lv) (snd (fold (v_set_target sizes) ps lv))"
proof (induction ps arbitrary: lv)
  case (Cons p ps)
  show ?case using v_same_trans [OF v_set_target_same Cons.IH] by simp
qed simp

lemma v_setPartitionSizes_same: "vantage_setPartitionSizes sizes v = Inr v' \<Longrightarrow> v_same v v'"
proof -
  assume r: "vantage_setPartitionSizes sizes v = Inr v'"
  obtain l v1 where f: "fold (v_set_target sizes) [0..<v_partitions v] (0, v) = (l, v1)" by force
  then have s: "v_same v v1" using v_set_targets_same [of "(0, v)" sizes "[0..<v_partitions v]"] by simp
  have "rfold (\<lambda>_. v_takeOneLine) [0..<unat l] v1 = Inr v'" using r f by (simp add: vantage_setPartitionSizes_def)
  then show ?thesis
    by (rule rfold_invariant [where P = "v_same v"]) (use s v_takeOneLine_same v_same_trans in blast)+
qed

text \<open>A line that changes its partitions, and the sizes with it.\<close>

lemma v_move_exact:
  assumes ok: "v_exact n v" and l: "lid < n"
    and own: "\<And>i. vl_p (v_array v' i) = (if i = lid then p else vl_p (v_array v i))"
      "\<And>i. vl_op (v_array v' i) = (if i = lid then po else vl_op (v_array v i))"
    and size: "\<And>r. pi_size (v_info v' r) = pi_size (v_info v r) - (if vl_p (v_array v lid) = r then 1 else 0) + (if p = r then 1 else 0)"
    and ext: "\<And>r. extendedSize (v_info v' r)
      = extendedSize (v_info v r) - (if vl_op (v_array v lid) = r then 1 else 0) + (if po = r then 1 else 0)"
  shows "v_exact n v'"
proof -
  let ?f = "\<lambda>i. vl_p (v_array v i)" and ?g = "\<lambda>i. vl_op (v_array v i)"
  have f: "(\<lambda>i. vl_p (v_array v' i)) = ?f(lid := p)" and g: "(\<lambda>i. vl_op (v_array v' i)) = ?g(lid := po)"
    using own by auto
  show ?thesis
    unfolding v_exact_def f g using ok psize_upd64 [OF l, of ?f p] psize_upd64 [OF l, of ?g po]
    by (simp add: v_exact_def size ext)
qed

lemma v_hit_exact:
  assumes ok: "v_exact n v" "lid < n" and r: "v_hit gp lid req v = Inr v'"
  shows "v_exact n v'"
proof (cases "vl_p (v_array v lid) = v_partitions v")
  case True
  then obtain p where "gp req = Inr p" using r by (auto simp: v_hit_def Let_def res_simps)
  then have "v' = v_count p (\<lambda>i. i\<lparr>profHits := profHits i + 1\<rparr>)
      ((v_count (v_partitions v) (\<lambda>i. i\<lparr>pi_size := pi_size i - 1\<rparr>)
         (v_count p (\<lambda>i. i\<lparr>curIntervalIns := curIntervalIns i + 1, pi_size := pi_size i + 1\<rparr>)
           (v\<lparr>profPromotions := profPromotions v + 1\<rparr>)))
       \<lparr>v_array := (v_array v)(lid := (v_array v lid)\<lparr>vl_p := p, vl_ts := v_timestamp v\<rparr>), v_timestamp := v_timestamp v + 1\<rparr>)"
    using r True by (simp add: v_hit_def Let_def v_count_def)
  then show ?thesis
    using True by (intro v_move_exact [OF ok, of v' p "vl_op (v_array v lid)"]) auto
next
  case False
  then show ?thesis
    using r by (intro v_move_exact [OF ok, of v' "vl_p (v_array v lid)" "vl_op (v_array v lid)"]) (auto simp: v_hit_def Let_def)
qed

lemma v_fill_exact:
  assumes ok: "v_exact n v" "lid < n" and r: "v_fill gp lid req v = Inr v'"
  shows "v_exact n v'"
proof -
  obtain p where p: "gp req = Inr p" using r by (auto simp: v_fill_def Let_def res_simps)
  define v2 where "v2 = v_enter p lid v"
  have "v_exact n v2"
    by (rule v_move_exact [OF ok, of v2 p p]) (auto simp: v2_def v_enter_def Let_def)
  moreover have "v_same v2 v'"
  proof (cases "targetSize (v_info v2 p) < longTermTargetSize (v_info v2 p)")
    case True
    then have "v_takeOneLine (v_count p (\<lambda>i. i\<lparr>targetSize := targetSize i + 1\<rparr>) v2) = Inr v'"
      using r p by (simp add: v_fill_def Let_def res_simps v2_def)
    from v_takeOneLine_same [OF this] have "v_same (v_count p (\<lambda>i. i\<lparr>targetSize := targetSize i + 1\<rparr>) v2) v'" .
    moreover have "v_same v2 (v_count p (\<lambda>i. i\<lparr>targetSize := targetSize i + 1\<rparr>) v2)" by (simp add: v_same_def)
    ultimately show ?thesis using v_same_trans by blast
  next
    case False
    then show ?thesis using r p by (simp add: v_fill_def Let_def v2_def)
  qed
  ultimately show ?thesis using v_same_exact by blast
qed

lemma vantage_update_exact:
  assumes ok: "v_exact n v" and l: "lid < n" and r: "vantage_update gp mon g lid req v = Inr v'"
  shows "v_exact n v'"
proof -
  let ?v0 = "v_size_cycles g v"
  have v0: "v_exact n ?v0" by (rule v_same_exact [OF v_size_cycles_same ok])
  obtain v1 m where v1: "(if 0 < vl_ts (v_array ?v0 lid) then v_hit gp lid req ?v0 else v_fill gp lid req ?v0) = Inr v1"
    and v': "v' = v_stamp lid (v1\<lparr>v_monitor := m\<rparr>)"
    using r by (auto simp: vantage_update_def Let_def res_simps)
  have "v_exact n v1" using v1 v_hit_exact [OF v0 l] v_fill_exact [OF v0 l] by (auto split: if_splits)
  then have "v_exact n (v1\<lparr>v_monitor := m\<rparr>)" by (simp add: v_exact_def)
  then show ?thesis unfolding v' by (rule v_same_exact [OF v_stamp_same])
qed

lemma v_demote_exact: "v_exact n v \<Longrightarrow> lid < n \<Longrightarrow> v_exact n (v_demote lid v)"
  by (rule v_move_exact [of n v lid _ "v_partitions v" "vl_op (v_array v lid)"]) (auto simp: v_demote_def Let_def)

lemma v_consider_exact:
  assumes ok: "v_exact n v" and l: "lid < n" and r: "v_consider fl lid v = Inr v'"
  shows "v_exact n v'"
proof -
  let ?p = "vl_p (v_array v lid)" and ?v1 = "if v_must_demote (v_info v (vl_p (v_array v lid))) (v_array v lid) then v_demote lid v else v"
  have v1: "v_exact n ?v1" using v_demote_exact [OF ok l] ok by simp
  then have v2: "v_exact n (v_count ?p (\<lambda>i. i\<lparr>curIntervalCands := curIntervalCands i + 1\<rparr>) ?v1)"
    by (rule v_same_exact [rotated]) (simp add: v_same_def)
  show ?thesis
  proof (cases "v' = v")
    case False
    then have "v_interval fl ?p (v_count ?p (\<lambda>i. i\<lparr>curIntervalCands := curIntervalCands i + 1\<rparr>) ?v1) = Inr v'"
      using r by (auto simp: v_consider_def Let_def split: if_splits)
    then show ?thesis using v_interval_same v_same_exact v2 by blast
  qed (use ok in simp)
qed

lemma v_getBest_exact:
  assumes ok: "v_exact n v" and l: "\<forall>c\<in>set (candList v). c < n" and r: "v_getBestCandidate fl v = Inr (c, v')"
  shows "v_exact n v'"
proof -
  have "rfold (v_consider fl) (candList v) v = Inr v'"
    using r by (auto simp: v_getBestCandidate_def Let_def res_simps)
  then show ?thesis
    by (rule rfold_invariant [where P = "v_exact n"]) (use ok l v_consider_exact in blast)+
qed

lemma v_replaced_same: "v_same v (v_replaced lid v)"
  by (simp add: v_replaced_def v_same_def)

lemma v_record_same: "v_recordCandidate c v = Inr v' \<Longrightarrow> v_same v v' \<and> candList v' = candList v @ [c]"
  by (auto simp: v_recordCandidate_def res_simps v_same_def)

lemma v_records:
  "rfold v_recordCandidate cs v = Inr v' \<Longrightarrow> v_same v v' \<and> candList v' = candList v @ cs"
proof (induction cs arbitrary: v)
  case (Cons c cs)
  then obtain v1 where v1: "v_recordCandidate c v = Inr v1" "rfold v_recordCandidate cs v1 = Inr v'" by (auto simp: res_simps)
  from v_record_same [OF v1(1)] Cons.IH [OF v1(2)] show ?case using v_same_trans by auto
qed simp

lemma vantage_rank_exact:
  assumes ok: "v_exact n v" and l: "\<forall>c\<in>set (candList v). c < n" "\<forall>c\<in>set cands. c < n" and r: "vantage_rank fl req cands v = Inr (c, v')"
  shows "v_exact n v'"
proof -
  obtain v1 where v1: "rfold v_recordCandidate cands (v_startReplacement req v) = Inr v1" "v_getBestCandidate fl v1 = Inr (c, v')"
    using r by (auto simp: vantage_rank_def res_simps)
  have s: "v_same v (v_startReplacement req v)" "candList (v_startReplacement req v) = candList v"
    by (simp_all add: v_startReplacement_def v_same_def)
  have "v_exact n v1" using v_records [OF v1(1)] s v_same_trans v_same_exact ok by blast
  moreover have "\<forall>c\<in>set (candList v1). c < n" using v_records [OF v1(1)] s l by auto
  ultimately show ?thesis using v1(2) v_getBest_exact by blast
qed

inductive vantage_step :: "(rat \<Rightarrow> rat) \<Rightarrow> (mem_req \<Rightarrow> nat res) \<Rightarrow> (nat \<Rightarrow> address \<Rightarrow> 'm \<Rightarrow> 'm res) \<Rightarrow> nat \<Rightarrow> 'm vantage \<Rightarrow> 'm vantage \<Rightarrow> bool"
  for fl gp mon n where
  update: "lid < n \<Longrightarrow> vantage_update gp mon g lid req v = Inr v' \<Longrightarrow> vantage_step fl gp mon n v v'"
| rank: "\<forall>c\<in>set cands. c < n \<Longrightarrow> vantage_rank fl req cands v = Inr (c, v') \<Longrightarrow> vantage_step fl gp mon n v v'"
| replaced: "lid < n \<Longrightarrow> vantage_step fl gp mon n v (v_replaced lid v)"
| resize: "vantage_setPartitionSizes sizes v = Inr v' \<Longrightarrow> vantage_step fl gp mon n v v'"

text \<open>The recorded candidates are lines of the cache; only recording and replacing changes them.\<close>

definition v_inv :: "nat \<Rightarrow> 'm vantage \<Rightarrow> bool" where
  "v_inv n v \<longleftrightarrow> v_exact n v \<and> (\<forall>c\<in>set (candList v). c < n)"

lemma v_take_from_cands: "v_take_from l v ps c = Inr v' \<Longrightarrow> candList v' = candList v"
  by (induction ps arbitrary: c) (auto simp: Let_def split: if_splits)

lemma v_takeOneLine_cands: "v_takeOneLine v = Inr v' \<Longrightarrow> candList v' = candList v"
  by (auto simp: v_takeOneLine_def Let_def res_simps split: option.splits dest!: v_take_from_cands)

lemma vantage_update_cands: "vantage_update gp mon g lid req v = Inr v' \<Longrightarrow> candList v' = candList v"
proof -
  assume r: "vantage_update gp mon g lid req v = Inr v'"
  have h: "v_hit gp lid req v0 = Inr v1 \<Longrightarrow> candList v1 = candList v0" for v0 v1 :: "'a vantage"
    by (auto simp: v_hit_def Let_def res_simps split: if_splits)
  have f: "v_fill gp lid req v0 = Inr v1 \<Longrightarrow> candList v1 = candList v0" for v0 v1 :: "'a vantage"
    by (auto simp: v_fill_def Let_def res_simps v_enter_def split: if_splits dest!: v_takeOneLine_cands)
  have "candList (v_size_cycles g v) = candList v" "candList (v_stamp lid w) = candList w" for w :: "'a vantage"
    by (simp_all add: v_size_cycles_def v_stamp_def Let_def)
  with r h f show ?thesis by (auto simp: vantage_update_def Let_def res_simps split: if_splits)
qed

lemma v_set_targets_cands: "candList (snd (fold (v_set_target sizes) ps lv)) = candList (snd lv)"
  by (induction ps arbitrary: lv) (auto simp: v_set_target_def case_prod_beta Let_def)

lemma vantage_resize_cands: "vantage_setPartitionSizes sizes v = Inr v' \<Longrightarrow> candList v' = candList v"
proof -
  assume r: "vantage_setPartitionSizes sizes v = Inr v'"
  obtain l v1 where f: "fold (v_set_target sizes) [0..<v_partitions v] (0, v) = (l, v1)" by force
  then have s: "candList v1 = candList v" using v_set_targets_cands [of sizes "[0..<v_partitions v]" "(0, v)"] by simp
  have "rfold (\<lambda>_. v_takeOneLine) [0..<unat l] v1 = Inr v'" using r f by (simp add: vantage_setPartitionSizes_def)
  then show ?thesis
    by (rule rfold_invariant [where P = "\<lambda>w. candList w = candList v"]) (use s in simp, metis v_takeOneLine_cands)
qed

text \<open>What one candidate changes.\<close>

lemma v_consider_frame:
  assumes r: "v_consider fl lid v = Inr v'"
  shows "candList v' = candList v \<and> v_partitions v' = v_partitions v
    \<and> (\<forall>i. vl_ts (v_array v' i) = vl_ts (v_array v i)) \<and> (\<forall>q. targetSize (v_info v' q) = targetSize (v_info v q))"
proof -
  let ?p = "vl_p (v_array v lid)" and ?v1 = "if v_must_demote (v_info v (vl_p (v_array v lid))) (v_array v lid) then v_demote lid v else v"
  let ?v2 = "v_count ?p (\<lambda>i. i\<lparr>curIntervalCands := curIntervalCands i + 1\<rparr>) ?v1"
  have v1: "candList ?v2 = candList v \<and> v_partitions ?v2 = v_partitions v
    \<and> (\<forall>i. vl_ts (v_array ?v2 i) = vl_ts (v_array v i)) \<and> (\<forall>q. targetSize (v_info ?v2 q) = targetSize (v_info v q))"
    by (simp add: v_demote_def Let_def)
  show ?thesis
  proof (cases "v' = v")
    case False
    then have i: "v_interval fl ?p ?v2 = Inr v'" using r by (auto simp: v_consider_def Let_def split: if_splits)
    moreover have "candList v' = candList ?v2" using i by (auto simp: v_interval_def res_simps split: if_splits)
    ultimately show ?thesis using v_interval_same [OF i] v1 by auto
  qed simp
qed

lemma ucast_u32_small: "unat (x :: u64) < 2 ^ 32 \<Longrightarrow> (ucast (ucast x :: u32) :: u64) = x"
  by (simp add: word_unat_eq_iff unsigned_ucast_eq unsigned_take_bit_eq take_bit_nat_eq_self)

lemma below_pred: "\<not> x \<le> t \<Longrightarrow> t \<le> x - (1 :: u64)"
  by (cases "x = 0") (simp_all add: word_le_nat_alt unat_minus_one)

lemma v_consider_target:
  assumes ok: "v_exact n v" and n: "n < 2 ^ 32" and r: "v_consider fl lid v = Inr v'" and q: "q \<noteq> v_partitions v"
  shows "pi_size (v_info v' q) = pi_size (v_info v q) \<or> targetSize (v_info v q) \<le> pi_size (v_info v' q)"
proof (cases "v' = v")
  case False
  let ?p = "vl_p (v_array v lid)" and ?v1 = "if v_must_demote (v_info v (vl_p (v_array v lid))) (v_array v lid) then v_demote lid v else v"
  let ?v2 = "v_count ?p (\<lambda>i. i\<lparr>curIntervalCands := curIntervalCands i + 1\<rparr>) ?v1"
  have i: "v_interval fl ?p ?v2 = Inr v'" and big: "\<not> ucast (ucast (pi_size (v_info v ?p)) :: u32) \<le> targetSize (v_info v ?p)"
    using r False by (auto simp: v_consider_def Let_def split: if_splits)
  have s: "pi_size (v_info v' q) = pi_size (v_info ?v1 q)" using v_interval_same [OF i] by (auto simp: v_same_def)
  have "unat (pi_size (v_info v ?p)) < 2 ^ 32"
  proof -
    have "psize n (\<lambda>i. vl_p (v_array v i)) ?p < 2 ^ 32" using psize_le n by (rule le_less_trans)
    then show ?thesis using ok by (simp add: v_exact_def unat_of_nat take_bit_nat_eq_self)
  qed
  then have "\<not> pi_size (v_info v ?p) \<le> targetSize (v_info v ?p)" using big by (simp only: ucast_u32_small simp_thms)
  then have "targetSize (v_info v ?p) \<le> pi_size (v_info v ?p) - 1"
    by (rule below_pred)
  then show ?thesis using s q by (auto simp: v_demote_def Let_def)
qed simp

lemma v_considers:
  assumes ok: "v_exact n v" and l: "\<forall>c\<in>set cs. c < n" and n: "n < 2 ^ 32" and r: "rfold (v_consider fl) cs v = Inr v'"
  shows "v_exact n v' \<and> candList v' = candList v \<and> v_partitions v' = v_partitions v
    \<and> (\<forall>i. vl_ts (v_array v' i) = vl_ts (v_array v i))
    \<and> (\<forall>q. q \<noteq> v_partitions v \<longrightarrow> pi_size (v_info v' q) = pi_size (v_info v q) \<or> targetSize (v_info v q) \<le> pi_size (v_info v' q))"
    (is "?P v'")
proof -
  let ?Q = "\<lambda>w. ?P w \<and> (\<forall>q. targetSize (v_info w q) = targetSize (v_info v q))"
  have "?Q v'"
  proof (rule rfold_invariant [OF r, where P = ?Q])
    show "?Q v" using ok by simp
  next
    fix c w w'
    assume c: "c \<in> set cs" and w: "?Q w" and st: "v_consider fl c w = Inr w'"
    have "c < n" using c l by blast
    then have e: "v_exact n w'" using v_consider_exact w st by blast
    note fr = v_consider_frame [OF st]
    have "pi_size (v_info w' q) = pi_size (v_info v q) \<or> targetSize (v_info v q) \<le> pi_size (v_info w' q)"
      if q: "q \<noteq> v_partitions v" for q
      using v_consider_target [OF _ n st, of q] w q by auto
    then show "?Q w'" using e fr w by simp
  qed
  then show ?thesis by blast
qed

text \<open>\<open>a\<close> is at least as good a victim as \<open>b\<close>: unmanaged lines first, then older ones.\<close>

definition van_le :: "'m vantage \<Rightarrow> nat \<Rightarrow> nat \<Rightarrow> bool" where
  "van_le v a b \<longleftrightarrow>
     (vl_p (v_array v a) = v_partitions v \<and> vl_p (v_array v b) \<noteq> v_partitions v)
     \<or> ((vl_p (v_array v a) = v_partitions v \<longleftrightarrow> vl_p (v_array v b) = v_partitions v) \<and> vl_ts (v_array v a) \<le> vl_ts (v_array v b))"

lemma van_le_refl [simp]: "van_le v a a"
  by (simp add: van_le_def)

lemma van_le_trans: "van_le v a b \<Longrightarrow> van_le v b c \<Longrightarrow> van_le v a c"
  by (auto simp: van_le_def)

lemma v_better_le: "van_le v (v_better v l b) l" "van_le v (v_better v l b) b" "v_better v l b = l \<or> v_better v l b = b"
  by (auto simp: v_better_def Let_def van_le_def)

lemma v_search_empty: "\<exists>l\<in>set ids. vl_ts (v_array v l) = 0 \<Longrightarrow> v_search v ids b \<in> set ids \<and> vl_ts (v_array v (v_search v ids b)) = 0"
  by (induction ids arbitrary: b) auto

lemma v_search_best:
  assumes "\<forall>l\<in>set ids. vl_ts (v_array v l) \<noteq> 0"
  shows "v_search v ids b \<in> insert b (set ids) \<and> (\<forall>l\<in>insert b (set ids). van_le v (v_search v ids b) l)"
  using assms
proof (induction ids arbitrary: b)
  case (Cons l ids)
  let ?b = "v_better v l b"
  have ih: "v_search v ids ?b \<in> insert ?b (set ids)" "\<And>x. x \<in> insert ?b (set ids) \<Longrightarrow> van_le v (v_search v ids ?b) x"
    using Cons.IH [of ?b] Cons.prems by auto
  have "van_le v (v_search v ids ?b) ?b" by (rule ih(2)) simp
  then have "van_le v (v_search v ids ?b) l" "van_le v (v_search v ids ?b) b"
    using van_le_trans v_better_le(1,2) by blast+
  then show ?case using ih v_better_le(3) [of v l b] Cons.prems by auto
qed simp

lemma vantage_step_inv: "vantage_step fl gp mon n v v' \<Longrightarrow> v_inv n v \<Longrightarrow> v_inv n v'"
proof (induction rule: vantage_step.induct)
  case (update lid g req v v')
  then show ?case using vantage_update_exact vantage_update_cands by (metis v_inv_def)
next
  case (rank cands req v c v')
  obtain v1 where v1: "rfold v_recordCandidate cands (v_startReplacement req v) = Inr v1" "v_getBestCandidate fl v1 = Inr (c, v')"
    using rank(2) by (auto simp: vantage_rank_def res_simps)
  obtain w where w: "rfold (v_consider fl) (candList v1) v1 = Inr w" "v' = w"
    using v1(2) by (auto simp: v_getBestCandidate_def Let_def res_simps)
  have "candList v' = candList v1"
    using rfold_invariant [OF w(1), where P = "\<lambda>u. candList u = candList v1"] v_consider_frame w(2) by metis
  also have "\<dots> = candList v @ cands" using v_records [OF v1(1)] by (simp add: v_startReplacement_def)
  finally show ?case using vantage_rank_exact [OF _ _ rank(1,2)] rank.prems rank(1) by (auto simp: v_inv_def)
next
  case (replaced lid v)
  then show ?case using v_same_exact [OF v_replaced_same] by (auto simp: v_inv_def v_replaced_def)
next
  case (resize sizes v v')
  then show ?case using v_same_exact [OF v_setPartitionSizes_same] vantage_resize_cands by (metis v_inv_def)
qed

lemma vantage_init_inv: "vantage_init fl m parts lines assoc a b c g s = Inr v \<Longrightarrow> v_inv (unat lines) v"
  by (auto simp: vantage_init_def Let_def res_simps v_inv_def v_exact_def psize_const vantage_info0_def)

lemma vantage_reachable:
  assumes "vantage_init fl m parts lines assoc a b c g s = Inr v0" and "(vantage_step fl gp mon (unat lines))\<^sup>*\<^sup>* v0 v"
  shows "v_inv (unat lines) v"
  using assms(2)
proof induction
  case base
  show ?case by (rule vantage_init_inv [OF assms(1)])
next
  case (step v v')
  show ?case by (rule vantage_step_inv [OF step.hyps(2) step.IH])
qed

text \<open>
  C36. Vantage keeps exact sizes: after any sequence of hits, promotions, misses, demotions and
  repartitionings, the size of every partition and of the unmanaged region is the number of
  lines it holds, and the extended size counts the lines that were inserted for it, demoted
  or not.
\<close>

theorem vantage_sizes_exact:
  assumes "vantage_init fl m parts lines assoc a b c g s = Inr v0" and "(vantage_step fl gp mon (unat lines))\<^sup>*\<^sup>* v0 v"
  shows "unat (pi_size (v_info v p)) = card {i. i < unat lines \<and> vl_p (v_array v i) = p}
    \<and> unat (extendedSize (v_info v p)) = card {i. i < unat lines \<and> vl_op (v_array v i) = p}"
proof -
  have "psize (unat lines) f p < 2 ^ 64" for f :: "nat \<Rightarrow> nat"
    using psize_le [of "unat lines"] unat_less_exp [of lines] by (rule le_less_trans [OF _ less_trans]) simp_all
  then have u: "unat (of_nat (psize (unat lines) f p) :: u64) = psize (unat lines) f p" for f :: "nat \<Rightarrow> nat"
    by (simp add: unat_of_nat take_bit_nat_eq_self)
  have "v_exact (unat lines) v" using vantage_reachable [OF assms] by (simp add: v_inv_def)
  then show ?thesis by (simp add: v_exact_def u) (simp add: psize_def)
qed

text \<open>
  C37. The victim of Vantage: an empty candidate if there is one, otherwise the oldest candidate of
  the unmanaged region (demotions of this replacement included), otherwise the oldest
  candidate. Demoting never takes a partition below its target size.
\<close>

theorem vantage_victim:
  assumes init: "vantage_init fl m parts lines assoc a b c0 g s = Inr v0"
    and reach: "(vantage_step fl gp mon (unat lines))\<^sup>*\<^sup>* v0 v" and idle: "candList v = []"
    and cands: "\<forall>c\<in>set cands. c < unat lines" and r: "vantage_rank fl req cands v = Inr (c, v')"
  shows "c \<in> set cands
    \<and> (if \<exists>l\<in>set cands. vl_ts (v_array v l) = 0 then vl_ts (v_array v c) = 0 else \<forall>l\<in>set cands. van_le v' c l)
    \<and> (\<forall>p. p \<noteq> v_partitions v \<longrightarrow> pi_size (v_info v' p) = pi_size (v_info v p) \<or> targetSize (v_info v p) \<le> pi_size (v_info v' p))"
proof -
  have inv: "v_inv (unat lines) v" by (rule vantage_reachable [OF init reach])
  obtain v1 where v1: "rfold v_recordCandidate cands (v_startReplacement req v) = Inr v1" "v_getBestCandidate fl v1 = Inr (c, v')"
    using r by (auto simp: vantage_rank_def res_simps)
  have rec: "\<And>s s' x. v_recordCandidate x s = Inr s' \<Longrightarrow> v_info s' = v_info s \<and> v_array s' = v_array s \<and> v_partitions s' = v_partitions s"
    by (auto simp: v_recordCandidate_def res_simps)
  have same: "v_info v1 = v_info v \<and> v_array v1 = v_array v \<and> v_partitions v1 = v_partitions v"
    by (rule rfold_invariant [OF v1(1), where P = "\<lambda>w. v_info w = v_info v \<and> v_array w = v_array v \<and> v_partitions w = v_partitions v"])
      (simp add: v_startReplacement_def, metis rec)
  have cl: "candList v1 = cands" using v_records [OF v1(1)] idle by (simp add: v_startReplacement_def)
  have ne: "0 < length cands" and fold: "rfold (v_consider fl) cands v1 = Inr v'" and c: "c = v_search v' (candList v') (candList v' ! 0)"
    using v1(2) by (auto simp: v_getBestCandidate_def Let_def res_simps cl)
  have ex: "v_exact (unat lines) v1" using inv same by (simp add: v_inv_def v_exact_def)
  have "unat lines < 2 ^ 32" using unat_less_exp [of lines] by simp
  note con = v_considers [OF ex cands this fold]
  have cv: "candList v' = cands" and ts: "\<And>i. vl_ts (v_array v' i) = vl_ts (v_array v i)" using con cl same by auto
  have hd: "cands ! 0 \<in> set cands" using ne by simp
  show ?thesis
  proof (cases "\<exists>l\<in>set cands. vl_ts (v_array v l) = 0")
    case True
    then show ?thesis using v_search_empty [of cands v' "cands ! 0"] con same by (simp add: c cv ts)
  next
    case False
    then show ?thesis using v_search_best [of cands v' "cands ! 0"] con same hd by (auto simp: c cv ts)
  qed
qed

text \<open>A sixteen-line cache of two partitions: a first miss on line 3.\<close>

lemma vantage_example:
  obtains v0 v1 v2 :: "unit vantage" where "vantage_init id () 2 16 4 90 10 50 256 False = Inr v0"
    and "vantage_rank id (wp_example_req 1) [3, 7] v0 = Inr (3, v1)"
    and "vantage_update core_getPartition (\<lambda>_ _. Inr) 0 3 (wp_example_req 1) (v_replaced 3 v1) = Inr v2"
    and "candList v0 = []"
proof -
  obtain v0 :: "unit vantage" where v0: "vantage_init id () 2 16 4 90 10 50 256 False = Inr v0" by (simp add: vantage_init_def Let_def)
  then have f: "candList v0 = []" "v_assoc v0 = 4" "v_totalSize v0 = 16" "\<And>i. vl_ts (v_array v0 i) = 0" "smoothTransients v0 = False"
    "\<And>p. targetSize (v_info v0 p) = longTermTargetSize (v_info v0 p)"
    by (auto simp: vantage_init_def Let_def vantage_info0_def)
  define v1 where "v1 = v0\<lparr>v_incomingLineAddr := 77, candList := [3, 7]\<rparr>"
  have r1: "vantage_rank id (wp_example_req 1) [3, 7] v0 = Inr (3, v1)"
    by (simp add: vantage_rank_def v_startReplacement_def v_recordCandidate_def wp_example_req_def v_getBestCandidate_def
        v_consider_def f v1_def Let_def)
  have "\<exists>v2. vantage_update core_getPartition (\<lambda>_ _. Inr) 0 3 (wp_example_req 1) (v_replaced 3 v1) = Inr v2"
    by (simp add: vantage_update_def v_size_cycles_def v_fill_def v_enter_def core_getPartition_def v_replaced_def v1_def f Let_def)
  with v0 r1 f(1) that show thesis by blast
qed

theorem vantage_sizes_exact_witness:
  "\<exists>(v0 :: unit vantage) v1 v2. vantage_init id () 2 16 4 90 10 50 256 False = Inr v0
    \<and> vantage_rank id (wp_example_req 1) [3, 7] v0 = Inr (3, v1)
    \<and> vantage_update core_getPartition (\<lambda>_ _. Inr) 0 3 (wp_example_req 1) (v_replaced 3 v1) = Inr v2
    \<and> unat (pi_size (v_info v2 1)) = card {i. i < unat (16 :: u32) \<and> vl_p (v_array v2 i) = 1}"
proof -
  obtain v0 v1 v2 :: "unit vantage" where v: "vantage_init id () 2 16 4 90 10 50 256 False = Inr v0"
    "vantage_rank id (wp_example_req 1) [3, 7] v0 = Inr (3, v1)"
    "vantage_update core_getPartition (\<lambda>_ _. Inr) 0 3 (wp_example_req 1) (v_replaced 3 v1) = Inr v2"
    by (rule vantage_example)
  let ?S = "vantage_step id core_getPartition (\<lambda>_ _. Inr) (unat (16 :: u32))"
  have l: "3 < unat (16 :: u32)" "\<forall>c\<in>set [3, 7]. c < unat (16 :: u32)" by simp_all
  have "?S v0 v1" by (rule vantage_step.rank [OF l(2) v(2)])
  then have "?S\<^sup>*\<^sup>* v0 v1" ..
  moreover have "?S v1 (v_replaced 3 v1)" by (rule vantage_step.replaced [OF l(1)])
  moreover have "?S (v_replaced 3 v1) v2" by (rule vantage_step.update [OF l(1) v(3)])
  ultimately have "?S\<^sup>*\<^sup>* v0 v2" by (rule rtranclp.rtrancl_into_rtrancl [OF rtranclp.rtrancl_into_rtrancl])
  from vantage_sizes_exact [OF v(1) this, of 1] v show ?thesis by blast
qed

theorem vantage_victim_witness:
  "\<exists>(v0 :: unit vantage) v1. vantage_init id () 2 16 4 90 10 50 256 False = Inr v0
    \<and> vantage_rank id (wp_example_req 1) [3, 7] v0 = Inr (3, v1) \<and> 3 \<in> set [3, 7 :: nat]
    \<and> (pi_size (v_info v1 0) = pi_size (v_info v0 0) \<or> targetSize (v_info v0 0) \<le> pi_size (v_info v1 0))"
proof -
  obtain v0 v1 v2 :: "unit vantage" where v: "vantage_init id () 2 16 4 90 10 50 256 False = Inr v0"
    "vantage_rank id (wp_example_req 1) [3, 7] v0 = Inr (3, v1)" "candList v0 = []"
    by (rule vantage_example)
  have "v_partitions v0 = 2" using v(1) by (auto simp: vantage_init_def Let_def)
  then show ?thesis
    using vantage_victim [where gp = core_getPartition and mon = "\<lambda>_ _. Inr", OF v(1) rtranclp.rtrancl_refl v(3) _ v(2)] v by auto
qed

end
