(* ===== verification/Prefetcher.thy ===== *)
theory Prefetcher
  imports MemTypes
begin

section \<open>The stream prefetcher\<close>

text \<open>
  \<open>StreamPrefetcher\<close> (prefetcher.h, prefetcher.cpp) stands between a cache and its parent. It
  keeps 16 stream entries, one for each page of 64 lines it follows, and issues prefetches to
  the parent when the distance of successive accesses is stable. The parent is an argument: a
  function of the request and of its own state, that answers with the cycle of the response
  and with what it writes to the \<open>MESIState\<close> of the requester. Strides and positions are 32-bit
  words; the code mixes \<open>int32_t\<close> and \<open>uint32_t\<close>, so that its sums are modular and its one
  division is unsigned.
\<close>

subsection \<open>Entries\<close>

record pf_entry =
  stride :: u32
  conf :: int
  times :: "nat \<Rightarrow> u64 \<times> u64"
  pf_valid :: "nat \<Rightarrow> bool"
  lastPos :: u32
  lastLastPos :: u32
  lastPrefetchPos :: u32
  lastCycle :: u64
  pf_ts :: u64

record pf_counters =
  pf_acc :: u64
  pf_issued :: u64
  pf_double :: u64
  pf_pageHits :: u64
  pf_hits :: u64
  pf_shortHits :: u64
  pf_strideSwitches :: u64
  pf_lowConf :: u64

record stream_pf =
  pf_timestamp :: u64
  pf_tag :: "nat \<Rightarrow> address"
  pf_array :: "nat \<Rightarrow> pf_entry"
  pf_childId :: nat
  pf_prof :: pf_counters

text \<open>The saturating counter, with maximum 3, threshold 2 and initial value 1.\<close>

definition sat_dec :: "int \<Rightarrow> int" where "sat_dec n = max (n - 1) 0"

definition sat_inc :: "int \<Rightarrow> int" where "sat_inc n = min (n + 1) 3"

definition sat_pred :: "int \<Rightarrow> bool" where "sat_pred n \<longleftrightarrow> 2 \<le> n"

definition entry_alloc :: "u64 \<Rightarrow> pf_entry \<Rightarrow> pf_entry" where
  "entry_alloc curCycle e = e\<lparr>stride := 1, lastPos := 0, lastLastPos := 0, lastPrefetchPos := 0,
     conf := 1, pf_valid := (\<lambda>_. False), lastCycle := curCycle\<rparr>"

definition entry_fill :: "u32 \<Rightarrow> u64 \<Rightarrow> u64 \<Rightarrow> pf_entry \<Rightarrow> pf_entry" where
  "entry_fill p start resp e = e\<lparr>pf_valid := (pf_valid e)(unat p := True),
     times := (times e)(unat p := (ucast (ucast start :: u32), resp))\<rparr>"

text \<open>The last of the 16 entries with the page, and the least recently used one that is not warm.\<close>

definition pf_find :: "address \<Rightarrow> stream_pf \<Rightarrow> nat" where
  "pf_find page pf = foldl (\<lambda>idx i. if page = pf_tag pf i then i else idx) 16 [0..<16]"

definition pf_victim :: "u64 \<Rightarrow> stream_pf \<Rightarrow> nat" where
  "pf_victim reqCycle pf = fst (foldl (\<lambda>(cand, score) i.
     if lastCycle (pf_array pf i) > reqCycle + 500 then (cand, score)
     else if pf_ts (pf_array pf i) < score then (i, pf_ts (pf_array pf i)) else (cand, score)) (16, -1) [0..<16])"

definition set_pf_entry :: "nat \<Rightarrow> pf_entry \<Rightarrow> stream_pf \<Rightarrow> stream_pf" where
  "set_pf_entry i e pf = pf\<lparr>pf_array := (pf_array pf)(i := e)\<rparr>"

definition pf_count :: "(pf_counters \<Rightarrow> pf_counters) \<Rightarrow> stream_pf \<Rightarrow> stream_pf" where
  "pf_count f pf = pf\<lparr>pf_prof := f (pf_prof pf)\<rparr>"

subsection \<open>An access\<close>

type_synonym 'h parent = "mem_req \<Rightarrow> 'h \<Rightarrow> (u64 \<times> mesi \<times> 'h) res"

text \<open>An entry miss.\<close>

definition pf_miss :: "address \<Rightarrow> u32 \<Rightarrow> u64 \<Rightarrow> stream_pf \<Rightarrow> stream_pf" where
  "pf_miss page pos reqCycle pf = (let cand = pf_victim reqCycle pf
     in if cand < 16
        then (set_pf_entry cand ((entry_alloc reqCycle (pf_array pf cand))\<lparr>lastPos := pos, pf_ts := pf_timestamp pf\<rparr>) pf)
               \<lparr>pf_timestamp := pf_timestamp pf + 1, pf_tag := (pf_tag pf)(cand := page)\<rparr>
        else pf)"

text \<open>
  An entry hit, first part: a line that was prefetched answers when its prefetch does. The
  result is the response cycle and whether the prefetch was late.
\<close>

definition pf_take :: "u32 \<Rightarrow> u64 \<Rightarrow> pf_entry \<Rightarrow> u64 \<times> bool \<times> pf_entry" where
  "pf_take pos resp e = (if pf_valid e (unat pos)
     then let pfResp = snd (times e (unat pos)); resp1 = max pfResp resp
          in (resp1, pfResp > resp, e\<lparr>pf_valid := (pf_valid e)(unat pos := False), lastCycle := max resp1 (lastCycle e)\<rparr>)
     else (resp, False, e))"

text \<open>
  The distance in strides between the last prefetch and the last access: the difference of two
  \<open>uint32_t\<close> divided by an \<open>int32_t\<close>, which C computes without sign.
\<close>

definition pf_depth :: "pf_entry \<Rightarrow> u32 \<Rightarrow> u32" where
  "pf_depth e st = (lastPrefetchPos e - lastPos e) div st"

definition pf_request :: "mem_req \<Rightarrow> state_ref \<Rightarrow> u32 \<Rightarrow> u32 \<Rightarrow> mem_req" where
  "pf_request req local pos p = req\<lparr>lineAddr := lineAddr req + ucast p - ucast pos, r_type := GETS,
     state_ptr := local, initialState := I, flags := flag_mask PREFETCH\<rparr>"

text \<open>
  The prefetches of a confident entry. A division by zero stops the simulator, as a panic
  does.
\<close>

definition pf_issue :: "'h parent \<Rightarrow> state_ref \<Rightarrow> mem_req \<Rightarrow> u32 \<Rightarrow> u32 \<Rightarrow> bool \<Rightarrow> pf_entry \<Rightarrow> stream_pf \<Rightarrow> 'h
    \<Rightarrow> (pf_entry \<times> stream_pf \<times> 'h) res" where
  "pf_issue parent local req pos st short e pf h =
     (if st = 0 then Inl Panic
      else let fd0 = pf_depth e st;
               (p, fd) = (if sint fd0 < 1 then (pos + st, 1) else (lastPrefetchPos e + st, fd0))
           in if p < 64 \<and> \<not> pf_valid e (unat p)
              then rbind (parent (pf_request req local pos p) h) (\<lambda>(resp, s, h1).
                let e1 = entry_fill p (cycle req) resp e;
                    pf1 = pf_count (\<lambda>n. n\<lparr>pf_issued := pf_issued n + 1\<rparr>) pf
                in if short \<and> sint fd < 8 \<and> p + st < 64 \<and> \<not> pf_valid e1 (unat (p + st))
                   then let req2 = pf_request req local pos p in
                     rbind (parent (req2\<lparr>lineAddr := lineAddr req2 + scast st\<rparr>) h1) (\<lambda>(resp2, s2, h2).
                       assert_then (s2 = I)
                         (Inr ((entry_fill (p + st) (cycle req) resp2 e1)\<lparr>lastPrefetchPos := p + st\<rparr>,
                               pf_count (\<lambda>n. n\<lparr>pf_issued := pf_issued n + 1, pf_double := pf_double n + 1\<rparr>) pf1, h2)))
                   else assert_then (s = I) (Inr (e1\<lparr>lastPrefetchPos := p\<rparr>, pf1, h1)))
              else Inr (e, pf, h))"

text \<open>The second part: the predictor, and the prefetches.\<close>

definition pf_predict :: "'h parent \<Rightarrow> state_ref \<Rightarrow> mem_req \<Rightarrow> u32 \<Rightarrow> bool \<Rightarrow> pf_entry \<Rightarrow> stream_pf \<Rightarrow> 'h
    \<Rightarrow> (pf_entry \<times> stream_pf \<times> 'h) res" where
  "pf_predict parent local req pos short e pf h =
     (let st = pos - lastPos e
      in rbind (if stride e = st
           then let e1 = e\<lparr>conf := sat_inc (conf e)\<rparr>
                in if sat_pred (conf e1) then pf_issue parent local req pos st short e1 pf h
                   else Inr (e1, pf_count (\<lambda>n. n\<lparr>pf_lowConf := pf_lowConf n + 1\<rparr>) pf, h)
           else let e1 = e\<lparr>conf := sat_dec (conf e)\<rparr>;
                    switch = (\<not> sat_pred (conf e1) \<and> st \<noteq> 0 \<and> st \<noteq> stride e1 \<and> st = lastPos e1 - lastLastPos e1)
                in Inr ((if switch then e1\<lparr>conf := 1, stride := st\<rparr> else e1)\<lparr>lastPrefetchPos := pos\<rparr>,
                        (if switch then pf_count (\<lambda>n. n\<lparr>pf_strideSwitches := pf_strideSwitches n + 1\<rparr>) pf else pf), h))
         (\<lambda>(e2, pf2, h2). Inr (e2\<lparr>lastLastPos := lastPos e2, lastPos := pos\<rparr>, pf2, h2)))"

text \<open>
  \<open>StreamPrefetcher::access\<close>. The result is the response cycle, what the parent wrote to the
  requester's state, and the request as the caller finds it afterwards.
\<close>

definition pf_access :: "'h parent \<Rightarrow> state_ref \<Rightarrow> mem_req \<Rightarrow> stream_pf \<Rightarrow> 'h
    \<Rightarrow> (u64 \<times> mesi \<times> mem_req \<times> stream_pf \<times> 'h) res" where
  "pf_access parent local req pf h =
     (let req1 = req\<lparr>childId := pf_childId pf\<rparr>
      in if r_type req1 \<noteq> GETS
         then rbind (parent req1 h) (\<lambda>(resp, s, h1). Inr (resp, s, req1, pf, h1))
         else let pf1 = pf_count (\<lambda>n. n\<lparr>pf_acc := pf_acc n + 1\<rparr>) pf
              in rbind (parent req1 h) (\<lambda>(resp, s, h1).
                let page = drop_bit 6 (lineAddr req); pos = (ucast (lineAddr req AND (64 - 1)) :: u32);
                    idx = pf_find page pf1
                in if idx = 16 then Inr (resp, s, req, pf_miss page pos (cycle req) pf1, h1)
                   else let e0 = (pf_array pf1 idx)\<lparr>pf_ts := pf_timestamp pf1\<rparr>;
                            (resp1, short, e1) = pf_take pos resp e0;
                            hit = pf_valid e0 (unat pos);
                            pf2 = pf_count (\<lambda>n. n\<lparr>pf_pageHits := pf_pageHits n + 1,
                                    pf_hits := pf_hits n + of_bool hit, pf_shortHits := pf_shortHits n + of_bool short\<rparr>)
                                  (pf1\<lparr>pf_timestamp := pf_timestamp pf1 + 1\<rparr>)
                        in rbind (pf_predict parent local req1 pos short e1 pf2 h1) (\<lambda>(e2, pf3, h2).
                             Inr (resp1, s, req, set_pf_entry idx e2 pf3, h2))))"

text \<open>\<open>StreamPrefetcher::invalidate\<close> passes the call on to its child.\<close>

definition pf_invalidate :: "(inv_req \<Rightarrow> 'h \<Rightarrow> 'r) \<Rightarrow> inv_req \<Rightarrow> 'h \<Rightarrow> 'r" where
  "pf_invalidate child req = child req"

subsection \<open>Positions and pages\<close>

text \<open>A line at another position of the page, as the code computes its address.\<close>

lemma low_bits: "unat (a AND (64 - 1) :: address) = unat a mod 64"
proof -
  have "(64 - 1 :: address) = mask 6" by (simp add: mask_eq_exp_minus_1)
  then have "unat (a AND (64 - 1)) = unat (take_bit 6 a)" by (simp only: take_bit_eq_mask)
  also have "\<dots> = take_bit 6 (unat a)" by (rule unsigned_take_bit_eq)
  also have "\<dots> = unat a mod 64" by (simp add: take_bit_eq_mod)
  finally show ?thesis .
qed

lemma unat_pos: "unat (ucast (a AND (64 - 1) :: address) :: u32) = unat a mod 64"
proof -
  have "unat (ucast (a AND (64 - 1)) :: u32) = take_bit LENGTH(32) (unat a mod 64)"
    unfolding unsigned_ucast_eq low_bits ..
  moreover have "unat a mod 64 < 2 ^ LENGTH(32)" by (rule less_trans [of _ 64]) simp_all
  ultimately show ?thesis by (simp only: take_bit_nat_eq_self)
qed

lemma same_page:
  fixes a :: address and p :: u32
  assumes "p < 64"
  shows "drop_bit 6 (a + ucast p - ucast (ucast (a AND (64 - 1)) :: u32)) = drop_bit 6 a"
proof -
  define r where "r = unat a mod 64"
  define q where "q = unat a div 64"
  have a: "unat a = 64 * q + r" by (simp add: q_def r_def)
  have p: "unat p < 64" using assms by (simp add: word_less_nat_alt)
  have "unat a < 2 ^ 58 * 64" using unat_less_exp [of a] by simp
  then have "q < 2 ^ 58" unfolding q_def by (rule less_mult_imp_div_less)
  then have ql: "64 * q + 64 \<le> 2 ^ 64" by simp
  have "of_nat (unat a) = a" by simp
  then have "a = of_nat (64 * q + r)" unfolding a by (rule sym)
  moreover have "(ucast p :: address) = of_nat (unat p)" by (rule of_nat_unat [symmetric])
  moreover have "(ucast (ucast (a AND (64 - 1)) :: u32) :: address) = of_nat r"
    unfolding r_def unat_pos [symmetric] by (rule of_nat_unat [symmetric])
  ultimately have "a + ucast p - ucast (ucast (a AND (64 - 1)) :: u32) = of_nat (64 * q + unat p)"
    by (simp only: of_nat_add) simp
  moreover have "unat (of_nat (64 * q + unat p) :: address) = 64 * q + unat p"
  proof -
    have "64 * q + unat p < 2 ^ LENGTH(64)" using p ql by simp
    then show ?thesis by (simp only: unat_of_nat mod_less)
  qed
  ultimately have u: "unat (a + ucast p - ucast (ucast (a AND (64 - 1)) :: u32)) = 64 * q + unat p" by (simp only:)
  have d: "unat (drop_bit 6 w) = unat w div 64" for w :: address
  proof -
    have "take_bit LENGTH(64) (unat w) = unat w" using unat_less_exp [of w] by (rule take_bit_nat_eq_self)
    then have "unat (drop_bit 6 w) = drop_bit 6 (unat w)" by (simp only: unsigned_drop_bit_eq)
    then show ?thesis by (simp add: drop_bit_eq_div)
  qed
  have "unat (drop_bit 6 (a + ucast p - ucast (ucast (a AND (64 - 1)) :: u32))) = unat (drop_bit 6 a)"
    unfolding d u q_def [symmetric] using p by simp
  then show ?thesis by (simp only: word_unat_eq_iff)
qed

lemma next_pos:
  fixes p st :: u32
  assumes "p < 64" and "p + st < 64"
  shows "ucast p + (scast st :: u64) = ucast (p + st)"
proof -
  define q where "q = p + st"
  have u: "uint p < 64" "uint q < 64" "0 \<le> uint p" "0 \<le> uint q"
    using assms by (simp_all add: q_def word_less_def)
  have "st = q - p" by (simp add: q_def)
  moreover have "uint (q - p) = take_bit 32 (uint q - uint p)" by (simp add: uint_word_ariths take_bit_eq_mod)
  ultimately have "sint st = signed_take_bit 31 (uint q - uint p)"
    by (simp add: sint_uint signed_take_bit_take_bit del: take_bit_eq_mod)
  moreover have "- (2 ^ 31) \<le> uint q - uint p \<and> uint q - uint p < 2 ^ 31"
  proof -
    have "(2 :: int) ^ 31 = 2147483648" by simp
    then show ?thesis using u by linarith
  qed
  then have "signed_take_bit 31 (uint q - uint p) = uint q - uint p" by (intro signed_take_bit_int_eq_self) simp_all
  ultimately have s: "sint st = uint q - uint p" by (simp only:)
  have "(scast st :: u64) = of_int (sint st)" by simp
  also have "\<dots> = ucast q - ucast p" unfolding s by simp
  finally show ?thesis by (simp add: q_def)
qed
subsection \<open>What the prefetcher asks of its parent\<close>

text \<open>
  A parent that keeps the history of its requests and answers any function of it. Whatever a
  deterministic parent does is such a function.
\<close>

definition logging :: "(mem_req list \<Rightarrow> mem_req \<Rightarrow> u64 \<times> mesi) \<Rightarrow> mem_req list parent" where
  "logging f req l = Inr (fst (f l req), snd (f l req), l @ [req])"

definition page_prefetch :: "mem_req \<Rightarrow> mem_req \<Rightarrow> bool" where
  "page_prefetch req r \<longleftrightarrow> r_type r = GETS \<and> flags r = flag_mask PREFETCH
     \<and> drop_bit 6 (lineAddr r) = drop_bit 6 (lineAddr req)"

text \<open>Entries that were never allocated hold what the memory held; zeroed memory matches page 0.\<close>

definition pf_wf :: "stream_pf \<Rightarrow> bool" where
  "pf_wf pf \<longleftrightarrow> (\<forall>i<16. stride (pf_array pf i) = 0 \<longrightarrow> pf_tag pf i = 0)"

lemma pf_find_hit:
  assumes "pf_find page pf \<noteq> 16"
  shows "pf_find page pf < 16 \<and> pf_tag pf (pf_find page pf) = page"
proof -
  have "foldl (\<lambda>idx i. if page = pf_tag pf i then i else idx) 16 xs = 16
    \<or> (foldl (\<lambda>idx i. if page = pf_tag pf i then i else idx) 16 xs \<in> set xs
       \<and> pf_tag pf (foldl (\<lambda>idx i. if page = pf_tag pf i then i else idx) 16 xs) = page)" for xs :: "nat list"
    by (induction xs rule: rev_induct) auto
  from this [of "[0..<16]"] assms show ?thesis by (auto simp: pf_find_def)
qed

lemma request_page:
  assumes "pos = ucast (lineAddr req AND (64 - 1))" and "p < 64"
  shows "page_prefetch req (pf_request req local pos p)"
    and "p + st < 64 \<Longrightarrow> page_prefetch req ((pf_request req local pos p)
           \<lparr>lineAddr := lineAddr (pf_request req local pos p) + scast st\<rparr>)"
proof -
  show "page_prefetch req (pf_request req local pos p)"
    using same_page [OF assms(2), of "lineAddr req"] assms(1) by (simp add: page_prefetch_def pf_request_def)
  assume q: "p + st < 64"
  have "lineAddr req + ucast p - ucast pos + scast st = lineAddr req + (ucast p + scast st) - ucast pos" by simp
  also have "\<dots> = lineAddr req + ucast (p + st) - ucast pos" unfolding next_pos [OF assms(2) q] ..
  finally have e: "lineAddr req + ucast p - ucast pos + scast st = lineAddr req + ucast (p + st) - ucast pos" .
  have "lineAddr (pf_request req local pos p) + scast st = lineAddr req + ucast (p + st) - ucast pos"
    using e by (simp add: pf_request_def)
  then show "page_prefetch req ((pf_request req local pos p)
      \<lparr>lineAddr := lineAddr (pf_request req local pos p) + scast st\<rparr>)"
    using same_page [OF q, of "lineAddr req"] unfolding assms(1) [symmetric]
    by (simp only: page_prefetch_def pf_request_def mem_req.simps) simp
qed

lemma pf_issue_ok:
  assumes "st \<noteq> 0" and "pos = ucast (lineAddr req AND (64 - 1))"
    and "\<And>l r. flags r = flag_mask PREFETCH \<Longrightarrow> snd (f l r) = I"
  shows "\<exists>e' pf' rs. pf_issue (logging f) local req pos st short e pf l = Inr (e', pf', l @ rs)
    \<and> length rs \<le> 2 \<and> (\<forall>r\<in>set rs. page_prefetch req r)
    \<and> stride e' = stride e \<and> pf_array pf' = pf_array pf \<and> pf_tag pf' = pf_tag pf"
proof -
  obtain p fd where p: "(if sint (pf_depth e st) < 1 then (pos + st, 1) else (lastPrefetchPos e + st, pf_depth e st)) = (p, fd)"
    by fastforce
  let ?r = "pf_request req local pos p"
  let ?r2 = "?r\<lparr>lineAddr := lineAddr ?r + scast st\<rparr>"
  let ?e1 = "entry_fill p (cycle req) (fst (f l ?r)) e"
  let ?pf1 = "pf_count (\<lambda>n. n\<lparr>pf_issued := pf_issued n + 1\<rparr>) pf"
  define second where "second \<longleftrightarrow> short \<and> sint fd < 8 \<and> p + st < 64 \<and> \<not> pf_valid ?e1 (unat (p + st))"
  have fl: "snd (f k ?r) = I" "snd (f k ?r2) = I" for k by (simp_all add: assms(3) pf_request_def)
  have go: "pf_issue (logging f) local req pos st short e pf l = (if second
      then Inr ((entry_fill (p + st) (cycle req) (fst (f (l @ [?r]) ?r2)) ?e1)\<lparr>lastPrefetchPos := p + st\<rparr>,
             pf_count (\<lambda>n. n\<lparr>pf_issued := pf_issued n + 1, pf_double := pf_double n + 1\<rparr>) ?pf1, (l @ [?r]) @ [?r2])
      else Inr (?e1\<lparr>lastPrefetchPos := p\<rparr>, ?pf1, l @ [?r]))" if "p < 64" "\<not> pf_valid e (unat p)"
    using assms(1) p that fl unfolding pf_issue_def second_def by (simp add: Let_def logging_def cong: if_cong)
  consider (far) "\<not> p < 64" | (valid) "pf_valid e (unat p)"
    | (one) "p < 64" "\<not> pf_valid e (unat p)" "\<not> second"
    | (two) "p < 64" "\<not> pf_valid e (unat p)" "second"
    by blast
  then show ?thesis
  proof cases
    case far
    then have "pf_issue (logging f) local req pos st short e pf l = Inr (e, pf, l)"
      using assms(1) p by (simp add: pf_issue_def Let_def)
    then show ?thesis by (intro exI [of _ e] exI [of _ pf] exI [of _ "[]"]) simp
  next
    case valid
    then have "pf_issue (logging f) local req pos st short e pf l = Inr (e, pf, l)"
      using assms(1) p by (simp add: pf_issue_def Let_def)
    then show ?thesis by (intro exI [of _ e] exI [of _ pf] exI [of _ "[]"]) simp
  next
    case one
    then show ?thesis using go request_page(1) [OF assms(2) one(1), of local]
      by (intro exI [of _ "?e1\<lparr>lastPrefetchPos := p\<rparr>"] exI [of _ ?pf1] exI [of _ "[?r]"]) (simp add: entry_fill_def pf_count_def)
  next
    case two
    then show ?thesis using go request_page [OF assms(2) two(1)]
      by (intro exI [of _ "(entry_fill (p + st) (cycle req) (fst (f (l @ [?r]) ?r2)) ?e1)\<lparr>lastPrefetchPos := p + st\<rparr>"]
          exI [of _ "pf_count (\<lambda>n. n\<lparr>pf_issued := pf_issued n + 1, pf_double := pf_double n + 1\<rparr>) ?pf1"]
          exI [of _ "[?r, ?r2]"]) (simp add: entry_fill_def pf_count_def second_def)
  qed
qed

lemma pf_predict_ok:
  assumes "stride e \<noteq> 0" and "pos = ucast (lineAddr req AND (64 - 1))"
    and "\<And>l r. flags r = flag_mask PREFETCH \<Longrightarrow> snd (f l r) = I"
  shows "\<exists>e' pf' rs. pf_predict (logging f) local req pos short e pf l = Inr (e', pf', l @ rs)
    \<and> length rs \<le> 2 \<and> (\<forall>r\<in>set rs. page_prefetch req r)
    \<and> stride e' \<noteq> 0 \<and> pf_array pf' = pf_array pf \<and> pf_tag pf' = pf_tag pf"
proof (cases "stride e = pos - lastPos e \<and> sat_pred (sat_inc (conf e))")
  case True
  let ?e = "e\<lparr>conf := sat_inc (conf e)\<rparr>"
  have "pos - lastPos e \<noteq> 0" using True assms(1) by simp
  from pf_issue_ok [where f = f and e = ?e and pf = pf and short = short and local = local and l = l, OF this assms(2,3)]
  obtain e' pf' rs where r: "pf_issue (logging f) local req pos (pos - lastPos e) short ?e pf l = Inr (e', pf', l @ rs)"
    "length rs \<le> 2" "\<forall>r\<in>set rs. page_prefetch req r" "stride e' = stride ?e" "pf_array pf' = pf_array pf" "pf_tag pf' = pf_tag pf"
    by blast
  have "pf_predict (logging f) local req pos short e pf l
      = Inr (e'\<lparr>lastLastPos := lastPos e', lastPos := pos\<rparr>, pf', l @ rs)"
    using True r(1) by (simp add: pf_predict_def Let_def)
  then show ?thesis using r(2-) assms(1)
    by (intro exI [of _ "e'\<lparr>lastLastPos := lastPos e', lastPos := pos\<rparr>"] exI [of _ pf'] exI [of _ rs]) simp
next
  case False
  then have "\<exists>e' pf'. pf_predict (logging f) local req pos short e pf l = Inr (e', pf', l)
    \<and> stride e' \<noteq> 0 \<and> pf_array pf' = pf_array pf \<and> pf_tag pf' = pf_tag pf"
    using assms(1) by (auto simp: pf_predict_def Let_def pf_count_def)
  then obtain e' pf' where "pf_predict (logging f) local req pos short e pf l = Inr (e', pf', l)"
    "stride e' \<noteq> 0" "pf_array pf' = pf_array pf" "pf_tag pf' = pf_tag pf" by blast
  then show ?thesis by (intro exI [of _ e'] exI [of _ pf'] exI [of _ "[]"]) simp
qed

lemma pf_take_stride: "pf_take pos resp e = (resp1, short, e1) \<Longrightarrow> resp \<le> resp1 \<and> stride e1 = stride e"
  by (auto simp: pf_take_def Let_def split: if_splits)

lemma pf_miss_wf: "pf_wf pf \<Longrightarrow> pf_wf (pf_miss page pos cyc pf)"
  by (auto simp: pf_wf_def pf_miss_def set_pf_entry_def entry_alloc_def Let_def)

text \<open>
  C39. An access of the stream prefetcher to a page other than page 0 never fails: it sends the
  demand request on as the first request, then at most two more, all of them GETS marked as
  prefetches to lines of the demand's page; it answers no earlier than the parent answered
  the demand, and it hands the request back with its own child id.
\<close>

theorem prefetcher_stays_in_page:
  assumes "pf_wf pf" and "r_type req = GETS" and "drop_bit 6 (lineAddr req) \<noteq> 0"
    and "\<And>l r. flags r = flag_mask PREFETCH \<Longrightarrow> snd (f l r) = I"
  shows "\<exists>resp pf' rs. pf_access (logging f) local req pf l
      = Inr (resp, snd (f l (req\<lparr>childId := pf_childId pf\<rparr>)), req, pf', (l @ [req\<lparr>childId := pf_childId pf\<rparr>]) @ rs)
    \<and> fst (f l (req\<lparr>childId := pf_childId pf\<rparr>)) \<le> resp \<and> length rs \<le> 2
    \<and> (\<forall>r\<in>set rs. page_prefetch req r) \<and> pf_wf pf'"
proof -
  define pf1 where "pf1 = pf_count (\<lambda>n. n\<lparr>pf_acc := pf_acc n + 1\<rparr>) pf"
  define req1 where "req1 = req\<lparr>childId := pf_childId pf\<rparr>"
  define pos where "pos = (ucast (lineAddr req AND (64 - 1)) :: u32)"
  define page where "page = drop_bit 6 (lineAddr req)"
  have w1: "pf_wf pf1" using assms(1) by (simp add: pf_wf_def pf1_def pf_count_def)
  have pp: "page_prefetch req1 r \<Longrightarrow> page_prefetch req r" for r by (simp add: page_prefetch_def req1_def)
  have t1: "r_type req1 = GETS" using assms(2) by (simp add: req1_def)
  show ?thesis
  proof (cases "pf_find page pf1 = 16")
    case True
    then have "pf_access (logging f) local req pf l
        = Inr (fst (f l req1), snd (f l req1), req, pf_miss page pos (cycle req) pf1, (l @ [req1]) @ [])"
      using t1 unfolding pf_access_def Let_def req1_def [symmetric] pf1_def [symmetric] page_def [symmetric] pos_def [symmetric]
      by (simp add: logging_def)
    then show ?thesis using pf_miss_wf [OF w1] unfolding req1_def [symmetric]
      by (intro exI [of _ "fst (f l req1)"] exI [of _ "pf_miss page pos (cycle req) pf1"] exI [of _ "[]"]) simp
  next
    case False
    define idx where "idx = pf_find page pf1"
    have idx: "idx < 16" "pf_tag pf1 idx = page" using pf_find_hit [OF False] by (simp_all add: idx_def)
    define e0 where "e0 = (pf_array pf1 idx)\<lparr>pf_ts := pf_timestamp pf1\<rparr>"
    obtain resp1 short e1 where tk: "pf_take pos (fst (f l req1)) e0 = (resp1, short, e1)" by (metis prod_cases3)
    have "stride e0 \<noteq> 0" using w1 idx assms(3) by (auto simp: pf_wf_def e0_def page_def)
    then have s1: "stride e1 \<noteq> 0" "fst (f l req1) \<le> resp1" using pf_take_stride [OF tk] by auto
    define pf2 where "pf2 = pf_count (\<lambda>n. n\<lparr>pf_pageHits := pf_pageHits n + 1,
        pf_hits := pf_hits n + of_bool (pf_valid e0 (unat pos)), pf_shortHits := pf_shortHits n + of_bool short\<rparr>)
      (pf1\<lparr>pf_timestamp := pf_timestamp pf1 + 1\<rparr>)"
    have p1: "pos = ucast (lineAddr req1 AND (64 - 1))" by (simp add: pos_def req1_def)
    from pf_predict_ok [where f = f and e = e1 and pf = pf2 and short = short and local = local and l = "l @ [req1]", OF s1(1) p1 assms(4)]
    obtain e2 pf3 rs where pr: "pf_predict (logging f) local req1 pos short e1 pf2 (l @ [req1]) = Inr (e2, pf3, (l @ [req1]) @ rs)"
      "length rs \<le> 2" "\<forall>r\<in>set rs. page_prefetch req1 r" "stride e2 \<noteq> 0" "pf_array pf3 = pf_array pf2" "pf_tag pf3 = pf_tag pf2"
      by blast
    have "pf_access (logging f) local req pf l = Inr (resp1, snd (f l req1), req, set_pf_entry idx e2 pf3, (l @ [req1]) @ rs)"
      unfolding pf_access_def Let_def req1_def [symmetric] pf1_def [symmetric] page_def [symmetric] pos_def [symmetric]
        idx_def [symmetric] e0_def [symmetric]
      using t1 False tk pr(1) by (simp add: logging_def idx_def [symmetric] pf2_def)
    moreover have "pf_wf (set_pf_entry idx e2 pf3)"
      using w1 pr(4-6) by (auto simp: pf_wf_def set_pf_entry_def pf2_def pf_count_def)
    ultimately show ?thesis unfolding req1_def [symmetric] using pr(2,3) s1(2) pp by blast
  qed
qed

text \<open>An entry of page 1 that has seen positions 2 and 3 twice, and the demand for position 4.\<close>

definition demo_pf :: stream_pf where
  "demo_pf = \<lparr>pf_timestamp = 5, pf_tag = (\<lambda>i. if i = 0 then 1 else 0),
     pf_array = (\<lambda>i. \<lparr>stride = (if i = 0 then 1 else 0), conf = 2, times = (\<lambda>_. (0, 0)), pf_valid = (\<lambda>_. False),
        lastPos = 3, lastLastPos = 2, lastPrefetchPos = 3, lastCycle = 0, pf_ts = 4\<rparr>),
     pf_childId = 0,
     pf_prof = \<lparr>pf_acc = 0, pf_issued = 0, pf_double = 0, pf_pageHits = 0, pf_hits = 0, pf_shortHits = 0,
        pf_strideSwitches = 0, pf_lowConf = 0\<rparr>\<rparr>"

definition demo_get :: "address \<Rightarrow> mem_req" where
  "demo_get a = \<lparr>lineAddr = a, r_type = GETS, childId = 1, state_ptr = (0, 0), cycle = 10, childLock = None,
     initialState = I, srcId = 0, flags = 0, pc = 0\<rparr>"

theorem prefetcher_stays_in_page_witness:
  "\<exists>resp pf' rs. pf_access (logging (\<lambda>_ _. (100, I))) (9, 0) (demo_get 68) demo_pf []
      = Inr (resp, I, demo_get 68, pf', ([] @ [(demo_get 68)\<lparr>childId := 0\<rparr>]) @ rs)
    \<and> 100 \<le> resp \<and> length rs \<le> 2 \<and> (\<forall>r\<in>set rs. page_prefetch (demo_get 68) r) \<and> pf_wf pf'"
proof -
  have "drop_bit 6 (68 :: address) \<noteq> 0" by (simp add: drop_bit_eq_div)
  then show ?thesis
    using prefetcher_stays_in_page [of demo_pf "demo_get 68" "\<lambda>_ _. (100, I)" "(9, 0)" "[]"]
    by (simp add: demo_pf_def demo_get_def pf_wf_def)
qed

text \<open>
  C40. How far ahead the prefetcher believes to be depends on the direction of the stream: with
  a stride of \<open>d\<close> lines up and \<open>k\<close> strides of lead it computes \<open>k\<close>, with \<open>d\<close> lines down it
  computes 1 for a lead of one stride and 0 for any longer one, because the negative stride
  is divided by as an unsigned number. With depth 0 the next position to fetch is reset to
  the one right after the demand.
\<close>

theorem prefetcher_descending_depth:
  assumes "0 < d" and "0 < k" and "k * d < 64"
  shows "pf_depth (e\<lparr>lastPrefetchPos := lastPos e + of_nat (k * d)\<rparr>) (of_nat d) = of_nat k
    \<and> pf_depth (e\<lparr>lastPrefetchPos := lastPos e - of_nat (k * d)\<rparr>) (- of_nat d) = (if k = 1 then 1 else 0)"
proof -
  have kd: "k \<le> k * d" "d \<le> k * d" using assms(1,2) by simp_all
  have "k < 64" "d < 64" using kd assms(3) by linarith+
  then have lt: "d < 2 ^ LENGTH(32)" "k * d < 2 ^ LENGTH(32)" "k < 64" "d < 64" using assms(3) by simp_all
  have u: "unat (of_nat m :: u32) = m" if "m < 2 ^ LENGTH(32)" for m using that by (simp only: unat_of_nat mod_less)
  have neg: "unat (- of_nat m :: u32) = 2 ^ 32 - m" if "0 < m" "m < 64" for m
  proof -
    have "(- of_nat m :: u32) = of_nat (2 ^ 32 - m)" using that by (simp add: of_nat_diff)
    moreover have "2 ^ 32 - m < 2 ^ LENGTH(32)" using that by simp
    ultimately show ?thesis using u by simp
  qed
  have "unat (of_nat (k * d) div of_nat d :: u32) = k"
    unfolding unat_div u [OF lt(1)] u [OF lt(2)] using assms(1) by simp
  also have "k = unat (of_nat k :: u32)" using u [of k] lt(3) by simp
  finally have "of_nat (k * d) div of_nat d = (of_nat k :: u32)" by (simp only: word_unat_eq_iff)
  moreover have "unat (- of_nat (k * d) div - of_nat d :: u32) = (if k = 1 then 1 else 0)"
  proof -
    have m: "0 < k * d" using assms(1,2) by simp
    have "unat (- of_nat (k * d) div - of_nat d :: u32) = (2 ^ 32 - k * d) div (2 ^ 32 - d)"
      unfolding unat_div neg [OF m assms(3)] neg [OF assms(1) lt(4)] ..
    also have "\<dots> = (if k = 1 then 1 else 0)"
    proof (cases "k = 1")
      case False
      then have "2 * d \<le> k * d" using assms(2) by simp
      then have "d < k * d" using assms(1) by linarith
      then have "2 ^ 32 - k * d < 2 ^ 32 - d" by (rule diff_less_mono2) (use lt in simp)
      then show ?thesis using False by simp
    qed (use lt in simp)
    finally show ?thesis .
  qed
  then have "(- of_nat (k * d) div - of_nat d :: u32) = (if k = 1 then 1 else 0)"
    unfolding word_unat_eq_iff by (simp only: if_distrib [of unat] unsigned_1 unsigned_0)
  ultimately show ?thesis by (simp add: pf_depth_def)
qed

theorem prefetcher_descending_depth_witness:
  "pf_depth ((pf_array demo_pf 0)\<lparr>lastPrefetchPos := 3 + of_nat (3 * 2)\<rparr>) (of_nat 2) = 3
    \<and> pf_depth ((pf_array demo_pf 0)\<lparr>lastPrefetchPos := 3 - of_nat (3 * 2)\<rparr>) (- of_nat 2) = 0"
  using prefetcher_descending_depth [of 2 3 "pf_array demo_pf 0"] by (simp add: demo_pf_def)

text \<open>
  The entries are not initialised before they are allocated. In zeroed memory the first load
  of line 0 matches the unallocated entries of page 0 with stride 0, and the prefetcher
  divides by zero.
\<close>

theorem prefetcher_zero_page_fails:
  "pf_access (logging f) local (demo_get 0) (demo_pf\<lparr>pf_tag := \<lambda>_. 0, pf_array := \<lambda>_. \<lparr>stride = 0, conf = 1,
      times = (\<lambda>_. (0, 0)), pf_valid = (\<lambda>_. False), lastPos = 0, lastLastPos = 0, lastPrefetchPos = 0,
      lastCycle = 0, pf_ts = 0\<rparr>\<rparr>) [] = Inl Panic"
proof -
  have "pf_find 0 pf = 15" if "\<And>i. pf_tag pf i = 0" for pf
    by (simp add: pf_find_def that upt_rec)
  then show ?thesis
    by (simp add: pf_access_def Let_def logging_def demo_get_def pf_count_def pf_take_def pf_predict_def pf_issue_def
        sat_inc_def sat_pred_def)
qed

end
