(* ===== verification/Barrier.thy ===== *)
theory Barrier
  imports ZPrelude MTRandom
begin

section \<open>The phase barrier\<close>

text \<open>
  The barrier of barrier.h: threads join and leave it at any time, at most \<open>parallelThreads\<close>
  of them run at once, and a phase ends when each thread of the run list had its turn. Every
  operation holds the scheduler's lock until it is done, so that the operations are the atomic
  steps of the model; what the code does after the lock is released is to sleep until another
  thread clears the futex word. Thread ids and list positions are natural numbers, below
  \<open>MAX_THREADS\<close>; the two arrays are functions of the index. \<open>bar_effects\<close> is a ghost: the
  latest calls first, a thread that was woken, or the end of a phase (\<open>sched->callback()\<close>) with
  the threads that were waiting for the next one.
\<close>

definition MAX_THREADS :: nat where "MAX_THREADS = 2048"

datatype bar_state = OFFLINE | WAITING | RUNNING | LEFT

record thread_sync =
  sstate :: bar_state
  futexWord :: u32
  lastIdx :: nat

datatype bar_effect = Wake nat | PhaseEnd "nat list"

record barrier =
  parallelThreads :: nat
  threadList :: "nat \<Rightarrow> thread_sync"
  runList :: "nat \<Rightarrow> nat"
  runListSize :: nat
  curThreadIdx :: nat
  runningThreads :: nat
  leftThreads :: nat
  phaseCount :: u32
  bar_rnd :: mtrand
  bar_effects :: "bar_effect list"

definition barrier_init :: "nat \<Rightarrow> (nat \<Rightarrow> nat) \<Rightarrow> mtrand \<Rightarrow> barrier" where
  "barrier_init par garbage r = \<lparr>parallelThreads = par,
     threadList = (\<lambda>t. \<lparr>sstate = OFFLINE, futexWord = 0, lastIdx = garbage t\<rparr>),
     runList = (\<lambda>_. 0), runListSize = 0, curThreadIdx = 0, runningThreads = 0, leftThreads = 0,
     phaseCount = 0, bar_rnd = r, bar_effects = []\<rparr>"

text \<open>The decrement of a \<open>uint32_t\<close> counter, with its wrap-around.\<close>

definition u32_dec :: "nat \<Rightarrow> nat" where
  "u32_dec n = (if n = 0 then 2 ^ 32 - 1 else n - 1)"

abbreviation st :: "barrier \<Rightarrow> nat \<Rightarrow> bar_state" where
  "st b t \<equiv> sstate (threadList b t)"

definition set_state :: "bar_state \<Rightarrow> nat \<Rightarrow> barrier \<Rightarrow> barrier" where
  "set_state s t b = b\<lparr>threadList := (threadList b)(t := (threadList b t)\<lparr>sstate := s\<rparr>)\<rparr>"

definition set_lastIdx :: "nat \<Rightarrow> nat \<Rightarrow> barrier \<Rightarrow> barrier" where
  "set_lastIdx i t b = b\<lparr>threadList := (threadList b)(t := (threadList b t)\<lparr>lastIdx := i\<rparr>)\<rparr>"

definition set_futex :: "u32 \<Rightarrow> nat \<Rightarrow> barrier \<Rightarrow> barrier" where
  "set_futex w t b = b\<lparr>threadList := (threadList b)(t := (threadList b t)\<lparr>futexWord := w\<rparr>)\<rparr>"

subsection \<open>Waking the threads of a phase\<close>

text \<open>One turn of the loop of \<open>checkRunList\<close>, then the loop.\<close>

definition wake_next :: "barrier \<Rightarrow> barrier res" where
  "wake_next b = (let idx = curThreadIdx b; b1 = b\<lparr>curThreadIdx := idx + 1\<rparr>; wtid = runList b idx
     in if st b wtid = WAITING
        then if futexWord (threadList b wtid) = 1
             then Inr (set_futex 0 wtid (set_lastIdx idx wtid (set_state RUNNING wtid b1))
                         \<lparr>runningThreads := runningThreads b + 1, bar_effects := Wake wtid # bar_effects b\<rparr>)
             else Inl Panic
        else Inr b1)"

lemma wake_next_measure:
  "wake_next b = Inr b' \<Longrightarrow> curThreadIdx b' = Suc (curThreadIdx b) \<and> runListSize b' = runListSize b"
  by (auto simp: wake_next_def Let_def set_futex_def set_lastIdx_def set_state_def split: if_splits)

function checkRunList :: "barrier \<Rightarrow> barrier res" where
  "checkRunList b = (if runningThreads b < parallelThreads b \<and> curThreadIdx b < runListSize b
     then (case wake_next b of Inl e \<Rightarrow> Inl e | Inr b' \<Rightarrow> checkRunList b')
     else Inr b)"
  by pat_completeness auto
termination
  by (relation "measure (\<lambda>b. runListSize b - curThreadIdx b)") (auto dest: wake_next_measure)

declare checkRunList.simps [simp del]

subsection \<open>The end of a phase\<close>

text \<open>The pass that takes the threads that left off the list; the result is the new size.\<close>

function cleanup_pass :: "nat \<Rightarrow> nat \<Rightarrow> barrier \<Rightarrow> nat \<times> barrier" where
  "cleanup_pass idx newSize b =
     (if idx < newSize
      then let wtid = runList b idx
           in if st b wtid = LEFT
              then let b1 = set_state OFFLINE wtid b; stid = runList b (newSize - 1);
                       b2 = b1\<lparr>runList := (runList b)(idx := stid)\<rparr>
                   in cleanup_pass idx (newSize - 1) (set_lastIdx idx stid b2)
              else cleanup_pass (idx + 1) newSize b
      else (newSize, b))"
  by pat_completeness auto
termination
  by (relation "measure (\<lambda>(idx, newSize, b). newSize - idx)") auto

declare cleanup_pass.simps [simp del]

definition draw_index :: "nat \<Rightarrow> mtrand \<Rightarrow> (nat \<times> mtrand) option" where
  "draw_index i r = map_option (\<lambda>(x, r'). (unat x, r')) (randInt_below (of_nat i) r)"

definition shuffle_step :: "nat \<Rightarrow> barrier \<Rightarrow> barrier res" where
  "shuffle_step i b = (case draw_index i (bar_rnd b) of
       None \<Rightarrow> Inl NoReturn
     | Some (j, r) \<Rightarrow> let itid = runList b i; jtid = runList b j;
           b1 = b\<lparr>bar_rnd := r, runList := (runList b)(i := jtid, j := itid)\<rparr>
         in Inr (set_lastIdx i jtid (set_lastIdx j itid b1)))"

definition shuffle :: "barrier \<Rightarrow> barrier res" where
  "shuffle b = rfold shuffle_step (rev [1..<runListSize b]) b"

definition waiting_list :: "barrier \<Rightarrow> nat list" where
  "waiting_list b = filter (\<lambda>t. st b t = WAITING) (map (runList b) [0..<runListSize b])"

definition end_phase_cleanup :: "barrier \<Rightarrow> barrier res" where
  "end_phase_cleanup b = (let b1 = b\<lparr>phaseCount := phaseCount b + 1\<rparr>
     in if phaseCount b AND (32 - 1) = 0
        then assert_then (0 < runListSize b)
          (let (newSize, b2) = cleanup_pass 0 (runListSize b) b1
           in assert_then (runListSize b - newSize = leftThreads b)
             (Inr (b2\<lparr>leftThreads := 0, runListSize := newSize\<rparr>)))
        else Inr b1)"

definition checkEndPhase :: "barrier \<Rightarrow> barrier res" where
  "checkEndPhase b = (if curThreadIdx b = runListSize b \<and> runningThreads b = 0
     then if leftThreads b = runListSize b then Inr b
          else rbind (end_phase_cleanup (b\<lparr>bar_effects := PhaseEnd (waiting_list b) # bar_effects b, curThreadIdx := 0\<rparr>))
                 (\<lambda>b1. if parallelThreads b1 < runListSize b1 then shuffle b1 else Inr b1)
     else Inr b)"

definition tryWakeNext :: "barrier \<Rightarrow> barrier res" where
  "tryWakeNext b = rbind (checkRunList b) (\<lambda>b1. rbind (checkEndPhase b1) checkRunList)"

subsection \<open>The operations\<close>

definition rejoin_same_phase :: "nat \<Rightarrow> barrier \<Rightarrow> barrier res" where
  "rejoin_same_phase tid b = (let li = lastIdx (threadList b tid)
     in if li < curThreadIdx b
        then let c = curThreadIdx b - 1; otherTid = runList b c
             in assert_then (tid = runList b li)
               (Inr (set_lastIdx c tid (set_lastIdx li otherTid
                  (b\<lparr>curThreadIdx := c, runList := (runList b)(li := otherTid, c := tid)\<rparr>))))
        else Inr b)"

definition bar_join :: "nat \<Rightarrow> barrier \<Rightarrow> barrier res" where
  "bar_join tid b = assert_then (st b tid = LEFT \<or> st b tid = OFFLINE)
     (rbind (if st b tid = OFFLINE
             then Inr (b\<lparr>runList := (runList b)(runListSize b := tid), runListSize := runListSize b + 1\<rparr>)
             else rejoin_same_phase tid (b\<lparr>leftThreads := u32_dec (leftThreads b)\<rparr>))
        (\<lambda>b1. tryWakeNext (set_futex 1 tid (set_state WAITING tid b1))))"

definition bar_leave :: "nat \<Rightarrow> barrier \<Rightarrow> barrier res" where
  "bar_leave tid b =
     (if st b tid = RUNNING
      then tryWakeNext ((set_state LEFT tid b)
             \<lparr>leftThreads := leftThreads b + 1, runningThreads := u32_dec (runningThreads b)\<rparr>)
      else assert_then (st b tid = WAITING) (Inr ((set_state LEFT tid b)\<lparr>leftThreads := leftThreads b + 1\<rparr>)))"

definition bar_sync :: "nat \<Rightarrow> barrier \<Rightarrow> barrier res" where
  "bar_sync tid b = assert_then (st b tid = RUNNING)
     (tryWakeNext ((set_state WAITING tid (set_futex 1 tid b))\<lparr>runningThreads := u32_dec (runningThreads b)\<rparr>))"

subsection \<open>The invariant\<close>

text \<open>The threads woken since the last end of a phase, and the fairness of the phases that ended.\<close>

fun woken :: "bar_effect list \<Rightarrow> nat set" where
  "woken [] = {}"
| "woken (Wake t # es) = insert t (woken es)"
| "woken (PhaseEnd ws # es) = {}"

fun phases_fair :: "bar_effect list \<Rightarrow> bool" where
  "phases_fair [] = True"
| "phases_fair (Wake t # es) = phases_fair es"
| "phases_fair (PhaseEnd ws # es) = (set ws \<subseteq> woken es \<and> phases_fair es)"

definition list_inv :: "nat \<Rightarrow> barrier \<Rightarrow> bool" where
  "list_inv n b \<longleftrightarrow> inj_on (runList b) {..<n} \<and> runList b ` {..<n} = {t. st b t \<noteq> OFFLINE}
     \<and> {t. st b t \<noteq> OFFLINE} \<subseteq> {..<MAX_THREADS}"

definition count_inv :: "barrier \<Rightarrow> bool" where
  "count_inv b \<longleftrightarrow> runningThreads b = card {t. st b t = RUNNING} \<and> leftThreads b = card {t. st b t = LEFT}
     \<and> runningThreads b \<le> parallelThreads b \<and> (\<forall>t. st b t = WAITING \<longrightarrow> futexWord (threadList b t) = 1)"

definition at_index :: "nat \<Rightarrow> nat \<Rightarrow> barrier \<Rightarrow> bool" where
  "at_index n t b \<longleftrightarrow> lastIdx (threadList b t) < n \<and> runList b (lastIdx (threadList b t)) = t"

definition place_inv :: "barrier \<Rightarrow> bool" where
  "place_inv b \<longleftrightarrow> curThreadIdx b \<le> runListSize b
     \<and> (\<forall>t. st b t = RUNNING \<longrightarrow> at_index (curThreadIdx b) t b)
     \<and> (\<forall>t. st b t = LEFT \<longrightarrow> at_index (runListSize b) t b)
     \<and> (\<forall>i<curThreadIdx b. st b (runList b i) \<in> {WAITING, RUNNING} \<longrightarrow> runList b i \<in> woken (bar_effects b))
     \<and> phases_fair (bar_effects b)"

definition bar_inv :: "barrier \<Rightarrow> bool" where
  "bar_inv b \<longleftrightarrow> list_inv (runListSize b) b \<and> count_inv b \<and> place_inv b"

lemma thread_fields [simp]:
  "sstate (threadList (set_state s t b) u) = (if u = t then s else st b u)"
  "lastIdx (threadList (set_state s t b) u) = lastIdx (threadList b u)"
  "futexWord (threadList (set_state s t b) u) = futexWord (threadList b u)"
  "sstate (threadList (set_lastIdx i t b) u) = st b u"
  "lastIdx (threadList (set_lastIdx i t b) u) = (if u = t then i else lastIdx (threadList b u))"
  "futexWord (threadList (set_lastIdx i t b) u) = futexWord (threadList b u)"
  "sstate (threadList (set_futex w t b) u) = st b u"
  "lastIdx (threadList (set_futex w t b) u) = lastIdx (threadList b u)"
  "futexWord (threadList (set_futex w t b) u) = (if u = t then w else futexWord (threadList b u))"
  by (simp_all add: set_state_def set_lastIdx_def set_futex_def)

lemma barrier_fields [simp]:
  "parallelThreads (set_state s t b) = parallelThreads b" "parallelThreads (set_lastIdx i t b) = parallelThreads b"
  "parallelThreads (set_futex w t b) = parallelThreads b" "runList (set_state s t b) = runList b"
  "runList (set_lastIdx i t b) = runList b" "runList (set_futex w t b) = runList b"
  "runListSize (set_state s t b) = runListSize b" "runListSize (set_lastIdx i t b) = runListSize b"
  "runListSize (set_futex w t b) = runListSize b" "curThreadIdx (set_state s t b) = curThreadIdx b"
  "curThreadIdx (set_lastIdx i t b) = curThreadIdx b" "curThreadIdx (set_futex w t b) = curThreadIdx b"
  "runningThreads (set_state s t b) = runningThreads b" "runningThreads (set_lastIdx i t b) = runningThreads b"
  "runningThreads (set_futex w t b) = runningThreads b" "leftThreads (set_state s t b) = leftThreads b"
  "leftThreads (set_lastIdx i t b) = leftThreads b" "leftThreads (set_futex w t b) = leftThreads b"
  "bar_effects (set_state s t b) = bar_effects b" "bar_effects (set_lastIdx i t b) = bar_effects b"
  "bar_effects (set_futex w t b) = bar_effects b"
  by (simp_all add: set_state_def set_lastIdx_def set_futex_def)

lemma on_list: "list_inv n b \<Longrightarrow> st b t \<noteq> OFFLINE \<Longrightarrow> \<exists>i<n. runList b i = t"
  unfolding list_inv_def by (metis (mono_tags, lifting) imageE lessThan_iff mem_Collect_eq)

lemma listed: "list_inv n b \<Longrightarrow> i < n \<Longrightarrow> st b (runList b i) \<noteq> OFFLINE"
  by (fastforce simp: list_inv_def)

lemma list_inv_cong:
  "runList b' = runList b \<Longrightarrow> (\<And>t. st b' t = OFFLINE \<longleftrightarrow> st b t = OFFLINE) \<Longrightarrow> list_inv n b' \<longleftrightarrow> list_inv n b"
  by (simp add: list_inv_def)

lemma finite_state: "list_inv n b \<Longrightarrow> s \<noteq> OFFLINE \<Longrightarrow> finite {t. st b t = s}"
  by (rule finite_subset [of _ "{..<MAX_THREADS}"]) (auto simp: list_inv_def)

text \<open>How the number of threads in a state changes with the state of one thread.\<close>

lemma state_count:
  assumes "list_inv n b" and "\<And>u. st b' u = (if u = t then s1 else st b u)" and "s \<noteq> OFFLINE"
  shows "card {u. st b' u = s} =
    (if s1 = s then (if st b t = s then card {u. st b u = s} else card {u. st b u = s} + 1)
     else (if st b t = s then card {u. st b u = s} - 1 else card {u. st b u = s}))"
proof -
  have "{u. st b' u = s} = (if s1 = s then insert t {u. st b u = s} else {u. st b u = s} - {t})"
    using assms(2) by (auto split: if_splits)
  then show ?thesis using finite_state [OF assms(1,3)] by (simp add: insert_absorb)
qed

lemma same_index: "list_inv n b \<Longrightarrow> i < n \<Longrightarrow> j < n \<Longrightarrow> runList b i = runList b j \<longleftrightarrow> i = j"
  by (auto simp: list_inv_def inj_on_def)

lemma count_members: "list_inv n b \<Longrightarrow> card {t. st b t \<noteq> OFFLINE} = n"
  by (metis card_image card_lessThan list_inv_def)

lemma listed_below_max:
  assumes "list_inv n b"
  shows "n \<le> MAX_THREADS"
proof -
  have "card {t. st b t \<noteq> OFFLINE} \<le> card {..<MAX_THREADS}"
    using assms by (intro card_mono) (auto simp: list_inv_def)
  then show ?thesis by (simp add: count_members [OF assms])
qed

subsection \<open>Waking threads keeps the invariant\<close>

lemma wake_next_inv:
  assumes "bar_inv b" and "runningThreads b < parallelThreads b" and "curThreadIdx b < runListSize b"
  shows "\<exists>b'. wake_next b = Inr b' \<and> bar_inv b'"
proof -
  define t where "t = runList b (curThreadIdx b)"
  have l: "list_inv (runListSize b) b" and c: "count_inv b" and p: "place_inv b"
    using assms(1) by (auto simp: bar_inv_def)
  show ?thesis
  proof (cases "st b t = WAITING")
    case True
    define b' where "b' = set_futex 0 t (set_lastIdx (curThreadIdx b) t (set_state RUNNING t (b\<lparr>curThreadIdx := curThreadIdx b + 1\<rparr>)))
                \<lparr>runningThreads := runningThreads b + 1, bar_effects := Wake t # bar_effects b\<rparr>"
    have s: "\<And>u. st b' u = (if u = t then RUNNING else st b u)" by (simp add: b'_def)
    have "wake_next b = Inr b'" using True c by (simp add: wake_next_def Let_def t_def count_inv_def b'_def)
    moreover have "list_inv (runListSize b') b'"
      using l True by (subst list_inv_cong [of _ b]) (auto simp: s b'_def)
    moreover have "count_inv b'"
      using c True assms(2) state_count [OF l s] by (simp add: count_inv_def) (simp add: b'_def)
    moreover have "place_inv b'"
      using p True assms(3) by (auto simp: place_inv_def at_index_def t_def less_Suc_eq b'_def)
    ultimately show ?thesis by (auto simp: bar_inv_def)
  next
    case False
    let ?b = "b\<lparr>curThreadIdx := curThreadIdx b + 1\<rparr>"
    have "wake_next b = Inr ?b" using False by (simp add: wake_next_def Let_def t_def)
    moreover have "st b t \<noteq> RUNNING"
    proof
      assume "st b t = RUNNING"
      then have "at_index (curThreadIdx b) t b" using p by (auto simp: place_inv_def)
      then show False using same_index [OF l _ assms(3)] assms(3) by (force simp: at_index_def t_def)
    qed
    with False have "place_inv ?b"
      using p assms(3) by (auto simp: place_inv_def at_index_def t_def less_Suc_eq)
    ultimately show ?thesis using l c by (auto simp: bar_inv_def list_inv_def count_inv_def)
  qed
qed

text \<open>What the loop keeps, and what holds when it is done.\<close>

definition woke :: "barrier \<Rightarrow> barrier \<Rightarrow> bool" where
  "woke b b' \<longleftrightarrow> parallelThreads b' = parallelThreads b \<and> runListSize b' = runListSize b
     \<and> leftThreads b' = leftThreads b \<and> runList b' = runList b \<and> runningThreads b \<le> runningThreads b'
     \<and> (\<forall>t. st b' t = LEFT \<longleftrightarrow> st b t = LEFT) \<and> (\<exists>ts. bar_effects b' = map Wake ts @ bar_effects b)
     \<and> (runningThreads b' = runningThreads b \<longrightarrow> (\<forall>t. st b' t = st b t))"

lemma woke_refl: "woke b b"
  by (simp add: woke_def exI [of _ "[]"])

lemma woke_trans: "woke a b \<Longrightarrow> woke b c \<Longrightarrow> woke a c"
  unfolding woke_def by (metis append_assoc le_trans map_append le_antisym)

lemma wake_next_woke: "wake_next b = Inr b' \<Longrightarrow> woke b b'"
  by (auto simp: wake_next_def woke_def Let_def split: if_splits intro: exI [of _ "[]"] exI [of _ "[_]"])

lemma wake_next_runs:
  "wake_next b = Inr b' \<Longrightarrow> st b (runList b (curThreadIdx b)) = WAITING \<Longrightarrow> runningThreads b' = Suc (runningThreads b)"
  by (auto simp: wake_next_def Let_def split: if_splits)

lemma checkRunList_inv:
  assumes "bar_inv b"
  shows "\<exists>b'. checkRunList b = Inr b' \<and> bar_inv b' \<and> woke b b'
    \<and> (runningThreads b' = parallelThreads b' \<or> curThreadIdx b' = runListSize b')
    \<and> (0 < parallelThreads b \<and> (\<exists>i. curThreadIdx b \<le> i \<and> i < runListSize b \<and> st b (runList b i) = WAITING)
        \<longrightarrow> 0 < runningThreads b')"
  using assms
proof (induction b rule: checkRunList.induct)
  case (1 b)
  show ?case
  proof (cases "runningThreads b < parallelThreads b \<and> curThreadIdx b < runListSize b")
    case True
    then obtain b1 where b1: "wake_next b = Inr b1" "bar_inv b1" using wake_next_inv [OF 1(2)] by blast
    have w: "woke b b1" using b1(1) by (rule wake_next_woke)
    have m: "curThreadIdx b1 = Suc (curThreadIdx b)" using wake_next_measure [OF b1(1)] by simp
    from 1(1) [OF True b1(1) b1(2)] obtain b' where b': "checkRunList b1 = Inr b'" "bar_inv b'" "woke b1 b'"
      "runningThreads b' = parallelThreads b' \<or> curThreadIdx b' = runListSize b'"
      "0 < parallelThreads b1 \<and> (\<exists>i. curThreadIdx b1 \<le> i \<and> i < runListSize b1 \<and> st b1 (runList b1 i) = WAITING)
        \<longrightarrow> 0 < runningThreads b'" by blast
    have r: "0 < runningThreads b'"
      if "0 < parallelThreads b" "curThreadIdx b \<le> i" "i < runListSize b" "st b (runList b i) = WAITING" for i
    proof (cases "runningThreads b1 = runningThreads b")
      case same: True
      then have "st b (runList b (curThreadIdx b)) \<noteq> WAITING" using wake_next_runs [OF b1(1)] by auto
      then have "Suc (curThreadIdx b) \<le> i" using that by (metis le_antisym not_less_eq_eq)
      then show ?thesis using b'(5) w same that m by (auto simp: woke_def)
    next
      case False
      then have "0 < runningThreads b1" using w by (simp add: woke_def)
      then show ?thesis using b'(3) by (simp add: woke_def)
    qed
    moreover have "checkRunList b = Inr b'" using b'(1) b1(1) True by (subst checkRunList.simps) simp
    ultimately show ?thesis using b'(2,4) woke_trans [OF w b'(3)] by blast
  next
    case False
    have "checkRunList b = Inr b" by (subst checkRunList.simps) (use False in \<open>simp only: if_False\<close>)
    moreover have "runningThreads b = parallelThreads b \<or> curThreadIdx b = runListSize b"
      using 1(2) False by (auto simp: bar_inv_def count_inv_def place_inv_def)
    ultimately show ?thesis using 1(2) woke_refl by (auto simp: not_less)
  qed
qed

subsection \<open>The end of a phase keeps the invariant\<close>

lemma remove_slot:
  fixes m :: nat
  assumes "inj_on f {..<m}" and "i < m"
  shows "inj_on (f(i := f (m - 1))) {..<m - 1}" and "(f(i := f (m - 1))) ` {..<m - 1} = f ` {..<m} - {f i}"
proof -
  have e: "f a = f b \<longleftrightarrow> a = b" if "a < m" "b < m" for a b using assms(1) that by (auto simp: inj_on_def)
  obtain k where k: "m = Suc k" using assms(2) by (cases m) auto
  show "inj_on (f(i := f (m - 1))) {..<m - 1}" by (rule inj_onI) (use assms(2) in \<open>auto simp: e k split: if_splits\<close>)
  show "(f(i := f (m - 1))) ` {..<m - 1} = f ` {..<m} - {f i}" (is "?l = ?r")
  proof
    show "?l \<subseteq> ?r" using assms(2) by (auto simp: e k split: if_splits)
    show "?r \<subseteq> ?l"
    proof
      fix x assume "x \<in> ?r"
      then obtain j where j: "j < m" "x = f j" "j \<noteq> i" by auto
      show "x \<in> ?l"
      proof (cases "j = m - 1")
        case True
        then have "i < m - 1" using j assms(2) by linarith
        then show ?thesis using j(2) True by (intro image_eqI [of _ _ i]) simp_all
      qed (use j in \<open>auto intro!: image_eqI [of _ _ j]\<close>)
    qed
  qed
qed

lemma swap_slots:
  fixes n :: nat
  assumes "inj_on f {..<n}" and "i < n" and "j < n"
  shows "inj_on (f(i := f j, j := f i)) {..<n}" and "(f(i := f j, j := f i)) ` {..<n} = f ` {..<n}"
proof -
  have e: "f a = f b \<longleftrightarrow> a = b" if "a < n" "b < n" for a b using assms(1) that by (auto simp: inj_on_def)
  show "inj_on (f(i := f j, j := f i)) {..<n}" by (rule inj_onI) (use assms in \<open>auto simp: e split: if_splits\<close>)
  show "(f(i := f j, j := f i)) ` {..<n} = f ` {..<n}" (is "?l = ?r")
  proof
    show "?l \<subseteq> ?r" using assms(2,3) by auto
    show "?r \<subseteq> ?l"
    proof
      fix x assume "x \<in> ?r"
      then obtain k where k: "k < n" "x = f k" by auto
      then show "x \<in> ?l" using assms(2,3)
        by (intro image_eqI [of _ _ "if k = i then j else if k = j then i else k"]) auto
    qed
  qed
qed

lemma swap_list_inv:
  assumes "list_inv n b" and "i < n" and "j < n" and "\<And>t. st b' t = st b t"
    and "runList b' = (runList b)(i := runList b j, j := runList b i)"
  shows "list_inv n b'"
  using assms(1) swap_slots [of "runList b" n i j] assms by (simp add: list_inv_def)

lemma swap_at_index:
  assumes "list_inv n b" and "i < n" and "j < n" and "at_index n t b"
    and "runList b' = (runList b)(i := runList b j, j := runList b i)"
    and "\<And>t. lastIdx (threadList b' t)
      = (if t = runList b j then i else if t = runList b i then j else lastIdx (threadList b t))"
  shows "at_index n t b'"
  using assms same_index [OF assms(1), of "lastIdx (threadList b t)"] by (auto simp: at_index_def)

lemma cleanup_pass_spec:
  assumes "cleanup_pass idx m b = (m', b')" and "list_inv m b" and "idx \<le> m"
    and "\<And>i. i < idx \<Longrightarrow> st b (runList b i) \<noteq> LEFT"
  shows "list_inv m' b' \<and> m = m' + card {t. st b t = LEFT}
    \<and> (\<forall>t. st b' t = (if st b t = LEFT then OFFLINE else st b t) \<and> futexWord (threadList b' t) = futexWord (threadList b t))
    \<and> parallelThreads b' = parallelThreads b \<and> runningThreads b' = runningThreads b
    \<and> curThreadIdx b' = curThreadIdx b \<and> bar_effects b' = bar_effects b"
  using assms
proof (induction idx m b arbitrary: m' b' rule: cleanup_pass.induct)
  case (1 idx m b)
  define t where "t = runList b idx"
  consider (drop) "idx < m" "st b t = LEFT" | (keep) "idx < m" "st b t \<noteq> LEFT" | (stop) "m = idx"
    using "1.prems"(3) by linarith
  then show ?case
  proof cases
    case drop
    define b3 where "b3 = set_lastIdx idx (runList b (m - 1))
      ((set_state OFFLINE t b)\<lparr>runList := (runList b)(idx := runList b (m - 1))\<rparr>)"
    have r: "cleanup_pass idx (m - 1) b3 = (m', b')"
      using "1.prems"(1) drop by (subst (asm) cleanup_pass.simps) (simp add: Let_def t_def b3_def)
    have s: "\<And>u. st b3 u = (if u = t then OFFLINE else st b u)" by (simp add: b3_def)
    have l: "list_inv (m - 1) b3"
      using "1.prems"(2) remove_slot [of "runList b" m idx] drop by (auto simp: list_inv_def b3_def t_def)
    have q: "st b3 (runList b3 i) \<noteq> LEFT" if "i < idx" for i
      using "1.prems"(4) [OF that] that by (simp add: b3_def)
    have "0 < card {u. st b u = LEFT}" using finite_state [OF "1.prems"(2), of LEFT] drop(2) by (auto simp: card_gt_0_iff)
    then have c: "card {u. st b u = LEFT} = Suc (card {u. st b3 u = LEFT})"
      using state_count [OF "1.prems"(2) s, of LEFT] drop(2) by simp
    have e: "(if st b3 u = LEFT then OFFLINE else st b3 u) = (if st b u = LEFT then OFFLINE else st b u)" for u
      using s drop by simp
    have m: "m = Suc (m - 1)" using drop by simp
    have "list_inv m' b' \<and> m - 1 = m' + card {t. st b3 t = LEFT}
      \<and> (\<forall>t. st b' t = (if st b3 t = LEFT then OFFLINE else st b3 t) \<and> futexWord (threadList b' t) = futexWord (threadList b3 t))
      \<and> parallelThreads b' = parallelThreads b3 \<and> runningThreads b' = runningThreads b3
      \<and> curThreadIdx b' = curThreadIdx b3 \<and> bar_effects b' = bar_effects b3"
      by (rule "1.IH"(1) [OF drop(1) t_def _ refl refl refl, folded b3_def]) (use drop r l q in \<open>simp_all add: b3_def\<close>)
    then show ?thesis using c m unfolding e by (simp add: b3_def)
  next
    case keep
    have r: "cleanup_pass (idx + 1) m b = (m', b')"
      using "1.prems"(1) keep by (subst (asm) cleanup_pass.simps) (simp add: Let_def t_def)
    show ?thesis
      by (rule "1.IH"(2) [OF keep(1) t_def keep(2) r "1.prems"(2)])
        (use keep "1.prems"(4) in \<open>auto simp: less_Suc_eq t_def\<close>)
  next
    case stop
    then have "m' = m" "b' = b" using "1.prems"(1) by (subst (asm) cleanup_pass.simps, simp)+
    moreover have "st b u \<noteq> LEFT" for u
    proof
      assume u: "st b u = LEFT"
      then obtain i where "i < idx" "runList b i = u" using on_list [OF "1.prems"(2), of u] stop by auto
      then show False using "1.prems"(4) [of i] u by simp
    qed
    ultimately show ?thesis using "1.prems"(2) by auto
  qed
qed


text \<open>
  The shuffle needs only that a draw stays within its bound, which is what the generator
  promises.
\<close>

locale bounded_draw =
  fixes draw :: "nat \<Rightarrow> 'r \<Rightarrow> (nat \<times> 'r) option"
  assumes in_bound: "draw i r = Some (j, r') \<Longrightarrow> j \<le> i"
begin

lemma below: "draw i r = Some (j, r') \<Longrightarrow> i < n \<Longrightarrow> j < n"
  using in_bound by fastforce

end

interpretation mt_draw: bounded_draw draw_index
proof
  fix i r j r' assume "draw_index i r = Some (j, r')"
  then obtain x where "randInt_below (of_nat i) r = Some (x, r')" "j = unat x" by (auto simp: draw_index_def)
  then have "j \<le> unat (of_nat i :: u64)" using randInt_below_le by (fastforce simp: word_le_nat_alt)
  then show "j \<le> i" by (metis le_trans unat_of_nat mod_less_eq_dividend)
qed

definition no_runner :: "nat \<Rightarrow> barrier \<Rightarrow> barrier \<Rightarrow> bool" where
  "no_runner n b b' \<longleftrightarrow> bar_inv b' \<and> curThreadIdx b' = 0 \<and> runningThreads b' = 0
     \<and> parallelThreads b' = parallelThreads b \<and> runListSize b' = n \<and> (\<forall>t. st b' t = WAITING \<longleftrightarrow> st b t = WAITING)"

lemma shuffle_step_inv:
  assumes "no_runner n b0 b" and "i < n" and "shuffle_step i b = Inr b'"
  shows "no_runner n b0 b'"
proof -
  have l: "list_inv n b" and c: "count_inv b" and p: "place_inv b"
    using assms(1) by (auto simp: no_runner_def bar_inv_def)
  from assms(3) obtain j r where x: "draw_index i (bar_rnd b) = Some (j, r)"
    by (auto simp: shuffle_step_def split: option.splits)
  have j: "j < n" by (rule mt_draw.below [OF x assms(2)])
  have b': "b' = set_lastIdx i (runList b j) (set_lastIdx j (runList b i)
      (b\<lparr>bar_rnd := r, runList := (runList b)(i := runList b j, j := runList b i)\<rparr>))"
    using assms(3) x by (simp add: shuffle_step_def Let_def)
  have rl: "runList b' = (runList b)(i := runList b j, j := runList b i)" by (simp add: b')
  have s: "\<And>t. st b' t = st b t" by (simp add: b')
  have li: "lastIdx (threadList b' t) = (if t = runList b j then i else if t = runList b i then j else lastIdx (threadList b t))" for t
    by (simp add: b')
  have "list_inv n b'" by (rule swap_list_inv [OF l assms(2) j s rl])
  moreover have "count_inv b'" using c by (simp add: b' count_inv_def)
  moreover have "place_inv b'"
    using p c assms(1) finite_state [OF l] swap_at_index [OF l assms(2) j _ rl li]
    by (simp add: place_inv_def no_runner_def count_inv_def s) (simp add: b')
  ultimately show ?thesis using assms(1) by (simp add: no_runner_def bar_inv_def s) (simp add: b')
qed

lemma shuffle_inv:
  assumes "no_runner n b0 b"
  shows "shuffle b = Inl NoReturn \<or> (\<exists>b'. shuffle b = Inr b' \<and> no_runner n b0 b')"
proof -
  have "rfold shuffle_step xs b = Inl NoReturn \<or> (\<exists>b'. rfold shuffle_step xs b = Inr b' \<and> no_runner n b0 b')"
    if "set xs \<subseteq> {..<n}" for xs using assms that
  proof (induction xs arbitrary: b)
    case (Cons i xs)
    then show ?case
    proof (cases "shuffle_step i b")
      case (Inl e)
      then show ?thesis by (auto simp: shuffle_step_def Let_def split: option.splits prod.splits)
    next
      case (Inr b1)
      have "no_runner n b0 b1" by (rule shuffle_step_inv [OF Cons.prems(1) _ Inr]) (use Cons.prems in simp)
      then show ?thesis using Cons.IH Cons.prems(2) Inr by simp
    qed
  qed simp
  moreover have "set (rev [1..<n]) \<subseteq> {..<n}" by auto
  moreover have "runListSize b = n" using assms by (simp add: no_runner_def)
  ultimately show ?thesis unfolding shuffle_def by blast
qed


lemma end_phase_inv:
  assumes "bar_inv b" and "curThreadIdx b = runListSize b" and "runningThreads b = 0"
  shows "no_runner (runListSize b) b (b\<lparr>bar_effects := PhaseEnd (waiting_list b) # bar_effects b, curThreadIdx := 0\<rparr>)"
proof -
  have l: "list_inv (runListSize b) b" and c: "count_inv b" and p: "place_inv b"
    using assms(1) by (auto simp: bar_inv_def)
  have "st b t \<noteq> RUNNING" for t using c assms(3) finite_state [OF l, of RUNNING] by (auto simp: count_inv_def)
  moreover have "set (waiting_list b) \<subseteq> woken (bar_effects b)"
    using p assms(2) by (auto simp: waiting_list_def place_inv_def)
  ultimately show ?thesis using l c p assms(3)
    by (simp add: no_runner_def bar_inv_def list_inv_def count_inv_def place_inv_def at_index_def)
qed

lemma left_bound:
  assumes "list_inv n b" and "count_inv b"
  shows "leftThreads b \<le> n"
    and "leftThreads b \<noteq> n \<Longrightarrow> runningThreads b = 0 \<Longrightarrow> \<exists>t. st b t = WAITING"
proof -
  let ?L = "{t. st b t = LEFT}" and ?A = "{t. st b t \<noteq> OFFLINE}"
  have A: "finite ?A" "card ?A = n" using assms(1) count_members [OF assms(1)]
    by (auto simp: list_inv_def intro: finite_subset [of _ "{..<MAX_THREADS}"])
  have L: "leftThreads b = card ?L" "?L \<subseteq> ?A" using assms(2) by (auto simp: count_inv_def)
  show "leftThreads b \<le> n" using card_mono [OF A(1) L(2)] A(2) L(1) by simp
  assume n: "leftThreads b \<noteq> n" and r: "runningThreads b = 0"
  have nr: "st b t \<noteq> RUNNING" for t
    using assms(2) r finite_state [OF assms(1), of RUNNING] by (auto simp: count_inv_def)
  from n A(2) L have "?L \<noteq> ?A" by auto
  then obtain t where "st b t \<noteq> LEFT" "st b t \<noteq> OFFLINE" by auto
  then show "\<exists>t. st b t = WAITING" using nr by (cases "st b t") auto
qed

lemma bar_inv_phaseCount: "bar_inv (b\<lparr>phaseCount := w\<rparr>) = bar_inv b"
  by (simp add: bar_inv_def list_inv_def count_inv_def place_inv_def at_index_def)

lemma end_phase_cleanup_inv:
  assumes "no_runner n b0 b" and "leftThreads b \<noteq> n"
  shows "\<exists>b' n'. end_phase_cleanup b = Inr b' \<and> no_runner n' b0 b' \<and> n' \<le> n"
proof (cases "phaseCount b AND 31 = 0")
  case True
  define b1 where "b1 = b\<lparr>phaseCount := phaseCount b + 1\<rparr>"
  have f: "runListSize b = n" "runningThreads b = 0" "curThreadIdx b = 0"
    and i: "list_inv n b" "count_inv b" "place_inv b" using assms(1) by (auto simp: no_runner_def bar_inv_def)
  obtain m b2 where m: "cleanup_pass 0 n b1 = (m, b2)" by fastforce
  have l1: "list_inv n b1" using i(1) by (simp add: list_inv_def b1_def)
  note spec = cleanup_pass_spec [OF m l1]
  have s: "list_inv m b2" "n = m + leftThreads b" "\<And>t. st b2 t = (if st b t = LEFT then OFFLINE else st b t)"
    "\<And>t. futexWord (threadList b2 t) = futexWord (threadList b t)" "parallelThreads b2 = parallelThreads b"
    "runningThreads b2 = 0" "curThreadIdx b2 = 0" "bar_effects b2 = bar_effects b"
    using spec i(2) f by (auto simp: count_inv_def b1_def)
  let ?b = "b2\<lparr>leftThreads := 0, runListSize := m\<rparr>"
  have "0 < n" using left_bound(1) [OF i(1,2)] assms(2) by simp
  then have r: "end_phase_cleanup b = Inr ?b"
    using True m s(2) f(1) by (simp add: end_phase_cleanup_def b1_def Let_def)
  have nr: "st b t \<noteq> RUNNING" for t using i(2) f(2) finite_state [OF i(1), of RUNNING] by (auto simp: count_inv_def)
  have "st ?b t \<noteq> LEFT" "st ?b t \<noteq> RUNNING" for t using s(3) nr by simp_all
  then have "count_inv ?b" "place_inv ?b"
    using i(2,3) s by (simp_all add: count_inv_def place_inv_def)
  moreover have "list_inv m ?b" using s(1) by (simp add: list_inv_def)
  moreover have "st ?b t = WAITING \<longleftrightarrow> st b0 t = WAITING" for t
  proof -
    have "st b t = WAITING \<longleftrightarrow> st b0 t = WAITING" using assms(1) by (simp add: no_runner_def)
    then show ?thesis using s(3) [of t] by (cases "st b t") auto
  qed
  ultimately have "no_runner m b0 ?b" using assms(1) s(1,5,6,7)
    by (simp add: no_runner_def bar_inv_def)
  then show ?thesis using r s(2) by (intro exI [of _ ?b] exI [of _ m]) simp
next
  case False
  have "no_runner n b0 (b\<lparr>phaseCount := phaseCount b + 1\<rparr>)"
    using assms(1) bar_inv_phaseCount by (simp add: no_runner_def)
  moreover have "end_phase_cleanup b = Inr (b\<lparr>phaseCount := phaseCount b + 1\<rparr>)"
    using False by (simp add: end_phase_cleanup_def Let_def)
  ultimately show ?thesis by blast
qed

lemma checkEndPhase_inv:
  assumes "bar_inv b"
  shows "(checkEndPhase b = Inl NoReturn \<and> parallelThreads b < runListSize b)
    \<or> (\<exists>b'. checkEndPhase b = Inr b' \<and> bar_inv b' \<and> parallelThreads b' = parallelThreads b
      \<and> (if curThreadIdx b = runListSize b \<and> runningThreads b = 0 \<and> leftThreads b \<noteq> runListSize b
          then curThreadIdx b' = 0 \<and> (\<exists>t. st b' t = WAITING) else b' = b))"
proof (cases "curThreadIdx b = runListSize b \<and> runningThreads b = 0 \<and> leftThreads b \<noteq> runListSize b")
  case True
  let ?n = "runListSize b"
  define b1 where "b1 = b\<lparr>bar_effects := PhaseEnd (waiting_list b) # bar_effects b, curThreadIdx := 0\<rparr>"
  have n1: "no_runner ?n b b1" using end_phase_inv [OF assms] True by (simp add: b1_def)
  obtain b2 n2 where b2: "end_phase_cleanup b1 = Inr b2" "no_runner n2 b b2" "n2 \<le> ?n"
    using end_phase_cleanup_inv [OF n1] True by (auto simp: b1_def)
  have e: "checkEndPhase b = (if parallelThreads b < n2 then shuffle b2 else Inr b2)"
    using True b2 by (simp add: checkEndPhase_def b1_def [symmetric] no_runner_def)
  have w: "\<exists>t. st b t = WAITING" using True assms left_bound(2) by (auto simp: bar_inv_def)
  have d: "bar_inv b' \<and> parallelThreads b' = parallelThreads b \<and> curThreadIdx b' = 0 \<and> (\<exists>t. st b' t = WAITING)"
    if "no_runner n2 b b'" for b' using that w by (auto simp: no_runner_def)
  show ?thesis
  proof (cases "parallelThreads b < n2")
    case shuf: True
    then show ?thesis using shuffle_inv [OF b2(2)] e d b2(3) True by auto
  next
    case False
    then show ?thesis using e d [OF b2(2)] True by auto
  qed
next
  case False
  then have "checkEndPhase b = Inr b" by (auto simp: checkEndPhase_def)
  then show ?thesis using assms False by auto
qed


subsection \<open>The operations keep the invariant\<close>

text \<open>
  What every operation leaves behind: the parallelism is used up or the list is exhausted,
  and somebody runs unless all threads have left.
\<close>

definition at_rest :: "barrier \<Rightarrow> bool" where
  "at_rest b \<longleftrightarrow> (runningThreads b = parallelThreads b \<or> curThreadIdx b = runListSize b)
     \<and> (0 < runningThreads b \<or> leftThreads b = runListSize b)"

lemma unserved_index:
  assumes "list_inv n b" and "st b t = WAITING"
  shows "\<exists>i<n. st b (runList b i) = WAITING"
  using on_list [OF assms(1), of t] assms(2) by auto

lemma tryWakeNext_inv:
  assumes "bar_inv b" and "0 < parallelThreads b"
  shows "(tryWakeNext b = Inl NoReturn \<and> parallelThreads b < runListSize b)
    \<or> (\<exists>b'. tryWakeNext b = Inr b' \<and> bar_inv b' \<and> at_rest b' \<and> parallelThreads b' = parallelThreads b)"
proof -
  obtain b1 where b1: "checkRunList b = Inr b1" "bar_inv b1" "woke b b1"
    "runningThreads b1 = parallelThreads b1 \<or> curThreadIdx b1 = runListSize b1"
    using checkRunList_inv [OF assms(1)] by blast
  have p1: "parallelThreads b1 = parallelThreads b" "runListSize b1 = runListSize b" using b1(3) by (simp_all add: woke_def)
  from checkEndPhase_inv [OF b1(2)] show ?thesis
  proof
    assume "checkEndPhase b1 = Inl NoReturn \<and> parallelThreads b1 < runListSize b1"
    then show ?thesis using b1(1) p1 by (simp add: tryWakeNext_def)
  next
    assume "\<exists>b'. checkEndPhase b1 = Inr b' \<and> bar_inv b' \<and> parallelThreads b' = parallelThreads b1
      \<and> (if curThreadIdx b1 = runListSize b1 \<and> runningThreads b1 = 0 \<and> leftThreads b1 \<noteq> runListSize b1
          then curThreadIdx b' = 0 \<and> (\<exists>t. st b' t = WAITING) else b' = b1)"
    then obtain b2 where b2: "checkEndPhase b1 = Inr b2" "bar_inv b2" "parallelThreads b2 = parallelThreads b1"
      "if curThreadIdx b1 = runListSize b1 \<and> runningThreads b1 = 0 \<and> leftThreads b1 \<noteq> runListSize b1
       then curThreadIdx b2 = 0 \<and> (\<exists>t. st b2 t = WAITING) else b2 = b1" by blast
    obtain b3 where b3: "checkRunList b2 = Inr b3" "bar_inv b3" "woke b2 b3"
      "runningThreads b3 = parallelThreads b3 \<or> curThreadIdx b3 = runListSize b3"
      "0 < parallelThreads b2 \<and> (\<exists>i. curThreadIdx b2 \<le> i \<and> i < runListSize b2 \<and> st b2 (runList b2 i) = WAITING)
        \<longrightarrow> 0 < runningThreads b3"
      using checkRunList_inv [OF b2(2)] by blast
    have "0 < runningThreads b3 \<or> leftThreads b3 = runListSize b3"
    proof (cases "curThreadIdx b1 = runListSize b1 \<and> runningThreads b1 = 0 \<and> leftThreads b1 \<noteq> runListSize b1")
      case True
      then have "curThreadIdx b2 = 0" "\<exists>t. st b2 t = WAITING" using b2(4) by simp_all
      moreover have "list_inv (runListSize b2) b2" using b2(2) by (simp add: bar_inv_def)
      ultimately show ?thesis using b3(5) assms(2) b2(3) p1(1) unserved_index by (metis le0)
    next
      case False
      then have "b2 = b1" using b2(4) by simp
      then show ?thesis using False b1(4) b3(3) assms(2) p1(1) by (auto simp: woke_def)
    qed
    then show ?thesis using b1(1) b2(1,3) b3 p1(1) by (auto simp: tryWakeNext_def at_rest_def woke_def)
  qed
qed

datatype bar_op = Join nat | Leave nat | Sync nat

primrec bar_exec :: "bar_op \<Rightarrow> barrier \<Rightarrow> barrier res" where
  "bar_exec (Join t) = bar_join t"
| "bar_exec (Leave t) = bar_leave t"
| "bar_exec (Sync t) = bar_sync t"

text \<open>
  What the scheduler may call: a thread outside joins, a running one syncs or leaves. A
  waiting thread may be taken off only where its \<open>lastIdx\<close> is its own place on the list.
\<close>

primrec bar_allowed :: "bar_op \<Rightarrow> barrier \<Rightarrow> bool" where
  "bar_allowed (Join t) b = (t < MAX_THREADS \<and> st b t \<in> {OFFLINE, LEFT})"
| "bar_allowed (Leave t) b = (st b t = RUNNING \<or> st b t = WAITING \<and> at_index (runListSize b) t b)"
| "bar_allowed (Sync t) b = (st b t = RUNNING)"

lemma take_off_inv:
  assumes "bar_inv b" and "st b t \<in> {RUNNING, WAITING}" and "at_index (runListSize b) t b"
    and "rn = (if st b t = RUNNING then u32_dec (runningThreads b) else runningThreads b)"
  shows "bar_inv ((set_state LEFT t b)\<lparr>leftThreads := leftThreads b + 1, runningThreads := rn\<rparr>)"
proof -
  define b' where "b' = (set_state LEFT t b)\<lparr>leftThreads := leftThreads b + 1, runningThreads := rn\<rparr>"
  have l: "list_inv (runListSize b) b" and c: "count_inv b" and p: "place_inv b"
    using assms(1) by (auto simp: bar_inv_def)
  have s: "\<And>u. st b' u = (if u = t then LEFT else st b u)" by (simp add: b'_def)
  have "list_inv (runListSize b) b'" using l assms(2) by (subst list_inv_cong [of _ b]) (auto simp: s b'_def)
  moreover have "count_inv b'"
  proof -
    have "0 < card {u. st b u = RUNNING}" if "st b t = RUNNING"
      using finite_state [OF l, of RUNNING] that by (auto simp: card_gt_0_iff)
    then show ?thesis using c assms(2,4) state_count [OF l s]
      by (simp add: count_inv_def) (auto simp: b'_def u32_dec_def)
  qed
  moreover have "place_inv b'"
    using p assms(3) by (auto simp: place_inv_def at_index_def b'_def)
  ultimately show ?thesis by (simp add: bar_inv_def b'_def)
qed


lemma running_indexed: "place_inv b \<Longrightarrow> st b t = RUNNING \<Longrightarrow> at_index (runListSize b) t b"
  by (auto simp: place_inv_def at_index_def intro: less_le_trans)

lemma sync_inv:
  assumes "bar_inv b" and "st b t = RUNNING"
  shows "bar_inv ((set_state WAITING t (set_futex 1 t b))\<lparr>runningThreads := u32_dec (runningThreads b)\<rparr>)"
proof -
  define b' where "b' = (set_state WAITING t (set_futex 1 t b))\<lparr>runningThreads := u32_dec (runningThreads b)\<rparr>"
  have l: "list_inv (runListSize b) b" and c: "count_inv b" and p: "place_inv b"
    using assms(1) by (auto simp: bar_inv_def)
  have s: "\<And>u. st b' u = (if u = t then WAITING else st b u)" by (simp add: b'_def)
  have "list_inv (runListSize b) b'" using l assms(2) by (subst list_inv_cong [of _ b]) (auto simp: s b'_def)
  moreover have "count_inv b'"
  proof -
    have "0 < card {u. st b u = RUNNING}" using finite_state [OF l, of RUNNING] assms(2) by (auto simp: card_gt_0_iff)
    then show ?thesis using c assms(2) state_count [OF l s]
      by (simp add: count_inv_def) (auto simp: b'_def u32_dec_def)
  qed
  moreover have "place_inv b'"
    using p assms(2) by (auto simp: place_inv_def at_index_def b'_def)
  ultimately show ?thesis by (simp add: bar_inv_def b'_def)
qed

lemma join_new_inv:
  assumes "bar_inv b" and "st b t = OFFLINE" and "t < MAX_THREADS"
  shows "bar_inv (set_futex 1 t (set_state WAITING t
    (b\<lparr>runList := (runList b)(runListSize b := t), runListSize := runListSize b + 1\<rparr>)))"
proof -
  define b' where "b' = set_futex 1 t (set_state WAITING t
    (b\<lparr>runList := (runList b)(runListSize b := t), runListSize := runListSize b + 1\<rparr>))"
  let ?n = "runListSize b"
  have l: "list_inv ?n b" and c: "count_inv b" and p: "place_inv b"
    using assms(1) by (auto simp: bar_inv_def)
  have s: "\<And>u. st b' u = (if u = t then WAITING else st b u)" by (simp add: b'_def)
  have rl: "runList b' = (runList b)(?n := t)" by (simp add: b'_def)
  have t: "t \<notin> runList b ` {..<?n}" using listed [OF l] assms(2) by fastforce
  have "inj_on (runList b') {..<Suc ?n}"
    using l t by (auto simp: rl list_inv_def lessThan_Suc inj_on_def)
  moreover have "runList b' ` {..<Suc ?n} = {u. st b' u \<noteq> OFFLINE}"
    using l by (auto simp: rl s list_inv_def lessThan_Suc)
  ultimately have "list_inv (Suc ?n) b'" using l assms(3) by (auto simp: list_inv_def s)
  moreover have "count_inv b'"
    using c assms(2) state_count [OF l s] by (simp add: count_inv_def) (auto simp: b'_def)
  moreover have "place_inv b'"
  proof -
    have "runList b i \<noteq> t" if "i < curThreadIdx b" for i using t p that by (auto simp: place_inv_def)
    then show ?thesis using p assms(2) by (auto simp: place_inv_def at_index_def b'_def less_Suc_eq)
  qed
  ultimately show ?thesis by (simp add: bar_inv_def b'_def)
qed

lemma rejoin_inv:
  assumes "bar_inv b" and "st b t = LEFT"
  shows "\<exists>b1. rejoin_same_phase t (b\<lparr>leftThreads := u32_dec (leftThreads b)\<rparr>) = Inr b1
    \<and> bar_inv (set_futex 1 t (set_state WAITING t b1)) \<and> runListSize b1 = runListSize b
    \<and> parallelThreads b1 = parallelThreads b"
proof -
  let ?n = "runListSize b"
  define li where "li = lastIdx (threadList b t)"
  define c where "c = (if li < curThreadIdx b then curThreadIdx b - 1 else li)"
  define b1 where "b1 = (if li < curThreadIdx b
     then set_lastIdx c t (set_lastIdx li (runList b c)
       (b\<lparr>leftThreads := u32_dec (leftThreads b), curThreadIdx := c, runList := (runList b)(li := runList b c, c := t)\<rparr>))
     else b\<lparr>leftThreads := u32_dec (leftThreads b)\<rparr>)"
  define b' where "b' = set_futex 1 t (set_state WAITING t b1)"
  have l: "list_inv ?n b" and ci: "count_inv b" and p: "place_inv b"
    using assms(1) by (auto simp: bar_inv_def)
  have t: "li < ?n" "runList b li = t" using p assms(2) by (auto simp: place_inv_def at_index_def li_def)
  have cn: "c < ?n" using t p by (auto simp: c_def place_inv_def)
  have r: "rejoin_same_phase t (b\<lparr>leftThreads := u32_dec (leftThreads b)\<rparr>) = Inr b1"
    using t by (simp add: rejoin_same_phase_def b1_def c_def li_def Let_def)
  have rl: "runList b' = (runList b)(li := runList b c, c := runList b li)" using t by (auto simp: b'_def b1_def c_def)
  have ix: "lastIdx (threadList b' u)
      = (if u = runList b c then li else if u = runList b li then c else lastIdx (threadList b u))" for u
  proof (cases "c = li")
    case True
    then show ?thesis using t by (auto simp: b'_def b1_def li_def)
  next
    case False
    then have "runList b c \<noteq> t" using same_index [OF l cn t(1)] t(2) by simp
    then show ?thesis using t False by (auto simp: b'_def b1_def c_def li_def)
  qed
  have s: "\<And>u. st b' u = (if u = t then WAITING else st b u)" by (simp add: b'_def b1_def)
  have "list_inv ?n (b'\<lparr>threadList := threadList b\<rparr>)"
    by (rule swap_list_inv [OF l t(1) cn]) (use rl in simp_all)
  then have "list_inv ?n b'" using assms(2) by (subst (asm) list_inv_cong [of _ b']) (auto simp: s)
  moreover have "count_inv b'"
  proof -
    have "0 < card {u. st b u = LEFT}" using finite_state [OF l, of LEFT] assms(2) by (auto simp: card_gt_0_iff)
    then show ?thesis using ci assms(2) state_count [OF l s]
      by (simp add: count_inv_def) (auto simp: b'_def b1_def u32_dec_def)
  qed
  moreover have "place_inv b'"
  proof -
    have lt: "at_index ?n u b'" if "st b u = LEFT" for u
      using swap_at_index [OF l t(1) cn _ rl ix] p that by (simp add: place_inv_def)
    have cu: "curThreadIdx b' = (if li < curThreadIdx b then c else curThreadIdx b)" by (simp add: b'_def b1_def)
    have ot: "runList b' i \<noteq> t \<and> (\<exists>k<curThreadIdx b. runList b' i = runList b k)" if "i < curThreadIdx b'" for i
    proof (cases "li < curThreadIdx b")
      case True
      then have "i < c" "c < curThreadIdx b" using that cu by (auto simp: c_def)
      then show ?thesis using rl t same_index [OF l _ t(1)] cn by (auto intro: less_trans)
    next
      case False
      then have "c = li" "i < curThreadIdx b" "i < li" using that cu by (auto simp: c_def)
      then show ?thesis using rl t same_index [OF l _ t(1)] by (auto intro: less_trans)
    qed
    have rn: "at_index (curThreadIdx b') u b'" if "st b u = RUNNING" for u
    proof -
      define k where "k = lastIdx (threadList b u)"
      have k: "k < curThreadIdx b" "runList b k = u" "k \<noteq> li"
        using p that t(2) assms(2) by (auto simp: place_inv_def at_index_def k_def)
      have kn: "k < ?n" using k(1) p by (simp add: place_inv_def)
      have e: "u = runList b c \<longleftrightarrow> k = c" "u \<noteq> runList b li"
        using same_index [OF l kn cn] same_index [OF l kn t(1)] k(2,3) by auto
      have "lastIdx (threadList b' u) = (if k = c then li else k)" using ix [of u] e by (simp add: k_def)
      then show ?thesis using k rl cu e by (auto simp: at_index_def c_def split: if_splits)
    qed
    have be: "bar_effects b' = bar_effects b" by (simp add: b'_def b1_def)
    show ?thesis unfolding place_inv_def
    proof (intro conjI allI impI)
      fix i assume i: "i < curThreadIdx b'" and w: "st b' (runList b' i) \<in> {WAITING, RUNNING}"
      from ot [OF i] obtain k where "k < curThreadIdx b" "runList b' i = runList b k" "runList b k \<noteq> t" by auto
      then show "runList b' i \<in> woken (bar_effects b')" using w p by (auto simp: s be place_inv_def)
    qed (use p lt rn s in \<open>auto simp: place_inv_def cu c_def b'_def b1_def split: if_splits\<close>)
  qed
  moreover have "runListSize b' = ?n" "runListSize b1 = ?n" "parallelThreads b1 = parallelThreads b"
    by (simp_all add: b'_def b1_def)
  ultimately show ?thesis using r by (auto simp: bar_inv_def b'_def)
qed


lemma all_left:
  assumes "list_inv n b" and "count_inv b" and "leftThreads b = n" and "st b t \<noteq> OFFLINE"
  shows "st b t = LEFT"
proof -
  have "{t. st b t = LEFT} = {t. st b t \<noteq> OFFLINE}"
  proof (rule card_subset_eq)
    show "finite {t. st b t \<noteq> OFFLINE}" using assms(1) by (auto simp: list_inv_def intro: finite_subset)
    show "card {t. st b t = LEFT} = card {t. st b t \<noteq> OFFLINE}"
      using assms(2,3) count_members [OF assms(1)] by (simp add: count_inv_def)
  qed auto
  then show ?thesis using assms(4) by blast
qed

lemma bar_exec_inv:
  assumes "bar_inv b" and "at_rest b" and "0 < parallelThreads b" and "bar_allowed op b"
  shows "(bar_exec op b = Inl NoReturn \<and> parallelThreads b \<le> runListSize b)
    \<or> (\<exists>b'. bar_exec op b = Inr b' \<and> bar_inv b' \<and> at_rest b' \<and> parallelThreads b' = parallelThreads b)"
proof (cases op)
  case (Join t)
  then have t: "t < MAX_THREADS" "st b t \<in> {OFFLINE, LEFT}" using assms(4) by auto
  show ?thesis
  proof (cases "st b t = OFFLINE")
    case True
    from tryWakeNext_inv [OF join_new_inv [OF assms(1) True t(1)]] show ?thesis
      using assms(3) True by (auto simp: Join bar_join_def)
  next
    case False
    then have l: "st b t = LEFT" using t(2) by simp
    from rejoin_inv [OF assms(1) l] obtain b1 where
      b1: "rejoin_same_phase t (b\<lparr>leftThreads := u32_dec (leftThreads b)\<rparr>) = Inr b1"
        "bar_inv (set_futex 1 t (set_state WAITING t b1))" "runListSize b1 = runListSize b"
        "parallelThreads b1 = parallelThreads b" by blast
    from tryWakeNext_inv [OF b1(2)] show ?thesis
      using assms(3) l b1 by (auto simp: Join bar_join_def)
  qed
next
  case (Sync t)
  then have r: "st b t = RUNNING" using assms(4) by simp
  from tryWakeNext_inv [OF sync_inv [OF assms(1) r]] show ?thesis using assms(3) r by (auto simp: Sync bar_sync_def)
next
  case (Leave t)
  have i: "list_inv (runListSize b) b" "count_inv b" "place_inv b" using assms(1) by (auto simp: bar_inv_def)
  show ?thesis
  proof (cases "st b t = RUNNING")
    case True
    from tryWakeNext_inv [OF take_off_inv [OF assms(1) _ running_indexed [OF i(3) True] refl]] True show ?thesis
      using assms(3) by (auto simp: Leave bar_leave_def)
  next
    case False
    then have w: "st b t = WAITING" "at_index (runListSize b) t b" using assms(4) Leave by auto
    have "leftThreads b \<noteq> runListSize b" using all_left [OF i(1,2), of t] w(1) by auto
    then have "at_rest ((set_state LEFT t b)\<lparr>leftThreads := leftThreads b + 1\<rparr>)"
      using assms(2) by (auto simp: at_rest_def)
    moreover have "bar_inv ((set_state LEFT t b)\<lparr>leftThreads := leftThreads b + 1, runningThreads := runningThreads b\<rparr>)"
      by (rule take_off_inv [OF assms(1) _ w(2)]) (use w(1) in simp_all)
    moreover have "(set_state LEFT t b)\<lparr>leftThreads := leftThreads b + 1, runningThreads := runningThreads b\<rparr>
      = (set_state LEFT t b)\<lparr>leftThreads := leftThreads b + 1\<rparr>" by (simp add: set_state_def)
    ultimately have "bar_inv ((set_state LEFT t b)\<lparr>leftThreads := leftThreads b + 1\<rparr>)
      \<and> at_rest ((set_state LEFT t b)\<lparr>leftThreads := leftThreads b + 1\<rparr>)" by (simp only:)
    moreover have "bar_exec op b = Inr ((set_state LEFT t b)\<lparr>leftThreads := leftThreads b + 1\<rparr>)"
      using w(1) by (simp add: Leave bar_leave_def)
    ultimately show ?thesis by (intro disjI2 exI [of _ "(set_state LEFT t b)\<lparr>leftThreads := leftThreads b + 1\<rparr>"]) simp
  qed
qed

text \<open>The states of a barrier with \<open>p\<close> slots that its clients can bring about.\<close>

inductive bar_reach :: "nat \<Rightarrow> barrier \<Rightarrow> bool" for p where
  start: "bar_reach p (barrier_init p g r)"
| step: "bar_reach p b \<Longrightarrow> bar_allowed op b \<Longrightarrow> bar_exec op b = Inr b' \<Longrightarrow> bar_reach p b'"

lemma barrier_init_inv: "bar_inv (barrier_init p g r) \<and> at_rest (barrier_init p g r) \<and> parallelThreads (barrier_init p g r) = p"
  by (simp add: barrier_init_def bar_inv_def list_inv_def count_inv_def place_inv_def at_rest_def)

lemma bar_reach_inv: "bar_reach p b \<Longrightarrow> 0 < p \<Longrightarrow> bar_inv b \<and> at_rest b \<and> parallelThreads b = p"
proof (induction rule: bar_reach.induct)
  case (step b op b')
  then show ?case using bar_exec_inv [of b op] by auto
qed (simp add: barrier_init_inv)

lemma fair_split: "phases_fair (xs @ PhaseEnd ws # ys) \<Longrightarrow> set ws \<subseteq> woken ys"
proof (induction xs)
  case (Cons e xs)
  then show ?case by (cases e) auto
qed simp

lemma rest_progress:
  assumes "list_inv (runListSize b) b" and "count_inv b" and "at_rest b"
  shows "(\<exists>t. st b t = RUNNING) \<or> (\<forall>t. st b t = OFFLINE \<or> st b t = LEFT)"
proof (cases "runningThreads b = 0")
  case True
  then have "leftThreads b = runListSize b" using assms(3) by (simp add: at_rest_def)
  then show ?thesis using all_left [OF assms(1,2)] by blast
next
  case False
  then have "card {t. st b t = RUNNING} \<noteq> 0" using assms(2) by (simp add: count_inv_def)
  then have "{t. st b t = RUNNING} \<noteq> {}" by (metis card.empty)
  then show ?thesis by blast
qed

subsection \<open>Safety and progress\<close>


text \<open>A barrier with one slot in which thread 1 runs and thread 2 waits.\<close>

definition one_running :: "mtrand \<Rightarrow> barrier" where
  "one_running r = set_futex 0 1 (set_lastIdx 0 1 (set_state RUNNING 1
     (set_futex 1 1 (set_state WAITING 1
       ((barrier_init 1 (\<lambda>_. 0) r)\<lparr>runList := (\<lambda>_. 0)(0 := 1), runListSize := 1, curThreadIdx := 1\<rparr>)))))
     \<lparr>runningThreads := 1, bar_effects := [Wake 1]\<rparr>"

definition one_waiting :: "mtrand \<Rightarrow> barrier" where
  "one_waiting r = set_futex 1 2 (set_state WAITING 2
     ((one_running r)\<lparr>runList := (\<lambda>_. 0)(0 := 1, 1 := 2), runListSize := 2\<rparr>))"

lemmas bar_run_defs = bar_join_def bar_leave_def bar_sync_def barrier_init_def tryWakeNext_def checkRunList.simps wake_next_def
  checkEndPhase_def rejoin_same_phase_def one_running_def one_waiting_def set_futex_def set_lastIdx_def set_state_def Let_def

lemma join_first: "bar_join 1 (barrier_init 1 (\<lambda>_. 0) r) = Inr (one_running r)"
  by (simp add: bar_run_defs)

lemma join_second: "bar_join 2 (one_running r) = Inr (one_waiting r)"
  by (simp add: bar_run_defs)

lemma one_running_reach: "bar_reach 1 (one_running r)"
  by (rule bar_reach.step [OF bar_reach.start, where op = "Join 1"])
    (use join_first in \<open>auto simp: barrier_init_def MAX_THREADS_def\<close>)

lemma one_waiting_reach: "bar_reach 1 (one_waiting r)"
  by (rule bar_reach.step [OF one_running_reach, where op = "Join 2"])
    (use join_second in \<open>auto simp: one_running_def barrier_init_def MAX_THREADS_def\<close>)





lemma one_sync:
  "\<exists>b. bar_sync 1 (one_running r) = Inr b \<and> bar_effects b = [Wake 1] @ PhaseEnd [1] # [Wake 1]"
  by (simp add: bar_run_defs u32_dec_def end_phase_cleanup_def cleanup_pass.simps waiting_list_def)



end
