(* ===== verification/BarrierClient.thy ===== *)
theory BarrierClient
  imports Barrier
begin

section \<open>What the scheduler relies on\<close>

text \<open>
  The effect of each operation of the barrier on the other threads: who is in the barrier,
  who keeps running, and who still has its turn to come in the current phase. A phase ends
  only when nobody runs and nobody's turn is still to come, and never in a join.
\<close>

definition active :: "barrier \<Rightarrow> nat \<Rightarrow> bool" where
  "active b t \<longleftrightarrow> st b t = WAITING \<or> st b t = RUNNING"

definition unserved :: "barrier \<Rightarrow> nat \<Rightarrow> bool" where
  "unserved b t \<longleftrightarrow> st b t = WAITING \<and> (\<exists>i. curThreadIdx b \<le> i \<and> i < runListSize b \<and> runList b i = t)"

definition phase_ends :: "barrier \<Rightarrow> nat" where
  "phase_ends b = length (filter (\<lambda>e. case e of PhaseEnd _ \<Rightarrow> True | Wake _ \<Rightarrow> False) (bar_effects b))"

text \<open>No phase ended: waiting threads may have been woken, nothing else happened.\<close>

definition kept :: "barrier \<Rightarrow> barrier \<Rightarrow> bool" where
  "kept b b' \<longleftrightarrow> phase_ends b' = phase_ends b \<and> (\<forall>t. st b' t \<noteq> st b t \<longrightarrow> st b t = WAITING \<and> st b' t = RUNNING)
     \<and> (\<forall>t. unserved b t \<and> st b' t = WAITING \<longrightarrow> unserved b' t)"

text \<open>A phase ended.\<close>

definition turned :: "barrier \<Rightarrow> barrier \<Rightarrow> bool" where
  "turned b b' \<longleftrightarrow> phase_ends b' = Suc (phase_ends b) \<and> (\<forall>t. \<not> unserved b t \<and> st b t \<noteq> RUNNING)
     \<and> (\<forall>t. active b' t \<longleftrightarrow> active b t) \<and> (\<forall>t. st b' t = WAITING \<longrightarrow> unserved b' t)"

lemma kept_same: "kept b b"
  by (simp add: kept_def)

lemma kept_then: "kept a b \<Longrightarrow> kept b c \<Longrightarrow> kept a c"
  unfolding kept_def by (metis bar_state.distinct(9))

lemma kept_active: "kept b b' \<Longrightarrow> active b' t \<longleftrightarrow> active b t"
  unfolding kept_def active_def by metis

lemma wake_next_kept:
  assumes "wake_next b = Inr b'"
  shows "kept b b'"
proof -
  have "unserved b' t" if u: "unserved b t" and w: "st b' t = WAITING" for t
  proof -
    obtain i where i: "curThreadIdx b \<le> i" "i < runListSize b" "runList b i = t" "st b t = WAITING"
      using u by (auto simp: unserved_def)
    have "i \<noteq> curThreadIdx b"
    proof
      assume "i = curThreadIdx b"
      then have "st b' t = RUNNING" using assms i by (auto simp: wake_next_def Let_def split: if_splits)
      then show False using w by simp
    qed
    then have "curThreadIdx b' \<le> i" "runListSize b' = runListSize b" "runList b' = runList b"
      using i(1) wake_next_measure [OF assms] wake_next_woke [OF assms] by (auto simp: woke_def)
    then show ?thesis using i w by (auto simp: unserved_def)
  qed
  then show ?thesis using assms
    by (auto simp: kept_def phase_ends_def wake_next_def Let_def split: if_splits)
qed

lemma checkRunList_kept: "checkRunList b = Inr b' \<Longrightarrow> kept b b'"
proof (induction b arbitrary: b' rule: checkRunList.induct)
  case (1 b)
  show ?case
  proof (cases "runningThreads b < parallelThreads b \<and> curThreadIdx b < runListSize b")
    case True
    then obtain b1 where b1: "wake_next b = Inr b1" "checkRunList b1 = Inr b'"
      using "1.prems" by (subst (asm) checkRunList.simps) (auto split: sum.splits)
    show ?thesis by (rule kept_then [OF wake_next_kept [OF b1(1)] "1.IH" [OF True b1]])
  next
    case False
    have "b' = b" using "1.prems" by (subst (asm) checkRunList.simps) (use False in \<open>simp only: if_False sum.inject\<close>)
    then show ?thesis by (simp add: kept_same)
  qed
qed

text \<open>The cleanup and the shuffle leave the trace alone.\<close>

lemma cleanup_pass_effects: "bar_effects (snd (cleanup_pass idx m b)) = bar_effects b"
proof (induction idx m b rule: cleanup_pass.induct)
  case (1 idx m b)
  then show ?case by (subst cleanup_pass.simps) (auto simp: Let_def)
qed

lemma shuffle_effects: "shuffle b = Inr b' \<Longrightarrow> bar_effects b' = bar_effects b"
  unfolding shuffle_def
  by (rule rfold_invariant [where P = "\<lambda>c. bar_effects c = bar_effects b"])
    (auto simp: shuffle_step_def Let_def split: option.splits)

lemma end_phase_cleanup_effects: "end_phase_cleanup b = Inr b' \<Longrightarrow> bar_effects b' = bar_effects b"
  using cleanup_pass_effects [of 0 "runListSize b" "b\<lparr>phaseCount := phaseCount b + 1\<rparr>"]
  by (auto simp: end_phase_cleanup_def Let_def res_simps split: if_splits prod.splits)

lemma no_running: "bar_inv b \<Longrightarrow> runningThreads b = 0 \<Longrightarrow> st b t \<noteq> RUNNING"
  using finite_state [of "runListSize b" b RUNNING] by (auto simp: bar_inv_def count_inv_def)

lemma checkEndPhase_turn:
  assumes "bar_inv b" and "checkEndPhase b = Inr b'" and "b' \<noteq> b"
  shows "phase_ends b' = Suc (phase_ends b) \<and> curThreadIdx b = runListSize b \<and> runningThreads b = 0
    \<and> curThreadIdx b' = 0 \<and> (\<forall>t. active b' t \<longleftrightarrow> active b t)"
proof -
  define b1 where "b1 = b\<lparr>bar_effects := PhaseEnd (waiting_list b) # bar_effects b, curThreadIdx := 0\<rparr>"
  have c: "curThreadIdx b = runListSize b" "runningThreads b = 0" "leftThreads b \<noteq> runListSize b"
    using assms(2,3) by (auto simp: checkEndPhase_def split: if_splits)
  have n1: "no_runner (runListSize b) b b1" using end_phase_inv [OF assms(1) c(1,2)] by (simp add: b1_def)
  obtain b2 n2 where b2: "end_phase_cleanup b1 = Inr b2" "no_runner n2 b b2"
    using end_phase_cleanup_inv [OF n1] c(3) by (auto simp: b1_def)
  have "(if parallelThreads b2 < runListSize b2 then shuffle b2 else Inr b2) = Inr b'"
    using assms(2) c b2(1) by (simp add: checkEndPhase_def b1_def [symmetric])
  then have "no_runner n2 b b' \<and> bar_effects b' = bar_effects b2"
    using shuffle_inv [OF b2(2)] shuffle_effects [of b2 b'] b2(2) by (auto split: if_splits)
  moreover have "bar_effects b2 = PhaseEnd (waiting_list b) # bar_effects b"
    using end_phase_cleanup_effects [OF b2(1)] by (simp add: b1_def)
  ultimately have n: "no_runner n2 b b'" "bar_effects b' = PhaseEnd (waiting_list b) # bar_effects b" by simp_all
  then have "active b' t \<longleftrightarrow> active b t" for t
    using no_running [OF assms(1) c(2)] no_running [of b' t] by (auto simp: active_def no_runner_def)
  then show ?thesis using n c by (auto simp: phase_ends_def no_runner_def)
qed

lemma waiting_unserved: "bar_inv b \<Longrightarrow> curThreadIdx b = 0 \<Longrightarrow> st b t = WAITING \<Longrightarrow> unserved b t"
  using on_list [of "runListSize b" b t] by (auto simp: bar_inv_def unserved_def)

lemma kept_turned: "turned a b \<Longrightarrow> kept b c \<Longrightarrow> turned a c"
  unfolding turned_def kept_def active_def by (metis bar_state.distinct(7,9))

text \<open>Whatever is woken on the way to the end of a phase runs, and keeps the phase from ending.\<close>

lemma tryWakeNext_turn:
  assumes "bar_inv b" and "tryWakeNext b = Inr b'"
  shows "kept b b' \<or> turned b b'"
proof -
  obtain b1 b2 where r: "checkRunList b = Inr b1" "checkEndPhase b1 = Inr b2" "checkRunList b2 = Inr b'"
    using assms(2) by (auto simp: tryWakeNext_def res_simps)
  have k1: "kept b b1" and k3: "kept b2 b'" using checkRunList_kept r by blast+
  have i1: "bar_inv b1" using checkRunList_inv [OF assms(1)] r(1) by auto
  show ?thesis
  proof (cases "b2 = b1")
    case True
    then show ?thesis using kept_then [OF k1] k3 by blast
  next
    case False
    note t = checkEndPhase_turn [OF i1 r(2) False]
    have i2: "bar_inv b2" using checkEndPhase_inv [OF i1] r(2) by auto
    have n: "st b1 u \<noteq> RUNNING" "\<not> unserved b1 u" for u
      using no_running [OF i1] t by (auto simp: unserved_def)
    then have s: "st b u = st b1 u" for u using k1 by (metis kept_def)
    have "\<not> unserved b u" for u using n(2) k1 s by (metis kept_def unserved_def)
    then have "turned b b2"
      using t n(1) s k1 waiting_unserved [OF i2] by (auto simp: turned_def kept_def active_def)
    then show ?thesis using kept_turned k3 by blast
  qed
qed


subsection \<open>The operations\<close>

text \<open>The effect of an operation of \<open>t\<close> on the other threads.\<close>

definition others_ok :: "nat \<Rightarrow> barrier \<Rightarrow> barrier \<Rightarrow> bool" where
  "others_ok t b b' \<longleftrightarrow> (\<forall>u. u \<noteq> t \<longrightarrow> active b' u = active b u)
     \<and> (phase_ends b' = phase_ends b \<longrightarrow> (\<forall>u. u \<noteq> t \<longrightarrow> (st b u = RUNNING \<longrightarrow> st b' u = RUNNING)
          \<and> (unserved b u \<and> st b' u = WAITING \<longrightarrow> unserved b' u)))
     \<and> (phase_ends b' \<noteq> phase_ends b \<longrightarrow> (\<forall>u. u \<noteq> t \<longrightarrow> st b u \<noteq> RUNNING \<and> \<not> unserved b u)
          \<and> (\<forall>u. st b' u = WAITING \<longrightarrow> unserved b' u))"

lemma others_from:
  assumes "kept b0 b' \<or> turned b0 b'" and "\<And>u. u \<noteq> t \<Longrightarrow> st b0 u = st b u"
    and "\<And>u. u \<noteq> t \<Longrightarrow> unserved b u \<Longrightarrow> unserved b0 u" and "phase_ends b0 = phase_ends b"
  shows "others_ok t b b'"
  using assms(1)
proof
  assume k: "kept b0 b'"
  then have "active b' u = active b u" if "u \<noteq> t" for u
    using kept_active [OF k] assms(2) [OF that] by (simp add: active_def)
  moreover have "st b' u = RUNNING" if "u \<noteq> t" "st b u = RUNNING" for u
    using k assms(2) [OF that(1)] that(2) unfolding kept_def by (metis bar_state.distinct(7))
  moreover have "unserved b' u" if "u \<noteq> t" "unserved b u" "st b' u = WAITING" for u
    using k assms(3) [OF that(1,2)] that(3) by (simp add: kept_def)
  moreover have "phase_ends b' = phase_ends b" using k assms(4) by (simp add: kept_def)
  ultimately show ?thesis by (simp add: others_ok_def)
next
  assume k: "turned b0 b'"
  then have "active b' u = active b u" if "u \<noteq> t" for u
    using assms(2) [OF that] by (simp add: turned_def active_def)
  moreover have "st b u \<noteq> RUNNING \<and> \<not> unserved b u" if "u \<noteq> t" for u
    using k assms(2,3) that by (metis turned_def)
  ultimately show ?thesis using k assms(4) by (simp add: others_ok_def turned_def)
qed

lemma sync_effect:
  assumes "bar_inv b" and "bar_sync t b = Inr b'"
  shows "others_ok t b b' \<and> active b' t"
proof -
  define b0 where "b0 = (set_state WAITING t (set_futex 1 t b))\<lparr>runningThreads := u32_dec (runningThreads b)\<rparr>"
  have r: "st b t = RUNNING" "tryWakeNext b0 = Inr b'" using assms(2) by (auto simp: bar_sync_def res_simps b0_def)
  have "bar_inv b0" using sync_inv [OF assms(1) r(1)] by (simp add: b0_def)
  note k = tryWakeNext_turn [OF this r(2)]
  have "others_ok t b b'" by (rule others_from [OF k]) (auto simp: b0_def unserved_def phase_ends_def)
  moreover have "active b0 t" by (simp add: active_def b0_def)
  then have "active b' t" using k kept_active by (auto simp: turned_def)
  ultimately show ?thesis by simp
qed

lemma leave_effect:
  assumes "bar_inv b" and "st b t = RUNNING" and "bar_leave t b = Inr b'"
  shows "others_ok t b b' \<and> \<not> active b' t"
proof -
  define b0 where "b0 = (set_state LEFT t b)\<lparr>leftThreads := leftThreads b + 1, runningThreads := u32_dec (runningThreads b)\<rparr>"
  have r: "tryWakeNext b0 = Inr b'" using assms(2,3) by (simp add: bar_leave_def b0_def)
  have "bar_inv b0"
    using take_off_inv [OF assms(1) _ running_indexed [OF _ assms(2)] refl] assms(1,2) by (simp add: b0_def bar_inv_def)
  note k = tryWakeNext_turn [OF this r]
  have "others_ok t b b'" by (rule others_from [OF k]) (auto simp: b0_def unserved_def phase_ends_def)
  moreover have "\<not> active b0 t" by (simp add: active_def b0_def)
  then have "\<not> active b' t" using k kept_active by (auto simp: turned_def)
  ultimately show ?thesis by simp
qed

lemma join_effect:
  assumes "bar_inv b" and "t < MAX_THREADS" and "bar_join t b = Inr b'"
  shows "others_ok t b b' \<and> active b' t \<and> phase_ends b' = phase_ends b \<and> (st b' t = WAITING \<longrightarrow> unserved b' t)"
proof -
  have l: "list_inv (runListSize b) b" and p: "place_inv b" using assms(1) by (auto simp: bar_inv_def)
  obtain b0 where b0: "bar_inv b0" "tryWakeNext b0 = Inr b'" "\<And>u. u \<noteq> t \<Longrightarrow> st b0 u = st b u"
    "\<And>u. u \<noteq> t \<Longrightarrow> unserved b u \<Longrightarrow> unserved b0 u" "phase_ends b0 = phase_ends b" "unserved b0 t"
  proof (cases "st b t = OFFLINE")
    case True
    let ?b = "set_futex 1 t (set_state WAITING t
      (b\<lparr>runList := (runList b)(runListSize b := t), runListSize := runListSize b + 1\<rparr>))"
    have "tryWakeNext ?b = Inr b'" using assms(3) True by (simp add: bar_join_def)
    moreover have "unserved ?b u" if u: "u \<noteq> t" and v: "unserved b u" for u
    proof -
      obtain i where "curThreadIdx b \<le> i" "i < runListSize b" "runList b i = u" "st b u = WAITING"
        using v by (auto simp: unserved_def)
      then show ?thesis using u by (auto simp: unserved_def intro!: exI [of _ i])
    qed
    moreover have "unserved ?b t" using p by (auto simp: unserved_def place_inv_def)
    ultimately show ?thesis using join_new_inv [OF assms(1) True assms(2)]
      by (intro that [of ?b]) (auto simp: phase_ends_def)
  next
    case False
    then have s: "st b t = LEFT" using assms(3) by (auto simp: bar_join_def res_simps)
    from rejoin_inv [OF assms(1) s] obtain b1 where
      b1: "rejoin_same_phase t (b\<lparr>leftThreads := u32_dec (leftThreads b)\<rparr>) = Inr b1"
        "bar_inv (set_futex 1 t (set_state WAITING t b1))" by blast
    let ?b = "set_futex 1 t (set_state WAITING t b1)"
    define li where "li = lastIdx (threadList b t)"
    have t: "li < runListSize b" "runList b li = t" using p s by (auto simp: place_inv_def at_index_def li_def)
    have e: "runListSize b1 = runListSize b" "\<And>u. st b1 u = st b u" "bar_effects b1 = bar_effects b"
      "curThreadIdx b1 = (if li < curThreadIdx b then curThreadIdx b - 1 else curThreadIdx b)"
      "runList b1 = (if li < curThreadIdx b then (runList b)(li := runList b (curThreadIdx b - 1), curThreadIdx b - 1 := t) else runList b)"
      using b1(1) t by (auto simp: rejoin_same_phase_def Let_def li_def split: if_splits)
    have "tryWakeNext ?b = Inr b'" using assms(3) s b1(1) by (simp add: bar_join_def)
    moreover have "unserved ?b u" if u: "u \<noteq> t" and v: "unserved b u" for u
    proof -
      obtain i where i: "curThreadIdx b \<le> i" "i < runListSize b" "runList b i = u" "st b u = WAITING"
        using v by (auto simp: unserved_def)
      then have "runList b1 i = u" "curThreadIdx b1 \<le> i" using e(4,5) by (auto split: if_splits)
      then show ?thesis using u i e(1,2) by (auto simp: unserved_def intro!: exI [of _ i])
    qed
    moreover have "unserved ?b t"
    proof -
      define c where "c = (if li < curThreadIdx b then curThreadIdx b - 1 else li)"
      have "curThreadIdx b1 \<le> c" "c < runListSize b" "runList b1 c = t"
        using e(4,5) t p by (auto simp: c_def place_inv_def)
      then show ?thesis using e(1) by (auto simp: unserved_def intro!: exI [of _ c])
    qed
    ultimately show ?thesis using b1(2) e by (intro that [of ?b]) (auto simp: phase_ends_def)
  qed
  note k = tryWakeNext_turn [OF b0(1,2)]
  have kp: "kept b0 b'" using k b0(6) by (auto simp: turned_def)
  have "others_ok t b b'" by (rule others_from [OF k b0(3,4,5)])
  moreover have "active b0 t" using b0(6) by (simp add: active_def unserved_def)
  then have "active b' t" using kept_active [OF kp] by simp
  ultimately show ?thesis using kp b0(5,6) by (auto simp: kept_def)
qed

end
