(* ===== verification/Scheduler.thy ===== *)
theory Scheduler
  imports BarrierClient
begin

section \<open>The scheduler\<close>

text \<open>
  The scheduler of scheduler.h and scheduler.cpp assigns the threads of the simulated
  processes to the contexts (cores) their mask allows, and drives the phase barrier, whose
  threads are the contexts. Every handler holds \<open>schedLock\<close> until it returns or blocks, so that
  a handler is one step, and the part of \<open>sync\<close> that runs after the barrier is another.

  A \<open>ThreadInfo*\<close> is the thread's gid and \<open>threads\<close> its memory; \<open>gidMap\<close> is the set of gids that
  are registered. The intrusive lists are lists of gids or context ids, with the ownership
  assertions of intrusive_list.h. The barrier calls \<open>callback\<close> at the end of a phase; the
  barrier does not look at the scheduler's state and \<open>callback\<close> does not touch the barrier, so
  that it is run when the barrier's operation is done. A null pointer that is followed stops
  the simulator, as a panic does. Statistics, the calls that tell a core about its thread and
  the wait for a woken thread to reach the lock (\<open>waitUntilQueued\<close>) are left out.
\<close>

datatype thread_state = STARTED | RUNNING_T | OUT | BLOCKED | SLEEPING | QUEUED

datatype context_state = IDLE | USED

datatype futex_action = FJA_NONE | FJA_WAKE | FJA_WAIT

record thread_info =
  th_state :: thread_state
  th_cid :: nat
  handoffThread :: "nat option"
  th_futex :: u32
  needsJoin :: bool
  markedForSleep :: bool
  wakeupPhase :: u64
  th_mask :: "nat \<Rightarrow> bool"
  fakeLeave :: "u64 option"
  fj_action :: futex_action
  fj_maxWakes :: u32
  fj_wokenUp :: u32

record context_info =
  c_state :: context_state
  curThread :: "nat option"

record sched =
  numCores :: nat
  schedQuantum :: u64
  threads :: "nat \<Rightarrow> thread_info"
  gidMap :: "nat set"
  contexts :: "nat \<Rightarrow> context_info"
  freeList :: "nat list"
  runQueue :: "nat list"
  outQueue :: "nat list"
  sleepQueue :: "nat list"
  fakeLeaves :: "nat list"
  curPhase :: u64
  numPhases :: u64
  sched_rnd :: mtrand
  scheduledThreads :: nat
  s_bar :: barrier
  maxAllowedFutexWakeups :: u32
  unmatchedFutexWakeups :: u32
  blockingSyscalls :: "nat \<Rightarrow> u64 \<Rightarrow> bool"

definition sched_init :: "nat \<Rightarrow> u64 \<Rightarrow> (nat \<Rightarrow> thread_info) \<Rightarrow> mtrand \<Rightarrow> barrier \<Rightarrow> sched" where
  "sched_init cores quantum mem r b = \<lparr>numCores = cores, schedQuantum = quantum, threads = mem, gidMap = {},
     contexts = (\<lambda>_. \<lparr>c_state = IDLE, curThread = None\<rparr>), freeList = [0..<cores], runQueue = [], outQueue = [],
     sleepQueue = [], fakeLeaves = [], curPhase = 0, numPhases = 0, sched_rnd = r, scheduledThreads = 0, s_bar = b,
     maxAllowedFutexWakeups = 0, unmatchedFutexWakeups = 0, blockingSyscalls = (\<lambda>_ _. False)\<rparr>"

text \<open>The gid of a thread: 16 bits of process id and 16 bits of thread id.\<close>

definition getGid :: "u32 \<Rightarrow> u32 \<Rightarrow> u32" where "getGid pid tid = push_bit 16 pid OR tid"

definition getPid :: "u32 \<Rightarrow> u32" where "getPid gid = drop_bit 16 gid"

definition getTid :: "u32 \<Rightarrow> u32" where "getTid gid = gid AND 0x0FFFF"

abbreviation tstate :: "sched \<Rightarrow> nat \<Rightarrow> thread_state" where "tstate s g \<equiv> th_state (threads s g)"

definition upd_thread :: "nat \<Rightarrow> (thread_info \<Rightarrow> thread_info) \<Rightarrow> sched \<Rightarrow> sched" where
  "upd_thread g f s = s\<lparr>threads := (threads s)(g := f (threads s g))\<rparr>"

definition upd_context :: "nat \<Rightarrow> (context_info \<Rightarrow> context_info) \<Rightarrow> sched \<Rightarrow> sched" where
  "upd_context c f s = s\<lparr>contexts := (contexts s)(c := f (contexts s c))\<rparr>"

text \<open>\<open>InList::remove\<close> and \<open>push_back\<close>: the node is owned by this list, or by none.\<close>

definition q_remove :: "nat \<Rightarrow> nat list \<Rightarrow> nat list res" where
  "q_remove x q = assert_then (x \<in> set q) (Inr (remove1 x q))"

definition th_owned :: "sched \<Rightarrow> nat \<Rightarrow> bool" where
  "th_owned s g \<longleftrightarrow> g \<in> set (runQueue s) \<or> g \<in> set (outQueue s) \<or> g \<in> set (sleepQueue s)"

definition free_push :: "nat \<Rightarrow> sched \<Rightarrow> sched res" where
  "free_push c s = assert_then (c \<notin> set (freeList s)) (Inr (s\<lparr>freeList := freeList s @ [c]\<rparr>))"

definition run_push :: "nat \<Rightarrow> sched \<Rightarrow> sched res" where
  "run_push g s = assert_then (\<not> th_owned s g) (Inr (s\<lparr>runQueue := runQueue s @ [g]\<rparr>))"

definition out_push :: "nat \<Rightarrow> sched \<Rightarrow> sched res" where
  "out_push g s = assert_then (\<not> th_owned s g) (Inr (s\<lparr>outQueue := outQueue s @ [g]\<rparr>))"

subsection \<open>Assigning threads to contexts\<close>

definition schedule :: "nat \<Rightarrow> nat \<Rightarrow> sched \<Rightarrow> sched res" where
  "schedule g c s = assert_then (tstate s g \<in> {STARTED, BLOCKED, QUEUED})
     (assert_then (c_state (contexts s c) = IDLE)
     (assert_then (curThread (contexts s c) = None)
       (Inr ((upd_context c (\<lambda>k. k\<lparr>c_state := USED, curThread := Some g\<rparr>)
                (upd_thread g (\<lambda>t. t\<lparr>th_state := RUNNING_T, th_cid := c\<rparr>) s))
              \<lparr>scheduledThreads := scheduledThreads s + 1\<rparr>))))"

definition deschedule :: "nat \<Rightarrow> nat \<Rightarrow> thread_state \<Rightarrow> sched \<Rightarrow> sched res" where
  "deschedule g c target s = assert_then (tstate s g \<in> {RUNNING_T, OUT})
     (assert_then (c_state (contexts s c) = USED)
     (assert_then (c = th_cid (threads s g))
     (assert_then (curThread (contexts s c) = Some g)
     (assert_then (target \<in> {BLOCKED, QUEUED, SLEEPING})
       (Inr ((upd_context c (\<lambda>k. k\<lparr>c_state := IDLE, curThread := None\<rparr>)
                (upd_thread g (\<lambda>t. t\<lparr>th_state := target\<rparr>) s))
              \<lparr>scheduledThreads := u32_dec (scheduledThreads s)\<rparr>))))))"

text \<open>A context for a thread: its last one, a free one, or one of a thread that is out.\<close>

definition take_free :: "nat \<Rightarrow> sched \<Rightarrow> sched res" where
  "take_free c s = rbind (q_remove c (freeList s)) (\<lambda>q. Inr (s\<lparr>freeList := q\<rparr>))"

definition schedThread :: "nat \<Rightarrow> sched \<Rightarrow> (nat option \<times> sched) res" where
  "schedThread g s = (let t = threads s g; allowed = th_mask t in
     assert_then (th_cid t < numCores s)
       (if c_state (contexts s (th_cid t)) = IDLE \<and> allowed (th_cid t)
        then rbind (take_free (th_cid t) s) (\<lambda>s1. Inr (Some (th_cid t), s1))
        else case List.find allowed (freeList s) of
          Some c \<Rightarrow> rbind (take_free c s) (\<lambda>s1. Inr (Some c, s1))
        | None \<Rightarrow> (case List.find (\<lambda>x. allowed (th_cid (threads s x))) (outQueue s) of
            Some x \<Rightarrow> let c = th_cid (threads s x) in
              rbind (q_remove x (outQueue s)) (\<lambda>q.
              rbind (deschedule x c BLOCKED (s\<lparr>outQueue := q\<rparr>)) (\<lambda>s1. Inr (Some c, s1)))
          | None \<Rightarrow> Inr (None, s))))"

text \<open>A thread of the run queue for a context.\<close>

definition schedContext :: "nat \<Rightarrow> sched \<Rightarrow> (nat option \<times> sched) res" where
  "schedContext c s = (case List.find (\<lambda>g. th_mask (threads s g) c) (runQueue s) of
       None \<Rightarrow> Inr (None, s)
     | Some g \<Rightarrow> rbind (q_remove g (runQueue s)) (\<lambda>q. Inr (Some g, s\<lparr>runQueue := q\<rparr>)))"

definition wakeup :: "nat \<Rightarrow> bool \<Rightarrow> sched \<Rightarrow> sched res" where
  "wakeup g nj s = (if th_futex (threads s g) = 1
     then Inr (upd_thread g (\<lambda>t. t\<lparr>needsJoin := nj, th_futex := 0\<rparr>) s) else Inl Panic)"

definition waitForContext :: "nat \<Rightarrow> sched \<Rightarrow> sched" where
  "waitForContext g s = upd_thread g (\<lambda>t. t\<lparr>th_futex := 1\<rparr>) s"

subsection \<open>The end of a phase\<close>

text \<open>The end of a time slice: queued threads are matched with contexts in a random order.\<close>

definition swap_nth :: "nat \<Rightarrow> nat \<Rightarrow> 'a list \<Rightarrow> 'a list" where
  "swap_nth i j xs = xs[i := xs ! j, j := xs ! i]"

definition avail_step :: "nat \<Rightarrow> nat list \<times> mtrand \<Rightarrow> (nat list \<times> mtrand) res" where
  "avail_step i p = (case draw_index i (snd p) of None \<Rightarrow> Inl NoReturn
     | Some (j, r) \<Rightarrow> Inr (swap_nth i j (fst p), r))"

definition avail_contexts :: "nat \<Rightarrow> mtrand \<Rightarrow> (nat list \<times> mtrand) res" where
  "avail_contexts n r = rfold avail_step (rev [1..<n]) ([0..<n], r)"

fun tick_match :: "nat list \<Rightarrow> nat list \<Rightarrow> sched \<Rightarrow> sched res" where
  "tick_match [] avail s = Inr s"
| "tick_match (g # q) avail s =
     (if avail = [] then Inr s
      else case List.find (th_mask (threads s g)) avail of
        None \<Rightarrow> tick_match q avail s
      | Some c \<Rightarrow> (case curThread (contexts s c) of
            None \<Rightarrow> Inl AssertFail
          | Some v \<Rightarrow> rbind (q_remove g (runQueue s)) (\<lambda>rq.
              tick_match q (remove1 c avail) ((upd_thread v (\<lambda>t. t\<lparr>handoffThread := Some g\<rparr>) s)\<lparr>runQueue := rq\<rparr>))))"

definition schedTick :: "sched \<Rightarrow> sched res" where
  "schedTick s = rbind (avail_contexts (numCores s) (sched_rnd s))
     (\<lambda>(avail, r). tick_match (runQueue s) avail (s\<lparr>sched_rnd := r\<rparr>))"

text \<open>The sleepers whose deadline is met, from the front of the queue.\<close>

fun wake_sleepers :: "nat list \<Rightarrow> sched \<Rightarrow> sched res" where
  "wake_sleepers [] s = Inr (s\<lparr>sleepQueue := []\<rparr>)"
| "wake_sleepers (g # q) s =
     (if wakeupPhase (threads s g) \<le> curPhase s
      then assert_then (wakeupPhase (threads s g) = curPhase s)
        (rbind (wakeup g False (upd_thread g (\<lambda>t. t\<lparr>th_state := BLOCKED\<rparr>) s)) (\<lambda>s1. wake_sleepers q s1))
      else Inr (s\<lparr>sleepQueue := g # q\<rparr>))"

definition sched_callback :: "sched \<Rightarrow> sched res" where
  "sched_callback s = assert_then (scheduledThreads s \<le> numCores s)
     (let s1 = s\<lparr>numPhases := numPhases s + 1, curPhase := curPhase s + 1\<rparr>
      in assert_then (curPhase s1 = numPhases s1)
        (rbind (wake_sleepers (sleepQueue s1) s1) (\<lambda>s2.
          if runQueue s2 = [] then Inr s2
          else if curPhase s2 mod schedQuantum s2 = 0 then schedTick s2 else Inr s2)))"

text \<open>An operation of the barrier; it may end a phase.\<close>

definition bar_do :: "bar_op \<Rightarrow> sched \<Rightarrow> sched res" where
  "bar_do op s = rbind (bar_exec op (s_bar s)) (\<lambda>b.
     if phase_ends b = phase_ends (s_bar s) then Inr (s\<lparr>s_bar := b\<rparr>)
     else sched_callback (s\<lparr>s_bar := b\<rparr>))"

text \<open>\<open>waitForContext\<close> after the wait: a thread that was told to joins the barrier itself.\<close>

definition waitForContext_end :: "nat \<Rightarrow> sched \<Rightarrow> sched res" where
  "waitForContext_end g s = (if needsJoin (threads s g) then bar_do (Join (th_cid (threads s g))) s else Inr s)"

subsection \<open>The handlers\<close>

text \<open>The constructor leaves \<open>needsJoin\<close> and two fields of \<open>futexJoin\<close> as the memory had them.\<close>

definition new_thread :: "thread_info \<Rightarrow> (nat \<Rightarrow> bool) \<Rightarrow> thread_info" where
  "new_thread old m = \<lparr>th_state = STARTED, th_cid = 0, handoffThread = None, th_futex = 0, needsJoin = needsJoin old,
     markedForSleep = False, wakeupPhase = 0, th_mask = m, fakeLeave = None, fj_action = FJA_NONE,
     fj_maxWakes = fj_maxWakes old, fj_wokenUp = fj_wokenUp old\<rparr>"

definition sched_start :: "nat \<Rightarrow> (nat \<Rightarrow> bool) \<Rightarrow> sched \<Rightarrow> sched res" where
  "sched_start g m s = assert_then (g \<notin> gidMap s)
     (if list_ex m [0..<numCores s]
      then Inr (s\<lparr>gidMap := insert g (gidMap s), threads := (threads s)(g := new_thread (threads s g) m)\<rparr>)
      else Inl Panic)"

definition finishFakeLeave :: "nat \<Rightarrow> sched \<Rightarrow> sched res" where
  "finishFakeLeave g s = assert_then (fakeLeave (threads s g) \<noteq> None)
     (assert_then (tstate s g = RUNNING_T)
       (rbind (q_remove g (fakeLeaves s)) (\<lambda>q.
         Inr (upd_thread g (\<lambda>t. t\<lparr>fakeLeave := None\<rparr>) (s\<lparr>fakeLeaves := q\<rparr>)))))"

text \<open>
  The matching of futex wakes and waits. \<open>futexWakeJoin\<close> lets the lock go while it waits for the
  woken threads; it is run at the moment it gives up (\<open>timedOut\<close>) or goes on, and does not
  return while neither happens.
\<close>

definition futexWaitJoin :: "sched \<Rightarrow> sched" where
  "futexWaitJoin s = (if unmatchedFutexWakeups s \<ge> maxAllowedFutexWakeups s then s
     else s\<lparr>unmatchedFutexWakeups := unmatchedFutexWakeups s + 1\<rparr>)"

definition futexWakeJoin :: "bool \<Rightarrow> nat \<Rightarrow> sched \<Rightarrow> sched res" where
  "futexWakeJoin timedOut g s =
     (let maxWakes = fj_maxWakes (threads s g); wokenUp = fj_wokenUp (threads s g)
      in assert_then (maxWakes \<le> maxAllowedFutexWakeups s)
        (assert_then (wokenUp \<le> maxWakes)
          (let s1 = s\<lparr>maxAllowedFutexWakeups := maxAllowedFutexWakeups s - (maxWakes - wokenUp)\<rparr>
           in assert_then (unmatchedFutexWakeups s1 \<le> maxAllowedFutexWakeups s1)
             (if timedOut then Inr (s1\<lparr>unmatchedFutexWakeups := 0, maxAllowedFutexWakeups := maxAllowedFutexWakeups s1 - wokenUp\<rparr>)
              else if wokenUp \<le> unmatchedFutexWakeups s1
              then Inr (s1\<lparr>unmatchedFutexWakeups := unmatchedFutexWakeups s1 - wokenUp,
                           maxAllowedFutexWakeups := maxAllowedFutexWakeups s1 - wokenUp\<rparr>)
              else Inl NoReturn))))"

definition notifyFutexWakeStart :: "nat \<Rightarrow> u32 \<Rightarrow> sched \<Rightarrow> sched res" where
  "notifyFutexWakeStart g maxWakes s = (if g \<notin> gidMap s then Inl Panic
     else assert_then (fj_action (threads s g) = FJA_NONE)
       (let w = min maxWakes (push_bit 24 1)
        in Inr (upd_thread g (\<lambda>t. t\<lparr>fj_maxWakes := w\<rparr>)
             (s\<lparr>maxAllowedFutexWakeups := maxAllowedFutexWakeups s + w\<rparr>))))"

definition notifyFutexWakeEnd :: "nat \<Rightarrow> u32 \<Rightarrow> sched \<Rightarrow> sched res" where
  "notifyFutexWakeEnd g wokenUp s = (if g \<notin> gidMap s then Inl Panic
     else Inr (upd_thread g (\<lambda>t. t\<lparr>fj_action := FJA_WAKE, fj_wokenUp := wokenUp\<rparr>) s))"

definition notifyFutexWaitWoken :: "nat \<Rightarrow> sched \<Rightarrow> sched res" where
  "notifyFutexWaitWoken g s = (if g \<notin> gidMap s then Inl Panic
     else Inr (upd_thread g (\<lambda>t. t\<lparr>fj_action := FJA_WAIT, fj_maxWakes := 0, fj_wokenUp := 0\<rparr>) s))"

definition futex_join :: "bool \<Rightarrow> nat \<Rightarrow> sched \<Rightarrow> sched res" where
  "futex_join timedOut g s = (case fj_action (threads s g) of
       FJA_NONE \<Rightarrow> Inr s
     | FJA_WAIT \<Rightarrow> Inr (upd_thread g (\<lambda>t. t\<lparr>fj_action := FJA_NONE\<rparr>) (futexWaitJoin s))
     | FJA_WAKE \<Rightarrow> rbind (futexWakeJoin timedOut g s) (\<lambda>s1. Inr (upd_thread g (\<lambda>t. t\<lparr>fj_action := FJA_NONE\<rparr>) s1)))"

text \<open>\<open>join\<close>: up to where the thread waits for its turn in the barrier or for a context.\<close>

definition join_sleeper :: "nat \<Rightarrow> sched \<Rightarrow> sched res" where
  "join_sleeper g s = (if tstate s g = SLEEPING
     then rbind (q_remove g (sleepQueue s)) (\<lambda>q. Inr (upd_thread g (\<lambda>t. t\<lparr>th_state := BLOCKED\<rparr>) (s\<lparr>sleepQueue := q\<rparr>)))
     else Inr s)"

definition join_context :: "nat \<Rightarrow> sched \<Rightarrow> sched res" where
  "join_context g s = (if tstate s g = OUT
     then rbind (q_remove g (outQueue s)) (\<lambda>q.
       bar_do (Join (th_cid (threads s g))) (upd_thread g (\<lambda>t. t\<lparr>th_state := RUNNING_T\<rparr>) (s\<lparr>outQueue := q\<rparr>)))
     else assert_then (tstate s g \<in> {BLOCKED, STARTED})
       (rbind (schedThread g s) (\<lambda>(ctx, s1). case ctx of
          Some c \<Rightarrow> rbind (schedule g c s1) (bar_do (Join c))
        | None \<Rightarrow> rbind (run_push g (upd_thread g (\<lambda>t. t\<lparr>th_state := QUEUED\<rparr>) s1)) (\<lambda>s2. Inr (waitForContext g s2)))))"

definition sched_join :: "bool \<Rightarrow> nat \<Rightarrow> sched \<Rightarrow> sched res" where
  "sched_join timedOut g s = assert_then (g \<in> gidMap s)
     (rbind (futex_join timedOut g s) (\<lambda>s1.
       if fakeLeave (threads s1 g) \<noteq> None then finishFakeLeave g s1
       else assert_then (\<not> markedForSleep (threads s1 g))
         (rbind (join_sleeper g s1) (join_context g))))"

text \<open>The ordered insertion into the sleep queue, after the threads with the same deadline.\<close>

fun sleep_insert :: "(nat \<Rightarrow> u64) \<Rightarrow> nat \<Rightarrow> nat list \<Rightarrow> nat list" where
  "sleep_insert wp g [] = [g]"
| "sleep_insert wp g (x # q) = (if wp x > wp g then g # x # q else x # sleep_insert wp g q)"

definition give_context :: "nat \<Rightarrow> nat \<Rightarrow> sched \<Rightarrow> sched res" where
  "give_context g c s = rbind (schedule g c s) (wakeup g False)"

definition leave_sleep :: "nat \<Rightarrow> nat \<Rightarrow> sched \<Rightarrow> sched res" where
  "leave_sleep g c s =
     rbind (deschedule g c SLEEPING (upd_thread g (\<lambda>t. t\<lparr>markedForSleep := False\<rparr>) s)) (\<lambda>s1.
     assert_then (\<not> th_owned s1 g)
     (rbind (schedContext c (s1\<lparr>sleepQueue := sleep_insert (\<lambda>x. wakeupPhase (threads s1 x)) g (sleepQueue s1)\<rparr>))
       (\<lambda>(n, s2). case n of
          Some x \<Rightarrow> give_context x c s2
        | None \<Rightarrow> rbind (free_push c s2) (bar_do (Leave c)))))"

definition leave_out :: "nat \<Rightarrow> nat \<Rightarrow> sched \<Rightarrow> sched res" where
  "leave_out g c s = rbind (schedContext c s) (\<lambda>(n, s1). case n of
       Some x \<Rightarrow> rbind (deschedule g c BLOCKED s1) (give_context x c)
     | None \<Rightarrow> rbind (out_push g (upd_thread g (\<lambda>t. t\<lparr>th_state := OUT\<rparr>) s1)) (bar_do (Leave c)))"

definition sched_leave :: "nat \<Rightarrow> nat \<Rightarrow> sched \<Rightarrow> sched res" where
  "sched_leave g c s = (case curThread (contexts s c) of
       None \<Rightarrow> Inl Panic
     | Some g' \<Rightarrow> assert_then (g' = g) (assert_then (tstate s g = RUNNING_T)
         (if markedForSleep (threads s g) then leave_sleep g c s else leave_out g c s)))"

text \<open>\<open>sync\<close>: up to the barrier, and the handoff after it.\<close>

definition sched_sync :: "nat \<Rightarrow> sched \<Rightarrow> sched res" where
  "sched_sync c s = (case curThread (contexts s c) of
       None \<Rightarrow> Inl Panic
     | Some g \<Rightarrow> assert_then (\<not> markedForSleep (threads s g)) (bar_do (Sync c) s))"

definition sync_handoff :: "nat \<Rightarrow> sched \<Rightarrow> sched res" where
  "sync_handoff g s = (case handoffThread (threads s g) of
       None \<Rightarrow> assert_then (tstate s g = RUNNING_T) (Inr s)
     | Some d \<Rightarrow> let c = th_cid (threads s g) in
         rbind (deschedule g c QUEUED (upd_thread g (\<lambda>t. t\<lparr>handoffThread := None\<rparr>) s)) (\<lambda>s1.
         rbind (give_context d c s1) (\<lambda>s2.
         rbind (schedThread g s2) (\<lambda>(ctx, s3). case ctx of
           Some c' \<Rightarrow> rbind (schedule g c' s3) (bar_do (Join c'))
         | None \<Rightarrow> rbind (run_push g s3) (\<lambda>s4. Inr (waitForContext g s4))))))"

definition markForSleep :: "nat \<Rightarrow> u64 \<Rightarrow> sched \<Rightarrow> sched res" where
  "markForSleep g phase s = (if g \<notin> gidMap s then Inl Panic
     else assert_then (\<not> markedForSleep (threads s g))
       (Inr (upd_thread g (\<lambda>t. t\<lparr>markedForSleep := True, wakeupPhase := phase, th_futex := 1\<rparr>) s)))"

definition isSleeping :: "nat \<Rightarrow> sched \<Rightarrow> bool res" where
  "isSleeping g s = (if g \<notin> gidMap s then Inl Panic else Inr (tstate s g = SLEEPING))"

definition notifySleepEnd :: "nat \<Rightarrow> sched \<Rightarrow> sched res" where
  "notifySleepEnd g s = (if g \<notin> gidMap s then Inl Panic
     else assert_then (\<not> markedForSleep (threads s g))
       (assert_then (tstate s g = SLEEPING \<or> tstate s g = BLOCKED) (join_sleeper g s)))"

definition syscallLeave :: "nat \<Rightarrow> nat \<Rightarrow> u64 \<Rightarrow> sched \<Rightarrow> sched res" where
  "syscallLeave g c p s = (case curThread (contexts s c) of
       None \<Rightarrow> Inl Panic
     | Some g' \<Rightarrow> assert_then (g' = g) (assert_then (th_cid (threads s g) = c) (assert_then (tstate s g = RUNNING_T)
         (let pid = unat (getPid (of_nat g)) in
          assert_then (pid < MAX_THREADS)
          (if blockingSyscalls s pid p \<or> markedForSleep (threads s g) then sched_leave g c s
           else assert_then (fakeLeave (threads s g) = None)
             (Inr (upd_thread g (\<lambda>t. t\<lparr>fakeLeave := Some p\<rparr>) (s\<lparr>fakeLeaves := fakeLeaves s @ [g]\<rparr>))))))))"

definition sched_finish :: "nat \<Rightarrow> sched \<Rightarrow> sched res" where
  "sched_finish g s = assert_then (g \<in> gidMap s)
     (rbind (let s1 = s\<lparr>gidMap := gidMap s - {g}\<rparr> in if fakeLeave (threads s1 g) \<noteq> None
             then rbind (finishFakeLeave g s1) (\<lambda>s2. sched_leave g (th_cid (threads s2 g)) s2) else Inr s1) (\<lambda>s1.
      rbind (if tstate s1 g = RUNNING_T then sched_leave g (th_cid (threads s1 g)) s1 else Inr s1) (\<lambda>s2.
      assert_then (tstate s2 g \<in> {STARTED, OUT, BLOCKED, QUEUED})
        (if tstate s2 g = QUEUED then rbind (q_remove g (runQueue s2)) (\<lambda>q. Inr (s2\<lparr>runQueue := q\<rparr>))
         else if th_owned s2 g
         then rbind (q_remove g (outQueue s2)) (\<lambda>q. let c = th_cid (threads s2 g) in
              rbind (deschedule g c BLOCKED (s2\<lparr>outQueue := q\<rparr>)) (free_push c))
         else Inr s2))))"

text \<open>The watchdog drives time forward when every thread is out, blocked or asleep.\<close>

definition watchdog_idle :: "sched \<Rightarrow> bool" where
  "watchdog_idle s \<longleftrightarrow> scheduledThreads s = length (outQueue s) \<and> sleepQueue s \<noteq> []"

definition watchdog_step :: "sched \<Rightarrow> sched res" where
  "watchdog_step s = (if watchdog_idle s then sched_callback s else Inr s)"

text \<open>
  When time stands still because of fake leaves, the watchdog makes the first of them leave,
  and those that follow at the same pc, down to eight. \<open>leave\<close> is called with the process id of
  the first one. \<open>matches\<close> is the process's regular expression on the system call of a pc.
\<close>

definition desync_step :: "u32 \<Rightarrow> nat \<Rightarrow> sched \<Rightarrow> sched res" where
  "desync_step pid g s = rbind (finishFakeLeave g s)
     (sched_leave (unat (getGid pid (getTid (of_nat g)))) (th_cid (threads s g)))"

definition desync_next :: "u32 \<Rightarrow> u64 \<Rightarrow> nat \<Rightarrow> sched \<Rightarrow> nat option" where
  "desync_next pid pc g s = (case fakeLeaves s of [] \<Rightarrow> None
     | g' # _ \<Rightarrow> if getPid (of_nat g) \<noteq> pid \<or> fakeLeave (threads s g') \<noteq> Some pc then None else Some g')"

text \<open>Each turn takes one fake leave off the list, whose length is the fuel.\<close>

primrec desync_loop :: "nat \<Rightarrow> u32 \<Rightarrow> u64 \<Rightarrow> nat \<Rightarrow> sched \<Rightarrow> sched res" where
  "desync_loop 0 pid pc g s = Inr s"
| "desync_loop (Suc n) pid pc g s = rbind (desync_step pid g s) (\<lambda>s1.
     case desync_next pid pc g s1 of None \<Rightarrow> Inr s1
     | Some g' \<Rightarrow> if 8 < length (fakeLeaves s1) then desync_loop n pid pc g' s1 else Inr s1)"

definition watchdog_desync :: "(u64 \<Rightarrow> bool) \<Rightarrow> sched \<Rightarrow> sched res" where
  "watchdog_desync matches s = (case fakeLeaves s of [] \<Rightarrow> Inr s
     | g # _ \<Rightarrow> (case fakeLeave (threads s g) of None \<Rightarrow> Inl Panic
       | Some pc \<Rightarrow> let pid = getPid (of_nat g); n = unat pid in
           if fj_action (threads s g) \<noteq> FJA_WAKE \<and> matches pc
           then desync_loop (length (fakeLeaves s)) pid pc g
             (if length (fakeLeaves s) = 1
              then s\<lparr>blockingSyscalls := (blockingSyscalls s)(n := (blockingSyscalls s n)(pc := True))\<rparr> else s)
           else Inr s))"

text \<open>The threads of a process that was killed, in the order \<open>gids\<close> of the hash table.\<close>

definition cleanup_thread :: "nat \<Rightarrow> sched \<Rightarrow> sched res" where
  "cleanup_thread g s = rbind (isSleeping g s) (\<lambda>z. rbind (if z then notifySleepEnd g s else Inr s) (sched_finish g))"

definition processCleanup :: "nat list \<Rightarrow> u32 \<Rightarrow> sched \<Rightarrow> sched res" where
  "processCleanup gids pid s = rfold cleanup_thread (filter (\<lambda>g. getPid (of_nat g) = pid) gids) s"

definition getScheduledPid :: "nat \<Rightarrow> sched \<Rightarrow> u32 res" where
  "getScheduledPid c s = (if c_state (contexts s c) = USED
     then (case curThread (contexts s c) of None \<Rightarrow> Inl Panic | Some g \<Rightarrow> Inr (getPid (of_nat g)))
     else Inr (- 1))"

end
