(* ===== verification/SchedAssign.thy ===== *)
theory SchedAssign
  imports Scheduler
begin

section \<open>Threads and contexts\<close>

text \<open>
  The invariant that ties the threads, the contexts and the four lists of the scheduler, and
  that each of its functions keeps. A handler may hold contexts that it took from a list and
  has not given to a thread yet: the set \<open>F\<close>.
\<close>

definition ctx_inv :: "sched \<Rightarrow> bool" where
  "ctx_inv s \<longleftrightarrow> (\<forall>c<numCores s. (curThread (contexts s c) = None \<longleftrightarrow> c_state (contexts s c) = IDLE)
     \<and> (\<forall>g. curThread (contexts s c) = Some g \<longrightarrow>
          g \<in> gidMap s \<and> th_cid (threads s g) = c \<and> tstate s g \<in> {RUNNING_T, OUT}))"

definition thr_inv :: "sched \<Rightarrow> bool" where
  "thr_inv s \<longleftrightarrow> (\<forall>g \<in> gidMap s. th_cid (threads s g) < numCores s
     \<and> (tstate s g \<in> {RUNNING_T, OUT} \<longrightarrow> curThread (contexts s (th_cid (threads s g))) = Some g
          \<and> th_mask (threads s g) (th_cid (threads s g)))
     \<and> (\<exists>c<numCores s. th_mask (threads s g) c))"

definition lists_inv :: "nat set \<Rightarrow> sched \<Rightarrow> bool" where
  "lists_inv F s \<longleftrightarrow>
     distinct (freeList s) \<and> set (freeList s) \<inter> F = {}
       \<and> set (freeList s) \<union> F = {c. c < numCores s \<and> curThread (contexts s c) = None}
     \<and> distinct (outQueue s) \<and> set (outQueue s) = {g \<in> gidMap s. tstate s g = OUT}
     \<and> distinct (sleepQueue s) \<and> set (sleepQueue s) = {g \<in> gidMap s. tstate s g = SLEEPING}
     \<and> distinct (runQueue s) \<and> set (runQueue s) \<subseteq> {g \<in> gidMap s. tstate s g = QUEUED}
     \<and> scheduledThreads s = card {c. c < numCores s \<and> curThread (contexts s c) \<noteq> None}"

text \<open>A queued thread finds every context its mask allows taken by a running thread.\<close>

definition runs :: "sched \<Rightarrow> nat \<Rightarrow> bool" where
  "runs s c \<longleftrightarrow> (\<exists>v. curThread (contexts s c) = Some v \<and> tstate s v = RUNNING_T)"

definition busy_inv :: "nat set \<Rightarrow> sched \<Rightarrow> bool" where
  "busy_inv F s \<longleftrightarrow> (\<forall>g \<in> set (runQueue s). \<forall>c<numCores s. c \<notin> F \<longrightarrow> th_mask (threads s g) c \<longrightarrow> runs s c)"

definition assign_inv :: "nat set \<Rightarrow> sched \<Rightarrow> bool" where
  "assign_inv F s \<longleftrightarrow> ctx_inv s \<and> thr_inv s \<and> lists_inv F s \<and> busy_inv F s"

lemma thread_upd [simp]:
  "threads (upd_thread g f s) h = (if h = g then f (threads s g) else threads s h)"
  "threads (upd_context c k s) = threads s"
  "contexts (upd_context c k s) d = (if d = c then k (contexts s c) else contexts s d)"
  "contexts (upd_thread g f s) = contexts s"
  by (simp_all add: upd_thread_def upd_context_def)

lemma sched_upd [simp]:
  "numCores (upd_thread g f s) = numCores s" "numCores (upd_context c k s) = numCores s"
  "gidMap (upd_thread g f s) = gidMap s" "gidMap (upd_context c k s) = gidMap s"
  "freeList (upd_thread g f s) = freeList s" "freeList (upd_context c k s) = freeList s"
  "runQueue (upd_thread g f s) = runQueue s" "runQueue (upd_context c k s) = runQueue s"
  "outQueue (upd_thread g f s) = outQueue s" "outQueue (upd_context c k s) = outQueue s"
  "sleepQueue (upd_thread g f s) = sleepQueue s" "sleepQueue (upd_context c k s) = sleepQueue s"
  "scheduledThreads (upd_thread g f s) = scheduledThreads s" "scheduledThreads (upd_context c k s) = scheduledThreads s"
  "s_bar (upd_thread g f s) = s_bar s" "s_bar (upd_context c k s) = s_bar s"
  "curPhase (upd_thread g f s) = curPhase s" "curPhase (upd_context c k s) = curPhase s"
  "numPhases (upd_thread g f s) = numPhases s" "numPhases (upd_context c k s) = numPhases s"
  "schedQuantum (upd_thread g f s) = schedQuantum s" "schedQuantum (upd_context c k s) = schedQuantum s"
  by (simp_all add: upd_thread_def upd_context_def)

lemma used_count_add:
  assumes "c < numCores s" and "curThread (contexts s c) = None"
    and "\<And>d. curThread (contexts s' d) = (if d = c then Some g else curThread (contexts s d))"
    and "numCores s' = numCores s"
  shows "card {d. d < numCores s' \<and> curThread (contexts s' d) \<noteq> None}
    = Suc (card {d. d < numCores s \<and> curThread (contexts s d) \<noteq> None})"
proof -
  have "{d. d < numCores s' \<and> curThread (contexts s' d) \<noteq> None}
    = insert c {d. d < numCores s \<and> curThread (contexts s d) \<noteq> None}" using assms by (auto split: if_splits)
  then show ?thesis using assms(2) by simp
qed

lemma u32_dec_pos: "0 < n \<Longrightarrow> u32_dec n = n - 1"
  by (simp add: u32_dec_def)

lemma runs_mono:
  assumes "runs s d" and "curThread (contexts s' d) = curThread (contexts s d)"
    and "\<And>v. tstate s v = RUNNING_T \<Longrightarrow> curThread (contexts s d) = Some v \<Longrightarrow> tstate s' v = RUNNING_T"
  shows "runs s' d"
  using assms by (auto simp: runs_def)

lemma busy_mono:
  assumes "busy_inv F s" and "set (runQueue s') \<subseteq> set (runQueue s)" and "numCores s' = numCores s"
    and "\<And>h. h \<in> set (runQueue s') \<Longrightarrow> th_mask (threads s' h) = th_mask (threads s h)"
    and "\<And>d. d \<notin> F' \<Longrightarrow> d < numCores s \<Longrightarrow> d \<in> F \<or> runs s d \<Longrightarrow> runs s' d"
  shows "busy_inv F' s'"
  unfolding busy_inv_def
proof (intro ballI allI impI)
  fix h d assume h: "h \<in> set (runQueue s')" "d < numCores s'" "d \<notin> F'" "th_mask (threads s' h) d"
  then have "d \<in> F \<or> runs s d" using assms(1-4) unfolding busy_inv_def by (metis subsetD)
  then show "runs s' d" using assms(3,5) h(2,3) by simp
qed

lemma used_count_del:
  assumes "c < numCores s" and "curThread (contexts s c) \<noteq> None"
    and "\<And>d. curThread (contexts s' d) = (if d = c then None else curThread (contexts s d))"
    and "numCores s' = numCores s"
  shows "u32_dec (card {d. d < numCores s \<and> curThread (contexts s d) \<noteq> None})
    = card {d. d < numCores s' \<and> curThread (contexts s' d) \<noteq> None}"
proof -
  let ?A = "{d. d < numCores s \<and> curThread (contexts s d) \<noteq> None}"
  have e: "{d. d < numCores s' \<and> curThread (contexts s' d) \<noteq> None} = ?A - {c}" using assms by (auto split: if_splits)
  have "c \<in> ?A" using assms by simp
  then have "0 < card ?A" by (auto simp: card_gt_0_iff)
  then show ?thesis unfolding e using \<open>c \<in> ?A\<close> by (simp only: u32_dec_pos card_Diff_singleton)
qed

subsection \<open>Scheduling and descheduling\<close>

text \<open>Threads other than \<open>g\<close>, contexts other than \<open>c\<close> and the rest of the state stay.\<close>

lemma schedule_inv:
  assumes "assign_inv {c} s" and "g \<in> gidMap s" and "tstate s g \<in> {STARTED, BLOCKED, QUEUED}"
    and "g \<notin> set (runQueue s)" and "th_mask (threads s g) c"
  shows "\<exists>s'. schedule g c s = Inr s' \<and> assign_inv {} s'
    \<and> s' = (upd_context c (\<lambda>k. k\<lparr>c_state := USED, curThread := Some g\<rparr>)
                (upd_thread g (\<lambda>t. t\<lparr>th_state := RUNNING_T, th_cid := c\<rparr>) s))
              \<lparr>scheduledThreads := scheduledThreads s + 1\<rparr>"
proof -
  define s' where "s' = (upd_context c (\<lambda>k. k\<lparr>c_state := USED, curThread := Some g\<rparr>)
                (upd_thread g (\<lambda>t. t\<lparr>th_state := RUNNING_T, th_cid := c\<rparr>) s))
              \<lparr>scheduledThreads := scheduledThreads s + 1\<rparr>"
  have i: "ctx_inv s" "thr_inv s" "lists_inv {c} s" "busy_inv {c} s" using assms(1) by (auto simp: assign_inv_def)
  have c: "c < numCores s" "curThread (contexts s c) = None" using i(3) by (auto simp: lists_inv_def)
  then have cs: "c_state (contexts s c) = IDLE" using i(1) by (simp add: ctx_inv_def)
  have "schedule g c s = Inr s'" using assms(3) c cs by (simp add: schedule_def s'_def)
  moreover have "ctx_inv s'" using i(1) c assms(2,3) by (auto simp: ctx_inv_def s'_def)
  moreover have "thr_inv s'" using i(2) c assms(2,5) by (auto simp: thr_inv_def s'_def)
  moreover have "lists_inv {} s'"
  proof -
    have "card {d. d < numCores s' \<and> curThread (contexts s' d) \<noteq> None}
      = Suc (card {d. d < numCores s \<and> curThread (contexts s d) \<noteq> None})"
      by (rule used_count_add [OF c]) (auto simp: s'_def)
    moreover have "set (freeList s) = {d. d < numCores s' \<and> curThread (contexts s' d) = None}"
    proof -
      have "set (freeList s) = {c. c < numCores s \<and> curThread (contexts s c) = None} - {c}"
        using i(3) unfolding lists_inv_def by blast
      then show ?thesis by (auto simp: s'_def)
    qed
    moreover have "{h \<in> gidMap s'. tstate s' h = OUT} = {h \<in> gidMap s. tstate s h = OUT}"
      "{h \<in> gidMap s'. tstate s' h = SLEEPING} = {h \<in> gidMap s. tstate s h = SLEEPING}"
      "set (runQueue s) \<subseteq> {h \<in> gidMap s'. tstate s' h = QUEUED}"
      using assms(3,4) i(3) by (auto simp: s'_def lists_inv_def)
    ultimately show ?thesis using i(3) unfolding lists_inv_def by (simp add: s'_def)
  qed
  moreover have "busy_inv {} s'"
  proof (rule busy_mono [OF i(4)])
    fix d assume "d \<in> {c} \<or> runs s d"
    then show "runs s' d"
    proof
      assume "runs s d"
      then show "runs s' d"
      proof (cases "d = c")
        case False
        then show ?thesis by (intro runs_mono [OF \<open>runs s d\<close>]) (use assms(3) in \<open>auto simp: s'_def\<close>)
      qed (simp add: runs_def s'_def)
    qed (simp add: runs_def s'_def)
  qed (simp_all add: s'_def)
  ultimately show ?thesis by (auto simp: assign_inv_def s'_def)
qed

text \<open>Taking a thread off its context, in general.\<close>

lemma vacate_inv:
  assumes a: "assign_inv {} s" and g: "g \<in> gidMap s" "tstate s g \<in> {RUNNING_T, OUT}"
    and T: "T \<in> {BLOCKED, QUEUED, SLEEPING}" and c: "c = th_cid (threads s g)"
    and s': "numCores s' = numCores s" "gidMap s' = gidMap s" "freeList s' = freeList s"
      "set (runQueue s') \<subseteq> set (runQueue s)" "distinct (runQueue s')"
      "\<And>d. contexts s' d = (if d = c then (contexts s d)\<lparr>c_state := IDLE, curThread := None\<rparr> else contexts s d)"
      "\<And>h. tstate s' h = (if h = g then T else tstate s h)" "\<And>h. th_cid (threads s' h) = th_cid (threads s h)"
      "\<And>h. th_mask (threads s' h) = th_mask (threads s h)"
      "scheduledThreads s' = u32_dec (scheduledThreads s)"
    and q: "distinct (outQueue s')" "set (outQueue s') = set (outQueue s) - {g}"
      "distinct (sleepQueue s')" "set (sleepQueue s') = set (sleepQueue s) \<union> (if T = SLEEPING then {g} else {})"
  shows "assign_inv {c} s'"
proof -
  have i: "ctx_inv s" "thr_inv s" "lists_inv {} s" "busy_inv {} s" using a by (auto simp: assign_inv_def)
  have cg: "c < numCores s" "curThread (contexts s c) = Some g" using i(2) g c by (auto simp: thr_inv_def)
  have one: "curThread (contexts s d) = Some g \<Longrightarrow> d < numCores s \<Longrightarrow> d = c" for d
    using i(1) c by (auto simp: ctx_inv_def)
  have "ctx_inv s'" unfolding ctx_inv_def
  proof (intro allI impI)
    fix d assume d: "d < numCores s'"
    show "(curThread (contexts s' d) = None \<longleftrightarrow> c_state (contexts s' d) = IDLE)
      \<and> (\<forall>h. curThread (contexts s' d) = Some h \<longrightarrow>
          h \<in> gidMap s' \<and> th_cid (threads s' h) = d \<and> tstate s' h \<in> {RUNNING_T, OUT})"
      using i(1) d one [of d] s' by (auto simp: ctx_inv_def)
  qed
  moreover have "thr_inv s'" unfolding thr_inv_def
  proof (intro ballI)
    fix h assume h: "h \<in> gidMap s'"
    have "th_cid (threads s h) \<noteq> c" if "tstate s' h \<in> {RUNNING_T, OUT}" "h \<noteq> g"
    proof
      assume "th_cid (threads s h) = c"
      moreover have "tstate s h \<in> {RUNNING_T, OUT}" using that s'(7) by simp
      ultimately have "curThread (contexts s c) = Some h" using i(2) h s'(2) by (auto simp: thr_inv_def)
      then show False using cg that by simp
    qed
    then show "th_cid (threads s' h) < numCores s' \<and> (tstate s' h \<in> {RUNNING_T, OUT}
        \<longrightarrow> curThread (contexts s' (th_cid (threads s' h))) = Some h \<and> th_mask (threads s' h) (th_cid (threads s' h)))
      \<and> (\<exists>c<numCores s'. th_mask (threads s' h) c)"
      using i(2) h T s' by (auto simp: thr_inv_def)
  qed
  moreover have "lists_inv {c} s'"
  proof -
    have "scheduledThreads s' = card {d. d < numCores s' \<and> curThread (contexts s' d) \<noteq> None}"
      using used_count_del [OF cg(1), of s'] cg(2) s' i(3) by (simp add: lists_inv_def)
    moreover have "set (freeList s') \<inter> {c} = {}
      \<and> set (freeList s') \<union> {c} = {d. d < numCores s' \<and> curThread (contexts s' d) = None}"
      using i(3) cg s' by (auto simp: lists_inv_def)
    moreover have "set (outQueue s') = {h \<in> gidMap s'. tstate s' h = OUT}"
      "set (sleepQueue s') = {h \<in> gidMap s'. tstate s' h = SLEEPING}"
      "set (runQueue s') \<subseteq> {h \<in> gidMap s'. tstate s' h = QUEUED}"
    proof -
      have l: "set (outQueue s) = {h \<in> gidMap s. tstate s h = OUT}" "set (sleepQueue s) = {h \<in> gidMap s. tstate s h = SLEEPING}"
        "set (runQueue s) \<subseteq> {h \<in> gidMap s. tstate s h = QUEUED}" using i(3) by (simp_all add: lists_inv_def)
      show "set (outQueue s') = {h \<in> gidMap s'. tstate s' h = OUT}" unfolding q(2) l(1) s'(2,7) using T by auto
      show "set (sleepQueue s') = {h \<in> gidMap s'. tstate s' h = SLEEPING}" unfolding q(4) l(2) s'(2,7) using T g by auto
      show "set (runQueue s') \<subseteq> {h \<in> gidMap s'. tstate s' h = QUEUED}"
      proof
        fix h assume "h \<in> set (runQueue s')"
        then have "h \<in> gidMap s" "tstate s h = QUEUED" using s'(4) l(3) by auto
        then show "h \<in> {h \<in> gidMap s'. tstate s' h = QUEUED}" using g(2) s'(2,7) by auto
      qed
    qed
    ultimately show ?thesis using i(3) s'(3,5) q(1,3) unfolding lists_inv_def by (simp only: simp_thms)
  qed
  moreover have "busy_inv {c} s'"
  proof (rule busy_mono [OF i(4)])
    fix d assume d: "d \<notin> {c}" "d < numCores s" "d \<in> {} \<or> runs s d"
    then have r: "runs s d" by simp
    show "runs s' d"
    proof (rule runs_mono [OF r])
      show "curThread (contexts s' d) = curThread (contexts s d)" using d(1) s'(6) by simp
      fix v assume v: "tstate s v = RUNNING_T" "curThread (contexts s d) = Some v"
      then have "v \<noteq> g" using one [OF _ d(2)] d(1) by auto
      then show "tstate s' v = RUNNING_T" using s'(7) v(1) by simp
    qed
  qed (use s' in simp_all)
  ultimately show ?thesis by (simp add: assign_inv_def)
qed

lemma running_context:
  assumes "assign_inv F s" and "g \<in> gidMap s" and "tstate s g \<in> {RUNNING_T, OUT}"
  shows "th_cid (threads s g) < numCores s" "curThread (contexts s (th_cid (threads s g))) = Some g"
    "c_state (contexts s (th_cid (threads s g))) = USED"
proof -
  have i: "ctx_inv s" "thr_inv s" using assms(1) by (auto simp: assign_inv_def)
  show 1: "th_cid (threads s g) < numCores s" "curThread (contexts s (th_cid (threads s g))) = Some g"
    using i(2) assms(2,3) by (auto simp: thr_inv_def)
  have "curThread (contexts s (th_cid (threads s g))) = None \<longleftrightarrow> c_state (contexts s (th_cid (threads s g))) = IDLE"
    using i(1) 1(1) unfolding ctx_inv_def by blast
  then have "c_state (contexts s (th_cid (threads s g))) \<noteq> IDLE" using 1(2) by simp
  then show "c_state (contexts s (th_cid (threads s g))) = USED" by (cases "c_state (contexts s (th_cid (threads s g)))") auto
qed

lemma deschedule_result:
  assumes "assign_inv F s" and "g \<in> gidMap s" and "tstate s g \<in> {RUNNING_T, OUT}" and "T \<in> {BLOCKED, QUEUED, SLEEPING}"
  shows "deschedule g (th_cid (threads s g)) T s
    = Inr ((upd_context (th_cid (threads s g)) (\<lambda>k. k\<lparr>c_state := IDLE, curThread := None\<rparr>)
             (upd_thread g (\<lambda>t. t\<lparr>th_state := T\<rparr>) s))\<lparr>scheduledThreads := u32_dec (scheduledThreads s)\<rparr>)"
  using running_context [OF assms(1-3)] assms(3,4) by (simp add: deschedule_def)

lemma deschedule_inv:
  assumes "assign_inv {} s" and "g \<in> gidMap s" and "tstate s g = RUNNING_T" and "T \<in> {BLOCKED, QUEUED}"
  shows "assign_inv {th_cid (threads s g)} ((upd_context (th_cid (threads s g)) (\<lambda>k. k\<lparr>c_state := IDLE, curThread := None\<rparr>)
             (upd_thread g (\<lambda>t. t\<lparr>th_state := T\<rparr>) s))\<lparr>scheduledThreads := u32_dec (scheduledThreads s)\<rparr>)"
proof (rule vacate_inv [OF assms(1,2) _ _ refl, where T = T])
  have l: "lists_inv {} s" using assms(1) by (simp add: assign_inv_def)
  show "distinct (runQueue ((upd_context (th_cid (threads s g)) (\<lambda>k. k\<lparr>c_state := IDLE, curThread := None\<rparr>)
             (upd_thread g (\<lambda>t. t\<lparr>th_state := T\<rparr>) s))\<lparr>scheduledThreads := u32_dec (scheduledThreads s)\<rparr>))"
    using l by (simp add: lists_inv_def)
  show "distinct (outQueue ((upd_context (th_cid (threads s g)) (\<lambda>k. k\<lparr>c_state := IDLE, curThread := None\<rparr>)
             (upd_thread g (\<lambda>t. t\<lparr>th_state := T\<rparr>) s))\<lparr>scheduledThreads := u32_dec (scheduledThreads s)\<rparr>))"
    using l by (simp add: lists_inv_def)
  show "set (outQueue ((upd_context (th_cid (threads s g)) (\<lambda>k. k\<lparr>c_state := IDLE, curThread := None\<rparr>)
             (upd_thread g (\<lambda>t. t\<lparr>th_state := T\<rparr>) s))\<lparr>scheduledThreads := u32_dec (scheduledThreads s)\<rparr>)) = set (outQueue s) - {g}"
    using l assms(3) by (auto simp: lists_inv_def)
  show "distinct (sleepQueue ((upd_context (th_cid (threads s g)) (\<lambda>k. k\<lparr>c_state := IDLE, curThread := None\<rparr>)
             (upd_thread g (\<lambda>t. t\<lparr>th_state := T\<rparr>) s))\<lparr>scheduledThreads := u32_dec (scheduledThreads s)\<rparr>))"
    using l by (simp add: lists_inv_def)
qed (use assms(3,4) in \<open>auto split: if_splits\<close>)

text \<open>A thread that is out gives its context up.\<close>

lemma steal_inv:
  assumes "assign_inv {} s" and "g \<in> set (outQueue s)"
  shows "\<exists>s'. rbind (q_remove g (outQueue s)) (\<lambda>q. deschedule g (th_cid (threads s g)) BLOCKED (s\<lparr>outQueue := q\<rparr>)) = Inr s'
    \<and> assign_inv {th_cid (threads s g)} s'
    \<and> s' = (upd_context (th_cid (threads s g)) (\<lambda>k. k\<lparr>c_state := IDLE, curThread := None\<rparr>)
             (upd_thread g (\<lambda>t. t\<lparr>th_state := BLOCKED\<rparr>) (s\<lparr>outQueue := remove1 g (outQueue s)\<rparr>)))
             \<lparr>scheduledThreads := u32_dec (scheduledThreads s)\<rparr>"
proof -
  have l: "lists_inv {} s" using assms(1) by (simp add: assign_inv_def)
  have g: "g \<in> gidMap s" "tstate s g = OUT" using l assms(2) by (auto simp: lists_inv_def)
  let ?s = "(upd_context (th_cid (threads s g)) (\<lambda>k. k\<lparr>c_state := IDLE, curThread := None\<rparr>)
             (upd_thread g (\<lambda>t. t\<lparr>th_state := BLOCKED\<rparr>) (s\<lparr>outQueue := remove1 g (outQueue s)\<rparr>)))
             \<lparr>scheduledThreads := u32_dec (scheduledThreads s)\<rparr>"
  have "deschedule g (th_cid (threads s g)) BLOCKED (s\<lparr>outQueue := remove1 g (outQueue s)\<rparr>) = Inr ?s"
    using running_context [OF assms(1) g(1)] g(2) by (simp add: deschedule_def)
  moreover have "assign_inv {th_cid (threads s g)} ?s"
    by (rule vacate_inv [OF assms(1) g(1) _ _ refl, where T = BLOCKED])
      (use l g in \<open>auto simp: lists_inv_def\<close>)
  ultimately show ?thesis using assms(2) by (simp add: q_remove_def)
qed

subsection \<open>Finding a context or a thread\<close>

text \<open>What a search for a context leaves alone: it may only block a thread that is out.\<close>

definition same_rest :: "sched \<Rightarrow> sched \<Rightarrow> bool" where
  "same_rest s s' \<longleftrightarrow> numCores s' = numCores s \<and> gidMap s' = gidMap s \<and> s_bar s' = s_bar s
     \<and> curPhase s' = curPhase s \<and> numPhases s' = numPhases s \<and> schedQuantum s' = schedQuantum s"

definition out_blocked :: "sched \<Rightarrow> sched \<Rightarrow> bool" where
  "out_blocked s s' \<longleftrightarrow> (\<forall>h. threads s' h = threads s h
     \<or> (tstate s h = OUT \<and> threads s' h = (threads s h)\<lparr>th_state := BLOCKED\<rparr>))"

lemma same_rest_refl [simp]: "same_rest s s"
  by (simp add: same_rest_def)

lemma same_rest_trans: "same_rest a b \<Longrightarrow> same_rest b c \<Longrightarrow> same_rest a c"
  by (simp add: same_rest_def)

lemma out_blocked_refl [simp]: "out_blocked s s"
  by (simp add: out_blocked_def)

lemma take_free_inv:
  assumes "assign_inv {} s" and "c \<in> set (freeList s)"
  shows "take_free c s = Inr (s\<lparr>freeList := remove1 c (freeList s)\<rparr>) \<and> assign_inv {c} (s\<lparr>freeList := remove1 c (freeList s)\<rparr>)"
proof -
  let ?s = "s\<lparr>freeList := remove1 c (freeList s)\<rparr>"
  have i: "ctx_inv s" "thr_inv s" "lists_inv {} s" "busy_inv {} s" using assms(1) by (auto simp: assign_inv_def)
  have "ctx_inv ?s" "thr_inv ?s" using i(1,2) by (simp_all add: ctx_inv_def thr_inv_def)
  moreover have "lists_inv {c} ?s" using i(3) assms(2) by (auto simp: lists_inv_def)
  moreover have "busy_inv {c} ?s" using i(4) by (simp add: busy_inv_def runs_def)
  ultimately show ?thesis using assms(2) by (simp add: take_free_def q_remove_def assign_inv_def)
qed

lemma idle_free: "assign_inv {} s \<Longrightarrow> c < numCores s \<Longrightarrow> curThread (contexts s c) = None \<Longrightarrow> c \<in> set (freeList s)"
  by (simp add: assign_inv_def lists_inv_def)

lemma used_context:
  assumes "assign_inv F s" and "c < numCores s" and "curThread (contexts s c) = Some v"
  shows "v \<in> gidMap s \<and> th_cid (threads s v) = c \<and> tstate s v \<in> {RUNNING_T, OUT}"
  using assms unfolding assign_inv_def ctx_inv_def by blast

lemma find_Some: "List.find P xs = Some x \<Longrightarrow> x \<in> set xs \<and> P x"
  by (induction xs) (auto split: if_splits)

lemma find_None: "List.find P xs = None \<Longrightarrow> x \<in> set xs \<Longrightarrow> \<not> P x"
  by (auto simp: find_None_iff)

lemma schedThread_inv:
  assumes a: "assign_inv {} s" and g: "g \<in> gidMap s"
  shows "(schedThread g s = Inr (None, s) \<and> (\<forall>c<numCores s. th_mask (threads s g) c \<longrightarrow> runs s c))
    \<or> (\<exists>c s1. schedThread g s = Inr (Some c, s1) \<and> assign_inv {c} s1 \<and> th_mask (threads s g) c \<and> c < numCores s
        \<and> \<not> runs s c \<and> same_rest s s1 \<and> out_blocked s s1 \<and> runQueue s1 = runQueue s \<and> sleepQueue s1 = sleepQueue s
        \<and> (\<forall>d. d \<noteq> c \<longrightarrow> contexts s1 d = contexts s d))"
proof -
  let ?c0 = "th_cid (threads s g)" and ?m = "th_mask (threads s g)"
  have i: "ctx_inv s" "thr_inv s" "lists_inv {} s" using a by (auto simp: assign_inv_def)
  have c0: "?c0 < numCores s" using i(2) g by (simp add: thr_inv_def)
  have free: ?thesis if c: "c \<in> set (freeList s)" "?m c" and r: "schedThread g s = rbind (take_free c s) (\<lambda>s1. Inr (Some c, s1))" for c
  proof -
    have "c < numCores s" "\<not> runs s c" using i(3) c(1) by (auto simp: lists_inv_def runs_def)
    then show ?thesis using take_free_inv [OF a c(1)] r c(2)
      by (intro disjI2 exI [of _ c] exI [of _ "s\<lparr>freeList := remove1 c (freeList s)\<rparr>"])
        (auto simp: same_rest_def out_blocked_def)
  qed
  consider (own) "c_state (contexts s ?c0) = IDLE" "?m ?c0"
    | (fr) c where "\<not> (c_state (contexts s ?c0) = IDLE \<and> ?m ?c0)" "List.find ?m (freeList s) = Some c"
    | (out) x where "\<not> (c_state (contexts s ?c0) = IDLE \<and> ?m ?c0)" "List.find ?m (freeList s) = None"
        "List.find (\<lambda>x. ?m (th_cid (threads s x))) (outQueue s) = Some x"
    | (no) "\<not> (c_state (contexts s ?c0) = IDLE \<and> ?m ?c0)" "List.find ?m (freeList s) = None"
        "List.find (\<lambda>x. ?m (th_cid (threads s x))) (outQueue s) = None"
    by (metis not_None_eq)
  moreover have skip: "schedThread g s = (case List.find ?m (freeList s) of
          Some c \<Rightarrow> rbind (take_free c s) (\<lambda>s1. Inr (Some c, s1))
        | None \<Rightarrow> (case List.find (\<lambda>x. ?m (th_cid (threads s x))) (outQueue s) of
            Some x \<Rightarrow> let c = th_cid (threads s x) in
              rbind (q_remove x (outQueue s)) (\<lambda>q.
              rbind (deschedule x c BLOCKED (s\<lparr>outQueue := q\<rparr>)) (\<lambda>s1. Inr (Some c, s1)))
          | None \<Rightarrow> Inr (None, s)))" if n: "\<not> (c_state (contexts s ?c0) = IDLE \<and> ?m ?c0)"
    unfolding schedThread_def Let_def if_not_P [OF n] using c0 by (simp only: assert_then_simps)
  ultimately show ?thesis
  proof cases
    case own
    have "?c0 \<in> set (freeList s)" using idle_free [OF a c0] i(1) c0 own(1) by (auto simp: ctx_inv_def)
    then show ?thesis using free [of ?c0] own c0 by (simp add: schedThread_def Let_def)
  next
    case fr
    have "schedThread g s = rbind (take_free c s) (\<lambda>s1. Inr (Some c, s1))" using skip [OF fr(1)] fr(2) by simp
    then show ?thesis using free [of c] find_Some [OF fr(2)] by blast
  next
    case out
    then have x: "x \<in> set (outQueue s)" "?m (th_cid (threads s x))" using find_Some by fastforce+
    then have xo: "x \<in> gidMap s" "tstate s x = OUT" using i(3) by (auto simp: lists_inv_def)
    note rc = running_context [OF a xo(1)]
    from steal_inv [OF a x(1)] obtain s1 where s1: "assign_inv {th_cid (threads s x)} s1"
      "rbind (q_remove x (outQueue s)) (\<lambda>q. deschedule x (th_cid (threads s x)) BLOCKED (s\<lparr>outQueue := q\<rparr>)) = Inr s1"
      "s1 = (upd_context (th_cid (threads s x)) (\<lambda>k. k\<lparr>c_state := IDLE, curThread := None\<rparr>)
             (upd_thread x (\<lambda>t. t\<lparr>th_state := BLOCKED\<rparr>) (s\<lparr>outQueue := remove1 x (outQueue s)\<rparr>)))
             \<lparr>scheduledThreads := u32_dec (scheduledThreads s)\<rparr>" by blast
    have "schedThread g s = Inr (Some (th_cid (threads s x)), s1)"
      using skip [OF out(1)] out(2,3) s1(2) x(1) by (simp add: Let_def q_remove_def)
    moreover have "\<not> runs s (th_cid (threads s x))" using rc xo(2) by (simp add: runs_def)
    moreover have "same_rest s s1" "out_blocked s s1" "runQueue s1 = runQueue s" "sleepQueue s1 = sleepQueue s"
      "\<forall>d. d \<noteq> th_cid (threads s x) \<longrightarrow> contexts s1 d = contexts s d"
      unfolding s1(3) using xo(2) by (simp_all add: same_rest_def out_blocked_def)
    ultimately show ?thesis using s1(1) x(2) rc xo(2) by blast
  next
    case no
    have "runs s c" if c: "c < numCores s" "?m c" for c
    proof (cases "curThread (contexts s c)")
      case None
      then show ?thesis using idle_free [OF a c(1)] find_None [OF no(2)] c(2) by blast
    next
      case (Some v)
      note v = used_context [OF a c(1) Some]
      have "tstate s v \<noteq> OUT"
      proof
        assume "tstate s v = OUT"
        then have "v \<in> set (outQueue s)" using v i(3) by (simp add: lists_inv_def)
        then show False using find_None [OF no(3)] v c(2) by blast
      qed
      then show ?thesis using v Some by (simp add: runs_def)
    qed
    moreover have "schedThread g s = Inr (None, s)" using skip [OF no(1)] no(2,3) by simp
    ultimately show ?thesis by blast
  qed
qed

lemma schedContext_inv:
  assumes a: "assign_inv F s"
  shows "(schedContext c s = Inr (None, s) \<and> (\<forall>g\<in>set (runQueue s). \<not> th_mask (threads s g) c))
    \<or> (\<exists>g. schedContext c s = Inr (Some g, s\<lparr>runQueue := remove1 g (runQueue s)\<rparr>)
        \<and> g \<in> set (runQueue s) \<and> g \<in> gidMap s \<and> tstate s g = QUEUED \<and> th_mask (threads s g) c
        \<and> assign_inv F (s\<lparr>runQueue := remove1 g (runQueue s)\<rparr>) \<and> g \<notin> set (remove1 g (runQueue s)))"
proof (cases "List.find (\<lambda>g. th_mask (threads s g) c) (runQueue s)")
  case None
  then show ?thesis using find_None by (fastforce simp: schedContext_def)
next
  case (Some g)
  let ?s = "s\<lparr>runQueue := remove1 g (runQueue s)\<rparr>"
  have i: "ctx_inv s" "thr_inv s" "lists_inv F s" "busy_inv F s" using a by (auto simp: assign_inv_def)
  have g: "g \<in> set (runQueue s)" "th_mask (threads s g) c" using find_Some [OF Some] by auto
  have "ctx_inv ?s" "thr_inv ?s" using i(1,2) by (simp_all add: ctx_inv_def thr_inv_def)
  moreover have "lists_inv F ?s" using i(3) by (auto simp: lists_inv_def)
  moreover have "busy_inv F ?s" using i(4) by (auto simp: busy_inv_def runs_def dest: notin_set_remove1)
  ultimately have "assign_inv F ?s" by (simp add: assign_inv_def)
  moreover have "g \<in> gidMap s" "tstate s g = QUEUED" "g \<notin> set (remove1 g (runQueue s))"
    using i(3) g(1) by (auto simp: lists_inv_def)
  ultimately show ?thesis using g Some by (intro disjI2 exI [of _ g]) (simp add: schedContext_def q_remove_def)
qed

text \<open>A thread that found no context joins the run queue; a thread that leaves stays on its context, out.\<close>

lemma run_push_inv:
  assumes a: "assign_inv {} s" and g: "g \<in> gidMap s" "tstate s g \<in> {STARTED, BLOCKED, QUEUED}" "g \<notin> set (runQueue s)"
    and n: "\<And>c. c < numCores s \<Longrightarrow> th_mask (threads s g) c \<Longrightarrow> runs s c"
  shows "\<exists>s'. run_push g (upd_thread g (\<lambda>t. t\<lparr>th_state := QUEUED\<rparr>) s) = Inr s' \<and> assign_inv {} s'
    \<and> s' = (upd_thread g (\<lambda>t. t\<lparr>th_state := QUEUED\<rparr>) s)\<lparr>runQueue := runQueue s @ [g]\<rparr>"
proof -
  let ?s = "(upd_thread g (\<lambda>t. t\<lparr>th_state := QUEUED\<rparr>) s)\<lparr>runQueue := runQueue s @ [g]\<rparr>"
  have i: "ctx_inv s" "thr_inv s" "lists_inv {} s" "busy_inv {} s" using a by (auto simp: assign_inv_def)
  have "\<not> th_owned (upd_thread g (\<lambda>t. t\<lparr>th_state := QUEUED\<rparr>) s) g" using i(3) g by (auto simp: th_owned_def lists_inv_def)
  moreover have "ctx_inv ?s" using i(1) g(2) unfolding ctx_inv_def by (auto simp: ctx_inv_def)
  moreover have "thr_inv ?s" using i(2) by (auto simp: thr_inv_def)
  moreover have "lists_inv {} ?s" using i(3) g by (auto simp: lists_inv_def)
  moreover have "busy_inv {} ?s" unfolding busy_inv_def
  proof (intro ballI allI impI)
    fix h d assume h: "h \<in> set (runQueue ?s)" "d < numCores ?s" "th_mask (threads ?s h) d"
    have "runs s d"
    proof (cases "h = g")
      case True
      then show ?thesis using n [of d] h by simp
    next
      case False
      then show ?thesis using h i(4) by (auto simp: busy_inv_def)
    qed
    then show "runs ?s d" by (rule runs_mono) (use g(2) in auto)
  qed
  ultimately show ?thesis by (simp add: run_push_def assign_inv_def)
qed

lemma out_push_inv:
  assumes a: "assign_inv {} s" and g: "g \<in> gidMap s" "tstate s g = RUNNING_T"
    and n: "\<And>h. h \<in> set (runQueue s) \<Longrightarrow> \<not> th_mask (threads s h) (th_cid (threads s g))"
  shows "\<exists>s'. out_push g (upd_thread g (\<lambda>t. t\<lparr>th_state := OUT\<rparr>) s) = Inr s' \<and> assign_inv {} s'
    \<and> s' = (upd_thread g (\<lambda>t. t\<lparr>th_state := OUT\<rparr>) s)\<lparr>outQueue := outQueue s @ [g]\<rparr>"
proof -
  let ?s = "(upd_thread g (\<lambda>t. t\<lparr>th_state := OUT\<rparr>) s)\<lparr>outQueue := outQueue s @ [g]\<rparr>"
  have i: "ctx_inv s" "thr_inv s" "lists_inv {} s" "busy_inv {} s" using a by (auto simp: assign_inv_def)
  have "\<not> th_owned (upd_thread g (\<lambda>t. t\<lparr>th_state := OUT\<rparr>) s) g" using i(3) g by (auto simp: th_owned_def lists_inv_def)
  moreover have "ctx_inv ?s" using i(1) g unfolding ctx_inv_def by (auto simp: ctx_inv_def)
  moreover have "thr_inv ?s" using i(2) g by (auto simp: thr_inv_def)
  moreover have "lists_inv {} ?s" using i(3) g by (auto simp: lists_inv_def)
  moreover have "busy_inv {} ?s" unfolding busy_inv_def
  proof (intro ballI allI impI)
    fix h d assume h: "h \<in> set (runQueue ?s)" "d < numCores ?s" "th_mask (threads ?s h) d"
    then have hs: "h \<in> set (runQueue s)" "d < numCores s" "th_mask (threads s h) d" by (auto split: if_splits)
    then have r: "runs s d" using i(4) by (auto simp: busy_inv_def)
    have d: "d \<noteq> th_cid (threads s g)" using n hs by blast
    show "runs ?s d"
    proof (rule runs_mono [OF r])
      fix v assume "tstate s v = RUNNING_T" "curThread (contexts s d) = Some v"
      then show "tstate ?s v = RUNNING_T" using used_context [OF a hs(2)] d by auto
    qed simp
  qed
  ultimately show ?thesis by (simp add: out_push_def assign_inv_def)
qed

text \<open>A thread that is out comes back to its context.\<close>

lemma out_return_inv:
  assumes a: "assign_inv {} s" and g: "g \<in> gidMap s" "tstate s g = OUT"
  shows "q_remove g (outQueue s) = Inr (remove1 g (outQueue s))
    \<and> assign_inv {} (upd_thread g (\<lambda>t. t\<lparr>th_state := RUNNING_T\<rparr>) (s\<lparr>outQueue := remove1 g (outQueue s)\<rparr>))"
proof -
  let ?s = "upd_thread g (\<lambda>t. t\<lparr>th_state := RUNNING_T\<rparr>) (s\<lparr>outQueue := remove1 g (outQueue s)\<rparr>)"
  have i: "ctx_inv s" "thr_inv s" "lists_inv {} s" "busy_inv {} s" using a by (auto simp: assign_inv_def)
  have "g \<in> set (outQueue s)" using i(3) g by (simp add: lists_inv_def)
  moreover have "ctx_inv ?s" using i(1) unfolding ctx_inv_def by (auto simp: ctx_inv_def)
  moreover have "thr_inv ?s" using i(2) g by (auto simp: thr_inv_def)
  moreover have "lists_inv {} ?s" using i(3) g by (auto simp: lists_inv_def)
  moreover have "busy_inv {} ?s"
    by (rule busy_mono [OF i(4)]) (auto intro: runs_mono)
  ultimately show ?thesis by (simp add: q_remove_def assign_inv_def)
qed

lemma free_push_inv:
  assumes a: "assign_inv {c} s" and "\<And>g. g \<in> set (runQueue s) \<Longrightarrow> \<not> th_mask (threads s g) c"
  shows "free_push c s = Inr (s\<lparr>freeList := freeList s @ [c]\<rparr>) \<and> assign_inv {} (s\<lparr>freeList := freeList s @ [c]\<rparr>)"
proof -
  let ?s = "s\<lparr>freeList := freeList s @ [c]\<rparr>"
  have i: "ctx_inv s" "thr_inv s" "lists_inv {c} s" "busy_inv {c} s" using a by (auto simp: assign_inv_def)
  have "ctx_inv ?s" "thr_inv ?s" using i(1,2) by (simp_all add: ctx_inv_def thr_inv_def)
  moreover have "lists_inv {} ?s" using i(3) by (auto simp: lists_inv_def)
  moreover have "busy_inv {} ?s" using i(4) assms(2) by (simp add: busy_inv_def runs_def) blast
  moreover have "c \<notin> set (freeList s)" using i(3) by (auto simp: lists_inv_def)
  ultimately show ?thesis by (simp add: free_push_def assign_inv_def)
qed

end
