(* ===== verification/SchedSafe.thy ===== *)
theory SchedSafe
  imports SchedAssign
begin

section \<open>Steps of the simulated threads\<close>

text \<open>
  Which handler a thread may call depends on where it is: outside the simulation (not
  started, in a system call), asleep in the run queue, in the simulation, or in \<open>sync\<close> before
  the handoff is done. \<open>place\<close> records this for each thread. The invariant says what the
  fields of a thread are in each place, how they go with the barrier, and who is to be handed
  whose context. \<open>X\<close> are the contexts whose barrier state is being changed and \<open>Y\<close> the threads
  in the hands of the handler.
\<close>

datatype place = Away | Queued_up | In_sim | In_sync

definition bar_ok :: "sched \<Rightarrow> bool" where
  "bar_ok s \<longleftrightarrow> bar_inv (s_bar s) \<and> at_rest (s_bar s) \<and> 0 < parallelThreads (s_bar s) \<and> numCores s \<le> MAX_THREADS"

definition link_inv :: "nat set \<Rightarrow> sched \<Rightarrow> bool" where
  "link_inv X s \<longleftrightarrow> (\<forall>c. c \<notin> X \<longrightarrow> (active (s_bar s) c \<longleftrightarrow> c < numCores s \<and> runs s c))"

definition handed :: "sched \<Rightarrow> nat \<Rightarrow> bool" where
  "handed s d \<longleftrightarrow> (\<exists>v \<in> gidMap s. handoffThread (threads s v) = Some d)"

definition turn_ok :: "sched \<Rightarrow> (nat \<Rightarrow> place) \<Rightarrow> nat \<Rightarrow> bool" where
  "turn_ok s pc g \<longleftrightarrow> (let c = th_cid (threads s g) in st (s_bar s) c = WAITING \<longrightarrow>
     pc g = In_sync \<and> handoffThread (threads s g) = None \<or> unserved (s_bar s) c)"

definition place_ok :: "nat set \<Rightarrow> sched \<Rightarrow> (nat \<Rightarrow> place) \<Rightarrow> nat \<Rightarrow> bool" where
  "place_ok X s pc g \<longleftrightarrow> (let t = threads s g in
     (th_state t = RUNNING_T \<longrightarrow> pc g \<noteq> Away \<and> (pc g = Queued_up \<longrightarrow> th_futex t \<noteq> 1 \<and> \<not> needsJoin t) \<and> (th_cid t \<notin> X \<longrightarrow> turn_ok s pc g))
     \<and> (th_state t = QUEUED \<longrightarrow> pc g = Queued_up \<and> th_futex t = 1 \<and> (g \<in> set (runQueue s) \<or> handed s g))
     \<and> (th_state t \<in> {STARTED, OUT, BLOCKED, SLEEPING} \<longrightarrow> pc g = Away)
     \<and> (th_state t = SLEEPING \<longrightarrow> th_futex t = 1)
     \<and> fakeLeave t = None \<and> fj_action t = FJA_NONE)"

definition sleep_ok :: "nat set \<Rightarrow> sched \<Rightarrow> (nat \<Rightarrow> place) \<Rightarrow> nat \<Rightarrow> bool" where
  "sleep_ok X s pc g \<longleftrightarrow> (let t = threads s g in markedForSleep t \<longrightarrow> th_state t = RUNNING_T \<and> pc g = In_sim
     \<and> (th_cid t \<notin> X \<longrightarrow> st (s_bar s) (th_cid t) = RUNNING) \<and> curPhase s < wakeupPhase t \<and> th_futex t = 1)"

definition hand_ok :: "sched \<Rightarrow> (nat \<Rightarrow> place) \<Rightarrow> nat \<Rightarrow> bool" where
  "hand_ok s pc g \<longleftrightarrow> (\<forall>d. handoffThread (threads s g) = Some d \<longrightarrow> tstate s g = RUNNING_T \<and> pc g = In_sync
     \<and> d \<in> gidMap s \<and> tstate s d = QUEUED \<and> d \<notin> set (runQueue s) \<and> th_mask (threads s d) (th_cid (threads s g))
     \<and> (\<forall>w \<in> gidMap s. handoffThread (threads s w) = Some d \<longrightarrow> w = g))"

definition thread_ok :: "nat set \<Rightarrow> sched \<Rightarrow> (nat \<Rightarrow> place) \<Rightarrow> nat \<Rightarrow> bool" where
  "thread_ok X s pc g \<longleftrightarrow> place_ok X s pc g \<and> sleep_ok X s pc g \<and> hand_ok s pc g"

definition sleepers_ok :: "sched \<Rightarrow> bool" where
  "sleepers_ok s \<longleftrightarrow> sorted (map (\<lambda>g. wakeupPhase (threads s g)) (sleepQueue s))
     \<and> (\<forall>g \<in> set (sleepQueue s). curPhase s < wakeupPhase (threads s g)) \<and> curPhase s = numPhases s"

definition dyn_inv :: "nat set \<Rightarrow> nat set \<Rightarrow> sched \<Rightarrow> (nat \<Rightarrow> place) \<Rightarrow> bool" where
  "dyn_inv X Y s pc \<longleftrightarrow> bar_ok s \<and> link_inv X s \<and> (\<forall>g \<in> gidMap s - Y. thread_ok X s pc g) \<and> sleepers_ok s"

definition sched_inv :: "sched \<Rightarrow> (nat \<Rightarrow> place) \<Rightarrow> bool" where
  "sched_inv s pc \<longleftrightarrow> assign_inv {} s \<and> dyn_inv {} {} s pc"

text \<open>A handler succeeds with a property, unless a draw of the generator does not return.\<close>

definition ensures :: "('a \<Rightarrow> bool) \<Rightarrow> 'a res \<Rightarrow> bool" where
  "ensures P r \<longleftrightarrow> r = Inl NoReturn \<or> (\<exists>x. r = Inr x \<and> P x)"

lemma ensures_Inr [simp]: "ensures P (Inr x) \<longleftrightarrow> P x"
  by (simp add: ensures_def)

lemma ensures_bind: "ensures P m \<Longrightarrow> (\<And>x. P x \<Longrightarrow> ensures Q (f x)) \<Longrightarrow> ensures Q (rbind m f)"
  unfolding ensures_def by (metis rbind_simps)

lemma ensures_mono: "ensures P m \<Longrightarrow> (\<And>x. P x \<Longrightarrow> Q x) \<Longrightarrow> ensures Q m"
  by (auto simp: ensures_def)

subsection \<open>Framing\<close>

text \<open>A thread that a handler does not touch keeps its part of the invariant.\<close>

lemma handed_mono:
  assumes "handed s h" and "gidMap s' = gidMap s"
    and "\<And>w. w \<in> gidMap s \<Longrightarrow> handoffThread (threads s w) = Some h \<Longrightarrow> handoffThread (threads s' w) = Some h"
  shows "handed s' h"
  using assms by (auto simp: handed_def)

lemma thread_ok_frame:
  assumes ok: "thread_ok X s pc h"
    and same: "threads s' h = threads s h" "pc' h = pc h" "gidMap s' = gidMap s" "curPhase s' = curPhase s"
      "s_bar s' = s_bar s" "X \<subseteq> X'"
    and q: "tstate s h = QUEUED \<Longrightarrow> h \<in> set (runQueue s) \<or> handed s h \<Longrightarrow> h \<in> set (runQueue s') \<or> handed s' h"
    and w: "\<And>w d. w \<in> gidMap s \<Longrightarrow> handoffThread (threads s h) = Some d \<Longrightarrow>
      handoffThread (threads s' w) = Some d \<Longrightarrow> handoffThread (threads s w) = Some d"
    and d: "\<And>d. handoffThread (threads s h) = Some d \<Longrightarrow> tstate s d = QUEUED \<Longrightarrow> d \<notin> set (runQueue s) \<Longrightarrow>
      tstate s' d = QUEUED \<and> d \<notin> set (runQueue s') \<and> th_mask (threads s' d) = th_mask (threads s d)"
  shows "thread_ok X' s' pc' h"
proof -
  have "turn_ok s' pc' h = turn_ok s pc h" using same by (simp add: turn_ok_def)
  then have "place_ok X' s' pc' h" using ok same q unfolding thread_ok_def place_ok_def by (auto simp: Let_def)
  moreover have "sleep_ok X' s' pc' h" using ok same by (auto simp: thread_ok_def sleep_ok_def Let_def)
  moreover have "hand_ok s' pc' h" unfolding hand_ok_def
  proof (intro allI impI)
    fix e assume "handoffThread (threads s' h) = Some e"
    then have e: "handoffThread (threads s h) = Some e" using same(1) by simp
    then have eo: "tstate s h = RUNNING_T" "pc h = In_sync" "e \<in> gidMap s" "tstate s e = QUEUED" "e \<notin> set (runQueue s)"
      "th_mask (threads s e) (th_cid (threads s h))" "\<forall>w \<in> gidMap s. handoffThread (threads s w) = Some e \<longrightarrow> w = h"
      using ok by (simp_all add: thread_ok_def hand_ok_def)
    show "tstate s' h = RUNNING_T \<and> pc' h = In_sync \<and> e \<in> gidMap s' \<and> tstate s' e = QUEUED \<and> e \<notin> set (runQueue s')
      \<and> th_mask (threads s' e) (th_cid (threads s' h)) \<and> (\<forall>w \<in> gidMap s'. handoffThread (threads s' w) = Some e \<longrightarrow> w = h)"
      using eo d [OF e eo(4,5)] same(1-3) w [OF _ e] by simp
  qed
  ultimately show ?thesis by (simp add: thread_ok_def)
qed


text \<open>An operation of the barrier on context \<open>c\<close>, seen by the thread \<open>h\<close>.\<close>

lemma bar_move_ok:
  assumes ok: "thread_ok {c} s pc h" and b: "others_ok c (s_bar s) b"
    and mine: "tstate s h = RUNNING_T \<Longrightarrow> th_cid (threads s h) = c \<Longrightarrow>
      turn_ok (s\<lparr>s_bar := b\<rparr>) pc h \<and> \<not> markedForSleep (threads s h)"
    and link: "tstate s h = RUNNING_T \<Longrightarrow> th_cid (threads s h) \<noteq> c \<Longrightarrow> active (s_bar s) (th_cid (threads s h))"
  shows "thread_ok {} (s\<lparr>s_bar := b\<rparr>) pc h"
    and "phase_ends b \<noteq> phase_ends (s_bar s) \<Longrightarrow> tstate s h = RUNNING_T \<Longrightarrow> th_cid (threads s h) \<noteq> c \<Longrightarrow>
      pc h = In_sync \<and> handoffThread (threads s h) = None \<and> \<not> markedForSleep (threads s h)"
proof -
  let ?u = "th_cid (threads s h)"
  have t: "turn_ok s pc h" if "tstate s h = RUNNING_T" "?u \<noteq> c"
    using ok that by (simp add: thread_ok_def place_ok_def Let_def)
  have turned: "phase_ends b \<noteq> phase_ends (s_bar s) \<Longrightarrow> ?u \<noteq> c \<Longrightarrow> st (s_bar s) ?u \<noteq> RUNNING \<and> \<not> unserved (s_bar s) ?u"
    and fresh: "phase_ends b \<noteq> phase_ends (s_bar s) \<Longrightarrow> st b ?u = WAITING \<Longrightarrow> unserved b ?u"
    and keep: "phase_ends b = phase_ends (s_bar s) \<Longrightarrow> ?u \<noteq> c \<Longrightarrow>
      (st (s_bar s) ?u = RUNNING \<longrightarrow> st b ?u = RUNNING) \<and> (unserved (s_bar s) ?u \<and> st b ?u = WAITING \<longrightarrow> unserved b ?u)"
    using b unfolding others_ok_def by blast+
  have turn: "turn_ok (s\<lparr>s_bar := b\<rparr>) pc h" if r: "tstate s h = RUNNING_T"
  proof (cases "?u = c")
    case True
    then show ?thesis using mine r by simp
  next
    case False
    show ?thesis
    proof (cases "phase_ends b = phase_ends (s_bar s)")
      case True
      show ?thesis unfolding turn_ok_def Let_def
      proof (intro impI, simp)
        assume w: "st b ?u = WAITING"
        then have "st (s_bar s) ?u = WAITING" using keep [OF True False] link [OF r False] by (auto simp: active_def)
        then show "pc h = In_sync \<and> handoffThread (threads s h) = None \<or> unserved b ?u"
          using t [OF r False] keep [OF True False] w by (auto simp: turn_ok_def Let_def)
      qed
    next
      case ended: False
      then show ?thesis using fresh by (simp add: turn_ok_def Let_def)
    qed
  qed
  have marked: "st b ?u = RUNNING \<and> ?u \<noteq> c \<and> phase_ends b = phase_ends (s_bar s)" if m: "markedForSleep (threads s h)"
  proof -
    have r: "tstate s h = RUNNING_T" using ok m by (simp add: thread_ok_def sleep_ok_def Let_def)
    then have u: "?u \<noteq> c" using mine m by blast
    then have "st (s_bar s) ?u = RUNNING" using ok m by (simp add: thread_ok_def sleep_ok_def Let_def)
    then show ?thesis using turned keep u by blast
  qed
  have "place_ok {} (s\<lparr>s_bar := b\<rparr>) pc h"
    using ok turn unfolding thread_ok_def place_ok_def by (simp add: Let_def handed_def)
  moreover have "sleep_ok {} (s\<lparr>s_bar := b\<rparr>) pc h"
    using ok marked unfolding thread_ok_def sleep_ok_def by (simp add: Let_def)
  moreover have "hand_ok (s\<lparr>s_bar := b\<rparr>) pc h" using ok by (simp add: thread_ok_def hand_ok_def)
  ultimately show "thread_ok {} (s\<lparr>s_bar := b\<rparr>) pc h" by (simp add: thread_ok_def)
  assume e: "phase_ends b \<noteq> phase_ends (s_bar s)" and r: "tstate s h = RUNNING_T" and u: "?u \<noteq> c"
  have "st (s_bar s) ?u = WAITING" using link [OF r u] turned [OF e u] by (auto simp: active_def)
  then show "pc h = In_sync \<and> handoffThread (threads s h) = None \<and> \<not> markedForSleep (threads s h)"
    using t [OF r u] turned [OF e u] marked e by (auto simp: turn_ok_def Let_def)
qed


subsection \<open>The end of a phase\<close>

text \<open>What the handlers before the callback have to leave: every running thread is in \<open>sync\<close>.\<close>

definition phase_over :: "sched \<Rightarrow> (nat \<Rightarrow> place) \<Rightarrow> bool" where
  "phase_over s pc \<longleftrightarrow> (\<forall>v \<in> gidMap s. tstate s v = RUNNING_T \<longrightarrow> pc v = In_sync \<and> \<not> markedForSleep (threads s v)
     \<and> (st (s_bar s) (th_cid (threads s v)) = WAITING \<longrightarrow> unserved (s_bar s) (th_cid (threads s v))))"

lemma assign_cong:
  assumes "numCores s' = numCores s" "gidMap s' = gidMap s" "contexts s' = contexts s" "freeList s' = freeList s"
    "runQueue s' = runQueue s" "outQueue s' = outQueue s" "sleepQueue s' = sleepQueue s"
    "scheduledThreads s' = scheduledThreads s" "\<And>g. th_state (threads s' g) = th_state (threads s g)"
    "\<And>g. th_cid (threads s' g) = th_cid (threads s g)" "\<And>g. th_mask (threads s' g) = th_mask (threads s g)"
  shows "assign_inv F s' = assign_inv F s"
  unfolding assign_inv_def ctx_inv_def thr_inv_def lists_inv_def busy_inv_def runs_def assms ..

lemma avail_contexts_perm:
  assumes "avail_contexts n r = Inr (xs, r')"
  shows "distinct xs \<and> set xs = {..<n}"
proof -
  have "(\<lambda>p. distinct (fst p) \<and> set (fst p) = {..<n} \<and> length (fst p) = n) (xs, r')"
  proof (rule rfold_invariant [where f = avail_step and xs = "rev [1..<n]" and s = "([0..<n], r)"])
    fix i p p' assume i: "i \<in> set (rev [1..<n])" and p: "distinct (fst p) \<and> set (fst p) = {..<n} \<and> length (fst p) = n"
      and st: "avail_step i p = Inr p'"
    obtain j r1 where j: "draw_index i (snd p) = Some (j, r1)" "p' = (swap_nth i j (fst p), r1)"
      using st by (auto simp: avail_step_def split: option.splits)
    have "j < n" using mt_draw.below [OF j(1)] i by simp
    then show "distinct (fst p') \<and> set (fst p') = {..<n} \<and> length (fst p') = n"
      using i p j(2) by (simp add: swap_nth_def set_swap distinct_swap)
  qed (use assms in \<open>auto simp: avail_contexts_def\<close>)
  then show ?thesis by simp
qed

lemma tick_match_inv:
  assumes "set q \<subseteq> set (runQueue s)" and "distinct q" and "distinct avail" and "set avail \<subseteq> {..<numCores s}"
    and "assign_inv {} s" and "\<And>h. h \<in> gidMap s \<Longrightarrow> thread_ok {} s pc h" and "phase_over s pc"
    and "\<And>c v. c \<in> set avail \<Longrightarrow> curThread (contexts s c) = Some v \<Longrightarrow> handoffThread (threads s v) = None"
  shows "\<exists>s'. tick_match q avail s = Inr s' \<and> assign_inv {} s' \<and> (\<forall>h\<in>gidMap s. thread_ok {} s' pc h)
    \<and> same_rest s s' \<and> contexts s' = contexts s \<and> sleepQueue s' = sleepQueue s
    \<and> (\<forall>h. wakeupPhase (threads s' h) = wakeupPhase (threads s h) \<and> tstate s' h = tstate s h)"
  using assms
proof (induction q arbitrary: avail s)
  case Nil
  then show ?case by simp
next
  case (Cons g q)
  show ?case
  proof (cases "avail = [] \<or> List.find (th_mask (threads s g)) avail = None")
    case True
    show ?thesis
    proof (cases "avail = []")
      case False
      then have n: "List.find (th_mask (threads s g)) avail = None" using True by simp
      have "tick_match (g # q) avail s = tick_match q avail s" using False n by simp
      moreover have "set q \<subseteq> set (runQueue s)" "distinct q" using Cons.prems(1,2) by auto
      ultimately show ?thesis using Cons.IH [OF _ _ Cons.prems(3-8)] by simp
    qed (use Cons.prems in simp)
  next
    case False
    then obtain c where c: "List.find (th_mask (threads s g)) avail = Some c" by auto
    have cm: "c \<in> set avail" "th_mask (threads s g) c" "c < numCores s" using find_Some [OF c] Cons.prems(4) by auto
    have i: "lists_inv {} s" "busy_inv {} s" using Cons.prems(5) by (auto simp: assign_inv_def)
    have g: "g \<in> set (runQueue s)" "g \<in> gidMap s" "tstate s g = QUEUED" using Cons.prems(1) i(1) by (auto simp: lists_inv_def)
    have "runs s c" using i(2) g(1) cm by (simp add: busy_inv_def)
    then obtain v where v: "curThread (contexts s c) = Some v" "tstate s v = RUNNING_T" by (auto simp: runs_def)
    have vg: "v \<in> gidMap s" "th_cid (threads s v) = c" using used_context [OF Cons.prems(5) cm(3) v(1)] by auto
    have vn: "handoffThread (threads s v) = None" using Cons.prems(8) [OF cm(1) v(1)] .
    define s1 where "s1 = (upd_thread v (\<lambda>t. t\<lparr>handoffThread := Some g\<rparr>) s)\<lparr>runQueue := remove1 g (runQueue s)\<rparr>"
    have step: "tick_match (g # q) avail s = tick_match q (remove1 c avail) s1"
      using False c v(1) g(1) by (simp add: q_remove_def s1_def)
    have nog: "handoffThread (threads s w) \<noteq> Some g" if "w \<in> gidMap s" for w
      using Cons.prems(6) [OF that] g(1) by (auto simp: thread_ok_def hand_ok_def)
    have rq: "set (runQueue s1) = set (runQueue s) - {g}" using i(1) by (simp add: s1_def lists_inv_def)
    have f: "threads s1 h = (if h = v then (threads s v)\<lparr>handoffThread := Some g\<rparr> else threads s h)" for h by (simp add: s1_def)
    have same: "numCores s1 = numCores s" "gidMap s1 = gidMap s" "contexts s1 = contexts s" "s_bar s1 = s_bar s"
      "curPhase s1 = curPhase s" "sleepQueue s1 = sleepQueue s" "same_rest s s1" by (simp_all add: s1_def same_rest_def)
    have a1: "assign_inv {} s1"
    proof -
      have "assign_inv {} (s\<lparr>runQueue := remove1 g (runQueue s)\<rparr>)"
      proof -
        have "ctx_inv s" "thr_inv s" using Cons.prems(5) by (auto simp: assign_inv_def)
        then have "ctx_inv (s\<lparr>runQueue := remove1 g (runQueue s)\<rparr>)" "thr_inv (s\<lparr>runQueue := remove1 g (runQueue s)\<rparr>)"
          by (simp_all add: ctx_inv_def thr_inv_def)
        moreover have "lists_inv {} (s\<lparr>runQueue := remove1 g (runQueue s)\<rparr>)" using i(1) by (auto simp: lists_inv_def)
        moreover have "busy_inv {} (s\<lparr>runQueue := remove1 g (runQueue s)\<rparr>)"
          by (rule busy_mono [OF i(2)]) (auto simp: runs_def dest: subsetD [OF set_remove1_subset])
        ultimately show ?thesis by (simp add: assign_inv_def)
      qed
      then show ?thesis by (subst assign_cong [of _ "s\<lparr>runQueue := remove1 g (runQueue s)\<rparr>"]) (simp_all add: s1_def)
    qed
    have ok1: "thread_ok {} s1 pc h" if h: "h \<in> gidMap s" for h
    proof (cases "h = v")
      case True
      have ov: "thread_ok {} s pc v" using Cons.prems(6) [OF vg(1)] .
      have po: "pc v = In_sync" "\<not> markedForSleep (threads s v)"
        "st (s_bar s) c = WAITING \<longrightarrow> unserved (s_bar s) c"
        using Cons.prems(7) vg v(2) by (auto simp: phase_over_def)
      have "place_ok {} s1 pc v"
        using ov v(2) po same vg(2) unfolding thread_ok_def place_ok_def turn_ok_def f Let_def by simp
      moreover have "sleep_ok {} s1 pc v" using po(2) by (simp add: sleep_ok_def f Let_def)
      moreover have "hand_ok s1 pc v"
      proof -
        have "g \<noteq> v" using v(2) g(3) by auto
        then show ?thesis using v(2) po(1) g cm(2) vg nog rq same by (simp add: hand_ok_def f)
      qed
      ultimately show ?thesis by (simp add: thread_ok_def True)
    next
      case hv: False
      show ?thesis
      proof (rule thread_ok_frame [OF Cons.prems(6) [OF h]])
        assume "h \<in> set (runQueue s) \<or> handed s h"
        then show "h \<in> set (runQueue s1) \<or> handed s1 h"
        proof
          assume "h \<in> set (runQueue s)"
          then show ?thesis using rq vg(1) same(2) by (cases "h = g") (auto simp: handed_def f)
        next
          assume "handed s h"
          then have "handed s1 h" by (rule handed_mono) (use vn same(2) in \<open>auto simp: f\<close>)
          then show ?thesis ..
        qed
      next
        fix w d assume "w \<in> gidMap s" "handoffThread (threads s h) = Some d" "handoffThread (threads s1 w) = Some d"
        then show "handoffThread (threads s w) = Some d" using nog [OF h] by (auto simp: f split: if_splits)
      next
        fix d assume d: "handoffThread (threads s h) = Some d" "tstate s d = QUEUED" "d \<notin> set (runQueue s)"
        then show "tstate s1 d = QUEUED \<and> d \<notin> set (runQueue s1) \<and> th_mask (threads s1 d) = th_mask (threads s d)"
          using rq by (cases "d = v") (simp_all add: f)
      qed (use hv same f in simp_all)
    qed
    have po1: "phase_over s1 pc" using Cons.prems(7) same by (auto simp: phase_over_def f)
    have h1: "handoffThread (threads s1 u) = None" if "d \<in> set (remove1 c avail)" "curThread (contexts s1 d) = Some u" for d u
    proof -
      have d: "d \<in> set avail" "d \<noteq> c" using that(1) Cons.prems(3) by (auto simp: set_remove1_eq)
      have "u \<noteq> v" using used_context [OF Cons.prems(5), of d u] that(2) d Cons.prems(4) vg(2) same(3) by auto
      then show ?thesis using Cons.prems(8) [OF d(1)] that(2) same(3) by (simp add: f)
    qed
    have sq: "set q \<subseteq> set (runQueue s1)" "distinct q" using Cons.prems(1,2) rq by auto
    have av: "distinct (remove1 c avail)" "set (remove1 c avail) \<subseteq> {..<numCores s1}"
      using Cons.prems(3,4) same(1) by (auto simp: distinct_remove1 dest: notin_set_remove1)
    have "\<exists>s'. tick_match q (remove1 c avail) s1 = Inr s' \<and> assign_inv {} s' \<and> (\<forall>h\<in>gidMap s1. thread_ok {} s' pc h)
      \<and> same_rest s1 s' \<and> contexts s' = contexts s1 \<and> sleepQueue s' = sleepQueue s1
      \<and> (\<forall>h. wakeupPhase (threads s' h) = wakeupPhase (threads s1 h) \<and> tstate s' h = tstate s1 h)"
    proof (rule Cons.IH [OF sq av a1])
      show "phase_over s1 pc" by (rule po1)
      show "thread_ok {} s1 pc h" if "h \<in> gidMap s1" for h using ok1 [of h] that same(2) by simp
      show "handoffThread (threads s1 v) = None" if "c' \<in> set (remove1 c avail)" "curThread (contexts s1 c') = Some v" for c' v
        using h1 that by blast
    qed
    then obtain s' where s': "tick_match q (remove1 c avail) s1 = Inr s'"
      "assign_inv {} s'" "\<forall>h\<in>gidMap s1. thread_ok {} s' pc h" "same_rest s1 s'" "contexts s' = contexts s1"
      "sleepQueue s' = sleepQueue s1" "\<forall>h. wakeupPhase (threads s' h) = wakeupPhase (threads s1 h) \<and> tstate s' h = tstate s1 h"
      by blast
    have "\<forall>h. wakeupPhase (threads s' h) = wakeupPhase (threads s h) \<and> tstate s' h = tstate s h"
      using s'(7) by (simp add: f)
    then show ?thesis using step s' same same_rest_trans [OF same(7) s'(4)] by auto
  qed
qed

text \<open>The sleepers that are woken go back to \<open>BLOCKED\<close>; nobody else is touched.\<close>

lemma wake_sleepers_inv:
  assumes "assign_inv {} (s\<lparr>sleepQueue := q\<rparr>)" and "\<And>h. h \<in> gidMap s \<Longrightarrow> thread_ok {} s pc h"
    and "sorted (map (\<lambda>g. wakeupPhase (threads s g)) q)" and "\<And>g. g \<in> set q \<Longrightarrow> curPhase s \<le> wakeupPhase (threads s g)"
  shows "\<exists>s'. wake_sleepers q s = Inr s' \<and> assign_inv {} s' \<and> (\<forall>h\<in>gidMap s. thread_ok {} s' pc h)
    \<and> same_rest s s' \<and> contexts s' = contexts s \<and> runQueue s' = runQueue s
    \<and> sorted (map (\<lambda>g. wakeupPhase (threads s' g)) (sleepQueue s')) \<and> (\<forall>g\<in>set (sleepQueue s'). curPhase s < wakeupPhase (threads s' g))
    \<and> (\<forall>h. threads s' h = threads s h \<or> (tstate s h = SLEEPING \<and> tstate s' h = BLOCKED))"
  using assms
proof (induction q arbitrary: s)
  case Nil
  have "thread_ok {} (s\<lparr>sleepQueue := []\<rparr>) pc h" if "h \<in> gidMap s" for h
    by (rule thread_ok_frame [OF Nil(2) [OF that]]) (auto simp: handed_def)
  then show ?case using Nil(1) by (simp add: same_rest_def)
next
  case (Cons g q)
  show ?case
  proof (cases "wakeupPhase (threads s g) \<le> curPhase s")
    case False
    then have lt: "curPhase s < wakeupPhase (threads s g)" by simp
    then have "curPhase s < wakeupPhase (threads s x)" if "x \<in> set q" for x
      using Cons.prems(3) that by (auto intro: less_le_trans)
    moreover have "thread_ok {} (s\<lparr>sleepQueue := g # q\<rparr>) pc h" if "h \<in> gidMap s" for h
      by (rule thread_ok_frame [OF Cons.prems(2) [OF that]]) (auto simp: handed_def)
    ultimately show ?thesis using Cons.prems(1,3) False lt by (simp add: same_rest_def)
  next
    case True
    have w: "wakeupPhase (threads s g) = curPhase s" using True Cons.prems(4) [of g] by simp
    have l: "lists_inv {} (s\<lparr>sleepQueue := g # q\<rparr>)" using Cons.prems(1) by (simp add: assign_inv_def)
    have g: "g \<in> gidMap s" "tstate s g = SLEEPING" "g \<notin> set q" using l by (auto simp: lists_inv_def)
    note og = Cons.prems(2) [OF g(1)]
    have fu: "th_futex (threads s g) = 1" "pc g = Away" "handoffThread (threads s g) = None" "\<not> markedForSleep (threads s g)"
      "fakeLeave (threads s g) = None" "fj_action (threads s g) = FJA_NONE"
      using og g(2) by (auto simp: thread_ok_def place_ok_def hand_ok_def sleep_ok_def Let_def)
    define s1 where "s1 = upd_thread g (\<lambda>t. t\<lparr>needsJoin := False, th_futex := 0\<rparr>) (upd_thread g (\<lambda>t. t\<lparr>th_state := BLOCKED\<rparr>) s)"
    have f: "threads s1 h = (if h = g then (threads s g)\<lparr>th_state := BLOCKED, needsJoin := False, th_futex := 0\<rparr> else threads s h)" for h
      by (simp add: s1_def)
    have same: "gidMap s1 = gidMap s" "s_bar s1 = s_bar s" "curPhase s1 = curPhase s" "contexts s1 = contexts s"
      "runQueue s1 = runQueue s" "same_rest s s1" "numCores s1 = numCores s" by (simp_all add: s1_def same_rest_def)
    have step: "wake_sleepers (g # q) s = wake_sleepers q s1" using True w fu(1) by (simp add: wakeup_def s1_def)
    have a1: "assign_inv {} (s1\<lparr>sleepQueue := q\<rparr>)"
    proof -
      have i: "ctx_inv (s\<lparr>sleepQueue := g # q\<rparr>)" "thr_inv (s\<lparr>sleepQueue := g # q\<rparr>)" "busy_inv {} (s\<lparr>sleepQueue := g # q\<rparr>)"
        using Cons.prems(1) by (auto simp: assign_inv_def)
      have "ctx_inv (s1\<lparr>sleepQueue := q\<rparr>)" using i(1) g(2) by (auto simp: ctx_inv_def s1_def)
      moreover have "thr_inv (s1\<lparr>sleepQueue := q\<rparr>)" using i(2) by (auto simp: thr_inv_def s1_def)
      moreover have "lists_inv {} (s1\<lparr>sleepQueue := q\<rparr>)" using l g by (auto simp: lists_inv_def s1_def)
      moreover have "busy_inv {} (s1\<lparr>sleepQueue := q\<rparr>)"
      proof (rule busy_mono [OF i(3)])
        fix d assume "d \<in> {} \<or> runs (s\<lparr>sleepQueue := g # q\<rparr>) d"
        then have "runs (s\<lparr>sleepQueue := g # q\<rparr>) d" by simp
        then show "runs (s1\<lparr>sleepQueue := q\<rparr>) d" by (rule runs_mono) (use g(2) in \<open>auto simp: s1_def\<close>)
      qed (simp_all add: s1_def)
      ultimately show ?thesis by (simp add: assign_inv_def)
    qed
    have ok1: "thread_ok {} s1 pc h" if h: "h \<in> gidMap s1" for h
    proof (cases "h = g")
      case True
      show ?thesis unfolding True thread_ok_def place_ok_def sleep_ok_def hand_ok_def f using fu by simp
    next
      case hg: False
      have "h \<in> gidMap s" using h same(1) by simp
      note oh = Cons.prems(2) [OF this]
      show ?thesis
      proof (rule thread_ok_frame [OF oh])
        fix d assume "handoffThread (threads s h) = Some d" "tstate s d = QUEUED" "d \<notin> set (runQueue s)"
        then show "tstate s1 d = QUEUED \<and> d \<notin> set (runQueue s1) \<and> th_mask (threads s1 d) = th_mask (threads s d)"
          using g(2) same(5) by (auto simp: f)
      next
        assume "h \<in> set (runQueue s) \<or> handed s h"
        moreover have "handed s1 h" if "handed s h" by (rule handed_mono [OF that]) (use same(1) fu(3) in \<open>auto simp: f\<close>)
        ultimately show "h \<in> set (runQueue s1) \<or> handed s1 h" using same(5) by auto
      next
        fix w d assume "handoffThread (threads s1 w) = Some d"
        then show "handoffThread (threads s w) = Some d" by (auto simp: f split: if_splits)
      qed (use hg same f in simp_all)
    qed
    have so: "sorted (map (\<lambda>g. wakeupPhase (threads s1 g)) q)" 
    proof -
      have "wakeupPhase (threads s1 x) = wakeupPhase (threads s x)" for x by (simp add: f)
      then show ?thesis using Cons.prems(3) by simp
    qed
    have le: "curPhase s1 \<le> wakeupPhase (threads s1 x)" if "x \<in> set q" for x
      using Cons.prems(4) [of x] that same(3) by (cases "x = g") (simp_all add: f)
    from Cons.IH [OF a1 ok1 so le] obtain s' where s': "wake_sleepers q s1 = Inr s'" "assign_inv {} s'"
      "\<forall>h\<in>gidMap s1. thread_ok {} s' pc h" "same_rest s1 s'" "contexts s' = contexts s1" "runQueue s' = runQueue s1"
      "sorted (map (\<lambda>g. wakeupPhase (threads s' g)) (sleepQueue s'))"
      "\<forall>g\<in>set (sleepQueue s'). curPhase s1 < wakeupPhase (threads s' g)"
      "\<forall>h. threads s' h = threads s1 h \<or> (tstate s1 h = SLEEPING \<and> tstate s' h = BLOCKED)" by auto
    have "threads s' h = threads s h \<or> (tstate s h = SLEEPING \<and> tstate s' h = BLOCKED)" for h
      using s'(9) [rule_format, of h] g(2) by (cases "h = g") (auto simp: f)
    then show ?thesis using step s' same same_rest_trans [OF same(6) s'(4)] by simp
  qed
qed

lemma used_le: "assign_inv F s \<Longrightarrow> scheduledThreads s \<le> numCores s"
proof -
  assume "assign_inv F s"
  then have "scheduledThreads s = card {c. c < numCores s \<and> curThread (contexts s c) \<noteq> None}"
    by (simp add: assign_inv_def lists_inv_def)
  also have "\<dots> \<le> card {..<numCores s}" by (intro card_mono) auto
  finally show ?thesis by simp
qed

lemma link_cong: "s_bar s' = s_bar s \<Longrightarrow> numCores s' = numCores s \<Longrightarrow> (\<And>c. runs s' c = runs s c) \<Longrightarrow> link_inv X s' = link_inv X s"
  by (simp add: link_inv_def)

text \<open>\<open>callback\<close> at the end of a phase.\<close>

lemma callback_inv:
  assumes a: "assign_inv {} s" and b: "bar_ok s" "link_inv {} s" "sleepers_ok s"
    and ok: "\<And>h. h \<in> gidMap s \<Longrightarrow> thread_ok {} s pc h" and po: "phase_over s pc"
    and nh: "\<And>v. v \<in> gidMap s \<Longrightarrow> handoffThread (threads s v) = None"
  shows "ensures (\<lambda>s'. sched_inv s' pc) (sched_callback s)"
proof -
  define s1 where "s1 = s\<lparr>numPhases := numPhases s + 1, curPhase := curPhase s + 1\<rparr>"
  have a1: "assign_inv {} (s1\<lparr>sleepQueue := sleepQueue s1\<rparr>)"
    using a by (subst assign_cong [of _ s]) (simp_all add: s1_def)
  have nm: "\<not> markedForSleep (threads s h)" if "h \<in> gidMap s" for h
    using ok [OF that] po that by (auto simp: thread_ok_def sleep_ok_def phase_over_def Let_def)
  have ok1: "thread_ok {} s1 pc h" if "h \<in> gidMap s1" for h
    using ok [of h] nm [of h] that
    by (simp add: s1_def thread_ok_def place_ok_def sleep_ok_def hand_ok_def turn_ok_def handed_def Let_def)
  have so: "sorted (map (\<lambda>g. wakeupPhase (threads s1 g)) (sleepQueue s1))"
    using b(3) by (simp add: s1_def sleepers_ok_def)
  have le: "curPhase s1 \<le> wakeupPhase (threads s1 g)" if "g \<in> set (sleepQueue s1)" for g
  proof -
    have "\<forall>g \<in> set (sleepQueue s). curPhase s < wakeupPhase (threads s g)" using b(3) unfolding sleepers_ok_def by blast
    moreover have "g \<in> set (sleepQueue s)" using that by (simp add: s1_def)
    ultimately have "curPhase s < wakeupPhase (threads s g)" by blast
    then have "curPhase s + 1 \<le> wakeupPhase (threads s g)" by (rule word_add_1_le)
    then show ?thesis by (simp add: s1_def)
  qed
  from wake_sleepers_inv [OF a1 ok1 so le] obtain s2 where s2: "wake_sleepers (sleepQueue s1) s1 = Inr s2" "assign_inv {} s2"
    "\<forall>h\<in>gidMap s1. thread_ok {} s2 pc h" "same_rest s1 s2" "contexts s2 = contexts s1" "runQueue s2 = runQueue s1"
    "sorted (map (\<lambda>g. wakeupPhase (threads s2 g)) (sleepQueue s2))"
    "\<forall>g\<in>set (sleepQueue s2). curPhase s1 < wakeupPhase (threads s2 g)"
    "\<forall>h. threads s2 h = threads s1 h \<or> (tstate s1 h = SLEEPING \<and> tstate s2 h = BLOCKED)" by auto
  have e2: "numCores s2 = numCores s" "gidMap s2 = gidMap s" "s_bar s2 = s_bar s" "curPhase s2 = curPhase s + 1"
    "numPhases s2 = numPhases s + 1" using s2(4) by (simp_all add: same_rest_def s1_def)
  have t2: "tstate s2 v = RUNNING_T \<longleftrightarrow> tstate s v = RUNNING_T" "tstate s v = RUNNING_T \<Longrightarrow> threads s2 v = threads s v" for v
    using s2(9) [rule_format, of v] by (auto simp: s1_def)
  have runs2: "runs s2 c = runs s c" for c using s2(5) t2(1) by (simp add: runs_def s1_def)
  have l2: "link_inv {} s2" using b(2) link_cong [OF e2(3,1) runs2] by simp
  have cp: "curPhase s = numPhases s" using b(3) by (simp add: sleepers_ok_def)
  have fin: "sched_inv s' pc" if "assign_inv {} s'" "\<forall>h\<in>gidMap s. thread_ok {} s' pc h" "same_rest s2 s'" "contexts s' = contexts s2"
    "sleepQueue s' = sleepQueue s2" "\<forall>h. wakeupPhase (threads s' h) = wakeupPhase (threads s2 h) \<and> tstate s' h = tstate s2 h" for s'
  proof -
    have e: "numCores s' = numCores s2" "gidMap s' = gidMap s2" "s_bar s' = s_bar s2" "curPhase s' = curPhase s2"
      "numPhases s' = numPhases s2" using that(3) by (simp_all add: same_rest_def)
    have "runs s' c = runs s2 c" for c using that(4,6) by (simp add: runs_def)
    then have "link_inv {} s'" using l2 link_cong [OF e(3,1)] by simp
    moreover have "bar_ok s'" using b(1) e e2 by (simp add: bar_ok_def)
    moreover have "sleepers_ok s'" using s2(7,8) that(5,6) e e2 cp by (simp add: sleepers_ok_def s1_def)
    ultimately show ?thesis using that(1,2) e(2) e2(2) by (simp add: sched_inv_def dyn_inv_def)
  qed
  have po2: "phase_over s2 pc"
    using po t2 e2(2,3) by (auto simp: phase_over_def)
  have tick: "ensures (\<lambda>s'. sched_inv s' pc) (schedTick s2)"
  proof (cases "avail_contexts (numCores s2) (sched_rnd s2)")
    case (Inl e)
    have "rfold avail_step xs p = Inl e \<Longrightarrow> e = NoReturn" for xs p
      by (induction xs arbitrary: p) (auto simp: avail_step_def rbind_def split: option.splits sum.splits)
    then have "e = NoReturn" using Inl by (simp add: avail_contexts_def)
    then show ?thesis using Inl by (simp add: schedTick_def ensures_def)
  next
    case (Inr p)
    obtain xs r where p: "p = (xs, r)" by fastforce
    have xs: "distinct xs" "set xs = {..<numCores s2}" using avail_contexts_perm Inr p by blast+
    define s3 where "s3 = s2\<lparr>sched_rnd := r\<rparr>"
    have a3: "assign_inv {} s3" using s2(2) by (subst assign_cong [of _ s2]) (simp_all add: s3_def)
    have ok3: "thread_ok {} s3 pc h" if "h \<in> gidMap s3" for h
      by (rule thread_ok_frame [of "{}" s2]) (use s2(3) that e2(2) in \<open>auto simp: s3_def s1_def handed_def\<close>)
    have po3: "phase_over s3 pc" using po2 by (simp add: phase_over_def s3_def)
    have n3: "handoffThread (threads s3 v) = None" if "c \<in> set xs" "curThread (contexts s3 c) = Some v" for c v
    proof -
      have "v \<in> gidMap s3" using used_context [OF a3 _ that(2)] that(1) xs(2) by (simp add: s3_def)
      then show ?thesis using s2(9) [rule_format, of v] nh [of v] s2(3) e2(2)
        by (force simp: s3_def s1_def thread_ok_def hand_ok_def)
    qed
    have q3: "set (runQueue s3) \<subseteq> set (runQueue s3)" "distinct (runQueue s3)" "set xs \<subseteq> {..<numCores s3}"
      using a3 xs(2) by (auto simp: assign_inv_def lists_inv_def s3_def)
    have "\<exists>s'. tick_match (runQueue s3) xs s3 = Inr s' \<and> assign_inv {} s' \<and> (\<forall>h\<in>gidMap s3. thread_ok {} s' pc h)
      \<and> same_rest s3 s' \<and> contexts s' = contexts s3 \<and> sleepQueue s' = sleepQueue s3
      \<and> (\<forall>h. wakeupPhase (threads s' h) = wakeupPhase (threads s3 h) \<and> tstate s' h = tstate s3 h)"
      by (rule tick_match_inv [OF q3(1,2) xs(1) q3(3) a3]) (use ok3 po3 n3 in blast)+
    then obtain s' where s': "tick_match (runQueue s3) xs s3 = Inr s'"
      "assign_inv {} s'" "\<forall>h\<in>gidMap s3. thread_ok {} s' pc h" "same_rest s3 s'" "contexts s' = contexts s3"
      "sleepQueue s' = sleepQueue s3" "\<forall>h. wakeupPhase (threads s' h) = wakeupPhase (threads s3 h) \<and> tstate s' h = tstate s3 h"
      by blast
    have "schedTick s2 = Inr s'" using Inr p s'(1) by (simp add: schedTick_def s3_def)
    moreover have "sched_inv s' pc"
      by (rule fin) (use s' e2(2) in \<open>auto simp: s3_def same_rest_def\<close>)
    ultimately show ?thesis by simp
  qed
  have s2i: "sched_inv s2 pc" by (rule fin) (use s2(2,3) in \<open>auto simp: s1_def\<close>)
  show ?thesis
    using used_le [OF a] s2(1) tick s2i cp
    unfolding sched_callback_def s1_def [symmetric] Let_def by (simp add: s1_def)
qed

subsection \<open>The operations of the barrier\<close>

lemma on_context:
  assumes "assign_inv F s" and "h \<in> gidMap s" and "tstate s h = RUNNING_T"
  shows "runs s (th_cid (threads s h))" "th_cid (threads s h) < numCores s"
  using running_context [OF assms(1,2)] assms(3) by (auto simp: runs_def)

lemma bar_step:
  assumes a: "assign_inv {} s" and d: "dyn_inv {c} {} s pc" and e: "bar_exec op (s_bar s) = Inr b"
    and inv: "bar_inv b" "at_rest b" "parallelThreads b = parallelThreads (s_bar s)"
    and o: "others_ok c (s_bar s) b" and act: "active b c \<longleftrightarrow> c < numCores s \<and> runs s c"
    and mine: "\<And>h. h \<in> gidMap s \<Longrightarrow> tstate s h = RUNNING_T \<Longrightarrow> th_cid (threads s h) = c \<Longrightarrow>
      turn_ok (s\<lparr>s_bar := b\<rparr>) pc h \<and> \<not> markedForSleep (threads s h)
      \<and> (phase_ends b \<noteq> phase_ends (s_bar s) \<longrightarrow> pc h = In_sync \<and> handoffThread (threads s h) = None)"
  shows "ensures (\<lambda>s'. sched_inv s' pc) (bar_do op s)"
proof -
  define s1 where "s1 = s\<lparr>s_bar := b\<rparr>"
  have D: "bar_ok s" "link_inv {c} s" "sleepers_ok s" "\<And>h. h \<in> gidMap s \<Longrightarrow> thread_ok {c} s pc h"
    using d by (auto simp: dyn_inv_def)
  have a1: "assign_inv {} s1" using a by (subst assign_cong [of _ s]) (simp_all add: s1_def)
  have b1: "bar_ok s1" using D(1) inv by (simp add: bar_ok_def s1_def)
  have l1: "link_inv {} s1" unfolding link_inv_def
  proof (intro allI impI)
    fix u show "active (s_bar s1) u \<longleftrightarrow> u < numCores s1 \<and> runs s1 u"
      using act o D(2) by (cases "u = c") (auto simp: s1_def runs_def others_ok_def link_inv_def)
  qed
  have "sleepers_ok s1 = sleepers_ok s" by (simp add: sleepers_ok_def s1_def)
  with D(3) have sl: "sleepers_ok s1" by blast
  have lk: "active (s_bar s) (th_cid (threads s h))"
    if "h \<in> gidMap s" "tstate s h = RUNNING_T" "th_cid (threads s h) \<noteq> c" for h
    using on_context [OF a that(1,2)] D(2) that(3) by (simp add: link_inv_def)
  have ok1: "thread_ok {} s1 pc h" if h: "h \<in> gidMap s" for h
    unfolding s1_def by (rule bar_move_ok(1) [OF D(4) [OF h] o]) (use mine lk h in blast)+
  show ?thesis
  proof (cases "phase_ends b = phase_ends (s_bar s)")
    case True
    then have "bar_do op s = Inr s1" using e by (simp add: bar_do_def s1_def)
    then show ?thesis using a1 b1 l1 sl ok1 by (simp add: sched_inv_def dyn_inv_def s1_def)
  next
    case False
    have fin: "pc h = In_sync \<and> handoffThread (threads s h) = None \<and> \<not> markedForSleep (threads s h)"
      if h: "h \<in> gidMap s" "tstate s h = RUNNING_T" for h
    proof (cases "th_cid (threads s h) = c")
      case True
      then show ?thesis using mine [OF h] False by blast
    next
      case hc: False
      show ?thesis by (rule bar_move_ok(2) [OF D(4) [OF h(1)] o _ _ False h(2) hc]) (use mine lk h in blast)+
    qed
    have un: "st b u = WAITING \<Longrightarrow> unserved b u" for u using o False by (simp add: others_ok_def)
    have po: "phase_over s1 pc" unfolding phase_over_def
    proof (intro ballI impI)
      fix v assume v: "v \<in> gidMap s1" "tstate s1 v = RUNNING_T"
      then show "pc v = In_sync \<and> \<not> markedForSleep (threads s1 v)
        \<and> (st (s_bar s1) (th_cid (threads s1 v)) = WAITING \<longrightarrow> unserved (s_bar s1) (th_cid (threads s1 v)))"
        using fin [of v] un by (simp add: s1_def)
    qed
    have nh: "handoffThread (threads s1 v) = None" if v: "v \<in> gidMap s1" for v
    proof (cases "handoffThread (threads s1 v)")
      case (Some x)
      have vg: "v \<in> gidMap s" using v by (simp add: s1_def)
      have "hand_ok s1 pc v" using ok1 [OF vg] by (simp add: thread_ok_def)
      then have "tstate s1 v = RUNNING_T" using Some unfolding hand_ok_def by blast
      then have "tstate s v = RUNNING_T" by (simp add: s1_def)
      from fin [OF vg this] have "handoffThread (threads s v) = None" by blast
      then show ?thesis by (simp add: s1_def)
    qed
    have "bar_do op s = sched_callback s1" using e False by (simp add: bar_do_def s1_def)
    moreover have "ensures (\<lambda>s'. sched_inv s' pc) (sched_callback s1)"
      by (rule callback_inv [OF a1 b1 l1 sl _ po nh]) (use ok1 in \<open>simp add: s1_def\<close>)
    ultimately show ?thesis by simp
  qed
qed

lemma bar_result:
  assumes "bar_ok s" and "bar_allowed op (s_bar s)"
    and "\<And>b. bar_exec op (s_bar s) = Inr b \<Longrightarrow> bar_inv b \<Longrightarrow> at_rest b \<Longrightarrow>
      parallelThreads b = parallelThreads (s_bar s) \<Longrightarrow> ensures P (bar_do op s)"
  shows "ensures P (bar_do op s)"
  using bar_exec_inv [of "s_bar s" op] assms by (auto simp: bar_ok_def bar_do_def ensures_def)

lemma join_step:
  assumes a: "assign_inv {} s" and d: "dyn_inv {c} {} s pc" and c: "c < numCores s" "runs s c" "\<not> active (s_bar s) c"
    and m: "\<And>h. h \<in> gidMap s \<Longrightarrow> tstate s h = RUNNING_T \<Longrightarrow> th_cid (threads s h) = c \<Longrightarrow> \<not> markedForSleep (threads s h)"
  shows "ensures (\<lambda>s'. sched_inv s' pc) (bar_do (Join c) s)"
proof -
  have b: "bar_ok s" using d by (simp add: dyn_inv_def)
  have cm: "c < MAX_THREADS" "bar_inv (s_bar s)" using b c(1) by (auto simp: bar_ok_def)
  have "st (s_bar s) c \<in> {OFFLINE, LEFT}" using c(3) by (cases "st (s_bar s) c") (auto simp: active_def)
  then have al: "bar_allowed (Join c) (s_bar s)" using cm by simp
  show ?thesis
  proof (rule bar_result [OF b al])
    fix b' assume r: "bar_exec (Join c) (s_bar s) = Inr b'" "bar_inv b'" "at_rest b'"
      "parallelThreads b' = parallelThreads (s_bar s)"
    have j: "bar_join c (s_bar s) = Inr b'" using r(1) by simp
    note je = join_effect [OF cm(2,1) j]
    show "ensures (\<lambda>s'. sched_inv s' pc) (bar_do (Join c) s)"
      by (rule bar_step [OF a d r]) (use je c m in \<open>auto simp: turn_ok_def Let_def\<close>)
  qed
qed

lemma sync_step:
  assumes a: "assign_inv {} s" and d: "dyn_inv {c} {} s pc" and c: "c < numCores s" "runs s c" "st (s_bar s) c = RUNNING"
    and m: "\<And>h. h \<in> gidMap s \<Longrightarrow> tstate s h = RUNNING_T \<Longrightarrow> th_cid (threads s h) = c \<Longrightarrow>
      pc h = In_sync \<and> handoffThread (threads s h) = None \<and> \<not> markedForSleep (threads s h)"
  shows "ensures (\<lambda>s'. sched_inv s' pc) (bar_do (Sync c) s)"
proof -
  have b: "bar_ok s" using d by (simp add: dyn_inv_def)
  have bi: "bar_inv (s_bar s)" using b by (simp add: bar_ok_def)
  have al: "bar_allowed (Sync c) (s_bar s)" using c(3) by simp
  show ?thesis
  proof (rule bar_result [OF b al])
    fix b' assume r: "bar_exec (Sync c) (s_bar s) = Inr b'" "bar_inv b'" "at_rest b'"
      "parallelThreads b' = parallelThreads (s_bar s)"
    have j: "bar_sync c (s_bar s) = Inr b'" using r(1) by simp
    note je = sync_effect [OF bi j]
    show "ensures (\<lambda>s'. sched_inv s' pc) (bar_do (Sync c) s)"
      by (rule bar_step [OF a d r]) (use je c m in \<open>auto simp: turn_ok_def Let_def\<close>)
  qed
qed

lemma leave_step:
  assumes a: "assign_inv {} s" and d: "dyn_inv {c} {} s pc" and c: "\<not> runs s c" "st (s_bar s) c = RUNNING"
  shows "ensures (\<lambda>s'. sched_inv s' pc) (bar_do (Leave c) s)"
proof -
  have b: "bar_ok s" using d by (simp add: dyn_inv_def)
  have bi: "bar_inv (s_bar s)" using b by (simp add: bar_ok_def)
  have al: "bar_allowed (Leave c) (s_bar s)" using c(2) by simp
  have no: "th_cid (threads s h) \<noteq> c" if "h \<in> gidMap s" "tstate s h = RUNNING_T" for h
    using on_context [OF a that] c(1) by auto
  show ?thesis
  proof (rule bar_result [OF b al])
    fix b' assume r: "bar_exec (Leave c) (s_bar s) = Inr b'" "bar_inv b'" "at_rest b'"
      "parallelThreads b' = parallelThreads (s_bar s)"
    have j: "bar_leave c (s_bar s) = Inr b'" using r(1) by simp
    note je = leave_effect [OF bi c(2) j]
    show "ensures (\<lambda>s'. sched_inv s' pc) (bar_do (Leave c) s)"
      by (rule bar_step [OF a d r]) (use je c no in auto)
  qed
qed

end
