(* ===== verification/SchedSteps.thy ===== *)
theory SchedSteps
  imports SchedSafe
begin

section \<open>The handlers keep the invariant\<close>

text \<open>
  Each handler of the scheduler, called by a thread that is where its \<open>place\<close> says, keeps the
  invariant of SchedSafe. The shared parts are a thread that looks for a context
  (\<open>find_context\<close>) and a context that is given to a queued thread (\<open>give_context_inv\<close>).
\<close>

lemma inv_parts:
  assumes "sched_inv s pc"
  shows "assign_inv {} s" "bar_ok s" "link_inv {} s" "sleepers_ok s" "\<And>h. h \<in> gidMap s \<Longrightarrow> thread_ok {} s pc h"
  using assms by (auto simp: sched_inv_def dyn_inv_def)

lemma invI:
  assumes "assign_inv {} s" "bar_ok s" "link_inv {} s" "sleepers_ok s" "\<And>h. h \<in> gidMap s \<Longrightarrow> thread_ok {} s pc h"
  shows "sched_inv s pc"
  using assms by (auto simp: sched_inv_def dyn_inv_def)

lemma dynI:
  assumes "bar_ok s" "link_inv X s" "sleepers_ok s" "\<And>h. h \<in> gidMap s \<Longrightarrow> h \<notin> Y \<Longrightarrow> thread_ok X s pc h"
  shows "dyn_inv X Y s pc"
  using assms by (auto simp: dyn_inv_def)

lemma idle_thread:
  assumes "thread_ok X s pc g" and "tstate s g \<noteq> RUNNING_T"
  shows "handoffThread (threads s g) = None" "\<not> markedForSleep (threads s g)"
    "fakeLeave (threads s g) = None" "fj_action (threads s g) = FJA_NONE"
  using assms unfolding thread_ok_def hand_ok_def sleep_ok_def place_ok_def Let_def by (cases "handoffThread (threads s g)"; blast)+

lemma handed_queued:
  assumes "\<And>h. h \<in> gidMap s \<Longrightarrow> h \<notin> Y \<Longrightarrow> thread_ok X s pc h"
    and "\<And>h. h \<in> Y \<Longrightarrow> handoffThread (threads s h) = None" and "handed s g"
  shows "tstate s g = QUEUED"
proof -
  obtain v where v: "v \<in> gidMap s" "handoffThread (threads s v) = Some g" using assms(3) by (auto simp: handed_def)
  then have "v \<notin> Y" using assms(2) by force
  then have "hand_ok s pc v" using assms(1) v(1) by (simp add: thread_ok_def)
  then show ?thesis using v(2) unfolding hand_ok_def by blast
qed

lemma thread_ok_block:
  assumes "thread_ok X s pc h" and o: "tstate s h = OUT" and e: "threads s' h = (threads s h)\<lparr>th_state := BLOCKED\<rparr>"
    and p: "pc' h = pc h"
  shows "thread_ok X' s' pc' h"
proof -
  have "tstate s h \<noteq> RUNNING_T" using o by simp
  note i = idle_thread [OF assms(1) this]
  have "pc h = Away" using assms(1) o by (simp add: thread_ok_def place_ok_def Let_def)
  then have "place_ok X' s' pc' h" using i by (simp add: place_ok_def e p)
  moreover have "sleep_ok X' s' pc' h" "hand_ok s' pc' h" using i by (simp_all add: sleep_ok_def hand_ok_def e)
  ultimately show ?thesis by (simp add: thread_ok_def)
qed

text \<open>The frame for all threads but \<open>g\<close> when only threads that are out were blocked.\<close>

lemma others_frame:
  assumes ok: "thread_ok X s pc h" and t: "threads s' h = threads s h \<or> (tstate s h = OUT \<and> threads s' h = (threads s h)\<lparr>th_state := BLOCKED\<rparr>)"
    and same: "pc' h = pc h" "gidMap s' = gidMap s" "curPhase s' = curPhase s" "s_bar s' = s_bar s" "X \<subseteq> X'"
    and rq: "tstate s h = QUEUED \<Longrightarrow> h \<in> set (runQueue s) \<Longrightarrow> h \<in> set (runQueue s')"
    and hand: "\<And>w. w \<in> gidMap s \<Longrightarrow> handoffThread (threads s' w) = handoffThread (threads s w)"
    and d: "\<And>d. handoffThread (threads s h) = Some d \<Longrightarrow> tstate s d = QUEUED \<Longrightarrow> d \<notin> set (runQueue s) \<Longrightarrow>
      threads s' d = threads s d \<and> d \<notin> set (runQueue s')"
  shows "thread_ok X' s' pc' h"
  using t
proof
  assume e: "threads s' h = threads s h"
  show ?thesis
  proof (rule thread_ok_frame [OF ok])
    assume q: "tstate s h = QUEUED" "h \<in> set (runQueue s) \<or> handed s h"
    have "handed s' h" if "handed s h" by (rule handed_mono [OF that same(2)]) (use hand in simp)
    then show "h \<in> set (runQueue s') \<or> handed s' h" using q rq by blast
  next
    fix w x assume "w \<in> gidMap s" "handoffThread (threads s' w) = Some x"
    then show "handoffThread (threads s w) = Some x" using hand by simp
  next
    fix x assume "handoffThread (threads s h) = Some x" "tstate s x = QUEUED" "x \<notin> set (runQueue s)"
    then show "tstate s' x = QUEUED \<and> x \<notin> set (runQueue s') \<and> th_mask (threads s' x) = th_mask (threads s x)"
      using d by simp
  qed (use e same in simp_all)
next
  assume "tstate s h = OUT \<and> threads s' h = (threads s h)\<lparr>th_state := BLOCKED\<rparr>"
  then show ?thesis using thread_ok_block [where s' = s' and pc' = pc' and X' = X'] ok same(1) by blast
qed

text \<open>Where the thread is when a handler that looked for a context returns.\<close>

definition seated :: "nat \<Rightarrow> sched \<Rightarrow> (nat \<Rightarrow> place) \<Rightarrow> nat \<Rightarrow> place" where
  "seated g s pc = pc(g := (if tstate s g = QUEUED then Queued_up else In_sim))"

lemma tick_match_gids: "tick_match q av s = Inr s' \<Longrightarrow> gidMap s' = gidMap s"
proof (induction q arbitrary: av s)
  case Nil
  then have "s = s'" unfolding tick_match.simps(1) by (rule sum.inject(2) [THEN iffD1])
  then show ?case by (rule subst) (rule refl)
next
  case (Cons g q)
  show ?case
  proof (cases "av = []")
    case True
    then have "s = s'" using Cons.prems by (metis tick_match.simps(2) sum.inject(2))
    then show ?thesis by (rule subst) (rule refl)
  next
    case av: False
    show ?thesis
    proof (cases "List.find (th_mask (threads s g)) av")
      case None
      then have "tick_match q av s = Inr s'" using Cons.prems av by simp
      then show ?thesis by (rule Cons.IH)
    next
      case (Some c)
      then obtain v rq where "tick_match q (remove1 c av) ((upd_thread v (\<lambda>t. t\<lparr>handoffThread := Some g\<rparr>) s)\<lparr>runQueue := rq\<rparr>) = Inr s'"
        using Cons.prems av by (cases "curThread (contexts s c)") (auto simp: rbind_eq_Inr_iff)
      from Cons.IH [OF this] show ?thesis by simp
    qed
  qed
qed

lemma wake_sleepers_gids: "wake_sleepers q s = Inr s' \<Longrightarrow> gidMap s' = gidMap s"
proof (induction q arbitrary: s)
  case Nil
  then have "s\<lparr>sleepQueue := []\<rparr> = s'" unfolding wake_sleepers.simps(1) by (rule sum.inject(2) [THEN iffD1])
  from this [symmetric] show ?case by (rule ssubst) simp
next
  case (Cons g q)
  show ?case
  proof (cases "wakeupPhase (threads s g) \<le> curPhase s")
    case True
    then obtain s1 where s1: "wakeup g False (upd_thread g (\<lambda>t. t\<lparr>th_state := BLOCKED\<rparr>) s) = Inr s1" "wake_sleepers q s1 = Inr s'"
      using Cons.prems by (simp only: wake_sleepers.simps if_True) (auto simp only: res_simps)
    have "gidMap s1 = gidMap s" using s1(1) by (auto simp: wakeup_def split: if_splits)
    then show ?thesis using Cons.IH [OF s1(2)] by simp
  next
    case False
    have "wake_sleepers (g # q) s = Inr (s\<lparr>sleepQueue := g # q\<rparr>)" using False by (simp only: wake_sleepers.simps if_False)
    then have "s\<lparr>sleepQueue := g # q\<rparr> = s'" using Cons.prems by (metis sum.inject(2))
    from this [symmetric] show ?thesis by (rule ssubst) simp
  qed
qed

lemma callback_gids:
  assumes "sched_callback s = Inr s'"
  shows "gidMap s' = gidMap s"
proof -
  define s1 where "s1 = s\<lparr>numPhases := numPhases s + 1, curPhase := curPhase s + 1\<rparr>"
  obtain s2 where s2: "wake_sleepers (sleepQueue s1) s1 = Inr s2"
    "(if runQueue s2 = [] then Inr s2 else if curPhase s2 mod schedQuantum s2 = 0 then schedTick s2 else Inr s2) = Inr s'"
    using assms unfolding sched_callback_def Let_def s1_def [symmetric] by (auto simp only: res_simps)
  have g: "gidMap s2 = gidMap s" using wake_sleepers_gids [OF s2(1)] by (simp add: s1_def)
  have "s2 = s' \<or> schedTick s2 = Inr s'" using s2(2) by (auto split: if_splits)
  then show ?thesis
  proof
    assume "schedTick s2 = Inr s'"
    then obtain p where "tick_match (runQueue s2) (fst p) (s2\<lparr>sched_rnd := snd p\<rparr>) = Inr s'"
      by (auto simp: schedTick_def res_simps)
    then show ?thesis using tick_match_gids g by fastforce
  qed (use g in simp)
qed

lemma bar_do_gids:
  assumes "bar_do op s = Inr s'"
  shows "gidMap s' = gidMap s"
proof -
  obtain b where b: "(if phase_ends b = phase_ends (s_bar s) then Inr (s\<lparr>s_bar := b\<rparr>) else sched_callback (s\<lparr>s_bar := b\<rparr>)) = Inr s'"
    using assms by (auto simp only: bar_do_def res_simps)
  show ?thesis
  proof (cases "phase_ends b = phase_ends (s_bar s)")
    case True
    have "Inr (s\<lparr>s_bar := b\<rparr>) = (Inr s' :: sched res)" using b by (simp only: if_P [OF True])
    then have "s' = s\<lparr>s_bar := b\<rparr>" by (simp only: sum.inject)
    then show ?thesis by simp
  next
    case False
    then have "sched_callback (s\<lparr>s_bar := b\<rparr>) = Inr s'" using b by (simp only: False if_False)
    from callback_gids [OF this] show ?thesis by simp
  qed
qed

lemma bar_seated:
  assumes "ensures (\<lambda>s'. sched_inv s' (pc(g := In_sim))) (bar_do op s)" and "g \<in> gidMap s"
  shows "ensures (\<lambda>s'. sched_inv s' (seated g s' pc)) (bar_do op s)"
proof (cases "bar_do op s")
  case (Inr s')
  then have i: "sched_inv s' (pc(g := In_sim))" "g \<in> gidMap s'" using assms bar_do_gids by (auto simp: ensures_def)
  then have "tstate s' g \<noteq> QUEUED" using inv_parts(5) [OF i] by (auto simp: thread_ok_def place_ok_def Let_def)
  then show ?thesis using Inr i(1) by (simp add: seated_def)
qed (use assms in \<open>auto simp: ensures_def\<close>)

subsection \<open>A thread that looks for a context\<close>

definition loose :: "sched \<Rightarrow> nat \<Rightarrow> bool" where
  "loose s g \<longleftrightarrow> g \<in> gidMap s \<and> tstate s g \<in> {STARTED, BLOCKED, QUEUED} \<and> g \<notin> set (runQueue s)
     \<and> (\<forall>w \<in> gidMap s. handoffThread (threads s w) \<noteq> Some g)
     \<and> handoffThread (threads s g) = None \<and> \<not> markedForSleep (threads s g)
     \<and> fakeLeave (threads s g) = None \<and> fj_action (threads s g) = FJA_NONE"

lemma loose_not_target:
  "loose s g \<Longrightarrow> h \<in> gidMap s \<Longrightarrow> handoffThread (threads s h) = Some d \<Longrightarrow> d \<noteq> g"
  by (auto simp: loose_def)

lemma find_context:
  assumes a: "assign_inv {} s" and d: "dyn_inv {} {g} s pc" and l: "loose s g"
  shows "ensures (\<lambda>s'. sched_inv s' (seated g s' pc)) (rbind (schedThread g s) (\<lambda>(ctx, s1). case ctx of
      Some c \<Rightarrow> rbind (schedule g c s1) (bar_do (Join c))
    | None \<Rightarrow> rbind (run_push g (upd_thread g (\<lambda>t. t\<lparr>th_state := QUEUED\<rparr>) s1)) (\<lambda>s2. Inr (waitForContext g s2))))"
proof -
  have D: "bar_ok s" "link_inv {} s" "sleepers_ok s" "\<And>h. h \<in> gidMap s \<Longrightarrow> h \<noteq> g \<Longrightarrow> thread_ok {} s pc h"
    using d by (auto simp: dyn_inv_def)
  have g: "g \<in> gidMap s" "tstate s g \<in> {STARTED, BLOCKED, QUEUED}" "g \<notin> set (runQueue s)"
    "handoffThread (threads s g) = None" "\<not> markedForSleep (threads s g)" "fakeLeave (threads s g) = None"
    "fj_action (threads s g) = FJA_NONE" using l by (auto simp: loose_def)
  from schedThread_inv [OF a g(1)] show ?thesis
  proof (elim disjE exE conjE)
    assume n: "schedThread g s = Inr (None, s)" "\<forall>c<numCores s. th_mask (threads s g) c \<longrightarrow> runs s c"
    obtain s2 where s2: "run_push g (upd_thread g (\<lambda>t. t\<lparr>th_state := QUEUED\<rparr>) s) = Inr s2" "assign_inv {} s2"
      "s2 = (upd_thread g (\<lambda>t. t\<lparr>th_state := QUEUED\<rparr>) s)\<lparr>runQueue := runQueue s @ [g]\<rparr>"
      using run_push_inv [OF a g(1-3)] n(2) by blast
    define s3 where "s3 = waitForContext g s2"
    have f: "threads s3 h = (if h = g then (threads s g)\<lparr>th_state := QUEUED, th_futex := 1\<rparr> else threads s h)" for h
      by (simp add: s3_def s2(3) waitForContext_def)
    have same: "gidMap s3 = gidMap s" "s_bar s3 = s_bar s" "curPhase s3 = curPhase s" "numPhases s3 = numPhases s"
      "contexts s3 = contexts s" "runQueue s3 = runQueue s @ [g]" "sleepQueue s3 = sleepQueue s" "numCores s3 = numCores s"
      by (simp_all add: s3_def s2(3) waitForContext_def)
    have a3: "assign_inv {} s3" using s2(2) by (subst assign_cong [of _ s2]) (simp_all add: s3_def waitForContext_def)
    have r3: "runs s3 c = runs s c" if "c < numCores s" for c
    proof (cases "curThread (contexts s c)")
      case (Some v)
      then have "v \<noteq> g" using used_context [OF a that] g(2) by fastforce
      then show ?thesis using Some same(5) by (simp add: runs_def f)
    qed (use same(5) in \<open>simp add: runs_def\<close>)
    have "sched_inv s3 (pc(g := Queued_up))"
    proof (rule invI [OF a3])
      show "bar_ok s3" using D(1) same by (simp add: bar_ok_def)
      show "link_inv {} s3" using D(2) r3 same by (auto simp: link_inv_def)
      have w: "wakeupPhase (threads s3 h) = wakeupPhase (threads s h)" for h by (simp add: f)
      have "sleepers_ok s3 = sleepers_ok s" using w same by (simp add: sleepers_ok_def)
      then show "sleepers_ok s3" using D(3) by blast
      fix h assume h: "h \<in> gidMap s3"
      show "thread_ok {} s3 (pc(g := Queued_up)) h"
      proof (cases "h = g")
        case True
        then show ?thesis using g same by (simp add: thread_ok_def place_ok_def sleep_ok_def hand_ok_def f)
      next
        case False
        then have ok: "thread_ok {} s pc h" using D(4) h same(1) by simp
        show ?thesis
          by (rule others_frame [OF ok]) (use False same loose_not_target [OF l] h g(4) in \<open>auto simp: f\<close>)
      qed
    qed
    then have "sched_inv s3 (seated g s3 pc)" by (simp add: seated_def f)
    then show ?thesis using n(1) s2(1) by (simp add: s3_def)
  next
    fix c s1 assume n: "schedThread g s = Inr (Some c, s1)" "assign_inv {c} s1" "th_mask (threads s g) c" "c < numCores s"
      "\<not> runs s c" "same_rest s s1" "out_blocked s s1" "runQueue s1 = runQueue s" "sleepQueue s1 = sleepQueue s"
      "\<forall>d. d \<noteq> c \<longrightarrow> contexts s1 d = contexts s d"
    have same1: "gidMap s1 = gidMap s" "s_bar s1 = s_bar s" "curPhase s1 = curPhase s" "numPhases s1 = numPhases s"
      "numCores s1 = numCores s" using n(6) by (simp_all add: same_rest_def)
    have b1: "threads s1 h = threads s h \<or> (tstate s h = OUT \<and> threads s1 h = (threads s h)\<lparr>th_state := BLOCKED\<rparr>)" for h
      using n(7) by (simp add: out_blocked_def)
    have g1: "threads s1 g = threads s g" using b1 [of g] g(2) by auto
    obtain s2 where s2: "schedule g c s1 = Inr s2" "assign_inv {} s2"
      "s2 = (upd_context c (\<lambda>k. k\<lparr>c_state := USED, curThread := Some g\<rparr>)
                (upd_thread g (\<lambda>t. t\<lparr>th_state := RUNNING_T, th_cid := c\<rparr>) s1))
              \<lparr>scheduledThreads := scheduledThreads s1 + 1\<rparr>"
      using schedule_inv [OF n(2), of g] g(1-3) g1 n(3,8) same1(1) by auto
    have f: "threads s2 h = (if h = g then (threads s g)\<lparr>th_state := RUNNING_T, th_cid := c\<rparr> else threads s1 h)" for h
      by (simp add: s2(3) g1)
    have same: "gidMap s2 = gidMap s" "s_bar s2 = s_bar s" "curPhase s2 = curPhase s" "numPhases s2 = numPhases s"
      "numCores s2 = numCores s" "runQueue s2 = runQueue s" "sleepQueue s2 = sleepQueue s"
      by (simp_all add: s2(3) same1 n(8,9))
    have cx: "curThread (contexts s2 e) = (if e = c then Some g else curThread (contexts s e))" for e
      using n(10) by (simp add: s2(3))
    have r2: "runs s2 e = runs s e" if "e < numCores s" "e \<noteq> c" for e
    proof (cases "curThread (contexts s e)")
      case None
      then show ?thesis using cx that by (simp add: runs_def)
    next
      case (Some v)
      then have "v \<noteq> g" using used_context [OF a that(1)] g(2) by fastforce
      then show ?thesis using Some cx that(2) f b1 [of v] by (auto simp: runs_def)
    qed
    have rc: "runs s2 c" using cx by (simp add: runs_def f)
    have on_c: "h = g" if "h \<in> gidMap s2" "tstate s2 h = RUNNING_T" "th_cid (threads s2 h) = c" for h
      using running_context(2) [OF s2(2) that(1)] that(2,3) cx by simp
    have dy: "dyn_inv {c} {} s2 (pc(g := In_sim))"
    proof (rule dynI)
      show "bar_ok s2" using D(1) same by (simp add: bar_ok_def)
      show "link_inv {c} s2" using D(2) r2 same by (auto simp: link_inv_def)
      have w: "wakeupPhase (threads s2 h) = wakeupPhase (threads s h)" for h using b1 [of h] by (auto simp: f)
      have "sleepers_ok s2 = sleepers_ok s" using w same by (simp add: sleepers_ok_def)
      then show "sleepers_ok s2" using D(3) by blast
      fix h assume h: "h \<in> gidMap s2" "h \<notin> {}"
      show "thread_ok {c} s2 (pc(g := In_sim)) h"
      proof (cases "h = g")
        case True
        then show ?thesis using g same by (simp add: thread_ok_def place_ok_def sleep_ok_def hand_ok_def f)
      next
        case False
        then have ok: "thread_ok {} s pc h" using D(4) h same(1) by simp
        have ho: "handoffThread (threads s2 w) = handoffThread (threads s w)" for w using b1 [of w] by (auto simp: f)
        show ?thesis
        proof (rule others_frame [OF ok])
          show "threads s2 h = threads s h \<or> tstate s h = OUT \<and> threads s2 h = (threads s h)\<lparr>th_state := BLOCKED\<rparr>"
            using b1 [of h] False by (simp add: f)
          fix d assume "handoffThread (threads s h) = Some d" "tstate s d = QUEUED" "d \<notin> set (runQueue s)"
          then show "threads s2 d = threads s d \<and> d \<notin> set (runQueue s2)"
            using loose_not_target [OF l] h(1) same b1 [of d] by (simp add: f)
        qed (use False same ho in simp_all)
      qed
    qed
    have na: "\<not> active (s_bar s2) c" using D(2) n(5) same(2) by (simp add: link_inv_def)
    have cn: "c < numCores s2" using n(4) same(5) by simp
    have gm: "\<not> markedForSleep (threads s2 g)" using g(5) by (simp add: f)
    have "ensures (\<lambda>s'. sched_inv s' (pc(g := In_sim))) (bar_do (Join c) s2)"
      by (rule join_step [OF s2(2) dy cn rc na]) (use on_c gm in blast)
    then have "ensures (\<lambda>s'. sched_inv s' (seated g s' pc)) (bar_do (Join c) s2)"
      by (rule bar_seated) (use g(1) same(1) in simp)
    then show ?thesis using n(1) s2(1) by simp
  qed
qed

subsection \<open>A context that is given to a queued thread\<close>

text \<open>The queued thread \<open>x\<close> is in the hands of the handler, and so is the context \<open>c\<close>.\<close>

definition in_hand :: "sched \<Rightarrow> (nat \<Rightarrow> place) \<Rightarrow> nat \<Rightarrow> bool" where
  "in_hand s pc x \<longleftrightarrow> loose s x \<and> tstate s x = QUEUED \<and> pc x = Queued_up \<and> th_futex (threads s x) = 1"

lemma queued_in_hand:
  assumes ok: "thread_ok X s pc x" and x: "tstate s x = QUEUED"
    and e: "threads s' x = threads s x" "pc' x = pc x" "x \<in> gidMap s'" "x \<notin> set (runQueue s')"
    and h: "\<And>w. w \<in> gidMap s' \<Longrightarrow> handoffThread (threads s' w) \<noteq> Some x"
  shows "in_hand s' pc' x"
proof -
  have "tstate s x \<noteq> RUNNING_T" using x by simp
  from idle_thread [OF ok this] show ?thesis
    using ok x e h by (simp add: in_hand_def loose_def thread_ok_def place_ok_def Let_def)
qed

lemma give_context_inv:
  assumes a: "assign_inv {c} s" and d: "dyn_inv {c} (insert x Y) s pc" and x: "in_hand s pc x" "x \<notin> Y"
    and c: "st (s_bar s) c = RUNNING" "c < numCores s" "th_mask (threads s x) c"
  shows "\<exists>s'. give_context x c s = Inr s' \<and> assign_inv {} s' \<and> dyn_inv {} Y s' pc
    \<and> gidMap s' = gidMap s \<and> runQueue s' = runQueue s \<and> numCores s' = numCores s \<and> s_bar s' = s_bar s
    \<and> (\<forall>h. h \<noteq> x \<longrightarrow> threads s' h = threads s h) \<and> handoffThread (threads s' x) = None"
proof -
  have D: "bar_ok s" "link_inv {c} s" "sleepers_ok s" "\<And>h. h \<in> gidMap s \<Longrightarrow> h \<notin> insert x Y \<Longrightarrow> thread_ok {c} s pc h"
    using d by (auto simp: dyn_inv_def)
  have l: "loose s x" using x(1) by (simp add: in_hand_def)
  have g: "x \<in> gidMap s" "tstate s x = QUEUED" "x \<notin> set (runQueue s)" "pc x = Queued_up" "th_futex (threads s x) = 1"
    "handoffThread (threads s x) = None" "\<not> markedForSleep (threads s x)" "fakeLeave (threads s x) = None"
    "fj_action (threads s x) = FJA_NONE" using x(1) by (auto simp: in_hand_def loose_def)
  have free: "curThread (contexts s c) = None" using a c(2) by (auto simp: assign_inv_def lists_inv_def)
  obtain s2 where s2: "schedule x c s = Inr s2" "assign_inv {} s2"
    "s2 = (upd_context c (\<lambda>k. k\<lparr>c_state := USED, curThread := Some x\<rparr>)
                (upd_thread x (\<lambda>t. t\<lparr>th_state := RUNNING_T, th_cid := c\<rparr>) s))
              \<lparr>scheduledThreads := scheduledThreads s + 1\<rparr>"
    using schedule_inv [OF a g(1) _ g(3) c(3)] g(2) by auto
  define s3 where "s3 = upd_thread x (\<lambda>t. t\<lparr>needsJoin := False, th_futex := 0\<rparr>) s2"
  have f: "threads s3 h = (if h = x then (threads s x)\<lparr>th_state := RUNNING_T, th_cid := c, needsJoin := False, th_futex := 0\<rparr>
    else threads s h)" for h by (simp add: s3_def s2(3))
  have same: "gidMap s3 = gidMap s" "s_bar s3 = s_bar s" "curPhase s3 = curPhase s" "numPhases s3 = numPhases s"
    "numCores s3 = numCores s" "runQueue s3 = runQueue s" "sleepQueue s3 = sleepQueue s" by (simp_all add: s3_def s2(3))
  have cx: "curThread (contexts s3 e) = (if e = c then Some x else curThread (contexts s e))" for e
    by (simp add: s3_def s2(3))
  have g2: "th_futex (threads s2 x) = 1" using g(5) by (simp add: s2(3))
  have step: "give_context x c s = Inr s3" using s2(1) g2 by (simp add: give_context_def wakeup_def s3_def)
  have a3: "assign_inv {} s3" using s2(2) by (subst assign_cong [of _ s2]) (simp_all add: s3_def)
  have alone: "th_cid (threads s h) \<noteq> c" if "h \<in> gidMap s" "tstate s h = RUNNING_T" for h
    using running_context(2) [OF a that(1)] that(2) free by auto
  have r3: "runs s3 e = runs s e" if "e < numCores s" "e \<noteq> c" for e
  proof (cases "curThread (contexts s e)")
    case (Some v)
    then have "v \<noteq> x" using used_context [OF a that(1)] g(2) by fastforce
    then show ?thesis using Some cx that(2) by (simp add: runs_def f)
  qed (use cx that(2) in \<open>simp add: runs_def\<close>)
  have "dyn_inv {} Y s3 pc"
  proof (rule dynI)
    show "bar_ok s3" using D(1) same by (simp add: bar_ok_def)
    have "active (s_bar s3) c \<and> runs s3 c" using c(1) same(2) cx by (simp add: active_def runs_def f)
    then show "link_inv {} s3" unfolding link_inv_def
    proof (intro allI impI)
      fix e show "active (s_bar s3) e \<longleftrightarrow> e < numCores s3 \<and> runs s3 e"
        using D(2) r3 [of e] same(2,5) c(2) \<open>active (s_bar s3) c \<and> runs s3 c\<close> by (cases "e = c") (auto simp: link_inv_def)
    qed
    have w: "wakeupPhase (threads s3 h) = wakeupPhase (threads s h)" for h by (simp add: f)
    have "sleepers_ok s3 = sleepers_ok s" using w same by (simp add: sleepers_ok_def)
    then show "sleepers_ok s3" using D(3) by blast
    fix h assume h: "h \<in> gidMap s3" "h \<notin> Y"
    show "thread_ok {} s3 pc h"
    proof (cases "h = x")
      case True
      then show ?thesis using g same c(1)
        by (simp add: thread_ok_def place_ok_def sleep_ok_def hand_ok_def turn_ok_def f)
    next
      case False
      then have ok: "thread_ok {c} s pc h" using D(4) h same(1) by simp
      have "thread_ok {} s pc h"
        using ok alone [of h] h(1) same(1) unfolding thread_ok_def place_ok_def sleep_ok_def Let_def by auto
      then show ?thesis
        by (rule others_frame) (use False same loose_not_target [OF l] h g(6) in \<open>auto simp: f\<close>)
    qed
  qed
  then show ?thesis using step a3 same g(6) by (simp add: f)
qed

subsection \<open>The handlers\<close>

text \<open>A thread whose fields change outside of what the assignment looks at, and its place.\<close>

lemma one_thread_inv:
  assumes i: "sched_inv s pc" and g: "g \<in> gidMap s"
    and s': "s' = upd_thread g f s" and keep: "th_state (f (threads s g)) = tstate s g" "th_cid (f (threads s g)) = th_cid (threads s g)"
      "th_mask (f (threads s g)) = th_mask (threads s g)" "handoffThread (f (threads s g)) = handoffThread (threads s g)"
      "wakeupPhase (f (threads s g)) = wakeupPhase (threads s g) \<or> tstate s g \<noteq> SLEEPING"
    and ok: "thread_ok {} s' (pc(g := p)) g"
  shows "sched_inv s' (pc(g := p))"
proof (rule invI)
  note I = inv_parts [OF i]
  have f: "threads s' h = (if h = g then f (threads s g) else threads s h)" for h by (simp add: s')
  have same: "gidMap s' = gidMap s" "s_bar s' = s_bar s" "curPhase s' = curPhase s" "numPhases s' = numPhases s"
    "numCores s' = numCores s" "runQueue s' = runQueue s" "sleepQueue s' = sleepQueue s" "contexts s' = contexts s" by (simp_all add: s')
  show "assign_inv {} s'" using I(1) keep by (subst assign_cong [of _ s]) (simp_all add: s')
  show "bar_ok s'" using I(2) same by (simp add: bar_ok_def)
  have "runs s' c = runs s c" for c using same(8) keep(1) f by (auto simp: runs_def split: if_splits)
  then show "link_inv {} s'" using I(3) link_cong [OF same(2,5)] by simp
  have "wakeupPhase (threads s' h) = wakeupPhase (threads s h)" if "h \<in> set (sleepQueue s)" for h
    using keep(5) that I(1) by (auto simp: f assign_inv_def lists_inv_def)
  then have "sleepers_ok s' = sleepers_ok s" using same by (simp add: sleepers_ok_def cong: map_cong)
  then show "sleepers_ok s'" using I(4) by blast
  fix h assume h: "h \<in> gidMap s'"
  show "thread_ok {} s' (pc(g := p)) h"
  proof (cases "h = g")
    case False
    have ok: "thread_ok {} s pc h" using I(5) h same(1) by simp
    show ?thesis
    proof (rule thread_ok_frame [OF ok])
      have "handoffThread (threads s' w) = handoffThread (threads s w)" for w using keep(4) by (simp add: f)
      then have "handed s' h = handed s h" using same(1) by (simp add: handed_def)
      moreover assume "h \<in> set (runQueue s) \<or> handed s h"
      ultimately show "h \<in> set (runQueue s') \<or> handed s' h" using same(6) by simp
    qed (use False same keep f in \<open>auto split: if_splits\<close>)
  qed (use ok in simp)
qed

text \<open>A sleeper that stops sleeping before its deadline.\<close>

lemma sleeper_inv:
  assumes i: "sched_inv s pc" and g: "g \<in> gidMap s" "tstate s g \<noteq> RUNNING_T"
  shows "\<exists>s'. join_sleeper g s = Inr s' \<and> sched_inv s' pc \<and> gidMap s' = gidMap s
    \<and> tstate s' g = (if tstate s g = SLEEPING then BLOCKED else tstate s g)"
proof (cases "tstate s g = SLEEPING")
  case True
  note I = inv_parts [OF i]
  have l: "lists_inv {} s" "ctx_inv s" "thr_inv s" "busy_inv {} s" using I(1) by (auto simp: assign_inv_def)
  have q: "g \<in> set (sleepQueue s)" "distinct (sleepQueue s)" using l(1) g True by (auto simp: lists_inv_def)
  define s' where "s' = upd_thread g (\<lambda>t. t\<lparr>th_state := BLOCKED\<rparr>) (s\<lparr>sleepQueue := remove1 g (sleepQueue s)\<rparr>)"
  have e: "join_sleeper g s = Inr s'" using True q(1) by (simp add: join_sleeper_def q_remove_def s'_def)
  have f: "threads s' h = (if h = g then (threads s g)\<lparr>th_state := BLOCKED\<rparr> else threads s h)" for h by (simp add: s'_def)
  have same: "gidMap s' = gidMap s" "s_bar s' = s_bar s" "curPhase s' = curPhase s" "numPhases s' = numPhases s"
    "numCores s' = numCores s" "runQueue s' = runQueue s" "contexts s' = contexts s" by (simp_all add: s'_def)
  have "tstate s' v = RUNNING_T \<longleftrightarrow> tstate s v = RUNNING_T" for v using True by (simp add: f)
  then have r: "runs s' c = runs s c" for c using same(7) by (simp add: runs_def)
  have "sched_inv s' pc"
  proof (rule invI)
    have "ctx_inv s'" using l(2) True same f unfolding ctx_inv_def by (auto simp: ctx_inv_def)
    moreover have "thr_inv s'" using l(3) True same f by (auto simp: thr_inv_def)
    moreover have "lists_inv {} s'" using l(1) True q by (auto simp: lists_inv_def s'_def)
    moreover have "busy_inv {} s'" using l(4) r same f by (auto simp: busy_inv_def)
    ultimately show "assign_inv {} s'" by (simp add: assign_inv_def)
    show "bar_ok s'" using I(2) same by (simp add: bar_ok_def)
    show "link_inv {} s'" using I(3) link_cong [OF same(2,5) r] by simp
    have "sorted (map (\<lambda>g. wakeupPhase (threads s g)) (sleepQueue s))" "curPhase s = numPhases s"
      "\<forall>g \<in> set (sleepQueue s). curPhase s < wakeupPhase (threads s g)" using I(4) unfolding sleepers_ok_def by blast+
    moreover have "wakeupPhase (threads s' h) = wakeupPhase (threads s h)" for h by (simp add: f)
    moreover have "sleepQueue s' = remove1 g (sleepQueue s)" by (simp add: s'_def)
    ultimately show "sleepers_ok s'"
      unfolding sleepers_ok_def using same(3,4) by (auto simp: sorted_map_remove1 dest: notin_set_remove1)
    fix h assume h: "h \<in> gidMap s'"
    show "thread_ok {} s' pc h"
    proof (cases "h = g")
      case h': True
      have ok: "thread_ok {} s pc g" using I(5) g(1) .
      show ?thesis using ok idle_thread [OF ok g(2)] True
        unfolding h' thread_ok_def place_ok_def sleep_ok_def hand_ok_def Let_def f by simp
    next
      case False
      have ok: "thread_ok {} s pc h" using I(5) h same(1) by simp
      show ?thesis
        by (rule others_frame [OF ok]) (use False same True in \<open>auto simp: f\<close>)
    qed
  qed
  then show ?thesis using e same(1) True by (simp add: f)
qed (use i in \<open>simp add: join_sleeper_def\<close>)

lemma away_loose:
  assumes i: "sched_inv s pc" and g: "g \<in> gidMap s" "pc g = Away" "tstate s g \<in> {STARTED, BLOCKED}"
  shows "loose s g" "dyn_inv {} {g} s pc"
proof -
  note I = inv_parts [OF i]
  have ok: "thread_ok {} s pc g" using I(5) g(1) .
  have nr: "tstate s g \<noteq> RUNNING_T" "tstate s g \<noteq> QUEUED" using g(3) by auto
  have "g \<notin> set (runQueue s)" using I(1) nr(2) by (auto simp: assign_inv_def lists_inv_def)
  moreover have "handoffThread (threads s w) \<noteq> Some g" if "w \<in> gidMap s" for w
    using I(5) [OF that] nr(2) by (auto simp: thread_ok_def hand_ok_def)
  ultimately show "loose s g" using g idle_thread [OF ok nr(1)] by (auto simp: loose_def)
  show "dyn_inv {} {g} s pc" using i by (auto simp: sched_inv_def dyn_inv_def)
qed

lemma away_state:
  assumes i: "sched_inv s pc" and g: "g \<in> gidMap s" "pc g = Away"
  shows "tstate s g \<in> {STARTED, OUT, BLOCKED, SLEEPING}"
  using inv_parts(5) [OF i g(1)] g(2) by (cases "tstate s g") (auto simp: thread_ok_def place_ok_def Let_def)

lemma out_join_inv:
  assumes i: "sched_inv s pc" and g: "g \<in> gidMap s" "tstate s g = OUT"
  shows "ensures (\<lambda>s'. sched_inv s' (seated g s' pc)) (join_context g s)"
proof -
  note I = inv_parts [OF i]
  let ?c = "th_cid (threads s g)"
  have ok: "thread_ok {} s pc g" using I(5) g(1) .
  have nr: "tstate s g \<noteq> RUNNING_T" using g(2) by simp
  note idle = idle_thread [OF ok nr]
  have cur: "?c < numCores s" "curThread (contexts s ?c) = Some g" using running_context [OF I(1) g(1)] g(2) by auto
  define s1 where "s1 = upd_thread g (\<lambda>t. t\<lparr>th_state := RUNNING_T\<rparr>) (s\<lparr>outQueue := remove1 g (outQueue s)\<rparr>)"
  have q: "q_remove g (outQueue s) = Inr (remove1 g (outQueue s))" "assign_inv {} s1"
    using out_return_inv [OF I(1) g] by (simp_all add: s1_def)
  have step: "join_context g s = bar_do (Join ?c) s1" using q(1) g(2) by (simp add: join_context_def s1_def)
  have f: "threads s1 h = (if h = g then (threads s g)\<lparr>th_state := RUNNING_T\<rparr> else threads s h)" for h by (simp add: s1_def)
  have same: "gidMap s1 = gidMap s" "s_bar s1 = s_bar s" "curPhase s1 = curPhase s" "numPhases s1 = numPhases s"
    "numCores s1 = numCores s" "runQueue s1 = runQueue s" "sleepQueue s1 = sleepQueue s" "contexts s1 = contexts s" by (simp_all add: s1_def)
  have nrun: "\<not> runs s ?c" using cur g(2) by (simp add: runs_def)
  have na: "\<not> active (s_bar s1) ?c" using I(3) nrun same(2) by (simp add: link_inv_def)
  have rc: "runs s1 ?c" using cur same(8) by (simp add: runs_def f)
  have r1: "runs s1 d = runs s d" if "d < numCores s" "d \<noteq> ?c" for d
  proof (cases "curThread (contexts s d)")
    case (Some v)
    then have "v \<noteq> g" using used_context [OF I(1) that(1)] that(2) by fastforce
    then show ?thesis using Some same(8) by (simp add: runs_def f)
  qed (use same(8) in \<open>simp add: runs_def\<close>)
  have dy: "dyn_inv {?c} {} s1 (pc(g := In_sim))"
  proof (rule dynI)
    show "bar_ok s1" using I(2) same by (simp add: bar_ok_def)
    show "link_inv {?c} s1" using I(3) r1 same by (auto simp: link_inv_def)
    have w: "wakeupPhase (threads s1 h) = wakeupPhase (threads s h)" for h by (simp add: f)
    have "sleepers_ok s1 = sleepers_ok s" using w same by (simp add: sleepers_ok_def)
    then show "sleepers_ok s1" using I(4) by blast
    fix h assume h: "h \<in> gidMap s1" "h \<notin> {}"
    show "thread_ok {?c} s1 (pc(g := In_sim)) h"
    proof (cases "h = g")
      case True
      then show ?thesis using idle by (simp add: thread_ok_def place_ok_def sleep_ok_def hand_ok_def f)
    next
      case False
      have okh: "thread_ok {} s pc h" using I(5) h(1) same(1) by simp
      show ?thesis
        by (rule others_frame [OF okh]) (use False same g(2) in \<open>auto simp: f\<close>)
    qed
  qed
  have gm: "\<not> markedForSleep (threads s1 g)" using idle(2) by (simp add: f)
  have on_c: "h = g" if "h \<in> gidMap s1" "tstate s1 h = RUNNING_T" "th_cid (threads s1 h) = ?c" for h
    using running_context(2) [OF q(2) that(1)] that(2,3) cur(2) same(8) by simp
  have cn: "?c < numCores s1" using cur(1) same(5) by simp
  have "ensures (\<lambda>s'. sched_inv s' (pc(g := In_sim))) (bar_do (Join ?c) s1)"
    by (rule join_step [OF q(2) dy cn rc na]) (use on_c gm in blast)
  then have "ensures (\<lambda>s'. sched_inv s' (seated g s' pc)) (bar_do (Join ?c) s1)"
    by (rule bar_seated) (use g(1) same(1) in simp)
  then show ?thesis by (simp only: step)
qed

lemma join_context_inv:
  assumes i: "sched_inv s pc" and g: "g \<in> gidMap s" "pc g = Away" "tstate s g \<noteq> SLEEPING"
  shows "ensures (\<lambda>s'. sched_inv s' (seated g s' pc)) (join_context g s)"
proof (cases "tstate s g = OUT")
  case True
  then show ?thesis by (rule out_join_inv [OF i g(1)])
next
  case False
  then have st: "tstate s g \<in> {STARTED, BLOCKED}" using away_state [OF i g(1,2)] g(3) by auto
  note l = away_loose [OF i g(1,2) st]
  show ?thesis
    using find_context [OF inv_parts(1) [OF i] l(2,1)] False st by (auto simp: join_context_def)
qed

lemma join_inv:
  assumes i: "sched_inv s pc" and g: "g \<in> gidMap s" "pc g = Away"
  shows "ensures (\<lambda>s'. sched_inv s' (seated g s' pc)) (sched_join b g s)"
proof -
  have nr: "tstate s g \<noteq> RUNNING_T" using away_state [OF i g] by auto
  note idle = idle_thread [OF inv_parts(5) [OF i g(1)] nr]
  obtain s1 where s1: "join_sleeper g s = Inr s1" "sched_inv s1 pc" "gidMap s1 = gidMap s"
    "tstate s1 g = (if tstate s g = SLEEPING then BLOCKED else tstate s g)" using sleeper_inv [OF i g(1) nr] by blast
  have e: "sched_join b g s = join_context g s1" using idle g(1) s1(1) by (simp add: sched_join_def futex_join_def)
  have "g \<in> gidMap s1" "tstate s1 g \<noteq> SLEEPING" using g(1) s1(3,4) by simp_all
  then show ?thesis unfolding e using join_context_inv [OF s1(2)] g(2) by blast
qed

subsection \<open>Leaving\<close>

text \<open>What the handlers need of a thread that runs in the simulation.\<close>

definition at_work :: "sched \<Rightarrow> (nat \<Rightarrow> place) \<Rightarrow> nat \<Rightarrow> bool" where
  "at_work s pc g \<longleftrightarrow> g \<in> gidMap s \<and> tstate s g = RUNNING_T \<and> st (s_bar s) (th_cid (threads s g)) = RUNNING
     \<and> pc g \<noteq> In_sync"

lemma at_work_facts:
  assumes i: "sched_inv s pc" and w: "at_work s pc g"
  shows "th_cid (threads s g) < numCores s" "curThread (contexts s (th_cid (threads s g))) = Some g"
    "handoffThread (threads s g) = None" "fakeLeave (threads s g) = None" "fj_action (threads s g) = FJA_NONE"
    "\<And>h. handed s h \<Longrightarrow> h \<noteq> g"
proof -
  note I = inv_parts [OF i]
  have g: "g \<in> gidMap s" "tstate s g = RUNNING_T" "pc g \<noteq> In_sync" using w by (simp_all add: at_work_def)
  show "th_cid (threads s g) < numCores s" "curThread (contexts s (th_cid (threads s g))) = Some g"
    using running_context [OF I(1) g(1)] g(2) by simp_all
  have ok: "thread_ok {} s pc g" using I(5) g(1) .
  then show "handoffThread (threads s g) = None" using g(3)
    unfolding thread_ok_def hand_ok_def by (cases "handoffThread (threads s g)") auto
  show "fakeLeave (threads s g) = None" "fj_action (threads s g) = FJA_NONE"
    using ok by (simp_all add: thread_ok_def place_ok_def Let_def)
  show "h \<noteq> g" if "handed s h" for h
    using handed_queued [of s "{}" "{}" pc h, OF I(5) _ that] g(2) by auto
qed

text \<open>
  The common part: the thread \<open>g\<close> was taken off its context \<open>c\<close> and is \<open>Away\<close>, and the threads
  \<open>Y\<close> off the run queue.
\<close>

lemma left_dyn:
  assumes i: "sched_inv s pc" and w: "at_work s pc g" and c: "c = th_cid (threads s g)"
    and s1: "sleepers_ok s1" "gidMap s1 = gidMap s" "s_bar s1 = s_bar s" "curPhase s1 = curPhase s"
      "numCores s1 = numCores s" "\<And>d. d \<noteq> c \<Longrightarrow> contexts s1 d = contexts s d" "set (runQueue s1) = set (runQueue s) - Y"
    and oth: "\<And>h. h \<noteq> g \<Longrightarrow> threads s1 h = threads s h" and gok: "thread_ok {c} s1 (pc(g := Away)) g"
  shows "dyn_inv {c} Y s1 (pc(g := Away))" "\<And>h. handoffThread (threads s1 h) = handoffThread (threads s h)"
proof -
  note I = inv_parts [OF i] and W = at_work_facts [OF i w]
  have g: "g \<in> gidMap s" "tstate s g = RUNNING_T" using w by (simp_all add: at_work_def)
  have gh: "handoffThread (threads s1 g) = None"
  proof (cases "handoffThread (threads s1 g)")
    case (Some d)
    then show ?thesis using gok by (simp add: thread_ok_def hand_ok_def)
  qed
  show hs: "handoffThread (threads s1 h) = handoffThread (threads s h)" for h
    using gh W(3) oth by (cases "h = g") simp_all
  have frame: "thread_ok {c} s1 (pc(g := Away)) h" if h: "h \<in> gidMap s" "h \<notin> Y" for h
  proof (cases "h = g")
    case False
    have ok: "thread_ok {} s pc h" using I(5) h(1) .
    show ?thesis
    proof (rule others_frame [OF ok])
      show "threads s1 h = threads s h \<or> tstate s h = OUT \<and> threads s1 h = (threads s h)\<lparr>th_state := BLOCKED\<rparr>"
        using oth False by simp
      fix d assume d: "handoffThread (threads s h) = Some d" "tstate s d = QUEUED" "d \<notin> set (runQueue s)"
      have "d \<noteq> g" using d(2) g(2) by auto
      then show "threads s1 d = threads s d \<and> d \<notin> set (runQueue s1)" using oth d(3) s1(7) by simp
    next
      assume "h \<in> set (runQueue s)"
      then show "h \<in> set (runQueue s1)" using s1(7) h(2) by simp
    qed (use False s1(2-4) hs in simp_all)
  qed (use gok in simp)
  have r1: "runs s1 d = runs s d" if "d < numCores s" "d \<noteq> c" for d
  proof (cases "curThread (contexts s d)")
    case (Some v)
    then have "v \<noteq> g" using used_context [OF I(1) that(1)] that(2) c by auto
    then show ?thesis using Some s1(6) that(2) oth by (simp add: runs_def)
  qed (use s1(6) that(2) in \<open>simp add: runs_def\<close>)
  show "dyn_inv {c} Y s1 (pc(g := Away))"
  proof (rule dynI)
    show "bar_ok s1" using I(2) s1(3,5) by (simp add: bar_ok_def)
    show "link_inv {c} s1" using I(3) r1 s1(3,5) by (auto simp: link_inv_def)
  qed (use s1(1,2) frame in simp_all)
qed

text \<open>A queued thread takes the context.\<close>

lemma replaced_inv:
  assumes i: "sched_inv s pc" and w: "at_work s pc g" and c: "c = th_cid (threads s g)"
    and s1: "assign_inv {c} s1" "gidMap s1 = gidMap s" "s_bar s1 = s_bar s" "numCores s1 = numCores s"
      "set (runQueue s1) = set (runQueue s) - {x}"
    and d: "dyn_inv {c} {x} s1 (pc(g := Away))" "\<And>h. handoffThread (threads s1 h) = handoffThread (threads s h)"
    and oth: "\<And>h. h \<noteq> g \<Longrightarrow> threads s1 h = threads s h"
    and x: "x \<in> set (runQueue s)" "th_mask (threads s x) c"
  shows "\<exists>s'. give_context x c s1 = Inr s' \<and> sched_inv s' (pc(g := Away))"
proof -
  note I = inv_parts [OF i] and W = at_work_facts [OF i w]
  have g: "tstate s g = RUNNING_T" "st (s_bar s) c = RUNNING" using w by (simp_all add: at_work_def c)
  have xq: "x \<in> gidMap s" "tstate s x = QUEUED" using x(1) I(1) by (auto simp: assign_inv_def lists_inv_def)
  have xg: "x \<noteq> g" using xq g by auto
  have nh: "handoffThread (threads s w) \<noteq> Some x" if "w \<in> gidMap s" for w
    using I(5) [OF that] x(1) by (auto simp: thread_ok_def hand_ok_def)
  have hand: "in_hand s1 (pc(g := Away)) x"
    by (rule queued_in_hand [OF I(5) [OF xq(1)] xq(2)]) (use xq(1) xg oth s1(2,5) nh d(2) in simp_all)
  have "\<exists>s'. give_context x c s1 = Inr s' \<and> assign_inv {} s' \<and> dyn_inv {} {} s' (pc(g := Away))
    \<and> gidMap s' = gidMap s1 \<and> runQueue s' = runQueue s1 \<and> numCores s' = numCores s1 \<and> s_bar s' = s_bar s1
    \<and> (\<forall>h. h \<noteq> x \<longrightarrow> threads s' h = threads s1 h) \<and> handoffThread (threads s' x) = None"
    by (rule give_context_inv [OF s1(1) d(1) hand]) (use g(2) W(1) c s1(3,4) x(2) oth xg in simp_all)
  then show ?thesis by (auto simp: sched_inv_def)
qed

text \<open>A thread goes to a system call.\<close>

lemma leave_out_inv:
  assumes i: "sched_inv s pc" and w: "at_work s pc g" and m: "\<not> markedForSleep (threads s g)" and c: "c = th_cid (threads s g)"
  shows "ensures (\<lambda>s'. sched_inv s' (pc(g := Away))) (leave_out g c s)"
proof -
  note I = inv_parts [OF i] and W = at_work_facts [OF i w]
  have g: "g \<in> gidMap s" "tstate s g = RUNNING_T" "st (s_bar s) c = RUNNING" using w by (simp_all add: at_work_def c)
  from schedContext_inv [OF I(1), of c] show ?thesis
  proof (elim disjE exE conjE)
    assume n: "schedContext c s = Inr (None, s)" "\<forall>h\<in>set (runQueue s). \<not> th_mask (threads s h) c"
    obtain s1 where s1: "out_push g (upd_thread g (\<lambda>t. t\<lparr>th_state := OUT\<rparr>) s) = Inr s1" "assign_inv {} s1"
      "s1 = (upd_thread g (\<lambda>t. t\<lparr>th_state := OUT\<rparr>) s)\<lparr>outQueue := outQueue s @ [g]\<rparr>"
      using out_push_inv [OF I(1) g(1,2)] n(2) c by blast
    have f: "threads s1 h = (if h = g then (threads s g)\<lparr>th_state := OUT\<rparr> else threads s h)" for h by (simp add: s1(3))
    have gok: "thread_ok {c} s1 (pc(g := Away)) g"
      using W m by (simp add: thread_ok_def place_ok_def sleep_ok_def hand_ok_def f)
    have wp: "wakeupPhase (threads s1 h) = wakeupPhase (threads s h)" for h by (simp add: f)
    then have "sleepers_ok s1 = sleepers_ok s" by (simp add: sleepers_ok_def) (simp add: s1(3))
    then have sl: "sleepers_ok s1" using I(4) by blast
    have "dyn_inv {c} {} s1 (pc(g := Away))"
      by (rule left_dyn(1) [OF i w c sl _ _ _ _ _ _ _ gok]) (simp_all add: s1(3))
    moreover have "\<not> runs s1 c" using W(2) c by (simp add: runs_def f) (simp add: s1(3))
    moreover have "st (s_bar s1) c = RUNNING" using g(3) by (simp add: s1(3))
    ultimately have "ensures (\<lambda>s'. sched_inv s' (pc(g := Away))) (bar_do (Leave c) s1)"
      by (rule leave_step [OF s1(2)])
    then show ?thesis using n(1) s1(1) by (simp add: leave_out_def)
  next
    fix x assume n: "schedContext c s = Inr (Some x, s\<lparr>runQueue := remove1 x (runQueue s)\<rparr>)" "x \<in> set (runQueue s)"
      "th_mask (threads s x) c" "assign_inv {} (s\<lparr>runQueue := remove1 x (runQueue s)\<rparr>)" "x \<notin> set (remove1 x (runQueue s))"
    let ?s0 = "s\<lparr>runQueue := remove1 x (runQueue s)\<rparr>"
    define s1 where "s1 = (upd_context c (\<lambda>k. k\<lparr>c_state := IDLE, curThread := None\<rparr>)
       (upd_thread g (\<lambda>t. t\<lparr>th_state := BLOCKED\<rparr>) ?s0))\<lparr>scheduledThreads := u32_dec (scheduledThreads ?s0)\<rparr>"
    have d: "deschedule g c BLOCKED ?s0 = Inr s1" using deschedule_result [OF n(4), of g BLOCKED] g(1,2) by (simp add: s1_def c)
    have a1: "assign_inv {c} s1" using deschedule_inv [OF n(4), of g BLOCKED] g(1,2) by (simp add: s1_def c)
    have f: "threads s1 h = (if h = g then (threads s g)\<lparr>th_state := BLOCKED\<rparr> else threads s h)" for h by (simp add: s1_def)
    have gok: "thread_ok {c} s1 (pc(g := Away)) g"
      using W m by (simp add: thread_ok_def place_ok_def sleep_ok_def hand_ok_def f)
    have wp: "wakeupPhase (threads s1 h) = wakeupPhase (threads s h)" for h by (simp add: f)
    then have "sleepers_ok s1 = sleepers_ok s" by (simp add: sleepers_ok_def) (simp add: s1_def)
    then have sl: "sleepers_ok s1" using I(4) by blast
    have rq: "set (runQueue s1) = set (runQueue s) - {x}"
      using I(1) by (simp add: s1_def assign_inv_def lists_inv_def)
    have dy: "dyn_inv {c} {x} s1 (pc(g := Away))" "handoffThread (threads s1 h) = handoffThread (threads s h)" for h
      by (rule left_dyn [OF i w c sl _ _ _ _ _ rq _ gok], simp_all add: s1_def)+
    have "\<exists>s'. give_context x c s1 = Inr s' \<and> sched_inv s' (pc(g := Away))"
      by (rule replaced_inv [OF i w c a1 _ _ _ rq dy _ n(2,3)]) (simp_all add: s1_def)
    then show ?thesis using n(1) d by (auto simp: leave_out_def)
  qed
qed

text \<open>The insertion into the sleep queue.\<close>

lemma sleep_insert_set [simp]: "set (sleep_insert wp g q) = insert g (set q)"
  by (induction q) auto

lemma sleep_insert_distinct [simp]: "distinct (sleep_insert wp g q) \<longleftrightarrow> g \<notin> set q \<and> distinct q"
  by (induction q) auto

lemma sleep_insert_sorted: "sorted (map wp q) \<Longrightarrow> sorted (map wp (sleep_insert wp g q))"
  by (induction q) (auto simp: not_less intro: less_imp_le order_trans)

lemma leave_sleep_inv:
  assumes i: "sched_inv s pc" and w: "at_work s pc g" and m: "markedForSleep (threads s g)" and c: "c = th_cid (threads s g)"
  shows "ensures (\<lambda>s'. sched_inv s' (pc(g := Away))) (leave_sleep g c s)"
proof -
  note I = inv_parts [OF i] and W = at_work_facts [OF i w]
  have g: "g \<in> gidMap s" "tstate s g = RUNNING_T" "st (s_bar s) c = RUNNING" using w by (simp_all add: at_work_def c)
  have mk: "curPhase s < wakeupPhase (threads s g)" "th_futex (threads s g) = 1"
    using I(5) [OF g(1)] m by (simp_all add: thread_ok_def sleep_ok_def Let_def)
  have l: "lists_inv {} s" using I(1) by (simp add: assign_inv_def)
  define s0 where "s0 = upd_thread g (\<lambda>t. t\<lparr>markedForSleep := False\<rparr>) s"
  define s1 where "s1 = (upd_context c (\<lambda>k. k\<lparr>c_state := IDLE, curThread := None\<rparr>)
       (upd_thread g (\<lambda>t. t\<lparr>th_state := SLEEPING\<rparr>) s0))\<lparr>scheduledThreads := u32_dec (scheduledThreads s0)\<rparr>"
  have a0: "assign_inv {} s0" using I(1) by (subst assign_cong [of _ s]) (simp_all add: s0_def)
  have d: "deschedule g c SLEEPING s0 = Inr s1"
    using deschedule_result [OF a0, of g SLEEPING] g(1,2) c by (simp add: s0_def s1_def)
  define s2 where "s2 = s1\<lparr>sleepQueue := sleep_insert (\<lambda>x. wakeupPhase (threads s1 x)) g (sleepQueue s1)\<rparr>"
  have f: "threads s2 h = (if h = g then (threads s g)\<lparr>markedForSleep := False, th_state := SLEEPING\<rparr> else threads s h)" for h
    by (simp add: s2_def s1_def s0_def)
  have same: "gidMap s2 = gidMap s" "s_bar s2 = s_bar s" "curPhase s2 = curPhase s" "numPhases s2 = numPhases s"
    "numCores s2 = numCores s" "runQueue s2 = runQueue s" by (simp_all add: s2_def s1_def s0_def)
  have "g \<notin> set (runQueue s) \<union> set (outQueue s) \<union> set (sleepQueue s)" using l g(2) by (auto simp: lists_inv_def)
  then have no: "\<not> th_owned s1 g" "g \<notin> set (sleepQueue s1)" by (simp_all add: th_owned_def s1_def s0_def)
  have wp: "wakeupPhase (threads s2 h) = wakeupPhase (threads s h)" "wakeupPhase (threads s1 h) = wakeupPhase (threads s h)" for h
    by (simp_all add: f) (simp add: s1_def s0_def)
  have sq: "sleepQueue s2 = sleep_insert (\<lambda>x. wakeupPhase (threads s x)) g (sleepQueue s)"
    by (simp add: s2_def wp) (simp add: s1_def s0_def)
  have a2: "assign_inv {c} s2"
  proof (rule vacate_inv [OF I(1) g(1), where T = SLEEPING])
    show "c = th_cid (threads s g)" by (rule c)
    show "distinct (sleepQueue s2)" unfolding sq using l g(2) by (auto simp: lists_inv_def)
  qed (use g(2) l in \<open>auto simp: sq lists_inv_def, auto simp: s2_def s1_def s0_def split: if_splits\<close>)
  have sl: "sleepers_ok s2"
  proof -
    have o: "sorted (map (\<lambda>g. wakeupPhase (threads s g)) (sleepQueue s))" "curPhase s = numPhases s"
      "\<forall>h\<in>set (sleepQueue s). curPhase s < wakeupPhase (threads s h)" using I(4) unfolding sleepers_ok_def by blast+
    have "sorted (map (\<lambda>g. wakeupPhase (threads s g)) (sleepQueue s2))" unfolding sq by (rule sleep_insert_sorted [OF o(1)])
    moreover have "\<forall>h\<in>set (sleepQueue s2). curPhase s < wakeupPhase (threads s h)" unfolding sq using o(3) mk(1) by simp
    ultimately show ?thesis using o(2) unfolding sleepers_ok_def wp same by blast
  qed
  have gok: "thread_ok {c} s2 (pc(g := Away)) g"
    using W mk(2) by (simp add: thread_ok_def place_ok_def sleep_ok_def hand_ok_def f)
  have cx: "curThread (contexts s2 c) = None" by (simp add: s2_def s1_def)
  have step: "leave_sleep g c s = rbind (schedContext c s2) (\<lambda>(n, s2). case n of
      Some x \<Rightarrow> give_context x c s2 | None \<Rightarrow> rbind (free_push c s2) (bar_do (Leave c)))"
    using d no(1) by (simp add: leave_sleep_def s0_def [symmetric] s2_def)
  from schedContext_inv [OF a2, of c] show ?thesis
  proof (elim disjE exE conjE)
    assume n: "schedContext c s2 = Inr (None, s2)" "\<forall>h\<in>set (runQueue s2). \<not> th_mask (threads s2 h) c"
    let ?s3 = "s2\<lparr>freeList := freeList s2 @ [c]\<rparr>"
    have fp: "free_push c s2 = Inr ?s3" "assign_inv {} ?s3" using free_push_inv [OF a2] n(2) by auto
    have "sleepers_ok ?s3 = sleepers_ok s2" by (simp add: sleepers_ok_def)
    then have sl3: "sleepers_ok ?s3" using sl by blast
    have gok3: "thread_ok {c} ?s3 (pc(g := Away)) g" using gok by (simp add: thread_ok_def place_ok_def sleep_ok_def hand_ok_def f)
    have "dyn_inv {c} {} ?s3 (pc(g := Away))"
      by (rule left_dyn(1) [OF i w c sl3 _ _ _ _ _ _ _ gok3]) (use same f in \<open>simp_all add: s2_def s1_def s0_def\<close>)
    moreover have "\<not> runs ?s3 c" using cx by (simp add: runs_def)
    moreover have "st (s_bar ?s3) c = RUNNING" using g(3) same by simp
    ultimately have "ensures (\<lambda>s'. sched_inv s' (pc(g := Away))) (bar_do (Leave c) ?s3)"
      by (rule leave_step [OF fp(2)])
    then show ?thesis using n(1) fp(1) step by simp
  next
    fix x let ?s3 = "s2\<lparr>runQueue := remove1 x (runQueue s2)\<rparr>"
    assume n: "schedContext c s2 = Inr (Some x, ?s3)" "x \<in> set (runQueue s2)" "th_mask (threads s2 x) c"
      "assign_inv {c} ?s3" "x \<notin> set (remove1 x (runQueue s2))"
    have "sleepers_ok ?s3 = sleepers_ok s2" by (simp add: sleepers_ok_def)
    then have sl3: "sleepers_ok ?s3" using sl by blast
    have gok3: "thread_ok {c} ?s3 (pc(g := Away)) g" using gok by (simp add: thread_ok_def place_ok_def sleep_ok_def hand_ok_def f)
    have rq: "set (runQueue ?s3) = set (runQueue s) - {x}" using l same by (simp add: lists_inv_def)
    have dy: "dyn_inv {c} {x} ?s3 (pc(g := Away))" "handoffThread (threads ?s3 h) = handoffThread (threads s h)" for h
      by (rule left_dyn [OF i w c sl3 _ _ _ _ _ rq _ gok3], use same f in \<open>simp_all add: s2_def s1_def s0_def\<close>)+
    have x: "x \<in> set (runQueue s)" "x \<noteq> g" using n(2) same no(1) by (auto simp: th_owned_def s1_def s0_def)
    have xm: "th_mask (threads s x) c" using n(3) x(2) by (simp add: f)
    have "\<exists>s'. give_context x c ?s3 = Inr s' \<and> sched_inv s' (pc(g := Away))"
      by (rule replaced_inv [OF i w c n(4) _ _ _ rq dy _ x(1) xm]) (use same f in simp_all)
    then show ?thesis using n(1) step by auto
  qed
qed

lemma leave_inv:
  assumes i: "sched_inv s pc" and w: "at_work s pc g"
  shows "ensures (\<lambda>s'. sched_inv s' (pc(g := Away))) (sched_leave g (th_cid (threads s g)) s)"
  using at_work_facts(2) [OF i w] leave_sleep_inv [OF i w _ refl] leave_out_inv [OF i w _ refl] w
  by (simp add: sched_leave_def at_work_def)

end
