(* ===== verification/SchedRun.thy ===== *)
theory SchedRun
  imports SchedSteps
begin

section \<open>Runs of the scheduler\<close>

text \<open>
  The remaining handlers, the steps that the simulated threads and the watchdog can take, and
  what holds in every state they lead to.
\<close>

subsection \<open>sync and the handoff after it\<close>

lemma sched_sync_inv:
  assumes i: "sched_inv s pc" and w: "at_work s pc g" and m: "\<not> markedForSleep (threads s g)"
  shows "ensures (\<lambda>s'. sched_inv s' (pc(g := In_sync))) (sched_sync (th_cid (threads s g)) s)"
proof -
  note I = inv_parts [OF i] and W = at_work_facts [OF i w]
  let ?c = "th_cid (threads s g)"
  have g: "g \<in> gidMap s" "tstate s g = RUNNING_T" "st (s_bar s) ?c = RUNNING" using w by (simp_all add: at_work_def)
  have dy: "dyn_inv {?c} {} s (pc(g := In_sync))"
  proof (rule dynI)
    show "link_inv {?c} s" using I(3) by (simp add: link_inv_def)
    fix h assume h: "h \<in> gidMap s" "h \<notin> {}"
    show "thread_ok {?c} s (pc(g := In_sync)) h"
    proof (cases "h = g")
      case True
      then show ?thesis using g W m I(5) [OF g(1)] by (simp add: thread_ok_def place_ok_def sleep_ok_def hand_ok_def)
    next
      case False
      show ?thesis by (rule others_frame [OF I(5) [OF h(1)]]) (use False in simp_all)
    qed
  qed (use I in simp_all)
  have rc: "runs s ?c" using W(2) g(2) by (simp add: runs_def)
  have on_c: "h = g" if "h \<in> gidMap s" "tstate s h = RUNNING_T" "th_cid (threads s h) = ?c" for h
    using running_context(2) [OF I(1) that(1)] that(2,3) W(2) by simp
  have "ensures (\<lambda>s'. sched_inv s' (pc(g := In_sync))) (bar_do (Sync ?c) s)"
    by (rule sync_step [OF I(1) dy W(1) rc g(3)]) (use on_c W(3) m in auto)
  then show ?thesis using W(2) m by (simp add: sched_sync_def)
qed

lemma same_state: "tstate s g = x \<Longrightarrow> upd_thread g (\<lambda>t. t\<lparr>th_state := x\<rparr>) s = s"
  unfolding upd_thread_def by (cases "threads s g") (auto simp: fun_upd_idem)

text \<open>The thread \<open>g\<close> is back from the barrier, with \<open>d\<close> to be handed its context.\<close>

lemma handoff_inv:
  assumes i: "sched_inv s pc" and g: "g \<in> gidMap s" "handoffThread (threads s g) = Some d"
    and r: "st (s_bar s) (th_cid (threads s g)) = RUNNING"
  shows "ensures (\<lambda>s'. sched_inv s' (seated g s' pc)) (sync_handoff g s)"
proof -
  note I = inv_parts [OF i]
  define c where "c = th_cid (threads s g)"
  have ok: "thread_ok {} s pc g" using I(5) g(1) .
  have h: "tstate s g = RUNNING_T" "pc g = In_sync" "d \<in> gidMap s" "tstate s d = QUEUED" "d \<notin> set (runQueue s)"
    "th_mask (threads s d) c" "\<And>w. w \<in> gidMap s \<Longrightarrow> handoffThread (threads s w) = Some d \<Longrightarrow> w = g"
    using ok g(2) by (auto simp: thread_ok_def hand_ok_def c_def)
  have gf: "\<not> markedForSleep (threads s g)" "fakeLeave (threads s g) = None" "fj_action (threads s g) = FJA_NONE"
    using ok h(2) by (simp_all add: thread_ok_def place_ok_def sleep_ok_def Let_def)
  have cur: "c < numCores s" "curThread (contexts s c) = Some g" using running_context [OF I(1) g(1)] h(1) by (simp_all add: c_def)
  have dg: "d \<noteq> g" using h(1,4) by auto
  have ng: "handoffThread (threads s w) \<noteq> Some g" if "w \<in> gidMap s" for w
    using I(5) [OF that] h(1) by (auto simp: thread_ok_def hand_ok_def)
  define s0 where "s0 = upd_thread g (\<lambda>t. t\<lparr>handoffThread := None\<rparr>) s"
  define s1 where "s1 = (upd_context c (\<lambda>k. k\<lparr>c_state := IDLE, curThread := None\<rparr>)
       (upd_thread g (\<lambda>t. t\<lparr>th_state := QUEUED\<rparr>) s0))\<lparr>scheduledThreads := u32_dec (scheduledThreads s0)\<rparr>"
  have a0: "assign_inv {} s0" using I(1) by (subst assign_cong [of _ s]) (simp_all add: s0_def)
  have de: "deschedule g c QUEUED s0 = Inr s1"
    using deschedule_result [OF a0, of g QUEUED] g(1) h(1) by (simp add: s0_def s1_def c_def)
  have a1: "assign_inv {c} s1" using deschedule_inv [OF a0, of g QUEUED] g(1) h(1) by (simp add: s0_def s1_def c_def)
  have f: "threads s1 x = (if x = g then (threads s g)\<lparr>handoffThread := None, th_state := QUEUED\<rparr> else threads s x)" for x
    by (simp add: s1_def s0_def)
  have same: "gidMap s1 = gidMap s" "s_bar s1 = s_bar s" "curPhase s1 = curPhase s" "numPhases s1 = numPhases s"
    "numCores s1 = numCores s" "runQueue s1 = runQueue s" "sleepQueue s1 = sleepQueue s" by (simp_all add: s1_def s0_def)
  have cx: "curThread (contexts s1 e) = (if e = c then None else curThread (contexts s e))" for e by (simp add: s1_def s0_def)
  have r1: "runs s1 e = runs s e" if "e < numCores s" "e \<noteq> c" for e
  proof (cases "curThread (contexts s e)")
    case (Some v)
    then have "v \<noteq> g" using used_context [OF I(1) that(1)] that(2) c_def by auto
    then show ?thesis using Some cx that(2) by (simp add: runs_def f)
  qed (use cx that(2) in \<open>simp add: runs_def\<close>)
  have d1: "dyn_inv {c} (insert d {g}) s1 pc"
  proof (rule dynI)
    show "bar_ok s1" using I(2) same by (simp add: bar_ok_def)
    show "link_inv {c} s1" using I(3) r1 same by (auto simp: link_inv_def)
    have "wakeupPhase (threads s1 x) = wakeupPhase (threads s x)" for x by (simp add: f)
    then have "sleepers_ok s1 = sleepers_ok s" using same by (simp add: sleepers_ok_def)
    then show "sleepers_ok s1" using I(4) by blast
    fix x assume x: "x \<in> gidMap s1" "x \<notin> insert d {g}"
    have okx: "thread_ok {} s pc x" using I(5) x(1) same(1) by simp
    show "thread_ok {c} s1 pc x"
    proof (rule thread_ok_frame [OF okx])
      have "handed s1 x" if "handed s x"
        by (rule handed_mono [OF that same(1)]) (use x(2) g(2) in \<open>auto simp: f\<close>)
      moreover assume "x \<in> set (runQueue s) \<or> handed s x"
      ultimately show "x \<in> set (runQueue s1) \<or> handed s1 x" using same(6) by auto
    next
      fix w e assume "handoffThread (threads s1 w) = Some e"
      then show "handoffThread (threads s w) = Some e" by (auto simp: f split: if_splits)
    next
      fix e assume e: "tstate s e = QUEUED" "e \<notin> set (runQueue s)"
      then have "e \<noteq> g" using h(1) by auto
      then show "tstate s1 e = QUEUED \<and> e \<notin> set (runQueue s1) \<and> th_mask (threads s1 e) = th_mask (threads s e)"
        using e same(6) by (simp add: f)
    qed (use x same f in simp_all)
  qed
  have hd: "in_hand s1 pc d"
    by (rule queued_in_hand [OF I(5) [OF h(3)] h(4)]) (use h(3,5,7) dg same in \<open>auto simp: f\<close>)
  obtain s2 where s2: "give_context d c s1 = Inr s2" "assign_inv {} s2" "dyn_inv {} {g} s2 pc" "gidMap s2 = gidMap s1"
    "runQueue s2 = runQueue s1" "\<And>x. x \<noteq> d \<Longrightarrow> threads s2 x = threads s1 x" "handoffThread (threads s2 d) = None"
    using give_context_inv [OF a1 d1 hd] dg cur(1) same r h(6) by (auto simp: c_def f)
  have ho: "handoffThread (threads s2 w) \<noteq> Some g" if "w \<in> gidMap s" for w
    using ng [OF that] s2(6) [of w] s2(7) by (cases "w = d") (simp_all add: f)
  have gq: "g \<notin> set (runQueue s)" using I(1) h(1) by (auto simp: assign_inv_def lists_inv_def)
  have lo: "loose s2 g" using g(1) s2(4-6) same dg gf gq ho by (simp add: loose_def f)
  have q2: "tstate s2 g = QUEUED" using s2(6) dg by (simp add: f)
  have "sync_handoff g s = rbind (schedThread g s2) (\<lambda>(ctx, s1). case ctx of
      Some c \<Rightarrow> rbind (schedule g c s1) (bar_do (Join c))
    | None \<Rightarrow> rbind (run_push g s1) (\<lambda>s2. Inr (waitForContext g s2)))"
    using g(2) de s2(1) by (simp add: sync_handoff_def s0_def c_def)
  also have "\<dots> = rbind (schedThread g s2) (\<lambda>(ctx, s1). case ctx of
      Some c \<Rightarrow> rbind (schedule g c s1) (bar_do (Join c))
    | None \<Rightarrow> rbind (run_push g (upd_thread g (\<lambda>t. t\<lparr>th_state := QUEUED\<rparr>) s1)) (\<lambda>s2. Inr (waitForContext g s2)))"
    using schedThread_inv [OF s2(2), of g] g(1) s2(4) same(1) same_state [OF q2] by auto
  finally show ?thesis using find_context [OF s2(2,3) lo] by simp
qed

text \<open>A thread that only moves on, without a change of the scheduler's state.\<close>

lemma move_inv:
  assumes i: "sched_inv s pc" and g: "g \<in> gidMap s" and ok: "thread_ok {} s (pc(g := p)) g"
  shows "sched_inv s (pc(g := p))"
proof (rule invI)
  note I = inv_parts [OF i]
  fix h assume h: "h \<in> gidMap s"
  show "thread_ok {} s (pc(g := p)) h"
  proof (cases "h = g")
    case False
    show ?thesis by (rule others_frame [OF I(5) [OF h]]) (use False in simp_all)
  qed (use ok in simp)
qed (use inv_parts [OF i] in simp_all)

lemma resume_inv:
  assumes i: "sched_inv s pc" and g: "g \<in> gidMap s" "pc g = In_sync"
    and r: "st (s_bar s) (th_cid (threads s g)) = RUNNING"
  shows "ensures (\<lambda>s'. sched_inv s' (seated g s' pc)) (sync_handoff g s)"
proof (cases "handoffThread (threads s g)")
  case (Some d)
  then show ?thesis by (rule handoff_inv [OF i g(1) _ r])
next
  case None
  have ok: "thread_ok {} s pc g" using inv_parts(5) [OF i g(1)] .
  have rt: "tstate s g = RUNNING_T" using ok g(2)
    by (cases "tstate s g") (auto simp: thread_ok_def place_ok_def Let_def)
  have "thread_ok {} s (pc(g := In_sim)) g"
    using ok g(2) rt r None by (simp add: thread_ok_def place_ok_def sleep_ok_def hand_ok_def turn_ok_def Let_def)
  then have "sched_inv s (pc(g := In_sim))" by (rule move_inv [OF i g(1)])
  then show ?thesis using None rt by (simp add: sync_handoff_def seated_def)
qed

lemma woken_inv:
  assumes i: "sched_inv s pc" and g: "g \<in> gidMap s" "pc g = Queued_up" "th_futex (threads s g) \<noteq> 1"
  shows "tstate s g = RUNNING_T \<and> waitForContext_end g s = Inr s \<and> sched_inv s (pc(g := In_sim))"
proof -
  have ok: "thread_ok {} s pc g" using inv_parts(5) [OF i g(1)] .
  have rt: "tstate s g = RUNNING_T" using ok g(2,3)
    by (cases "tstate s g") (auto simp: thread_ok_def place_ok_def Let_def)
  have "\<not> markedForSleep (threads s g)" "handoffThread (threads s g) = None" "\<not> needsJoin (threads s g)"
    using ok g(2) rt by (cases "handoffThread (threads s g)", simp_all add: thread_ok_def place_ok_def sleep_ok_def hand_ok_def Let_def)
  then have "thread_ok {} s (pc(g := In_sim)) g" "waitForContext_end g s = Inr s"
    using ok rt g(2) by (simp_all add: thread_ok_def place_ok_def sleep_ok_def hand_ok_def turn_ok_def Let_def waitForContext_end_def)
  then show ?thesis using move_inv [OF i g(1)] rt by blast
qed

subsection \<open>Sleeping\<close>

lemma mark_inv:
  assumes i: "sched_inv s pc" and w: "at_work s pc g" "pc g = In_sim" and m: "\<not> markedForSleep (threads s g)"
    and p: "curPhase s < phase"
  shows "\<exists>s'. markForSleep g phase s = Inr s' \<and> sched_inv s' pc"
proof -
  let ?s = "upd_thread g (\<lambda>t. t\<lparr>markedForSleep := True, wakeupPhase := phase, th_futex := 1\<rparr>) s"
  have g: "g \<in> gidMap s" "tstate s g = RUNNING_T" "st (s_bar s) (th_cid (threads s g)) = RUNNING" using w by (simp_all add: at_work_def)
  have ok: "thread_ok {} s pc g" using inv_parts(5) [OF i g(1)] .
  have "handoffThread (threads s g) = None" using at_work_facts(3) [OF i w(1)] .
  then have "thread_ok {} ?s (pc(g := In_sim)) g"
    using ok g w(2) p by (simp add: thread_ok_def place_ok_def sleep_ok_def hand_ok_def turn_ok_def Let_def)
  then have "sched_inv ?s (pc(g := In_sim))"
    by (rule one_thread_inv [OF i g(1) refl, rotated -1]) (use g(2) in simp_all)
  moreover have "pc(g := In_sim) = pc" using w(2) by (simp add: fun_upd_idem)
  ultimately show ?thesis using g(1) m by (simp add: markForSleep_def)
qed

lemma sleep_end_inv:
  assumes i: "sched_inv s pc" and g: "g \<in> gidMap s" "tstate s g \<in> {SLEEPING, BLOCKED}"
  shows "\<exists>s'. notifySleepEnd g s = Inr s' \<and> sched_inv s' pc \<and> gidMap s' = gidMap s \<and> tstate s' g = BLOCKED"
proof -
  have nr: "tstate s g \<noteq> RUNNING_T" using g(2) by auto
  have "\<not> markedForSleep (threads s g)" using idle_thread(2) [OF inv_parts(5) [OF i g(1)] nr] .
  then show ?thesis using sleeper_inv [OF i g(1) nr] g by (auto simp: notifySleepEnd_def)
qed

subsection \<open>Threads that come and go\<close>

lemma sleepers_cong:
  assumes "sleepQueue s' = sleepQueue s" "curPhase s' = curPhase s" "numPhases s' = numPhases s"
    and "\<And>h. h \<in> set (sleepQueue s) \<Longrightarrow> wakeupPhase (threads s' h) = wakeupPhase (threads s h)"
  shows "sleepers_ok s' = sleepers_ok s"
proof -
  have "map (\<lambda>h. wakeupPhase (threads s' h)) (sleepQueue s) = map (\<lambda>h. wakeupPhase (threads s h)) (sleepQueue s)"
    using assms(4) by simp
  moreover have "(\<forall>h \<in> set (sleepQueue s). curPhase s < wakeupPhase (threads s' h))
    = (\<forall>h \<in> set (sleepQueue s). curPhase s < wakeupPhase (threads s h))" using assms(4) by simp
  ultimately show ?thesis unfolding sleepers_ok_def assms(1-3) by (simp only:)
qed

lemma start_inv:
  assumes i: "sched_inv s pc" and g: "g \<notin> gidMap s" and am: "\<exists>c<numCores s. m c"
  shows "\<exists>s'. sched_start g m s = Inr s' \<and> sched_inv s' (pc(g := Away))"
proof -
  note I = inv_parts [OF i]
  let ?s = "s\<lparr>gidMap := insert g (gidMap s), threads := (threads s)(g := new_thread (threads s g) m)\<rparr>"
  have l: "lists_inv {} s" "ctx_inv s" "thr_inv s" "busy_inv {} s" using I(1) by (auto simp: assign_inv_def)
  have f: "threads ?s h = (if h = g then new_thread (threads s g) m else threads s h)" for h by simp
  have cg: "curThread (contexts s c) \<noteq> Some g" if "c < numCores s" for c using used_context [OF I(1) that] g by auto
  have rq: "g \<notin> set (runQueue s)" "g \<notin> set (sleepQueue s)" using l(1) g by (auto simp: lists_inv_def)
  have r: "runs ?s c = runs s c" if "c < numCores s" for c using cg [OF that] by (auto simp: runs_def)
  have "sched_inv ?s (pc(g := Away))"
  proof (rule invI)
    have "ctx_inv ?s" using l(2) cg by (auto simp: ctx_inv_def)
    moreover have "thr_inv ?s" using l(3) am by (auto simp: thr_inv_def new_thread_def)
    moreover have "lists_inv {} ?s" using l(1) g by (auto simp: lists_inv_def new_thread_def)
    moreover have "busy_inv {} ?s" using l(4) rq(1) r by (auto simp: busy_inv_def)
    ultimately show "assign_inv {} ?s" by (simp add: assign_inv_def)
    show "bar_ok ?s" using I(2) by (simp add: bar_ok_def)
    show "link_inv {} ?s" using I(3) r by (auto simp: link_inv_def)
    have "sleepers_ok ?s = sleepers_ok s" by (rule sleepers_cong) (use rq(2) in auto)
    then show "sleepers_ok ?s" using I(4) by blast
    fix h assume h: "h \<in> gidMap ?s"
    show "thread_ok {} ?s (pc(g := Away)) h"
    proof (cases "h = g")
      case True
      then show ?thesis by (simp add: thread_ok_def place_ok_def sleep_ok_def hand_ok_def new_thread_def)
    next
      case False
      then have hg: "h \<in> gidMap s" using h by simp
      have ok: "thread_ok {} s pc h" using I(5) hg .
      have hd: "handed ?s h = handed s h"
        using g by (auto simp: handed_def new_thread_def)
      have "place_ok {} ?s (pc(g := Away)) h" "sleep_ok {} ?s (pc(g := Away)) h"
        using ok False hd unfolding thread_ok_def place_ok_def sleep_ok_def turn_ok_def Let_def by simp_all
      moreover have "hand_ok ?s (pc(g := Away)) h"
        using ok False g unfolding thread_ok_def hand_ok_def by (auto simp: new_thread_def)
      ultimately show ?thesis by (simp add: thread_ok_def)
    qed
  qed
  moreover have "list_ex m [0..<numCores s]" using am by (auto simp: list_ex_iff)
  ultimately show ?thesis using g by (simp add: sched_start_def)
qed

lemma forget_inv:
  assumes i: "sched_inv s pc" and g: "g \<in> gidMap s" "pc g = Away" "tstate s g \<in> {STARTED, BLOCKED}"
  shows "sched_inv (s\<lparr>gidMap := gidMap s - {g}\<rparr>) pc"
proof (rule invI)
  note I = inv_parts [OF i]
  let ?s = "s\<lparr>gidMap := gidMap s - {g}\<rparr>"
  have l: "lists_inv {} s" "ctx_inv s" "thr_inv s" "busy_inv {} s" using I(1) by (auto simp: assign_inv_def)
  have lo: "loose s g" using away_loose(1) [OF i g] .
  have "ctx_inv ?s" using l(2) g(3) by (auto simp: ctx_inv_def)
  moreover have "thr_inv ?s" using l(3) by (auto simp: thr_inv_def)
  moreover have "lists_inv {} ?s" using l(1) g(3) lo by (auto simp: lists_inv_def loose_def)
  moreover have "busy_inv {} ?s" using l(4) by (simp add: busy_inv_def runs_def)
  ultimately show "assign_inv {} ?s" by (simp add: assign_inv_def)
  show "bar_ok ?s" using I(2) by (simp add: bar_ok_def)
  show "link_inv {} ?s" using I(3) by (simp add: link_inv_def runs_def)
  have "sleepers_ok ?s = sleepers_ok s" by (rule sleepers_cong) simp_all
  then show "sleepers_ok ?s" using I(4) by blast
  fix h assume h: "h \<in> gidMap ?s"
  then have ok: "thread_ok {} s pc h" using I(5) by simp
  have "handed ?s h = handed s h" using lo by (auto simp: handed_def loose_def)
  then have "place_ok {} ?s pc h" "sleep_ok {} ?s pc h"
    using ok unfolding thread_ok_def place_ok_def sleep_ok_def turn_ok_def Let_def by simp_all
  moreover have "hand_ok ?s pc h" using ok lo h unfolding thread_ok_def hand_ok_def by (auto simp: loose_def)
  ultimately show "thread_ok {} ?s pc h" by (simp add: thread_ok_def)
qed

text \<open>A thread that is out is taken off its context for good.\<close>

lemma evict_inv:
  assumes i: "sched_inv s pc" and g: "g \<in> gidMap s" "tstate s g = OUT"
  defines "c \<equiv> th_cid (threads s g)"
  defines "s2 \<equiv> (upd_context c (\<lambda>k. k\<lparr>c_state := IDLE, curThread := None\<rparr>)
       (upd_thread g (\<lambda>t. t\<lparr>th_state := BLOCKED\<rparr>) (s\<lparr>outQueue := remove1 g (outQueue s)\<rparr>)))
       \<lparr>scheduledThreads := u32_dec (scheduledThreads s), freeList := freeList s @ [c]\<rparr>"
  shows "sched_inv s2 pc" "c \<notin> set (freeList s)" "g \<in> set (outQueue s)" "c_state (contexts s c) = USED" "curThread (contexts s c) = Some g"
proof -
  note I = inv_parts [OF i]
  have l: "lists_inv {} s" "busy_inv {} s" using I(1) by (auto simp: assign_inv_def)
  have cur: "c < numCores s" "curThread (contexts s c) = Some g" "c_state (contexts s c) = USED"
    using running_context [OF I(1) g(1)] g(2) by (simp_all add: c_def)
  show q: "g \<in> set (outQueue s)" and "c_state (contexts s c) = USED" and "curThread (contexts s c) = Some g"
    using l(1) g cur by (auto simp: lists_inv_def)
  define s1 where "s1 = (upd_context c (\<lambda>k. k\<lparr>c_state := IDLE, curThread := None\<rparr>)
       (upd_thread g (\<lambda>t. t\<lparr>th_state := BLOCKED\<rparr>) (s\<lparr>outQueue := remove1 g (outQueue s)\<rparr>)))
       \<lparr>scheduledThreads := u32_dec (scheduledThreads s)\<rparr>"
  have a1: "assign_inv {c} s1" using steal_inv [OF I(1) q] by (auto simp: s1_def c_def)
  have nr: "\<not> runs s c" using cur(2) g(2) by (simp add: runs_def)
  have s12: "s2 = s1\<lparr>freeList := freeList s1 @ [c]\<rparr>" by (simp add: s2_def s1_def)
  have f: "threads s2 h = (if h = g then (threads s g)\<lparr>th_state := BLOCKED\<rparr> else threads s h)" for h by (simp add: s2_def)
  have same: "gidMap s2 = gidMap s" "s_bar s2 = s_bar s" "curPhase s2 = curPhase s" "numPhases s2 = numPhases s"
    "numCores s2 = numCores s" "runQueue s2 = runQueue s" "sleepQueue s2 = sleepQueue s" by (simp_all add: s2_def)
  have nq: "\<not> th_mask (threads s1 h) c" if "h \<in> set (runQueue s1)" for h
  proof
    assume m: "th_mask (threads s1 h) c"
    have "h \<in> set (runQueue s)" "th_mask (threads s h) c" using that m by (auto simp: s1_def split: if_splits)
    then show False using l(2) cur(1) nr by (auto simp: busy_inv_def)
  qed
  have "free_push c s1 = Inr s2 \<and> assign_inv {} s2" unfolding s12 by (rule free_push_inv [OF a1 nq])
  then have a2: "assign_inv {} s2" by blast
  have "c \<notin> set (freeList s1)" using a1 by (auto simp: assign_inv_def lists_inv_def)
  then show "c \<notin> set (freeList s)" by (simp add: s1_def)
  have cx: "curThread (contexts s2 e) = (if e = c then None else curThread (contexts s e))" for e by (simp add: s2_def)
  have st: "tstate s2 v = RUNNING_T \<longleftrightarrow> tstate s v = RUNNING_T" for v using g(2) by (simp add: f)
  have r: "runs s2 e = runs s e" for e
    using nr by (cases "e = c") (simp_all add: runs_def cx st)
  show "sched_inv s2 pc"
  proof (rule invI [OF a2])
    show "bar_ok s2" using I(2) same by (simp add: bar_ok_def)
    show "link_inv {} s2" using I(3) link_cong [OF same(2,5) r] by simp
    have "sleepers_ok s2 = sleepers_ok s" by (rule sleepers_cong) (simp_all add: same f)
    then show "sleepers_ok s2" using I(4) by blast
    fix h assume h: "h \<in> gidMap s2"
    show "thread_ok {} s2 pc h"
      by (rule others_frame [OF I(5)]) (use h same g(2) in \<open>auto simp: f\<close>)
  qed
qed

lemma finish_inv:
  assumes i: "sched_inv s pc" and g: "g \<in> gidMap s" "pc g = Away" "tstate s g \<noteq> SLEEPING"
  shows "\<exists>s'. sched_finish g s = Inr s' \<and> sched_inv s' pc \<and> gidMap s' = gidMap s - {g}"
proof -
  note I = inv_parts [OF i]
  have st: "tstate s g \<in> {STARTED, OUT, BLOCKED}" using away_state [OF i g(1,2)] g(3) by auto
  have nr: "tstate s g \<noteq> RUNNING_T" using st by auto
  note idle = idle_thread [OF I(5) [OF g(1)] nr]
  show ?thesis
  proof (cases "tstate s g = OUT")
    case True
    note e = evict_inv [OF i g(1) True]
    define s2 where "s2 = (upd_context (th_cid (threads s g)) (\<lambda>k. k\<lparr>c_state := IDLE, curThread := None\<rparr>)
       (upd_thread g (\<lambda>t. t\<lparr>th_state := BLOCKED\<rparr>) (s\<lparr>outQueue := remove1 g (outQueue s)\<rparr>)))
       \<lparr>scheduledThreads := u32_dec (scheduledThreads s), freeList := freeList s @ [th_cid (threads s g)]\<rparr>"
    have "sched_inv (s2\<lparr>gidMap := gidMap s2 - {g}\<rparr>) pc"
      by (rule forget_inv) (use e(1) g(1,2) in \<open>simp_all add: s2_def\<close>)
    moreover have "sched_finish g s = Inr (upd_context (th_cid (threads s g)) (\<lambda>k. k\<lparr>c_state := IDLE, curThread := None\<rparr>)
       (upd_thread g (\<lambda>t. t\<lparr>th_state := BLOCKED\<rparr>) (s\<lparr>gidMap := gidMap s - {g}, outQueue := remove1 g (outQueue s)\<rparr>))
       \<lparr>scheduledThreads := u32_dec (scheduledThreads s), freeList := freeList s @ [th_cid (threads s g)]\<rparr>)"
      using g(1) True idle e(2-5)
      by (simp add: sched_finish_def th_owned_def q_remove_def deschedule_def free_push_def Let_def)
    moreover have "upd_context (th_cid (threads s g)) (\<lambda>k. k\<lparr>c_state := IDLE, curThread := None\<rparr>)
       (upd_thread g (\<lambda>t. t\<lparr>th_state := BLOCKED\<rparr>) (s\<lparr>gidMap := gidMap s - {g}, outQueue := remove1 g (outQueue s)\<rparr>))
       \<lparr>scheduledThreads := u32_dec (scheduledThreads s), freeList := freeList s @ [th_cid (threads s g)]\<rparr>
      = s2\<lparr>gidMap := gidMap s2 - {g}\<rparr>"
      by (rule sched.equality) (simp_all add: s2_def upd_thread_def upd_context_def)
    moreover have "gidMap s2 = gidMap s" by (simp add: s2_def)
    ultimately show ?thesis by simp
  next
    case False
    have "g \<notin> set (outQueue s) \<union> set (runQueue s) \<union> set (sleepQueue s)"
      using I(1) st False by (auto simp: assign_inv_def lists_inv_def)
    then show ?thesis using forget_inv [OF i g(1,2)] st False idle g(1)
      by (auto simp: sched_finish_def th_owned_def)
  qed
qed

text \<open>When the watchdog drives time forward nobody runs.\<close>

lemma idle_none_running:
  assumes a: "assign_inv {} s" and w: "watchdog_idle s" and g: "g \<in> gidMap s"
  shows "tstate s g \<noteq> RUNNING_T"
proof
  assume r: "tstate s g = RUNNING_T"
  have l: "lists_inv {} s" using a by (simp add: assign_inv_def)
  let ?U = "{c. c < numCores s \<and> curThread (contexts s c) \<noteq> None}"
  let ?f = "\<lambda>h. th_cid (threads s h)"
  have o: "h \<in> gidMap s \<and> tstate s h = OUT" if "h \<in> set (outQueue s)" for h using l that by (auto simp: lists_inv_def)
  have cur: "?f h < numCores s \<and> curThread (contexts s (?f h)) = Some h" if "h \<in> insert g (set (outQueue s))" for h
    using running_context [OF a, of h] o [of h] that r g by auto
  have "inj_on ?f (insert g (set (outQueue s)))" using cur by (metis (no_types, lifting) inj_onI option.inject)
  then have "card (?f ` insert g (set (outQueue s))) = card (insert g (set (outQueue s)))" by (rule card_image)
  also have "\<dots> = Suc (card (set (outQueue s)))" using o [of g] r by (subst card_insert_disjoint) auto
  also have "card (set (outQueue s)) = length (outQueue s)"
    by (rule distinct_card) (use l in \<open>simp add: lists_inv_def\<close>)
  finally have c: "card (?f ` insert g (set (outQueue s))) = Suc (length (outQueue s))" .
  have "?f ` insert g (set (outQueue s)) \<subseteq> ?U" using cur by auto
  then have "card (?f ` insert g (set (outQueue s))) \<le> card ?U" by (intro card_mono) simp_all
  also have "card ?U = scheduledThreads s" using l unfolding lists_inv_def by metis
  also have "scheduledThreads s = length (outQueue s)" using w by (simp add: watchdog_idle_def)
  finally show False using c by simp
qed

lemma watchdog_inv:
  assumes i: "sched_inv s pc"
  shows "ensures (\<lambda>s'. sched_inv s' pc) (watchdog_step s)"
proof (cases "watchdog_idle s")
  case True
  note I = inv_parts [OF i]
  have n: "tstate s v \<noteq> RUNNING_T" if "v \<in> gidMap s" for v using idle_none_running [OF I(1) True that] .
  have "ensures (\<lambda>s'. sched_inv s' pc) (sched_callback s)"
  proof (rule callback_inv [OF I])
    show "phase_over s pc" using n by (simp add: phase_over_def)
    show "handoffThread (threads s v) = None" if "v \<in> gidMap s" for v using idle_thread(1) [OF I(5) [OF that] n [OF that]] .
  qed
  then show ?thesis using True by (simp add: watchdog_step_def)
qed (use i in \<open>simp add: watchdog_step_def\<close>)

subsection \<open>Steps and reachable states\<close>

text \<open>
  What can happen next: a thread starts, joins, leaves for a system call, reaches the end of
  its part of the phase, comes back from the barrier, is woken in the run queue, marks itself
  for a sleep or ends it, is gone; or the watchdog looks. A thread acts in the simulation only
  while the barrier lets its context run. The steps leave fake leaves and the matching of
  futexes out.
\<close>

datatype sched_op = StartT nat "nat \<Rightarrow> bool" | JoinT nat | LeaveT nat | SyncT nat | ResumeT nat | WokenT nat
  | MarkT nat u64 | SleepEndT nat | FinishT nat | WatchdogT

primrec op_allowed :: "sched_op \<Rightarrow> sched \<Rightarrow> (nat \<Rightarrow> place) \<Rightarrow> bool" where
  "op_allowed (StartT g m) s pc = (g \<notin> gidMap s \<and> list_ex m [0..<numCores s])"
| "op_allowed (JoinT g) s pc = (g \<in> gidMap s \<and> pc g = Away)"
| "op_allowed (LeaveT g) s pc = (at_work s pc g \<and> pc g = In_sim)"
| "op_allowed (SyncT g) s pc = (at_work s pc g \<and> pc g = In_sim \<and> \<not> markedForSleep (threads s g))"
| "op_allowed (ResumeT g) s pc = (g \<in> gidMap s \<and> pc g = In_sync \<and> st (s_bar s) (th_cid (threads s g)) = RUNNING)"
| "op_allowed (WokenT g) s pc = (g \<in> gidMap s \<and> pc g = Queued_up \<and> th_futex (threads s g) \<noteq> 1)"
| "op_allowed (MarkT g p) s pc = (at_work s pc g \<and> pc g = In_sim \<and> \<not> markedForSleep (threads s g) \<and> curPhase s < p)"
| "op_allowed (SleepEndT g) s pc = (g \<in> gidMap s \<and> pc g = Away \<and> tstate s g \<in> {SLEEPING, BLOCKED})"
| "op_allowed (FinishT g) s pc = (g \<in> gidMap s \<and> pc g = Away \<and> tstate s g \<noteq> SLEEPING)"
| "op_allowed WatchdogT s pc = True"

primrec op_step :: "sched_op \<Rightarrow> sched \<Rightarrow> (nat \<Rightarrow> place) \<Rightarrow> (sched \<times> (nat \<Rightarrow> place)) res" where
  "op_step (StartT g m) s pc = rbind (sched_start g m s) (\<lambda>s'. Inr (s', pc(g := Away)))"
| "op_step (JoinT g) s pc = rbind (sched_join False g s) (\<lambda>s'. Inr (s', seated g s' pc))"
| "op_step (LeaveT g) s pc = rbind (sched_leave g (th_cid (threads s g)) s) (\<lambda>s'. Inr (s', pc(g := Away)))"
| "op_step (SyncT g) s pc = rbind (sched_sync (th_cid (threads s g)) s) (\<lambda>s'. Inr (s', pc(g := In_sync)))"
| "op_step (ResumeT g) s pc = rbind (sync_handoff g s) (\<lambda>s'. Inr (s', seated g s' pc))"
| "op_step (WokenT g) s pc = rbind (waitForContext_end g s) (\<lambda>s'.
     assert_then (tstate s' g = RUNNING_T) (Inr (s', pc(g := In_sim))))"
| "op_step (MarkT g p) s pc = rbind (markForSleep g p s) (\<lambda>s'. Inr (s', pc))"
| "op_step (SleepEndT g) s pc = rbind (notifySleepEnd g s) (\<lambda>s'. Inr (s', pc))"
| "op_step (FinishT g) s pc = rbind (sched_finish g s) (\<lambda>s'. Inr (s', pc))"
| "op_step WatchdogT s pc = rbind (watchdog_step s) (\<lambda>s'. Inr (s', pc))"

inductive sched_reach :: "nat \<Rightarrow> nat \<Rightarrow> sched \<Rightarrow> (nat \<Rightarrow> place) \<Rightarrow> bool" for cores par where
  start: "0 < q \<Longrightarrow> sched_reach cores par (sched_init cores q mem r (barrier_init par garbage rb)) (\<lambda>_. Away)"
| step: "sched_reach cores par s pc \<Longrightarrow> op_allowed op s pc \<Longrightarrow> op_step op s pc = Inr (s', pc') \<Longrightarrow> sched_reach cores par s' pc'"

inductive_cases sched_reach_cases: "sched_reach cores par s pc"

lemma op_step_inv:
  assumes i: "sched_inv s pc" and al: "op_allowed op s pc"
  shows "ensures (\<lambda>(s', pc'). sched_inv s' pc') (op_step op s pc)"
proof -
  have lift: "ensures (\<lambda>(s', pc'). sched_inv s' pc') (rbind m (\<lambda>s'. Inr (s', k s')))"
    if "ensures (\<lambda>s'. sched_inv s' (k s')) m" for m :: "sched res" and k
    by (rule ensures_bind [OF that]) simp
  have known: "ensures (\<lambda>(s', pc'). sched_inv s' pc') (rbind m (\<lambda>s'. Inr (s', p)))"
    if "\<exists>s'. m = Inr s' \<and> sched_inv s' p" for m :: "sched res" and p using that by auto
  show ?thesis
  proof (cases op)
    case (StartT g m)
    then have "\<exists>c<numCores s. m c" using al by (auto simp: list_ex_iff)
    then show ?thesis using known [OF start_inv [OF i]] al StartT by simp
  next
    case (JoinT g)
    then show ?thesis using lift [OF join_inv [OF i]] al by simp
  next
    case (LeaveT g)
    then show ?thesis using lift [OF leave_inv [OF i]] al by simp
  next
    case (SyncT g)
    then show ?thesis using lift [OF sched_sync_inv [OF i]] al by simp
  next
    case (ResumeT g)
    then show ?thesis using lift [OF resume_inv [OF i]] al by simp
  next
    case (WokenT g)
    then show ?thesis using woken_inv [OF i, of g] al by simp
  next
    case (MarkT g p)
    then show ?thesis using known [OF mark_inv [OF i]] al by simp
  next
    case (SleepEndT g)
    then have "g \<in> gidMap s" "tstate s g \<in> {SLEEPING, BLOCKED}" using al by simp_all
    from sleep_end_inv [OF i this] have "\<exists>s'. notifySleepEnd g s = Inr s' \<and> sched_inv s' pc" by blast
    then show ?thesis using known SleepEndT by simp
  next
    case (FinishT g)
    then have "g \<in> gidMap s" "pc g = Away" "tstate s g \<noteq> SLEEPING" using al by simp_all
    from finish_inv [OF i this] have "\<exists>s'. sched_finish g s = Inr s' \<and> sched_inv s' pc" by blast
    then show ?thesis using known FinishT by simp
  next
    case WatchdogT
    then show ?thesis using lift [OF watchdog_inv [OF i]] by simp
  qed
qed

lemma init_inv:
  assumes "0 < par" and "cores \<le> MAX_THREADS"
  shows "sched_inv (sched_init cores q mem r (barrier_init par garbage rb)) (\<lambda>_. Away)"
proof (rule invI)
  let ?s = "sched_init cores q mem r (barrier_init par garbage rb)"
  show "bar_ok ?s" using barrier_init_inv [of par garbage rb] assms by (simp add: bar_ok_def sched_init_def)
  have "ctx_inv ?s" "thr_inv ?s" "busy_inv {} ?s" by (simp_all add: sched_init_def ctx_inv_def thr_inv_def busy_inv_def)
  moreover have "lists_inv {} ?s" by (auto simp: sched_init_def lists_inv_def)
  ultimately show "assign_inv {} ?s" by (simp add: assign_inv_def)
  show "link_inv {} ?s" by (simp add: sched_init_def link_inv_def runs_def active_def barrier_init_def)
  show "sleepers_ok ?s" by (simp add: sched_init_def sleepers_ok_def)
qed (simp add: sched_init_def)

lemma op_step_keeps:
  assumes "sched_inv s pc" and "op_step op s pc = Inr (s', pc')" and "op_allowed op s pc"
  shows "sched_inv s' pc'"
  using op_step_inv [OF assms(1,3)] assms(2) by (simp add: ensures_def)

lemma sched_reach_inv: "sched_reach cores par s pc \<Longrightarrow> 0 < par \<Longrightarrow> cores \<le> MAX_THREADS \<Longrightarrow> sched_inv s pc"
proof (induction rule: sched_reach.induct)
  case (step s pc op s' pc')
  then show ?case using op_step_keeps by blast
qed (rule init_inv)

end
