(* ===== verification/SchedProps.thy ===== *)
theory SchedProps
  imports SchedRun
begin

section \<open>What the scheduler guarantees\<close>

text \<open>
  The properties of the reachable states, and runs of one and two contexts at which they are
  applied.
\<close>

fun run_ops :: "sched_op list \<Rightarrow> sched \<Rightarrow> (nat \<Rightarrow> place) \<Rightarrow> (sched \<times> (nat \<Rightarrow> place)) option" where
  "run_ops [] s pc = Some (s, pc)"
| "run_ops (x # xs) s pc = (if op_allowed x s pc
     then (case op_step x s pc of Inr (s', pc') \<Rightarrow> run_ops xs s' pc' | Inl e \<Rightarrow> None) else None)"

lemma run_ops_reach:
  "run_ops xs s pc = Some (s', pc') \<Longrightarrow> sched_reach cores par s pc \<Longrightarrow> sched_reach cores par s' pc'"
proof (induction xs arbitrary: s pc)
  case (Cons x xs)
  from Cons.prems(1) obtain s1 pc1 where s1: "op_allowed x s pc" "op_step x s pc = Inr (s1, pc1)" "run_ops xs s1 pc1 = Some (s', pc')"
    by (auto split: if_splits sum.splits)
  show ?case by (rule Cons.IH [OF s1(3) sched_reach.step [OF Cons.prems(2) s1(1,2)]])
qed simp

definition some_rnd :: mtrand where "some_rnd = \<lparr>mt_state = [0], mt_next = 0, mt_left = 1\<rparr>"

definition blank_thread :: thread_info where
  "blank_thread = \<lparr>th_state = STARTED, th_cid = 0, handoffThread = None, th_futex = 0, needsJoin = False,
     markedForSleep = False, wakeupPhase = 0, th_mask = (\<lambda>_. False), fakeLeave = None, fj_action = FJA_NONE,
     fj_maxWakes = 0, fj_wokenUp = 0\<rparr>"

definition fresh_sched :: "nat \<Rightarrow> sched" where
  "fresh_sched n = sched_init n 1 (\<lambda>_. blank_thread) some_rnd (barrier_init n (\<lambda>_. 0) some_rnd)"

lemma fresh_reach: "sched_reach n n (fresh_sched n) (\<lambda>_. Away)"
  unfolding fresh_sched_def by (rule sched_reach.start) simp

text \<open>Thread 1 runs on the only context, thread 2 waits for it; then thread 1 reaches the end of its phase.\<close>

definition two_threads :: "sched_op list" where
  "two_threads = [StartT 1 (\<lambda>_. True), JoinT 1, StartT 2 (\<lambda>_. True), JoinT 2]"

lemma two_threads_run: "case run_ops two_threads (fresh_sched 1) (\<lambda>_. Away) of None \<Rightarrow> False
  | Some (s, pc) \<Rightarrow> 2 \<in> set (runQueue s) \<and> th_mask (threads s 2) 0 \<and> numCores s = 1 \<and> pc 1 = In_sim \<and> at_work s pc 1"
  by code_simp

lemma handed_run: "case run_ops (two_threads @ [SyncT 1]) (fresh_sched 1) (\<lambda>_. Away) of None \<Rightarrow> False
  | Some (s, pc) \<Rightarrow> 2 \<in> gidMap s \<and> tstate s 2 = QUEUED \<and> 2 \<notin> set (runQueue s) \<and> op_allowed (ResumeT 1) s pc"
  by code_simp

definition one_sleeper :: "sched_op list" where
  "one_sleeper = [StartT 1 (\<lambda>_. True), JoinT 1, MarkT 1 5, LeaveT 1]"

lemma sleeper_run: "case run_ops one_sleeper (fresh_sched 1) (\<lambda>_. Away) of None \<Rightarrow> False
  | Some (s, pc) \<Rightarrow> sleepQueue s = [1] \<and> watchdog_idle s"
  by code_simp

lemma run_state:
  assumes "case run_ops xs (fresh_sched 1) (\<lambda>_. Away) of None \<Rightarrow> False | Some (s, pc) \<Rightarrow> P s pc"
  obtains s pc where "sched_reach 1 1 s pc" "P s pc"
  using assms run_ops_reach [OF _ fresh_reach, of xs 1] by (auto split: option.splits)

subsection \<open>No handler fails\<close>



text \<open>
  C15. Contexts and threads are assigned to each other one to one: the current thread of a
  context is the one thread that is running or out there, its mask allows the context, and
  \<open>scheduledThreads\<close> counts the contexts in use. A context is in the barrier exactly when its
  thread runs.
\<close>

theorem sched_affinity:
  assumes "sched_reach cores par s pc" and "0 < par" and "cores \<le> MAX_THREADS" and "c < numCores s"
  shows "(curThread (contexts s c) = Some g \<longleftrightarrow> g \<in> gidMap s \<and> tstate s g \<in> {RUNNING_T, OUT} \<and> th_cid (threads s g) = c)
    \<and> (curThread (contexts s c) = Some g \<longrightarrow> th_mask (threads s g) c)
    \<and> (active (s_bar s) c \<longleftrightarrow> runs s c)
    \<and> scheduledThreads s = card {d. d < numCores s \<and> c_state (contexts s d) = USED}"
proof -
  note I = inv_parts [OF sched_reach_inv [OF assms(1-3)]]
  have l: "ctx_inv s" "thr_inv s" "lists_inv {} s" using I(1) by (auto simp: assign_inv_def)
  have "c_state (contexts s d) = USED \<longleftrightarrow> curThread (contexts s d) \<noteq> None" if "d < numCores s" for d
    using l(1) that unfolding ctx_inv_def by (metis context_state.distinct(1) context_state.exhaust)
  then have "{d. d < numCores s \<and> c_state (contexts s d) = USED} = {d. d < numCores s \<and> curThread (contexts s d) \<noteq> None}"
    by blast
  moreover have "scheduledThreads s = card {d. d < numCores s \<and> curThread (contexts s d) \<noteq> None}"
    using l(3) unfolding lists_inv_def by metis
  moreover have "active (s_bar s) c \<longleftrightarrow> runs s c" using I(3) assms(4) by (simp add: link_inv_def)
  ultimately show ?thesis
    using used_context [OF I(1) assms(4), of g] running_context(2) [OF I(1), of g] l(2) by (auto simp: thr_inv_def)
qed

theorem sched_affinity_witness:
  "\<exists>s pc. sched_reach 1 1 s pc \<and> (curThread (contexts s 0) = Some 1 \<longrightarrow> th_mask (threads s 1) 0) \<and> 0 < numCores s"
proof -
  obtain s pc where r: "sched_reach 1 1 s pc" "numCores s = 1" using run_state [OF two_threads_run] by blast
  show ?thesis using sched_affinity [OF r(1), of 0 1] r by (intro exI [of _ s] exI [of _ pc]) (simp add: MAX_THREADS_def)
qed

text \<open>
  C16. The scheduler conserves work: while a thread waits in the run queue, every context its
  mask allows is taken by a thread that runs. No such context is free or held by a thread
  that is out.
\<close>

theorem sched_work_conserving:
  assumes "sched_reach cores par s pc" and "0 < par" and "cores \<le> MAX_THREADS"
    and "g \<in> set (runQueue s)" and "c < numCores s" and "th_mask (threads s g) c"
  shows "\<exists>v. curThread (contexts s c) = Some v \<and> tstate s v = RUNNING_T \<and> v \<noteq> g
    \<and> c \<notin> set (freeList s) \<and> v \<notin> set (outQueue s)"
proof -
  note I = inv_parts [OF sched_reach_inv [OF assms(1-3)]]
  have l: "lists_inv {} s" "busy_inv {} s" using I(1) by (auto simp: assign_inv_def)
  obtain v where v: "curThread (contexts s c) = Some v" "tstate s v = RUNNING_T"
    using l(2) assms(4-6) by (auto simp: busy_inv_def runs_def)
  moreover have "tstate s g = QUEUED" using l(1) assms(4) by (auto simp: lists_inv_def)
  ultimately show ?thesis using l(1) by (auto simp: lists_inv_def)
qed

theorem sched_work_conserving_witness:
  "\<exists>s v. 2 \<in> set (runQueue s) \<and> curThread (contexts s 0) = Some v \<and> tstate s v = RUNNING_T"
proof -
  obtain s pc where r: "sched_reach 1 1 s pc" "2 \<in> set (runQueue s)" "th_mask (threads s 2) 0" "numCores s = 1"
    using run_state [OF two_threads_run] by blast
  show ?thesis using sched_work_conserving [OF r(1) _ _ r(2) _ r(3)] r(2,4) by (auto simp: MAX_THREADS_def)
qed



text \<open>
  C18. Time never passes a sleeper: the sleep queue holds exactly the sleeping threads, in the
  order of their deadlines, and every deadline is ahead of the current phase. So the assertion
  of \<open>callback\<close> that a thread is woken in the very phase it asked for holds, and \<open>curPhase\<close>
  keeps up with the simulator's \<open>numPhases\<close>.
\<close>

theorem sched_deadlines:
  assumes "sched_reach cores par s pc" and "0 < par" and "cores \<le> MAX_THREADS"
  shows "set (sleepQueue s) = {g \<in> gidMap s. tstate s g = SLEEPING} \<and> distinct (sleepQueue s)
    \<and> sorted (map (\<lambda>g. wakeupPhase (threads s g)) (sleepQueue s))
    \<and> (\<forall>g \<in> set (sleepQueue s). curPhase s < wakeupPhase (threads s g)) \<and> curPhase s = numPhases s"
proof -
  note I = inv_parts [OF sched_reach_inv [OF assms]]
  have "lists_inv {} s" using I(1) by (simp add: assign_inv_def)
  then show ?thesis using I(4) unfolding lists_inv_def sleepers_ok_def by blast
qed

theorem sched_deadlines_witness:
  "\<exists>s. sleepQueue s = [1] \<and> tstate s 1 = SLEEPING \<and> curPhase s < wakeupPhase (threads s 1)"
proof -
  obtain s pc where r: "sched_reach 1 1 s pc" "sleepQueue s = [1]" using run_state [OF sleeper_run] by blast
  have m: "1 \<le> MAX_THREADS" by (simp add: MAX_THREADS_def)
  have d: "set (sleepQueue s) = {g \<in> gidMap s. tstate s g = SLEEPING}" "\<forall>g \<in> set (sleepQueue s). curPhase s < wakeupPhase (threads s g)"
    using sched_deadlines [OF r(1) zero_less_one m] by blast+
  have "1 \<in> set (sleepQueue s)" using r(2) by simp
  then show ?thesis using d r(2) by blast
qed

text \<open>
  C19. The threads that run never all wait for each other: while a thread of the scheduler is
  running, the barrier lets the context of some thread run.
\<close>

theorem sched_progress:
  assumes "sched_reach cores par s pc" and "0 < par" and "cores \<le> MAX_THREADS"
    and "g \<in> gidMap s" and "tstate s g = RUNNING_T"
  shows "\<exists>v \<in> gidMap s. tstate s v = RUNNING_T \<and> st (s_bar s) (th_cid (threads s v)) = RUNNING"
proof -
  note I = inv_parts [OF sched_reach_inv [OF assms(1-3)]]
  have b: "list_inv (runListSize (s_bar s)) (s_bar s)" "count_inv (s_bar s)" "at_rest (s_bar s)"
    using I(2) by (auto simp: bar_ok_def bar_inv_def)
  have "active (s_bar s) (th_cid (threads s g))" using on_context [OF I(1) assms(4,5)] I(3) by (simp add: link_inv_def)
  then have "\<not> (st (s_bar s) (th_cid (threads s g)) = OFFLINE \<or> st (s_bar s) (th_cid (threads s g)) = LEFT)"
    by (auto simp: active_def)
  then obtain t where t: "st (s_bar s) t = RUNNING" using rest_progress [OF b] by blast
  then have "active (s_bar s) t" by (simp add: active_def)
  then have "t < numCores s" "runs s t" using I(3) by (auto simp: link_inv_def)
  then obtain v where v: "curThread (contexts s t) = Some v" "tstate s v = RUNNING_T" by (auto simp: runs_def)
  then show ?thesis using used_context [OF I(1) \<open>t < numCores s\<close> v(1)] t by auto
qed

theorem sched_progress_witness:
  "\<exists>s. 2 \<in> set (runQueue s) \<and> (\<exists>v \<in> gidMap s. tstate s v = RUNNING_T \<and> st (s_bar s) (th_cid (threads s v)) = RUNNING)"
proof -
  obtain s pc where r: "sched_reach 1 1 s pc" "2 \<in> set (runQueue s)" "at_work s pc 1" using run_state [OF two_threads_run] by blast
  show ?thesis using sched_progress [OF r(1), of 1] r(2,3) by (auto simp: at_work_def MAX_THREADS_def)
qed

subsection \<open>Fake leaves\<close>

text \<open>
  C21. A system call that the scheduler expects to be short does not take its thread out of the
  simulation: when the thread comes back, the scheduler is in the state it was in before.
\<close>

theorem fake_leave_roundtrip:
  assumes "g \<in> gidMap s" and "fakeLeave (threads s g) = None" and "g \<notin> set (fakeLeaves s)" and "fj_action (threads s g) = FJA_NONE"
    and "\<not> blockingSyscalls s (unat (getPid (of_nat g))) p" and "\<not> markedForSleep (threads s g)" and "syscallLeave g c p s = Inr s'"
  shows "s' \<noteq> s \<and> tstate s' g = RUNNING_T \<and> s_bar s' = s_bar s \<and> sched_join b g s' = Inr s"
proof -
  obtain g' where g': "curThread (contexts s c) = Some g'"
    using assms(7) by (cases "curThread (contexts s c)") (simp_all add: syscallLeave_def)
  let ?s = "upd_thread g (\<lambda>t. t\<lparr>fakeLeave := Some p\<rparr>) (s\<lparr>fakeLeaves := fakeLeaves s @ [g]\<rparr>)"
  have "assert_then (tstate s g = RUNNING_T) (assert_then (unat (getPid (of_nat g)) < MAX_THREADS) (Inr ?s)) = (Inr s' :: sched res)"
    using assms(7) g' by (simp only: syscallLeave_def option.case assert_then_eq_Inr_iff Let_def)
      (simp only: assms(2,5,6) if_False simp_thms assert_then_simps)
  then have r: "tstate s g = RUNNING_T" and e: "?s = s'" by (simp_all only: assert_then_eq_Inr_iff sum.inject)
  note s' = e [symmetric]
  have "fakeLeave (threads s' g) = Some p" by (simp add: s')
  then have "s' \<noteq> s" using assms(2) by auto
  moreover have "sched_join b g s' = Inr s"
  proof -
    have rm: "remove1 g (fakeLeaves s @ [g]) = fakeLeaves s" using assms(3) by (simp add: remove1_append)
    have th: "(threads s g)\<lparr>fakeLeave := None\<rparr> = threads s g" using assms(2) by (cases "threads s g") simp
    show ?thesis using assms(1,4) r rm th
      by (simp add: s' sched_join_def futex_join_def finishFakeLeave_def q_remove_def) (simp add: upd_thread_def fun_upd_idem)
  qed
  ultimately show ?thesis using r by (simp add: s')
qed

lemma faking_run: "case run_ops [StartT 1 (\<lambda>_. True), JoinT 1] (fresh_sched 1) (\<lambda>_. Away) of None \<Rightarrow> False
  | Some (s, pc) \<Rightarrow> 1 \<in> gidMap s \<and> fakeLeave (threads s 1) = None \<and> 1 \<notin> set (fakeLeaves s)
     \<and> fj_action (threads s 1) = FJA_NONE \<and> \<not> blockingSyscalls s (unat (getPid (of_nat 1))) 7
     \<and> \<not> markedForSleep (threads s 1) \<and> (case syscallLeave 1 0 7 s of Inl e \<Rightarrow> False | Inr s' \<Rightarrow> True)"
  by code_simp

theorem fake_leave_roundtrip_witness:
  "\<exists>s s'. syscallLeave 1 0 7 s = Inr s' \<and> sched_join False 1 s' = Inr s"
proof -
  obtain s pc where r: "1 \<in> gidMap s" "fakeLeave (threads s 1) = None" "1 \<notin> set (fakeLeaves s)"
    "fj_action (threads s 1) = FJA_NONE" "\<not> blockingSyscalls s (unat (getPid (of_nat 1))) 7" "\<not> markedForSleep (threads s 1)"
    "case syscallLeave 1 0 7 s of Inl e \<Rightarrow> False | Inr s' \<Rightarrow> True"
    using run_state [OF faking_run] by blast
  obtain s' where s': "syscallLeave 1 0 7 s = Inr s'" using r(7) by (auto split: sum.splits)
  show ?thesis using fake_leave_roundtrip [OF r(1-6) s'] s' by blast
qed

subsection \<open>Processes\<close>


lemma cleanup_run: "case run_ops one_sleeper (fresh_sched 1) (\<lambda>_. Away) of None \<Rightarrow> False
  | Some (s, pc) \<Rightarrow> sleepQueue s = [1] \<and> gidMap s = {1} \<and> pc 1 = Away"
  by code_simp



text \<open>
  The watchdog's loop over the fake leaves compares the process of the thread it has just
  made leave, not of the next one: a thread of another process that waits at the same pc is
  made to leave under the wrong gid, which fails.
\<close>

lemma gid_pid:
  fixes pid :: u32
  assumes "pid < 2 ^ 16"
  shows "getPid (getGid pid (getTid x)) = pid"
proof (rule bit_word_eqI)
  fix n :: nat
  have "unat pid < 2 ^ 16" using assms by (simp add: word_less_nat_alt)
  then have t: "take_bit 16 (unat pid) = unat pid" by (rule take_bit_nat_eq_self)
  have "n < 16" if "bit pid n"
  proof -
    have "bit (unat pid) n" using that by (simp add: bit_unsigned_iff)
    then have "bit (take_bit 16 (unat pid)) n" by (simp only: t)
    then show ?thesis by (simp add: bit_take_bit_iff)
  qed
  moreover have "\<not> bit (0x0FFFF :: u32) (n + 16)"
  proof -
    have m: "(0x0FFFF :: u32) = mask 16" by (simp add: mask_eq_exp_minus_1)
    have "\<not> n + 16 < 16" by simp
    then show ?thesis unfolding m bit_mask_iff by blast
  qed
  ultimately show "bit (getPid (getGid pid (getTid x))) n = bit pid n"
    by (auto simp: getPid_def getGid_def getTid_def bit_simps ac_simps)
qed

theorem watchdog_wrong_process:
  assumes "getPid (of_nat g) = pid" and "fakeLeaves s = g' # q" and "fakeLeave (threads s g') = Some pc"
    and "getPid (of_nat g') \<noteq> pid" and "g' < 2 ^ 32" and "pid < 2 ^ 16"
    and "curThread (contexts s (th_cid (threads s g'))) = Some g'"
  shows "desync_next pid pc g s = Some g' \<and> desync_step pid g' s = Inl AssertFail"
proof
  show "desync_next pid pc g s = Some g'" using assms(1-3) by (simp add: desync_next_def)
  have "unat (getGid pid (getTid (of_nat g'))) \<noteq> g'"
  proof
    assume e: "unat (getGid pid (getTid (of_nat g'))) = g'"
    have "of_nat (unat (getGid pid (getTid (of_nat g')))) = getGid pid (getTid (of_nat g'))" by simp
    then have "getPid (of_nat g') = getPid (getGid pid (getTid (of_nat g')))" unfolding e by simp
    then show False using gid_pid [OF assms(6)] assms(4) by simp
  qed
  then show "desync_step pid g' s = Inl AssertFail"
    using assms(2,3,7) by (auto simp: desync_step_def finishFakeLeave_def q_remove_def sched_leave_def assert_then_def)
qed

end
