(* ===== verification/OooStructs.thy ===== *)
theory OooStructs
  imports ZPrelude
begin

unbundle bit_operations_syntax

section \<open>The structures of the out-of-order core\<close>

text \<open>
  The branch predictor, the instruction window, the reorder buffer and the queue of cycles of
  ooo_core.h. Their template parameters are arguments. Cycles are natural numbers (64 bits do
  not overflow in a simulation), the 32-bit positions that the window computes from them are
  reduced as the code does; arrays are functions of the index.
\<close>

subsection \<open>Branch predictor\<close>

record branch_pred =
  bhsr :: "nat \<Rightarrow> u32"
  pht :: "nat \<Rightarrow> u8"
  useA2 :: bool

definition bp_init :: branch_pred where
  "bp_init = \<lparr>bhsr = (\<lambda>_. 0), pht = (\<lambda>_. 1), useA2 = True\<rparr>"

definition bp_useA3 :: "branch_pred \<Rightarrow> branch_pred" where
  "bp_useA3 b = b\<lparr>useA2 := False\<rparr>"

text \<open>The slots of a branch: its history register, and the counter its history selects.\<close>

definition bp_slot :: "nat \<Rightarrow> u64 \<Rightarrow> nat" where
  "bp_slot nb pc = unat ((ucast (drop_bit 1 pc) :: u32) AND (push_bit nb 1 - 1))"

definition pht_slot :: "nat \<Rightarrow> nat \<Rightarrow> u32 \<Rightarrow> nat" where
  "pht_slot hb lb h = (let phtMask = push_bit lb 1 - 1 :: u32
     in unat ((h XOR drop_bit (hb - lb) (h AND NOT phtMask)) AND phtMask))"

text \<open>The two automata of a two-bit counter.\<close>

definition a2_next :: "bool \<Rightarrow> u8 \<Rightarrow> u8" where
  "a2_next taken c = (let pred = 1 < c in if taken then (if pred then 3 else c + 1) else (if pred then c - 1 else 0))"

definition a3_next :: "bool \<Rightarrow> u8 \<Rightarrow> u8" where
  "a3_next taken c = (let pred = 1 < c in
     if taken then (if pred then 3 else if c = 1 then 3 else c + 1)
     else (if pred then (if c = 2 then 0 else c - 1) else 0))"

definition shift_in :: "nat \<Rightarrow> bool \<Rightarrow> u32 \<Rightarrow> u32" where
  "shift_in hb taken h = (push_bit 1 h AND (push_bit hb 1 - 1)) OR (if taken then 1 else 0)"

definition bp_predict :: "nat \<Rightarrow> nat \<Rightarrow> nat \<Rightarrow> u64 \<Rightarrow> bool \<Rightarrow> branch_pred \<Rightarrow> bool \<times> branch_pred" where
  "bp_predict nb hb lb pc taken b =
     (let i = bp_slot nb pc; j = pht_slot hb lb (bhsr b i); pred = 1 < pht b j
      in (taken = pred,
          b\<lparr>pht := (pht b)(j := (if useA2 b then a2_next taken (pht b j) else a3_next taken (pht b j))),
            bhsr := (bhsr b)(i := shift_in hb taken (bhsr b i))\<rparr>))"

subsection \<open>Reorder buffer and cycle queue\<close>

record rob =
  rob_buf :: "nat \<Rightarrow> nat"
  curRetireCycle :: nat
  curCycleRetires :: nat
  rob_idx :: nat

definition rob_init :: rob where
  "rob_init = \<lparr>rob_buf = (\<lambda>_. 0), curRetireCycle = 0, curCycleRetires = 1, rob_idx = 0\<rparr>"

definition minAllocCycle :: "rob \<Rightarrow> nat" where
  "minAllocCycle r = rob_buf r (rob_idx r)"

definition markRetire :: "nat \<Rightarrow> nat \<Rightarrow> nat \<Rightarrow> rob \<Rightarrow> rob" where
  "markRetire sz w minRetireCycle r =
     (let r1 = (if minRetireCycle \<le> curRetireCycle r
                then if curCycleRetires r = w then r\<lparr>curRetireCycle := curRetireCycle r + 1, curCycleRetires := 0\<rparr>
                     else r\<lparr>curCycleRetires := curCycleRetires r + 1\<rparr>
                else r\<lparr>curRetireCycle := minRetireCycle, curCycleRetires := 1\<rparr>)
      in r1\<lparr>rob_buf := (rob_buf r)(rob_idx r := curRetireCycle r1),
            rob_idx := (if rob_idx r + 1 = sz then 0 else rob_idx r + 1)\<rparr>)"

record cycle_queue =
  cq_buf :: "nat \<Rightarrow> nat"
  cq_idx :: nat

definition cq_init :: cycle_queue where "cq_init = \<lparr>cq_buf = (\<lambda>_. 0), cq_idx = 0\<rparr>"

definition cq_minAllocCycle :: "cycle_queue \<Rightarrow> nat" where "cq_minAllocCycle q = cq_buf q (cq_idx q)"

definition markLeave :: "nat \<Rightarrow> nat \<Rightarrow> cycle_queue \<Rightarrow> cycle_queue" where
  "markLeave sz c q = q\<lparr>cq_buf := (cq_buf q)(cq_idx q := c), cq_idx := (if cq_idx q + 1 = sz then 0 else cq_idx q + 1)\<rparr>"

subsection \<open>Instruction window\<close>

record win_cycle =
  occUnits :: u8
  wc_count :: nat

definition no_uops :: win_cycle where "no_uops = \<lparr>occUnits = 0, wc_count = 0\<rparr>"

record window =
  curWin :: "nat \<Rightarrow> win_cycle"
  nextWin :: "nat \<Rightarrow> win_cycle"
  ubWin :: "(nat \<times> win_cycle) list"
  occupancy :: nat
  curPos :: nat
  lastPort :: nat

definition win_init :: window where
  "win_init = \<lparr>curWin = (\<lambda>_. no_uops), nextWin = (\<lambda>_. no_uops), ubWin = [], occupancy = 0, curPos = 0, lastPort = 0\<rparr>"

definition u32_sub :: "nat \<Rightarrow> nat \<Rightarrow> nat" where
  "u32_sub a b = nat ((int a - int b) mod 2 ^ 32)"

text \<open>The elements that come into the range of the next window when the windows are rebased.\<close>

fun rebase_ub :: "nat \<Rightarrow> nat \<Rightarrow> (nat \<times> win_cycle) list \<Rightarrow> (nat \<Rightarrow> win_cycle)
    \<Rightarrow> ((nat \<times> win_cycle) list \<times> (nat \<Rightarrow> win_cycle)) res" where
  "rebase_ub H c [] nw = Inr ([], nw)"
| "rebase_ub H c ((k, wc) # q) nw = (if k < c + 2 * H
     then let p = u32_sub (k mod 2 ^ 32) (H + c) in assert_then (p < H) (rebase_ub H c q (nw(p := wc)))
     else Inr ((k, wc) # q, nw))"

definition advancePos :: "nat \<Rightarrow> window \<times> nat \<Rightarrow> (window \<times> nat) res" where
  "advancePos H wc = (case wc of (w, c) \<Rightarrow>
     let w1 = w\<lparr>occupancy := u32_sub (occupancy w) (wc_count (curWin w (curPos w))),
                curWin := (curWin w)(curPos w := no_uops), curPos := curPos w + 1\<rparr>
     in if curPos w1 = H
        then rbind (rebase_ub H (c + 1) (ubWin w1) (curWin w1)) (\<lambda>(ub, nw).
               Inr (w1\<lparr>curWin := nextWin w1, nextWin := nw, ubWin := ub, curPos := 0\<rparr>, c + 1))
        else Inr (w1, c + 1))"

text \<open>An attempt to take a unit of a cycle; one that fails changes nothing.\<close>

definition avail :: "u8 \<Rightarrow> win_cycle \<Rightarrow> u8" where
  "avail portMask x = NOT (occUnits x) AND portMask"

definition first_port :: "u8 \<Rightarrow> nat" where
  "first_port m = (case List.find (bit m) [0..<8] of Some i \<Rightarrow> i | None \<Rightarrow> 0)"

definition take_unit :: "bool \<Rightarrow> u8 \<Rightarrow> win_cycle \<Rightarrow> win_cycle" where
  "take_unit touch portMask x = (if touch
     then x\<lparr>occUnits := occUnits x OR push_bit (first_port (avail portMask x)) 1, wc_count := wc_count x + 1\<rparr>
     else x\<lparr>occUnits := occUnits x OR portMask\<rparr>)"

definition record_port :: "bool \<Rightarrow> u8 \<Rightarrow> win_cycle \<Rightarrow> window \<Rightarrow> window" where
  "record_port recordPort portMask x w = (if recordPort then w\<lparr>lastPort := first_port (avail portMask x)\<rparr> else w)"

text \<open>The unbounded window: from the first element that is not before the cycle on.\<close>

fun ub_take :: "bool \<Rightarrow> u8 \<Rightarrow> nat \<Rightarrow> (nat \<times> win_cycle) list \<Rightarrow> nat \<times> win_cycle \<times> (nat \<times> win_cycle) list" where
  "ub_take touch m c [] = (c, no_uops, [(c, take_unit touch m no_uops)])"
| "ub_take touch m c ((k, x) # q) =
     (if k < c then (case ub_take touch m c q of (c', x', q') \<Rightarrow> (c', x', (k, x) # q'))
      else if k \<noteq> c then (c, no_uops, (c, take_unit touch m no_uops) # (k, x) # q)
      else if avail m x \<noteq> 0 then (c, x, (c, take_unit touch m x) # q)
      else (case ub_take touch m (c + 1) q of (c', x', q') \<Rightarrow> (c', x', (k, x) # q')))"

definition place_uop :: "nat \<Rightarrow> bool \<Rightarrow> bool \<Rightarrow> u8 \<Rightarrow> nat \<Rightarrow> window \<times> nat \<Rightarrow> (window \<times> nat) res" where
  "place_uop H touch recordPort m schedCycle wc = (case wc of (w, c) \<Rightarrow>
     let delay = (if c < schedCycle then (schedCycle - c) mod 2 ^ 32 else 0); p = (curPos w + delay) mod 2 ^ 32
     in case List.find (\<lambda>i. avail m (curWin w i) \<noteq> 0) [p..<H] of
       Some i \<Rightarrow> Inr (record_port recordPort m (curWin w i) (w\<lparr>curWin := (curWin w)(i := take_unit touch m (curWin w i))\<rparr>),
                     c + (i - curPos w))
     | None \<Rightarrow> let n = max p H - H in
        (case List.find (\<lambda>i. avail m (nextWin w i) \<noteq> 0) [n..<H] of
          Some i \<Rightarrow> Inr (record_port recordPort m (nextWin w i) (w\<lparr>nextWin := (nextWin w)(i := take_unit touch m (nextWin w i))\<rparr>),
                        c + (i + H - curPos w))
        | None \<Rightarrow> assert_then (m \<noteq> 0) (case ub_take touch m (c + (max n H + H - curPos w)) (ubWin w) of (c', x, ub) \<Rightarrow>
             Inr (record_port recordPort m x (w\<lparr>ubWin := ub\<rparr>), c'))))"

text \<open>The window advances while it is full, which need not end.\<close>

partial_function (option) win_drain :: "nat \<Rightarrow> nat \<Rightarrow> window \<times> nat \<Rightarrow> (window \<times> nat) res option" where
  "win_drain H wsz wc = (if occupancy (fst wc) = wsz
     then (case advancePos H wc of Inl e \<Rightarrow> Some (Inl e) | Inr wc' \<Rightarrow> win_drain H wsz wc')
     else Some (Inr wc))"

definition no_return :: "'a res option \<Rightarrow> 'a res" where
  "no_return x = (case x of None \<Rightarrow> Inl NoReturn | Some r \<Rightarrow> r)"

text \<open>The result is the window, the current cycle and the cycle of the micro-op.\<close>

definition scheduleInternal :: "nat \<Rightarrow> nat \<Rightarrow> bool \<Rightarrow> bool \<Rightarrow> u8 \<Rightarrow> nat \<Rightarrow> window \<times> nat \<Rightarrow> ((window \<times> nat) \<times> nat) res" where
  "scheduleInternal H wsz touch recordPort m schedCycle wc =
     rbind (if touch then no_return (win_drain H wsz wc) else Inr wc) (\<lambda>(w, c).
       rbind (place_uop H touch recordPort m schedCycle (w, c)) (\<lambda>(w1, s).
         Inr ((if touch then w1\<lparr>occupancy := occupancy w1 + 1\<rparr> else w1, c), s)))"

fun extra_slots :: "nat \<Rightarrow> nat \<Rightarrow> nat \<Rightarrow> u8 \<Rightarrow> nat \<Rightarrow> window \<times> nat \<Rightarrow> (window \<times> nat) res" where
  "extra_slots H wsz 0 m s wc = Inr wc"
| "extra_slots H wsz (Suc n) m s wc =
     rbind (scheduleInternal H wsz False False m s wc) (\<lambda>(wc', s'). extra_slots H wsz n m (s' + 1) wc')"

definition win_schedule :: "nat \<Rightarrow> nat \<Rightarrow> nat \<Rightarrow> u8 \<Rightarrow> nat \<Rightarrow> window \<times> nat \<Rightarrow> ((window \<times> nat) \<times> nat) res" where
  "win_schedule H wsz extraSlots m schedCycle wc =
     rbind (if extraSlots = 0 then scheduleInternal H wsz True False m schedCycle wc
            else rbind (scheduleInternal H wsz True True m schedCycle wc) (\<lambda>(wc1, s).
              rbind (extra_slots H wsz extraSlots (push_bit (lastPort (fst wc1)) 1) (s + 1) wc1) (\<lambda>wc2. Inr (wc2, s))))
       (\<lambda>(wc', s). assert_then (occupancy (fst wc') \<le> wsz) (Inr (wc', s)))"

fun win_advance :: "nat \<Rightarrow> nat \<Rightarrow> window \<times> nat \<Rightarrow> (window \<times> nat) res" where
  "win_advance H 0 wc = Inr wc"
| "win_advance H (Suc n) wc = rbind (advancePos H wc) (win_advance H n)"

text \<open>The loop of \<open>longAdvance\<close>; each turn is one cycle, so \<open>targetCycle - curCycle\<close> turns are enough.\<close>

fun win_empty :: "nat \<Rightarrow> nat \<Rightarrow> window \<times> nat \<Rightarrow> (window \<times> nat) res" where
  "win_empty H 0 wc = Inr wc"
| "win_empty H (Suc n) wc = (if occupancy (fst wc) = 0 then Inr wc else rbind (advancePos H wc) (win_empty H n))"

definition longAdvance :: "nat \<Rightarrow> nat \<Rightarrow> window \<times> nat \<Rightarrow> (window \<times> nat) res" where
  "longAdvance H target wc = assert_then (snd wc \<le> target)
     (rbind (win_empty H (target - snd wc) wc) (\<lambda>(w, c).
       if occupancy w \<noteq> 0 then assert_then (c = target) (Inr (w, c))
       else assert_then (c \<le> target) (Inr (w, target))))"


text \<open>A range of cycles is poisoned; a cycle that was taken is tried again and then passed.\<close>

partial_function (option) win_poison :: "nat \<Rightarrow> nat \<Rightarrow> u8 \<Rightarrow> nat \<Rightarrow> nat \<Rightarrow> window \<times> nat \<Rightarrow> (window \<times> nat) res option" where
  "win_poison H wsz m target p wc = (if p < target
     then (case scheduleInternal H wsz False False m p wc of Inl e \<Rightarrow> Some (Inl e)
           | Inr (wc', p') \<Rightarrow> win_poison H wsz m target p' wc')
     else Some (Inr wc))"

definition poisonRange :: "nat \<Rightarrow> nat \<Rightarrow> u8 \<Rightarrow> nat \<Rightarrow> window \<times> nat \<Rightarrow> (window \<times> nat) res" where
  "poisonRange H wsz m target wc = rbind (no_return (win_poison H wsz m target (snd wc) wc)) (\<lambda>wc'.
     assert_then (snd wc = snd wc') (Inr wc'))"

subsection \<open>The window as a timetable\<close>

text \<open>What is taken at a cycle, wherever the window keeps it.\<close>

definition ub_at :: "(nat \<times> win_cycle) list \<Rightarrow> nat \<Rightarrow> win_cycle" where
  "ub_at q t = (case map_of q t of Some x \<Rightarrow> x | None \<Rightarrow> no_uops)"

definition slot :: "nat \<Rightarrow> window \<times> nat \<Rightarrow> nat \<Rightarrow> win_cycle" where
  "slot H wc t = (case wc of (w, c) \<Rightarrow> let p = curPos w + (t - c) in
     if p < H then curWin w p else if p < 2 * H then nextWin w (p - H) else ub_at (ubWin w) t)"

definition win_ok :: "nat \<Rightarrow> window \<times> nat \<Rightarrow> bool" where
  "win_ok H wc \<longleftrightarrow> (case wc of (w, c) \<Rightarrow> curPos w < H \<and> curPos w \<le> c \<and> 2 * H < 2 ^ 32
     \<and> (\<forall>p<curPos w. curWin w p = no_uops) \<and> sorted_wrt (<) (map fst (ubWin w))
     \<and> (\<forall>k \<in> fst ` set (ubWin w). c + 2 * H \<le> k + curPos w))"

lemma ub_at_simps [simp]:
  "ub_at [] t = no_uops"
  "ub_at ((k, x) # q) t = (if t = k then x else ub_at q t)"
  by (simp_all add: ub_at_def)

lemma ub_at_absent: "t \<notin> fst ` set q \<Longrightarrow> ub_at q t = no_uops"
  by (simp add: ub_at_def map_of_eq_None_iff [THEN iffD2])

lemma avail_no_uops [simp]: "avail m no_uops = m"
  by (simp add: avail_def no_uops_def)

lemma ub_take_correct:
  assumes "ub_take touch m c q = (c', x, q')" and "sorted_wrt (<) (map fst q)" and "m \<noteq> 0"
  shows "c \<le> c' \<and> avail m x \<noteq> 0 \<and> x = ub_at q c' \<and> (\<forall>t. c \<le> t \<and> t < c' \<longrightarrow> avail m (ub_at q t) = 0)
    \<and> sorted_wrt (<) (map fst q') \<and> fst ` set q' = insert c' (fst ` set q) \<and> (\<forall>t. ub_at q' t = (if t = c' then take_unit touch m x else ub_at q t))"
  using assms
proof (induction touch m c q arbitrary: c' x q' rule: ub_take.induct)
  case (1 touch m c)
  then show ?case by auto
next
  case (2 touch m c k y q)
  have s: "sorted_wrt (<) (map fst q)" "\<forall>j \<in> fst ` set q. k < j" using "2.prems"(2) by auto
  have out: "ub_at q t = no_uops" if "t \<le> k" for t using s(2) that by (intro ub_at_absent) auto
  consider "k < c" | "c < k" | "k = c" "avail m y \<noteq> 0" | "k = c" "avail m y = 0" by linarith
  then show ?case
  proof cases
    case 1
    obtain c1 x1 q1 where r: "ub_take touch m c q = (c1, x1, q1)" by (metis prod_cases3)
    have e: "c' = c1" "x = x1" "q' = (k, y) # q1" using "2.prems"(1) 1 r by simp_all
    note IH = "2.IH"(1) [OF 1 r s(1) "2.prems"(3)]
    have lt: "\<forall>j \<in> fst ` set q1. k < j" using IH s(2) 1 by auto
    then show ?thesis using IH 1 e by auto
  next
    case 2
    then have e: "c' = c" "x = no_uops" "q' = (c, take_unit touch m no_uops) # (k, y) # q" using "2.prems"(1) by auto
    then show ?thesis using "2.prems"(3) 2 s out [of c] by auto
  next
    case 3
    then have e: "c' = c" "x = y" "q' = (c, take_unit touch m y) # q" using "2.prems"(1) by auto
    then show ?thesis using 3 s by auto
  next
    case 4
    obtain c1 x1 q1 where r: "ub_take touch m (c + 1) q = (c1, x1, q1)" by (metis prod_cases3)
    have e: "c' = c1" "x = x1" "q' = (k, y) # q1" using "2.prems"(1) 4 r by simp_all
    have n: "\<not> k < c" "\<not> k \<noteq> c" "\<not> avail m y \<noteq> 0" using 4 by auto
    note J = "2.IH"(2) [OF n r s(1) "2.prems"(3)]
    have I: "c + 1 \<le> c1" "avail m x1 \<noteq> 0" "x1 = ub_at q c1" "\<forall>t. c + 1 \<le> t \<and> t < c1 \<longrightarrow> avail m (ub_at q t) = 0"
      "sorted_wrt (<) (map fst q1)" "fst ` set q1 = insert c1 (fst ` set q)"
      "\<forall>t. ub_at q1 t = (if t = c1 then take_unit touch m x1 else ub_at q t)" using J by blast+
    have lt: "\<forall>j \<in> fst ` set q1. k < j" using I(1,6) s(2) 4 by auto
    have "avail m (ub_at ((k, y) # q) t) = 0" if "c \<le> t" "t < c1" for t using that I(4) 4 by (cases "t = c") auto
    moreover have "sorted_wrt (<) (map fst ((k, y) # q1))" using I(5) lt by auto
    moreover have "fst ` set ((k, y) # q1) = insert c1 (fst ` set ((k, y) # q))" using I(6) by auto
    moreover have "\<forall>t. ub_at ((k, y) # q1) t = (if t = c1 then take_unit touch m x1 else ub_at ((k, y) # q) t)"
      using I(1,7) 4(1) by simp
    moreover have "x1 = ub_at ((k, y) # q) c1" using I(1,3) 4(1) by simp
    ultimately show ?thesis unfolding e using I(1,2) by simp
  qed
qed

lemma rebase_ub_correct:
  assumes "sorted_wrt (<) (map fst q)" and "\<forall>k \<in> fst ` set q. c + H \<le> k" and "2 * H < 2 ^ 32"
  shows "\<exists>q' nw'. rebase_ub H c q nw = Inr (q', nw') \<and> sorted_wrt (<) (map fst q') \<and> (\<forall>k \<in> fst ` set q'. c + 2 * H \<le> k)
    \<and> (\<forall>p<H. nw' p = (if p + H + c \<in> fst ` set q then ub_at q (p + H + c) else nw p))
    \<and> (\<forall>t. c + 2 * H \<le> t \<longrightarrow> ub_at q' t = ub_at q t)"
  using assms
proof (induction q arbitrary: nw)
  case Nil
  then show ?case by simp
next
  case (Cons kx q)
  obtain k x where kx: "kx = (k, x)" by fastforce
  have s: "sorted_wrt (<) (map fst q)" "\<forall>j \<in> fst ` set q. k < j" using Cons.prems(1) kx by auto
  show ?case
  proof (cases "k < c + 2 * H")
    case True
    have le: "c + H \<le> k" using Cons.prems(2) kx by simp
    have p: "u32_sub (k mod 2 ^ 32) (H + c) = k - H - c"
    proof -
      have "int (u32_sub (k mod 2 ^ 32) (H + c)) = (int k - int (H + c)) mod 2 ^ 32"
        by (simp add: u32_sub_def zmod_int mod_diff_left_eq)
      also have "\<dots> = int (k - H - c) mod 2 ^ 32" using le by (simp add: of_nat_diff)
      also have "\<dots> = int (k - H - c)" using True Cons.prems(3) by simp
      finally show ?thesis by simp
    qed
    have lt: "k - H - c < H" using True le by simp
    have ge: "\<forall>j \<in> fst ` set q. c + H \<le> j" using Cons.prems(2) by auto
    from Cons.IH [OF s(1) ge Cons.prems(3), of "nw(k - H - c := x)"] obtain q' nw' where IH: "rebase_ub H c q (nw(k - H - c := x)) = Inr (q', nw')" "sorted_wrt (<) (map fst q')"
      "\<forall>k \<in> fst ` set q'. c + 2 * H \<le> k"
      "\<forall>p<H. nw' p = (if p + H + c \<in> fst ` set q then ub_at q (p + H + c) else (nw(k - H - c := x)) p)"
      "\<forall>t. c + 2 * H \<le> t \<longrightarrow> ub_at q' t = ub_at q t"
      by blast
    have "nw' p' = (if p' + H + c \<in> fst ` set (kx # q) then ub_at (kx # q) (p' + H + c) else nw p')" if "p' < H" for p'
    proof (cases "p' = k - H - c")
      case True
      then have "p' + H + c = k" using le by simp
      moreover have "k \<notin> fst ` set q" using s(2) by auto
      ultimately show ?thesis using IH(4) that True kx by simp
    next
      case False
      then have "p' + H + c \<noteq> k" by auto
      then show ?thesis using IH(4) that False kx by simp
    qed
    moreover have "rebase_ub H c (kx # q) nw = Inr (q', nw')" using True p lt IH(1) kx by simp
    moreover have "\<forall>t. c + 2 * H \<le> t \<longrightarrow> ub_at q' t = ub_at (kx # q) t" using IH(5) True kx by simp
    ultimately show ?thesis using IH(2,3) by blast
  next
    case False
    then have "\<forall>j \<in> fst ` set (kx # q). c + 2 * H \<le> j" using s(2) kx by fastforce
    moreover have "nw p = (if p + H + c \<in> fst ` set (kx # q) then ub_at (kx # q) (p + H + c) else nw p)" if "p < H" for p
      using calculation that by fastforce
    ultimately show ?thesis using False Cons.prems(1) kx by simp
  qed
qed

text \<open>Time goes on without a change of what is taken in the cycles to come.\<close>

lemma advance_correct:
  assumes ok: "win_ok H (w, c)"
  shows "\<exists>w'. advancePos H (w, c) = Inr (w', c + 1) \<and> win_ok H (w', c + 1)
    \<and> occupancy w' = u32_sub (occupancy w) (wc_count (slot H (w, c) c))
    \<and> (\<forall>t\<ge>c + 1. slot H (w', c + 1) t = slot H (w, c) t)"
proof -
  have o: "curPos w < H" "curPos w \<le> c" "2 * H < 2 ^ 32" "\<forall>p<curPos w. curWin w p = no_uops"
    "sorted_wrt (<) (map fst (ubWin w))" "\<forall>k \<in> fst ` set (ubWin w). c + 2 * H \<le> k + curPos w"
    using ok by (simp_all add: win_ok_def)
  define w1 where "w1 = w\<lparr>occupancy := u32_sub (occupancy w) (wc_count (curWin w (curPos w))),
    curWin := (curWin w)(curPos w := no_uops), curPos := curPos w + 1\<rparr>"
  have now: "slot H (w, c) c = curWin w (curPos w)" using o(1) by (simp add: slot_def)
  show ?thesis
  proof (cases "curPos w + 1 = H")
    case False
    then have e: "advancePos H (w, c) = Inr (w1, c + 1)" by (simp add: advancePos_def w1_def Let_def)
    have "win_ok H (w1, c + 1)" using o False by (auto simp: win_ok_def w1_def less_Suc_eq)
    moreover have "slot H (w1, c + 1) t = slot H (w, c) t" if t: "c + 1 \<le> t" for t
    proof -
      have "curPos w1 + (t - (c + 1)) = curPos w + (t - c)" using t by (simp add: w1_def)
      moreover have "curPos w < curPos w + (t - c)" using t by simp
      ultimately show ?thesis by (simp add: slot_def Let_def) (simp add: w1_def)
    qed
    ultimately show ?thesis using e now by (simp add: w1_def)
  next
    case True
    have z: "curWin w1 p = no_uops" if "p < H" for p using o(4) that True by (cases "p = curPos w") (auto simp: w1_def)
    have ge: "\<forall>k \<in> fst ` set (ubWin w1). c + 1 + H \<le> k" using o(2,6) True by (fastforce simp: w1_def)
    have so: "sorted_wrt (<) (map fst (ubWin w1))" using o(5) by (simp add: w1_def)
    from rebase_ub_correct [OF so ge o(3), of "curWin w1"] obtain q nw where
      r: "rebase_ub H (c + 1) (ubWin w1) (curWin w1) = Inr (q, nw)" "sorted_wrt (<) (map fst q)"
        "\<forall>k \<in> fst ` set q. c + 1 + 2 * H \<le> k"
        "\<forall>p<H. nw p = (if p + H + (c + 1) \<in> fst ` set (ubWin w1) then ub_at (ubWin w1) (p + H + (c + 1)) else curWin w1 p)"
        "\<forall>t. c + 1 + 2 * H \<le> t \<longrightarrow> ub_at q t = ub_at (ubWin w1) t" by blast
    define w' where "w' = w1\<lparr>curWin := nextWin w1, nextWin := nw, ubWin := q, curPos := 0\<rparr>"
    have e: "advancePos H (w, c) = Inr (w', c + 1)"
      using True r(1) by (simp add: advancePos_def w1_def [symmetric] Let_def) (simp add: w1_def w'_def)
    have "win_ok H (w', c + 1)" using r(2,3) o(1,3) by (simp add: win_ok_def w'_def)
    moreover have "slot H (w', c + 1) t = slot H (w, c) t" if t: "c + 1 \<le> t" for t
    proof -
      define d where "d = t - (c + 1)"
      have p: "curPos w + (t - c) = H + d" using t True by (simp add: d_def)
      have te: "t = d + (c + 1)" using t by (simp add: d_def)
      have old: "slot H (w, c) t = (if d < H then nextWin w d else ub_at (ubWin w) t)"
        unfolding slot_def Let_def prod.case p by simp
      have new: "slot H (w', c + 1) t = (if d < H then nextWin w d else if d < 2 * H then nw (d - H) else ub_at q t)"
        by (simp add: slot_def Let_def w'_def w1_def d_def)
      consider "d < H" | "H \<le> d" "d < 2 * H" | "2 * H \<le> d" by linarith
      then show ?thesis
      proof cases
        case 2
        then have "d - H + H + (c + 1) = t" using te by simp
        moreover have "d - H < H" using 2 by simp
        ultimately have "nw (d - H) = (if t \<in> fst ` set (ubWin w1) then ub_at (ubWin w1) t else no_uops)"
          using r(4) z by metis
        then show ?thesis using old new 2 ub_at_absent [of t "ubWin w"] by (simp add: w1_def)
      qed (use old new r(5) te in \<open>auto simp: w1_def\<close>)
    qed
    ultimately show ?thesis using e now by (simp add: w'_def w1_def)
  qed
qed

lemma record_port_fields [simp]:
  "curWin (record_port r m x w) = curWin w" "nextWin (record_port r m x w) = nextWin w"
  "ubWin (record_port r m x w) = ubWin w" "curPos (record_port r m x w) = curPos w"
  "occupancy (record_port r m x w) = occupancy w"
  "lastPort (record_port r m x w) = (if r then first_port (avail m x) else lastPort w)"
  by (simp_all add: record_port_def)

text \<open>A micro-op takes the first cycle, from the requested one on, in which a unit of the mask is free.\<close>

lemma place_correct:
  assumes ok: "win_ok H (w, c)" and m: "m \<noteq> 0" and far: "sc + H < c + 2 ^ 32"
  shows "\<exists>w' s. place_uop H touch rp m sc (w, c) = Inr (w', s) \<and> win_ok H (w', c) \<and> occupancy w' = occupancy w
    \<and> max sc c \<le> s \<and> avail m (slot H (w, c) s) \<noteq> 0 \<and> (\<forall>t. max sc c \<le> t \<and> t < s \<longrightarrow> avail m (slot H (w, c) t) = 0)
    \<and> (\<forall>t\<ge>c. slot H (w', c) t = (if t = s then take_unit touch m (slot H (w, c) s) else slot H (w, c) t))
    \<and> lastPort w' = (if rp then first_port (avail m (slot H (w, c) s)) else lastPort w)"
proof -
  have o: "curPos w < H" "curPos w \<le> c" "2 * H < 2 ^ 32" "\<forall>p<curPos w. curWin w p = no_uops"
    "sorted_wrt (<) (map fst (ubWin w))" "\<forall>k \<in> fst ` set (ubWin w). c + 2 * H \<le> k + curPos w"
    using ok by (simp_all add: win_ok_def)
  define p where "p = curPos w + (max sc c - c)"
  have "(if c < sc then (sc - c) mod 2 ^ 32 else 0) = max sc c - c" using far by auto
  moreover have "p mod 2 ^ 32 = p" using far o(1,3) by (auto simp: p_def max_def)
  ultimately have pm: "(curPos w + (if c < sc then (sc - c) mod 2 ^ 32 else 0)) mod 2 ^ 32 = p" by (simp add: p_def)
  have place: "place_uop H touch rp m sc (w, c) = (case List.find (\<lambda>i. avail m (curWin w i) \<noteq> 0) [p..<H] of
       Some i \<Rightarrow> Inr (record_port rp m (curWin w i) (w\<lparr>curWin := (curWin w)(i := take_unit touch m (curWin w i))\<rparr>),
                     c + (i - curPos w))
     | None \<Rightarrow> (case List.find (\<lambda>i. avail m (nextWin w i) \<noteq> 0) [max p H - H..<H] of
          Some i \<Rightarrow> Inr (record_port rp m (nextWin w i) (w\<lparr>nextWin := (nextWin w)(i := take_unit touch m (nextWin w i))\<rparr>),
                        c + (i + H - curPos w))
        | None \<Rightarrow> assert_then (m \<noteq> 0) (case ub_take touch m (c + (max (max p H - H) H + H - curPos w)) (ubWin w) of (c', x, ub) \<Rightarrow>
             Inr (record_port rp m x (w\<lparr>ubWin := ub\<rparr>), c'))))"
    unfolding place_uop_def Let_def prod.case pm by (rule refl)
  let ?i = "\<lambda>t. curPos w + (t - c)"
  have ix: "p \<le> ?i t" if "max sc c \<le> t" for t
    using that unfolding p_def by (intro add_left_mono diff_le_mono)
  show ?thesis
  proof (cases "List.find (\<lambda>i. avail m (curWin w i) \<noteq> 0) [p..<H]")
    case (Some i)
    from find_upt_Some [OF Some] have i: "p \<le> i" "i < H" "avail m (curWin w i) \<noteq> 0" "\<And>j. p \<le> j \<Longrightarrow> j < i \<Longrightarrow> avail m (curWin w j) = 0"
      by auto
    define s where "s = c + (i - curPos w)"
    define w' where "w' = record_port rp m (curWin w i) (w\<lparr>curWin := (curWin w)(i := take_unit touch m (curWin w i))\<rparr>)"
    have ixs: "?i s = i" using i(1) by (simp add: s_def p_def)
    have "place_uop H touch rp m sc (w, c) = Inr (w', s)"
      using Some by (simp add: place w'_def s_def)
    moreover have "win_ok H (w', c)" using o i(1) by (auto simp: win_ok_def w'_def p_def)
    moreover have "max sc c \<le> s" using i(1) by (auto simp: s_def p_def)
    moreover have sl: "slot H (w, c) s = curWin w i" unfolding slot_def Let_def prod.case ixs using i(2) by simp
    moreover have "avail m (slot H (w, c) t) = 0" if t: "max sc c \<le> t" "t < s" for t
    proof -
      have "?i t < i" using t i(1) by (auto simp: s_def p_def)
      then show ?thesis using ix [OF t(1)] i(2,4) by (simp add: slot_def Let_def)
    qed
    moreover have "slot H (w', c) t = (if t = s then take_unit touch m (curWin w i) else slot H (w, c) t)" if t: "c \<le> t" for t
    proof -
      have "?i t = i \<longleftrightarrow> t = s" using t i(1) by (auto simp: s_def p_def)
      then show ?thesis using i(2) by (auto simp: slot_def Let_def w'_def)
    qed
    ultimately show ?thesis using i(3) by (intro exI [of _ w'] exI [of _ s]) (simp add: w'_def)
  next
    case N1: None
    have c0: "avail m (curWin w j) = 0" if "p \<le> j" "j < H" for j using that N1 by (auto simp: find_upt_None)
    define n where "n = max p H - H"
    show ?thesis
    proof (cases "List.find (\<lambda>i. avail m (nextWin w i) \<noteq> 0) [n..<H]")
      case (Some i)
      from find_upt_Some [OF Some] have i: "n \<le> i" "i < H" "avail m (nextWin w i) \<noteq> 0" "\<And>j. n \<le> j \<Longrightarrow> j < i \<Longrightarrow> avail m (nextWin w j) = 0"
        by auto
      define s where "s = c + (i + H - curPos w)"
      define w' where "w' = record_port rp m (nextWin w i) (w\<lparr>nextWin := (nextWin w)(i := take_unit touch m (nextWin w i))\<rparr>)"
      have ixs: "?i s = i + H" using o(1) by (simp add: s_def)
      have "place_uop H touch rp m sc (w, c) = Inr (w', s)"
        using N1 Some by (simp add: place w'_def s_def n_def)
      moreover have "win_ok H (w', c)" using o by (auto simp: win_ok_def w'_def)
      moreover have "max sc c \<le> s" using i(1) o(1) by (auto simp: s_def p_def n_def)
      moreover have sl: "slot H (w, c) s = nextWin w i" unfolding slot_def Let_def prod.case ixs using i(2) by simp
      moreover have "avail m (slot H (w, c) t) = 0" if t: "max sc c \<le> t" "t < s" for t
      proof -
        have lt: "?i t < i + H" using t o(1) by (auto simp: s_def)
        show ?thesis
        proof (cases "?i t < H")
          case True
          then show ?thesis using c0 [OF ix [OF t(1)]] by (simp add: slot_def Let_def)
        next
          case False
          have "n \<le> ?i t - H" using False ix [OF t(1)] by (auto simp: n_def)
          moreover have "?i t - H < i" using lt False by simp
          ultimately have "avail m (nextWin w (?i t - H)) = 0" using i(4) by blast
          then show ?thesis using False lt i(2) by (simp add: slot_def Let_def)
        qed
      qed
      moreover have "slot H (w', c) t = (if t = s then take_unit touch m (nextWin w i) else slot H (w, c) t)" if t: "c \<le> t" for t
      proof (cases "t = s")
        case True
        have it: "curPos w' + (s - c) = i + H" using ixs by (simp add: w'_def)
        have "slot H (w', c) s = take_unit touch m (nextWin w i)"
          unfolding slot_def Let_def prod.case it using i(2) by (simp add: w'_def)
        then show ?thesis using True by simp
      next
        case False
        have "?i t \<noteq> i + H"
        proof
          assume "?i t = i + H"
          then have "t = s" using t o(1) unfolding s_def by linarith
          then show False using False by simp
        qed
        then have "\<not> ?i t < H \<longrightarrow> ?i t - H \<noteq> i" by linarith
        then show ?thesis using False by (simp add: slot_def Let_def w'_def)
      qed
      ultimately show ?thesis using i(3) by (intro exI [of _ w'] exI [of _ s]) (simp add: w'_def)
    next
      case N2: None
      have c1: "avail m (nextWin w j) = 0" if "n \<le> j" "j < H" for j using that N2 by (auto simp: find_upt_None)
      define b where "b = c + (max n H + H - curPos w)"
      obtain s x q where u: "ub_take touch m b (ubWin w) = (s, x, q)" by (metis prod_cases3)
      from ub_take_correct [OF u o(5) m] have U: "b \<le> s" "avail m x \<noteq> 0" "x = ub_at (ubWin w) s"
        "\<And>t. b \<le> t \<Longrightarrow> t < s \<Longrightarrow> avail m (ub_at (ubWin w) t) = 0" "sorted_wrt (<) (map fst q)"
        "fst ` set q = insert s (fst ` set (ubWin w))" "\<And>t. ub_at q t = (if t = s then take_unit touch m x else ub_at (ubWin w) t)"
        by blast+
      define w' where "w' = record_port rp m x (w\<lparr>ubWin := q\<rparr>)"
      have ib: "?i b = max n H + H" using o(1) by (simp add: b_def)
      have ixs: "2 * H \<le> ?i s" using U(1) o(1) by (auto simp: b_def)
      have "place_uop H touch rp m sc (w, c) = Inr (w', s)"
        using N1 N2 m u by (simp add: place w'_def n_def b_def)
      moreover have "\<forall>k \<in> fst ` set q. c + 2 * H \<le> k + curPos w"
      proof -
        have "H \<le> max n H" by simp
        then have "c + 2 * H \<le> s + curPos w" using U(1) o(1) unfolding b_def by linarith
        then show ?thesis unfolding U(6) using o(6) by blast
      qed
      then have "win_ok H (w', c)" using o U(5) by (simp add: win_ok_def w'_def)
      moreover have "max sc c \<le> s" using U(1) o(1) by (auto simp: b_def p_def n_def)
      moreover have sl: "slot H (w, c) s = x" using ixs U(3) by (simp add: slot_def Let_def)
      moreover have "avail m (slot H (w, c) t) = 0" if t: "max sc c \<le> t" "t < s" for t
      proof -
        consider "?i t < H" | "H \<le> ?i t" "?i t < 2 * H" | "2 * H \<le> ?i t" by linarith
        then show ?thesis
        proof cases
          case 1
          then show ?thesis using c0 [OF ix [OF t(1)]] by (simp add: slot_def Let_def)
        next
          case 2
          have "n \<le> ?i t - H" "?i t - H < H" using 2 ix [OF t(1)] by (auto simp: n_def)
          then have "avail m (nextWin w (?i t - H)) = 0" using c1 by blast
          then show ?thesis using 2 by (simp add: slot_def Let_def)
        next
          case 3
          have "b \<le> t" using 3 ix [OF t(1)] t(1) o(1) by (auto simp: b_def n_def)
          then show ?thesis using U(4) t(2) 3 by (simp add: slot_def Let_def)
        qed
      qed
      moreover have "slot H (w', c) t = (if t = s then take_unit touch m x else slot H (w, c) t)" if t: "c \<le> t" for t
        using U(7) ixs by (auto simp: slot_def Let_def w'_def)
      ultimately show ?thesis using U(2) by (intro exI [of _ w'] exI [of _ s]) (simp add: w'_def)
    qed
  qed
qed

end
