(* ===== verification/OooWindow.thy ===== *)
theory OooWindow
  imports OooStructs
begin

section \<open>The instruction window\<close>

text \<open>
  The number of micro-ops the window holds, and the scheduling of a micro-op: the window
  advances only while it is full, which ends, and then behaves like a timetable without bound.
\<close>

definition occ_ok :: "nat \<Rightarrow> window \<times> nat \<Rightarrow> bool" where
  "occ_ok H wc \<longleftrightarrow> (\<exists>B. (\<forall>t\<ge>B. wc_count (slot H wc t) = 0)
     \<and> occupancy (fst wc) = (\<Sum>t\<in>{snd wc..<B}. wc_count (slot H wc t)))"

lemma sum_extend:
  fixes f :: "nat \<Rightarrow> nat"
  assumes "\<forall>t\<ge>B. f t = 0" and "B \<le> B'"
  shows "(\<Sum>t\<in>{c..<B'}. f t) = (\<Sum>t\<in>{c..<B}. f t)"
  by (rule sum.mono_neutral_right) (use assms in auto)

lemma occ_bound:
  assumes "occ_ok H (w, c)"
  obtains B where "c < B" "n \<le> B" "\<forall>t\<ge>B. wc_count (slot H (w, c) t) = 0" "occupancy w = (\<Sum>t\<in>{c..<B}. wc_count (slot H (w, c) t))"
proof -
  obtain B where B: "\<forall>t\<ge>B. wc_count (slot H (w, c) t) = 0" "occupancy w = (\<Sum>t\<in>{c..<B}. wc_count (slot H (w, c) t))"
    using assms by (auto simp: occ_ok_def)
  show ?thesis
    by (rule that [of "max B (max n (Suc c))"]) (use B sum_extend [OF B(1), of "max B (max n (Suc c))" c] in auto)
qed

lemma count_le_occupancy:
  assumes "occ_ok H (w, c)" and "c \<le> t"
  shows "wc_count (slot H (w, c) t) \<le> occupancy w"
proof -
  obtain B where B: "c < B" "Suc t \<le> B" "occupancy w = (\<Sum>t\<in>{c..<B}. wc_count (slot H (w, c) t))"
    using occ_bound [OF assms(1), of "Suc t"] by metis
  show ?thesis unfolding B(3) by (rule member_le_sum) (use B assms(2) in auto)
qed

lemma u32_sub_le: "b \<le> a \<Longrightarrow> a < 2 ^ 32 \<Longrightarrow> u32_sub a b = a - b"
  by (simp add: u32_sub_def nat_mod_distrib flip: of_nat_diff)

lemma advance_occ:
  assumes ok: "win_ok H (w, c)" "occ_ok H (w, c)" "occupancy w < 2 ^ 32"
  shows "\<exists>w'. advancePos H (w, c) = Inr (w', c + 1) \<and> win_ok H (w', c + 1) \<and> occ_ok H (w', c + 1)
    \<and> occupancy w' = occupancy w - wc_count (slot H (w, c) c)
    \<and> (\<forall>t\<ge>c + 1. slot H (w', c + 1) t = slot H (w, c) t)"
proof -
  obtain w' where w': "advancePos H (w, c) = Inr (w', c + 1)" "win_ok H (w', c + 1)"
    "occupancy w' = u32_sub (occupancy w) (wc_count (slot H (w, c) c))" "\<forall>t\<ge>c + 1. slot H (w', c + 1) t = slot H (w, c) t"
    using advance_correct [OF ok(1)] by blast
  have n: "occupancy w' = occupancy w - wc_count (slot H (w, c) c)"
    unfolding w'(3) by (rule u32_sub_le) (use count_le_occupancy [OF ok(2)] ok(3) in auto)
  obtain B where B: "c < B" "\<forall>t\<ge>B. wc_count (slot H (w, c) t) = 0" "occupancy w = (\<Sum>t\<in>{c..<B}. wc_count (slot H (w, c) t))"
    using occ_bound [OF ok(2), of 0] by metis
  have "(\<Sum>t\<in>{c..<B}. wc_count (slot H (w, c) t)) = wc_count (slot H (w, c) c) + (\<Sum>t\<in>{c + 1..<B}. wc_count (slot H (w, c) t))"
    using sum.atLeast_Suc_lessThan [OF B(1)] by simp
  then have "occupancy w' = (\<Sum>t\<in>{c + 1..<B}. wc_count (slot H (w, c) t))" using n B(3) by simp
  also have "\<dots> = (\<Sum>t\<in>{c + 1..<B}. wc_count (slot H (w', c + 1) t))" by (rule sum.cong) (use w'(4) in auto)
  finally have "occ_ok H (w', c + 1)" unfolding occ_ok_def using B(1,2) w'(4) by (intro exI [of _ B]) auto
  then show ?thesis using w'(1,2,4) n by blast
qed

text \<open>A full window holds a micro-op that will leave, so that the wait for a place ends.\<close>

lemma drain_returns:
  assumes "win_ok H (w, c)" and "occ_ok H (w, c)" and "occupancy w \<le> wsz" and "0 < wsz" and "wsz < 2 ^ 32"
  shows "\<exists>w' c'. win_drain H wsz (w, c) = Some (Inr (w', c')) \<and> win_ok H (w', c') \<and> occ_ok H (w', c') \<and> occupancy w' < wsz
    \<and> c \<le> c' \<and> (c' = c \<or> (\<exists>t\<ge>c. c' = Suc t \<and> wc_count (slot H (w, c) t) \<noteq> 0))
    \<and> (\<forall>t\<ge>c'. slot H (w', c') t = slot H (w, c) t)"
proof (cases "occupancy w = wsz")
  case False
  then have "win_drain H wsz (w, c) = Some (Inr (w, c))" by (subst win_drain.simps) simp
  then show ?thesis using assms False by auto
next
  case full: True
  have "\<exists>t\<ge>c. wc_count (slot H (w, c) t) \<noteq> 0"
  proof (rule ccontr)
    assume n: "\<not> ?thesis"
    obtain B where "occupancy w = (\<Sum>t\<in>{c..<B}. wc_count (slot H (w, c) t))" using assms(2) by (auto simp: occ_ok_def)
    also have "\<dots> = 0" using n by simp
    finally show False using full assms(4) by simp
  qed
  then obtain t where t: "c \<le> t" "wc_count (slot H (w, c) t) \<noteq> 0" by blast
  from t full assms(1,2) have "\<exists>w' c'. win_drain H wsz (w, c) = Some (Inr (w', c')) \<and> win_ok H (w', c') \<and> occ_ok H (w', c')
    \<and> occupancy w' < wsz \<and> c \<le> c' \<and> (\<exists>t\<ge>c. c' = Suc t \<and> wc_count (slot H (w, c) t) \<noteq> 0)
    \<and> (\<forall>t\<ge>c'. slot H (w', c') t = slot H (w, c) t)"
  proof (induction "t - c" arbitrary: w c)
    case (0 c w)
    then have tc: "t = c" by simp
    have lt: "occupancy w < 2 ^ 32" using 0 assms(5) by simp
    obtain w' where w': "advancePos H (w, c) = Inr (w', c + 1)" "win_ok H (w', c + 1)" "occ_ok H (w', c + 1)"
      "occupancy w' = occupancy w - wc_count (slot H (w, c) c)" "\<forall>t\<ge>c + 1. slot H (w', c + 1) t = slot H (w, c) t"
      using advance_occ [OF "0.prems"(4,5) lt] by blast
    have less: "occupancy w' < wsz" using w'(4) 0 tc assms(4) by simp
    have "win_drain H wsz (w, c) = win_drain H wsz (w', c + 1)" using "0.prems"(3) w'(1) by (subst win_drain.simps) simp
    also have "\<dots> = Some (Inr (w', c + 1))" using less by (subst win_drain.simps) simp
    finally show ?case using w' less 0 tc by (intro exI [of _ w'] exI [of _ "c + 1"]) auto
  next
    case (Suc n c w)
    have lt: "occupancy w < 2 ^ 32" using Suc.prems(3) assms(5) by simp
    obtain w' where w': "advancePos H (w, c) = Inr (w', c + 1)" "win_ok H (w', c + 1)" "occ_ok H (w', c + 1)"
      "occupancy w' = occupancy w - wc_count (slot H (w, c) c)" "\<forall>t\<ge>c + 1. slot H (w', c + 1) t = slot H (w, c) t"
      using advance_occ [OF Suc.prems(4,5) lt] by blast
    have d: "win_drain H wsz (w, c) = win_drain H wsz (w', c + 1)" using Suc.prems(3) w'(1) by (subst win_drain.simps) simp
    show ?case
    proof (cases "occupancy w' = wsz")
      case True
      have t': "c + 1 \<le> t" "n = t - (c + 1)" using Suc.hyps(2) by simp_all
      have "wc_count (slot H (w', c + 1) t) \<noteq> 0" using w'(5) t'(1) Suc.prems(2) by simp
      from Suc.hyps(1) [OF t'(2,1) this True w'(2,3)] obtain w2 c2 t2 where
        w2: "win_drain H wsz (w', c + 1) = Some (Inr (w2, c2))" "win_ok H (w2, c2)" "occ_ok H (w2, c2)" "occupancy w2 < wsz"
        "c + 1 \<le> c2" "\<forall>t\<ge>c2. slot H (w2, c2) t = slot H (w', c + 1) t"
        "c + 1 \<le> t2" "c2 = Suc t2" "wc_count (slot H (w', c + 1) t2) \<noteq> 0" by blast
      have "wc_count (slot H (w, c) t2) \<noteq> 0" using w2(7,9) w'(5) by simp
      then have "\<exists>t\<ge>c. c2 = Suc t \<and> wc_count (slot H (w, c) t) \<noteq> 0" using w2(7,8) by (intro exI [of _ t2]) simp
      then show ?thesis using d w'(5) w2(1-6) by (intro exI [of _ w2] exI [of _ c2]) auto
    next
      case False
      then have "win_drain H wsz (w', c + 1) = Some (Inr (w', c + 1))" by (subst win_drain.simps) simp
      moreover have "occupancy w' < wsz" using False w'(4) Suc.prems(3) by simp
      moreover have "wc_count (slot H (w, c) c) \<noteq> 0" using False w'(4) Suc.prems(3) by auto
      ultimately show ?thesis using d w' by (intro exI [of _ w'] exI [of _ "c + 1"]) auto
    qed
  qed
  then show ?thesis by blast
qed

lemma take_occ:
  assumes o: "occ_ok H (w, c)" and s: "c \<le> s" and w': "occupancy w' = occupancy w + (if touch then 1 else 0)"
    and sl: "\<forall>t\<ge>c. slot H (w', c) t = (if t = s then take_unit touch m (slot H (w, c) s) else slot H (w, c) t)"
  shows "occ_ok H (w', c)"
proof -
  obtain B where B: "c < B" "Suc s \<le> B" "\<forall>t\<ge>B. wc_count (slot H (w, c) t) = 0" "occupancy w = (\<Sum>t\<in>{c..<B}. wc_count (slot H (w, c) t))"
    using occ_bound [OF o, of "Suc s"] by metis
  have m: "s \<in> {c..<B}" using s B(2) by simp
  let ?d = "if touch then 1 else 0 :: nat"
  have cs: "wc_count (slot H (w', c) t) = wc_count (slot H (w, c) t) + (if t = s then ?d else 0)" if "t \<in> {c..<B}" for t
    using that sl by (simp add: take_unit_def)
  have "(\<Sum>t\<in>{c..<B}. wc_count (slot H (w', c) t)) = (\<Sum>t\<in>{c..<B}. wc_count (slot H (w, c) t) + (if t = s then ?d else 0))"
    by (rule sum.cong) (use cs in auto)
  also have "\<dots> = occupancy w'" using m w' B(4) by (simp add: sum.distrib)
  finally have "occupancy w' = (\<Sum>t\<in>{c..<B}. wc_count (slot H (w', c) t))" by simp
  moreover have "wc_count (slot H (w', c) t) = 0" if "B \<le> t" for t using that B sl by simp
  ultimately show ?thesis unfolding occ_ok_def by (intro exI [of _ B]) simp
qed

text \<open>The invariant of a window that is used as the code uses it; nothing is taken from cycle \<open>B\<close> on.\<close>

definition win_inv :: "nat \<Rightarrow> nat \<Rightarrow> nat \<Rightarrow> window \<times> nat \<Rightarrow> bool" where
  "win_inv H wsz B wc \<longleftrightarrow> win_ok H wc \<and> occ_ok H wc \<and> occupancy (fst wc) \<le> wsz \<and> 0 < wsz \<and> wsz < 2 ^ 32
     \<and> snd wc \<le> B \<and> (\<forall>t\<ge>B. slot H wc t = no_uops)"

lemma extra_slots_ok:
  assumes "win_ok H (w, c)" and "occ_ok H (w, c)" and "m \<noteq> 0" and "\<forall>t\<ge>B. slot H (w, c) t = no_uops"
    and "max s B + n + H < c + 2 ^ 32" and "c \<le> s"
  shows "\<exists>w'. extra_slots H wsz n m s (w, c) = Inr (w', c) \<and> win_ok H (w', c) \<and> occ_ok H (w', c) \<and> occupancy w' = occupancy w
    \<and> (\<forall>t\<ge>max s B + n. slot H (w', c) t = no_uops)
    \<and> (\<forall>t\<ge>c. occUnits (slot H (w', c) t) = occUnits (slot H (w, c) t) \<or> occUnits (slot H (w', c) t) = occUnits (slot H (w, c) t) OR m)
    \<and> (\<forall>t. c \<le> t \<and> t < s \<longrightarrow> slot H (w', c) t = slot H (w, c) t)"
  using assms
proof (induction n arbitrary: s w B)
  case 0
  then show ?case by auto
next
  case (Suc n)
  have far: "s + H < c + 2 ^ 32" using Suc.prems(5) by simp
  obtain w1 s1 where p: "place_uop H False False m s (w, c) = Inr (w1, s1)" "win_ok H (w1, c)" "occupancy w1 = occupancy w"
    "max s c \<le> s1" "avail m (slot H (w, c) s1) \<noteq> 0" "\<forall>t. max s c \<le> t \<and> t < s1 \<longrightarrow> avail m (slot H (w, c) t) = 0"
    "\<forall>t\<ge>c. slot H (w1, c) t = (if t = s1 then take_unit False m (slot H (w, c) s1) else slot H (w, c) t)"
    using place_correct [OF Suc.prems(1,3) far, of False False] by blast
  have s1: "s1 \<le> max s B"
  proof (rule ccontr)
    assume "\<not> s1 \<le> max s B"
    then have "avail m (slot H (w, c) (max s B)) = 0" using p(6) [rule_format, of "max s B"] Suc.prems(6) by linarith
    moreover have "slot H (w, c) (max s B) = no_uops" using Suc.prems(4) by simp
    ultimately show False using Suc.prems(3) by simp
  qed
  have o1: "occ_ok H (w1, c)" using take_occ [OF Suc.prems(2), of s1 w1 False m] p(3,4,7) by simp
  have cl: "\<forall>t\<ge>Suc (max s B). slot H (w1, c) t = no_uops" using p(7) Suc.prems(4,6) s1 by auto
  have b: "max (s1 + 1) (Suc (max s B)) + n + H < c + 2 ^ 32" using Suc.prems(5) s1 by simp
  have le: "c \<le> s1 + 1" using p(4) by simp
  obtain w' where w': "extra_slots H wsz n m (s1 + 1) (w1, c) = Inr (w', c)" "win_ok H (w', c)" "occ_ok H (w', c)"
    "occupancy w' = occupancy w1" "\<forall>t\<ge>max (s1 + 1) (Suc (max s B)) + n. slot H (w', c) t = no_uops"
    "\<forall>t\<ge>c. occUnits (slot H (w', c) t) = occUnits (slot H (w1, c) t) \<or> occUnits (slot H (w', c) t) = occUnits (slot H (w1, c) t) OR m"
    "\<forall>t. c \<le> t \<and> t < s1 + 1 \<longrightarrow> slot H (w', c) t = slot H (w1, c) t"
    using Suc.IH [OF p(2) o1 Suc.prems(3) cl b le] by blast
  have e: "extra_slots H wsz (Suc n) m s (w, c) = Inr (w', c)" using p(1) w'(1) by (simp add: scheduleInternal_def)
  have "occUnits (slot H (w', c) t) = occUnits (slot H (w, c) t) \<or> occUnits (slot H (w', c) t) = occUnits (slot H (w, c) t) OR m"
    if t: "c \<le> t" for t
  proof (cases "t = s1")
    case True
    then have "slot H (w', c) t = slot H (w1, c) t" using w'(7) t by simp
    then show ?thesis using p(7) t True by (simp add: take_unit_def)
  next
    case False
    then have "slot H (w1, c) t = slot H (w, c) t" using p(7) t by simp
    then show ?thesis using w'(6) [rule_format, OF t] by simp
  qed
  moreover have "slot H (w', c) t = slot H (w, c) t" if "c \<le> t" "t < s" for t
    using that w'(7) p(4,7) by simp
  moreover have "slot H (w', c) t = no_uops" if "max s B + Suc n \<le> t" for t using that w'(5) s1 by simp
  ultimately show ?case using e w'(2-4) p(3) by (intro exI [of _ w']) simp
qed

lemma first_port_bit:
  fixes m :: u8
  assumes "m \<noteq> 0"
  shows "bit m (first_port m) \<and> first_port m < 8 \<and> (\<forall>i<first_port m. \<not> bit m i)"
proof -
  have "\<exists>i<8. bit m i"
  proof (rule ccontr)
    assume "\<not> ?thesis"
    then have "m = 0" by (intro bit_word_eqI) auto
    then show False using assms by simp
  qed
  then obtain i where i: "List.find (bit m) [0..<8] = Some i"
    using find_upt_None [of "bit m" 0 8] by (cases "List.find (bit m) [0..<8]") auto
  then have "first_port m = i" by (simp add: first_port_def)
  then show ?thesis using find_upt_Some [OF i] by auto
qed

lemma push_bit_port_nonzero: "p < 8 \<Longrightarrow> push_bit p 1 \<noteq> (0 :: u8)"
proof
  assume l: "p < 8" and z: "push_bit p 1 = (0 :: u8)"
  from l have "bit (push_bit p (1 :: u8)) p" unfolding bit_push_bit_iff by simp
  from this [unfolded z] show False by simp
qed

text \<open>Its first part: a place is waited for, and the first free cycle is taken.\<close>

lemma touch_correct:
  assumes inv: "win_inv H wsz B (w, c)" and m: "m \<noteq> 0" and far: "sc + H < c + 2 ^ 32"
  obtains w' c' s where
    "scheduleInternal H wsz True rp m sc (w, c) = Inr ((w', c'), s)" "c \<le> c'" "occupancy w < wsz \<longrightarrow> c' = c"
    "win_ok H (w', c')" "occ_ok H (w', c')" "occupancy w' \<le> wsz"
    "max sc c' \<le> s" "avail m (slot H (w, c) s) \<noteq> 0" "\<forall>t. max sc c' \<le> t \<and> t < s \<longrightarrow> avail m (slot H (w, c) t) = 0"
    "\<forall>t\<ge>c'. slot H (w', c') t = (if t = s then take_unit True m (slot H (w, c) s) else slot H (w, c) t)"
    "rp \<longrightarrow> lastPort w' = first_port (avail m (slot H (w, c) s))" "c' \<le> B"
proof -
  have i: "win_ok H (w, c)" "occ_ok H (w, c)" "occupancy w \<le> wsz" "0 < wsz" "wsz < 2 ^ 32" using inv by (simp_all add: win_inv_def)
  obtain w1 c' where d: "win_drain H wsz (w, c) = Some (Inr (w1, c'))" "win_ok H (w1, c')" "occ_ok H (w1, c')" "occupancy w1 < wsz"
    "c \<le> c'" "c' = c \<or> (\<exists>t\<ge>c. c' = Suc t \<and> wc_count (slot H (w, c) t) \<noteq> 0)" "\<forall>t\<ge>c'. slot H (w1, c') t = slot H (w, c) t"
    using drain_returns [OF i] by blast
  have cB: "c' \<le> B"
  proof (rule ccontr)
    assume n: "\<not> c' \<le> B"
    moreover have "c \<le> B" "\<forall>t\<ge>B. slot H (w, c) t = no_uops" using inv by (simp_all add: win_inv_def)
    ultimately obtain t where "B \<le> t" "wc_count (slot H (w, c) t) \<noteq> 0" using d(6) by force
    then show False using \<open>\<forall>t\<ge>B. slot H (w, c) t = no_uops\<close> by (simp add: no_uops_def)
  qed
  have far': "sc + H < c' + 2 ^ 32" using far d(5) by simp
  obtain w2 s where p: "place_uop H True rp m sc (w1, c') = Inr (w2, s)" "win_ok H (w2, c')" "occupancy w2 = occupancy w1"
    "max sc c' \<le> s" "avail m (slot H (w1, c') s) \<noteq> 0" "\<forall>t. max sc c' \<le> t \<and> t < s \<longrightarrow> avail m (slot H (w1, c') t) = 0"
    "\<forall>t\<ge>c'. slot H (w2, c') t = (if t = s then take_unit True m (slot H (w1, c') s) else slot H (w1, c') t)"
    "lastPort w2 = (if rp then first_port (avail m (slot H (w1, c') s)) else lastPort w1)"
    using place_correct [OF d(2) m far', of True rp] by blast
  let ?w = "w2\<lparr>occupancy := occupancy w2 + 1\<rparr>"
  have sl: "slot H (?w, c') t = slot H (w2, c') t" for t by (simp add: slot_def Let_def)
  have ok: "win_ok H (?w, c')" using p(2) by (simp add: win_ok_def)
  have cs: "c' \<le> s" using p(4) by simp
  have ss: "slot H (w1, c') t = slot H (w, c) t" if "c' \<le> t" for t using d(7) that by simp
  have s1: "\<forall>t\<ge>c'. slot H (?w, c') t = (if t = s then take_unit True m (slot H (w1, c') s) else slot H (w1, c') t)"
    using p(7) sl by simp
  have occ: "occ_ok H (?w, c')" using take_occ [OF d(3) cs _ s1] p(3) by simp
  show ?thesis
  proof (rule that)
    show "scheduleInternal H wsz True rp m sc (w, c) = Inr ((?w, c'), s)"
      using d(1) p(1) by (simp add: scheduleInternal_def no_return_def)
    show "occupancy w < wsz \<longrightarrow> c' = c" using d(1) by (auto simp: win_drain.simps)
    show "occupancy ?w \<le> wsz" using p(3) d(4) by simp
    show "avail m (slot H (w, c) s) \<noteq> 0" using p(5) ss [OF cs] by simp
    show "\<forall>t. max sc c' \<le> t \<and> t < s \<longrightarrow> avail m (slot H (w, c) t) = 0" using p(6) ss by (metis max.bounded_iff)
    show "\<forall>t\<ge>c'. slot H (?w, c') t = (if t = s then take_unit True m (slot H (w, c) s) else slot H (w, c) t)"
      using s1 ss cs by simp
    show "rp \<longrightarrow> lastPort ?w = first_port (avail m (slot H (w, c) s))" using p(8) ss [OF cs] by simp
  qed (use d ok occ p cB in simp_all)
qed

text \<open>
  The micro-op, the extra slots of its port after it, and the invariant for the next one. The
  bound \<open>B\<close> moves with what is taken.
\<close>

lemma win_schedule_correct:
  assumes inv: "win_inv H wsz B (w, c)" and m: "m \<noteq> 0" and far: "max sc B + n + H + 2 < c + 2 ^ 32"
  shows "\<exists>w' c' s. win_schedule H wsz n m sc (w, c) = Inr ((w', c'), s) \<and> c \<le> c' \<and> c' \<le> B \<and> s \<le> max sc B \<and> (occupancy w < wsz \<longrightarrow> c' = c)
    \<and> max sc c' \<le> s \<and> avail m (slot H (w, c) s) \<noteq> 0 \<and> (\<forall>t. max sc c' \<le> t \<and> t < s \<longrightarrow> avail m (slot H (w, c) t) = 0)
    \<and> slot H (w', c') s = take_unit True m (slot H (w, c) s)
    \<and> (\<forall>t. c' \<le> t \<and> t < s \<longrightarrow> slot H (w', c') t = slot H (w, c) t)
    \<and> (n = 0 \<longrightarrow> (\<forall>t>s. slot H (w', c') t = slot H (w, c) t))
    \<and> (\<forall>t>s. \<forall>i. bit (occUnits (slot H (w', c') t)) i \<longrightarrow> bit (occUnits (slot H (w, c) t)) i
         \<or> i = first_port (avail m (slot H (w, c) s)))
    \<and> win_inv H wsz (max sc B + n + 1) (w', c')"
proof -
  have fs: "sc + H < c + 2 ^ 32" using far by simp
  have B: "\<forall>t\<ge>B. slot H (w, c) t = no_uops" "c \<le> B" "0 < wsz" "wsz < 2 ^ 32" using inv by (simp_all add: win_inv_def)
  obtain w1 c' s where t: "scheduleInternal H wsz True (n \<noteq> 0) m sc (w, c) = Inr ((w1, c'), s)" "c \<le> c'"
    "occupancy w < wsz \<longrightarrow> c' = c" "win_ok H (w1, c')" "occ_ok H (w1, c')" "occupancy w1 \<le> wsz"
    "max sc c' \<le> s" "avail m (slot H (w, c) s) \<noteq> 0" "\<forall>t. max sc c' \<le> t \<and> t < s \<longrightarrow> avail m (slot H (w, c) t) = 0"
    "\<forall>t\<ge>c'. slot H (w1, c') t = (if t = s then take_unit True m (slot H (w, c) s) else slot H (w, c) t)"
    "n \<noteq> 0 \<longrightarrow> lastPort w1 = first_port (avail m (slot H (w, c) s))" "c' \<le> B"
    using touch_correct [OF inv m fs, of "n \<noteq> 0"] by metis
  let ?Z = "max sc B"
  have s: "s \<le> ?Z"
  proof (rule ccontr)
    assume "\<not> s \<le> ?Z"
    then have "avail m (slot H (w, c) ?Z) = 0" using t(9) [rule_format, of ?Z] t(12) by linarith
    then show False using B(1) m by simp
  qed
  have cs: "c' \<le> s" using t(7) by simp
  have clear: "slot H (w1, c') u = no_uops" if "Suc ?Z \<le> u" for u using t(10,12) B(1) that s by simp
  show ?thesis
  proof (cases "n = 0")
    case True
    then have e: "win_schedule H wsz n m sc (w, c) = Inr ((w1, c'), s)" using t(1,6) by (simp add: win_schedule_def)
    have "win_inv H wsz (?Z + n + 1) (w1, c')" unfolding win_inv_def using t(4-6,12) B(3,4) clear True by simp
    then show ?thesis using e t cs s by (intro exI [of _ w1] exI [of _ c'] exI [of _ s]) simp
  next
    case False
    let ?p = "first_port (avail m (slot H (w, c) s))"
    let ?m = "push_bit (lastPort w1) 1 :: u8"
    have lp: "lastPort w1 = ?p" using t(11) False by simp
    have mp: "?m \<noteq> 0" unfolding lp using first_port_bit [OF t(8)] by (intro push_bit_port_nonzero) simp
    have cl: "\<forall>u\<ge>Suc ?Z. slot H (w1, c') u = no_uops" using clear by blast
    have f: "max (s + 1) (Suc ?Z) + n + H < c' + 2 ^ 32" using far s t(2) B(2) by simp
    have cs1: "c' \<le> s + 1" using cs by simp
    obtain w2 where x: "extra_slots H wsz n ?m (s + 1) (w1, c') = Inr (w2, c')" "win_ok H (w2, c')" "occ_ok H (w2, c')"
      "occupancy w2 = occupancy w1" "\<forall>u\<ge>max (s + 1) (Suc ?Z) + n. slot H (w2, c') u = no_uops"
      "\<forall>u\<ge>c'. occUnits (slot H (w2, c') u) = occUnits (slot H (w1, c') u)
         \<or> occUnits (slot H (w2, c') u) = occUnits (slot H (w1, c') u) OR ?m"
      "\<forall>u. c' \<le> u \<and> u < s + 1 \<longrightarrow> slot H (w2, c') u = slot H (w1, c') u"
      using extra_slots_ok [OF t(4,5) mp cl f cs1, of wsz] by blast
    have e: "win_schedule H wsz n m sc (w, c) = Inr ((w2, c'), s)" using t(1,6) x(1,4) False by (simp add: win_schedule_def)
    have "win_inv H wsz (?Z + n + 1) (w2, c')" unfolding win_inv_def using x(2-5) t(6,12) B(3,4) s by simp
    moreover have "slot H (w2, c') s = take_unit True m (slot H (w, c) s)" using x(7) t(10) cs by simp
    moreover have "\<forall>u. c' \<le> u \<and> u < s \<longrightarrow> slot H (w2, c') u = slot H (w, c) u" using x(7) t(10) by simp
    moreover have "bit (occUnits (slot H (w, c) u)) i \<or> i = ?p"
      if u: "s < u" and b: "bit (occUnits (slot H (w2, c') u)) i" for u i
    proof -
      have "slot H (w1, c') u = slot H (w, c) u" using t(10) u cs by simp
      then have "bit (occUnits (slot H (w, c) u)) i \<or> bit ?m i" using x(6) [rule_format, of u] b u cs by (auto simp: bit_or_iff)
      then show ?thesis using lp by (auto simp: bit_exp_iff)
    qed
    ultimately show ?thesis using e t(2,3,7-9,12) s False by (intro exI [of _ w2] exI [of _ c'] exI [of _ s]) simp
  qed
qed

text \<open>
  C0. A micro-op with a port always gets a cycle: \<open>schedule\<close> returns without a failed assertion,
  lets time pass only while the window is full, and takes the first cycle from the requested
  (and the current) one on in which one of its ports is free. It takes the lowest free port
  there, no cycle before it changes, and extra slots only take the same port later. The window
  never holds more than \<open>wsz\<close> micro-ops.
\<close>

theorem window_schedules_first_free:
  assumes "win_inv H wsz B (w, c)" and "m \<noteq> 0" and "max sc B + n + H + 2 < c + 2 ^ 32"
  shows "\<exists>w' c' s p. win_schedule H wsz n m sc (w, c) = Inr ((w', c'), s)
    \<and> c \<le> c' \<and> c' \<le> B \<and> s \<le> max sc B \<and> (occupancy w < wsz \<longrightarrow> c' = c) \<and> max sc c' \<le> s
    \<and> (\<forall>t. max sc c' \<le> t \<and> t < s \<longrightarrow> NOT (occUnits (slot H (w, c) t)) AND m = 0)
    \<and> p < 8 \<and> bit m p \<and> \<not> bit (occUnits (slot H (w, c) s)) p
    \<and> (\<forall>i<p. bit m i \<longrightarrow> bit (occUnits (slot H (w, c) s)) i)
    \<and> occUnits (slot H (w', c') s) = occUnits (slot H (w, c) s) OR push_bit p 1
    \<and> (\<forall>t. c' \<le> t \<and> t < s \<longrightarrow> slot H (w', c') t = slot H (w, c) t)
    \<and> (\<forall>t>s. \<forall>i. bit (occUnits (slot H (w', c') t)) i \<longrightarrow> bit (occUnits (slot H (w, c) t)) i \<or> 0 < n \<and> i = p)
    \<and> occupancy w' \<le> wsz \<and> win_inv H wsz (max sc B + n + 1) (w', c')"
proof -
  obtain w' c' s where r: "win_schedule H wsz n m sc (w, c) = Inr ((w', c'), s)" "c \<le> c'" "c' \<le> B" "s \<le> max sc B" "occupancy w < wsz \<longrightarrow> c' = c"
    "max sc c' \<le> s" "avail m (slot H (w, c) s) \<noteq> 0" "\<forall>t. max sc c' \<le> t \<and> t < s \<longrightarrow> avail m (slot H (w, c) t) = 0"
    "slot H (w', c') s = take_unit True m (slot H (w, c) s)" "\<forall>t. c' \<le> t \<and> t < s \<longrightarrow> slot H (w', c') t = slot H (w, c) t"
    "n = 0 \<longrightarrow> (\<forall>t>s. slot H (w', c') t = slot H (w, c) t)"
    "\<forall>t>s. \<forall>i. bit (occUnits (slot H (w', c') t)) i \<longrightarrow> bit (occUnits (slot H (w, c) t)) i
         \<or> i = first_port (avail m (slot H (w, c) s))"
    "win_inv H wsz (max sc B + n + 1) (w', c')"
    using win_schedule_correct [OF assms] by blast
  have x: "\<forall>t>s. \<forall>i. bit (occUnits (slot H (w', c') t)) i \<longrightarrow> bit (occUnits (slot H (w, c) t)) i
         \<or> 0 < n \<and> i = first_port (avail m (slot H (w, c) s))"
    using r(11,12) by (cases "n = 0") auto
  have o: "occupancy w' \<le> wsz" using r(13) by (simp add: win_inv_def)
  have f: "\<forall>i<first_port (avail m (slot H (w, c) s)). bit m i \<longrightarrow> bit (occUnits (slot H (w, c) s)) i"
    "bit m (first_port (avail m (slot H (w, c) s)))" "\<not> bit (occUnits (slot H (w, c) s)) (first_port (avail m (slot H (w, c) s)))"
    "first_port (avail m (slot H (w, c) s)) < 8"
    using first_port_bit [OF r(7)] bit_imp_le_length [of m] by (auto simp: avail_def bit_and_iff bit_not_iff possible_bit_word)
  have t: "occUnits (slot H (w', c') s) = occUnits (slot H (w, c) s) OR push_bit (first_port (avail m (slot H (w, c) s))) 1"
    unfolding r(9) by (simp add: take_unit_def)
  show ?thesis
    by (intro exI conjI) (rule r(1-6) r(8) [unfolded avail_def] f(4) f(2,3,1) t r(10) x o r(13))+
qed

lemma win_init_inv: "0 < H \<Longrightarrow> 2 * H < 2 ^ 32 \<Longrightarrow> 0 < wsz \<Longrightarrow> wsz < 2 ^ 32 \<Longrightarrow> win_inv H wsz 0 (win_init, 0)"
  by (auto simp: win_inv_def win_ok_def occ_ok_def win_init_def slot_def Let_def no_uops_def)

theorem window_schedules_first_free_witness:
  "\<exists>w' c' s p. win_schedule 1024 36 2 0x21 7 (win_init, 0) = Inr ((w', c'), s) \<and> max 7 c' \<le> s \<and> p < 8 \<and> bit (0x21 :: u8) p
     \<and> win_inv 1024 36 (max 7 0 + 2 + 1) (w', c')"
proof -
  have i: "win_inv 1024 36 0 (win_init, 0)" by (rule win_init_inv) simp_all
  show ?thesis using window_schedules_first_free [OF i, of "0x21" 7 2] by auto
qed

subsection \<open>Jumps\<close>

text \<open>
  A jump over many cycles is taken as soon as no micro-op is left, but the extra slots of the
  last ones are not counted: they stay at their positions, so that a port that was taken \<open>d\<close>
  cycles from now is taken \<open>d\<close> cycles after the jump.
\<close>

lemma long_advance_moves_extra_slots:
  assumes "occupancy w = 0" and "c \<le> target"
  shows "longAdvance H target (w, c) = Inr (w, target) \<and> (curPos w + d < 2 * H \<longrightarrow> slot H (w, target) (target + d) = slot H (w, c) (c + d))"
proof -
  have "win_empty H (target - c) (w, c) = Inr (w, c)" using assms(1) by (cases "target - c") auto
  then show ?thesis using assms by (simp add: longAdvance_def slot_def Let_def)
qed

end
