(* ===== verification/OooQueues.thy ===== *)
theory OooQueues
  imports OooStructs
begin

section \<open>Reorder buffer and branch predictor\<close>

text \<open>
  The cycles in which the micro-ops of a program retire, and how often a branch is predicted
  right.
\<close>

subsection \<open>Retirement\<close>

text \<open>The cycles in which the micro-ops retire that ask for the cycles of a list, in order.\<close>

fun rob_run :: "nat \<Rightarrow> nat \<Rightarrow> nat list \<Rightarrow> rob \<Rightarrow> nat list \<times> rob" where
  "rob_run sz w [] r = ([], r)"
| "rob_run sz w (m # ms) r = (let r1 = markRetire sz w m r; (cs, r2) = rob_run sz w ms r1
     in (curRetireCycle r1 # cs, r2))"

lemma rob_run_simps:
  "fst (rob_run sz w (m # ms) r) = curRetireCycle (markRetire sz w m r) # fst (rob_run sz w ms (markRetire sz w m r))"
  "snd (rob_run sz w (m # ms) r) = snd (rob_run sz w ms (markRetire sz w m r))"
  by (simp_all add: Let_def split: prod.split)

text \<open>At most \<open>w + 1\<close> micro-ops, one more than the width, retire in a cycle.\<close>

definition rob_ok :: "nat \<Rightarrow> nat \<Rightarrow> rob \<Rightarrow> bool" where
  "rob_ok sz w r \<longleftrightarrow> rob_idx r < sz \<and> curCycleRetires r \<le> w"

lemma markRetire_ok:
  assumes "rob_ok sz w r" and "0 < w"
  shows "rob_ok sz w (markRetire sz w m r)" "max m (curRetireCycle r) \<le> curRetireCycle (markRetire sz w m r)"
    "curRetireCycle (markRetire sz w m r) \<le> max m (curRetireCycle r + 1)"
  using assms by (auto simp: rob_ok_def markRetire_def Let_def)

lemma rob_run_order:
  assumes "rob_ok sz w r" and "0 < w"
  shows "sorted (curRetireCycle r # fst (rob_run sz w ms r)) \<and> list_all2 (\<le>) ms (fst (rob_run sz w ms r))
    \<and> rob_ok sz w (snd (rob_run sz w ms r))"
  using assms
proof (induction ms arbitrary: r)
  case (Cons m ms)
  from Cons.IH [OF markRetire_ok(1) [OF Cons.prems, of m] Cons.prems(2)] markRetire_ok(2) [OF Cons.prems, of m]
  show ?case by (force simp: Let_def split: prod.split)
qed simp

text \<open>How many retire in the cycle that is current and in a later one.\<close>

lemma rob_run_width:
  assumes "rob_ok sz w r" and "0 < w"
  shows "count_list (fst (rob_run sz w ms r)) c \<le> (if c = curRetireCycle r then w - curCycleRetires r else w + 1)"
  using assms
proof (induction ms arbitrary: r)
  case (Cons m ms)
  let ?r = "markRetire sz w m r"
  note ok = markRetire_ok [OF Cons.prems, of m]
  have IH: "count_list (fst (rob_run sz w ms ?r)) c \<le> (if c = curRetireCycle ?r then w - curCycleRetires ?r else w + 1)"
    using Cons.IH [OF ok(1) Cons.prems(2)] .
  have none: "count_list (fst (rob_run sz w ms ?r)) c = 0" if "c < curRetireCycle ?r"
    using rob_run_order [OF ok(1) Cons.prems(2), of ms] that by (auto simp: count_list_0_iff)
  have e: "count_list (fst (rob_run sz w (m # ms) r)) c = (if c = curRetireCycle ?r then 1 else 0) + count_list (fst (rob_run sz w ms ?r)) c"
    by (simp add: Let_def split: prod.split)
  have le: "curCycleRetires r \<le> w" using Cons.prems(1) by (simp add: rob_ok_def)
  consider "m \<le> curRetireCycle r" "curCycleRetires r = w" | "m \<le> curRetireCycle r" "curCycleRetires r \<noteq> w" | "curRetireCycle r < m"
    by linarith
  then show ?case
  proof cases
    case 1
    then have "curRetireCycle ?r = curRetireCycle r + 1" "curCycleRetires ?r = 0" by (simp_all add: markRetire_def Let_def)
    then show ?thesis using IH none 1 unfolding e by auto
  next
    case 2
    then have "curRetireCycle ?r = curRetireCycle r" "curCycleRetires ?r = curCycleRetires r + 1" by (simp_all add: markRetire_def Let_def)
    then show ?thesis using IH 2 le unfolding e by auto
  next
    case 3
    then have "curRetireCycle ?r = m" "curCycleRetires ?r = 1" by (simp_all add: markRetire_def Let_def)
    then show ?thesis using IH none 3 Cons.prems(2) unfolding e by auto
  qed
qed simp

subsection \<open>Prediction\<close>

text \<open>The predictions, right or wrong, of a branch that is executed with the outcomes of a list.\<close>

fun bp_run :: "nat \<Rightarrow> nat \<Rightarrow> nat \<Rightarrow> u64 \<Rightarrow> bool list \<Rightarrow> branch_pred \<Rightarrow> bool list \<times> branch_pred" where
  "bp_run nb hb lb pc [] b = ([], b)"
| "bp_run nb hb lb pc (t # ts) b = (let (x, b1) = bp_predict nb hb lb pc t b; (xs, b2) = bp_run nb hb lb pc ts b1 in (x # xs, b2))"

definition bp_ok :: "branch_pred \<Rightarrow> bool" where
  "bp_ok b \<longleftrightarrow> (\<forall>i. pht b i \<le> 3)"

lemma counter_cases: "(c :: u8) \<le> 3 \<Longrightarrow> c = 0 \<or> c = 1 \<or> c = 2 \<or> c = 3"
proof -
  assume "c \<le> 3"
  then have "unat c \<le> 3" by (simp add: word_le_nat_alt)
  then have "unat c = 0 \<or> unat c = 1 \<or> unat c = 2 \<or> unat c = 3" by linarith
  then show ?thesis by (auto simp: word_unat_eq_iff)
qed

definition counter_next :: "bool \<Rightarrow> bool \<Rightarrow> u8 \<Rightarrow> u8" where
  "counter_next a2 t c = (if a2 then a2_next t c else a3_next t c)"

lemma counter_le: "c \<le> 3 \<Longrightarrow> counter_next a2 t c \<le> 3"
  using counter_cases [of c] by (auto simp: counter_next_def a2_next_def a3_next_def Let_def)

text \<open>Two steps in the same direction turn a counter.\<close>

lemma counter_turns:
  assumes "c \<le> 3"
  shows "(1 < counter_next a2 t (counter_next a2 t c)) = t" and "(1 < c) = t \<Longrightarrow> (1 < counter_next a2 t c) = t"
  using counter_cases [OF assms] by (auto simp: counter_next_def a2_next_def a3_next_def Let_def)

lemma bp_predict_simps:
  "fst (bp_predict nb hb lb pc t b) = (t = (1 < pht b (pht_slot hb lb (bhsr b (bp_slot nb pc)))))"
  "bhsr (snd (bp_predict nb hb lb pc t b)) = (bhsr b)(bp_slot nb pc := shift_in hb t (bhsr b (bp_slot nb pc)))"
  "pht (snd (bp_predict nb hb lb pc t b)) = (pht b)(pht_slot hb lb (bhsr b (bp_slot nb pc)) :=
     counter_next (useA2 b) t (pht b (pht_slot hb lb (bhsr b (bp_slot nb pc)))))"
  "useA2 (snd (bp_predict nb hb lb pc t b)) = useA2 b"
  by (simp_all add: bp_predict_def Let_def counter_next_def)

lemma bp_predict_ok: "bp_ok b \<Longrightarrow> bp_ok (snd (bp_predict nb hb lb pc t b))"
  by (auto simp: bp_ok_def bp_predict_simps intro: counter_le)

lemma bp_run_simps:
  "fst (bp_run nb hb lb pc (t # ts) b) = fst (bp_predict nb hb lb pc t b) # fst (bp_run nb hb lb pc ts (snd (bp_predict nb hb lb pc t b)))"
  "snd (bp_run nb hb lb pc (t # ts) b) = snd (bp_run nb hb lb pc ts (snd (bp_predict nb hb lb pc t b)))"
  by (simp_all add: Let_def split: prod.split)

lemma bp_run_ok: "bp_ok b \<Longrightarrow> bp_ok (snd (bp_run nb hb lb pc ts b))"
proof (induction ts arbitrary: b)
  case (Cons t ts)
  from Cons.IH [OF bp_predict_ok [OF Cons.prems, of nb hb lb pc t]] show ?case by (simp only: bp_run_simps)
qed simp

lemma bp_run_append:
  "fst (bp_run nb hb lb pc (ts @ us) b) = fst (bp_run nb hb lb pc ts b) @ fst (bp_run nb hb lb pc us (snd (bp_run nb hb lb pc ts b)))"
  "snd (bp_run nb hb lb pc (ts @ us) b) = snd (bp_run nb hb lb pc us (snd (bp_run nb hb lb pc ts b)))"
  by (induction ts arbitrary: b) (simp_all add: bp_run_simps del: bp_run.simps(2))

text \<open>The history of a branch that goes one way only, once it is full.\<close>

definition full_history :: "nat \<Rightarrow> bool \<Rightarrow> u32" where
  "full_history hb t = (if t then mask hb else 0)"

lemma shift_in_bit: "0 < hb \<Longrightarrow> hb < 32 \<Longrightarrow> bit (shift_in hb t h) k \<longleftrightarrow> k < hb \<and> (if k = 0 then t else bit h (k - 1))"
proof -
  assume hb: "0 < hb" "hb < 32"
  have 1: "bit (push_bit 1 h) k \<longleftrightarrow> 0 < k \<and> k < 32 \<and> bit h (k - 1)"
    unfolding bit_push_bit_iff by (auto simp: possible_bit_word)
  have 2: "push_bit hb 1 - 1 = (mask hb :: u32)" by (simp add: mask_eq_exp_minus_1)
  show ?thesis unfolding shift_in_def 2 using hb 1
    by (auto simp: bit_or_iff bit_and_iff bit_mask_iff bit_1_iff possible_bit_word)
qed

lemma shift_full: "0 < hb \<Longrightarrow> hb < 32 \<Longrightarrow> shift_in hb t (full_history hb t) = full_history hb t"
  by (rule bit_word_eqI) (auto simp: shift_in_bit full_history_def bit_mask_iff possible_bit_word)

lemma history_fills:
  assumes "0 < hb" and "hb < 32"
  shows "n < hb \<longrightarrow> (\<forall>k<Suc n. bit (bhsr (snd (bp_run nb hb lb pc (replicate (Suc n) t) b)) (bp_slot nb pc)) k = t)
    \<and> (\<forall>k\<ge>hb. \<not> bit (bhsr (snd (bp_run nb hb lb pc (replicate (Suc n) t) b)) (bp_slot nb pc)) k)"
proof (induction n)
  case 0
  show ?case using assms by (auto simp: bp_run_simps bp_predict_simps shift_in_bit simp del: bp_run.simps(2))
next
  case (Suc n)
  have "replicate (Suc (Suc n)) t = replicate (Suc n) t @ [t]" using replicate_append_same [of "Suc n" t] by simp
  then have e: "bhsr (snd (bp_run nb hb lb pc (replicate (Suc (Suc n)) t) b)) (bp_slot nb pc)
    = shift_in hb t (bhsr (snd (bp_run nb hb lb pc (replicate (Suc n) t) b)) (bp_slot nb pc))"
    by (simp only: bp_run_append bp_run_simps bp_predict_simps bp_run.simps(1) snd_conv fun_upd_same)
  show ?case unfolding e using Suc.IH assms by (auto simp: shift_in_bit less_Suc_eq_0_disj)
qed

lemma history_full:
  assumes "0 < hb" and "hb < 32"
  shows "bhsr (snd (bp_run nb hb lb pc (replicate hb t) b)) (bp_slot nb pc) = full_history hb t"
proof (rule bit_word_eqI)
  fix k assume k: "k < LENGTH(32)"
  show "bit (bhsr (snd (bp_run nb hb lb pc (replicate hb t) b)) (bp_slot nb pc)) k = bit (full_history hb t) k"
    using history_fills [OF assms, of "hb - 1" nb lb pc t b] assms k
    by (cases "k < hb") (auto simp: full_history_def bit_mask_iff possible_bit_word)
qed

text \<open>Then all executions use one counter.\<close>

lemma trained_right:
  assumes "0 < hb" and "hb < 32" and "bp_ok b" and "bhsr b (bp_slot nb pc) = full_history hb t"
    and "(1 < pht b (pht_slot hb lb (full_history hb t))) = t"
  shows "\<forall>x \<in> set (fst (bp_run nb hb lb pc (replicate n t) b)). x"
  using assms(3-5)
proof (induction n arbitrary: b)
  case (Suc n)
  have c: "pht b (pht_slot hb lb (full_history hb t)) \<le> 3" using Suc.prems(1) by (simp add: bp_ok_def)
  let ?b = "snd (bp_predict nb hb lb pc t b)"
  have "bhsr ?b (bp_slot nb pc) = full_history hb t" using Suc.prems(2) shift_full [OF assms(1,2)] by (simp add: bp_predict_simps)
  moreover have "(1 < pht ?b (pht_slot hb lb (full_history hb t))) = t"
    using counter_turns(2) [OF c Suc.prems(3)] Suc.prems(2) by (simp add: bp_predict_simps)
  ultimately have "\<forall>x \<in> set (fst (bp_run nb hb lb pc (replicate n t) ?b)). x"
    using Suc.IH bp_predict_ok [OF Suc.prems(1)] by blast
  then show ?case using Suc.prems(2,3) by (simp add: bp_run_simps bp_predict_simps(1) del: bp_run.simps(2))
qed simp

text \<open>
  C0. A branch that always goes the same way is predicted right from its \<open>hb + 3\<close>rd execution
  on, with either automaton, from any state of the predictor that it can reach: the history
  register is full after \<open>hb\<close> executions and the counter that it selects turns after two more.
\<close>

theorem predictor_learns_bias:
  assumes "0 < hb" and "hb < 32" and "bp_ok b"
  shows "\<forall>x \<in> set (drop (hb + 2) (fst (bp_run nb hb lb pc (replicate n t) b))). x"
proof (cases "hb + 2 \<le> n")
  case False
  have "length (fst (bp_run nb hb lb pc ts b)) = length ts" for ts
    by (induction ts arbitrary: b) (simp_all add: bp_run_simps del: bp_run.simps(2))
  then show ?thesis using False by simp
next
  case True
  have len: "length (fst (bp_run nb hb lb pc ts b)) = length ts" for ts b
    by (induction ts arbitrary: b) (simp_all add: bp_run_simps del: bp_run.simps(2))
  let ?F = "full_history hb t"
  let ?b1 = "snd (bp_run nb hb lb pc (replicate hb t) b)"
  let ?b2 = "snd (bp_run nb hb lb pc (replicate 2 t) ?b1)"
  have r: "replicate n t = (replicate hb t @ replicate 2 t) @ replicate (n - (hb + 2)) t"
    using True by (metis replicate_add le_add_diff_inverse)
  have ok1: "bp_ok ?b1" using bp_run_ok [OF assms(3)] .
  have ok2: "bp_ok ?b2" using bp_run_ok [OF ok1] .
  have h1: "bhsr ?b1 (bp_slot nb pc) = ?F" using history_full [OF assms(1,2)] .
  have two: "?b2 = snd (bp_predict nb hb lb pc t (snd (bp_predict nb hb lb pc t ?b1)))"
    by (simp add: numeral_2_eq_2 bp_run_simps del: bp_run.simps(2))
  have c: "pht ?b1 (pht_slot hb lb ?F) \<le> 3" using ok1 by (simp add: bp_ok_def)
  have h2: "bhsr ?b2 (bp_slot nb pc) = ?F" unfolding two using h1 shift_full [OF assms(1,2)] by (simp add: bp_predict_simps)
  have "(1 < pht ?b2 (pht_slot hb lb ?F)) = t" unfolding two
    using h1 shift_full [OF assms(1,2)] counter_turns(1) [OF c] by (simp add: bp_predict_simps)
  from trained_right [OF assms(1,2) ok2 h2 this]
  have "\<forall>x \<in> set (fst (bp_run nb hb lb pc (replicate (n - (hb + 2)) t) ?b2)). x" .
  then show ?thesis unfolding r by (simp add: bp_run_append len)
qed

theorem predictor_learns_bias_witness:
  "\<forall>x \<in> set (drop 20 (fst (bp_run 11 18 14 0x400000 (replicate 100 True) bp_init))). x"
  using predictor_learns_bias [of 18 bp_init 11 14 "0x400000" 100 True] by (simp add: bp_ok_def bp_init_def)

lemma rob_bundle:
  assumes "curCycleRetires r + k \<le> w"
  shows "fst (rob_run sz w (replicate k 0) r) = replicate k (curRetireCycle r)
    \<and> curRetireCycle (snd (rob_run sz w (replicate k 0) r)) = curRetireCycle r
    \<and> curCycleRetires (snd (rob_run sz w (replicate k 0) r)) = curCycleRetires r + k"
  using assms
proof (induction k arbitrary: r)
  case (Suc k)
  let ?r = "markRetire sz w 0 r"
  have r: "curRetireCycle ?r = curRetireCycle r" "curCycleRetires ?r = curCycleRetires r + 1"
    using Suc.prems by (simp_all add: markRetire_def Let_def)
  show ?case using Suc.IH [of ?r] r Suc.prems by (simp add: Let_def split: prod.split) (metis fst_conv snd_conv)
qed simp

lemma rob_run_append:
  "fst (rob_run sz w (ms @ ns) r) = fst (rob_run sz w ms r) @ fst (rob_run sz w ns (snd (rob_run sz w ms r)))"
  by (induction ms arbitrary: r) (simp_all add: rob_run_simps del: rob_run.simps(2))

lemma count_replicate: "count_list (replicate n x) y = (if x = y then n else 0)"
  by (induction n) auto

lemma rob_overfull:
  assumes "0 < w"
  shows "fst (rob_run sz w (replicate (2 * w) 0) rob_init) = replicate (w - 1) 0 @ replicate (w + 1) 1"
proof -
  have e: "replicate (2 * w) (0 :: nat) = replicate (w - 1) 0 @ 0 # replicate w 0"
    using assms by (metis Suc_diff_1 add_Suc_right mult_2 replicate_Suc replicate_add add.commute)
  let ?r = "snd (rob_run sz w (replicate (w - 1) 0) rob_init)"
  have b: "fst (rob_run sz w (replicate (w - 1) 0) rob_init) = replicate (w - 1) 0" "curRetireCycle ?r = 0" "curCycleRetires ?r = w"
    using rob_bundle [of rob_init "w - 1" w sz] assms by (simp_all add: rob_init_def)
  let ?s = "markRetire sz w 0 ?r"
  have s: "curRetireCycle ?s = 1" "curCycleRetires ?s = 0" using b by (simp_all add: markRetire_def Let_def)
  have "fst (rob_run sz w (0 # replicate w 0) ?r) = 1 # replicate w 1"
    using rob_bundle [of ?s w w sz] s by (simp add: rob_run_simps del: rob_run.simps(2))
  then show ?thesis unfolding e rob_run_append b(1) by simp
qed

text \<open>
  C0. The reorder buffer retires in program order and nothing before it asked to, but its width
  is not kept: up to \<open>w + 1\<close> micro-ops retire in one cycle, and a program of that many does it
  when they come after a full bundle.
\<close>

theorem rob_retires_one_more_than_width:
  assumes "0 < w" and "0 < sz"
  shows "sorted (fst (rob_run sz w ms rob_init)) \<and> list_all2 (\<le>) ms (fst (rob_run sz w ms rob_init))
    \<and> count_list (fst (rob_run sz w ms rob_init)) c \<le> w + 1
    \<and> count_list (fst (rob_run sz w (replicate (2 * w) 0) rob_init)) 1 = w + 1"
proof -
  have ok: "rob_ok sz w rob_init" using assms by (simp add: rob_ok_def rob_init_def)
  have "count_list (fst (rob_run sz w ms rob_init)) c \<le> w + 1"
    using rob_run_width [OF ok assms(1), of ms c] by (auto split: if_splits)
  moreover have "count_list (replicate (w - 1) 0 @ replicate (w + 1) 1) (1 :: nat) = w + 1" by (simp add: count_replicate del: replicate.simps)
  ultimately show ?thesis using rob_run_order [OF ok assms(1), of ms] unfolding rob_overfull [OF assms(1)] by simp
qed

theorem rob_retires_one_more_than_width_witness:
  "count_list (fst (rob_run 128 4 (replicate (2 * 4) 0) rob_init)) 1 = 4 + 1 \<and> sorted (fst (rob_run 128 4 [3, 1, 9] rob_init))"
  using rob_retires_one_more_than_width [of 4 128 "[3, 1, 9]" 0] by simp

end
