(* ===== verification/FilterCache.thy ===== *)
theory FilterCache
  imports Coherence
begin

unbundle bit_operations_syntax

section \<open>Filter caches\<close>

text \<open>
  \<open>FilterCache\<close> (filter_cache.h): the direct-mapped array in front of a core's L1. The part it
  inherits from \<open>Cache\<close> is the cache \<open>fc_id\<close> of the hierarchy. \<open>procMask\<close> and \<open>lineBits\<close>
  are globals of the process. The array is a function of the index.
\<close>

record filter_entry =
  rdAddr :: address
  wrAddr :: address
  availCycle :: u64

record filter_cache =
  filterArray :: "nat \<Rightarrow> filter_entry"
  fc_srcId :: u32
  reqFlags :: u32
  fGETSHit :: u64
  fGETXHit :: u64

record filter_cfg =
  fc_id :: nat
  fc_setMask :: address
  procMask :: address
  lineBits :: nat

definition entry_cleared :: filter_entry where
  "entry_cleared = \<lparr>rdAddr = 0, wrAddr = 0, availCycle = 0\<rparr>"

definition filter_init :: filter_cache where
  "filter_init = \<lparr>filterArray = (\<lambda>_. entry_cleared), fc_srcId = -1, reqFlags = 0, fGETSHit = 0, fGETXHit = 0\<rparr>"

definition setSourceId :: "u32 \<Rightarrow> filter_cache \<Rightarrow> filter_cache" where
  "setSourceId i f = f\<lparr>fc_srcId := i\<rparr>"

definition setFlags :: "u32 \<Rightarrow> filter_cache \<Rightarrow> filter_cache" where
  "setFlags fl f = f\<lparr>reqFlags := fl\<rparr>"

definition filter_idx :: "filter_cfg \<Rightarrow> address \<Rightarrow> nat" where
  "filter_idx g line = unat (ucast (line AND fc_setMask g) :: u32)"

definition line_of :: "filter_cfg \<Rightarrow> address \<Rightarrow> address" where
  "line_of g vAddr = drop_bit (lineBits g) vAddr"

text \<open>
  The filter array is read and written under the filter lock, which \<open>core_access\<close> holds
  around the access of the cache.
\<close>

definition replace :: "('a, 'm) access_fun \<Rightarrow> state_ref \<Rightarrow> filter_cfg \<Rightarrow> address \<Rightarrow> nat \<Rightarrow> bool \<Rightarrow> u64 \<Rightarrow> address
    \<Rightarrow> filter_cache \<times> ('a, 'm) hier \<Rightarrow> (u64 \<times> filter_cache \<times> ('a, 'm) hier) res" where
  "replace ac dummy g line idx isLoad curCycle pc' fh = (case fh of (f, h) \<Rightarrow>
     rbind (core_access ac dummy
         \<lparr>op_cache = fc_id g, op_addr = procMask g OR line, op_load = isLoad, op_cycle = curCycle,
          op_src = fc_srcId f, op_flags = reqFlags f, op_pc = pc'\<rparr> h) (\<lambda>(resp, h1).
     let e = filterArray f idx
     in Inr (resp, f\<lparr>filterArray := (filterArray f)(idx :=
          \<lparr>rdAddr = line, wrAddr = (if isLoad then -1 else line),
           availCycle = (if rdAddr e \<noteq> line then resp else availCycle e)\<rparr>)\<rparr>, h1)))"

definition filter_load :: "('a, 'm) access_fun \<Rightarrow> state_ref \<Rightarrow> filter_cfg \<Rightarrow> address \<Rightarrow> u64 \<Rightarrow> address
    \<Rightarrow> filter_cache \<times> ('a, 'm) hier \<Rightarrow> (u64 \<times> filter_cache \<times> ('a, 'm) hier) res" where
  "filter_load ac dummy g vAddr curCycle pc' fh = (case fh of (f, h) \<Rightarrow>
     let line = line_of g vAddr; idx = filter_idx g line; avail = availCycle (filterArray f idx)
     in if line = rdAddr (filterArray f idx)
        then Inr (max curCycle avail, f\<lparr>fGETSHit := fGETSHit f + 1\<rparr>, h)
        else replace ac dummy g line idx True curCycle pc' (f, h))"

definition filter_store :: "('a, 'm) access_fun \<Rightarrow> state_ref \<Rightarrow> filter_cfg \<Rightarrow> address \<Rightarrow> u64 \<Rightarrow> address
    \<Rightarrow> filter_cache \<times> ('a, 'm) hier \<Rightarrow> (u64 \<times> filter_cache \<times> ('a, 'm) hier) res" where
  "filter_store ac dummy g vAddr curCycle pc' fh = (case fh of (f, h) \<Rightarrow>
     let line = line_of g vAddr; idx = filter_idx g line; avail = availCycle (filterArray f idx)
     in if line = wrAddr (filterArray f idx)
        then Inr (max curCycle avail, f\<lparr>fGETXHit := fGETXHit f + 1\<rparr>, h)
        else replace ac dummy g line idx False curCycle pc' (f, h))"

text \<open>The effect of an invalidation on the filter array, and \<open>invalidate\<close> with its locks.\<close>

definition drop_line :: "filter_cfg \<Rightarrow> address \<Rightarrow> filter_cache \<Rightarrow> filter_cache" where
  "drop_line g pline f = (let idx = filter_idx g pline; e = filterArray f idx
     in if (rdAddr e OR procMask g) = pline
        then f\<lparr>filterArray := (filterArray f)(idx := e\<lparr>wrAddr := -1, rdAddr := -1\<rparr>)\<rparr> else f)"

definition finishInvalidate :: "('a, 'm) inval_fun \<Rightarrow> 'a array_ops \<Rightarrow> cache_cfg \<Rightarrow> nat \<Rightarrow>
    inv_req \<Rightarrow> bool \<Rightarrow> ('a, 'm) hier \<Rightarrow> (u64 \<times> bool \<times> ('a, 'm) hier) res" where
  "finishInvalidate invl ops cfg c req wb h =
     rbind (a_lookup ops (i_lineAddr req) None False (get_arr h c)) (\<lambda>(lid, a).
     case lid of
       None \<Rightarrow> Inl AssertFail
     | Some l \<Rightarrow> cc_processInv invl cfg c req wb l (i_cycle req + ucast (invLat cfg)) (set_arr c a h))"

definition filter_invalidate :: "('a, 'm) inval_fun \<Rightarrow> 'a array_ops \<Rightarrow> cache_cfg \<Rightarrow> filter_cfg \<Rightarrow>
    inv_req \<Rightarrow> bool \<Rightarrow> filter_cache \<times> ('a, 'm) hier \<Rightarrow> (u64 \<times> bool \<times> filter_cache \<times> ('a, 'm) hier) res" where
  "filter_invalidate invl ops cfg g req wb fh = (case fh of (f, h) \<Rightarrow>
     rbind (cc_startInv (fc_id g) h) (\<lambda>h1.
     rbind (lock_acquire (FilterLock (fc_id g)) h1) (\<lambda>h2.
     rbind (finishInvalidate invl ops cfg (fc_id g) req wb h2) (\<lambda>(resp, wb1, h3).
     Inr (resp, wb1, drop_line g (i_lineAddr req) f, lock_release (FilterLock (fc_id g)) h3)))))"

definition filter_contextSwitch :: "filter_cache \<Rightarrow> filter_cache" where
  "filter_contextSwitch f = f\<lparr>filterArray := (\<lambda>_. entry_cleared)\<rparr>"

subsection \<open>What the filter array holds\<close>

text \<open>
  The accesses that reached the cache, the invalidations and the context switches, the last
  one first; and the line that the last access of a set brought, if it is still there.
\<close>

datatype filter_event = Fill address bool | Inval address | Switch

fun last_fill :: "filter_cfg \<Rightarrow> nat \<Rightarrow> filter_event list \<Rightarrow> (address \<times> bool) option" where
  "last_fill g i [] = None"
| "last_fill g i (Fill line ld # es) = (if filter_idx g line = i then Some (line, ld) else last_fill g i es)"
| "last_fill g i (Inval p # es) = (case last_fill g i es of None \<Rightarrow> None
     | Some (line, ld) \<Rightarrow> if filter_idx g p = i \<and> (line OR procMask g) = p then None else Some (line, ld))"
| "last_fill g i (Switch # es) = None"

datatype filter_op = FLoad address u64 address | FStore address u64 address | FInval inv_req bool | FSwitch

text \<open>
  A run of operations; the hierarchy may change between them (\<open>env\<close>: the accesses of the other
  cores). The answers are recorded, and the events in the order above.
\<close>

definition filter_step :: "('a, 'm) access_fun \<Rightarrow> ('a, 'm) inval_fun \<Rightarrow> 'a array_ops \<Rightarrow> cache_cfg \<Rightarrow> state_ref \<Rightarrow> filter_cfg \<Rightarrow> filter_op
    \<Rightarrow> filter_cache \<times> ('a, 'm) hier \<Rightarrow> (u64 \<times> filter_cache \<times> ('a, 'm) hier) res" where
  "filter_step ac invl ops cfg dummy g p fh = (case p of
       FLoad a c pc' \<Rightarrow> filter_load ac dummy g a c pc' fh
     | FStore a c pc' \<Rightarrow> filter_store ac dummy g a c pc' fh
     | FInval req wb \<Rightarrow> rbind (filter_invalidate invl ops cfg g req wb fh) (\<lambda>(resp, _, fh1). Inr (resp, fh1))
     | FSwitch \<Rightarrow> Inr (0, filter_contextSwitch (fst fh), snd fh))"

definition load_hits :: "filter_cfg \<Rightarrow> address \<Rightarrow> filter_cache \<Rightarrow> bool" where
  "load_hits g a f \<longleftrightarrow> rdAddr (filterArray f (filter_idx g (line_of g a))) = line_of g a"

definition store_hits :: "filter_cfg \<Rightarrow> address \<Rightarrow> filter_cache \<Rightarrow> bool" where
  "store_hits g a f \<longleftrightarrow> wrAddr (filterArray f (filter_idx g (line_of g a))) = line_of g a"

definition event_of :: "filter_cfg \<Rightarrow> filter_op \<Rightarrow> filter_cache \<Rightarrow> filter_event list" where
  "event_of g p f = (case p of
       FLoad a c pc' \<Rightarrow> if load_hits g a f then [] else [Fill (line_of g a) True]
     | FStore a c pc' \<Rightarrow> if store_hits g a f then [] else [Fill (line_of g a) False]
     | FInval req wb \<Rightarrow> [Inval (i_lineAddr req)]
     | FSwitch \<Rightarrow> [Switch])"

inductive filter_run :: "('a, 'm) access_fun \<Rightarrow> ('a, 'm) inval_fun \<Rightarrow> 'a array_ops \<Rightarrow> cache_cfg \<Rightarrow> state_ref \<Rightarrow> filter_cfg
    \<Rightarrow> filter_cache \<Rightarrow> filter_event list \<Rightarrow> bool" for ac invl ops cfg dummy g where
  start: "filter_run ac invl ops cfg dummy g filter_init []"
| config: "filter_run ac invl ops cfg dummy g f es \<Longrightarrow> filter_run ac invl ops cfg dummy g (setFlags fl (setSourceId i f)) es"
| step: "filter_run ac invl ops cfg dummy g f es \<Longrightarrow> filter_step ac invl ops cfg dummy g p (f, h) = Inr (resp, f', h')
    \<Longrightarrow> filter_run ac invl ops cfg dummy g f' (event_of g p f @ es)"

definition entry_matches :: "filter_entry \<Rightarrow> (address \<times> bool) option \<Rightarrow> bool" where
  "entry_matches e o' \<longleftrightarrow> (case o' of
       None \<Rightarrow> rdAddr e \<in> {0, -1} \<and> wrAddr e \<in> {0, -1}
     | Some (line, ld) \<Rightarrow> rdAddr e = line \<and> wrAddr e = (if ld then -1 else line))"

definition filter_matches :: "filter_cfg \<Rightarrow> filter_cache \<Rightarrow> filter_event list \<Rightarrow> bool" where
  "filter_matches g f es \<longleftrightarrow> (\<forall>i. entry_matches (filterArray f i) (last_fill g i es))"

lemma replace_entry:
  assumes "replace ac dummy g line i ld c pc' (f, h) = Inr (resp, f', h')"
  shows "filterArray f' j = (if j = i then \<lparr>rdAddr = line, wrAddr = (if ld then -1 else line),
    availCycle = (if rdAddr (filterArray f i) \<noteq> line then resp else availCycle (filterArray f i))\<rparr> else filterArray f j)"
  using assms by (cases "core_access ac dummy \<lparr>op_cache = fc_id g, op_addr = procMask g OR line, op_load = ld, op_cycle = c,
          op_src = fc_srcId f, op_flags = reqFlags f, op_pc = pc'\<rparr> h") (auto simp: replace_def Let_def rbind_def)

lemma matches_replace:
  assumes "filter_matches g f es" and "replace ac dummy g line (filter_idx g line) ld c pc' (f, h) = Inr (resp, f', h')"
  shows "filter_matches g f' (Fill line ld # es)"
  using assms(1) unfolding filter_matches_def replace_entry [OF assms(2)] by (simp add: entry_matches_def)

lemma matches_drop:
  assumes "filter_matches g f es"
  shows "filter_matches g (drop_line g p f) (Inval p # es)"
  unfolding filter_matches_def
proof (intro allI)
  fix i
  from assms have m: "entry_matches (filterArray f i) (last_fill g i es)" by (simp add: filter_matches_def)
  show "entry_matches (filterArray (drop_line g p f) i) (last_fill g i (Inval p # es))"
    using m by (cases "last_fill g i es") (auto simp: drop_line_def Let_def entry_matches_def)
qed

lemma load_step:
  assumes "filter_load ac dummy g a c pc' (f, h) = Inr (resp, f', h')" and "filter_matches g f es"
  shows "filter_matches g f' (event_of g (FLoad a c pc') f @ es)"
proof (cases "load_hits g a f")
  case True
  then show ?thesis using assms by (auto simp: filter_load_def load_hits_def event_of_def filter_matches_def Let_def)
next
  case False
  then have "replace ac dummy g (line_of g a) (filter_idx g (line_of g a)) True c pc' (f, h) = Inr (resp, f', h')"
    using assms(1) by (auto simp: filter_load_def load_hits_def Let_def)
  from matches_replace [OF assms(2) this] show ?thesis using False by (simp add: event_of_def)
qed

lemma store_step:
  assumes "filter_store ac dummy g a c pc' (f, h) = Inr (resp, f', h')" and "filter_matches g f es"
  shows "filter_matches g f' (event_of g (FStore a c pc') f @ es)"
proof (cases "store_hits g a f")
  case True
  then show ?thesis using assms by (auto simp: filter_store_def store_hits_def event_of_def filter_matches_def Let_def)
next
  case False
  then have "replace ac dummy g (line_of g a) (filter_idx g (line_of g a)) False c pc' (f, h) = Inr (resp, f', h')"
    using assms(1) by (auto simp: filter_store_def store_hits_def Let_def)
  from matches_replace [OF assms(2) this] show ?thesis using False by (simp add: event_of_def)
qed

lemma run_matches: "filter_run ac invl ops cfg dummy g f es \<Longrightarrow> filter_matches g f es"
proof (induction rule: filter_run.induct)
  case start
  show ?case by (simp add: filter_matches_def filter_init_def entry_cleared_def entry_matches_def)
next
  case (config f es fl i)
  then show ?case by (simp add: filter_matches_def setFlags_def setSourceId_def)
next
  case (step f es p h resp f' h')
  show ?case
  proof (cases p)
    case (FLoad a c pc')
    then show ?thesis using load_step [OF _ step.IH] step.hyps by (simp add: filter_step_def)
  next
    case (FStore a c pc')
    then show ?thesis using store_step [OF _ step.IH] step.hyps by (simp add: filter_step_def)
  next
    case (FInval req wb)
    then have "f' = drop_line g (i_lineAddr req) f"
      using step.hyps by (auto simp: filter_step_def filter_invalidate_def rbind_def split: sum.splits prod.splits)
    then show ?thesis using matches_drop [OF step.IH] FInval by (simp add: event_of_def)
  next
    case FSwitch
    then show ?thesis using step.hyps
      by (auto simp: filter_step_def filter_contextSwitch_def event_of_def filter_matches_def entry_cleared_def entry_matches_def)
  qed
qed

lemma line_not_minus_one: "0 < lineBits g \<Longrightarrow> line_of g a \<noteq> -1"
proof
  assume b: "0 < lineBits g" and e: "line_of g a = -1"
  have "\<not> bit (line_of g a) 63" using b bit_imp_le_length [of a "lineBits g + 63"] by (auto simp: line_of_def bit_drop_bit_eq)
  then show False unfolding e by simp
qed

text \<open>
  C0. A filter answers by itself exactly the right accesses: a load of a line hits if and only
  if the line is the one that the last access of its set to the cache brought, with no
  invalidation of it and no context switch since; a store hits if and only if that access was
  a store. A hit answers at its own cycle or when the line arrives and leaves the hierarchy
  alone; all other accesses go to the cache. (Line 0 is excluded, see
  \<open>filter_line_zero_hits_when_empty\<close>.)
\<close>

theorem filter_hits_exactly:
  assumes "filter_run ac invl ops cfg dummy g f es" and "0 < lineBits g" and "line_of g a \<noteq> 0"
  shows "(load_hits g a f \<longleftrightarrow> (\<exists>ld. last_fill g (filter_idx g (line_of g a)) es = Some (line_of g a, ld)))
    \<and> (store_hits g a f \<longleftrightarrow> last_fill g (filter_idx g (line_of g a)) es = Some (line_of g a, False))
    \<and> filter_load ac dummy g a c pc' (f, h) = (if load_hits g a f
        then Inr (max c (availCycle (filterArray f (filter_idx g (line_of g a)))), f\<lparr>fGETSHit := fGETSHit f + 1\<rparr>, h)
        else replace ac dummy g (line_of g a) (filter_idx g (line_of g a)) True c pc' (f, h))
    \<and> filter_store ac dummy g a c pc' (f, h) = (if store_hits g a f
        then Inr (max c (availCycle (filterArray f (filter_idx g (line_of g a)))), f\<lparr>fGETXHit := fGETXHit f + 1\<rparr>, h)
        else replace ac dummy g (line_of g a) (filter_idx g (line_of g a)) False c pc' (f, h))"
proof -
  have m: "entry_matches (filterArray f (filter_idx g (line_of g a))) (last_fill g (filter_idx g (line_of g a)) es)"
    using run_matches [OF assms(1)] by (simp add: filter_matches_def)
  have "load_hits g a f \<longleftrightarrow> (\<exists>ld. last_fill g (filter_idx g (line_of g a)) es = Some (line_of g a, ld))"
    using m assms(3) line_not_minus_one [OF assms(2), of a]
    by (cases "last_fill g (filter_idx g (line_of g a)) es") (auto simp: entry_matches_def load_hits_def)
  moreover have "store_hits g a f \<longleftrightarrow> last_fill g (filter_idx g (line_of g a)) es = Some (line_of g a, False)"
    using m assms(3) line_not_minus_one [OF assms(2), of a]
    by (cases "last_fill g (filter_idx g (line_of g a)) es") (auto simp: entry_matches_def store_hits_def split: if_splits)
  ultimately show ?thesis by (auto simp: filter_load_def filter_store_def load_hits_def store_hits_def Let_def)
qed

definition demo_filter :: filter_cfg where
  "demo_filter = \<lparr>fc_id = 0, fc_setMask = 63, procMask = 0x100000000000000, lineBits = 6\<rparr>"

definition demo_l1 :: "(unit, unit) access_fun" where
  "demo_l1 ob req h = Inr (cycle req + 7, h)"

theorem filter_hits_exactly_witness:
  "\<exists>f h es. filter_run demo_l1 iv ao cc (3, 0) demo_filter f es \<and> load_hits demo_filter 0x1008 f \<and> \<not> store_hits demo_filter 0x1008 f
     \<and> filter_load demo_l1 (3, 0) demo_filter 0x1008 9 0 (f, h) = Inr (12, f\<lparr>fGETSHit := fGETSHit f + 1\<rparr>, h)"
proof -
  let ?h = "hier_init () (\<lambda>_. ()) :: (unit, unit) hier"
  obtain resp f h where s: "filter_step demo_l1 iv ao cc (3, 0) demo_filter (FLoad 0x1000 5 0) (filter_init, ?h) = Inr (resp, f, h)"
    "filterArray f 0 = \<lparr>rdAddr = 64, wrAddr = -1, availCycle = 12\<rparr>"
    by (simp add: filter_step_def filter_load_def demo_filter_def filter_init_def entry_cleared_def line_of_def filter_idx_def
        Let_def replace_def core_access_def lock_acquire_def hier_init_def rbind_def demo_l1_def core_request_def drop_bit_numeral_minus_bit1)
  have r: "filter_run demo_l1 iv ao cc (3, 0) demo_filter f (event_of demo_filter (FLoad 0x1000 5 0) filter_init @ [])"
    using filter_run.step [OF filter_run.start s(1)] .
  have l: "line_of demo_filter 0x1008 = 64" "line_of demo_filter 0x1000 = 64" "filter_idx demo_filter 64 = 0"
    by (simp_all add: line_of_def demo_filter_def filter_idx_def)
  have b: "0 < lineBits demo_filter" "line_of demo_filter 0x1008 \<noteq> 0" by (simp add: demo_filter_def) (simp add: l)
  have e: "event_of demo_filter (FLoad 0x1000 5 0) filter_init = [Fill 64 True]"
    by (simp add: event_of_def load_hits_def l filter_init_def entry_cleared_def)
  show ?thesis using filter_hits_exactly [OF r b, where c = 9 and h = h and pc' = 0] r l s(2) unfolding e
    by (intro exI [of _ f] exI [of _ h] exI [of _ "[Fill 64 True]"]) auto
qed

lemma filter_line_zero_hits_when_empty:
  assumes "line_of g a = 0"
  shows "filter_load ac dummy g a c pc' (filter_contextSwitch f, h) = Inr (c, (filter_contextSwitch f)\<lparr>fGETSHit := fGETSHit f + 1\<rparr>, h)"
  using assms by (simp add: filter_load_def filter_contextSwitch_def entry_cleared_def Let_def)

subsection \<open>Invalidations of a terminal cache\<close>

lemma processInval_held:
  "bcc_processInval c l t wb (h\<lparr>held := k\<rparr>) = rbind (bcc_processInval c l t wb h) (\<lambda>(wb1, h1). Inr (wb1, h1\<lparr>held := k\<rparr>))"
  by (cases t) (auto simp: bcc_processInval_def Let_def hier_simps set_state_def upd_prof_def upd_cache_def rbind_def assert_then_def)

text \<open>On the hierarchy an invalidation of a filter cache is the invalidation of its L1.\<close>

lemma filter_invalidate_as_cache:
  assumes "terminal cfg" and "\<not> held h (FilterLock (fc_id g))"
  shows "filter_invalidate invl ops cfg g req wb (f, h) = rbind (cache_invalidate invl ops cfg (fc_id g) req wb h)
    (\<lambda>(resp, wb1, h1). Inr (resp, wb1, drop_line g (i_lineAddr req) f, h1))"
proof (cases "held h (BccLock (fc_id g))")
  case True
  then show ?thesis by (simp add: filter_invalidate_def cache_invalidate_def cc_startInv_def lock_acquire_def)
next
  case False
  let ?c = "fc_id g"
  let ?B = "(held h)(BccLock ?c := True)"
  let ?F = "?B(FilterLock ?c := True)"
  have set: "set_arr c a (x\<lparr>held := k\<rparr>) = (set_arr c a x)\<lparr>held := k\<rparr>" for c a k and x :: "('a, 'b) hier"
    by (simp add: set_arr_def upd_cache_def)
  have rel: "lock_release (FilterLock ?c) (lock_release (BccLock ?c) (x\<lparr>held := ?F\<rparr>)) = lock_release (BccLock ?c) (x\<lparr>held := ?B\<rparr>)"
    for x :: "('a, 'b) hier" using assms(2) by (auto simp: lock_release_def fun_eq_iff)
  show ?thesis
    using False assms
    by (simp add: filter_invalidate_def cache_invalidate_def cc_startInv_def lock_acquire_def finishInvalidate_def hier_simps)
      (auto simp: rbind_def cc_processInv_def term_processInv_def set processInval_held rel hier_simps
        split: sum.splits option.splits prod.splits)
qed

end
