(* ===== verification/Cores.thy ===== *)
theory Cores
  imports FilterCache
begin

section \<open>The simple and the null core\<close>

text \<open>
  simple_core.cpp and null_core.cpp, and what the cores share: the two filter caches with the
  hierarchy behind them, the instruction fetch of a basic block, and the end of a phase.
  Registration of statistics and the trampolines that pick the core of a thread are left out.
\<close>

subsection \<open>The caches of a core\<close>

record ('a, 'm) core_mem =
  l1i :: filter_cache
  l1d :: filter_cache
  mem_hier :: "('a, 'm) hier"

text \<open>How a core reaches its caches: the access function of the hierarchy, the caller's dummy state.\<close>

record ('a, 'm) l1_ports =
  lp_access :: "('a, 'm) access_fun"
  lp_dummy :: state_ref
  lp_l1i :: filter_cfg
  lp_l1d :: filter_cfg

definition l1i_load :: "('a, 'm) l1_ports \<Rightarrow> address \<Rightarrow> u64 \<Rightarrow> address \<Rightarrow> ('a, 'm) core_mem \<Rightarrow> (u64 \<times> ('a, 'm) core_mem) res" where
  "l1i_load L a cyc p m = rbind (filter_load (lp_access L) (lp_dummy L) (lp_l1i L) a cyc p (l1i m, mem_hier m))
     (\<lambda>(resp, f, h). Inr (resp, m\<lparr>l1i := f, mem_hier := h\<rparr>))"

definition l1d_load :: "('a, 'm) l1_ports \<Rightarrow> address \<Rightarrow> u64 \<Rightarrow> address \<Rightarrow> ('a, 'm) core_mem \<Rightarrow> (u64 \<times> ('a, 'm) core_mem) res" where
  "l1d_load L a cyc p m = rbind (filter_load (lp_access L) (lp_dummy L) (lp_l1d L) a cyc p (l1d m, mem_hier m))
     (\<lambda>(resp, f, h). Inr (resp, m\<lparr>l1d := f, mem_hier := h\<rparr>))"

definition l1d_store :: "('a, 'm) l1_ports \<Rightarrow> address \<Rightarrow> u64 \<Rightarrow> address \<Rightarrow> ('a, 'm) core_mem \<Rightarrow> (u64 \<times> ('a, 'm) core_mem) res" where
  "l1d_store L a cyc p m = rbind (filter_store (lp_access L) (lp_dummy L) (lp_l1d L) a cyc p (l1d m, mem_hier m))
     (\<lambda>(resp, f, h). Inr (resp, m\<lparr>l1d := f, mem_hier := h\<rparr>))"

definition mem_contextSwitch :: "int \<Rightarrow> ('a, 'm) core_mem \<Rightarrow> ('a, 'm) core_mem" where
  "mem_contextSwitch gid m = (if gid = -1
     then m\<lparr>l1i := filter_contextSwitch (l1i m), l1d := filter_contextSwitch (l1d m)\<rparr> else m)"

subsection \<open>Fetching a basic block\<close>

record bbl_info =
  b_instrs :: u32
  b_bytes :: u32

text \<open>
  The addresses that the fetch loop visits. The loop compares 64-bit addresses and need not end
  for a block at the end of the address space.
\<close>

partial_function (option) fetch_addrs :: "nat \<Rightarrow> address \<Rightarrow> address \<Rightarrow> address list option" where
  "fetch_addrs lb endAddr a = (if a < endAddr
     then Option.bind (fetch_addrs lb endAddr (a + push_bit lb 1)) (\<lambda>xs. Some (a # xs))
     else Some [])"

definition opt_return :: "'a option \<Rightarrow> 'a res" where
  "opt_return x = (case x of None \<Rightarrow> Inl NoReturn | Some y \<Rightarrow> Inr y)"

subsection \<open>The simple core\<close>

record ('a, 'm) simple_core =
  sc_mem :: "('a, 'm) core_mem"
  sc_instrs :: u64
  sc_curCycle :: u64
  sc_phaseEndCycle :: u64
  sc_haltedCycles :: u64

definition simple_load :: "('a, 'm) l1_ports \<Rightarrow> address \<Rightarrow> address \<Rightarrow> ('a, 'm) simple_core \<Rightarrow> ('a, 'm) simple_core res" where
  "simple_load L a p k = rbind (l1d_load L a (sc_curCycle k) p (sc_mem k)) (\<lambda>(c, m). Inr (k\<lparr>sc_curCycle := c, sc_mem := m\<rparr>))"

definition simple_store :: "('a, 'm) l1_ports \<Rightarrow> address \<Rightarrow> address \<Rightarrow> ('a, 'm) simple_core \<Rightarrow> ('a, 'm) simple_core res" where
  "simple_store L a p k = rbind (l1d_store L a (sc_curCycle k) p (sc_mem k)) (\<lambda>(c, m). Inr (k\<lparr>sc_curCycle := c, sc_mem := m\<rparr>))"

text \<open>Predicated accesses that are not executed do nothing.\<close>

definition simple_pred_load :: "('a, 'm) l1_ports \<Rightarrow> address \<Rightarrow> address \<Rightarrow> bool \<Rightarrow> ('a, 'm) simple_core \<Rightarrow> ('a, 'm) simple_core res" where
  "simple_pred_load L a p pred k = (if pred then simple_load L a p k else Inr k)"

definition simple_pred_store :: "('a, 'm) l1_ports \<Rightarrow> address \<Rightarrow> address \<Rightarrow> bool \<Rightarrow> ('a, 'm) simple_core \<Rightarrow> ('a, 'm) simple_core res" where
  "simple_pred_store L a p pred k = (if pred then simple_store L a p k else Inr k)"

fun simple_fetch :: "('a, 'm) l1_ports \<Rightarrow> address list \<Rightarrow> ('a, 'm) simple_core \<Rightarrow> ('a, 'm) simple_core res" where
  "simple_fetch L [] k = Inr k"
| "simple_fetch L (a # as) k = rbind (l1i_load L a (sc_curCycle k) a (sc_mem k)) (\<lambda>(c, m).
     simple_fetch L as (k\<lparr>sc_curCycle := c, sc_mem := m\<rparr>))"

definition simple_bbl :: "('a, 'm) l1_ports \<Rightarrow> address \<Rightarrow> bbl_info \<Rightarrow> ('a, 'm) simple_core \<Rightarrow> ('a, 'm) simple_core res" where
  "simple_bbl L bblAddr b k =
     (let k1 = k\<lparr>sc_instrs := sc_instrs k + ucast (b_instrs b), sc_curCycle := sc_curCycle k + ucast (b_instrs b)\<rparr>
      in rbind (opt_return (fetch_addrs (lineBits (lp_l1i L)) (bblAddr + ucast (b_bytes b)) bblAddr)) (\<lambda>as. simple_fetch L as k1))"

definition simple_contextSwitch :: "int \<Rightarrow> ('a, 'm) simple_core \<Rightarrow> ('a, 'm) simple_core" where
  "simple_contextSwitch gid k = k\<lparr>sc_mem := mem_contextSwitch gid (sc_mem k)\<rparr>"

text \<open>\<open>glob\<close> and \<open>len\<close> are the cycle at which the phase began and the length of a phase.\<close>

definition simple_join :: "u64 \<Rightarrow> u64 \<Rightarrow> ('a, 'm) simple_core \<Rightarrow> ('a, 'm) simple_core" where
  "simple_join glob len k =
     (let k1 = (if sc_curCycle k < glob
                then k\<lparr>sc_haltedCycles := sc_haltedCycles k + (glob - sc_curCycle k), sc_curCycle := glob\<rparr> else k)
      in k1\<lparr>sc_phaseEndCycle := glob + len\<rparr>)"

definition simple_getPhaseCycles :: "u64 \<Rightarrow> ('a, 'm) simple_core \<Rightarrow> u64" where
  "simple_getPhaseCycles len k = sc_curCycle k mod len"

definition simple_getCycles :: "('a, 'm) simple_core \<Rightarrow> u64" where
  "simple_getCycles k = sc_curCycle k - sc_haltedCycles k"

subsection \<open>The null core\<close>

record null_core =
  nc_instrs :: u64
  nc_curCycle :: u64
  nc_phaseEndCycle :: u64

definition null_init :: null_core where
  "null_init = \<lparr>nc_instrs = 0, nc_curCycle = 0, nc_phaseEndCycle = 0\<rparr>"

definition null_bbl :: "bbl_info \<Rightarrow> null_core \<Rightarrow> null_core" where
  "null_bbl b k = k\<lparr>nc_instrs := nc_instrs k + ucast (b_instrs b), nc_curCycle := nc_curCycle k + ucast (b_instrs b)\<rparr>"

definition null_join :: "u64 \<Rightarrow> u64 \<Rightarrow> null_core \<Rightarrow> null_core" where
  "null_join glob len k = k\<lparr>nc_curCycle := max (nc_curCycle k) glob, nc_phaseEndCycle := glob + len\<rparr>"

definition null_getPhaseCycles :: "u64 \<Rightarrow> null_core \<Rightarrow> u64" where
  "null_getPhaseCycles glob k = nc_curCycle k - glob"

subsection \<open>The end of a phase\<close>

text \<open>
  After a basic block the core waits at the barrier for every phase end it has passed.
  \<open>TakeBarrier\<close> is the scheduler as a core sees it: \<open>'w\<close> is the state of the simulator with
  the start of the phase (\<open>glob\<close>), and the answer says whether the thread still owns the core.
  While it waits the core may serve other threads, so that it acts on the core as well. The
  simple and the null core assert that the end of the phase is theirs (\<open>chk\<close>).
\<close>

partial_function (option) phase_loop :: "bool \<Rightarrow> ('c \<times> 'w \<Rightarrow> bool \<times> 'c \<times> 'w) \<Rightarrow> ('w \<Rightarrow> u64) \<Rightarrow> u64
    \<Rightarrow> ('c \<Rightarrow> u64) \<Rightarrow> ('c \<Rightarrow> u64) \<Rightarrow> (u64 \<Rightarrow> 'c \<Rightarrow> 'c) \<Rightarrow> 'c \<times> 'w \<Rightarrow> ('c \<times> 'w) res option" where
  "phase_loop chk takeBarrier glob len cur pend set_pend kw = (case kw of (k, w) \<Rightarrow>
     if pend k < cur k then
       (if chk \<and> pend k \<noteq> glob w + len then Some (Inl AssertFail)
        else (case takeBarrier (set_pend (pend k + len) k, w) of (same, k1, w1) \<Rightarrow>
               if same then phase_loop chk takeBarrier glob len cur pend set_pend (k1, w1) else Some (Inr (k1, w1))))
     else Some (Inr (k, w)))"

definition simple_BblFunc :: "(('a, 'm) simple_core \<times> 'w \<Rightarrow> bool \<times> ('a, 'm) simple_core \<times> 'w) \<Rightarrow> ('w \<Rightarrow> u64) \<Rightarrow> u64
    \<Rightarrow> ('a, 'm) l1_ports \<Rightarrow> address \<Rightarrow> bbl_info \<Rightarrow> ('a, 'm) simple_core \<times> 'w \<Rightarrow> (('a, 'm) simple_core \<times> 'w) res" where
  "simple_BblFunc takeBarrier glob len L bblAddr b kw = rbind (simple_bbl L bblAddr b (fst kw)) (\<lambda>k.
     rbind (opt_return (phase_loop True takeBarrier glob len sc_curCycle sc_phaseEndCycle (\<lambda>c k. k\<lparr>sc_phaseEndCycle := c\<rparr>) (k, snd kw)))
       (\<lambda>r. r))"

definition null_BblFunc :: "(null_core \<times> 'w \<Rightarrow> bool \<times> null_core \<times> 'w) \<Rightarrow> ('w \<Rightarrow> u64) \<Rightarrow> u64
    \<Rightarrow> bbl_info \<Rightarrow> null_core \<times> 'w \<Rightarrow> (null_core \<times> 'w) res" where
  "null_BblFunc takeBarrier glob len b kw =
     rbind (opt_return (phase_loop True takeBarrier glob len nc_curCycle nc_phaseEndCycle (\<lambda>c k. k\<lparr>nc_phaseEndCycle := c\<rparr>)
        (null_bbl b (fst kw), snd kw))) (\<lambda>r. r)"

subsection \<open>The fetch loop\<close>

text \<open>The number of fetches of a block: one for each line that its length fills or begins.\<close>

definition fetch_count :: "nat \<Rightarrow> nat \<Rightarrow> nat" where
  "fetch_count lb bytes = (bytes + 2 ^ lb - 1) div 2 ^ lb"

lemma fetch_addrs_steps:
  assumes "lb < 64" and "unat a + n * 2 ^ lb < 2 ^ 64" and "\<forall>i<n. unat a + i * 2 ^ lb < unat e" and "unat e \<le> unat a + n * 2 ^ lb"
  shows "fetch_addrs lb e a = Some (map (\<lambda>i. a + of_nat (i * 2 ^ lb)) [0..<n])"
  using assms(2-4)
proof (induction n arbitrary: a)
  case 0
  then have "\<not> a < e" by (simp add: word_less_nat_alt)
  then show ?case by (subst fetch_addrs.simps) simp
next
  case (Suc n)
  have lt: "a < e" using Suc.prems(2) [rule_format, of 0] by (simp add: word_less_nat_alt)
  have p: "unat (push_bit lb 1 :: u64) = 2 ^ lb" using assms(1) by simp
  have no: "unat a + 2 ^ lb < 2 ^ 64" using Suc.prems(1) by (simp add: algebra_simps)
  have u: "unat (a + push_bit lb 1) = unat a + 2 ^ lb" using no p by (simp add: unat_word_ariths)
  have IH: "fetch_addrs lb e (a + push_bit lb 1) = Some (map (\<lambda>i. (a + push_bit lb 1) + of_nat (i * 2 ^ lb)) [0..<n])"
  proof (rule Suc.IH)
    show "unat (a + push_bit lb 1) + n * 2 ^ lb < 2 ^ 64" unfolding u using Suc.prems(1) by simp
    show "\<forall>i<n. unat (a + push_bit lb 1) + i * 2 ^ lb < unat e" unfolding u using Suc.prems(2)
      by (metis Suc_mono add.assoc mult_Suc)
    show "unat e \<le> unat (a + push_bit lb 1) + n * 2 ^ lb" unfolding u using Suc.prems(3) by simp
  qed
  have "fetch_addrs lb e a = Some (a # map (\<lambda>i. (a + push_bit lb 1) + of_nat (i * 2 ^ lb)) [0..<n])"
    using lt IH by (subst fetch_addrs.simps) simp
  also have "a # map (\<lambda>i. (a + push_bit lb 1) + of_nat (i * 2 ^ lb)) [0..<n] = map (\<lambda>i. a + of_nat (i * 2 ^ lb)) [0..<Suc n]"
    by (simp only: map_upt_Suc) (simp add: algebra_simps)
  finally show ?case .
qed

lemma unat_add_of_nat: "unat (a :: u64) + k < 2 ^ 64 \<Longrightarrow> unat (a + of_nat k) = unat a + k"
  by (simp add: unat_word_ariths unat_of_nat)

lemma fetch_addrs_exact:
  assumes "lb < 64" and "unat a + bytes + 2 ^ lb < 2 ^ 64"
  shows "fetch_addrs lb (a + of_nat bytes) a = Some (map (\<lambda>i. a + of_nat (i * 2 ^ lb)) [0..<fetch_count lb bytes])"
proof (rule fetch_addrs_steps [OF assms(1)])
  have e: "unat (a + of_nat bytes) = unat a + bytes"
    using assms(2) by (simp add: unat_word_ariths unat_of_nat)
  have n: "fetch_count lb bytes * 2 ^ lb \<le> bytes + 2 ^ lb - 1" unfolding fetch_count_def by simp
  show "unat a + fetch_count lb bytes * 2 ^ lb < 2 ^ 64" using n assms(2) by linarith
  show "\<forall>i<fetch_count lb bytes. unat a + i * 2 ^ lb < unat (a + of_nat bytes)"
  proof (intro allI impI)
    fix i assume "i < fetch_count lb bytes"
    then have "Suc i * 2 ^ lb \<le> fetch_count lb bytes * 2 ^ lb" by (intro mult_le_mono1) simp
    then have "i * 2 ^ lb + 2 ^ lb \<le> bytes + 2 ^ lb - 1" using n by simp
    then show "unat a + i * 2 ^ lb < unat (a + of_nat bytes)" unfolding e
      using zero_less_power [of "2 :: nat" lb] by linarith
  qed
  show "unat (a + of_nat bytes) \<le> unat a + fetch_count lb bytes * 2 ^ lb"
  proof -
    have "bytes + 2 ^ lb - 1 < (fetch_count lb bytes + 1) * 2 ^ lb"
      unfolding fetch_count_def by (metis Suc_eq_plus1 dividend_less_div_times mult_Suc add.commute pos2 zero_less_power mult.commute)
    then show ?thesis unfolding e by simp
  qed
qed

text \<open>
  C0. The fetch of a basic block visits consecutive lines from the line of its first byte on,
  each of them a line of the block; it misses exactly the last line of a block that begins in
  the middle of a line and reaches into one line more than its length alone fills.
\<close>

theorem fetch_lines:
  assumes "lb < 64" and "unat a + bytes + 2 ^ lb < 2 ^ 64"
  shows "\<exists>xs. fetch_addrs lb (a + of_nat bytes) a = Some xs
    \<and> map (\<lambda>x. unat x div 2 ^ lb) xs = [unat a div 2 ^ lb..<unat a div 2 ^ lb + fetch_count lb bytes]
    \<and> (\<forall>k<bytes. (unat a + k) div 2 ^ lb \<in> set (map (\<lambda>x. unat x div 2 ^ lb) xs)
         \<longleftrightarrow> \<not> ((unat a + k) div 2 ^ lb = unat a div 2 ^ lb + fetch_count lb bytes))"
proof -
  let ?L = "2 ^ lb :: nat" and ?n = "fetch_count lb bytes"
  let ?xs = "map (\<lambda>i. a + of_nat (i * 2 ^ lb)) [0..<?n]"
  have L: "0 < ?L" by simp
  have n: "?n * ?L \<le> bytes + ?L - 1" unfolding fetch_count_def by simp
  have up: "bytes + ?L - 1 < (?n + 1) * ?L"
    unfolding fetch_count_def using dividend_less_div_times [OF L, of "bytes + ?L - 1"] by simp
  have u: "unat (a + of_nat (i * 2 ^ lb)) = unat a + i * ?L" if "i < ?n" for i
  proof -
    have "i * ?L \<le> ?n * ?L" using that by (intro mult_le_mono1) simp
    then have "unat a + i * ?L < 2 ^ 64" using n assms(2) by linarith
    then show ?thesis by (rule unat_add_of_nat)
  qed
  have m: "map (\<lambda>x. unat x div ?L) ?xs = map (\<lambda>i. unat a div ?L + i) [0..<?n]"
  proof -
    have "(unat a + i * ?L) div ?L = unat a div ?L + i" for i using L by simp
    then show ?thesis using u by (simp add: comp_def)
  qed
  also have "\<dots> = [unat a div ?L..<unat a div ?L + ?n]"
    by (rule nth_equalityI) simp_all
  finally have ml: "map (\<lambda>x. unat x div ?L) ?xs = [unat a div ?L..<unat a div ?L + ?n]" .
  have "(unat a + k) div ?L \<in> set [unat a div ?L..<unat a div ?L + ?n]
    \<longleftrightarrow> \<not> ((unat a + k) div ?L = unat a div ?L + ?n)" if "k < bytes" for k
  proof -
    have lo: "unat a div ?L \<le> (unat a + k) div ?L" by (intro div_le_mono) simp
    have "unat a + k < (unat a div ?L + 1) * ?L + ?n * ?L"
    proof -
      have "unat a < (unat a div ?L + 1) * ?L" using dividend_less_div_times [OF L, of "unat a"] by simp
      moreover have "k < ?n * ?L" using that up L by simp
      ultimately show ?thesis by linarith
    qed
    then have "(unat a + k) div ?L < unat a div ?L + ?n + 1" using L by (simp add: less_mult_imp_div_less algebra_simps)
    then show ?thesis using lo by auto
  qed
  then show ?thesis unfolding ml [symmetric] using fetch_addrs_exact [OF assms] ml by blast
qed

theorem fetch_lines_witness:
  "\<exists>xs. fetch_addrs 6 (60 + of_nat 10) 60 = Some xs \<and> 0 \<in> set (map (\<lambda>x. unat x div 2 ^ 6) xs)
     \<and> (60 + 4) div 2 ^ 6 \<notin> set (map (\<lambda>x. unat x div 2 ^ 6) xs)"
proof -
  have c: "fetch_count 6 10 = 1" by (simp add: fetch_count_def)
  have b: "(0 :: nat) < 10" "(4 :: nat) < 10" by simp_all
  from fetch_lines [of 6 60 10] obtain xs where x: "fetch_addrs 6 (60 + of_nat 10) 60 = Some xs"
    "\<And>k. k < 10 \<Longrightarrow> (unat (60 :: u64) + k) div 2 ^ 6 \<in> set (map (\<lambda>x. unat x div 2 ^ 6) xs)
         \<longleftrightarrow> \<not> ((unat (60 :: u64) + k) div 2 ^ 6 = unat (60 :: u64) div 2 ^ 6 + fetch_count 6 10)" by auto
  show ?thesis using x(1) x(2) [OF b(1)] x(2) [OF b(2)] unfolding c by (intro exI [of _ xs]) simp
qed

subsection \<open>Phases\<close>

text \<open>What the scheduler promises to a core that keeps its thread: the next phase has begun.\<close>

definition barrier_ok :: "('c \<times> 'w \<Rightarrow> bool \<times> 'c \<times> 'w) \<Rightarrow> ('w \<Rightarrow> u64) \<Rightarrow> u64 \<Rightarrow> bool" where
  "barrier_ok takeBarrier glob len \<longleftrightarrow> (\<forall>k w k1 w1. takeBarrier (k, w) = (True, k1, w1) \<longrightarrow> k1 = k \<and> glob w1 = glob w + len)"

lemma unat_add_small: "unat (a :: u64) + unat b < 2 ^ 64 \<Longrightarrow> unat (a + b) = unat a + unat b"
  by (simp add: unat_word_ariths)

lemma phase_loop_ends:
  assumes tb: "barrier_ok takeBarrier glob len" and len: "0 < len"
    and set_pend: "\<And>c k. cur (set_pend c k) = cur k" "\<And>c k. pend (set_pend c k) = c"
    and start: "pend k = glob w + len" and room: "unat (cur k) + unat len < 2 ^ 64"
  shows "\<exists>k' w'. phase_loop chk takeBarrier glob len cur pend set_pend (k, w) = Some (Inr (k', w'))
    \<and> (cur k' = cur k \<and> cur k' \<le> pend k' \<and> pend k' = glob w' + len \<and> (k' = k \<or> pend k' < cur k' + len)
       \<or> (\<exists>k1 w1. takeBarrier (k1, w1) = (False, k', w')))"
  using start room
proof (induction "unat (cur k) - unat (pend k)" arbitrary: k w rule: less_induct)
  case less
  show ?case
  proof (cases "pend k < cur k")
    case False
    then have "phase_loop chk takeBarrier glob len cur pend set_pend (k, w) = Some (Inr (k, w))"
      by (subst phase_loop.simps) simp
    then show ?thesis using less.prems(1) False by (intro exI [of _ k] exI [of _ w]) (simp add: not_less)
  next
    case True
    let ?k = "set_pend (pend k + len) k"
    obtain same k1 w1 where t: "takeBarrier (?k, w) = (same, k1, w1)" by (metis prod_cases3)
    have unf: "phase_loop chk takeBarrier glob len cur pend set_pend (k, w)
      = (if same then phase_loop chk takeBarrier glob len cur pend set_pend (k1, w1) else Some (Inr (k1, w1)))"
      using True t less.prems(1) by (subst phase_loop.simps) simp
    show ?thesis
    proof (cases same)
      case False
      then show ?thesis using unf t by (intro exI [of _ k1] exI [of _ w1]) auto
    next
      case same: True
      have k1: "k1 = ?k" "glob w1 = glob w + len" using tb t same by (simp_all add: barrier_ok_def)
      have pl: "unat (pend k) < unat (cur k)" using True by (simp add: word_less_nat_alt)
      have no: "unat (pend k + len) = unat (pend k) + unat len"
        using pl less.prems(2) by (intro unat_add_small) linarith
      have nl: "unat (cur k + len) = unat (cur k) + unat len" using less.prems(2) by (intro unat_add_small) linarith
      have l0: "0 < unat len" using len by (simp add: word_less_nat_alt)
      have dec: "unat (cur k1) - unat (pend k1) < unat (cur k) - unat (pend k)"
        unfolding k1 set_pend no using pl l0 by linarith
      have s1: "pend k1 = glob w1 + len" unfolding k1 set_pend less.prems(1) by simp
      have r1: "unat (cur k1) + unat len < 2 ^ 64" unfolding k1 set_pend by (rule less.prems(2))
      obtain k' w' where IH: "phase_loop chk takeBarrier glob len cur pend set_pend (k1, w1) = Some (Inr (k', w'))"
        "cur k' = cur k1 \<and> cur k' \<le> pend k' \<and> pend k' = glob w' + len \<and> (k' = k1 \<or> pend k' < cur k' + len)
         \<or> (\<exists>k1 w1. takeBarrier (k1, w1) = (False, k', w'))" using less.hyps [OF dec s1 r1] by blast
      have "pend k1 < cur k1 + len" unfolding k1 set_pend word_less_nat_alt no nl using pl by simp
      then have "cur k' = cur k \<and> cur k' \<le> pend k' \<and> pend k' = glob w' + len \<and> (k' = k \<or> pend k' < cur k' + len)
         \<or> (\<exists>k1 w1. takeBarrier (k1, w1) = (False, k', w'))"
        using IH(2) k1(1) set_pend(1) by metis
      then show ?thesis using unf same IH(1) by auto
    qed
  qed
qed

text \<open>
  C0. At the end of a basic block a simple core waits at the barrier until its clock is not
  past its phase: the loop ends without a failed assertion, with the core in the phase of the
  simulator and its end less than one phase after its clock (if it waited), unless the thread
  lost the core, when it returns at once.
\<close>

theorem simple_core_phases:
  assumes "barrier_ok takeBarrier glob len" and "0 < len" and "simple_bbl L a b (simple_join (glob w) len k0) = Inr k"
    and "unat (sc_curCycle k) + unat len < 2 ^ 64"
  shows "\<exists>k' w'. simple_BblFunc takeBarrier glob len L a b (simple_join (glob w) len k0, w) = Inr (k', w')
    \<and> (sc_curCycle k' = sc_curCycle k \<and> sc_curCycle k' \<le> sc_phaseEndCycle k' \<and> sc_phaseEndCycle k' = glob w' + len
        \<and> (k' = k \<or> sc_phaseEndCycle k' < sc_curCycle k' + len)
       \<or> (\<exists>k1 w1. takeBarrier (k1, w1) = (False, k', w')))"
proof -
  have "sc_phaseEndCycle (simple_join (glob w) len k0) = glob w + len" by (simp add: simple_join_def Let_def)
  moreover have "simple_fetch L as j = Inr k \<Longrightarrow> sc_phaseEndCycle k = sc_phaseEndCycle j" for as j
    by (induction as arbitrary: j) (auto simp: rbind_def split: sum.splits prod.splits)
  ultimately have "sc_phaseEndCycle k = glob w + len"
    using assms(3) by (auto simp: simple_bbl_def Let_def rbind_def split: sum.splits)
  then obtain k' w' where "phase_loop True takeBarrier glob len sc_curCycle sc_phaseEndCycle (\<lambda>c k. k\<lparr>sc_phaseEndCycle := c\<rparr>) (k, w) = Some (Inr (k', w'))"
    "sc_curCycle k' = sc_curCycle k \<and> sc_curCycle k' \<le> sc_phaseEndCycle k' \<and> sc_phaseEndCycle k' = glob w' + len
        \<and> (k' = k \<or> sc_phaseEndCycle k' < sc_curCycle k' + len) \<or> (\<exists>k1 w1. takeBarrier (k1, w1) = (False, k', w'))"
    using phase_loop_ends [where cur = sc_curCycle and pend = sc_phaseEndCycle and set_pend = "\<lambda>c k. k\<lparr>sc_phaseEndCycle := c\<rparr>" and chk = True and k = k and w = w,
      OF assms(1,2) _ _ _ assms(4)] by auto
  then show ?thesis by (intro exI [of _ k'] exI [of _ w']) (simp add: simple_BblFunc_def assms(3) opt_return_def)
qed

definition demo_ports :: "(unit, unit) l1_ports" where
  "demo_ports = \<lparr>lp_access = demo_l1, lp_dummy = (3, 0), lp_l1i = demo_filter, lp_l1d = demo_filter\<rparr>"

definition demo_core :: "(unit, unit) simple_core" where
  "demo_core = \<lparr>sc_mem = \<lparr>l1i = filter_init, l1d = filter_init, mem_hier = hier_init () (\<lambda>_. ())\<rparr>,
     sc_instrs = 0, sc_curCycle = 0, sc_phaseEndCycle = 0, sc_haltedCycles = 0\<rparr>"

theorem simple_core_phases_witness:
  "\<exists>k' w'. simple_BblFunc (\<lambda>(k, w). (True, k, w + 1000)) (\<lambda>w. w) 1000 demo_ports 0x1000 \<lparr>b_instrs = 2500, b_bytes = 0\<rparr>
      (simple_join 3000 1000 demo_core, 3000) = Inr (k', w') \<and> sc_curCycle k' = 5500 \<and> sc_curCycle k' \<le> w' + 1000"
proof -
  let ?b = "\<lparr>b_instrs = 2500, b_bytes = 0\<rparr>"
  have tb: "barrier_ok (\<lambda>(k :: (unit, unit) simple_core, w :: u64). (True, k, w + 1000)) (\<lambda>w. w) 1000" by (simp add: barrier_ok_def)
  obtain k where k: "simple_bbl demo_ports 0x1000 ?b (simple_join ((\<lambda>w. w) 3000) 1000 demo_core) = Inr k" "sc_curCycle k = 5500"
    by (simp add: simple_bbl_def simple_join_def demo_core_def demo_ports_def fetch_addrs.simps opt_return_def)
  have r: "unat (sc_curCycle k) + unat (1000 :: u64) < 2 ^ 64" by (simp add: k)
  from simple_core_phases [OF tb _ k(1) r] show ?thesis using k(2) by auto
qed

end
