(* ===== verification/Spec2Isabelle.thy ===== *)
theory Spec2Isabelle
  imports ZCache Coherence EventQueue SlabAlloc IdealArrays Lookahead HashFns Hawkeye Vantage Prefetcher SchedProps OooWindow OooQueues Cores
begin

text \<open>
  This development models the simulated memory system of zsim, a many-core simulator: the
  caches and their coherence protocol, the arrays and replacement policies they are built
  from, the monitors and partitioners that divide a cache among programs, the memory
  controllers, the event queues and allocator of the weave (contention) phase, and the
  barrier that runs the simulated threads in phases. File names are relative to
  \<open>src/zsim/src\<close>.

  \<^bold>\<open>How the parts work together.\<close> A core's load or store becomes a \<open>MemReq\<close> to its L1
  (\<open>Cache::access\<close>, cache.cpp). A cache looks the line up in its array, on a miss asks the
  replacement policy for a victim, lets its coherence controller evict the victim, and then
  lets the controller process the access, which may recurse to a parent cache or a memory
  controller; a parent sends invalidations back down to other children. Replacement policies
  see the controller (for line validity and sharers) and are told about each access,
  insertion and eviction. Partitioned policies also ask a mapper for the partition of a
  request and feed a utility monitor, from whose miss curves the partitioner computes new
  allocations every so often. Requests that reach memory get a latency from a memory
  controller. Simulated threads run between the phases of the barrier; the priority queues
  and slabs hold the events of the weave phase.

  \<^bold>\<open>Prelude.\<close> \<open>ZPrelude\<close>: widths of the C types, the result type of an operation that may stop
  the simulator (\<open>AssertFail\<close>, \<open>Panic\<close>, \<open>NoReturn\<close>, \<open>OutOfFuel\<close>), loops over lists that may fail,
  and generic lemmas on words and lists. \<open>Bithacks\<close>: bithacks.h.

  \<^bold>\<open>Caches and coherence\<close> (memory_hierarchy.h and .cpp, cache.h and .cpp, coherence_ctrls.h and
  .cpp, filter_cache.h). \<open>MemTypes\<close> has the request, state and flag types. \<open>HierState\<close> is the
  store of all caches of a hierarchy: for each cache the array of tags, the MESI state and
  the sharer set of each line, the policy's state and the lock bits. \<open>MesiCC\<close> models the bottom
  and top controllers (\<open>MESIBottomCC\<close>, \<open>MESITopCC\<close>) operation by operation, \<open>CacheCtrl\<close> the
  integrated and terminal controllers and \<open>Cache::access\<close>, \<open>Hierarchy\<close> ties the recursive calls.
  \<open>HierInval\<close> and \<open>HierAccess\<close> show that invalidations going down and accesses going up keep
  the directory invariant, and \<open>Coherence\<close> concludes: any sequence of accesses of the cores
  leaves the hierarchy coherent (one writer or many readers), with each directory exactly the
  set of children that hold the line, and does not fail. The recursion is bounded by fuel: an
  access from a level with \<open>lev\<close> levels above it needs \<open>Suc lev\<close>, the depth of the tree, and
  invalidations the height below, so that the fuel is never used up on a well-formed tree.

  \<^bold>\<open>Arrays and replacement\<close> (cache_arrays.h and .cpp, repl_policies.h, rrip_repl.h, ship_repl.h,
  hawkeye_repl.h, ideal_arrays.h). The locales of \<open>ReplIface\<close> and \<open>ArrayIface\<close> state what the
  caches ask of a policy and of an array; \<open>LruRepl\<close>, \<open>LegacyRepl\<close>, \<open>RripRepl\<close>, \<open>ShipRepl\<close>, \<open>Hawkeye\<close>
  provide the former and \<open>SetAssoc\<close>, \<open>ZCache\<close> the latter, and every interpretation is on the
  code's own definitions. The lemmas show which line each policy evicts, that the ranking
  loops terminate, and that a zcache relocation moves every line to a place it hashes to and
  loses only the victim. \<open>LruStack\<close> is the abstract LRU stack; \<open>IdealArrays\<close> shows that the fully
  associative array implements it. \<open>Hawkeye\<close> shows that the occupancy vector implements the
  offline decision of Belady's algorithm on the recorded history.

  \<^bold>\<open>Partitioning\<close> (utility_monitor.h and .cpp, partitioner.h, monitor.cpp, lookahead.cpp,
  partition_mapper.h and .cpp, part_repl_policies.h, hash.h and .cpp, mtrand.h). \<open>UtilityMonitor\<close>
  shows that the monitor's linked lists count exactly the misses of LRU caches of every size
  (the miss curve of \<open>LruStack\<close>). \<open>Lookahead\<close> models the monitor front end and the lookahead
  algorithm. \<open>PartPolicies\<close> and \<open>Vantage\<close> model way partitioning and Vantage over any mapper and
  monitor that satisfy the locale \<open>part_env\<close>, and show that the partition sizes they maintain are
  the numbers of lines that belong to each partition. \<open>HashFns\<close> and \<open>MTRandom\<close> are the hash
  families and the random generator (which draws the sequence of the recurrence of the
  Mersenne twister, and saves and loads its state).

  \<^bold>\<open>Weave phase and memory\<close> (prio_queue.h, event_queue.h, slab_alloc.h, intrusive_list.h,
  mem_ctrls.h and .cpp, weave_md1_mem.h). \<open>PrioQueue\<close>: the blocked queue returns events in cycle
  order. \<open>EventQueue\<close>: which phase events fire at a tick. \<open>IntrusiveList\<close> and \<open>SlabAlloc\<close>: lists in
  a store of nodes, and an allocator whose live blocks never overlap. \<open>MemCtrls\<close>: the memory
  controllers and the bounds of the M/D/1 latency.

  \<^bold>\<open>Prefetching\<close> (prefetcher.h and .cpp). \<open>Prefetcher\<close>: the stream prefetcher in front of a parent
  that is an argument; what it asks for and that it does not change the answer to the demand.

  \<^bold>\<open>Phases\<close> (barrier.h). \<open>Barrier\<close>: threads join, sync and leave in any order without a failed
  assertion, some thread always runs, and phases are fair.

  \<^bold>\<open>Scheduling\<close> (scheduler.h and .cpp). \<open>Scheduler\<close> has the threads, the contexts, the lists and
  every handler; the barrier is a part of its state, with the contexts as its threads, and the
  end of a phase calls back. \<open>BarrierClient\<close> says what an operation of the barrier does to the
  other threads. \<open>SchedAssign\<close> has the invariant of the assignment of threads to contexts and
  \<open>SchedSafe\<close> the one that follows each thread through the simulation, with the callback;
  \<open>SchedSteps\<close> and \<open>SchedRun\<close> show that the handlers keep both and define the steps of the threads
  and the watchdog, and \<open>SchedProps\<close> concludes: no handler fails, the assignment respects the
  masks and conserves work, no thread is lost on a handoff, and no deadline is passed. The
  steps leave out fake leaves and the matching of futexes, which have lemmas of their own.

  \<^bold>\<open>Bounds and loops.\<close> Addresses, cycles, timestamps and counters that can wrap keep their width;
  indices into allocated arrays and thread ids are natural numbers. Loops that may not end
  are \<open>partial_function (option)\<close> or yield \<open>NoReturn\<close>, and the theorems say when they return.
  Double arithmetic is exact arithmetic followed by a rounding function that is a parameter.

  \<^bold>\<open>Parameters.\<close> The SHA-1 function of PolarSSL, \<open>std::hash\<close>, double rounding, the memory
  controller below the last-level cache and the hash family of a monitor are arguments.

  \<^bold>\<open>Not modelled.\<close> Locking is modelled where a claim depends on it (the races of the coherence
  controllers); elsewhere an operation that holds its lock throughout is one step.
  Statistics, logging, configuration, Pin instrumentation, the decoder's tables, system-call
  virtualization and the shared heap are left out: they are input and output, tables, or
  code that is not under src. The cores, the timing events of the weave phase and the detailed
  DDR models are not modelled yet.
\<close>

end
